(* ===== verification/Prelude.thy ===== *)
theory Prelude
  imports Main "HOL-Library.Word" "HOL-Library.Sublist"
begin

text \<open>
  Shared vocabulary of the development: the bytes the router gives a meaning to, Go's
  substr expressions on strings, the run-time panics the code can raise, and the generic
  lemmas on lists that the components share.

  A Go string is a sequence of bytes; it is modelled as \<^typ>\<open>string\<close>, whose characters are
  bytes. An index or substr expression out of range panics in Go, so every operation of the
  model that indexes says what happens there.
\<close>

named_theorems tree_simps \<open>rewrite rules of the routing tree\<close>

section \<open>Bytes with a meaning\<close>

abbreviation slash :: char where "slash \<equiv> CHR ''/''"
abbreviation colon :: char where "colon \<equiv> CHR '':''"
abbreviation star :: char where "star \<equiv> CHR ''*''"
abbreviation dot :: char where "dot \<equiv> CHR ''.''"

text \<open>The two wildcard bytes of a route pattern.\<close>

definition is_wild :: "char \<Rightarrow> bool" where
  "is_wild c \<longleftrightarrow> c = colon \<or> c = star"

lemma is_wild_simps [simp]:
  "is_wild colon" "is_wild star" "\<not> is_wild slash" "\<not> is_wild dot"
  by (simp_all add: is_wild_def)

section \<open>Panics\<close>

text \<open>
  What a Go panic carries: the run-time errors, and the messages of the router's own
  \<open>panic\<close> calls with the strings they are built from.
\<close>

datatype panic =
    IndexOutOfRange
  | SliceBounds
  | NilDereference
  | InvalidNodeType
  | WildcardConflict string string string
      \<comment> \<open>path segment, existing wildcard, full path\<close>
  | HandleExists string
  | OneWildcardPerSegment string string
  | UnreachableChildren string string
  | EmptyWildcardName string
  | CatchAllNotLast string
  | CatchAllSegmentRoot string
  | NoSlashBeforeCatchAll string
  | HandlerPanic string
      \<comment> \<open>raised by application code\<close>
  | PanicMessage string
      \<comment> \<open>\<open>panic\<close> with a message\<close>
  | UnsupportedField nat
      \<comment> \<open>the field that \<open>Marshal\<close> cannot write\<close>
  | NotGlobalMessage
  | SendOnClosed
  | CloseOfClosed
  | NegativeWaitGroup
  | UnknownCertKeyType
  | DivideByZero

section \<open>Steps that may wait or panic\<close>

text \<open>A function that waits is \<open>Blocks\<close>: it runs again when the state has changed.\<close>

datatype 'a step = Ran 'a | Blocks | Panicked panic

primrec and_then :: "'a step \<Rightarrow> ('a \<Rightarrow> 'b step) \<Rightarrow> 'b step" where
  "and_then (Ran x) f = f x"
| "and_then Blocks f = Blocks"
| "and_then (Panicked e) f = Panicked e"

text \<open>A function that may run for ever, as an option: such a run never returns.\<close>

definition returns :: "'a option \<Rightarrow> 'a step" where
  "returns x = (case x of None \<Rightarrow> Blocks | Some y \<Rightarrow> Ran y)"

lemma and_then_Ran: "and_then s f = Ran y \<longleftrightarrow> (\<exists>x. s = Ran x \<and> f x = Ran y)"
  by (cases s) auto

lemma and_then_Panicked: "and_then s f = Panicked e \<longleftrightarrow> s = Panicked e \<or> (\<exists>x. s = Ran x \<and> f x = Panicked e)"
  by (cases s) auto

section \<open>Slices\<close>

text \<open>\<open>s[a:b]\<close>; the callers check \<open>a \<le> b \<le> len(s)\<close> where the code does not ensure it.\<close>

definition substr :: "'a list \<Rightarrow> nat \<Rightarrow> nat \<Rightarrow> 'a list" where
  "substr s a b = take (b - a) (drop a s)"

lemma substr_0 [simp]: "substr s 0 b = take b s"
  by (simp add: substr_def)

lemma substr_same [simp]: "substr s a a = []"
  by (simp add: substr_def)

lemma substr_append_drop: "a \<le> b \<Longrightarrow> substr s a b @ drop b s = drop a s"
  by (metis append_take_drop_id drop_drop le_add_diff_inverse2 substr_def)

lemma length_substr: "b \<le> length s \<Longrightarrow> length (substr s a b) = b - a"
  by (simp add: substr_def)

lemma set_substr: "set (substr s a b) \<subseteq> set (drop a s)"
  by (simp add: substr_def set_take_subset)

lemma substr_Suc:
  assumes "a \<le> b" "b < length s"
  shows "substr s a (Suc b) = substr s a b @ [s ! b]"
  using assms by (simp add: substr_def Suc_diff_le take_Suc_conv_app_nth)

section \<open>Lists\<close>

text \<open>The first index of a byte, as the loops over \<open>indices\<close> find it.\<close>

fun find_index :: "'a \<Rightarrow> 'a list \<Rightarrow> nat option" where
  "find_index c [] = None"
| "find_index c (x # xs) = (if c = x then Some 0 else map_option Suc (find_index c xs))"

lemma find_index_None: "find_index c xs = None \<longleftrightarrow> c \<notin> set xs"
  by (induction xs) auto

lemma find_index_Some:
  "find_index c xs = Some k \<Longrightarrow> k < length xs \<and> xs ! k = c"
  by (induction xs arbitrary: k) (auto split: if_splits)

lemma find_index_distinct:
  "distinct xs \<Longrightarrow> k < length xs \<Longrightarrow> find_index (xs ! k) xs = Some k"
proof (induction xs arbitrary: k)
  case (Cons x xs)
  then show ?case by (cases k) auto
qed simp

text \<open>Length of the longest common prefix of two strings.\<close>

fun lcp :: "'a list \<Rightarrow> 'a list \<Rightarrow> nat" where
  "lcp (x # xs) (y # ys) = (if x = y then Suc (lcp xs ys) else 0)"
| "lcp _ _ = 0"

lemma lcp_le: "lcp xs ys \<le> length xs" "lcp xs ys \<le> length ys"
  by (induction xs ys rule: lcp.induct) auto

lemma lcp_take: "take (lcp xs ys) xs = take (lcp xs ys) ys"
  by (induction xs ys rule: lcp.induct) auto

lemma lcp_differ:
  "lcp xs ys < length xs \<Longrightarrow> lcp xs ys < length ys \<Longrightarrow> xs ! lcp xs ys \<noteq> ys ! lcp xs ys"
  by (induction xs ys rule: lcp.induct) auto

lemma lcp_eq_length: "lcp xs ys = length ys \<longleftrightarrow> prefix ys xs"
  by (induction xs ys rule: lcp.induct) auto

text \<open>Moving the element at one position towards the front, the others shifting right.\<close>

definition move_elem :: "nat \<Rightarrow> nat \<Rightarrow> 'a list \<Rightarrow> 'a list" where
  "move_elem src dst xs =
     take dst xs @ substr xs src (Suc src) @ substr xs dst src @ drop (Suc src) xs"

lemma move_elem_same [simp]: "k < length xs \<Longrightarrow> move_elem k k xs = xs"
  by (simp add: move_elem_def substr_def take_Suc_conv_app_nth flip: id_take_nth_drop)

lemma length_move_elem [simp]:
  "dst \<le> src \<Longrightarrow> src < length xs \<Longrightarrow> length (move_elem src dst xs) = length xs"
  by (simp add: move_elem_def substr_def)

lemma set_move_elem:
  assumes "dst \<le> src" "src < length xs"
  shows "set (move_elem src dst xs) = set xs"
proof -
  have "set xs = set (take dst xs) \<union> set (substr xs dst src) \<union> set (drop src xs)"
    by (metis (no_types) append_take_drop_id assms(1) set_append substr_append_drop sup_assoc)
  moreover have "drop src xs = substr xs src (Suc src) @ drop (Suc src) xs"
    by (simp add: substr_append_drop)
  ultimately show ?thesis by (auto simp: move_elem_def)
qed

lemma nth_move_elem:
  "dst \<le> src \<Longrightarrow> src < length xs \<Longrightarrow> move_elem src dst xs ! dst = xs ! src"
  by (simp add: move_elem_def substr_def nth_append)

lemma zip_move_elem:
  assumes "length xs = length ys"
  shows "zip (move_elem a b xs) (move_elem a b ys) = move_elem a b (zip xs ys)"
  using assms by (simp add: move_elem_def substr_def zip_append take_zip drop_zip)

lemma distinct_move_elem:
  assumes "dst \<le> src" "src < length xs"
  shows "distinct (move_elem src dst xs) \<longleftrightarrow> distinct xs"
  using assms set_move_elem [OF assms] length_move_elem [OF assms]
  by (metis card_distinct distinct_card)

end
