(* ===== verification/Clean_Path.thy ===== *)
theory Clean_Path
  imports Prelude
begin

text \<open>
  \<^verbatim>\<open>router/path.go\<close>: \<open>CleanPath\<close> and its lazily allocated buffer \<open>bufApp\<close>.

  The model keeps the buffer, the two indices \<open>r\<close> and \<open>w\<close>, the flag \<open>trailing\<close> and every
  read and write at an index; a read or write out of range is the panic
  \<^const>\<open>IndexOutOfRange\<close>. The specification \<open>clean_spec\<close> splits the path at the slashes,
  folds the elements into a stack and renders it; \<open>CleanPath_refines\<close> says that the code
  never panics and computes it.
\<close>

section \<open>The code\<close>

text \<open>
  \<open>bufApp\<close>: as long as the output agrees with a prefix of the input there is no buffer
  (\<^const>\<open>None\<close>, the nil slice); the first byte that differs allocates one.
\<close>

definition bufApp :: "string option \<Rightarrow> string \<Rightarrow> nat \<Rightarrow> char \<Rightarrow> panic + string option" where
  "bufApp buf s w c =
     (case buf of
        None \<Rightarrow>
          if length s \<le> w then Inl IndexOutOfRange
          else if s ! w = c then Inr None
          else Inr (Some ((take w s @ replicate (length s - w) (CHR 0x00))[w := c]))
      | Some b \<Rightarrow>
          if length b \<le> w then Inl IndexOutOfRange else Inr (Some (b[w := c])))"

text \<open>The loop \<open>for w > 1 && b[w] != '/' { w-- }\<close>, over the path or over the buffer.\<close>

fun backtrack :: "string \<Rightarrow> nat \<Rightarrow> panic + nat" where
  "backtrack b 0 = Inr 0"
| "backtrack b (Suc w) =
     (if Suc w > 1 then
        (if length b \<le> Suc w then Inl IndexOutOfRange
         else if b ! Suc w \<noteq> slash then backtrack b w
         else Inr (Suc w))
      else Inr (Suc w))"

text \<open>The loop that copies one path element.\<close>

function copyElem :: "string \<Rightarrow> string option \<Rightarrow> nat \<Rightarrow> nat \<Rightarrow>
    panic + string option \<times> nat \<times> nat" where
  "copyElem p buf r w =
     (if r < length p \<and> p ! r \<noteq> slash then
        (case bufApp buf p w (p ! r) of
           Inl e \<Rightarrow> Inl e
         | Inr buf' \<Rightarrow> copyElem p buf' (r + 1) (w + 1))
      else Inr (buf, r, w))"
  by pat_completeness auto
termination
  by (relation "measure (\<lambda>(p, buf, r, w). length p - r)") auto

declare copyElem.simps [simp del]

lemma copyElem_ge: "copyElem p buf r w = Inr (buf', r', w') \<Longrightarrow> r \<le> r'"
proof (induction p buf r w rule: copyElem.induct)
  case (1 p buf r w)
  show ?case
    using "1.prems" "1.IH"
    by (subst (asm) copyElem.simps) (fastforce split: if_splits sum.splits)
qed

lemma copyElem_gr:
  "copyElem p buf r w = Inr (buf', r', w') \<Longrightarrow> r < length p \<Longrightarrow> p ! r \<noteq> slash \<Longrightarrow> r < r'"
  by (subst (asm) copyElem.simps) (auto split: sum.splits dest: copyElem_ge)

text \<open>The variables of \<open>CleanPath\<close> and one iteration of its loop, the \<open>switch\<close> in the
  order of the code.\<close>

record clean_state =
  c_buf :: "string option"
  c_r :: nat
  c_w :: nat
  c_trailing :: bool

text \<open>\<open>bufApp(&buf, p, w, '/'); w++\<close>, guarded as the code guards it.\<close>

definition appendSlash :: "bool \<Rightarrow> string \<Rightarrow> clean_state \<Rightarrow> panic + clean_state" where
  "appendSlash guard p s =
     (if guard \<and> c_w s > 1
      then map_sum id (\<lambda>b. s\<lparr>c_buf := b, c_w := c_w s + 1\<rparr>) (bufApp (c_buf s) p (c_w s) slash)
      else Inr s)"

definition cleanStep :: "string \<Rightarrow> clean_state \<Rightarrow> panic + clean_state" where
  "cleanStep p s =
     (let n = length p; r = c_r s; w = c_w s in
      if p ! r = slash then Inr (s\<lparr>c_r := r + 1\<rparr>)
      else if p ! r = dot \<and> r + 1 = n then Inr (s\<lparr>c_trailing := True, c_r := r + 1\<rparr>)
      else if p ! r = dot \<and> p ! (r + 1) = slash then Inr (s\<lparr>c_r := r + 1\<rparr>)
      else if p ! r = dot \<and> p ! (r + 1) = dot \<and> (r + 2 = n \<or> p ! (r + 2) = slash) then
        (if w > 1
         then map_sum id (\<lambda>w'. s\<lparr>c_r := r + 2, c_w := w'\<rparr>)
                (backtrack (case c_buf s of None \<Rightarrow> p | Some b \<Rightarrow> b) (w - 1))
         else Inr (s\<lparr>c_r := r + 2\<rparr>))
      else
        (case appendSlash True p s of
           Inl e \<Rightarrow> Inl e
         | Inr s' \<Rightarrow>
             map_sum id (\<lambda>(b, r', w'). s'\<lparr>c_buf := b, c_r := r', c_w := w'\<rparr>)
               (copyElem p (c_buf s') r (c_w s'))))"

lemma appendSlash_frame:
  "appendSlash g p s = Inr s' \<Longrightarrow> c_r s' = c_r s \<and> c_trailing s' = c_trailing s"
  by (auto simp: appendSlash_def map_sum_def split: sum.splits if_splits)

lemma cleanStep_progress:
  assumes "cleanStep p s = Inr s'" "c_r s < length p"
  shows "c_r s < c_r s'"
  using assms
  by (auto simp: cleanStep_def Let_def map_sum_def split: if_splits sum.splits
      dest!: copyElem_gr appendSlash_frame)

function cleanLoop :: "string \<Rightarrow> clean_state \<Rightarrow> panic + clean_state" where
  "cleanLoop p s =
     (if c_r s < length p
      then (case cleanStep p s of Inl e \<Rightarrow> Inl e | Inr s' \<Rightarrow> cleanLoop p s')
      else Inr s)"
  by pat_completeness auto
termination
  by (relation "measure (\<lambda>(p, s). length p - c_r s)") (auto dest!: cleanStep_progress)

declare cleanLoop.simps [simp del]

definition cleanInit :: "string \<Rightarrow> clean_state" where
  "cleanInit p =
     (let n = length p; relative = (p ! 0 \<noteq> slash)
      in \<lparr>c_buf = (if relative then Some ((replicate (n + 1) (CHR 0x00))[0 := slash]) else None),
          c_r = (if relative then 0 else 1), c_w = 1,
          c_trailing = (n > 2 \<and> p ! (n - 1) = slash)\<rparr>)"

definition CleanPath :: "string \<Rightarrow> panic + string" where
  "CleanPath p =
     (if p = [] then Inr ''/''
      else
        (case cleanLoop p (cleanInit p) of
           Inl e \<Rightarrow> Inl e
         | Inr s \<Rightarrow>
             (case appendSlash (c_trailing s) p s of
                Inl e \<Rightarrow> Inl e
              | Inr s' \<Rightarrow>
                  let out = (case c_buf s' of None \<Rightarrow> p | Some b \<Rightarrow> b)
                  in if c_w s' \<le> length out then Inr (take (c_w s') out) else Inl SliceBounds)))"

section \<open>The specification\<close>

text \<open>The elements of a path: the strings between its slashes, empty ones included.\<close>

fun elements :: "string \<Rightarrow> string list" where
  "elements [] = [[]]"
| "elements (c # s) =
     (if c = slash then [] # elements s
      else (c # hd (elements s)) # tl (elements s))"

text \<open>One element applied to the stack of elements kept so far (the last one on the right).\<close>

definition push_elem :: "string list \<Rightarrow> string \<Rightarrow> string list" where
  "push_elem acc e =
     (if e = [] \<or> e = ''.'' then acc
      else if e = ''..'' then butlast acc
      else acc @ [e])"

definition resolve :: "string list \<Rightarrow> string list" where
  "resolve es = foldl push_elem [] es"

definition render :: "string list \<Rightarrow> string" where
  "render es = concat (map (\<lambda>e. slash # e) es)"

text \<open>What \<open>buf[:w]\<close> holds while the stack is \<open>acc\<close>: a slash, or the rendered elements.\<close>

definition rooted :: "string list \<Rightarrow> string" where
  "rooted acc = (if acc = [] then ''/'' else render acc)"

definition keeps_slash :: "string \<Rightarrow> bool" where
  "keeps_slash p \<longleftrightarrow> length p > 2 \<and> last p = slash \<or> last (elements p) = ''.''"

definition clean_spec :: "string \<Rightarrow> string" where
  "clean_spec p =
     (let acc = resolve (elements p)
      in rooted acc @ (if acc \<noteq> [] \<and> keeps_slash p then ''/'' else ''''))"

section \<open>The buffer refines a growing string\<close>

text \<open>
  \<open>base p\<close> is the byte the code adds in front of a relative path. \<open>holds p buf w out\<close>: the
  first \<open>w\<close> bytes of the buffer, or of the path while there is no buffer, are \<open>out\<close>.
\<close>

definition base :: "string \<Rightarrow> nat" where
  "base p = (if p \<noteq> [] \<and> hd p = slash then 0 else 1)"

definition holds :: "string \<Rightarrow> string option \<Rightarrow> nat \<Rightarrow> string \<Rightarrow> bool" where
  "holds p buf w out \<longleftrightarrow> w = length out \<and>
     (case buf of None \<Rightarrow> base p = 0 \<and> w \<le> length p \<and> take w p = out
      | Some b \<Rightarrow> length b = length p + base p \<and> w \<le> length b \<and> take w b = out)"

lemma bufApp_holds:
  assumes "holds p buf w out" "w < length p + base p"
  shows "\<exists>buf'. bufApp buf p w c = Inr buf' \<and> holds p buf' (w + 1) (out @ [c])"
proof (cases buf)
  case None
  then show ?thesis
    using assms by (auto simp: bufApp_def holds_def take_Suc_conv_app_nth)
next
  case (Some b)
  then show ?thesis
    using assms by (auto simp: bufApp_def holds_def take_Suc_conv_app_nth)
qed

lemma copyElem_holds:
  assumes "holds p buf w out" "r \<le> length p"
    "w + length (takeWhile (\<lambda>c. c \<noteq> slash) (drop r p)) \<le> length p + base p"
  shows "\<exists>buf'. copyElem p buf r w =
      Inr (buf', r + length (takeWhile (\<lambda>c. c \<noteq> slash) (drop r p)),
           w + length (takeWhile (\<lambda>c. c \<noteq> slash) (drop r p))) \<and>
    holds p buf' (w + length (takeWhile (\<lambda>c. c \<noteq> slash) (drop r p)))
      (out @ takeWhile (\<lambda>c. c \<noteq> slash) (drop r p))"
  using assms
proof (induction "length p - r" arbitrary: buf r w out)
  case 0
  then show ?case by (simp add: copyElem.simps)
next
  case (Suc k)
  then have r: "r < length p" by simp
  then have d: "drop r p = p ! r # drop (r + 1) p" by (simp add: Cons_nth_drop_Suc)
  show ?case
  proof (cases "p ! r = slash")
    case True
    with d Suc.prems show ?thesis by (simp add: copyElem.simps)
  next
    case False
    with d Suc.prems have "w < length p + base p" by simp
    from bufApp_holds [OF Suc.prems(1) this, of "p ! r"] obtain b1 where
      b1: "bufApp buf p w (p ! r) = Inr b1" "holds p b1 (w + 1) (out @ [p ! r])" by auto
    have "\<exists>buf'. copyElem p b1 (r + 1) (w + 1) =
       Inr (buf', r + 1 + length (takeWhile (\<lambda>c. c \<noteq> slash) (drop (r + 1) p)),
           w + 1 + length (takeWhile (\<lambda>c. c \<noteq> slash) (drop (r + 1) p))) \<and>
       holds p buf' (w + 1 + length (takeWhile (\<lambda>c. c \<noteq> slash) (drop (r + 1) p)))
        ((out @ [p ! r]) @ takeWhile (\<lambda>c. c \<noteq> slash) (drop (r + 1) p))"
      using Suc d False r b1(2) by (intro Suc.hyps(1)) auto
    with False r d b1(1) show ?thesis by (simp add: copyElem.simps [of p buf])
  qed
qed

lemma backtrack_stop:
  assumes "length out < length b" "take (length out + length e + 1) b = out @ slash # e"
    "slash \<notin> set e" "out \<noteq> []" "k \<le> length e"
    "length out + length e + 1 \<le> length b"
  shows "backtrack b (length out + k) = Inr (length out)"
  using assms(5)
proof (induction k)
  case 0
  have "b ! length out = slash"
    using assms by (metis add.commute less_add_Suc1 nth_append_length nth_take plus_1_eq_Suc add_Suc_right)
  with assms show ?case by (cases "length out") auto
next
  case (Suc k)
  have "take (length out + length e + 1) b ! (length out + Suc k) = e ! k"
    using assms(2) Suc.prems by (simp add: nth_append)
  with Suc.prems assms(3) have "b ! (length out + Suc k) \<noteq> slash"
    using nth_mem [of k e] by (auto simp del: nth_mem)
  with Suc assms(4,6) show ?case by (cases "length out") auto
qed

section \<open>The loop invariant\<close>

lemma elements_nonempty [simp]: "elements s \<noteq> []"
  by (cases s) auto

lemma elements_static [simp]: "slash \<notin> set e \<Longrightarrow> elements e = [e]"
  by (induction e) auto

lemma elements_append: "slash \<notin> set e \<Longrightarrow> elements (e @ slash # q) = e # elements q"
  by (induction e) auto

text \<open>An element that stays in the path.\<close>

definition well_formed_elem :: "string \<Rightarrow> bool" where
  "well_formed_elem e \<longleftrightarrow> e \<noteq> [] \<and> e \<noteq> ''.'' \<and> e \<noteq> ''..'' \<and> slash \<notin> set e"

text \<open>
  The bounds of the invariant say why no write is out of range: at the start of an element
  the code has consumed a slash it has not yet written, and a trailing slash is only written
  when one was consumed at the end.
\<close>

definition clean_inv :: "string \<Rightarrow> string list \<Rightarrow> clean_state \<Rightarrow> bool" where
  "clean_inv p acc s \<longleftrightarrow>
     holds p (c_buf s) (c_w s) (rooted acc) \<and> (\<forall>e \<in> set acc. well_formed_elem e) \<and>
     c_r s \<le> length p \<and> c_w s \<le> c_r s + base p \<and>
     (c_w s > 1 \<and> c_r s < length p \<and> p ! c_r s \<noteq> slash \<longrightarrow> c_w s < c_r s + base p) \<and>
     (c_r s < length p \<longrightarrow> c_trailing s = (length p > 2 \<and> last p = slash)) \<and>
     (c_r s = length p \<and> c_trailing s \<and> c_w s > 1 \<longrightarrow> c_w s < length p + base p)"

lemma render_snoc: "render (acc @ [e]) = render acc @ slash # e"
  by (simp add: render_def)

lemma render_Nil [simp]: "render [] = []"
  by (simp add: render_def)

lemma render_eq_Nil [simp]: "render acc = [] \<longleftrightarrow> acc = []"
  by (simp add: render_def)

lemma rooted_snoc: "rooted (acc @ [e]) = (if acc \<noteq> [] then rooted acc @ ''/'' else ''/'') @ e"
  by (simp add: rooted_def render_snoc)

lemma length_rooted: "(\<forall>e \<in> set acc. e \<noteq> []) \<Longrightarrow> length (rooted acc) > 1 \<longleftrightarrow> acc \<noteq> []"
proof (cases acc)
  case (Cons e es)
  moreover assume "\<forall>e \<in> set acc. e \<noteq> []"
  ultimately show ?thesis by (cases e) (auto simp: rooted_def render_def)
qed (simp add: rooted_def)

lemma clean_inv_acc: "clean_inv p acc s \<Longrightarrow> c_w s > 1 \<longleftrightarrow> acc \<noteq> []"
  using length_rooted [of acc] by (auto simp: clean_inv_def holds_def well_formed_elem_def)

text \<open>Backtracking drops the last element of the stack.\<close>

lemma backtrack_root:
  assumes w: "w = Suc (length e)" "w \<le> length b" "take w b = slash # e" "slash \<notin> set e"
    and k: "Suc k \<le> length e"
  shows "backtrack b (Suc k) = Inr 1"
  using k
proof (induction k)
  case (Suc k)
  have "b ! Suc (Suc k) = take w b ! Suc (Suc k)"
    using Suc.prems w(1) by (subst nth_take) auto
  then have "b ! Suc (Suc k) = e ! Suc k" using w by simp
  then have "b ! Suc (Suc k) \<noteq> slash"
    using nth_mem [of "Suc k" e] Suc.prems w(4) by (auto simp del: nth_mem)
  with Suc w show ?case by simp
qed simp

lemma backtrack_holds:
  assumes h: "holds p buf w (rooted (acc @ [e]))" and e: "well_formed_elem e"
  shows "\<exists>w'. backtrack (case buf of None \<Rightarrow> p | Some b \<Rightarrow> b) (w - 1) = Inr w' \<and> w' < w \<and>
    holds p buf w' (rooted acc)"
proof -
  define b where "b = (case buf of None \<Rightarrow> p | Some b \<Rightarrow> b)"
  have w: "w = length (render acc) + 1 + length e" "w \<le> length b"
    "take w b = render acc @ slash # e"
    using h by (auto simp: holds_def rooted_def render_snoc b_def split: option.splits)
  have base: "buf = None \<Longrightarrow> base p = 0" using h by (auto simp: holds_def)
  show ?thesis
  proof (cases "acc = []")
    case False
    have "backtrack b (length (render acc) + length e) = Inr (length (render acc))"
      using w e False by (intro backtrack_stop) (auto simp: well_formed_elem_def)
    then have "backtrack b (w - 1) = Inr (length (render acc))" using w(1) by simp
    moreover have "take (length (render acc)) b = render acc"
      using arg_cong [OF w(3), of "take (length (render acc))"] w(1) by simp
    moreover have "length (render acc) < w" using w(1) by simp
    ultimately show ?thesis
      using w(2) False base h unfolding b_def [symmetric]
      by (auto simp: holds_def rooted_def b_def split: option.splits)
  next
    case True
    have "backtrack b (w - 1) = Inr 1"
      using backtrack_root [of w e b "length e - 1"] w e True
      by (cases e) (auto simp: well_formed_elem_def)
    moreover have "take 1 b = ''/''"
      using arg_cong [OF w(3), of "take 1"] w True by simp
    moreover have "1 < w" using w(1) e by (cases e) (auto simp: well_formed_elem_def)
    ultimately show ?thesis
      using w(2) True base h unfolding b_def [symmetric]
      by (auto simp: holds_def rooted_def b_def split: option.splits)
  qed
qed

lemma cleanStep_slash:
  assumes inv: "clean_inv p acc s" and r: "c_r s < length p" and d: "drop (c_r s) p = slash # q"
  shows "cleanStep p s = Inr (s\<lparr>c_r := c_r s + 1\<rparr>) \<and>
    clean_inv p acc (s\<lparr>c_r := c_r s + 1\<rparr>) \<and> drop (c_r s + 1) p = q"
proof -
  have "p ! c_r s = slash" using r d by (simp add: Cons_nth_drop_Suc [symmetric])
  moreover have "drop (c_r s + 1) p = q" using r d by (simp add: Cons_nth_drop_Suc [symmetric])
  ultimately show ?thesis
    using inv r by (auto simp: cleanStep_def clean_inv_def)
qed

lemma appendSlash_inv:
  assumes inv: "clean_inv p acc s" and r: "g \<and> c_w s > 1 \<longrightarrow> c_w s < length p + base p"
  shows "\<exists>s'. appendSlash g p s = Inr s' \<and> c_r s' = c_r s \<and> c_trailing s' = c_trailing s \<and>
    c_w s' = c_w s + (if g \<and> acc \<noteq> [] then 1 else 0) \<and>
    holds p (c_buf s') (c_w s') (rooted acc @ (if g \<and> acc \<noteq> [] then ''/'' else ''''))"
proof (cases "g \<and> c_w s > 1")
  case True
  then have "g" "c_w s > 1" "c_w s < length p + base p" using r by auto
  moreover have "holds p (c_buf s) (c_w s) (rooted acc)" using inv by (simp add: clean_inv_def)
  ultimately obtain buf' where "bufApp (c_buf s) p (c_w s) slash = Inr buf'"
      "holds p buf' (c_w s + 1) (rooted acc @ [slash])"
    using bufApp_holds [of p "c_buf s" "c_w s" "rooted acc" slash] by fast
  moreover have "acc \<noteq> []" using clean_inv_acc [OF inv] \<open>c_w s > 1\<close> by blast
  ultimately show ?thesis using \<open>g\<close> \<open>c_w s > 1\<close>
    by (intro exI [of _ "s\<lparr>c_buf := buf', c_w := c_w s + 1\<rparr>"]) (simp add: appendSlash_def)
next
  case False
  then have "\<not> (g \<and> acc \<noteq> [])" using clean_inv_acc [OF inv] by blast
  moreover have "appendSlash g p s = Inr s" using False by (auto simp: appendSlash_def)
  ultimately show ?thesis using inv
    by (intro exI [of _ s]) (auto simp: clean_inv_def)
qed

text \<open>The element \<open>e\<close> at the read index: the rest after it is empty or starts with a slash.\<close>

definition at_elem :: "string \<Rightarrow> nat \<Rightarrow> string \<Rightarrow> string \<Rightarrow> bool" where
  "at_elem p r e q \<longleftrightarrow> r < length p \<and> drop r p = e @ q \<and> e \<noteq> [] \<and> slash \<notin> set e \<and>
     (q = [] \<or> hd q = slash)"

lemma at_elem_facts:
  assumes "at_elem p r e q"
  shows "r + length e \<le> length p" "drop (r + length e) p = q"
    "r + length e < length p \<Longrightarrow> p ! (r + length e) = slash"
    "takeWhile (\<lambda>c. c \<noteq> slash) (drop r p) = e"
    "\<And>k. k < length e \<Longrightarrow> p ! (r + k) = e ! k" "p ! r \<noteq> slash"
    "r + length e = length p \<longleftrightarrow> q = []"
    "r + length e = length p \<Longrightarrow> last p \<noteq> slash"
proof -
  have a: "r < length p" "drop r p = e @ q" "e \<noteq> []" "slash \<notin> set e" "q = [] \<or> hd q = slash"
    using assms by (auto simp: at_elem_def)
  have len: "length p = r + length e + length q"
    using arg_cong [OF a(2), of length] a(1) by simp
  then show "r + length e \<le> length p" "r + length e = length p \<longleftrightarrow> q = []" by auto
  show q: "drop (r + length e) p = q"
    by (metis a(2) append_eq_conv_conj drop_drop add.commute)
  show "p ! (r + length e) = slash" if "r + length e < length p"
    using that q a(5) len by (metis hd_drop_conv_nth length_0_conv less_not_refl add_0_right)
  show "takeWhile (\<lambda>c. c \<noteq> slash) (drop r p) = e"
    using a by (cases q) (auto simp: takeWhile_append takeWhile_eq_all_conv)
  show n: "p ! (r + k) = e ! k" if "k < length e" for k
    using that a by (metis nth_append nth_drop less_imp_le)
  from n [of 0] a show "p ! r \<noteq> slash" by (metis add_0_right length_greater_0_conv nth_mem)
  show "last p \<noteq> slash" if "r + length e = length p"
    using that a len by (metis append_Nil2 last_drop last_in_set length_0_conv add_cancel_left_right)
qed

lemma at_elemI:
  assumes "r < length p" "p ! r \<noteq> slash"
  shows "\<exists>e q. at_elem p r e q"
proof -
  let ?e = "takeWhile (\<lambda>c. c \<noteq> slash) (drop r p)" and ?q = "dropWhile (\<lambda>c. c \<noteq> slash) (drop r p)"
  have "at_elem p r ?e ?q"
    using assms hd_dropWhile [of "\<lambda>c. c \<noteq> slash" "drop r p"]
    by (auto simp: at_elem_def Cons_nth_drop_Suc [symmetric] dest: set_takeWhileD)
  then show ?thesis by blast
qed

lemma elements_at: "at_elem p r e q \<Longrightarrow> elements (drop r p) = e # (if q = [] then [] else elements (tl q))"
  by (cases q) (auto simp: at_elem_def elements_append)

lemma elements_rest: "at_elem p r e q \<Longrightarrow> elements q = [] # (if q = [] then [] else elements (tl q))"
  by (cases q) (auto simp: at_elem_def)

text \<open>The tests of the \<open>switch\<close> in terms of the element.\<close>

lemma elem_dot:
  assumes "at_elem p r e q"
  shows "p ! r = dot \<and> r + 1 = length p \<longleftrightarrow> e = ''.'' \<and> q = []"
    "p ! r = dot \<and> p ! (r + 1) = slash \<and> r + 1 < length p \<longleftrightarrow> e = ''.'' \<and> q \<noteq> []"
    "r + 1 < length p \<and> p ! r = dot \<and> p ! (r + 1) = dot \<and> (r + 2 = length p \<or> p ! (r + 2) = slash)
      \<longleftrightarrow> e = ''..''"
proof -
  note f = at_elem_facts [OF assms]
  obtain c e' where e: "e = c # e'" using assms by (cases e) (auto simp: at_elem_def)
  have c: "p ! r = c" using f(5) [of 0] e by simp
  have d: "e' \<noteq> [] \<Longrightarrow> p ! (r + 1) = hd e'"
    using f(5) [of 1] e by (cases e') auto
  have ns: "slash \<notin> set e" using assms by (simp add: at_elem_def)
  show "p ! r = dot \<and> r + 1 = length p \<longleftrightarrow> e = ''.'' \<and> q = []"
    using c e f(1,7) by (cases e') auto
  show "p ! r = dot \<and> p ! (r + 1) = slash \<and> r + 1 < length p \<longleftrightarrow> e = ''.'' \<and> q \<noteq> []"
    using c d e f(1,3,7) ns by (cases e') auto
  show "r + 1 < length p \<and> p ! r = dot \<and> p ! (r + 1) = dot \<and>
      (r + 2 = length p \<or> p ! (r + 2) = slash) \<longleftrightarrow> e = ''..''"
  proof (cases e')
    case Nil
    then have "r + 1 < length p \<Longrightarrow> p ! (r + 1) = slash" using f(3) e by simp
    then show ?thesis using Nil e by auto
  next
    case (Cons x e'')
    have "e'' \<noteq> [] \<Longrightarrow> r + 2 < length p \<and> p ! (r + 2) \<noteq> slash"
      using f(1) f(5) [of 2] e Cons ns by (cases e'') auto
    then show ?thesis using Cons e c d f(1) f(3,7) by (cases e'') auto
  qed
qed

text \<open>The \<open>switch\<close> at an element other than a dot.\<close>

lemma cleanStep_at:
  assumes "at_elem p (c_r s) e q" "e \<noteq> ''.''"
  shows "cleanStep p s =
     (if e = ''..'' then
        (if c_w s > 1
         then map_sum id (\<lambda>w'. s\<lparr>c_r := c_r s + 2, c_w := w'\<rparr>)
                (backtrack (case c_buf s of None \<Rightarrow> p | Some b \<Rightarrow> b) (c_w s - 1))
         else Inr (s\<lparr>c_r := c_r s + 2\<rparr>))
      else
        (case appendSlash True p s of
           Inl e \<Rightarrow> Inl e
         | Inr s' \<Rightarrow>
             map_sum id (\<lambda>(b, r', w'). s'\<lparr>c_buf := b, c_r := r', c_w := w'\<rparr>)
               (copyElem p (c_buf s') (c_r s) (c_w s'))))"
proof -
  note dots = elem_dot [OF assms(1)] and f = at_elem_facts [OF assms(1)]
  have r: "c_r s < length p" using assms(1) by (simp add: at_elem_def)
  have "\<not> (p ! c_r s = dot \<and> c_r s + 1 = length p)" using dots(1) assms(2) by blast
  moreover have "\<not> (p ! c_r s = dot \<and> p ! (c_r s + 1) = slash)"
    using dots(1,2) assms(2) r calculation by fastforce
  moreover have "(p ! c_r s = dot \<and> p ! (c_r s + 1) = dot \<and>
      (c_r s + 2 = length p \<or> p ! (c_r s + 2) = slash)) = (e = ''..'')"
    using dots(3) r calculation by fastforce
  ultimately show ?thesis using f(6)
    unfolding cleanStep_def Let_def by (simp only: if_False)
qed

lemma cleanStep_dotdot:
  assumes inv: "clean_inv p acc s" and at: "at_elem p (c_r s) ''..'' q"
  shows "\<exists>s'. cleanStep p s = Inr s' \<and> clean_inv p (push_elem acc ''..'') s' \<and>
    drop (c_r s') p = q \<and> c_r s < c_r s' \<and> c_trailing s' = c_trailing s"
proof -
  note f = at_elem_facts [OF at]
  have holds: "holds p (c_buf s) (c_w s) (rooted acc)" using inv by (simp add: clean_inv_def)
  show ?thesis
  proof (cases "acc = []")
    case True
    then have "\<not> c_w s > 1" using clean_inv_acc [OF inv] by blast
    then show ?thesis using inv cleanStep_at [OF at] f(1,2,3,8) True
      by (auto simp: clean_inv_def push_elem_def numeral_2_eq_2)
  next
    case False
    then obtain acc' x where acc: "acc = acc' @ [x]" by (metis rev_exhaust)
    then have "well_formed_elem x" using inv by (simp add: clean_inv_def)
    with holds acc obtain w' where
      "backtrack (case c_buf s of None \<Rightarrow> p | Some b \<Rightarrow> b) (c_w s - 1) = Inr w'" "w' < c_w s"
      "holds p (c_buf s) w' (rooted acc')"
      using backtrack_holds by blast
    moreover have "c_w s > 1" using clean_inv_acc [OF inv] False by blast
    ultimately show ?thesis using inv cleanStep_at [OF at] f(1,2,3,8) acc
      by (auto simp: clean_inv_def push_elem_def numeral_2_eq_2)
  qed
qed

lemma cleanStep_name:
  assumes inv: "clean_inv p acc s" and at: "at_elem p (c_r s) e q" and name: "well_formed_elem e"
  shows "\<exists>s'. cleanStep p s = Inr s' \<and> clean_inv p (push_elem acc e) s' \<and>
    drop (c_r s') p = q \<and> c_r s < c_r s' \<and> c_trailing s' = c_trailing s"
proof -
  note f = at_elem_facts [OF at]
  have r: "c_r s < length p" using at by (simp add: at_elem_def)
  have w: "c_w s > 1 \<Longrightarrow> c_w s < c_r s + base p" using inv r f(6) by (simp add: clean_inv_def)
  then have "True \<and> c_w s > 1 \<longrightarrow> c_w s < length p + base p" using r by fastforce
  from appendSlash_inv [OF inv this] obtain s1 where s1: "appendSlash True p s = Inr s1"
    "c_r s1 = c_r s" "c_trailing s1 = c_trailing s"
    "c_w s1 = c_w s + (if acc \<noteq> [] then 1 else 0)"
    "holds p (c_buf s1) (c_w s1) (rooted acc @ (if acc \<noteq> [] then ''/'' else ''''))"
    by fastforce
  have le: "c_w s1 \<le> c_r s + base p"
    using s1(4) w inv clean_inv_acc [OF inv] by (auto simp: clean_inv_def)
  have "c_w s1 + length (takeWhile (\<lambda>c. c \<noteq> slash) (drop (c_r s) p)) \<le> length p + base p"
    using le f(1,4) by simp
  from copyElem_holds [OF s1(5) _ this] r f(4) obtain b where
    cp: "copyElem p (c_buf s1) (c_r s) (c_w s1) = Inr (b, c_r s + length e, c_w s1 + length e)"
    and h: "holds p b (c_w s1 + length e) (rooted (acc @ [e]))"
    by (auto simp: rooted_snoc split: if_splits)
      (metis append_Cons append_Nil rooted_def)+
  let ?s = "s1\<lparr>c_buf := b, c_r := c_r s + length e, c_w := c_w s1 + length e\<rparr>"
  have "cleanStep p s = Inr ?s"
    using cleanStep_at [OF at] name s1(1) cp by (simp add: well_formed_elem_def)
  moreover have "push_elem acc e = acc @ [e]"
    using name by (simp add: push_elem_def well_formed_elem_def)
  moreover have "clean_inv p (acc @ [e]) ?s"
    using inv h le f(1,3,8) name s1(3) r by (auto simp: clean_inv_def)
  ultimately show ?thesis
    using f(2) name s1(3) by (auto simp: well_formed_elem_def)
qed

lemma cleanStep_elem:
  assumes inv: "clean_inv p acc s" and at: "at_elem p (c_r s) e q"
  shows "\<exists>s'. cleanStep p s = Inr s' \<and> clean_inv p (push_elem acc e) s' \<and>
    drop (c_r s') p = q \<and> c_r s < c_r s' \<and> c_trailing s' = (c_trailing s \<or> e = ''.'' \<and> q = [])"
proof -
  note f = at_elem_facts [OF at] and dots = elem_dot [OF at]
  have r: "c_r s < length p" using at by (simp add: at_elem_def)
  consider (dot) "e = ''.''" | (dotdot) "e = ''..''" | (name) "well_formed_elem e"
    using at by (auto simp: well_formed_elem_def at_elem_def)
  then show ?thesis
  proof cases
    case dot
    show ?thesis
    proof (cases "q = []")
      case True
      then show ?thesis using inv f(2,6,7) dots(1) dot r
        by (auto simp: cleanStep_def clean_inv_def push_elem_def)
    next
      case False
      then show ?thesis using inv f(2,3,6,7) dots(1,2) dot r
        by (auto simp: cleanStep_def clean_inv_def push_elem_def)
    qed
  next
    case dotdot
    then show ?thesis using cleanStep_dotdot [OF inv] at by auto
  next
    case name
    then show ?thesis using cleanStep_name [OF inv at] by (auto simp: well_formed_elem_def)
  qed
qed

lemma push_elem_Nil [simp]: "push_elem acc [] = acc"
  by (simp add: push_elem_def)

lemma cleanLoop_inv:
  assumes "clean_inv p acc s"
  shows "\<exists>s'. cleanLoop p s = Inr s' \<and> c_r s' = length p \<and>
    clean_inv p (foldl push_elem acc (elements (drop (c_r s) p))) s' \<and>
    c_trailing s' = (c_trailing s \<or> last (elements (drop (c_r s) p)) = ''.'')"
  using assms
proof (induction "length p - c_r s" arbitrary: s acc rule: less_induct)
  case less
  show ?case
  proof (cases "c_r s < length p")
    case False
    with less.prems show ?thesis by (simp add: cleanLoop.simps clean_inv_def)
  next
    case True
    show ?thesis
    proof (cases "p ! c_r s = slash")
      case slash: True
      with True have d: "drop (c_r s) p = slash # drop (c_r s + 1) p"
        by (simp add: Cons_nth_drop_Suc [symmetric])
      note st = cleanStep_slash [OF less.prems True d]
      from less.hyps [of "s\<lparr>c_r := c_r s + 1\<rparr>" acc] True st d show ?thesis
        by (subst cleanLoop.simps) simp
    next
      case False
      from at_elemI [OF True this] obtain e q where at: "at_elem p (c_r s) e q" by blast
      from cleanStep_elem [OF less.prems at] obtain s1 where
        s1: "cleanStep p s = Inr s1" "clean_inv p (push_elem acc e) s1" "drop (c_r s1) p = q"
          "c_r s < c_r s1" "c_trailing s1 = (c_trailing s \<or> e = ''.'' \<and> q = [])"
        by blast
      have "length p - c_r s1 < length p - c_r s" using s1(4) True by simp
      from less.hyps [OF this s1(2)] s1(1,3,5) True elements_at [OF at] elements_rest [OF at]
      show ?thesis by (subst cleanLoop.simps) (auto split: if_splits)
    qed
  qed
qed

lemma clean_inv_init:
  assumes "p \<noteq> []"
  shows "clean_inv p [] (cleanInit p) \<and>
    foldl push_elem [] (elements (drop (c_r (cleanInit p)) p)) = resolve (elements p) \<and>
    (c_trailing (cleanInit p) \<or> last (elements (drop (c_r (cleanInit p)) p)) = ''.'') = keeps_slash p"
  using assms
  by (cases p) (auto simp: clean_inv_def cleanInit_def holds_def base_def rooted_def resolve_def
      keeps_slash_def last_conv_nth Let_def)

lemma holds_result:
  assumes "holds p buf w out"
  shows "w \<le> length (case buf of None \<Rightarrow> p | Some b \<Rightarrow> b)"
    "take w (case buf of None \<Rightarrow> p | Some b \<Rightarrow> b) = out"
  using assms by (auto simp: holds_def split: option.splits)

text \<open>The code never panics, and computes the specification.\<close>

lemma CleanPath_spec: "CleanPath p = Inr (clean_spec p)"
proof (cases "p = []")
  case True
  then show ?thesis by (simp add: CleanPath_def clean_spec_def resolve_def rooted_def)
next
  case False
  note init = clean_inv_init [OF False]
  from cleanLoop_inv [OF conjunct1 [OF init]] init obtain s where
    s: "cleanLoop p (cleanInit p) = Inr s" "c_r s = length p"
      "clean_inv p (resolve (elements p)) s" "c_trailing s = keeps_slash p"
    by auto
  have "c_trailing s \<and> c_w s > 1 \<longrightarrow> c_w s < length p + base p"
    using s(2,3) by (simp add: clean_inv_def)
  from appendSlash_inv [OF s(3) this] obtain s' where
    s': "appendSlash (c_trailing s) p s = Inr s'"
      "holds p (c_buf s') (c_w s') (rooted (resolve (elements p)) @
         (if c_trailing s \<and> resolve (elements p) \<noteq> [] then ''/'' else ''''))"
    by fast
  moreover have "rooted (resolve (elements p)) @
      (if c_trailing s \<and> resolve (elements p) \<noteq> [] then ''/'' else '''') = clean_spec p"
    by (auto simp: clean_spec_def s(4) Let_def)
  ultimately have "holds p (c_buf s') (c_w s') (clean_spec p)" by simp
  from holds_result [OF this] s(1) s'(1) False show ?thesis
    by (simp add: CleanPath_def)
qed

section \<open>Canonical paths\<close>

text \<open>
  A canonical path is the root, or a slash before each of one or more proper elements (not
  empty, not a dot, not two dots), and maybe one slash at the end.
\<close>

definition canonical :: "string \<Rightarrow> bool" where
  "canonical q \<longleftrightarrow>
     (let es = tl (elements q)
      in q = ''/'' \<or>
         hd (elements q) = [] \<and> es \<noteq> [] \<and> (\<forall>e \<in> set (butlast es). well_formed_elem e) \<and>
         (well_formed_elem (last es) \<or> last es = [] \<and> butlast es \<noteq> []))"

lemma elements_render:
  assumes "es \<noteq> []" "\<forall>e \<in> set es. slash \<notin> set e"
  shows "elements (render es) = [] # es" "elements (render es @ ''/'') = [] # es @ [[]]"
proof -
  have "elements (render es @ (if b then ''/'' else [])) = [] # es @ (if b then [[]] else [])" for b
    using assms
  proof (induction es rule: list_nonempty_induct)
    case (single e)
    then show ?case using elements_append [of e "[]"] by (simp add: render_def)
  next
    case (cons e es)
    obtain rest where rest: "render es @ (if b then ''/'' else []) = slash # rest"
      using cons.hyps by (cases es) (auto simp: render_def)
    have "elements (render (e # es) @ (if b then ''/'' else [])) =
        [] # elements (e @ slash # rest)"
      using rest by (simp add: render_def)
    also have "\<dots> = [] # e # elements rest" using cons.prems by (simp add: elements_append)
    also have "elements rest = es @ (if b then [[]] else [])"
      using cons.IH cons.prems rest by simp
    finally show ?case by simp
  qed
  from this [of False] this [of True]
  show "elements (render es) = [] # es" "elements (render es @ ''/'') = [] # es @ [[]]" by simp_all
qed

lemma resolve_proper: "(\<forall>e \<in> set es. well_formed_elem e) \<Longrightarrow> foldl push_elem acc es = acc @ es"
  by (induction es arbitrary: acc) (auto simp: push_elem_def well_formed_elem_def)

lemma elements_no_slash: "e \<in> set (elements s) \<Longrightarrow> slash \<notin> set e"
proof (induction s arbitrary: e)
  case (Cons c s)
  have hd: "hd (elements s) \<in> set (elements s)" by simp
  have tl: "set (tl (elements s)) \<subseteq> set (elements s)" by (simp add: list.set_sel(2) subsetI)
  consider "e = []" | "e \<in> set (elements s)" | "c \<noteq> slash" "e = c # hd (elements s)"
    using Cons.prems tl by (cases "c = slash") auto
  then show ?case
  proof cases
    case 1
    then show ?thesis by simp
  next
    case 2
    then show ?thesis by (rule Cons.IH)
  next
    case 3
    then show ?thesis using Cons.IH [OF hd] by simp
  qed
qed simp

lemma push_elem_proper:
  assumes "\<forall>e \<in> set acc. well_formed_elem e" "slash \<notin> set e"
  shows "\<forall>e \<in> set (push_elem acc e). well_formed_elem e"
  using assms by (auto simp: push_elem_def well_formed_elem_def dest: in_set_butlastD)

lemma resolve_elements_proper: "\<forall>e \<in> set (resolve (elements p)). well_formed_elem e"
proof -
  have "\<forall>e \<in> set (foldl push_elem acc es). well_formed_elem e"
    if "\<forall>e \<in> set acc. well_formed_elem e" "\<forall>e \<in> set es. slash \<notin> set e" for acc es
    using that
  proof (induction es arbitrary: acc)
    case (Cons e es)
    have "\<forall>e \<in> set (push_elem acc e). well_formed_elem e"
      using Cons.prems by (intro push_elem_proper) simp_all
    with Cons show ?case by simp
  qed simp
  from this [of "[]" "elements p"] show ?thesis
    by (auto simp: resolve_def dest: elements_no_slash)
qed

lemma last_render: "es \<noteq> [] \<Longrightarrow> \<forall>e \<in> set es. well_formed_elem e \<Longrightarrow>
    last (render es) \<noteq> slash \<and> last es \<noteq> ''.'' \<and> length (render es) > 1"
proof -
  assume es: "es \<noteq> []" "\<forall>e \<in> set es. well_formed_elem e"
  then obtain es' e where e: "es = es' @ [e]" by (metis rev_exhaust)
  then have "well_formed_elem e" using es by simp
  then have "last e \<noteq> slash" "e \<noteq> []" "e \<noteq> ''.''"
    by (metis well_formed_elem_def last_in_set)+
  with e show ?thesis by (cases e) (auto simp: render_snoc)
qed

lemma clean_spec_render:
  assumes "es \<noteq> []" "\<forall>e \<in> set es. well_formed_elem e"
  shows "clean_spec (render es) = render es" "clean_spec (render es @ ''/'') = render es @ ''/''"
proof -
  have ns: "\<forall>e \<in> set es. slash \<notin> set e" using assms(2) by (simp add: well_formed_elem_def)
  note el = elements_render [OF assms(1) ns] and lr = last_render [OF assms]
  have "resolve (elements (render es)) = es" "resolve (elements (render es @ ''/'')) = es"
    using resolve_proper [OF assms(2), of "[]"] by (simp_all add: el resolve_def)
  moreover have "\<not> keeps_slash (render es)" "keeps_slash (render es @ ''/'')"
    using lr assms(1) by (auto simp: keeps_slash_def el)
  ultimately show "clean_spec (render es) = render es"
      "clean_spec (render es @ ''/'') = render es @ ''/''"
    using assms(1) by (simp_all add: clean_spec_def rooted_def)
qed

lemma render_elements: "hd (elements q) = [] \<Longrightarrow> tl (elements q) \<noteq> [] \<Longrightarrow> q = render (tl (elements q))"
proof -
  have step: "slash # x = render (elements x)" for x
  proof (induction x)
    case (Cons c x)
    obtain a l where al: "elements x = a # l" by (cases "elements x") simp_all
    with Cons show ?case by (auto simp: render_def)
  qed (simp add: render_def)
  assume "hd (elements q) = []" "tl (elements q) \<noteq> []"
  then obtain x where "q = slash # x" by (cases q) (auto split: if_splits)
  moreover from this have "tl (elements q) = elements x" by simp
  ultimately show ?thesis using step [of x] by metis
qed

lemma canonical_render:
  assumes "es \<noteq> []" "\<forall>e \<in> set es. well_formed_elem e"
  shows "canonical (render es)" "canonical (render es @ ''/'')"
proof -
  have "\<forall>e \<in> set es. slash \<notin> set e" using assms(2) by (simp add: well_formed_elem_def)
  note el = elements_render [OF assms(1) this]
  show "canonical (render es)" "canonical (render es @ ''/'')"
    using assms by (auto simp: canonical_def el butlast_append in_set_butlastD)
qed

lemma canonical_cases:
  "canonical q \<longleftrightarrow> q = ''/'' \<or>
     (\<exists>es. es \<noteq> [] \<and> (\<forall>e \<in> set es. well_formed_elem e) \<and> (q = render es \<or> q = render es @ ''/''))"
  (is "_ \<longleftrightarrow> _ \<or> ?R")
proof -
  have ?R if q: "canonical q" "q \<noteq> ''/''"
  proof -
    let ?es = "tl (elements q)"
    have h: "hd (elements q) = []" "?es \<noteq> []" "\<forall>e \<in> set (butlast ?es). well_formed_elem e"
      "well_formed_elem (last ?es) \<or> last ?es = [] \<and> butlast ?es \<noteq> []"
      using q by (auto simp: canonical_def Let_def)
    have es: "?es = butlast ?es @ [last ?es]" using h(2) by simp
    note re = render_elements [OF h(1,2)]
    show ?thesis
    proof (cases "well_formed_elem (last ?es)")
      case True
      then have "\<forall>e \<in> set ?es. well_formed_elem e"
        using h(3) es by (metis Un_iff empty_iff list.set(1) set_append list.set(2) insert_iff)
      with h(2) re show ?thesis by blast
    next
      case False
      then have "last ?es = []" "butlast ?es \<noteq> []" using h(4) by auto
      then have "render ?es = render (butlast ?es) @ ''/''" using es render_snoc by metis
      with re h(3) \<open>butlast ?es \<noteq> []\<close> show ?thesis by metis
    qed
  qed
  moreover have "canonical ''/''" by (simp add: canonical_def)
  ultimately show ?thesis using canonical_render by blast
qed

lemma canonical_clean_spec: "canonical (clean_spec p)"
  using resolve_elements_proper [of p]
  by (auto simp: canonical_cases clean_spec_def rooted_def Let_def)

lemma clean_spec_canonical: "canonical q \<Longrightarrow> clean_spec q = q"
  using clean_spec_render
  by (auto simp: canonical_cases) (simp add: clean_spec_def resolve_def push_elem_def rooted_def)

section \<open>Properties\<close>


text \<open>The paths that \<open>CleanPath\<close> leaves alone are exactly the canonical ones.\<close>

theorem CleanPath_fixpoints: "CleanPath q = Inr q \<longleftrightarrow> canonical q"
  using canonical_clean_spec [of q] clean_spec_canonical [of q] by (auto simp: CleanPath_spec)

text \<open>The result of \<open>CleanPath\<close> is canonical, and cleaning it again changes nothing.\<close>

theorem CleanPath_canonical:
  "\<exists>q. CleanPath p = Inr q \<and> canonical q \<and> CleanPath q = Inr q"
  by (simp add: CleanPath_spec canonical_clean_spec clean_spec_canonical)

text \<open>The trailing slash of a relative path of two bytes is lost, that of a longer one is
  kept: the code asks for a length above two, which counts the leading slash of a rooted path
  but is one too many for a relative path.\<close>

theorem CleanPath_short:
  assumes "c \<noteq> slash" "c \<noteq> dot"
  shows "CleanPath [c, slash] = Inr [slash, c] \<and> CleanPath [c, c, slash] = Inr [slash, c, c, slash] \<and>
    CleanPath [slash, c, slash] = Inr [slash, c, slash]"
  using assms
  by (simp add: CleanPath_spec clean_spec_def resolve_def push_elem_def rooted_def render_def keeps_slash_def)

theorem CleanPath_short_witness:
  "CleanPath ''a/'' = Inr ''/a'' \<and> CleanPath ''aa/'' = Inr ''/aa/'' \<and> CleanPath ''/a/'' = Inr ''/a/''"
  using CleanPath_short [of "CHR ''a''"] by simp


end
