(* ===== verification/Router_Tree.thy ===== *)
theory Router_Tree
  imports Prelude
begin

text \<open>
  \<^verbatim>\<open>router/tree.go\<close>, the part that builds the tree: \<open>countParams\<close>, the \<open>node\<close> type,
  \<open>incrementChildPrio\<close>, \<open>addRoute\<close> and \<open>insertChild\<close>.

  A Go \<open>*node\<close> owns its children and no two pointers of a tree meet, so a tree of nodes is a
  value of a \<^theory_text>\<open>datatype\<close> whose fields other than \<open>children\<close> are a record. A method that
  mutates the tree returns the new tree. The code panics in the middle of a mutation; the
  result \<open>Panic e t\<close> keeps the tree \<open>t\<close> as the panic leaves it.
\<close>

section \<open>Nodes\<close>

datatype nodeType = NStatic | NRoot | NParam | NCatchAll

record 'h node_data =
  n_path :: string
  n_wildChild :: bool
  n_nType :: nodeType
  n_maxParams :: "8 word"
  n_indices :: string
  n_handle :: "'h option"
  n_priority :: "32 word"

datatype 'h node = Node (data: "'h node_data") (children: "'h node list")

text \<open>The zero value \<open>node{}\<close>, the tree of \<open>new(node)\<close>.\<close>

definition zero_data :: "'h node_data" where
  "zero_data = \<lparr>n_path = '''', n_wildChild = False, n_nType = NStatic, n_maxParams = 0,
     n_indices = '''', n_handle = None, n_priority = 0\<rparr>"

definition new_node :: "'h node" where
  "new_node = Node zero_data []"

lemma zero_data_simps [simp]:
  "n_path zero_data = ''''" "n_wildChild zero_data = False" "n_nType zero_data = NStatic"
  "n_maxParams zero_data = 0" "n_indices zero_data = ''''" "n_handle zero_data = None"
  "n_priority zero_data = 0"
  by (simp_all add: zero_data_def)

declare zero_data_def [code_unfold] new_node_def [code_unfold]

datatype 'h outcome = Done "'h node" | Panic panic "'h node"

text \<open>The tree around a subtree that was mutated through its pointer.\<close>

primrec map_outcome :: "('h node \<Rightarrow> 'h node) \<Rightarrow> 'h outcome \<Rightarrow> 'h outcome" where
  "map_outcome f (Done t) = Done (f t)"
| "map_outcome f (Panic e t) = Panic e (f t)"

lemma map_outcome_Done_iff:
  "map_outcome f r = Done t \<longleftrightarrow> (\<exists>t'. r = Done t' \<and> t = f t')"
  by (cases r) auto

section \<open>\<open>countParams\<close>\<close>

definition count_wild :: "string \<Rightarrow> nat" where
  "count_wild path = length (filter is_wild path)"

definition countParams :: "string \<Rightarrow> 8 word" where
  "countParams path = (let n = count_wild path in if n \<ge> 255 then 255 else word_of_nat n)"

section \<open>\<open>incrementChildPrio\<close>\<close>

definition incPriority :: "'h node \<Rightarrow> 'h node" where
  "incPriority n = Node ((data n)\<lparr>n_priority := n_priority (data n) + 1\<rparr>) (children n)"

text \<open>The loop that moves a child towards the front while its predecessor's priority is lower.\<close>

fun moveFront :: "'h node list \<Rightarrow> 32 word \<Rightarrow> nat \<Rightarrow> 'h node list \<times> nat" where
  "moveFront cs prio 0 = (cs, 0)"
| "moveFront cs prio (Suc p) =
     (if n_priority (data (cs ! p)) < prio
      then moveFront (cs[p := cs ! Suc p, Suc p := cs ! p]) prio p
      else (cs, Suc p))"

text \<open>
  The method on the fields \<open>d\<close> and children \<open>cs\<close> of a node: the new fields, the new children
  and the position returned. \<open>None\<close> is an index out of range.
\<close>

definition incrementChildPrio :: "'h node_data \<Rightarrow> 'h node list \<Rightarrow> nat \<Rightarrow>
    ('h node_data \<times> 'h node list \<times> nat) option" where
  "incrementChildPrio d cs pos =
     (if length cs \<le> pos then None
      else
        let cs1 = cs[pos := incPriority (cs ! pos)];
            prio = n_priority (data (cs1 ! pos));
            (cs2, newPos) = moveFront cs1 prio pos;
            ind = n_indices d
        in if newPos \<noteq> pos then
             (if length ind \<le> pos then None
              else Some (d\<lparr>n_indices :=
                take newPos ind @ substr ind pos (pos + 1) @ substr ind newPos pos @
                drop (pos + 1) ind\<rparr>, cs2, newPos))
           else Some (d, cs2, newPos))"

section \<open>\<open>insertChild\<close>\<close>

text \<open>
  The end of the wildcard that starts before \<open>end\<close>: the next slash or the end of the path;
  \<open>None\<close> when a second wildcard byte comes first.
\<close>

function wildcardEnd :: "string \<Rightarrow> nat \<Rightarrow> nat option" where
  "wildcardEnd path e =
     (if e < length path \<and> path ! e \<noteq> slash
      then (if is_wild (path ! e) then None else wildcardEnd path (e + 1))
      else Some e)"
  by pat_completeness auto
termination
  by (relation "measure (\<lambda>(path, e). length path - e)") auto

declare wildcardEnd.simps [simp del]

text \<open>The node pair of a catch-all: an inner node with an empty path around the variable.\<close>

definition catchAllChild :: "string \<Rightarrow> 'h option \<Rightarrow> 'h node" where
  "catchAllChild path handle =
     Node (zero_data\<lparr>n_wildChild := True, n_nType := NCatchAll, n_maxParams := 1, n_priority := 1\<rparr>)
       [Node (zero_data\<lparr>n_path := path, n_nType := NCatchAll, n_maxParams := 1,
          n_handle := handle, n_priority := 1\<rparr>) []]"

text \<open>The branch of a catch-all at index \<open>i\<close>; it returns or panics, so it ends the loop.\<close>

definition insertCatchAll :: "'h node_data \<Rightarrow> 'h node list \<Rightarrow> nat \<Rightarrow> nat \<Rightarrow> nat \<Rightarrow> 8 word \<Rightarrow>
    string \<Rightarrow> string \<Rightarrow> 'h option \<Rightarrow> 'h outcome" where
  "insertCatchAll d cs offset i e numParams path fullPath handle =
     (if e \<noteq> length path \<or> numParams > 1 then Panic (CatchAllNotLast fullPath) (Node d cs)
      else if n_path d \<noteq> [] \<and> last (n_path d) = slash
        then Panic (CatchAllSegmentRoot fullPath) (Node d cs)
      else if i = 0 then Panic IndexOutOfRange (Node d cs)
      else if path ! (i - 1) \<noteq> slash then Panic (NoSlashBeforeCatchAll fullPath) (Node d cs)
      else if offset > i - 1 then Panic SliceBounds (Node d cs)
      else
        Done (Node (d\<lparr>n_path := substr path offset (i - 1), n_indices := [path ! (i - 1)]\<rparr>)
          [catchAllChild (drop (i - 1) path) handle]))"

text \<open>
  The loop of \<open>insertChild\<close>; \<open>d\<close> and \<open>cs\<close> are the fields and children of the node \<open>n\<close>
  points to, \<open>i\<close> and \<open>offset\<close> the loop's variables. When \<open>n\<close> moves to a child it created, the
  result of the rest of the loop is put back under its parent.
\<close>

function insertLoop :: "'h node_data \<Rightarrow> 'h node list \<Rightarrow> nat \<Rightarrow> nat \<Rightarrow> 8 word \<Rightarrow>
    string \<Rightarrow> string \<Rightarrow> 'h option \<Rightarrow> 'h outcome" where
  "insertLoop d cs offset i numParams path fullPath handle =
     (if numParams = 0 then
        Done (Node (d\<lparr>n_path := drop offset path, n_handle := handle\<rparr>) cs)
      else if length path \<le> i then Panic IndexOutOfRange (Node d cs)
      else if \<not> is_wild (path ! i) then
        insertLoop d cs offset (i + 1) numParams path fullPath handle
      else
        (case wildcardEnd path (i + 1) of
           None \<Rightarrow> Panic (OneWildcardPerSegment (drop i path) fullPath) (Node d cs)
         | Some e \<Rightarrow>
             if cs \<noteq> [] then
               Panic (UnreachableChildren (substr path i e) fullPath) (Node d cs)
             else if e - i < 2 then Panic (EmptyWildcardName fullPath) (Node d cs)
             else if path ! i = star then
               insertCatchAll d cs offset i e numParams path fullPath handle
             else if i > 0 \<and> offset > i then Panic SliceBounds (Node d cs)
             else
               let d1 = (if i > 0 then d\<lparr>n_path := substr path offset i\<rparr> else d);
                   offset1 = (if i > 0 then i else offset);
                   child = zero_data\<lparr>n_nType := NParam, n_maxParams := numParams, n_priority := 1\<rparr>
               in map_outcome (\<lambda>c. Node (d1\<lparr>n_wildChild := True\<rparr>) [c])
                 (if e < length path then
                    (if offset1 > e then Panic SliceBounds (Node child [])
                     else map_outcome (\<lambda>c. Node (child\<lparr>n_path := substr path offset1 e\<rparr>) [c])
                       (insertLoop (zero_data\<lparr>n_maxParams := numParams - 1, n_priority := 1\<rparr>) []
                          e (i + 1) (numParams - 1) path fullPath handle))
                  else insertLoop child [] offset1 (i + 1) (numParams - 1) path fullPath handle)))"
  by (pat_completeness) (elim Pair_inject, hypsubst, rule refl)
termination
  by (relation "measure (\<lambda>(d, cs, offset, i, np, path, full, h). length path - i)") auto

declare insertLoop.simps [simp del]

definition insertChild :: "'h node \<Rightarrow> 8 word \<Rightarrow> string \<Rightarrow> string \<Rightarrow> 'h option \<Rightarrow> 'h outcome" where
  "insertChild n numParams path fullPath handle =
     insertLoop (data n) (children n) 0 0 numParams path fullPath handle"

section \<open>\<open>addRoute\<close>\<close>

definition raiseMaxParams :: "8 word \<Rightarrow> 'h node_data \<Rightarrow> 'h node_data" where
  "raiseMaxParams numParams d =
     (if numParams > n_maxParams d then d\<lparr>n_maxParams := numParams\<rparr> else d)"

text \<open>The child a split creates, with the greatest \<open>maxParams\<close> of its children.\<close>

definition splitChild :: "'h node_data \<Rightarrow> 'h node list \<Rightarrow> nat \<Rightarrow> 'h node" where
  "splitChild d cs i =
     Node (zero_data\<lparr>n_path := drop i (n_path d), n_wildChild := n_wildChild d,
       n_indices := n_indices d, n_handle := n_handle d, n_priority := n_priority d - 1,
       n_maxParams := foldl (\<lambda>m c. if n_maxParams (data c) > m then n_maxParams (data c) else m) 0 cs\<rparr>)
       cs"

text \<open>Split the edge of a node after \<open>i\<close> bytes of its path.\<close>

definition splitEdge :: "'h node_data \<Rightarrow> 'h node list \<Rightarrow> string \<Rightarrow> nat \<Rightarrow> 'h node" where
  "splitEdge d cs path i =
     Node (d\<lparr>n_path := take i path, n_indices := [n_path d ! i], n_handle := None,
       n_wildChild := False\<rparr>) [splitChild d cs i]"

text \<open>Lines 90--128: raise \<open>maxParams\<close>, find the common prefix, split the edge if needed.\<close>

definition walkHead :: "'h node \<Rightarrow> string \<Rightarrow> 8 word \<Rightarrow> 'h node" where
  "walkHead n path numParams =
     (let d = raiseMaxParams numParams (data n); i = lcp path (n_path d)
      in if i < length (n_path d) then splitEdge d (children n) path i else Node d (children n))"

text \<open>Lines 135--142, the step into a wildcard child.\<close>

definition enterWild :: "8 word \<Rightarrow> 'h node \<Rightarrow> 'h node" where
  "enterWild numParams w = Node (raiseMaxParams numParams (data (incPriority w))) (children w)"

text \<open>Lines 145--150, the test that the wildcard of the path is the existing one.\<close>

definition wildMatches :: "string \<Rightarrow> string \<Rightarrow> bool" where
  "wildMatches path wpath \<longleftrightarrow>
     length wpath \<le> length path \<and> take (length wpath) path = wpath \<and>
     (length path \<le> length wpath \<or> path ! length wpath = slash)"

text \<open>Lines 175--187: no child takes the path, so a new one does.\<close>

definition appendChild :: "'h node_data \<Rightarrow> 'h node list \<Rightarrow> 8 word \<Rightarrow> string \<Rightarrow> string \<Rightarrow>
    'h option \<Rightarrow> 'h outcome" where
  "appendChild d cs numParams path fullPath handle =
     (let c = hd path in
      if is_wild c then insertChild (Node d cs) numParams path fullPath handle
      else
        let d1 = d\<lparr>n_indices := n_indices d @ [c]\<rparr>;
            child = Node (zero_data\<lparr>n_maxParams := numParams\<rparr>) [];
            cs1 = cs @ [child]
        in case incrementChildPrio d1 cs1 (length (n_indices d1) - 1) of
             None \<Rightarrow> Panic IndexOutOfRange (Node d1 cs1)
           | Some (d2, cs2, k) \<Rightarrow>
               \<comment> \<open>\<open>n = child\<close>: the pointer, wherever the child is now\<close>
               let kc = (if length (n_indices d) = length cs then k else length cs)
               in map_outcome (\<lambda>t. Node d2 (cs2[kc := t]))
                    (insertChild (cs2 ! kc) numParams path fullPath handle))"

text \<open>
  The number of nodes, and the termination of the walk: every step goes to a smaller tree,
  except that a split of a parameter node could be followed by a step into the new child,
  which is not a parameter node.
\<close>

fun nsize :: "'h node \<Rightarrow> nat" where
  "nsize (Node d cs) = Suc (sum_list (map nsize cs))"

lemma nsize_child: "c \<in> set cs \<Longrightarrow> nsize c < nsize (Node d cs)"
  by (induction cs) auto

lemma nsize_incPriority [simp]: "nsize (incPriority n) = nsize n"
  by (cases n) (simp add: incPriority_def)

lemma nsize_enterWild [simp]: "nsize (enterWild np n) = nsize n"
  by (cases n) (simp add: enterWild_def)

lemma nsize_data: "nsize (Node d (children n)) = nsize n"
  by (cases n) simp

lemma nsize_children: "nsize n = Suc (sum_list (map nsize (children n)))"
  by (cases n) simp

lemma moveFront_split:
  "\<exists>a1 a2. a = a1 @ a2 \<and> moveFront (a @ x # b) prio (length a) = (a1 @ x # a2 @ b, length a1)"
proof (induction a arbitrary: b rule: rev_induct)
  case Nil
  show ?case by simp
next
  case (snoc y a)
  show ?case
  proof (cases "n_priority (data y) < prio")
    case False
    then show ?thesis
      by (intro exI [of _ "a @ [y]"] exI [of _ "[]"]) (simp add: nth_append)
  next
    case True
    have "(a @ y # x # b)[length a := x, Suc (length a) := y] = a @ x # y # b"
      by (simp add: list_update_append)
    then have "moveFront ((a @ [y]) @ x # b) prio (length (a @ [y])) =
        moveFront (a @ x # y # b) prio (length a)"
      using True by (simp add: nth_append)
    moreover from snoc.IH [of "y # b"] obtain a1 a2 where
      "a = a1 @ a2" "moveFront (a @ x # y # b) prio (length a) = (a1 @ x # a2 @ y # b, length a1)"
      by auto
    ultimately show ?thesis
      by (intro exI [of _ a1] exI [of _ "a2 @ [y]"]) simp
  qed
qed

lemma move_elem_append:
  "move_elem (length a1 + length a2) (length a1) (a1 @ a2 @ x # b) = a1 @ x # a2 @ b"
  by (simp add: move_elem_def substr_def)

lemma moveFront_spec:
  assumes "p < length cs"
  shows "\<exists>q \<le> p. moveFront cs prio p = (move_elem p q cs, q)"
proof -
  let ?a = "take p cs" and ?b = "drop (Suc p) cs"
  have cs: "cs = ?a @ cs ! p # ?b" using assms by (rule id_take_nth_drop)
  from moveFront_split [of ?a "cs ! p" ?b prio] assms obtain a1 a2 where
    "?a = a1 @ a2" "moveFront cs prio p = (a1 @ cs ! p # a2 @ ?b, length a1)"
    by (auto simp flip: cs)
  moreover have "p = length a1 + length a2"
    using assms arg_cong [OF \<open>?a = a1 @ a2\<close>, of length] by simp
  then have "move_elem p (length a1) cs = a1 @ cs ! p # a2 @ ?b"
    using cs move_elem_append [of a1 a2 "cs ! p" ?b] \<open>?a = a1 @ a2\<close> by simp
  moreover have "length a1 \<le> p" using arg_cong [OF \<open>?a = a1 @ a2\<close>, of length] assms by simp
  ultimately show ?thesis by auto
qed

text \<open>
  With one index byte per child, \<open>incrementChildPrio\<close> succeeds, adds one to the priority of
  the child at \<open>pos\<close> and moves the child and its index byte together.
\<close>

lemma incrementChildPrio_spec:
  assumes "length (n_indices d) = length cs" "pos < length cs"
  shows "\<exists>q \<le> pos. incrementChildPrio d cs pos =
    Some (d\<lparr>n_indices := move_elem pos q (n_indices d)\<rparr>,
      move_elem pos q (cs[pos := incPriority (cs ! pos)]), q)"
proof -
  let ?cs = "cs[pos := incPriority (cs ! pos)]"
  from moveFront_spec [of pos ?cs "n_priority (data (?cs ! pos))"] assms obtain q where
    q: "q \<le> pos" "moveFront ?cs (n_priority (data (?cs ! pos))) pos = (move_elem pos q ?cs, q)"
    by auto
  have "q = pos \<Longrightarrow> d\<lparr>n_indices := move_elem pos q (n_indices d)\<rparr> = d" using assms by simp
  with q assms show ?thesis
    by (intro exI [of _ q]) (auto simp: incrementChildPrio_def Let_def move_elem_def)
qed

text \<open>Whatever the fields, the children keep their sizes.\<close>

lemma incrementChildPrio_children:
  assumes "incrementChildPrio d cs pos = Some (d', cs', k)"
  shows "nsize ` set cs' = nsize ` set cs" "k < length cs'" "length cs' = length cs"
proof -
  have pos: "pos < length cs" using assms by (auto simp: incrementChildPrio_def split: if_splits)
  let ?cs = "cs[pos := incPriority (cs ! pos)]"
  from moveFront_spec [of pos ?cs "n_priority (data (?cs ! pos))"] pos obtain q where
    q: "q \<le> pos" "moveFront ?cs (n_priority (data (?cs ! pos))) pos = (move_elem pos q ?cs, q)"
    by auto
  then have r: "cs' = move_elem pos q ?cs" "k = q"
    using assms pos by (auto simp: incrementChildPrio_def Let_def split: if_splits)
  have "map nsize ?cs = map nsize cs" using pos by (simp add: map_update list_update_same_conv)
  then have "nsize ` set ?cs = nsize ` set cs" by (metis set_map)
  moreover have "set cs' = set ?cs" unfolding r(1) using q(1) pos by (intro set_move_elem) simp_all
  ultimately show "nsize ` set cs' = nsize ` set cs" by simp
  show "length cs' = length cs" using r(1) q(1) pos by simp
  then show "k < length cs'" using r(2) q(1) pos by simp
qed

lemma walkHead_cases:
  obtains (whole) "lcp path (n_path (data n)) = length (n_path (data n))"
      "walkHead n path np = Node (raiseMaxParams np (data n)) (children n)"
  | (split) i where "i = lcp path (n_path (data n))" "i < length (n_path (data n))"
      "walkHead n path np = splitEdge (raiseMaxParams np (data n)) (children n) path i"
  using lcp_le(2) [of path "n_path (data n)"]
  by (cases "lcp path (n_path (data n)) = length (n_path (data n))")
    (auto simp: walkHead_def raiseMaxParams_def Let_def)

lemma raiseMaxParams_simps [simp]:
  "n_path (raiseMaxParams np d) = n_path d" "n_wildChild (raiseMaxParams np d) = n_wildChild d"
  "n_nType (raiseMaxParams np d) = n_nType d" "n_indices (raiseMaxParams np d) = n_indices d"
  "n_handle (raiseMaxParams np d) = n_handle d" "n_priority (raiseMaxParams np d) = n_priority d"
  "n_maxParams (raiseMaxParams np d) = max np (n_maxParams d)"
  by (auto simp: raiseMaxParams_def max_def)

definition walk_order :: "('h node \<times> string \<times> 8 word \<times> string \<times> 'h option) rel" where
  "walk_order = inv_image (less_than <*lex*> less_than)
     (\<lambda>(n, _). (nsize n, if n_nType (data n) = NParam then 1 else (0::nat)))"

lemma wf_walk_order: "wf walk_order"
  unfolding walk_order_def by (intro wf_inv_image wf_lex_prod wf_less_than)

lemma walk_orderI: "nsize m < nsize n \<Longrightarrow> ((m, a), (n, b)) \<in> walk_order"
  by (simp add: walk_order_def)

lemma walk_order_wild:
  assumes "n_wildChild (data (walkHead n path np))" "children (walkHead n path np) \<noteq> []"
  shows "nsize (enterWild np (hd (children (walkHead n path np)))) < nsize n"
proof (cases rule: walkHead_cases [of path n np])
  case whole
  with assms(2) nsize_child [of "hd (children n)" "children n" "data n"] show ?thesis by simp
next
  case split
  with assms show ?thesis by (simp add: splitEdge_def)
qed

lemma walk_order_slash:
  assumes "n_nType (data (walkHead n path np)) = NParam" "length (children (walkHead n path np)) = 1"
  shows "((incPriority (hd (children (walkHead n path np))), a), (n, b)) \<in> walk_order"
proof (cases rule: walkHead_cases [of path n np])
  case whole
  with assms(2) nsize_child [of "hd (children n)" "children n" "data n"]
  show ?thesis by (intro walk_orderI) (cases "children n", auto simp: nsize_children [of n])
next
  case split
  with assms nsize_data [of _ n] show ?thesis
    by (simp add: splitEdge_def splitChild_def walk_order_def incPriority_def)
qed

lemma walk_order_index:
  assumes "lcp path (n_path (data n)) < length path"
    "find_index (hd (drop (lcp path (n_path (data n))) path)) (n_indices (data (walkHead n path np)))
       = Some pos"
    "incrementChildPrio (data (walkHead n path np)) (children (walkHead n path np)) pos = Some r"
  shows "nsize (fst (snd r) ! snd (snd r)) < nsize n"
proof (cases rule: walkHead_cases [of path n np])
  case whole
  obtain d' cs' k where r: "r = (d', cs', k)" by (cases r) auto
  from incrementChildPrio_children [OF assms(3) [unfolded r]]
  have "nsize (cs' ! k) \<in> nsize ` set (children n)" using whole by (metis imageI node.sel(2) nth_mem)
  then show ?thesis using nsize_child [of _ "children n" "data n"] r by auto
next
  case (split i)
  then have "hd (drop i path) = path ! i" "n_path (data n) ! i \<noteq> path ! i"
    using assms(1) lcp_differ [of path "n_path (data n)"] by (auto simp: hd_drop_conv_nth)
  with split assms(2) show ?thesis by (simp add: splitEdge_def)
qed

text \<open>The \<open>for\<close> loop labelled \<open>walk\<close>.\<close>


function addRoute_walk :: "'h node \<Rightarrow> string \<Rightarrow> 8 word \<Rightarrow> string \<Rightarrow> 'h option \<Rightarrow> 'h outcome" where
  "addRoute_walk n path0 numParams fullPath handle =
     (let n1 = walkHead n path0 numParams; d = data n1; cs = children n1;
          i = lcp path0 (n_path (data n))
      in if i < length path0 then
           let path = drop i path0; c = hd path in
           if n_wildChild d then
             (if cs = [] then Panic IndexOutOfRange n1
              else
                let w = enterWild numParams (hd cs) in
                if wildMatches path (n_path (data w)) then
                  map_outcome (\<lambda>t. Node d (t # tl cs))
                    (addRoute_walk w path (numParams - 1) fullPath handle)
                else Panic (WildcardConflict path (n_path (data w)) fullPath) (Node d (w # tl cs)))
           else if n_nType d = NParam \<and> c = slash \<and> length cs = 1 then
             map_outcome (\<lambda>t. Node d [t])
               (addRoute_walk (incPriority (hd cs)) path numParams fullPath handle)
           else
             (case find_index c (n_indices d) of
                Some pos \<Rightarrow>
                  (case incrementChildPrio d cs pos of
                     None \<Rightarrow> Panic IndexOutOfRange n1
                   | Some r \<Rightarrow>
                       map_outcome (\<lambda>t. Node (fst r) ((fst (snd r))[snd (snd r) := t]))
                         (addRoute_walk (fst (snd r) ! snd (snd r)) path numParams fullPath handle))
              | None \<Rightarrow> appendChild d cs numParams path fullPath handle)
         else if n_handle d \<noteq> None then Panic (HandleExists fullPath) n1
         else Done (Node (d\<lparr>n_handle := handle\<rparr>) cs))"
  by (pat_completeness) (elim Pair_inject, hypsubst, rule refl)
termination
proof (relation walk_order, goal_cases)
  case 1
  show ?case by (rule wf_walk_order)
next
  case 2
  then show ?case by (auto intro!: walk_orderI walk_order_wild)
next
  case 3
  then show ?case by (auto intro!: walk_order_slash)
next
  case 4
  then show ?case by (intro walk_orderI) (auto intro: walk_order_index)
qed

declare addRoute_walk.simps [simp del]

definition addRoute :: "'h node \<Rightarrow> string \<Rightarrow> 'h option \<Rightarrow> 'h outcome" where
  "addRoute n path handle =
     (let n1 = incPriority n; numParams = countParams path in
      if n_path (data n1) \<noteq> [] \<or> children n1 \<noteq> []
      then addRoute_walk n1 path numParams path handle
      else
        (case insertChild n1 numParams path path handle of
           Panic e t \<Rightarrow> Panic e t
         | Done t \<Rightarrow> Done (Node ((data t)\<lparr>n_nType := NRoot\<rparr>) (children t))))"

end
