(* ===== verification/Router_Lookup.thy ===== *)
theory Router_Lookup
  imports Router_Tree
begin

text \<open>
  \<^verbatim>\<open>router/tree.go\<close>, \<open>getValue\<close>, and \<open>Params\<close> of \<^verbatim>\<open>router/handler.go\<close>.

  The parameters are a slice that is allocated once, at the first wildcard, with the capacity
  \<open>maxParams\<close> of that node, and extended in place; \<open>p[:i+1]\<close> panics beyond the capacity.
  The model carries the slice with its capacity, so that the absence of this panic is a
  theorem about \<open>maxParams\<close> and not an assumption.
\<close>

section \<open>\<open>Params\<close>\<close>

record param =
  Key :: string
  Value :: string

type_synonym Params = "param list"

text \<open>\<open>ByName\<close>: the value of the first parameter with the key, or the empty string.\<close>

fun ByName :: "Params \<Rightarrow> string \<Rightarrow> string" where
  "ByName [] key = ''''"
| "ByName (p # ps) key = (if Key p = key then Value p else ByName ps key)"

text \<open>A slice: its elements and its capacity; \<^const>\<open>None\<close> is the nil slice.\<close>

type_synonym params_slice = "(param list \<times> nat) option"

definition contents :: "params_slice \<Rightarrow> param list" where
  "contents p = (case p of None \<Rightarrow> [] | Some (ps, _) \<Rightarrow> ps)"

definition capacity :: "params_slice \<Rightarrow> 8 word \<Rightarrow> nat" where
  "capacity p maxParams = (case p of None \<Rightarrow> unat maxParams | Some (_, c) \<Rightarrow> c)"

text \<open>Lines 357--365 and 392--400; \<^const>\<open>None\<close> is the slice-bounds panic.\<close>

definition saveParam :: "params_slice \<Rightarrow> 8 word \<Rightarrow> string \<Rightarrow> string \<Rightarrow> params_slice option" where
  "saveParam p maxParams key v =
     (let ps = contents p; c = capacity p maxParams
      in if length ps + 1 \<le> c then Some (Some (ps @ [\<lparr>Key = key, Value = v\<rparr>], c)) else None)"

section \<open>\<open>getValue\<close>\<close>

datatype 'h lookup =
    Return "'h option" params_slice bool
  | LookupPanic panic

text \<open>The end of a parameter's value: the next slash or the end of the path.\<close>

definition paramEnd :: "string \<Rightarrow> nat" where
  "paramEnd path = length (takeWhile (\<lambda>c. c \<noteq> slash) path)"

text \<open>Lines 409--433: the path ends at this node.\<close>

definition getValue_leaf :: "'h node \<Rightarrow> string \<Rightarrow> params_slice \<Rightarrow> 'h lookup" where
  "getValue_leaf n path p =
     (let d = data n in
      if n_handle d \<noteq> None then Return (n_handle d) p False
      else if path = ''/'' \<and> n_wildChild d \<and> n_nType d \<noteq> NRoot then Return None p True
      else
        (case find_index slash (n_indices d) of
           None \<Rightarrow> Return None p False
         | Some k \<Rightarrow>
             if length (children n) \<le> k then LookupPanic IndexOutOfRange
             else
               let c = children n ! k; dc = data c in
               if length (n_path dc) = 1 \<and> n_handle dc \<noteq> None then Return None p True
               else if n_nType dc = NCatchAll then
                 (case children c of
                    [] \<Rightarrow> LookupPanic IndexOutOfRange
                  | l # _ \<Rightarrow> Return None p (n_handle (data l) \<noteq> None))
               else Return None p False))"

text \<open>Lines 435--440: the path leaves the tree inside this node.\<close>

definition getValue_miss :: "'h node_data \<Rightarrow> string \<Rightarrow> params_slice \<Rightarrow> 'h lookup" where
  "getValue_miss d path p =
     Return None p
       (path = ''/'' \<or>
        length (n_path d) = length path + 1 \<and> n_path d ! length path = slash \<and>
        path = take (length (n_path d) - 1) (n_path d) \<and> n_handle d \<noteq> None)"

text \<open>Lines 380--389: the path ends with the value of a parameter.\<close>

definition getValue_param_end :: "'h node \<Rightarrow> params_slice \<Rightarrow> 'h lookup" where
  "getValue_param_end w p =
     (if n_handle (data w) \<noteq> None then Return (n_handle (data w)) p False
      else
        (case children w of
           [c] \<Rightarrow> Return None p (n_path (data c) = ''/'' \<and> n_handle (data c) \<noteq> None)
         | _ \<Rightarrow> Return None p False))"

text \<open>The \<open>for\<close> loop labelled \<open>walk\<close>.\<close>

function getValue_walk :: "'h node \<Rightarrow> string \<Rightarrow> params_slice \<Rightarrow> 'h lookup" where
  "getValue_walk n path0 p =
     (let d = data n in
      if length path0 > length (n_path d) then
        (if take (length (n_path d)) path0 = n_path d then
           let path = drop (length (n_path d)) path0 in
           if \<not> n_wildChild d then
             (case find_index (hd path) (n_indices d) of
                Some k \<Rightarrow>
                  if length (children n) \<le> k then LookupPanic IndexOutOfRange
                  else getValue_walk (children n ! k) path p
              | None \<Rightarrow> Return None p (path = ''/'' \<and> n_handle d \<noteq> None))
           else if children n = [] then LookupPanic IndexOutOfRange
           else
             let w = hd (children n); dw = data w in
             (case n_nType dw of
                NParam \<Rightarrow>
                  let e = paramEnd path in
                  if n_path dw = [] then LookupPanic SliceBounds
                  else
                    (case saveParam p (n_maxParams dw) (drop 1 (n_path dw)) (take e path) of
                       None \<Rightarrow> LookupPanic SliceBounds
                     | Some p' \<Rightarrow>
                         if e < length path then
                           (if children w \<noteq> [] then getValue_walk (hd (children w)) (drop e path) p'
                            else Return None p' (length path = e + 1))
                         else getValue_param_end w p')
              | NCatchAll \<Rightarrow>
                  if length (n_path dw) < 2 then LookupPanic SliceBounds
                  else
                    (case saveParam p (n_maxParams dw) (drop 2 (n_path dw)) path of
                       None \<Rightarrow> LookupPanic SliceBounds
                     | Some p' \<Rightarrow> Return (n_handle dw) p' False)
              | _ \<Rightarrow> LookupPanic InvalidNodeType)
         else getValue_miss d path0 p)
      else if path0 = n_path d then getValue_leaf n path0 p
      else getValue_miss d path0 p)"
  by (pat_completeness) (elim Pair_inject, hypsubst, rule refl)
termination
proof (relation "measure (\<lambda>(n, path, p). nsize n)", goal_cases)
  case (2 n)
  then show ?case
    using nsize_child [of _ "children n" "data n"] by (simp add: not_le)
next
  case (3 n)
  then show ?case
    using nsize_child [of "hd (children n)" "children n" "data n"]
      nsize_child [of "hd (children (hd (children n)))" "children (hd (children n))" "data (hd (children n))"]
    by simp
qed simp

declare getValue_walk.simps [simp del]

definition getValue :: "'h node \<Rightarrow> string \<Rightarrow> 'h lookup" where
  "getValue n path = getValue_walk n path None"

end
