(* ===== verification/Route_Patterns.thy ===== *)
theory Route_Patterns
  imports Router_Lookup
begin

text \<open>
  The abstract specification of the router: what a route pattern is, which paths it matches
  and with which parameters, and when two patterns can live in one router. None of it
  mentions the tree.

  A pattern is a byte string. \<open>:name\<close> matches the bytes up to the next slash (none of them
  only if a slash follows), \<open>/*name\<close> at the end matches the rest of the path, its slash
  included; every other byte matches itself.
\<close>

section \<open>Tokens\<close>

definition static_str :: "string \<Rightarrow> bool" where
  "static_str s \<longleftrightarrow> (\<forall>c \<in> set s. \<not> is_wild c)"

lemma static_str_simps [simp]:
  "static_str []" "static_str (c # s) \<longleftrightarrow> \<not> is_wild c \<and> static_str s"
  "static_str (s @ t) \<longleftrightarrow> static_str s \<and> static_str t"
  by (auto simp: static_str_def)

lemma static_str_take: "static_str s \<Longrightarrow> static_str (take n s)"
  by (auto simp: static_str_def dest: in_set_takeD)

lemma static_str_drop: "static_str s \<Longrightarrow> static_str (drop n s)"
  by (auto simp: static_str_def dest: in_set_dropD)

text \<open>The bytes up to the next slash, and from it on.\<close>

definition segment :: "string \<Rightarrow> string" where
  "segment s = takeWhile (\<lambda>c. c \<noteq> slash) s"

definition after_segment :: "string \<Rightarrow> string" where
  "after_segment s = dropWhile (\<lambda>c. c \<noteq> slash) s"

lemma segment_append: "segment s @ after_segment s = s"
  by (simp add: segment_def after_segment_def)

lemma length_after_segment: "length (after_segment s) \<le> length s"
  by (simp add: after_segment_def length_dropWhile_le)

lemma after_segment_cases: "after_segment s = [] \<or> hd (after_segment s) = slash"
  using hd_dropWhile [of "\<lambda>c. c \<noteq> slash" s] by (auto simp: after_segment_def)

lemma segment_no_slash: "slash \<notin> set (segment s)"
  by (auto simp: segment_def dest: set_takeWhileD)

lemma segment_unique:
  assumes "slash \<notin> set e" "q = [] \<or> hd q = slash"
  shows "segment (e @ q) = e" "after_segment (e @ q) = q"
proof -
  have e: "\<forall>c \<in> set e. c \<noteq> slash" using assms(1) by metis
  show "segment (e @ q) = e" "after_segment (e @ q) = q"
    using assms(2) e by (cases q; simp add: segment_def after_segment_def takeWhile_append dropWhile_append
        takeWhile_eq_all_conv)+
qed

definition valid_name :: "string \<Rightarrow> bool" where
  "valid_name name \<longleftrightarrow> name \<noteq> [] \<and> static_str name \<and> slash \<notin> set name"

text \<open>A catch-all token starts here: a slash followed by a star.\<close>

definition catch_start :: "string \<Rightarrow> bool" where
  "catch_start p \<longleftrightarrow> (\<exists>q. p = slash # star # q)"

lemma catch_start_simps [simp]:
  "\<not> catch_start []" "catch_start (c # p) \<longleftrightarrow> c = slash \<and> p \<noteq> [] \<and> hd p = star"
  by (auto simp: catch_start_def neq_Nil_conv)

section \<open>Valid patterns\<close>

function valid_pat :: "string \<Rightarrow> bool" where
  "valid_pat [] = True"
| "valid_pat (c # p) =
     (if c = colon then valid_name (segment p) \<and> valid_pat (after_segment p)
      else if c = star then False
      else if catch_start (c # p) then valid_name (tl p)
      else valid_pat p)"
  by pat_completeness auto
termination
  by (relation "measure length") (auto simp: le_imp_less_Suc length_after_segment)

text \<open>A star is followed by no slash: a catch-all, if there is one, is the last token.\<close>

fun catch_all_last :: "string \<Rightarrow> bool" where
  "catch_all_last [] = True"
| "catch_all_last (c # p) = ((c = star \<longrightarrow> slash \<notin> set p) \<and> catch_all_last p)"

section \<open>Matching\<close>

function match_pat :: "string \<Rightarrow> string \<Rightarrow> param list option" where
  "match_pat [] s = (if s = [] then Some [] else None)"
| "match_pat (c # p) s =
     (if c = colon then
        (if s = [] then None
         else map_option ((#) \<lparr>Key = segment p, Value = segment s\<rparr>)
                (match_pat (after_segment p) (after_segment s)))
      else if catch_start (c # p) then
        (if s \<noteq> [] \<and> hd s = slash then Some [\<lparr>Key = tl p, Value = s\<rparr>] else None)
      else (case s of [] \<Rightarrow> None | x # s' \<Rightarrow> if x = c then match_pat p s' else None))"
  by pat_completeness auto
termination
  by (relation "measure (length \<circ> fst)") (auto simp: le_imp_less_Suc length_after_segment)

lemma match_pat_empty [simp]: "match_pat p [] = (if p = [] then Some [] else None)"
  by (cases p) auto

section \<open>Compatible patterns\<close>

text \<open>
  Two patterns are compatible unless, after a common prefix of tokens, one has a wildcard
  where the other goes on with anything but the same wildcard.
\<close>

function compatible :: "string \<Rightarrow> string \<Rightarrow> bool" where
  "compatible [] q = True"
| "compatible (a # p) [] = True"
| "compatible (a # p) (b # q) =
     (if a = colon \<or> b = colon then
        a = b \<and> segment p = segment q \<and> compatible (after_segment p) (after_segment q)
      else if a \<noteq> b then True
      else if catch_start (a # p) \<or> catch_start (b # q) then p = q
      else compatible p q)"
  by pat_completeness auto
termination
  by (relation "measure (length \<circ> fst)") (auto simp: le_imp_less_Suc length_after_segment)

lemma compatible_empty [simp]: "compatible p []"
  by (cases p) auto

lemma compatible_sym: "compatible p q = compatible q p"
  by (induction p q rule: compatible.induct) auto

section \<open>Static prefixes\<close>

text \<open>
  Nothing below a node of the tree starts with a star, so a static prefix is consumed byte by
  byte by each of the three notions.
\<close>

definition no_star :: "string \<Rightarrow> bool" where
  "no_star p \<longleftrightarrow> p = [] \<or> hd p \<noteq> star"

lemma match_pat_static:
  assumes "static_str a" "no_star p"
  shows "match_pat (a @ p) s =
    (if length a \<le> length s \<and> take (length a) s = a then match_pat p (drop (length a) s) else None)"
  using assms(1)
proof (induction a arbitrary: s)
  case (Cons c a)
  have c: "c \<noteq> colon" "\<not> catch_start (c # a @ p)"
    using Cons.prems assms(2) by (cases a; auto simp: no_star_def is_wild_def)+
  with Cons show ?case by (cases s) auto
qed simp

lemma valid_pat_static:
  assumes "static_str a" "no_star p"
  shows "valid_pat (a @ p) = valid_pat p"
  using assms(1)
proof (induction a)
  case (Cons c a)
  have "c \<noteq> colon" "c \<noteq> star" "\<not> catch_start (c # a @ p)"
    using Cons.prems assms(2) by (cases a; auto simp: no_star_def is_wild_def)+
  with Cons show ?case by auto
qed simp

lemma compatible_static:
  assumes "static_str a" "no_star p" "no_star q"
  shows "compatible (a @ p) (a @ q) = compatible p q"
  using assms(1)
proof (induction a)
  case (Cons c a)
  have "c \<noteq> colon" "\<not> catch_start (c # a @ p)" "\<not> catch_start (c # a @ q)"
    using Cons.prems assms(2,3) by (cases a; auto simp: no_star_def is_wild_def)+
  with Cons show ?case by auto
qed simp

lemma match_pat_param:
  assumes "valid_name name" "q = [] \<or> hd q = slash" "s \<noteq> []"
  shows "match_pat (colon # name @ q) s =
    map_option ((#) \<lparr>Key = name, Value = segment s\<rparr>) (match_pat q (after_segment s))"
  using assms segment_unique [of name q] by (simp add: valid_name_def)

end
