(* ===== verification/Router_Invariant.thy ===== *)
theory Router_Invariant
  imports Route_Patterns
begin

text \<open>
  The abstraction function from a tree to the routes it holds, the well-formedness invariant
  of the tree, and the correctness of the lookup against the patterns' meaning.
\<close>

section \<open>The routes of a tree\<close>

fun routes :: "'h node \<Rightarrow> (string \<times> 'h) list" where
  "routes (Node d cs) =
     (case n_handle d of None \<Rightarrow> [] | Some h \<Rightarrow> [(n_path d, h)]) @
     map (\<lambda>(p, h). (n_path d @ p, h)) (concat (map routes cs))"

definition own :: "'h node_data \<Rightarrow> (string \<times> 'h) set" where
  "own d = (case n_handle d of None \<Rightarrow> {} | Some h \<Rightarrow> {(n_path d, h)})"

definition under :: "string \<Rightarrow> (string \<times> 'h) set \<Rightarrow> (string \<times> 'h) set" where
  "under a R = (\<lambda>(p, h). (a @ p, h)) ` R"

definition below :: "'h node list \<Rightarrow> (string \<times> 'h) set" where
  "below cs = (\<Union>c \<in> set cs. set (routes c))"

lemma set_routes: "set (routes (Node d cs)) = own d \<union> under (n_path d) (below cs)"
  by (auto simp: own_def under_def below_def image_iff split: option.splits)

declare routes.simps [simp del]

lemma below_simps [simp]: "below [] = {}" "below (c # cs) = set (routes c) \<union> below cs"
  "below (cs @ cs') = below cs \<union> below cs'"
  by (auto simp: below_def)

lemma under_simps [simp]: "under a {} = {}" "under a (R \<union> S) = under a R \<union> under a S"
  "under [] R = R" "under a (under b R) = under (a @ b) R"
  by (force simp: under_def)+

lemma under_insert [simp]: "under a (insert (p, h) R) = insert (a @ p, h) (under a R)"
  by (simp add: under_def)

lemma under_iff: "(p, h) \<in> under a R \<longleftrightarrow> (\<exists>q. p = a @ q \<and> (q, h) \<in> R)"
  by (auto simp: under_def)

section \<open>Well-formed trees\<close>

text \<open>
  \<open>child_ok i c\<close>: the child \<open>c\<close> may stand under the index byte \<open>i\<close>. Its path starts with the
  byte; or its path is empty, the byte is a slash, and it is the inner node of a catch-all or a
  node that only leads to one.
\<close>

definition child_ok :: "char \<Rightarrow> 'h node \<Rightarrow> bool" where
  "child_ok i c \<longleftrightarrow>
     (let d = data c in
      n_nType d = NStatic \<and> n_path d \<noteq> [] \<and> hd (n_path d) = i \<or>
      n_nType d = NStatic \<and> n_path d = [] \<and> i = slash \<and> \<not> n_wildChild d \<and>
        n_handle d = None \<and> n_indices d = ''/'' \<or>
      n_nType d = NCatchAll \<and> n_path d = [] \<and> n_wildChild d \<and> i = slash)"

definition wf_param :: "'h node_data \<Rightarrow> 'h node list \<Rightarrow> bool" where
  "wf_param d cs \<longleftrightarrow> n_path d \<noteq> [] \<and> hd (n_path d) = colon \<and> valid_name (tl (n_path d)) \<and>
     \<not> n_wildChild d \<and> length cs \<le> 1 \<and> list_all (child_ok slash) cs \<and>
     (n_indices d = [] \<or> n_indices d = ''/'' \<and> cs \<noteq> [])"

definition wf_catchAll :: "'h node_data \<Rightarrow> 'h node list \<Rightarrow> bool" where
  "wf_catchAll d cs \<longleftrightarrow> n_indices d = [] \<and>
     (if n_wildChild d
      then n_path d = [] \<and> n_handle d = None \<and> length cs = 1 \<and>
        list_all (\<lambda>l. n_nType (data l) = NCatchAll \<and> \<not> n_wildChild (data l)) cs
      else cs = [] \<and> n_handle d \<noteq> None \<and> catch_start (n_path d) \<and> valid_name (drop 2 (n_path d)))"

definition wf_static :: "'h node_data \<Rightarrow> 'h node list \<Rightarrow> bool" where
  "wf_static d cs \<longleftrightarrow> static_str (n_path d) \<and>
     (if n_wildChild d
      then n_indices d = [] \<and> length cs = 1 \<and> list_all (\<lambda>c. n_nType (data c) = NParam) cs
      else distinct (n_indices d) \<and> list_all2 child_ok (n_indices d) cs)"

fun wf_node :: "'h node \<Rightarrow> bool" where
  "wf_node (Node d cs) \<longleftrightarrow>
     (case n_nType d of
        NParam \<Rightarrow> wf_param d cs
      | NCatchAll \<Rightarrow> wf_catchAll d cs
      | _ \<Rightarrow> wf_static d cs) \<and>
     list_all wf_node cs"

declare wf_node.simps [simp del]

definition is_static :: "'h node_data \<Rightarrow> bool" where
  "is_static d \<longleftrightarrow> n_nType d = NStatic \<or> n_nType d = NRoot"

lemma wf_node_iff:
  "n_nType d = NParam \<Longrightarrow> wf_node (Node d cs) \<longleftrightarrow> wf_param d cs \<and> list_all wf_node cs"
  "n_nType d = NCatchAll \<Longrightarrow> wf_node (Node d cs) \<longleftrightarrow> wf_catchAll d cs \<and> list_all wf_node cs"
  "is_static d \<Longrightarrow> wf_node (Node d cs) \<longleftrightarrow> wf_static d cs \<and> list_all wf_node cs"
  by (auto simp: wf_node.simps is_static_def)

lemma nodeType_cases:
  obtains (static) "is_static d" | (param) "n_nType d = NParam" | (catchAll) "n_nType d = NCatchAll"
  by (cases "n_nType d") (auto simp: is_static_def)

lemma child_ok_static_or_inner:
  "child_ok i c \<Longrightarrow> is_static (data c) \<and> n_nType (data c) = NStatic \<or>
    n_nType (data c) = NCatchAll \<and> n_wildChild (data c) \<and> i = slash"
  by (auto simp: child_ok_def is_static_def Let_def)

lemma wf_leaf:
  assumes "wf_node (Node d cs)" "n_nType d = NCatchAll" "\<not> n_wildChild d"
  shows "\<exists>name h. cs = [] \<and> n_path d = slash # star # name \<and> valid_name name \<and> n_handle d = Some h"
  using assms by (auto simp: wf_node_iff wf_catchAll_def catch_start_def)

lemma wf_inner:
  assumes "wf_node (Node d cs)" "n_nType d = NCatchAll" "n_wildChild d"
  shows "\<exists>l name h. cs = [Node l []] \<and> n_path d = [] \<and> n_handle d = None \<and> n_indices d = [] \<and>
    n_nType l = NCatchAll \<and> \<not> n_wildChild l \<and>
    n_path l = slash # star # name \<and> valid_name name \<and> n_handle l = Some h"
proof -
  have w: "n_path d = []" "n_handle d = None" "n_indices d = []" "length cs = 1"
    "list_all (\<lambda>l. n_nType (data l) = NCatchAll \<and> \<not> n_wildChild (data l)) cs" "list_all wf_node cs"
    using assms by (auto simp: wf_node_iff wf_catchAll_def)
  from w(4) obtain l where l: "cs = [l]" by (cases cs) auto
  obtain dl cl where "l = Node dl cl" by (cases l)
  with w l wf_leaf [of dl cl] show ?thesis by auto
qed

text \<open>The routes under an index byte start with that byte, and it is no wildcard byte.\<close>

lemma routes_inner:
  assumes "wf_node (Node d cs)" "n_nType d = NCatchAll" "n_wildChild d" "(p, h) \<in> set (routes (Node d cs))"
  shows "catch_start p"
  using wf_inner [OF assms(1-3)] assms(4)
  by (auto simp: set_routes own_def)

lemma routes_start:
  assumes "wf_node c" "child_ok i c" "(p, h) \<in> set (routes c)"
  shows "p \<noteq> [] \<and> hd p = i \<and> \<not> is_wild i"
  using assms
proof (induction c arbitrary: i p rule: wf_node.induct)
  case (1 d cs)
  from child_ok_static_or_inner [OF "1.prems"(2)] show ?case
  proof (elim disjE conjE)
    assume st: "is_static (data (Node d cs))"
    then have w: "wf_static d cs" "list_all wf_node cs" using "1.prems"(1) by (simp_all add: wf_node_iff)
    show ?case
    proof (cases "n_path d = []")
      case False
      then have "hd (n_path d) = i" using "1.prems"(2) st
        by (auto simp: child_ok_def is_static_def)
      moreover have "\<not> is_wild (hd (n_path d))"
        using w(1) False by (auto simp: wf_static_def static_str_def)
      moreover have "\<exists>q. p = n_path d @ q"
        using "1.prems"(3) by (auto simp: set_routes own_def under_iff split: option.splits)
      ultimately show ?thesis using False by auto
    next
      case True
      then have c: "i = slash" "n_handle d = None" "n_indices d = ''/''" "\<not> n_wildChild d"
        using "1.prems"(2) st by (auto simp: child_ok_def is_static_def)
      then have ch: "list_all2 child_ok ''/'' cs" using w(1) by (simp add: wf_static_def)
      then obtain c where c': "cs = [c]" "child_ok slash c" by (auto simp: list_all2_Cons1)
      moreover have "(p, h) \<in> set (routes c)"
        using "1.prems"(3) True c c' by (auto simp: set_routes own_def)
      ultimately show ?thesis using "1.IH" [of c slash p] w(2) c(1) by simp
    qed
  next
    assume "n_nType (data (Node d cs)) = NCatchAll" "n_wildChild (data (Node d cs))" "i = slash"
    then show ?case using routes_inner [of d cs p h] "1.prems"(1,3) by (auto simp: catch_start_def)
  qed
qed

lemma routes_param:
  assumes "wf_node (Node d cs)" "n_nType d = NParam" "(p, h) \<in> set (routes (Node d cs))"
  shows "\<exists>q. p = n_path d @ q \<and> (q = [] \<and> n_handle d = Some h \<or>
    q \<noteq> [] \<and> hd q = slash \<and> (\<exists>c. cs = [c] \<and> (q, h) \<in> set (routes c)))"
proof -
  have w: "length cs \<le> 1" "list_all (child_ok slash) cs" "list_all wf_node cs"
    using assms(1,2) by (simp_all add: wf_node_iff wf_param_def)
  show ?thesis
  proof (cases cs)
    case Nil
    then show ?thesis using assms(3) by (auto simp: set_routes own_def split: option.splits)
  next
    case (Cons c cs')
    with w have "cs = [c]" "child_ok slash c" "wf_node c" by auto
    then show ?thesis using assms(3) routes_start [of c slash]
      by (auto simp: set_routes own_def under_iff split: option.splits)
  qed
qed

lemma wf_param_path:
  assumes "wf_node (Node d cs)" "n_nType d = NParam"
  obtains name where "n_path d = colon # name" "valid_name name" "\<not> n_wildChild d"
  using assms by (cases "n_path d") (auto simp: wf_node_iff wf_param_def)

text \<open>Below a static node no route is empty or starts with a star.\<close>

lemma below_static:
  assumes "wf_node (Node d cs)" "is_static d" "(p, h) \<in> below cs"
  shows "p \<noteq> [] \<and> no_star p"
proof -
  have w: "wf_static d cs" "list_all wf_node cs" using assms(1,2) by (simp_all add: wf_node_iff)
  from assms(3) obtain c where c: "c \<in> set cs" "(p, h) \<in> set (routes c)" by (auto simp: below_def)
  have wc: "wf_node c" using w(2) c(1) by (simp add: list_all_iff)
  show ?thesis
  proof (cases "n_wildChild d")
    case True
    then have pc: "n_nType (data c) = NParam" using w(1) c(1) by (simp add: wf_static_def list_all_iff)
    obtain dc cc where "c = Node dc cc" by (cases c)
    then have dc: "wf_node (Node dc cc)" "n_nType dc = NParam" "(p, h) \<in> set (routes (Node dc cc))"
      using pc wc c(2) by simp_all
    obtain name where "n_path dc = colon # name" using wf_param_path [OF dc(1,2)] .
    moreover obtain q where "p = n_path dc @ q" using routes_param [OF dc] by blast
    ultimately show ?thesis by (simp add: no_star_def)
  next
    case False
    then have "list_all2 child_ok (n_indices d) cs" using w(1) by (simp add: wf_static_def)
    then obtain i where "child_ok i c" using c(1)
      by (metis in_set_conv_nth list_all2_conv_all_nth)
    from routes_start [OF wc this c(2)] show ?thesis by (auto simp: no_star_def is_wild_def)
  qed
qed

section \<open>Matching a tree\<close>

text \<open>A path matches a set of routes with a handle and parameters.\<close>

definition matches :: "(string \<times> 'h) set \<Rightarrow> string \<Rightarrow> 'h \<Rightarrow> param list \<Rightarrow> bool" where
  "matches R s h ps \<longleftrightarrow> (\<exists>p. (p, h) \<in> R \<and> match_pat p s = Some ps)"

lemma matches_simps [simp]:
  "\<not> matches {} s h ps"
  "matches (R \<union> S) s h ps \<longleftrightarrow> matches R s h ps \<or> matches S s h ps"
  by (auto simp: matches_def)

lemma matches_below: "matches (below cs) s h ps \<longleftrightarrow> (\<exists>c \<in> set cs. matches (set (routes c)) s h ps)"
  by (auto simp: matches_def below_def)

lemma matches_static:
  assumes "wf_node (Node d cs)" "is_static d"
  shows "matches (set (routes (Node d cs))) s h ps \<longleftrightarrow>
    length (n_path d) \<le> length s \<and> take (length (n_path d)) s = n_path d \<and>
    (let s' = drop (length (n_path d)) s
     in s' = [] \<and> n_handle d = Some h \<and> ps = [] \<or> s' \<noteq> [] \<and> matches (below cs) s' h ps)"
proof -
  let ?a = "n_path d"
  have st: "static_str ?a" using assms by (simp add: wf_node_iff wf_static_def)
  have b: "q \<noteq> []" "no_star q" if "(q, h) \<in> below cs" for q
    using below_static [OF assms that] by auto
  have "matches (under ?a (below cs)) s h ps \<longleftrightarrow>
      length ?a \<le> length s \<and> take (length ?a) s = ?a \<and> drop (length ?a) s \<noteq> [] \<and>
      matches (below cs) (drop (length ?a) s) h ps"
  proof
    assume "matches (under ?a (below cs)) s h ps"
    then obtain q where q: "(q, h) \<in> below cs" "match_pat (?a @ q) s = Some ps"
      by (auto simp: matches_def under_iff)
    with b [OF q(1)] match_pat_static [OF st, of q s] show "length ?a \<le> length s \<and>
        take (length ?a) s = ?a \<and> drop (length ?a) s \<noteq> [] \<and> matches (below cs) (drop (length ?a) s) h ps"
      by (auto simp: matches_def split: if_splits)
  next
    assume a: "length ?a \<le> length s \<and> take (length ?a) s = ?a \<and> drop (length ?a) s \<noteq> [] \<and>
      matches (below cs) (drop (length ?a) s) h ps"
    then obtain q where q: "(q, h) \<in> below cs" "match_pat q (drop (length ?a) s) = Some ps"
      by (auto simp: matches_def)
    with a b [OF q(1)] match_pat_static [OF st, of q s] show "matches (under ?a (below cs)) s h ps"
      by (auto simp: matches_def under_iff)
  qed
  moreover have "matches (own d) s h ps \<longleftrightarrow> n_handle d = Some h \<and> s = ?a \<and> ps = []"
    using match_pat_static [OF st, of "[]" s]
    by (auto simp: matches_def own_def no_star_def split: option.splits if_splits)
  ultimately show ?thesis by (auto simp: set_routes Let_def)
qed

lemma matches_index:
  assumes "wf_node (Node d cs)" "is_static d" "\<not> n_wildChild d" "s \<noteq> []"
  shows "matches (below cs) s h ps \<longleftrightarrow>
    (\<exists>k < length cs. find_index (hd s) (n_indices d) = Some k \<and> matches (set (routes (cs ! k))) s h ps)"
proof -
  have w: "distinct (n_indices d)" "list_all2 child_ok (n_indices d) cs" "list_all wf_node cs"
    using assms by (auto simp: wf_node_iff wf_static_def)
  have start: "hd s = n_indices d ! k"
    if "k < length cs" "matches (set (routes (cs ! k))) s h ps" for k
  proof -
    have c: "child_ok (n_indices d ! k) (cs ! k)" "wf_node (cs ! k)"
      using that(1) w by (auto simp: list_all2_conv_all_nth list_all_length)
    from that(2) obtain p where p: "(p, h) \<in> set (routes (cs ! k))" "match_pat p s = Some ps"
      by (auto simp: matches_def)
    from routes_start [OF c(2,1) p(1)] obtain p' where
      "p = n_indices d ! k # p'" "\<not> is_wild (n_indices d ! k)" by (cases p) auto
    with p(2) assms(4) show ?thesis
      by (cases s) (auto simp: is_wild_def split: if_splits)
  qed
  have len: "length (n_indices d) = length cs" using w(2) by (simp add: list_all2_lengthD)
  show ?thesis
  proof
    assume "matches (below cs) s h ps"
    then obtain k where k: "k < length cs" "matches (set (routes (cs ! k))) s h ps"
      by (auto simp: matches_below in_set_conv_nth)
    with start [OF k] find_index_distinct [OF w(1)] len
    show "\<exists>k < length cs. find_index (hd s) (n_indices d) = Some k \<and> matches (set (routes (cs ! k))) s h ps"
      by auto
  next
    assume "\<exists>k < length cs. find_index (hd s) (n_indices d) = Some k \<and> matches (set (routes (cs ! k))) s h ps"
    then show "matches (below cs) s h ps" by (auto simp: matches_below)
  qed
qed

lemma matches_param:
  assumes "wf_node (Node d cs)" "n_nType d = NParam" "s \<noteq> []"
  shows "matches (set (routes (Node d cs))) s h ps \<longleftrightarrow>
    (\<exists>ps'. ps = \<lparr>Key = tl (n_path d), Value = segment s\<rparr> # ps' \<and>
      (if after_segment s = [] then n_handle d = Some h \<and> ps' = []
       else \<exists>c. cs = [c] \<and> matches (set (routes c)) (after_segment s) h ps'))"
    (is "_ \<longleftrightarrow> ?R")
proof -
  obtain name where name: "n_path d = colon # name" "valid_name name"
    using wf_param_path [OF assms(1,2)] .
  have m: "match_pat (n_path d @ q) s = map_option ((#) \<lparr>Key = tl (n_path d), Value = segment s\<rparr>)
      (match_pat q (after_segment s))" if "q = [] \<or> hd q = slash" for q
    using match_pat_param [OF name(2) that assms(3)] name(1) by simp
  show ?thesis
  proof
    assume "matches (set (routes (Node d cs))) s h ps"
    then obtain p where p: "(p, h) \<in> set (routes (Node d cs))" "match_pat p s = Some ps"
      by (auto simp: matches_def)
    from routes_param [OF assms(1,2) p(1)] obtain q where q: "p = n_path d @ q"
      "q = [] \<and> n_handle d = Some h \<or> q \<noteq> [] \<and> hd q = slash \<and> (\<exists>c. cs = [c] \<and> (q, h) \<in> set (routes c))"
      by blast
    with m [of q] p(2) show ?R
      by (cases "match_pat q (after_segment s)"; cases "after_segment s = []")
        (auto simp: matches_def split: if_splits)
  next
    assume ?R
    then obtain ps' where ps': "ps = \<lparr>Key = tl (n_path d), Value = segment s\<rparr> # ps'"
      "if after_segment s = [] then n_handle d = Some h \<and> ps' = []
       else \<exists>c. cs = [c] \<and> matches (set (routes c)) (after_segment s) h ps'" by blast
    show "matches (set (routes (Node d cs))) s h ps"
    proof (cases "after_segment s = []")
      case True
      with ps' m [of "[]"] show ?thesis
        by (auto simp: matches_def set_routes own_def intro!: exI [of _ "n_path d"])
    next
      case False
      then obtain c q where c: "cs = [c]" "(q, h) \<in> set (routes c)" "match_pat q (after_segment s) = Some ps'"
        using ps' by (auto simp: matches_def)
      have "wf_node c" "child_ok slash c" using assms c(1) by (simp_all add: wf_node_iff wf_param_def)
      from routes_start [OF this c(2)] m [of q] c ps'(1)
      have "match_pat (n_path d @ q) s = Some ps" by simp
      moreover have "(n_path d @ q, h) \<in> set (routes (Node d cs))"
        using c(1,2) by (auto simp: set_routes under_iff)
      ultimately show ?thesis unfolding matches_def by blast
    qed
  qed
qed

lemma matches_inner:
  assumes "wf_node (Node d [Node l cl])" "n_nType d = NCatchAll" "n_wildChild d"
  shows "matches (set (routes (Node d [Node l cl]))) s h ps \<longleftrightarrow>
    s \<noteq> [] \<and> hd s = slash \<and> n_handle l = Some h \<and> ps = [\<lparr>Key = drop 2 (n_path l), Value = s\<rparr>]"
  using wf_inner [OF assms]
  by (auto simp: matches_def set_routes own_def split: if_splits)

section \<open>Capacity\<close>

text \<open>
  \<open>wdepth n\<close>: the most wildcards on a way down from \<open>n\<close>, \<open>n\<close> included. The slice of parameters
  is allocated with the \<open>maxParams\<close> of the first wildcard node on the way, so \<open>cap_ok\<close> asks
  each of them to have at least its \<open>wdepth\<close>.
\<close>

definition is_wild_node :: "'h node_data \<Rightarrow> bool" where
  "is_wild_node d \<longleftrightarrow> n_nType d = NParam \<or> n_nType d = NCatchAll \<and> \<not> n_wildChild d"

fun wdepth :: "'h node \<Rightarrow> nat" where
  "wdepth (Node d cs) = (if is_wild_node d then 1 else 0) + foldr max (map wdepth cs) 0"

fun cap_ok :: "'h node \<Rightarrow> bool" where
  "cap_ok (Node d cs) \<longleftrightarrow>
     (is_wild_node d \<longrightarrow> wdepth (Node d cs) \<le> unat (n_maxParams d)) \<and> list_all cap_ok cs"

lemma foldr_max_ge: "x \<in> set xs \<Longrightarrow> x \<le> foldr max xs (0::nat)"
  by (induction xs) auto

lemma foldr_max_le: "foldr max xs (0::nat) \<le> m \<longleftrightarrow> (\<forall>x \<in> set xs. x \<le> m)"
  by (induction xs) auto

lemma wdepth_child: "c \<in> set cs \<Longrightarrow> wdepth c + (if is_wild_node d then 1 else 0) \<le> wdepth (Node d cs)"
  using foldr_max_ge [of "wdepth c" "map wdepth cs"] by simp

section \<open>Correctness of the lookup\<close>

text \<open>The nodes the lookup loop visits: static ones, and inner catch-all nodes at a slash.\<close>

definition visits :: "'h node_data \<Rightarrow> string \<Rightarrow> bool" where
  "visits d s \<longleftrightarrow> is_static d \<or> n_nType d = NCatchAll \<and> n_wildChild d \<and> s \<noteq> [] \<and> hd s = slash"

definition room :: "params_slice \<Rightarrow> nat \<Rightarrow> bool" where
  "room p k \<longleftrightarrow> (case p of None \<Rightarrow> True | Some (ps, c) \<Rightarrow> length ps + k \<le> c)"

text \<open>A lookup result that says exactly what matches.\<close>

definition answers :: "'h lookup \<Rightarrow> params_slice \<Rightarrow> (string \<times> 'h) set \<Rightarrow> string \<Rightarrow> bool" where
  "answers r p R s \<longleftrightarrow> (\<exists>ho p' tsr ext. r = Return ho p' tsr \<and> contents p' = contents p @ ext \<and>
     (\<forall>h ps. matches R s h ps \<longleftrightarrow> ho = Some h \<and> contents p' = contents p @ ps))"

lemma answers_none:
  "(\<And>h ps. \<not> matches R s h ps) \<Longrightarrow> contents p' = contents p @ ext \<Longrightarrow> answers (Return None p' tsr) p R s"
  by (simp add: answers_def)

lemma saveParam_room:
  assumes "room p k" "1 \<le> k" "k \<le> unat m"
  shows "\<exists>p'. saveParam p m key v = Some p' \<and> contents p' = contents p @ [\<lparr>Key = key, Value = v\<rparr>] \<and>
    room p' (k - 1)"
  using assms by (cases p) (auto simp: saveParam_def room_def contents_def capacity_def Let_def)

lemma room_mono: "room p k \<Longrightarrow> l \<le> k \<Longrightarrow> room p l"
  by (auto simp: room_def split: option.splits)

lemma paramEnd_segment:
  "take (paramEnd s) s = segment s" "drop (paramEnd s) s = after_segment s"
  "paramEnd s < length s \<longleftrightarrow> after_segment s \<noteq> []"
proof -
  show t: "take (paramEnd s) s = segment s"
    by (simp add: paramEnd_def segment_def takeWhile_eq_take [symmetric])
  show d: "drop (paramEnd s) s = after_segment s"
    by (simp add: paramEnd_def after_segment_def dropWhile_eq_drop)
  show "paramEnd s < length s \<longleftrightarrow> after_segment s \<noteq> []"
    using d by (metis drop_eq_Nil not_le)
qed

lemma getValue_leaf_answers:
  assumes wf: "wf_node (Node d cs)" and st: "is_static d" and s: "s = n_path d"
  shows "answers (getValue_leaf (Node d cs) s p) p (set (routes (Node d cs))) s"
proof (cases "n_handle d")
  case (Some h)
  then show ?thesis
    using matches_static [OF wf st] s by (auto simp: getValue_leaf_def answers_def Let_def)
next
  case None
  have no: "\<not> matches (set (routes (Node d cs))) s h ps" for h ps
    using matches_static [OF wf st] s None by (simp add: Let_def)
  have "\<exists>tsr. getValue_leaf (Node d cs) s p = Return None p tsr"
  proof (cases "find_index slash (n_indices d)")
    case (Some k)
    have w: "wf_static d cs" "list_all wf_node cs" using wf st by (simp_all add: wf_node_iff)
    then have "\<not> n_wildChild d" using Some by (auto simp: wf_static_def)
    then have ok: "list_all2 child_ok (n_indices d) cs" using w(1) by (simp add: wf_static_def)
    have k: "k < length cs" using find_index_Some [OF Some] ok by (auto dest: list_all2_lengthD)
    obtain dc cc where c: "cs ! k = Node dc cc" by (cases "cs ! k")
    have "child_ok (n_indices d ! k) (Node dc cc)" "wf_node (Node dc cc)"
      using ok w(2) k c by (metis list_all2_nthD2 list_all_length)+
    then have "n_nType dc = NCatchAll \<Longrightarrow> cc \<noteq> []"
      using wf_inner [of dc cc] by (auto simp: child_ok_def is_static_def)
    with Some None k c show ?thesis
      by (auto simp: getValue_leaf_def Let_def split: list.split)
  qed (auto simp: getValue_leaf_def None Let_def)
  with no show ?thesis using answers_none [of _ _ p p "[]"] by (metis append_Nil2)
qed


lemma answers_param:
  assumes "answers r p' R' s'" "contents p' = contents p @ [x]"
    "\<And>h ps. matches R s h ps \<longleftrightarrow> (\<exists>ps'. ps = x # ps' \<and> matches R' s' h ps')"
  shows "answers r p R s"
proof -
  from assms(1) obtain ho p'' tsr ext where r: "r = Return ho p'' tsr"
    "contents p'' = contents p' @ ext"
    "\<And>h ps. matches R' s' h ps \<longleftrightarrow> ho = Some h \<and> contents p'' = contents p' @ ps"
    by (auto simp: answers_def)
  then have "matches R s h ps \<longleftrightarrow> ho = Some h \<and> contents p'' = contents p @ ps" for h ps
    using assms(2,3) by auto
  then show ?thesis using r(1,2) assms(2) by (auto simp: answers_def)
qed

lemma answers_cong:
  assumes "answers r p R' s'" "\<And>h ps. matches R s h ps \<longleftrightarrow> matches R' s' h ps"
  shows "answers r p R s"
  using assms by (simp add: answers_def)

lemma getValue_param_end_answers:
  assumes wf: "wf_node (Node dw cw)" and ty: "n_nType dw = NParam" and s: "s \<noteq> []" "after_segment s = []"
    and p': "contents p' = contents p @ [\<lparr>Key = tl (n_path dw), Value = segment s\<rparr>]"
  shows "answers (getValue_param_end (Node dw cw) p') p (set (routes (Node dw cw))) s"
proof -
  have "matches (set (routes (Node dw cw))) s h ps \<longleftrightarrow>
      ps = [\<lparr>Key = tl (n_path dw), Value = segment s\<rparr>] \<and> n_handle dw = Some h" for h ps
    using matches_param [OF wf ty s(1)] s(2) by auto
  then show ?thesis using p'
    by (auto simp: answers_def getValue_param_end_def split: list.split)
qed

text \<open>One turn of the loop at a node with a parameter child.\<close>

lemma getValue_walk_param:
  assumes "length (n_path d) < length s" "take (length (n_path d)) s = n_path d"
    "drop (length (n_path d)) s = t" "n_wildChild d" "n_nType dw = NParam" "n_path dw = colon # name"
    "saveParam p (n_maxParams dw) name (segment t) = Some p'"
  shows "getValue_walk (Node d [Node dw cw]) s p =
    (if after_segment t \<noteq> [] then
       (if cw \<noteq> [] then getValue_walk (hd cw) (after_segment t) p'
        else Return None p' (length t = paramEnd t + 1))
     else getValue_param_end (Node dw cw) p')"
  using assms by (subst getValue_walk.simps) (simp add: Let_def paramEnd_segment)

text \<open>The loop answers every path: it neither panics nor returns a wrong handle or parameter.\<close>

lemma getValue_walk_answers:
  fixes n :: "'h node"
  assumes "wf_node n" "visits (data n) s" "cap_ok n" "room p (wdepth n)"
  shows "answers (getValue_walk n s p) p (set (routes n)) s"
  using assms
proof (induction "nsize n" arbitrary: n s p rule: less_induct)
  case less
  obtain d cs where n: "n = Node d cs" by (cases n)
  note wf = less.prems(1) [unfolded n] and cap = less.prems(3) [unfolded n]
  have sub: "answers (getValue_walk c t q) q (set (routes c)) t"
    if "nsize c < nsize n" "wf_node c" "visits (data c) t" "cap_ok c" "room q (wdepth c)"
    for c :: "'h node" and t q
    by (rule less.hyps [OF that])
  let ?a = "n_path d" and ?t = "drop (length (n_path d)) s"
  from less.prems(2) n consider (st) "is_static d"
    | (inner) "n_nType d = NCatchAll" "n_wildChild d" "s \<noteq> []" "hd s = slash"
    by (auto simp: visits_def)
  then show ?case
  proof cases
    case inner
    from wf_inner [OF wf inner(1,2)] obtain l name h where l: "cs = [Node l []]" "n_path d = []"
      "n_nType l = NCatchAll" "\<not> n_wildChild l" "n_path l = slash # star # name" "n_handle l = Some h"
      by blast
    have "1 \<le> wdepth n" "1 \<le> unat (n_maxParams l)"
      using cap l n by (simp_all add: is_wild_node_def)
    then obtain p' where p': "saveParam p (n_maxParams l) name s = Some p'"
      "contents p' = contents p @ [\<lparr>Key = name, Value = s\<rparr>]"
      using saveParam_room [of p 1 "n_maxParams l" name s] room_mono [OF less.prems(4)] by auto
    have "getValue_walk n s p = Return (Some h) p' False"
      using n l inner p'(1) by (subst getValue_walk.simps) (simp add: Let_def)
    then show ?thesis
      using matches_inner [of d l "[]"] wf n l inner p'(2) by (auto simp: answers_def)
  next
    case st
    have w: "wf_static d cs" "list_all wf_node cs" using wf st by (simp_all add: wf_node_iff)
    note ms = matches_static [OF wf st]
    consider (miss) "\<not> (length ?a \<le> length s \<and> take (length ?a) s = ?a)" | (here) "s = ?a"
      | (deeper) "take (length ?a) s = ?a" "length ?a < length s"
      by (metis append_take_drop_id drop_all le_neq_implies_less order_refl self_append_conv)
    then show ?thesis
    proof cases
      case miss
      then have "getValue_walk n s p = getValue_miss d s p"
        using n by (subst getValue_walk.simps) (auto simp: Let_def)
      then show ?thesis using miss ms n unfolding getValue_miss_def
        by (auto intro!: answers_none [where ext = "[]"])
    next
      case here
      then have "getValue_walk n s p = getValue_leaf n s p"
        using n by (subst getValue_walk.simps) (simp add: Let_def)
      then show ?thesis using getValue_leaf_answers [OF wf st here] n by simp
    next
      case deeper
      have t: "?t \<noteq> []" using deeper by simp
      have mt: "matches (set (routes n)) s h ps \<longleftrightarrow> matches (below cs) ?t h ps" for h ps
        using ms deeper n by (auto simp: Let_def)
      show ?thesis
      proof (cases "n_wildChild d")
        case False
        note mi = matches_index [OF wf st False t]
        have ok: "list_all2 child_ok (n_indices d) cs" using w(1) False by (simp add: wf_static_def)
        show ?thesis
        proof (cases "find_index (hd ?t) (n_indices d)")
          case None
          then have "\<not> matches (set (routes n)) s h ps" for h ps using mt mi by simp
          moreover have "\<exists>tsr. getValue_walk n s p = Return None p tsr"
            using None False deeper n by (subst getValue_walk.simps) (simp add: Let_def)
          ultimately show ?thesis using answers_none [of _ _ p p "[]"] by (metis append_Nil2)
        next
          case (Some k)
          have k: "k < length cs" "n_indices d ! k = hd ?t"
            using find_index_Some [OF Some] ok by (auto dest: list_all2_lengthD)
          then have "child_ok (hd ?t) (cs ! k)" using ok by (metis list_all2_nthD2)
          then have v: "visits (data (cs ! k)) ?t"
            using child_ok_static_or_inner t by (fastforce simp: visits_def)
          have c: "nsize (cs ! k) < nsize n" "wf_node (cs ! k)" "cap_ok (cs ! k)"
            "wdepth (cs ! k) \<le> wdepth n"
            using k n w(2) cap nsize_child [of "cs ! k" cs d] wdepth_child [of "cs ! k" cs d]
            by (auto simp: list_all_length simp del: nsize.simps wdepth.simps)
          have "getValue_walk n s p = getValue_walk (cs ! k) ?t p"
            using Some k False deeper n by (subst getValue_walk.simps) (simp add: Let_def)
          moreover have "matches (set (routes n)) s h ps \<longleftrightarrow> matches (set (routes (cs ! k))) ?t h ps" for h ps
            using mt mi Some k by auto
          ultimately show ?thesis
            using answers_cong [OF sub [OF c(1,2) v c(3) room_mono [OF less.prems(4) c(4)]]] by simp
        qed
      next
        case True
        obtain wn where "cs = [wn]" using w(1) True by (auto simp: wf_static_def length_Suc_conv)
        moreover obtain dw cw where "wn = Node dw cw" by (cases wn)
        ultimately have cs: "cs = [Node dw cw]" by simp
        have ty: "n_nType dw = NParam" using w(1) True cs by (simp add: wf_static_def)
        have wfw: "wf_node (Node dw cw)" using w(2) cs by simp
        obtain name where name: "n_path dw = colon # name" using wf_param_path [OF wfw ty] .
        have capw: "cap_ok (Node dw cw)" using cap cs by simp
        have dep: "1 \<le> wdepth (Node dw cw)" "wdepth (Node dw cw) \<le> unat (n_maxParams dw)"
          "wdepth (Node dw cw) \<le> wdepth n"
          using capw ty cs n by (simp_all add: is_wild_node_def)
        obtain p' where p': "saveParam p (n_maxParams dw) name (segment ?t) = Some p'"
          "contents p' = contents p @ [\<lparr>Key = name, Value = segment ?t\<rparr>]"
          "room p' (wdepth (Node dw cw) - 1)"
          using saveParam_room [OF room_mono [OF less.prems(4) dep(3)] dep(1,2)] by blast
        have walk: "getValue_walk n s p =
          (if after_segment ?t \<noteq> [] then
             (if cw \<noteq> [] then getValue_walk (hd cw) (after_segment ?t) p'
              else Return None p' (length ?t = paramEnd ?t + 1))
           else getValue_param_end (Node dw cw) p')"
          unfolding n cs by (rule getValue_walk_param [OF deeper(2,1) refl True ty name p'(1)])
        have mw: "matches (set (routes n)) s h ps \<longleftrightarrow> matches (set (routes (Node dw cw))) ?t h ps" for h ps
          using mt cs by simp
        note mp = matches_param [OF wfw ty t]
        show ?thesis
        proof (cases "after_segment ?t = []")
          case True
          then show ?thesis
            using answers_cong [OF getValue_param_end_answers [OF wfw ty t True, of p' p]] p'(2) name mw walk
            by simp
        next
          case False
          show ?thesis
          proof (cases cw)
            case Nil
            then have "\<not> matches (set (routes n)) s h ps" for h ps using mw mp False by auto
            then show ?thesis using walk False Nil answers_none [OF _ p'(2)] by metis
          next
            case (Cons c cw')
            then have wp: "wf_param dw cw" "cw = [c]" "child_ok slash c" "wf_node c"
              using wfw ty by (auto simp: wf_node_iff wf_param_def)
            have v: "visits (data c) (after_segment ?t)"
              using child_ok_static_or_inner [OF wp(3)] False after_segment_cases [of ?t]
              by (auto simp: visits_def)
            have c: "nsize c < nsize n" "cap_ok c" "room p' (wdepth c)"
              using n cs wp(2) capw p'(3) ty by (simp_all add: is_wild_node_def)
            have "answers (getValue_walk c (after_segment ?t) p') p' (set (routes c)) (after_segment ?t)"
              by (rule sub [OF c(1) wp(4) v c(2,3)])
            then have "answers (getValue_walk c (after_segment ?t) p') p (set (routes n)) s"
              by (rule answers_param [OF _ p'(2)]) (use mw mp False wp(2) name in auto)
            then show ?thesis using walk False wp(2) by simp
          qed
        qed
      qed
    qed
  qed
qed

end
