(* ===== verification/Router_Insert.thy ===== *)
theory Router_Insert
  imports Router_Invariant
begin

text \<open>
  Correctness of \<open>insertChild\<close> and \<open>addRoute\<close>: a route is accepted exactly when its pattern is
  valid and compatible with every route of the tree, and then the tree holds one more route
  and stays well-formed, with enough capacity for the parameters.
\<close>

section \<open>When a pattern fits a set of routes\<close>

definition fits :: "string \<Rightarrow> (string \<times> 'h) set \<Rightarrow> bool" where
  "fits p R \<longleftrightarrow> valid_pat p \<and> (\<forall>(q, h) \<in> R. q \<noteq> p \<and> compatible p q)"

lemma fits_simps [simp]:
  "fits p {} = valid_pat p" "fits p (R \<union> S) = (fits p R \<and> fits p S)"
  by (auto simp add: fits_def)+

lemma fitsD: "fits p R \<Longrightarrow> (q, h) \<in> R \<Longrightarrow> q \<noteq> p \<and> compatible p q"
  by (auto simp: fits_def)

text \<open>Every node leads to a route.\<close>

fun live :: "'h node \<Rightarrow> bool" where
  "live (Node d cs) \<longleftrightarrow> (n_handle d \<noteq> None \<or> cs \<noteq> []) \<and> list_all live cs"

lemma live_routes: "live n \<Longrightarrow> \<exists>p h. (p, h) \<in> set (routes n)"
proof (induction n rule: live.induct)
  case (1 d cs)
  show ?case
  proof (cases cs)
    case Nil
    with "1.prems" show ?thesis by (auto simp: set_routes own_def)
  next
    case (Cons c cs')
    with 1 have "\<exists>p h. (p, h) \<in> set (routes c)" by simp
    with Cons show ?thesis by (fastforce simp: set_routes under_iff)
  qed
qed

text \<open>\<open>t\<close> is the tree \<open>n\<close> with the route \<open>(p, h)\<close> added.\<close>

definition inserted :: "'h node \<Rightarrow> string \<Rightarrow> 'h \<Rightarrow> 'h node \<Rightarrow> bool" where
  "inserted n p h t \<longleftrightarrow>
     wf_node t \<and> live t \<and> cap_ok t \<and> wdepth t \<le> max (wdepth n) (count_wild p) \<and>
     set (routes t) = insert (p, h) (set (routes n)) \<and>
     n_nType (data t) = n_nType (data n) \<and>
     (child_ok (hd p) n \<longrightarrow> child_ok (hd p) t)"

definition decides :: "'h outcome \<Rightarrow> 'h node \<Rightarrow> string \<Rightarrow> 'h \<Rightarrow> bool" where
  "decides r n p h \<longleftrightarrow>
     (if fits p (set (routes n)) then \<exists>t. r = Done t \<and> inserted n p h t else \<exists>e t. r = Panic e t)"

section \<open>Counting wildcards\<close>

lemma count_wild_simps [simp]:
  "count_wild [] = 0" "count_wild (c # p) = (if is_wild c then Suc (count_wild p) else count_wild p)"
  "count_wild (p @ q) = count_wild p + count_wild q"
  by (simp_all add: count_wild_def)

lemma count_wild_static [simp]: "static_str s \<Longrightarrow> count_wild s = 0"
  by (simp add: count_wild_def static_str_def filter_False)

lemma count_wild_0: "count_wild s = 0 \<longleftrightarrow> static_str s"
  by (auto simp: count_wild_def static_str_def filter_empty_conv)

lemma count_wild_drop_nth:
  "i < length p \<Longrightarrow> count_wild (drop i p) =
    (if is_wild (p ! i) then Suc (count_wild (drop (Suc i) p)) else count_wild (drop (Suc i) p))"
  by (simp flip: Cons_nth_drop_Suc)

lemma countParams_count_wild: "count_wild p \<le> 255 \<Longrightarrow> unat (countParams p) = count_wild p"
  by (auto simp: countParams_def Let_def unat_of_nat take_bit_nat_eq_self)

lemma unat_minus_one_word: "(w :: 8 word) \<noteq> 0 \<Longrightarrow> unat (w - 1) = unat w - 1"
  by (simp add: unat_minus_one)

section \<open>\<open>insertChild\<close>\<close>

lemma wildcardEnd_segment:
  "e \<le> length p \<Longrightarrow> wildcardEnd p e =
    (if static_str (segment (drop e p)) then Some (e + length (segment (drop e p))) else None)"
proof (induction p e rule: wildcardEnd.induct)
  case (1 p e)
  show ?case
  proof (cases "e < length p")
    case True
    then have "drop e p = p ! e # drop (e + 1) p" by (simp add: Cons_nth_drop_Suc)
    then have s: "segment (drop e p) = (if p ! e = slash then [] else p ! e # segment (drop (e + 1) p))"
      by (simp add: segment_def)
    with 1 True show ?thesis by (subst wildcardEnd.simps) auto
  next
    case False
    with 1 show ?thesis by (subst wildcardEnd.simps) (simp add: segment_def)
  qed
qed

text \<open>Scanning over bytes that are no wildcards.\<close>

lemma insertLoop_skip:
  assumes "i \<le> k" "k \<le> length path" "static_str (substr path i k)"
  shows "insertLoop d cs off i np path fp h = insertLoop d cs off k np path fp h"
  using assms
proof (induction "k - i" arbitrary: i)
  case (Suc n)
  then have i: "i < k" by simp
  then have s: "substr path i k = path ! i # substr path (Suc i) k"
    using Suc.prems(2) by (simp add: substr_def flip: Cons_nth_drop_Suc) (simp add: take_Cons' Suc_diff_Suc)
  have "insertLoop d cs off i np path fp h = insertLoop d cs off (i + 1) np path fp h"
  proof (cases "np = 0")
    case True
    then show ?thesis by (simp add: insertLoop.simps)
  next
    case False
    then show ?thesis using i s Suc.prems by (subst insertLoop.simps) auto
  qed
  also have "\<dots> = insertLoop d cs off k np path fp h"
    using Suc i s by (intro Suc.hyps(1)) auto
  finally show ?case .
qed simp

lemma valid_pat_star_static:
  assumes "static_str s"
  shows "valid_pat (s @ star # name) \<longleftrightarrow> s \<noteq> [] \<and> last s = slash \<and> valid_name name"
  using assms
proof (induction s)
  case (Cons c s)
  show ?case
  proof (cases s)
    case Nil
    with Cons.prems show ?thesis by (auto simp: is_wild_def)
  next
    case (Cons x s')
    with Cons.IH Cons.prems have "valid_pat (s @ star # name) \<longleftrightarrow> s \<noteq> [] \<and> last s = slash \<and> valid_name name"
      by simp
    with Cons Cons.prems show ?thesis by (auto simp: is_wild_def)
  qed
qed simp

text \<open>
  What the loop leaves when it is done: \<open>d\<close> are the fields of the node it started with and
  \<open>rest\<close> the part of the path it had not handled.
\<close>

definition loop_post :: "'h node_data \<Rightarrow> string \<Rightarrow> 'h \<Rightarrow> nat \<Rightarrow> 'h node \<Rightarrow> bool" where
  "loop_post d rest h np t \<longleftrightarrow>
     wf_node t \<and> live t \<and> cap_ok t \<and> wdepth t \<le> np \<and> n_nType (data t) = n_nType d \<and>
     set (routes t) = own d \<union> {(n_path d @ rest, h)} \<and>
     (n_nType d = NStatic \<and> n_path d @ rest \<noteq> [] \<and> \<not> is_wild (hd (n_path d @ rest)) \<longrightarrow>
       child_ok (hd (n_path d @ rest)) t)"

definition loop_decides :: "'h outcome \<Rightarrow> 'h node_data \<Rightarrow> string \<Rightarrow> 'h \<Rightarrow> nat \<Rightarrow> bool" where
  "loop_decides r d rest h np \<longleftrightarrow>
     (if valid_pat rest then \<exists>t. r = Done t \<and> loop_post d rest h np t else \<exists>e t. r = Panic e t)"

lemma is_static_update [simp]:
  "is_static (d\<lparr>n_path := a\<rparr>) = is_static d" "is_static (d\<lparr>n_handle := x\<rparr>) = is_static d"
  "is_static (d\<lparr>n_wildChild := b\<rparr>) = is_static d" "is_static (d\<lparr>n_indices := i\<rparr>) = is_static d"
  "is_static (d\<lparr>n_maxParams := m\<rparr>) = is_static d" "is_static (d\<lparr>n_priority := q\<rparr>) = is_static d"
  by (simp_all add: is_static_def)

lemma is_static_not_wild [simp]: "is_static d \<Longrightarrow> \<not> is_wild_node d"
  by (auto simp: is_static_def is_wild_node_def)

text \<open>The leaf: no wildcard is left.\<close>

lemma loop_static:
  assumes "is_static d" "n_indices d = []" "\<not> n_wildChild d" "n_path d = []" "n_handle d = None"
    "static_str rest"
  shows "loop_post d rest h 0 (Node (d\<lparr>n_path := rest, n_handle := Some h\<rparr>) [])"
  using assms
  by (auto simp: loop_post_def wf_node_iff wf_static_def own_def set_routes child_ok_def
      is_static_def is_wild_node_def)

text \<open>A parameter child is put under the node whose path was cut before the wildcard.\<close>

lemma loop_param:
  assumes d: "is_static d" "n_indices d = []" "static_str a"
    and start: "n_path d = [] \<and> n_handle d = None \<or> a = n_path d \<and> pre = []"
    and pre: "n_path d @ pre = a"
    and w: "n_nType (data w) = NParam" "wf_node w" "live w" "cap_ok w" "wdepth w \<le> np"
      "set (routes w) = {(q, h)}" and q: "q \<noteq> [] \<and> hd q = colon"
  shows "loop_post d (pre @ q) h np (Node (d\<lparr>n_path := a, n_wildChild := True\<rparr>) [w])"
proof -
  let ?d = "d\<lparr>n_path := a, n_wildChild := True\<rparr>"
  have "own ?d = own d"
    using start by (auto simp: own_def split: option.splits)
  then have "set (routes (Node ?d [w])) = own d \<union> {(n_path d @ pre @ q, h)}"
    using w(6) pre by (simp add: set_routes flip: append_assoc)
  moreover have aq: "n_path d @ pre @ q = a @ q" by (simp flip: pre)
  have "child_ok (hd (n_path d @ pre @ q)) (Node ?d [w])"
    if "n_nType d = NStatic" "\<not> is_wild (hd (n_path d @ pre @ q))"
    using that q unfolding aq by (cases a) (auto simp: child_ok_def)
  moreover have "wf_node (Node ?d [w])"
    using d w by (auto simp: wf_node_iff wf_static_def)
  ultimately show ?thesis using w(3-5) d(1) by (simp add: loop_post_def)
qed

text \<open>A catch-all.\<close>

lemma loop_catchAll:
  assumes d: "is_static d" "n_indices d = []" "\<not> n_wildChild d" "n_path d = []" "n_handle d = None"
    and a: "static_str a" and name: "valid_name name" and np: "1 \<le> np"
  shows "loop_post d (a @ slash # star # name) h np
    (Node (d\<lparr>n_path := a, n_indices := ''/''\<rparr>) [catchAllChild (slash # star # name) (Some h)])"
proof -
  let ?c = "catchAllChild (slash # star # name) (Some h)"
  have c: "wf_node ?c" "live ?c" "cap_ok ?c" "wdepth ?c \<le> np"
    "set (routes ?c) = {(slash # star # name, h)}" "child_ok slash ?c"
    using name np by (auto simp: catchAllChild_def wf_node_iff wf_catchAll_def is_wild_node_def
        set_routes own_def child_ok_def)
  have "wf_node (Node (d\<lparr>n_path := a, n_indices := ''/''\<rparr>) [?c])"
    using d(1,3) a c(1,6) by (simp add: wf_node_iff wf_static_def)
  moreover have "child_ok (hd (a @ slash # star # name)) (Node (d\<lparr>n_path := a, n_indices := ''/''\<rparr>) [?c])"
    if "n_nType d = NStatic"
    using that d by (cases a) (auto simp: child_ok_def)
  ultimately show ?thesis
    using c d by (simp add: loop_post_def set_routes own_def)
qed


lemma substr_drop: "a \<le> i \<Longrightarrow> i \<le> length p \<Longrightarrow> drop a p = substr p a i @ drop i p"
  by (simp add: substr_append_drop)

text \<open>The catch-all branch of the loop.\<close>

lemma insertCatchAll_decides:
  assumes d: "is_static d" "n_indices d = []" "\<not> n_wildChild d"
    and i: "offset \<le> i" "i < length path" "path ! i = star"
    and s: "static_str (substr path offset i)"
    and start: "n_path d = [] \<and> n_handle d = None \<or> i = 0"
    and name: "static_str (segment (drop (Suc i) path))" "segment (drop (Suc i) path) \<noteq> []"
    and np: "unat np = count_wild (drop i path)"
  shows "loop_decides (insertCatchAll d [] offset i (Suc i + length (segment (drop (Suc i) path))) np path fp (Some h))
    d (drop offset path) h (unat np)"
proof -
  let ?s = "substr path offset i" and ?name = "drop (Suc i) path"
  let ?e = "Suc i + length (segment ?name)"
  have rest: "drop offset path = ?s @ star # ?name"
    using i substr_drop [of offset i path] by (simp add: Cons_nth_drop_Suc [symmetric])
  have valid: "valid_pat (drop offset path) \<longleftrightarrow> ?s \<noteq> [] \<and> last ?s = slash \<and> valid_name ?name"
    unfolding rest by (rule valid_pat_star_static [OF s])
  have cnt: "unat np = Suc (count_wild ?name)" using np i by (simp add: count_wild_drop_nth)
  have seg: "?e = length path \<longleftrightarrow> segment ?name = ?name"
  proof
    assume "?e = length path"
    then have "length (segment ?name @ after_segment ?name) = length (segment ?name)"
      using i(2) by (simp only: segment_append) simp
    then have "after_segment ?name = []" by simp
    then show "segment ?name = ?name" using segment_append [of ?name] by simp
  qed (use i(2) in \<open>simp add: arg_cong [of "segment ?name" ?name length]\<close>)
  have cnt1: "\<not> 1 < np" if "static_str ?name"
    using that cnt by (simp add: word_less_nat_alt)
  show ?thesis
  proof (cases "?s \<noteq> [] \<and> last ?s = slash \<and> valid_name ?name")
    case False
    have "path ! (i - 1) \<noteq> slash \<or> i = 0 \<or> offset > i - 1" if "segment ?name = ?name"
    proof (rule ccontr)
      assume *: "\<not> ?thesis"
      then have "?s = substr path offset (i - 1) @ [slash]"
        using substr_Suc [of offset "i - 1" path] i(2) by simp
      moreover have "valid_name ?name"
        using name that segment_no_slash [of ?name] by (simp add: valid_name_def)
      ultimately show False using False by simp
    qed
    then have "\<exists>e t. insertCatchAll d [] offset i ?e np path fp (Some h) = Panic e t"
      using seg unfolding insertCatchAll_def by auto
    moreover have "\<not> valid_pat (drop offset path)" using False valid by blast
    ultimately show ?thesis by (simp add: loop_decides_def)
  next
    case True
    then have off: "offset \<le> i - 1" "i \<noteq> 0" "n_path d = []" "n_handle d = None"
      using start i(1) by (cases "offset = i"; simp; fail | force)+
    then have sl: "?s = substr path offset (i - 1) @ [path ! (i - 1)]"
      using substr_Suc [of offset "i - 1" path] i(2) by simp
    with True have sl: "?s = substr path offset (i - 1) @ [slash]" "path ! (i - 1) = slash" by simp_all
    have dr: "drop (i - 1) path = slash # star # ?name"
      using sl(2) i(2,3) off(2) by (metis Cons_nth_drop_Suc Suc_pred' gr0I less_imp_diff_less)
    have "segment ?name = ?name"
      using True segment_unique [of ?name "[]"] by (simp add: valid_name_def)
    then have "insertCatchAll d [] offset i ?e np path fp (Some h) =
        Done (Node (d\<lparr>n_path := substr path offset (i - 1), n_indices := ''/''\<rparr>)
          [catchAllChild (slash # star # ?name) (Some h)])"
      using off sl(2) dr cnt1 True seg i(1) by (simp add: insertCatchAll_def valid_name_def)
    moreover have "loop_post d (substr path offset (i - 1) @ slash # star # ?name) h (unat np)
        (Node (d\<lparr>n_path := substr path offset (i - 1), n_indices := ''/''\<rparr>)
          [catchAllChild (slash # star # ?name) (Some h)])"
      using s sl(1) True cnt by (intro loop_catchAll d off) auto
    ultimately show ?thesis
      using True valid rest sl(1) by (simp add: loop_decides_def)
  qed
qed

text \<open>The parameter node the loop makes, with nothing or one subtree under it.\<close>

definition param_post :: "'h node \<Rightarrow> string \<Rightarrow> 'h \<Rightarrow> nat \<Rightarrow> bool" where
  "param_post w q h np \<longleftrightarrow> n_nType (data w) = NParam \<and> wf_node w \<and> live w \<and> cap_ok w \<and>
     wdepth w \<le> np \<and> set (routes w) = {(q, h)} \<and> q \<noteq> [] \<and> hd q = colon"

lemma param_post_leaf:
  assumes "valid_name name" "1 \<le> unat np"
  shows "param_post (Node (zero_data\<lparr>n_nType := NParam, n_maxParams := np, n_priority := 1,
    n_path := colon # name, n_handle := Some h\<rparr>) []) (colon # name) h (unat np)"
  using assms by (simp add: param_post_def wf_node_iff wf_param_def set_routes own_def is_wild_node_def)

lemma param_post_inner:
  assumes "valid_name name" "np \<noteq> 0" "is_static d" "n_path d = []" "n_handle d = None"
    "n_nType d = NStatic" "loop_post d rest h (unat np - 1) c" "rest \<noteq> []" "hd rest = slash"
  shows "param_post (Node (zero_data\<lparr>n_nType := NParam, n_maxParams := np, n_priority := 1,
    n_path := colon # name\<rparr>) [c]) (colon # name @ rest) h (unat np)"
proof -
  have "1 \<le> unat np" using assms(2) by (simp add: unat_eq_0 Suc_le_eq gr0_conv_Suc [symmetric] unat_gt_0)
  then show ?thesis using assms
    by (auto simp add: param_post_def loop_post_def wf_node_iff wf_param_def set_routes own_def is_wild_node_def)
qed

lemma loop_param_post:
  assumes d: "is_static d" "n_indices d = []" "static_str a"
    and start: "n_path d = [] \<and> n_handle d = None \<or> a = n_path d \<and> pre = []"
    and pre: "n_path d @ pre = a" and w: "param_post w q h np"
  shows "loop_post d (pre @ q) h np (Node (d\<lparr>n_path := a, n_wildChild := True\<rparr>) [w])"
  using w by (intro loop_param [OF d start pre]) (auto simp: param_post_def)

text \<open>The branch of a parameter.\<close>

lemma loop_colon_decides:
  fixes d :: "'h node_data"
  assumes d: "is_static d" "n_indices d = []" "\<not> n_wildChild d"
    and i: "offset \<le> i" "i < length path" "path ! i = colon"
    and s: "static_str (substr path offset i)"
    and start: "n_path d = [] \<and> n_handle d = None \<or> i = 0 \<and> offset = 0 \<and> static_str (n_path d)"
    and np: "unat np = count_wild (drop i path)" and fold: "name = drop (Suc i) path"
    and seg: "static_str (segment name)" "segment name \<noteq> []"
    and IH: "\<And>(d' :: 'h node_data) np'. after_segment name \<noteq> [] \<Longrightarrow> is_static d' \<Longrightarrow> n_indices d' = [] \<Longrightarrow> \<not> n_wildChild d' \<Longrightarrow>
      n_path d' = [] \<Longrightarrow> n_handle d' = None \<Longrightarrow> unat np' = count_wild (after_segment name) \<Longrightarrow>
      loop_decides (insertLoop d' [] (Suc i + length (segment name)) (Suc i + length (segment name)) np' path fp (Some h))
        d' (after_segment name) h (unat np')"
  shows "loop_decides (insertLoop d [] offset i np path fp (Some h)) d (drop offset path) h (unat np)"
proof -
  let ?s = "substr path offset i" and ?e = "Suc i + length (segment name)"
  let ?child = "zero_data\<lparr>n_nType := NParam, n_maxParams := np, n_priority := 1\<rparr> :: 'h node_data"
  let ?d' = "zero_data\<lparr>n_maxParams := np - 1, n_priority := 1\<rparr> :: 'h node_data"
  let ?a = "if i > 0 then ?s else n_path d"
  have cons: "drop i path = colon # name" using i(2,3) fold by (simp flip: Cons_nth_drop_Suc)
  have rest: "drop offset path = ?s @ colon # name" using i cons substr_drop [of offset i path] by simp
  have vname: "valid_name (segment name)" using seg segment_no_slash by (simp add: valid_name_def)
  have valid: "valid_pat (drop offset path) \<longleftrightarrow> valid_pat (after_segment name)"
    unfolding rest using vname by (simp add: valid_pat_static [OF s] no_star_def)
  have split: "segment name @ after_segment name = name" by (rule segment_append)
  have cnt: "unat np = Suc (count_wild (after_segment name))"
    using np cons split seg(1) by (metis add_0 count_wild_simps(2,3) count_wild_static is_wild_simps(1))
  then have np0: "np \<noteq> 0" by auto
  then have cnt': "unat (np - 1) = count_wild (after_segment name)" using cnt by (simp add: unat_minus_one_word)
  have len: "length path = ?e + length (after_segment name)"
    using i(2) arg_cong [OF split, of length] fold by simp
  have we: "wildcardEnd path (i + 1) = Some ?e"
    using wildcardEnd_segment [of "Suc i" path] i(2) seg(1) fold by simp
  have sub: "substr path i ?e = colon # segment name" "substr path (Suc i) ?e = segment name"
    "drop ?e path = after_segment name"
  proof -
    have "drop ?e path = drop (length (segment name)) name" using fold by (simp add: add.commute)
    also have "\<dots> = after_segment name" by (metis append_eq_conv_conj split)
    finally show "drop ?e path = after_segment name" .
    show "substr path (Suc i) ?e = segment name"
      using fold by (simp add: substr_def) (metis append_eq_conv_conj split)
    show "substr path i ?e = colon # segment name"
      using fold cons by (simp add: substr_def) (metis append_eq_conv_conj split)
  qed
  let ?inner = "if ?e < length path then map_outcome (\<lambda>c. Node (?child\<lparr>n_path := colon # segment name\<rparr>) [c])
      (insertLoop ?d' [] ?e (i + 1) (np - 1) path fp (Some h))
    else insertLoop ?child [] i (i + 1) (np - 1) path fp (Some h)"
  have unfolded: "insertLoop d [] offset i np path fp (Some h) =
      map_outcome (\<lambda>c. Node (d\<lparr>n_path := ?a, n_wildChild := True\<rparr>) [c]) ?inner"
  proof -
    have "i = 0 \<Longrightarrow> offset = 0" using i(1) by simp
    then show ?thesis
      using we i(2,3) np0 seg(2) i(1) sub(1)
      by (cases "i = 0"; subst insertLoop.simps) (simp_all add: Let_def)
  qed
  have pre: "n_path d @ (if i > 0 then ?s else []) = ?a" "static_str ?a"
    "n_path d = [] \<and> n_handle d = None \<or> ?a = n_path d \<and> (if i > 0 then ?s else []) = []"
    "(if i > 0 then ?s else []) @ drop i path = drop offset path"
    using start s rest cons i(1) by auto
  have done_: "\<exists>t. insertLoop d [] offset i np path fp (Some h) = Done t \<and> loop_post d (drop offset path) h (unat np) t"
    if "?inner = Done w" "param_post w (drop i path) h (unat np)" for w
    using loop_param_post [OF d(1,2) pre(2,3,1) that(2)] that(1) unfolded pre(4) by simp
  show ?thesis
  proof (cases "after_segment name = []")
    case True
    then have "?inner = Done (Node (?child\<lparr>n_path := colon # segment name, n_handle := Some h\<rparr>) [])"
      using len cnt cnt' cons split
      by (subst insertLoop.simps) (simp add: unat_eq_0 flip: unat_0_iff)
    moreover have "param_post (Node (?child\<lparr>n_path := colon # segment name, n_handle := Some h\<rparr>) [])
        (drop i path) h (unat np)"
      using param_post_leaf [OF vname, of np h] cnt cons split True by simp
    ultimately show ?thesis using done_ valid True by (auto simp: loop_decides_def)
  next
    case False
    have "insertLoop ?d' [] ?e (i + 1) (np - 1) path fp (Some h) = insertLoop ?d' [] ?e ?e (np - 1) path fp (Some h)"
      using len sub(2) seg(1) by (intro insertLoop_skip) simp_all
    moreover have ih: "loop_decides (insertLoop ?d' [] ?e ?e (np - 1) path fp (Some h)) ?d' (after_segment name) h (unat (np - 1))"
      using False cnt' by (intro IH) (simp_all add: is_static_def)
    moreover have e: "?e < length path" using len False by simp
    ultimately have inner: "?inner = map_outcome (\<lambda>c. Node (?child\<lparr>n_path := colon # segment name\<rparr>) [c])
        (insertLoop ?d' [] ?e ?e (np - 1) path fp (Some h))" by simp
    show ?thesis
    proof (cases "valid_pat (after_segment name)")
      case True
      with ih obtain c where c: "insertLoop ?d' [] ?e ?e (np - 1) path fp (Some h) = Done c"
        "loop_post ?d' (after_segment name) h (unat (np - 1)) c" by (auto simp: loop_decides_def)
      have "param_post (Node (?child\<lparr>n_path := colon # segment name\<rparr>) [c]) (drop i path) h (unat np)"
        using param_post_inner [OF vname np0, of ?d' "after_segment name" h c] c(2) False
          after_segment_cases [of name] cons split np0
        by (simp add: is_static_def unat_minus_one_word)
      then show ?thesis using done_ inner c(1) valid True by (auto simp: loop_decides_def)
    next
      case no: False
      with ih obtain e t where "insertLoop ?d' [] ?e ?e (np - 1) path fp (Some h) = Panic e t"
        by (auto simp: loop_decides_def)
      then show ?thesis using inner unfolded valid no by (simp add: loop_decides_def)
    qed
  qed
qed


theorem insertLoop_decides:
  fixes d :: "'h node_data"
  assumes d: "is_static d" "n_indices d = []" "\<not> n_wildChild d"
    and i: "offset \<le> i" "i \<le> length path"
    and s: "static_str (substr path offset i)"
    and start: "n_path d = [] \<and> n_handle d = None \<or>
      i = 0 \<and> offset = 0 \<and> static_str (n_path d) \<and> path \<noteq> [] \<and> is_wild (hd path)"
    and np: "unat np = count_wild (drop i path)"
  shows "loop_decides (insertLoop d [] offset i np path fp (Some h)) d (drop offset path) h (unat np)"
  using assms
proof (induction "length path - i" arbitrary: d offset i np rule: less_induct)
  case less
  note d = less.prems(1-3) and i = less.prems(4,5) and s = less.prems(6)
    and start = less.prems(7) and np = less.prems(8)
  let ?s = "substr path offset i" and ?name = "drop (Suc i) path"
  have rest: "drop offset path = ?s @ drop i path" using i by (rule substr_drop)
  show ?case
  proof (cases "np = 0")
    case True
    then have "static_str (drop i path)" using np by (simp flip: count_wild_0)
    moreover from this have "n_path d = [] \<and> n_handle d = None"
      using start by (auto simp: neq_Nil_conv)
    ultimately have "loop_post d (drop offset path) h 0
        (Node (d\<lparr>n_path := drop offset path, n_handle := Some h\<rparr>) [])" "static_str (drop offset path)"
      using d s rest by (auto intro!: loop_static)
    moreover from this(2) have "valid_pat (drop offset path)"
      using valid_pat_static [of "drop offset path" "[]"] by (simp add: no_star_def)
    ultimately show ?thesis using True by (simp add: loop_decides_def insertLoop.simps)
  next
    case np0: False
    then have "unat np \<noteq> 0" by (simp add: unat_eq_0)
    with np i(2) have lt: "i < length path" by (cases "i = length path") auto
    then have cons: "drop i path = path ! i # ?name" by (simp add: Cons_nth_drop_Suc)
    show ?thesis
    proof (cases "is_wild (path ! i)")
      case False
      then have st: "n_path d = [] \<and> n_handle d = None"
        using start lt by (auto simp: hd_conv_nth)
      have "insertLoop d [] offset i np path fp (Some h) = insertLoop d [] offset (i + 1) np path fp (Some h)"
        using np0 lt False by (subst insertLoop.simps) simp
      moreover have "static_str (substr path offset (i + 1))"
        using substr_Suc [OF i(1) lt] s False by simp
      ultimately show ?thesis
        using less.hyps [OF _ d _ _ _ _ , of "i + 1" offset np] lt i st np False cons by simp
    next
      case True
      then consider (colon) "path ! i = colon" | (star) "path ! i = star" by (auto simp: is_wild_def)
      note wild = this
      have seg_valid: "segment ?name \<noteq> []" "static_str (segment ?name)" if "valid_pat (drop offset path)"
      proof -
        from wild have "valid_name (segment ?name)"
        proof cases
          case colon
          with that show ?thesis by (simp add: rest cons valid_pat_static [OF s] no_star_def)
        next
          case star
          with that have "valid_name ?name" by (simp add: rest cons valid_pat_star_static [OF s])
          then show ?thesis using segment_unique [of ?name "[]"] by (simp add: valid_name_def)
        qed
        then show "segment ?name \<noteq> []" "static_str (segment ?name)" by (simp_all add: valid_name_def)
      qed
      have we: "wildcardEnd path (i + 1) =
          (if static_str (segment ?name) then Some (Suc i + length (segment ?name)) else None)"
        using wildcardEnd_segment [of "Suc i" path] lt by simp
      show ?thesis
      proof (cases "static_str (segment ?name) \<and> segment ?name \<noteq> []")
        case False
        then have "\<not> valid_pat (drop offset path)" using seg_valid by blast
        moreover have "\<exists>e t. insertLoop d [] offset i np path fp (Some h) = Panic e t"
          using np0 lt True we False by (subst insertLoop.simps) auto
        ultimately show ?thesis by (simp add: loop_decides_def)
      next
        case seg: True
        from wild show ?thesis
        proof cases
          case colon
          show ?thesis
          proof (rule loop_colon_decides [OF d i(1) lt colon s _ np refl])
            fix d' :: "'h node_data" and np' :: "8 word"
            let ?e = "Suc i + length (segment ?name)"
            assume d': "is_static d'" "n_indices d' = []" "\<not> n_wildChild d'" "n_path d' = []"
              "n_handle d' = None" and np': "unat np' = count_wild (after_segment ?name)"
            have sp: "segment ?name @ after_segment ?name = ?name" by (rule segment_append)
            have "length (segment ?name) + length (after_segment ?name) = length path - Suc i"
              using arg_cong [OF sp, of length] by simp
            then have len: "?e \<le> length path" using lt by simp
            have dr: "drop ?e path = after_segment ?name"
              by (metis sp append_eq_conv_conj drop_drop add.commute)
            show "loop_decides (insertLoop d' [] ?e ?e np' path fp (Some h)) d' (after_segment ?name) h (unat np')"
              using less.hyps [of ?e d' ?e np'] d' np' len lt dr by simp
          qed (use start seg in auto)
        next
          case star
          have "insertLoop d [] offset i np path fp (Some h) =
            insertCatchAll d [] offset i (Suc i + length (segment ?name)) np path fp (Some h)"
            using np0 lt star we seg by (subst insertLoop.simps) simp
          moreover have "loop_decides (insertCatchAll d [] offset i (Suc i + length (segment ?name)) np path fp (Some h))
              d (drop offset path) h (unat np)"
            using start seg by (intro insertCatchAll_decides d i(1) lt star s np) auto
          ultimately show ?thesis by simp
        qed
      qed
    qed
  qed
qed


end
