(* ===== verification/Router_Walk.thy ===== *)
theory Router_Walk
  imports Router_Insert
begin

text \<open>
  The walk of \<open>addRoute\<close>: a route is accepted exactly when its pattern is valid and fits the
  routes of the tree, and then the tree is well-formed, has room for every parameter and
  holds one route more.
\<close>

section \<open>Changes that keep the routes\<close>

text \<open>The same routes, invariants and place under an index byte.\<close>

definition alike :: "'h node \<Rightarrow> 'h node \<Rightarrow> bool" where
  "alike m n \<longleftrightarrow> wf_node m = wf_node n \<and> live m = live n \<and> (cap_ok n \<longrightarrow> cap_ok m) \<and>
     wdepth m = wdepth n \<and> set (routes m) = set (routes n) \<and> n_nType (data m) = n_nType (data n) \<and>
     (\<forall>i. child_ok i m = child_ok i n)"

lemma decides_alike: "alike m n \<Longrightarrow> decides r m p h = decides r n p h"
  by (simp add: decides_def inserted_def alike_def)

lemma alike_trans: "alike l m \<Longrightarrow> alike m n \<Longrightarrow> alike l n"
  by (simp add: alike_def)

lemma alike_refl [simp]: "alike n n"
  by (simp add: alike_def)

lemma is_wild_node_update [simp]:
  "is_wild_node (d\<lparr>n_path := a\<rparr>) = is_wild_node d" "is_wild_node (d\<lparr>n_handle := x\<rparr>) = is_wild_node d"
  "is_wild_node (d\<lparr>n_indices := i\<rparr>) = is_wild_node d"
  "is_wild_node (d\<lparr>n_maxParams := m\<rparr>) = is_wild_node d" "is_wild_node (d\<lparr>n_priority := q\<rparr>) = is_wild_node d"
  by (simp_all add: is_wild_node_def)

lemma wf_fields_update [simp]:
  "wf_param (d\<lparr>n_maxParams := m\<rparr>) cs = wf_param d cs" "wf_param (d\<lparr>n_priority := q\<rparr>) cs = wf_param d cs"
  "wf_static (d\<lparr>n_maxParams := m\<rparr>) cs = wf_static d cs" "wf_static (d\<lparr>n_priority := q\<rparr>) cs = wf_static d cs"
  "wf_catchAll (d\<lparr>n_maxParams := m\<rparr>) cs = wf_catchAll d cs"
  "wf_catchAll (d\<lparr>n_priority := q\<rparr>) cs = wf_catchAll d cs"
  by (simp_all add: wf_param_def wf_static_def wf_catchAll_def)

lemma own_update [simp]:
  "own (d\<lparr>n_maxParams := m\<rparr>) = own d" "own (d\<lparr>n_priority := q\<rparr>) = own d"
  "own (d\<lparr>n_indices := i\<rparr>) = own d" "own (d\<lparr>n_wildChild := b\<rparr>) = own d"
  by (auto simp: own_def split: option.split)

lemma wf_node_update [simp]:
  "wf_node (Node (d\<lparr>n_priority := q\<rparr>) cs) = wf_node (Node d cs)"
  "wf_node (Node (d\<lparr>n_maxParams := m\<rparr>) cs) = wf_node (Node d cs)"
  by (auto simp: wf_node.simps split: nodeType.split)

lemma alike_priority: "alike (Node (d\<lparr>n_priority := q\<rparr>) cs) (Node d cs)"
  by (simp add: alike_def set_routes child_ok_def)

lemma alike_maxParams: "m \<ge> n_maxParams d \<Longrightarrow> alike (Node (d\<lparr>n_maxParams := m\<rparr>) cs) (Node d cs)"
  by (auto simp: alike_def set_routes child_ok_def word_le_nat_alt)

lemma alike_incPriority: "alike (incPriority n) n"
  using alike_priority [of _ "data n" "children n"] by (simp add: incPriority_def)

lemma alike_raise: "alike (Node (raiseMaxParams np d) cs) (Node d cs)"
  using alike_maxParams [of d np cs] by (simp add: raiseMaxParams_def)

lemma alike_enterWild: "alike (enterWild np n) n"
  unfolding enterWild_def
  by (rule alike_trans [OF alike_raise]) (use alike_incPriority [of n] in \<open>simp add: incPriority_def\<close>)

lemma list_all2_zip: "list_all2 P xs ys \<longleftrightarrow> length xs = length ys \<and> (\<forall>(x, y) \<in> set (zip xs ys). P x y)"
  by (auto simp: list_all2_iff)

lemma foldr_max_cong: "set xs = set ys \<Longrightarrow> foldr max xs (0::nat) = foldr max ys 0"
  by (metis foldr_max_le order_antisym order_refl)

text \<open>Replacing the children by alike ones.\<close>

lemma alike_children:
  assumes "list_all2 alike cs' cs"
  shows "wdepth (Node d cs') = wdepth (Node d cs)" "live (Node d cs') = live (Node d cs)"
    "cap_ok (Node d cs) \<longrightarrow> cap_ok (Node d cs')" "below cs' = below cs"
    "list_all wf_node cs' = list_all wf_node cs"
    "list_all2 child_ok is cs' = list_all2 child_ok is cs"
proof -
  have m: "map wdepth cs' = map wdepth cs" using assms
    by (induction rule: list_all2_induct) (simp_all add: alike_def)
  show "wdepth (Node d cs') = wdepth (Node d cs)" using m by simp
  have c: "list_all cap_ok cs \<Longrightarrow> list_all cap_ok cs'" using assms
    by (induction rule: list_all2_induct) (simp_all add: alike_def)
  show "cap_ok (Node d cs) \<longrightarrow> cap_ok (Node d cs')" using m c by auto
  have "list_all live cs' = list_all live cs" using assms
    by (induction rule: list_all2_induct) (simp_all add: alike_def)
  moreover have "cs' = [] \<longleftrightarrow> cs = []" using assms by auto
  ultimately show "live (Node d cs') = live (Node d cs)" by simp
  show "below cs' = below cs" using assms
    by (induction rule: list_all2_induct) (simp_all add: alike_def)
  show "list_all wf_node cs' = list_all wf_node cs" using assms
    by (induction rule: list_all2_induct) (simp_all add: alike_def)
  show "list_all2 child_ok is cs' = list_all2 child_ok is cs" using assms
    by (induction arbitrary: "is" rule: list_all2_induct) (auto simp: alike_def list_all2_Cons2)
qed

text \<open>Moving a child together with its index byte.\<close>

lemma alike_move:
  assumes d: "is_static d" "\<not> n_wildChild d" "length (n_indices d) = length cs" and q: "q \<le> pos" "pos < length cs"
  shows "alike (Node (d\<lparr>n_indices := move_elem pos q (n_indices d)\<rparr>) (move_elem pos q cs)) (Node d cs)"
proof -
  have s: "set (move_elem pos q cs) = set cs" using q by (rule set_move_elem)
  then have "set (map wdepth (move_elem pos q cs)) = set (map wdepth cs)" by simp
  then have "foldr max (map wdepth (move_elem pos q cs)) 0 = foldr max (map wdepth cs) 0" by (rule foldr_max_cong)
  moreover have e: "move_elem pos q cs = [] \<longleftrightarrow> cs = []" using s by (metis set_empty)
  moreover have "set (zip (move_elem pos q (n_indices d)) (move_elem pos q cs)) = set (zip (n_indices d) cs)"
    using q d(3) by (simp add: zip_move_elem set_move_elem)
  then have "list_all2 child_ok (move_elem pos q (n_indices d)) (move_elem pos q cs) \<longleftrightarrow>
      list_all2 child_ok (n_indices d) cs"
    using q d(3) by (simp add: list_all2_zip)
  moreover have "move_elem pos q ''/'' = ''/''" if "n_indices d = ''/''"
    using q d(3) that by (cases pos) auto
  moreover have "n_indices d = ''/''" if "move_elem pos q (n_indices d) = ''/''"
    using that q d(3) length_move_elem [of q pos "n_indices d"] set_move_elem [of q pos "n_indices d"]
    by (cases "n_indices d") (auto simp flip: length_0_conv)
  ultimately show ?thesis using d q distinct_move_elem [of q pos "n_indices d"]
    by (auto simp add: alike_def wf_node_iff wf_static_def set_routes below_def s list_all_iff child_ok_def)
qed

lemma move_elem_update:
  assumes "q \<le> pos" "pos < length xs"
  shows "(move_elem pos q xs)[q := t] = move_elem pos q (xs[pos := t])"
  using assms by (simp add: move_elem_def substr_def list_update_append take_update_swap drop_update_swap
      list_update_beyond)

section \<open>Fitting a part of the tree\<close>

lemma own_iff: "(q, h) \<in> own d \<longleftrightarrow> n_handle d = Some h \<and> q = n_path d"
  by (auto simp: own_def split: option.splits)

lemma routes_iff: "(q, h) \<in> set (routes (Node d cs)) \<longleftrightarrow>
    n_handle d = Some h \<and> q = n_path d \<or> (\<exists>r. q = n_path d @ r \<and> (r, h) \<in> below cs)"
  by (auto simp: set_routes own_iff under_iff)

lemma fits_iff: "fits p R \<longleftrightarrow> valid_pat p \<and> (\<forall>q h. (q, h) \<in> R \<longrightarrow> q \<noteq> p \<and> compatible p q)"
  by (auto simp: fits_def)

lemma fits_static:
  assumes "wf_node (Node d cs)" "is_static d" "no_star rest"
  shows "fits (n_path d @ rest) (set (routes (Node d cs))) \<longleftrightarrow>
    (if rest = [] then n_handle d = None else fits rest (below cs))"
proof -
  have st: "static_str (n_path d)" using assms by (simp add: wf_node_iff wf_static_def)
  have b: "q \<noteq> [] \<and> no_star q" if "(q, h) \<in> below cs" for q h
    by (rule below_static [OF assms(1,2) that])
  have v: "valid_pat (n_path d @ rest) = valid_pat rest" by (rule valid_pat_static [OF st assms(3)])
  have c: "compatible (n_path d @ rest) (n_path d @ q) = compatible rest q" if "no_star q" for q
    by (rule compatible_static [OF st assms(3) that])
  from c [of "[]"] have c0: "compatible (n_path d @ rest) (n_path d)" by (simp add: no_star_def)
  show ?thesis
  proof (cases "rest = []")
    case True
    then have n: "valid_pat (n_path d)" "(r, h) \<in> below cs \<Longrightarrow> r \<noteq> [] \<and> compatible (n_path d) (n_path d @ r)" for r h
      using v c [of r] b [of r h] by simp_all
    show ?thesis unfolding fits_iff routes_iff
      using True n by (cases "n_handle d"; simp; blast)
  next
    case False
    have "fits (n_path d @ rest) (set (routes (Node d cs))) \<longleftrightarrow>
        valid_pat rest \<and> (\<forall>q h. (q, h) \<in> below cs \<longrightarrow> q \<noteq> rest \<and> compatible (n_path d @ rest) (n_path d @ q))"
      unfolding fits_iff routes_iff using False v c0 by auto
    also have "\<dots> \<longleftrightarrow> fits rest (below cs)" unfolding fits_iff using b c by blast
    finally show ?thesis using False by simp
  qed
qed

lemma compatible_star:
  assumes "static_str a" "a \<noteq> []" "last a = slash" "q \<noteq> star # r"
  shows "\<not> compatible (a @ star # r) (a @ q)"
  using assms
proof (induction a)
  case (Cons c a)
  show ?case
  proof (cases a)
    case Nil
    with Cons.prems show ?thesis by auto
  next
    case (Cons x a')
    with Cons.IH Cons.prems have "\<not> compatible (a @ star # r) (a @ q)" by simp
    with Cons Cons.prems show ?thesis by (auto simp: is_wild_def)
  qed
qed simp

lemma fits_star:
  assumes "wf_node (Node d cs)" "is_static d" "live (Node d cs)"
  shows "\<not> fits (n_path d @ star # r) (set (routes (Node d cs)))"
proof
  let ?a = "n_path d"
  assume f: "fits (?a @ star # r) (set (routes (Node d cs)))"
  have st: "static_str ?a" using assms by (simp add: wf_node_iff wf_static_def)
  then have a: "?a \<noteq> []" "last ?a = slash"
    using f valid_pat_star_static by (auto simp: fits_def)
  from live_routes [OF assms(3)] obtain q h where q: "(q, h) \<in> set (routes (Node d cs))" by blast
  then obtain q' where q': "q = ?a @ q'" "q' \<noteq> star # r"
    using below_static [OF assms(1,2)] by (fastforce simp: routes_iff no_star_def)
  with fitsD [OF f q] compatible_star [OF st a q'(2)] show False by simp
qed

lemma compatible_heads:
  assumes "p \<noteq> []" "q \<noteq> []" "hd p \<noteq> colon" "hd q \<noteq> colon" "hd p \<noteq> hd q"
  shows "compatible p q"
  using assms by (cases p; cases q) auto

lemma incompatible_colon:
  assumes "p \<noteq> []" "q \<noteq> []" "hd p = colon" "hd q \<noteq> colon"
  shows "\<not> compatible p q" "\<not> compatible q p"
  using assms by (cases p; cases q; auto)+

text \<open>Only the child under the first byte of a pattern matters.\<close>

lemma fits_index:
  assumes "wf_node (Node d cs)" "is_static d" "\<not> n_wildChild d" "p \<noteq> []" "\<not> is_wild (hd p)"
  shows "fits p (below cs) \<longleftrightarrow>
    (case find_index (hd p) (n_indices d) of
       None \<Rightarrow> valid_pat p
     | Some k \<Rightarrow> fits p (set (routes (cs ! k))))"
proof -
  have w: "distinct (n_indices d)" "list_all2 child_ok (n_indices d) cs" "list_all wf_node cs"
    using assms by (auto simp: wf_node_iff wf_static_def)
  then have len: "length (n_indices d) = length cs" by (simp add: list_all2_lengthD)
  have start: "q \<noteq> [] \<and> hd q = n_indices d ! k \<and> \<not> is_wild (hd q)"
    if "k < length cs" "(q, h) \<in> set (routes (cs ! k))" for k q h
    using routes_start [of "cs ! k" "n_indices d ! k" q h] that w
    by (auto simp: list_all2_conv_all_nth list_all_length)
  have other: "q \<noteq> p \<and> compatible p q"
    if "k < length cs" "(q, h) \<in> set (routes (cs ! k))" "n_indices d ! k \<noteq> hd p" for k q h
    using start [OF that(1,2)] that(3) assms(4,5) compatible_heads [of p q] by (auto simp: is_wild_def)
  have b: "(q, h) \<in> below cs \<longleftrightarrow> (\<exists>k < length cs. (q, h) \<in> set (routes (cs ! k)))" for q h
    unfolding below_def by (simp add: set_conv_nth [of cs]) blast
  show ?thesis
  proof (cases "find_index (hd p) (n_indices d)")
    case None
    then have "n_indices d ! k \<noteq> hd p" if "k < length cs" for k
      using that len by (metis find_index_None nth_mem)
    with other b None show ?thesis by (simp add: fits_iff) blast
  next
    case (Some k)
    then have k: "k < length cs" "n_indices d ! k = hd p" using find_index_Some len by fastforce+
    have "n_indices d ! l \<noteq> hd p" if "l < length cs" "l \<noteq> k" for l
      using that k len w(1) by (metis nth_eq_iff_index_eq)
    then have "(\<forall>q h. (q, h) \<in> below cs \<longrightarrow> q \<noteq> p \<and> compatible p q) \<longleftrightarrow>
        (\<forall>q h. (q, h) \<in> set (routes (cs ! k)) \<longrightarrow> q \<noteq> p \<and> compatible p q)"
      using other b k(1) by metis
    with Some show ?thesis by (simp add: fits_iff)
  qed
qed

text \<open>A parameter child fits only patterns that go on with the same parameter.\<close>

lemma wildMatches_param:
  assumes "valid_name name"
  shows "wildMatches p (colon # name) \<longleftrightarrow>
    (\<exists>q. p = colon # name @ q \<and> (q = [] \<or> hd q = slash))"
proof
  assume w: "wildMatches p (colon # name)"
  then have "take (length (colon # name)) p = colon # name" by (simp only: wildMatches_def)
  then have "p = colon # name @ drop (length (colon # name)) p"
    using append_take_drop_id [of "length (colon # name)" p] by simp
  moreover have "drop (length (colon # name)) p = [] \<or> hd (drop (length (colon # name)) p) = slash"
  proof (cases "length p \<le> length (colon # name)")
    case False
    then have "p ! length (colon # name) = slash" using w unfolding wildMatches_def by blast
    moreover have "hd (drop (length (colon # name)) p) = p ! length (colon # name)"
      using False by (intro hd_drop_conv_nth) (simp only: not_le)
    ultimately show ?thesis by (simp only: simp_thms)
  qed simp
  ultimately show "\<exists>q. p = colon # name @ q \<and> (q = [] \<or> hd q = slash)" by blast
next
  assume "\<exists>q. p = colon # name @ q \<and> (q = [] \<or> hd q = slash)"
  then obtain q where "p = (colon # name) @ q" "q = [] \<or> hd q = slash" by auto
  then show "wildMatches p (colon # name)" unfolding wildMatches_def by (cases q) (auto simp: nth_append)
qed

lemma fits_other_param:
  assumes "wf_node (Node d cs)" "n_nType d = NParam" "live (Node d cs)" "p \<noteq> []"
    "\<not> wildMatches p (n_path d)"
  shows "\<not> fits p (set (routes (Node d cs)))"
proof
  assume f: "fits p (set (routes (Node d cs)))"
  from wf_param_path [OF assms(1,2)] obtain name where name: "n_path d = colon # name" "valid_name name" .
  from live_routes [OF assms(3)] obtain q h where q: "(q, h) \<in> set (routes (Node d cs))" by blast
  from routes_param [OF assms(1,2) q] obtain r where r: "q = colon # name @ r" "r = [] \<or> hd r = slash"
    using name(1) by auto
  have sq: "segment (tl q) = name" using segment_unique [of name r] name(2) r by (simp add: valid_name_def)
  from fitsD [OF f q] have c: "compatible p q" by simp
  obtain a p' where p: "p = a # p'" using assms(4) by (cases p) auto
  have "a = colon" "segment p' = name" using c sq r(1) p by (auto split: if_splits)
  then have "wildMatches p (n_path d)"
    unfolding name(1) wildMatches_param [OF name(2)] using p segment_append [of p'] after_segment_cases [of p']
    by metis
  with assms(5) show False by simp
qed

lemma fits_param:
  assumes "wf_node (Node d cs)" "n_nType d = NParam" "q = [] \<or> hd q = slash"
  shows "fits (n_path d @ q) (set (routes (Node d cs))) \<longleftrightarrow>
    (if q = [] then n_handle d = None else fits q (below cs))"
proof -
  from wf_param_path [OF assms(1,2)] obtain name where name: "n_path d = colon # name" "valid_name name" .
  have seg: "segment (name @ r) = name" "after_segment (name @ r) = r" if "r = [] \<or> hd r = slash" for r
    using segment_unique [of name r] name(2) that by (simp_all add: valid_name_def)
  have v: "valid_pat (n_path d @ q) = valid_pat q" using name seg [OF assms(3)] by simp
  have c: "compatible (n_path d @ q) (n_path d @ r) = compatible q r" if "r = [] \<or> hd r = slash" for r
    using name(1) seg [OF assms(3)] seg [OF that] by simp
  have b: "r \<noteq> [] \<and> hd r = slash" if "(r, h) \<in> below cs" for r h
  proof -
    have w: "length cs \<le> 1" "list_all (child_ok slash) cs" "list_all wf_node cs"
      using assms(1,2) by (simp_all add: wf_node_iff wf_param_def)
    from that obtain c where "c \<in> set cs" "(r, h) \<in> set (routes c)" by (auto simp: below_def)
    with w routes_start [of c slash r h] show ?thesis by (auto simp: list_all_iff)
  qed
  show ?thesis
  proof (cases "q = []")
    case True
    then have n: "valid_pat (n_path d)" "(r, h) \<in> below cs \<Longrightarrow> r \<noteq> [] \<and> compatible (n_path d) (n_path d @ r)" for r h
      using v c [of r] b [of r h] by simp_all
    show ?thesis unfolding fits_iff routes_iff
      using True n by (cases "n_handle d"; simp; blast)
  next
    case False
    have "fits (n_path d @ q) (set (routes (Node d cs))) \<longleftrightarrow> valid_pat q \<and>
        (\<forall>r h. (r, h) \<in> below cs \<longrightarrow> r \<noteq> q \<and> compatible (n_path d @ q) (n_path d @ r))"
      unfolding fits_iff routes_iff using False v c [of "[]"] by auto
    also have "\<dots> \<longleftrightarrow> fits q (below cs)" unfolding fits_iff using b c by blast
    finally show ?thesis using False by simp
  qed
qed

text \<open>Where a catch-all stands, nothing that starts with its slash fits.\<close>

lemma fits_inner:
  assumes "wf_node (Node d cs)" "n_nType d = NCatchAll" "n_wildChild d" "p \<noteq> []" "hd p = slash"
  shows "\<not> fits p (set (routes (Node d cs)))"
proof -
  from wf_inner [OF assms(1-3)] obtain l name h where l: "cs = [Node l []]" "n_path d = []"
    "n_path l = slash # star # name" "n_handle l = Some h" by blast
  then have "(slash # star # name, h) \<in> set (routes (Node d cs))" by (simp add: routes_iff)
  moreover have "\<not> (slash # star # name \<noteq> p \<and> compatible p (slash # star # name))"
    using assms(4,5) by (cases p) auto
  ultimately show ?thesis using fitsD [of p _ "slash # star # name" h] by (simp only: not_def) blast
qed


section \<open>Adding a route below a node\<close>

lemma inserted_alike: "inserted n p h t \<Longrightarrow> alike t' t \<Longrightarrow> inserted n p h t'"
  by (simp add: inserted_def alike_def)

lemma below_update:
  assumes "k < length cs" "set (routes t) = insert x (set (routes (cs ! k)))"
  shows "below (cs[k := t]) = insert x (below cs)"
proof -
  have "below cs = below (take k cs) \<union> set (routes (cs ! k)) \<union> below (drop (Suc k) cs)"
    using below_simps(2,3) id_take_nth_drop [OF assms(1)] by (metis sup_assoc)
  moreover have "below (cs[k := t]) = below (take k cs) \<union> set (routes t) \<union> below (drop (Suc k) cs)"
    using assms(1) by (simp add: upd_conv_take_nth_drop Un_assoc)
  ultimately show ?thesis using assms(2) by simp
qed

lemma count_wild_path:
  assumes "wf_node (Node d cs)" "is_static d \<or> n_nType d = NParam"
  shows "count_wild (n_path d) = (if is_wild_node d then 1 else 0)"
proof -
  have "count_wild (n_path d) = 1" if "n_nType d = NParam"
    by (rule wf_param_path [OF assms(1) that]) (simp add: valid_name_def)
  moreover have "static_str (n_path d)" if "is_static d"
    using assms(1) that by (simp add: wf_node_iff wf_static_def)
  ultimately show ?thesis using assms(2) by (auto simp: is_wild_node_def is_static_def)
qed

lemma inserted_child:
  assumes n: "live (Node d cs)" "cap_ok (Node d cs)" "k < length cs"
    and t: "inserted (cs ! k) q h t" "wf_node (Node d (cs[k := t]))"
    and w: "count_wild (n_path d) = (if is_wild_node d then 1 else 0)"
      "is_wild_node d \<longrightarrow> count_wild (n_path d @ q) \<le> unat (n_maxParams d)"
  shows "inserted (Node d cs) (n_path d @ q) h (Node d (cs[k := t]))"
proof -
  note t' = t(1) [unfolded inserted_def]
  have m: "foldr max (map wdepth (cs[k := t])) 0 \<le> max (foldr max (map wdepth cs) 0) (count_wild q)"
    unfolding foldr_max_le
  proof
    fix x assume "x \<in> set (map wdepth (cs[k := t]))"
    then obtain c where c: "x = wdepth c" "c \<in> insert t (set cs)"
      using set_update_subset_insert [of cs k t] by auto
    have "wdepth (cs ! k) \<le> foldr max (map wdepth cs) 0" using n(3) by (intro foldr_max_ge) simp
    then have "c = t \<Longrightarrow> x \<le> max (foldr max (map wdepth cs) 0) (count_wild q)" using c t' by auto
    moreover have "c \<in> set cs \<Longrightarrow> x \<le> foldr max (map wdepth cs) 0" using c by (intro foldr_max_ge) simp
    ultimately show "x \<le> max (foldr max (map wdepth cs) 0) (count_wild q)" using c(2) by auto
  qed
  have all: "list_all P (cs[k := t])" if "list_all P cs" "P t" for P
    using that set_update_subset_insert [of cs k t] by (auto simp: list_all_iff)
  have "live (Node d (cs[k := t]))" using n t' by (simp add: all)
  moreover have "wdepth (Node d (cs[k := t])) \<le> max (wdepth (Node d cs)) (count_wild (n_path d @ q))"
    using m w(1) by (auto simp: max_def split: if_splits)
  moreover from this have "cap_ok (Node d (cs[k := t]))" using n(2) w t' by (auto simp: all)
  ultimately show ?thesis using t(2) n(3) t'
    by (auto simp add: inserted_def child_ok_def set_routes below_update)
qed

lemma inserted_index:
  assumes n: "wf_node (Node d cs)" "live (Node d cs)" "cap_ok (Node d cs)" "is_static d" "\<not> n_wildChild d"
    and k: "k < length cs" "n_indices d ! k = hd q" and t: "inserted (cs ! k) q h t"
  shows "inserted (Node d cs) (n_path d @ q) h (Node d (cs[k := t]))"
proof (rule inserted_child [OF n(2,3) k(1) t])
  have w: "list_all2 child_ok (n_indices d) cs" "list_all wf_node cs" "distinct (n_indices d)"
    "static_str (n_path d)"
    using n by (simp_all add: wf_node_iff wf_static_def)
  then have "child_ok (hd q) (cs ! k)" using k by (metis list_all2_nthD2)
  then have "child_ok (hd q) t" using t by (simp add: inserted_def)
  then have "list_all2 child_ok ((n_indices d)[k := n_indices d ! k]) (cs[k := t])"
    using w(1) k by (intro list_all2_update_cong) simp_all
  then have "list_all2 child_ok (n_indices d) (cs[k := t])" by simp
  moreover have "list_all wf_node (cs[k := t])"
    using w(2) t set_update_subset_insert [of cs k t] by (auto simp: list_all_iff inserted_def)
  ultimately show "wf_node (Node d (cs[k := t]))" using w n(4,5) by (simp add: wf_node_iff wf_static_def)
qed (use n(4) count_wild_path [OF n(1)] in auto)

lemma inserted_wild:
  assumes n: "wf_node (Node d [w])" "live (Node d [w])" "cap_ok (Node d [w])" "is_static d" "n_wildChild d"
    and t: "inserted w q h t"
  shows "inserted (Node d [w]) (n_path d @ q) h (Node d [t])"
proof -
  have "wf_node (Node d ([w][0 := t]))"
    using n t by (auto simp: wf_node_iff wf_static_def inserted_def)
  from inserted_child [OF n(2,3) _ _ this, of q h] show ?thesis
    using t n(4) count_wild_path [OF n(1)] by simp
qed

lemma inserted_below_param:
  assumes n: "wf_node (Node d [c])" "live (Node d [c])" "cap_ok (Node d [c])" "n_nType d = NParam"
    and q: "hd q = slash" "count_wild (n_path d @ q) \<le> unat (n_maxParams d)" and t: "inserted c q h t"
  shows "inserted (Node d [c]) (n_path d @ q) h (Node d [t])"
proof -
  have "wf_node (Node d ([c][0 := t]))"
    using n t q(1) by (auto simp: wf_node_iff wf_param_def inserted_def)
  from inserted_child [OF n(2,3) _ _ this, of q h] show ?thesis
    using t n(4) q(2) count_wild_path [OF n(1)] by (simp add: is_wild_node_def)
qed

lemma inserted_here:
  assumes n: "wf_node (Node d cs)" "live (Node d cs)" "cap_ok (Node d cs)" "is_static d \<or> n_nType d = NParam"
    and h: "n_handle d = None" "n_path d \<noteq> []"
  shows "inserted (Node d cs) (n_path d) h (Node (d\<lparr>n_handle := Some h\<rparr>) cs)"
proof -
  have "wf_node (Node (d\<lparr>n_handle := Some h\<rparr>) cs)"
    using n(1,4) by (auto simp: wf_node_iff wf_static_def wf_param_def)
  then show ?thesis using n h
    by (auto simp: inserted_def set_routes own_def child_ok_def)
qed

text \<open>A new child under a byte that was no index byte.\<close>

lemma inserted_append:
  assumes n: "wf_node (Node d cs)" "live (Node d cs)" "cap_ok (Node d cs)" "is_static d" "\<not> n_wildChild d"
    and q: "q \<noteq> []" "\<not> is_wild (hd q)" "hd q \<notin> set (n_indices d)"
    and d0: "n_nType d0 = NStatic" "n_path d0 = []" "n_handle d0 = None"
    and t: "loop_post d0 q h (count_wild q) t"
  shows "inserted (Node d cs) (n_path d @ q) h (Node (d\<lparr>n_indices := n_indices d @ [hd q]\<rparr>) (cs @ [t]))"
proof -
  note t' = t [unfolded loop_post_def]
  have c: "child_ok (hd q) t" using t' d0 q by simp
  have w: "list_all2 child_ok (n_indices d) cs" "list_all wf_node cs" "distinct (n_indices d)"
    "static_str (n_path d)"
    using n by (simp_all add: wf_node_iff wf_static_def)
  have "child_ok (hd (n_path d @ q)) (Node (d\<lparr>n_indices := n_indices d @ [hd q]\<rparr>) (cs @ [t]))"
    if "child_ok (hd (n_path d @ q)) (Node d cs)"
    using that n(4,5) q(3) by (auto simp: child_ok_def is_static_def Let_def)
  moreover have "foldr max (map wdepth (cs @ [t])) 0 \<le> max (foldr max (map wdepth cs) 0) (count_wild q)"
    using t' foldr_max_ge unfolding foldr_max_le by (fastforce simp: le_max_iff_disj)
  moreover have "wf_node (Node (d\<lparr>n_indices := n_indices d @ [hd q]\<rparr>) (cs @ [t]))"
    using w n(4,5) c q(3) t' by (simp add: wf_node_iff wf_static_def list_all2_appendI)
  moreover have "own d0 = {}" using d0 by (simp add: own_def)
  ultimately show ?thesis using n(2-4) t' d0 w(4)
    by (simp add: inserted_def set_routes)
qed


section \<open>One turn of the walk\<close>

text \<open>The body of the loop after \<open>walkHead\<close>: \<open>n\<close> is the node after it, \<open>path\<close> the rest of the path.\<close>

definition addRoute_rest :: "'h node \<Rightarrow> string \<Rightarrow> 8 word \<Rightarrow> string \<Rightarrow> 'h option \<Rightarrow> 'h outcome" where
  "addRoute_rest n path numParams fullPath handle =
     (let d = data n; cs = children n; c = hd path in
      if path = [] then
        (if n_handle d \<noteq> None then Panic (HandleExists fullPath) n
         else Done (Node (d\<lparr>n_handle := handle\<rparr>) cs))
      else if n_wildChild d then
        (if cs = [] then Panic IndexOutOfRange n
         else
           let w = enterWild numParams (hd cs) in
           if wildMatches path (n_path (data w)) then
             map_outcome (\<lambda>t. Node d (t # tl cs))
               (addRoute_walk w path (numParams - 1) fullPath handle)
           else Panic (WildcardConflict path (n_path (data w)) fullPath) (Node d (w # tl cs)))
      else if n_nType d = NParam \<and> c = slash \<and> length cs = 1 then
        map_outcome (\<lambda>t. Node d [t])
          (addRoute_walk (incPriority (hd cs)) path numParams fullPath handle)
      else
        (case find_index c (n_indices d) of
           Some pos \<Rightarrow>
             (case incrementChildPrio d cs pos of
                None \<Rightarrow> Panic IndexOutOfRange n
              | Some r \<Rightarrow>
                  map_outcome (\<lambda>t. Node (fst r) ((fst (snd r))[snd (snd r) := t]))
                    (addRoute_walk (fst (snd r) ! snd (snd r)) path numParams fullPath handle))
         | None \<Rightarrow> appendChild d cs numParams path fullPath handle))"

lemma addRoute_walk_rest:
  "addRoute_walk n path np fp h =
    addRoute_rest (walkHead n path np) (drop (lcp path (n_path (data n))) path) np fp h"
proof (cases "lcp path (n_path (data n)) < length path")
  case True
  then show ?thesis
    by (subst addRoute_walk.simps) (simp add: addRoute_rest_def Let_def)
next
  case False
  then show ?thesis
    by (subst addRoute_walk.simps) (simp add: addRoute_rest_def Let_def)
qed

lemma appendChild_new:
  fixes np :: "8 word"
  assumes "length (n_indices d) = length cs" "\<not> is_wild (hd q)"
    and d0_def: "d0 = zero_data\<lparr>n_maxParams := np, n_priority := 1\<rparr>"
  obtains k where "k \<le> length cs"
    "appendChild d cs np q fp h =
      map_outcome (\<lambda>t. Node (d\<lparr>n_indices := move_elem (length cs) k (n_indices d @ [hd q])\<rparr>)
          (move_elem (length cs) k (cs @ [t])))
        (insertLoop d0 [] 0 0 np q fp h)"
proof -
  let ?d1 = "d\<lparr>n_indices := n_indices d @ [hd q]\<rparr>" and ?c = "Node (zero_data\<lparr>n_maxParams := np\<rparr>) []"
  let ?cs1 = "cs @ [?c]" and ?n = "length cs"
  from incrementChildPrio_spec [of ?d1 ?cs1 ?n] assms(1) obtain k where k: "k \<le> ?n"
    "incrementChildPrio ?d1 ?cs1 ?n = Some (?d1\<lparr>n_indices := move_elem ?n k (n_indices ?d1)\<rparr>,
      move_elem ?n k (?cs1[?n := incPriority (?cs1 ! ?n)]), k)"
    by auto
  have i: "incPriority ?c = Node d0 []" by (simp add: incPriority_def d0_def)
  have "(move_elem ?n k (cs @ [Node d0 []]))[k := t] = move_elem ?n k (cs @ [t])" for t
    using k(1) move_elem_update [of k ?n "cs @ [Node d0 []]" t] by simp
  moreover have "move_elem ?n k (cs @ [Node d0 []]) ! k = Node d0 []"
    using k(1) nth_move_elem [of k ?n "cs @ [Node d0 []]"] by simp
  ultimately have "appendChild d cs np q fp h =
      map_outcome (\<lambda>t. Node (d\<lparr>n_indices := move_elem ?n k (n_indices d @ [hd q])\<rparr>) (move_elem ?n k (cs @ [t])))
        (insertLoop d0 [] 0 0 np q fp h)"
    using assms(1,2) k(2) i by (simp add: appendChild_def insertChild_def Let_def)
  with k(1) that show thesis by blast
qed

lemma map_outcome_Panic [simp]: "(\<exists>e t. map_outcome f r = Panic e t) \<longleftrightarrow> (\<exists>e t. r = Panic e t)"
  by (cases r) auto

lemma loop_decides_new:
  fixes np :: "8 word"
  assumes "unat np = count_wild q"
  shows "loop_decides (insertLoop (zero_data\<lparr>n_maxParams := np, n_priority := 1\<rparr>) [] 0 0 np q fp (Some h))
    (zero_data\<lparr>n_maxParams := np, n_priority := 1\<rparr>) q h (unat np)"
proof -
  have "loop_decides (insertLoop (zero_data\<lparr>n_maxParams := np, n_priority := 1\<rparr>) [] 0 0 np q fp (Some h))
    (zero_data\<lparr>n_maxParams := np, n_priority := 1\<rparr>) (drop 0 q) h (unat np)"
    using assms by (intro insertLoop_decides) (simp_all add: is_static_def)
  then show ?thesis by simp
qed

text \<open>A new child of a static node.\<close>

lemma appendChild_decides:
  assumes n: "wf_node (Node d cs)" "live (Node d cs)" "cap_ok (Node d cs)" "is_static d" "\<not> n_wildChild d"
    and q: "q \<noteq> []" "\<not> is_wild (hd q)" "hd q \<notin> set (n_indices d)" and np: "unat np = count_wild q"
  shows "decides (appendChild d cs np q fp (Some h)) (Node d cs) (n_path d @ q) h"
proof -
  let ?d0 = "zero_data\<lparr>n_maxParams := np, n_priority := 1\<rparr> :: 'a node_data"
  have len: "length (n_indices d) = length cs"
    using n by (auto simp: wf_node_iff wf_static_def dest: list_all2_lengthD)
  obtain k where k: "k \<le> length cs"
    "appendChild d cs np q fp (Some h) =
      map_outcome (\<lambda>t. Node (d\<lparr>n_indices := move_elem (length cs) k (n_indices d @ [hd q])\<rparr>)
          (move_elem (length cs) k (cs @ [t]))) (insertLoop ?d0 [] 0 0 np q fp (Some h))"
    by (rule appendChild_new [OF len q(2) refl])
  have "no_star q" using q by (auto simp: no_star_def is_wild_def)
  then have f: "fits (n_path d @ q) (set (routes (Node d cs))) \<longleftrightarrow> valid_pat q"
    using fits_static [OF n(1,4), of q] fits_index [OF n(1,4,5) q(1,2)] q
    by (simp add: find_index_None [THEN iffD2])
  note L = loop_decides_new [OF np, of fp h]
  show ?thesis
  proof (cases "valid_pat q")
    case True
    with L obtain t where t: "insertLoop ?d0 [] 0 0 np q fp (Some h) = Done t" "loop_post ?d0 q h (count_wild q) t"
      using np by (auto simp: loop_decides_def)
    let ?d1 = "d\<lparr>n_indices := n_indices d @ [hd q]\<rparr>"
    have "inserted (Node d cs) (n_path d @ q) h (Node ?d1 (cs @ [t]))"
      by (rule inserted_append [OF n q _ _ _ t(2)]) simp_all
    then have "inserted (Node d cs) (n_path d @ q) h
        (Node (?d1\<lparr>n_indices := move_elem (length cs) k (n_indices ?d1)\<rparr>) (move_elem (length cs) k (cs @ [t])))"
      using n(4,5) len k(1) by (intro inserted_alike [OF _ alike_move]) simp_all
    then show ?thesis using f True k(2) t(1) by (simp add: decides_def)
  next
    case False
    with L show ?thesis using f k(2) by (simp add: decides_def loop_decides_def)
  qed
qed


lemma appendChild_wild_full:
  assumes "cs \<noteq> []" "q \<noteq> []" "is_wild (hd q)" "np \<noteq> 0"
  shows "\<exists>e t. appendChild d cs np q fp h = Panic e t"
  using assms by (cases q; cases "wildcardEnd q 1")
    (auto simp: appendChild_def insertChild_def Let_def insertLoop.simps [of d cs 0 0])

lemma appendChild_wild_empty:
  assumes n: "wf_node (Node d [])" "is_static d" "\<not> n_wildChild d"
    and q: "q \<noteq> []" "is_wild (hd q)" and np: "unat np = count_wild q"
  shows "loop_decides (appendChild d [] np q fp (Some h)) d q h (unat np)"
proof -
  have w: "n_indices d = []" "static_str (n_path d)" using n by (simp_all add: wf_node_iff wf_static_def)
  have "loop_decides (insertLoop d [] 0 0 np q fp (Some h)) d (drop 0 q) h (unat np)"
    using n(2,3) w q np by (intro insertLoop_decides) simp_all
  then show ?thesis using q(2) by (simp add: appendChild_def insertChild_def Let_def)
qed

text \<open>A wildcard after a static node without a wildcard child.\<close>

lemma appendChild_wild_decides:
  assumes n: "wf_node (Node d cs)" "live (Node d cs)" "cap_ok (Node d cs)" "is_static d" "\<not> n_wildChild d"
    and q: "q \<noteq> []" "is_wild (hd q)" and np: "unat np = count_wild q"
  shows "decides (appendChild d cs np q fp (Some h)) (Node d cs) (n_path d @ q) h"
proof -
  have np0: "np \<noteq> 0" using q np by (cases q) (auto simp flip: unat_eq_0)
  consider (star) "hd q = star" | (colon) "hd q = colon" using q(2) by (auto simp: is_wild_def)
  then show ?thesis
  proof cases
    case star
    then obtain r where r: "q = star # r" using q(1) by (cases q) auto
    have "\<exists>e t. appendChild d cs np q fp (Some h) = Panic e t"
    proof (cases "cs = []")
      case True
      with appendChild_wild_empty [of d q np fp h] n q np r show ?thesis by (simp add: loop_decides_def)
    qed (rule appendChild_wild_full [OF _ q np0])
    then show ?thesis using fits_star [OF n(1,4,2)] r by (simp add: decides_def)
  next
    case colon
    then have ns: "no_star q" by (simp add: no_star_def)
    note f = fits_static [OF n(1,4) ns]
    show ?thesis
    proof (cases "cs = []")
      case True
      have L: "loop_decides (appendChild d cs np q fp (Some h)) d q h (unat np)"
        using appendChild_wild_empty [of d q np fp h] n q np True by simp
      have f': "fits (n_path d @ q) (set (routes (Node d cs))) \<longleftrightarrow> valid_pat q" using f q True by simp
      show ?thesis
      proof (cases "valid_pat q")
        case False
        with L f' show ?thesis by (simp add: decides_def loop_decides_def)
      next
        case v: True
        with L obtain t where t: "appendChild d cs np q fp (Some h) = Done t" "loop_post d q h (unat np) t"
          by (auto simp: loop_decides_def)
        note t' = t(2) [unfolded loop_post_def]
        have "child_ok (hd (n_path d @ q)) t" if c: "child_ok (hd (n_path d @ q)) (Node d cs)"
        proof -
          have w: "static_str (n_path d)" "n_indices d = []" "n_nType d \<noteq> NCatchAll"
            using n(1,4,5) True by (auto simp: wf_node_iff wf_static_def is_static_def)
          then have "n_nType d = NStatic" "n_path d \<noteq> []" using c by (auto simp: child_ok_def Let_def)
          moreover have "\<not> is_wild (hd (n_path d))" using w(1) calculation(2) by (simp add: static_str_def)
          ultimately show ?thesis using t' by simp
        qed
        then have "inserted (Node d cs) (n_path d @ q) h t"
          using t' True np by (auto simp: inserted_def set_routes)
        then show ?thesis using f' v t(1) by (simp add: decides_def)
      qed
    next
      case False
      then obtain c cs' where cs: "cs = c # cs'" by (cases cs) auto
      have w: "list_all2 child_ok (n_indices d) cs" "list_all wf_node cs"
        using n by (simp_all add: wf_node_iff wf_static_def)
      then obtain i where i: "child_ok i c" "wf_node c" using cs by (auto simp: list_all2_Cons2)
      have "live c" using n(2) cs by simp
      from live_routes [OF this] obtain r h' where r: "(r, h') \<in> set (routes c)" by blast
      from routes_start [OF i(2,1) r] have "r \<noteq> []" "hd r \<noteq> colon" by (auto simp: is_wild_def)
      then have "\<not> compatible q r" using incompatible_colon q(1) colon by blast
      then have "\<not> fits q (below cs)" using r cs fitsD [of q "below cs" r h'] by auto
      then have "\<not> fits (n_path d @ q) (set (routes (Node d cs)))" using f q(1) by simp
      then show ?thesis using appendChild_wild_full [OF False q np0] by (simp add: decides_def)
    qed
  qed
qed


text \<open>A static node whose path was matched in full.\<close>

lemma rest_here_decides:
  assumes n: "wf_node (Node d cs)" "live (Node d cs)" "cap_ok (Node d cs)" "is_static d \<or> n_nType d = NParam"
    and p: "n_path d \<noteq> []"
  shows "decides (addRoute_rest (Node d cs) [] np fp (Some h)) (Node d cs) (n_path d) h"
proof -
  have f: "fits (n_path d) (set (routes (Node d cs))) \<longleftrightarrow> n_handle d = None"
    using n(4) fits_static [OF n(1), of "[]"] fits_param [OF n(1), of "[]"] by (auto simp: no_star_def)
  show ?thesis
  proof (cases "n_handle d")
    case None
    then show ?thesis using f inserted_here [OF n None p] by (simp add: decides_def addRoute_rest_def)
  next
    case (Some h')
    then show ?thesis using f by (simp add: decides_def addRoute_rest_def)
  qed
qed

lemma data_enterWild [simp]:
  "n_path (data (enterWild np w)) = n_path (data w)" "n_nType (data (enterWild np w)) = n_nType (data w)"
  "n_maxParams (data (enterWild np w)) = max np (n_maxParams (data w))"
  "n_handle (data (enterWild np w)) = n_handle (data w)"
  by (simp_all add: enterWild_def incPriority_def)

lemma rest_wild_decides:
  assumes n: "wf_node (Node d cs)" "live (Node d cs)" "cap_ok (Node d cs)" "is_static d" "n_wildChild d"
    and q: "q \<noteq> []"
    and sub: "\<And>w. cs = [w] \<Longrightarrow> wildMatches q (n_path (data w)) \<Longrightarrow>
      decides (addRoute_walk (enterWild np w) q (np - 1) fp (Some h)) (enterWild np w) q h"
  shows "decides (addRoute_rest (Node d cs) q np fp (Some h)) (Node d cs) (n_path d @ q) h"
proof -
  obtain w where cs: "cs = [w]" using n by (auto simp: wf_node_iff wf_static_def length_Suc_conv)
  obtain dw cw where w: "w = Node dw cw" by (cases w)
  have wp: "n_nType dw = NParam" "wf_node w" "live w" "n_wildChild d"
    using n cs w by (auto simp: wf_node_iff wf_static_def)
  from wf_param_path [OF wp(2) [unfolded w] wp(1)] obtain name where name: "n_path dw = colon # name" "valid_name name" .
  have r: "addRoute_rest (Node d cs) q np fp (Some h) =
      (if wildMatches q (n_path dw) then map_outcome (\<lambda>t. Node d [t]) (addRoute_walk (enterWild np w) q (np - 1) fp (Some h))
       else Panic (WildcardConflict q (n_path dw) fp) (Node d [enterWild np w]))"
    using q wp cs w by (simp add: addRoute_rest_def Let_def)
  show ?thesis
  proof (cases "wildMatches q (n_path dw)")
    case True
    then have "no_star q" using wildMatches_param [OF name(2)] name(1) by (auto simp: no_star_def)
    then have f: "fits (n_path d @ q) (set (routes (Node d cs))) \<longleftrightarrow> fits q (set (routes w))"
      using fits_static [OF n(1,4)] q cs by simp
    have D: "decides (addRoute_walk (enterWild np w) q (np - 1) fp (Some h)) w q h"
      using sub [OF cs] True w by (simp add: decides_alike [OF alike_enterWild])
    show ?thesis
    proof (cases "fits q (set (routes w))")
      case fit: True
      then obtain t where t: "addRoute_walk (enterWild np w) q (np - 1) fp (Some h) = Done t" "inserted w q h t"
        using D by (auto simp: decides_def)
      then show ?thesis using inserted_wild [OF n [unfolded cs] t(2)] f fit r True cs by (simp add: decides_def)
    next
      case False
      then show ?thesis using D f r True by (auto simp: decides_def)
    qed
  next
    case False
    have "\<not> fits (n_path d @ q) (set (routes (Node d cs)))"
    proof (cases "no_star q")
      case True
      then show ?thesis
        using fits_static [OF n(1,4) True] q cs fits_other_param [OF wp(2) [unfolded w] wp(1) _ q False] wp(3) w
        by simp
    next
      case no: False
      then obtain r where "q = star # r" by (cases q) (auto simp: no_star_def)
      then show ?thesis using fits_star [OF n(1,4,2)] by simp
    qed
    then show ?thesis using r False by (simp add: decides_def)
  qed
qed

lemma rest_index_decides:
  assumes n: "wf_node (Node d cs)" "live (Node d cs)" "cap_ok (Node d cs)" "is_static d" "\<not> n_wildChild d"
    and q: "q \<noteq> []" "find_index (hd q) (n_indices d) = Some k"
    and sub: "decides (addRoute_walk (incPriority (cs ! k)) q np fp (Some h)) (incPriority (cs ! k)) q h"
  shows "decides (addRoute_rest (Node d cs) q np fp (Some h)) (Node d cs) (n_path d @ q) h"
proof -
  have w: "list_all2 child_ok (n_indices d) cs" "list_all wf_node cs"
    using n by (simp_all add: wf_node_iff wf_static_def)
  then have len: "length (n_indices d) = length cs" by (simp add: list_all2_lengthD)
  have k: "k < length cs" "n_indices d ! k = hd q" using find_index_Some [OF q(2)] len by auto
  then have "child_ok (hd q) (cs ! k)" "wf_node (cs ! k)" "live (cs ! k)"
    using w n(2) by (auto simp: list_all2_conv_all_nth list_all_length)
  note c = this
  from live_routes [OF c(3)] obtain r h' where "(r, h') \<in> set (routes (cs ! k))" by blast
  from routes_start [OF c(2,1) this] have hd: "\<not> is_wild (hd q)" by simp
  then have ns: "no_star q" by (auto simp: no_star_def is_wild_def)
  have f: "fits (n_path d @ q) (set (routes (Node d cs))) \<longleftrightarrow> fits q (set (routes (cs ! k)))"
    using fits_static [OF n(1,4) ns] fits_index [OF n(1,4,5) q(1) hd] q by simp
  from incrementChildPrio_spec [OF len k(1)] obtain j where j: "j \<le> k"
    "incrementChildPrio d cs k = Some (d\<lparr>n_indices := move_elem k j (n_indices d)\<rparr>,
      move_elem k j (cs[k := incPriority (cs ! k)]), j)" by blast
  let ?cs = "cs[k := incPriority (cs ! k)]" and ?d = "d\<lparr>n_indices := move_elem k j (n_indices d)\<rparr>"
  let ?r = "addRoute_walk (incPriority (cs ! k)) q np fp (Some h)"
  have "move_elem k j ?cs ! j = incPriority (cs ! k)" using nth_move_elem [of j k ?cs] j k by simp
  moreover have "(move_elem k j ?cs)[j := t] = move_elem k j (cs[k := t])" for t
    using move_elem_update [of j k ?cs t] j(1) k(1) by simp
  moreover have "n_nType d \<noteq> NParam" using n(4) by (auto simp: is_static_def)
  ultimately have r: "addRoute_rest (Node d cs) q np fp (Some h) =
      map_outcome (\<lambda>t. Node ?d (move_elem k j (cs[k := t]))) ?r"
    using q n(5) j(2) by (simp add: addRoute_rest_def)
  have D: "decides ?r (cs ! k) q h" using sub by (simp add: decides_alike [OF alike_incPriority])
  show ?thesis
  proof (cases "fits q (set (routes (cs ! k)))")
    case True
    then obtain t where t: "?r = Done t" "inserted (cs ! k) q h t" using D by (auto simp: decides_def)
    have "inserted (Node d cs) (n_path d @ q) h (Node d (cs[k := t]))"
      by (rule inserted_index [OF n k t(2)])
    moreover have "alike (Node ?d (move_elem k j (cs[k := t]))) (Node d (cs[k := t]))"
      using n(4,5) len j(1) k(1) by (intro alike_move) simp_all
    ultimately have "inserted (Node d cs) (n_path d @ q) h (Node ?d (move_elem k j (cs[k := t])))"
      by (rule inserted_alike)
    then show ?thesis using f True r t(1) by (simp add: decides_def)
  next
    case False
    then show ?thesis using D f r by (auto simp: decides_def)
  qed
qed

lemma rest_static_decides:
  assumes n: "wf_node (Node d cs)" "live (Node d cs)" "cap_ok (Node d cs)" "is_static d"
    and p: "n_path d @ q \<noteq> []" and np: "unat np = count_wild q"
    and subW: "\<And>w. n_wildChild d \<Longrightarrow> cs = [w] \<Longrightarrow> wildMatches q (n_path (data w)) \<Longrightarrow>
      decides (addRoute_walk (enterWild np w) q (np - 1) fp (Some h)) (enterWild np w) q h"
    and subI: "\<And>k. k < length cs \<Longrightarrow> q \<noteq> [] \<Longrightarrow> \<not> n_wildChild d \<Longrightarrow> find_index (hd q) (n_indices d) = Some k \<Longrightarrow>
      decides (addRoute_walk (incPriority (cs ! k)) q np fp (Some h)) (incPriority (cs ! k)) q h"
  shows "decides (addRoute_rest (Node d cs) q np fp (Some h)) (Node d cs) (n_path d @ q) h"
proof (cases "q = []")
  case True
  then show ?thesis using rest_here_decides [of d cs np fp h] n p by simp
next
  case q: False
  show ?thesis
  proof (cases "n_wildChild d")
    case True
    show ?thesis by (rule rest_wild_decides [OF n True q subW [OF True]])
  next
    case nw: False
    show ?thesis
    proof (cases "find_index (hd q) (n_indices d)")
      case None
      then have "addRoute_rest (Node d cs) q np fp (Some h) = appendChild d cs np q fp (Some h)"
        using q nw n(4) by (auto simp: addRoute_rest_def is_static_def)
      moreover have "decides (appendChild d cs np q fp (Some h)) (Node d cs) (n_path d @ q) h"
        using appendChild_decides [OF n nw q _ _ np] appendChild_wild_decides [OF n nw q _ np] None
        by (cases "is_wild (hd q)") (simp_all add: find_index_None)
      ultimately show ?thesis by simp
    next
      case (Some k)
      have "length (n_indices d) = length cs"
        using n nw by (auto simp: wf_node_iff wf_static_def list_all2_lengthD)
      then have "k < length cs" using find_index_Some [OF Some] by simp
      then show ?thesis using rest_index_decides [OF n nw q Some subI] q nw Some by simp
    qed
  qed
qed


text \<open>A parameter node whose path was matched.\<close>

lemma rest_param_decides:
  assumes n: "wf_node (Node d cs)" "live (Node d cs)" "cap_ok (Node d cs)" "n_nType d = NParam"
    and q: "q = [] \<or> hd q = slash" and np: "unat np = count_wild q"
    and cap: "Suc (count_wild q) \<le> unat (n_maxParams d)"
    and sub: "\<And>c. cs = [c] \<Longrightarrow> q \<noteq> [] \<Longrightarrow> hd q = slash \<Longrightarrow> child_ok slash c \<Longrightarrow>
      decides (addRoute_walk (incPriority c) q np fp (Some h)) (incPriority c) q h"
  shows "decides (addRoute_rest (Node d cs) q np fp (Some h)) (Node d cs) (n_path d @ q) h"
proof (cases "q = []")
  case True
  have "n_path d \<noteq> []" using n by (simp add: wf_node_iff wf_param_def)
  then show ?thesis using rest_here_decides [of d cs np fp h] n True by simp
next
  case False
  then have hd: "hd q = slash" using q by simp
  have w: "length cs \<le> 1" "list_all (child_ok slash) cs" "list_all wf_node cs" "\<not> n_wildChild d"
      "n_indices d = [] \<or> n_indices d = ''/'' \<and> cs \<noteq> []"
    using n by (simp_all add: wf_node_iff wf_param_def)
  have f: "fits (n_path d @ q) (set (routes (Node d cs))) \<longleftrightarrow> fits q (below cs)"
    using fits_param [OF n(1,4) q] False by simp
  have cw: "count_wild (n_path d) = 1" using count_wild_path [OF n(1)] n(4) by (simp add: is_wild_node_def)
  show ?thesis
  proof (cases cs)
    case (Cons c cs')
    then have cs: "cs = [c]" using w(1) by simp
    let ?r = "addRoute_walk (incPriority c) q np fp (Some h)"
    have D: "decides ?r c q h" using sub [OF cs False hd] w(2) cs by (simp add: decides_alike [OF alike_incPriority])
    have r: "addRoute_rest (Node d cs) q np fp (Some h) = map_outcome (\<lambda>t. Node d [t]) ?r"
      using False hd n(4) cs w(4) by (simp add: addRoute_rest_def)
    show ?thesis
    proof (cases "fits q (set (routes c))")
      case True
      then obtain t where t: "?r = Done t" "inserted c q h t" using D by (auto simp: decides_def)
      have "inserted (Node d [c]) (n_path d @ q) h (Node d [t])"
        using n cs hd cap cw by (intro inserted_below_param t(2)) simp_all
      then show ?thesis using f True r t(1) cs by (simp add: decides_def)
    next
      case no: False
      then show ?thesis using D f r cs by (auto simp: decides_def)
    qed
  next
    case Nil
    then have ind: "n_indices d = []" using w(5) by simp
    let ?d0 = "zero_data\<lparr>n_maxParams := np, n_priority := 1\<rparr> :: 'a node_data"
    have nw: "\<not> is_wild (hd q)" using hd by simp
    from ind have len: "length (n_indices d) = length cs" using Nil by simp
    obtain k where "k \<le> length cs" "appendChild d cs np q fp (Some h) =
      map_outcome (\<lambda>t. Node (d\<lparr>n_indices := move_elem (length cs) k (n_indices d @ [hd q])\<rparr>)
          (move_elem (length cs) k (cs @ [t]))) (insertLoop ?d0 [] 0 0 np q fp (Some h))"
      by (rule appendChild_new [OF len nw refl])
    then have a: "appendChild d cs np q fp (Some h) =
        map_outcome (\<lambda>t. Node (d\<lparr>n_indices := ''/''\<rparr>) [t]) (insertLoop ?d0 [] 0 0 np q fp (Some h))"
      using Nil ind hd by simp
    have r: "addRoute_rest (Node d cs) q np fp (Some h) = appendChild d cs np q fp (Some h)"
      using False w(4) Nil ind by (simp add: addRoute_rest_def)
    have f': "fits (n_path d @ q) (set (routes (Node d cs))) \<longleftrightarrow> valid_pat q" using f Nil by simp
    note L = loop_decides_new [OF np, of fp h]
    show ?thesis
    proof (cases "valid_pat q")
      case True
      with L obtain t where t: "insertLoop ?d0 [] 0 0 np q fp (Some h) = Done t" "loop_post ?d0 q h (unat np) t"
        by (auto simp: loop_decides_def)
      have t': "wf_node t" "live t" "cap_ok t" "wdepth t \<le> count_wild q" "set (routes t) = {(q, h)}" "child_ok slash t"
        using t(2) hd False np by (auto simp: loop_post_def own_def)
      have "inserted (Node d cs) (n_path d @ q) h (Node (d\<lparr>n_indices := ''/''\<rparr>) [t])"
        using n Nil t' cap cw by (auto simp: inserted_def wf_node_iff wf_param_def is_wild_node_def set_routes child_ok_def)
      then show ?thesis using r a t(1) f' True by (simp add: decides_def)
    next
      case no: False
      then show ?thesis using L r a f' by (simp add: decides_def loop_decides_def)
    qed
  qed
qed

text \<open>An inner catch-all node refuses every path.\<close>

lemma rest_inner_panics:
  assumes n: "wf_node (Node d cs)" "n_nType d = NCatchAll" "n_wildChild d"
    and q: "q \<noteq> []" "hd q = slash" "catch_all_last q"
  shows "\<exists>e t. addRoute_rest (Node d cs) q np fp h = Panic e t"
proof -
  from wf_inner [OF n] obtain l name h' where l: "cs = [Node l []]" "n_path l = slash # star # name"
    "n_handle l = Some h'" by blast
  let ?w = "enterWild np (Node l [])"
  have "\<exists>e t. addRoute_walk ?w q (np - 1) fp h = Panic e t" if "wildMatches q (n_path l)"
  proof -
    have t: "take (length (n_path l)) q = n_path l" using that by (simp add: wildMatches_def)
    then have p: "q = slash # star # name @ drop (length (n_path l)) q"
      using l(2) append_take_drop_id [of "length (n_path l)" q] by simp
    have "length q \<le> length (n_path l)"
    proof (rule ccontr)
      assume "\<not> ?thesis"
      then have "slash \<in> set (drop (length (n_path l)) q)"
        using that unfolding wildMatches_def by (simp flip: Cons_nth_drop_Suc)
      then have "\<not> catch_all_last q" by (subst p) simp
      with q(3) show False by simp
    qed
    with t have q': "q = n_path l" by simp
    have "children ?w = []" "n_path (data ?w) = q" using q' by (simp_all add: enterWild_def incPriority_def)
    moreover have "lcp q q = length q" by (simp add: lcp_eq_length)
    ultimately show ?thesis using l(3)
      by (simp add: addRoute_walk_rest walkHead_def addRoute_rest_def)
  qed
  then show ?thesis using q n l
    by (auto simp add: addRoute_rest_def Let_def)
qed

lemma splitEdge_facts:
  assumes n: "wf_node (Node d cs)" "live (Node d cs)" "cap_ok (Node d cs)" "is_static d"
    and i: "i = lcp p (n_path d)" "i < length (n_path d)"
  obtains d1 c1 where "splitEdge d cs p i = Node d1 [c1]" "wf_node (Node d1 [c1])" "live (Node d1 [c1])"
    "cap_ok (Node d1 [c1])" "wdepth (Node d1 [c1]) = wdepth (Node d cs)" "is_static d1"
    "n_nType d1 = n_nType d" "\<not> n_wildChild d1" "n_indices d1 = [n_path d ! i]" "n_path d1 = take i p"
    "set (routes (Node d1 [c1])) = set (routes (Node d cs))"
    "p \<noteq> [] \<and> child_ok (hd p) (Node d cs) \<longrightarrow> child_ok (hd p) (Node d1 [c1])"
proof -
  let ?d = "d\<lparr>n_path := take i p, n_indices := [n_path d ! i], n_handle := None, n_wildChild := False\<rparr>"
  let ?c = "splitChild d cs i"
  obtain dc where c: "?c = Node dc cs" "n_nType dc = NStatic" "n_path dc = drop i (n_path d)"
    "n_indices dc = n_indices d" "n_handle dc = n_handle d" "n_wildChild dc = n_wildChild d"
    by (simp add: splitChild_def)
  have tk: "take i p = take i (n_path d)" unfolding i(1) by (rule lcp_take)
  have st: "static_str (n_path d)" "is_static dc" using n c(2) by (simp_all add: wf_node_iff wf_static_def is_static_def)
  have "wf_node ?c" using n(1,4) st c by (simp add: wf_node_iff wf_static_def static_str_drop)
  moreover have "child_ok (n_path d ! i) ?c" using c i(2) by (simp add: child_ok_def hd_drop_conv_nth)
  ultimately have "wf_node (Node ?d [?c])"
    using n(4) st tk by (simp add: wf_node_iff wf_static_def static_str_take)
  moreover have "live (Node ?d [?c])" "wdepth (Node ?d [?c]) = wdepth (Node d cs)" "cap_ok (Node ?d [?c])"
    using n(2-4) c(1,5) st(2) by simp_all
  moreover have "set (routes (Node ?d [?c])) = set (routes (Node d cs))"
  proof -
    have "own ?d = {}" "under (take i p) (own dc) = own d"
      using c(3,5) tk by (cases "n_handle d"; simp add: own_def)+
    then show ?thesis using c(1,3) tk by (simp add: set_routes)
  qed
  moreover have "child_ok (hd p) (Node ?d [?c])" if "p \<noteq> []" "child_ok (hd p) (Node d cs)"
  proof -
    have t: "n_nType d = NStatic" "hd (n_path d) = hd p" "n_path d \<noteq> []"
      using that n(4) i(2) by (auto simp: child_ok_def is_static_def)
    then have "i \<noteq> 0" using that(1) i(1) by (cases p; cases "n_path d") auto
    then show ?thesis using t that(1) by (simp add: child_ok_def hd_take)
  qed
  ultimately show thesis using n(4) by (intro that [of ?d ?c]) (simp_all add: splitEdge_def)
qed


section \<open>The walk\<close>

text \<open>A path may be walked from a node: the conditions under which \<open>addRoute\<close> gets there.\<close>

definition enters :: "'h node \<Rightarrow> string \<Rightarrow> 8 word \<Rightarrow> bool" where
  "enters n p np \<longleftrightarrow> p \<noteq> [] \<and> catch_all_last p \<and>
     (let d = data n in
      is_static d \<and> unat np = count_wild p \<or>
      n_nType d = NParam \<and> wildMatches p (n_path d) \<and> Suc (unat np) = count_wild p \<and>
        count_wild p \<le> unat (n_maxParams d) \<or>
      n_nType d = NCatchAll \<and> n_wildChild d \<and> hd p = slash)"

lemma catch_all_last_drop: "catch_all_last p \<Longrightarrow> catch_all_last (drop k p)"
  by (induction p arbitrary: k) (auto simp: drop_Cons' dest: in_set_dropD)

lemma decides_head:
  assumes "decides r m p h" "set (routes m) = set (routes n)" "wdepth m = wdepth n"
    "n_nType (data m) = n_nType (data n)" "child_ok (hd p) n \<longrightarrow> child_ok (hd p) m"
  shows "decides r n p h"
  using assms by (auto simp: decides_def inserted_def split: if_splits)

text \<open>What a child is entered with.\<close>

lemma enters_child:
  assumes "child_ok (hd q) c" "q \<noteq> []" "catch_all_last q" "unat np = count_wild q"
  shows "enters (incPriority c) q np"
proof -
  have "n_nType (data (incPriority c)) = n_nType (data c)" "n_wildChild (data (incPriority c)) = n_wildChild (data c)"
    by (simp_all add: incPriority_def)
  then show ?thesis using child_ok_static_or_inner [OF assms(1)] assms(2-4)
    by (auto simp: enters_def is_static_def Let_def)
qed

lemma enters_wild:
  assumes "n_nType (data w) = NParam" "wf_node w" "wildMatches q (n_path (data w))" "catch_all_last q"
    "unat np = count_wild q"
  shows "enters (enterWild np w) q (np - 1)"
proof -
  obtain d cs where w: "w = Node d cs" by (cases w)
  with assms obtain name where name: "n_path d = colon # name" "valid_name name"
    using wf_param_path [of d cs] by auto
  then obtain r where q: "q = colon # name @ r" using assms(3) w wildMatches_param by auto
  then have "unat np \<noteq> 0" using assms(5) by simp
  then have "Suc (unat (np - 1)) = count_wild q" using assms(5) by (simp add: unat_minus_one_word flip: unat_eq_0)
  moreover have "unat np \<le> unat (max np (n_maxParams d))" by (simp add: word_le_nat_alt [symmetric])
  ultimately show ?thesis using assms w q by (simp add: enters_def)
qed

theorem addRoute_walk_decides:
  fixes n :: "'h node"
  assumes "wf_node n" "live n" "cap_ok n" "enters n p np"
  shows "decides (addRoute_walk n p np fp (Some h)) n p h"
  using assms
proof (induction "nsize n" arbitrary: n p np rule: less_induct)
  case less
  obtain d cs where n: "n = Node d cs" by (cases n)
  have sub: "decides (addRoute_walk c q m fp (Some h)) c q h"
    if "nsize c < nsize n" "wf_node c" "live c" "cap_ok c" "enters c q m" for c :: "'h node" and q m
    by (rule less.hyps [OF that])
  let ?d = "raiseMaxParams np d" and ?i = "lcp p (n_path d)"
  have p: "p \<noteq> []" "catch_all_last p" using less.prems(4) by (simp_all add: enters_def)
  have "alike (Node ?d cs) n" unfolding n by (rule alike_raise)
  then have wf: "wf_node (Node ?d cs)" "live (Node ?d cs)" "cap_ok (Node ?d cs)"
    using less.prems by (simp_all add: alike_def)
  have incr: "nsize (incPriority c) < nsize n" "wf_node (incPriority c)" "live (incPriority c)" "cap_ok (incPriority c)"
    if "c \<in> set cs" for c
    using that less.prems n alike_incPriority [of c] nsize_child [OF that, of d]
    by (auto simp: alike_def list_all_iff wf_node.simps simp del: nsize.simps)
  have wild: "nsize (enterWild np w) < nsize n" "wf_node (enterWild np w)" "live (enterWild np w)" "cap_ok (enterWild np w)"
    if "w \<in> set cs" for w
    using that less.prems n alike_enterWild [of np w] nsize_child [OF that, of d]
    by (auto simp: alike_def list_all_iff wf_node.simps simp del: nsize.simps)
  note walk = addRoute_walk_rest [of n p np fp "Some h"]
  from less.prems(4) n consider (st) "is_static d" "unat np = count_wild p"
    | (pa) "n_nType d = NParam" "wildMatches p (n_path d)" "Suc (unat np) = count_wild p" "count_wild p \<le> unat (n_maxParams d)"
    | (inner) "n_nType d = NCatchAll" "n_wildChild d" "hd p = slash"
    by (auto simp: enters_def Let_def)
  then show ?case
  proof cases
    case inner
    have "\<not> fits p (set (routes n))" using fits_inner [of d cs p] less.prems(1) n inner p by simp
    moreover have "n_path d = []" using wf_inner [of d cs] less.prems(1) n inner by auto
    then have "\<exists>e t. addRoute_walk n p np fp (Some h) = Panic e t"
      using walk rest_inner_panics [of ?d cs p np fp "Some h"] wf(1) inner p n
      by (simp add: walkHead_def Let_def)
    ultimately show ?thesis by (simp add: decides_def)
  next
    case pa
    from wf_param_path [of d cs] less.prems(1) n pa(1) obtain name where name: "n_path d = colon # name" "valid_name name"
      by auto
    with pa(2) obtain q where q: "p = n_path d @ q" "q = [] \<or> hd q = slash" using wildMatches_param by auto
    have l: "?i = length (n_path d)" using q(1) by (simp add: lcp_eq_length)
    have "count_wild (n_path d) = 1" using name by (simp add: valid_name_def)
    then have np: "unat np = count_wild q" using pa(3) q(1) by simp
    have "decides (addRoute_rest (Node ?d cs) q np fp (Some h)) (Node ?d cs) (n_path ?d @ q) h"
    proof (rule rest_param_decides [OF wf _ q(2) np])
      fix c assume c: "cs = [c]" "q \<noteq> []" "hd q = slash" "child_ok slash c"
      have "catch_all_last q" using p(2) catch_all_last_drop [of p "length (n_path d)"] q(1) by simp
      then have "enters (incPriority c) q np" using c np by (intro enters_child) simp_all
      then show "decides (addRoute_walk (incPriority c) q np fp (Some h)) (incPriority c) q h"
        using incr [of c] c(1) by (intro sub) simp_all
    qed (use pa np in \<open>simp_all add: word_le_nat_alt max_def\<close>)
    then have "decides (addRoute_walk n p np fp (Some h)) (Node ?d cs) p h"
      using walk l q(1) n by (simp add: walkHead_def)
    then show ?thesis using n by (simp add: decides_alike [OF alike_raise])
  next
    case st
    have std: "is_static ?d" using st(1) by (simp add: is_static_def)
    show ?thesis
    proof (cases "?i = length (n_path d)")
      case True
      then obtain q where q: "p = n_path d @ q" by (auto simp: lcp_eq_length prefix_def)
      have "static_str (n_path d)" using less.prems(1) st(1) n by (simp add: wf_node_iff wf_static_def)
      then have np: "unat np = count_wild q" using st(2) q by simp
      have cl: "catch_all_last q" using p(2) catch_all_last_drop [of p "length (n_path d)"] q by simp
      have "decides (addRoute_rest (Node ?d cs) q np fp (Some h)) (Node ?d cs) (n_path ?d @ q) h"
      proof (rule rest_static_decides [OF wf std _ np])
        show "n_path ?d @ q \<noteq> []" using p q by simp
      next
        fix w assume w: "n_wildChild ?d" "cs = [w]" "wildMatches q (n_path (data w))"
        have "n_nType (data w) = NParam" "wf_node w"
          using wf(1) std w by (simp_all add: wf_node_iff wf_static_def)
        then have "enters (enterWild np w) q (np - 1)" using w(3) cl np by (intro enters_wild)
        then show "decides (addRoute_walk (enterWild np w) q (np - 1) fp (Some h)) (enterWild np w) q h"
          using wild [of w] w(2) by (intro sub) simp_all
      next
        fix k assume k: "k < length cs" "q \<noteq> []" "\<not> n_wildChild ?d" "find_index (hd q) (n_indices ?d) = Some k"
        have "child_ok (n_indices ?d ! k) (cs ! k)"
          using wf(1) std k(1,3) by (simp add: wf_node_iff wf_static_def list_all2_nthD2)
        then have "enters (incPriority (cs ! k)) q np"
          using find_index_Some [OF k(4)] k(2) cl np by (intro enters_child) simp_all
        then show "decides (addRoute_walk (incPriority (cs ! k)) q np fp (Some h)) (incPriority (cs ! k)) q h"
          using incr [of "cs ! k"] k(1) by (intro sub) simp_all
      qed
      then have "decides (addRoute_walk n p np fp (Some h)) (Node ?d cs) p h"
        using walk True q n by (simp add: walkHead_def)
      then show ?thesis using n by (simp add: decides_alike [OF alike_raise])
    next
      case False
      then have lt: "?i < length (n_path d)" using lcp_le(2) [of p "n_path d"] by simp
      from splitEdge_facts [OF wf std, of ?i p] lt obtain d1 c1 where s:
        "splitEdge ?d cs p ?i = Node d1 [c1]" "wf_node (Node d1 [c1])" "live (Node d1 [c1])"
        "cap_ok (Node d1 [c1])" "wdepth (Node d1 [c1]) = wdepth (Node ?d cs)" "is_static d1"
        "n_nType d1 = n_nType ?d" "\<not> n_wildChild d1" "n_indices d1 = [n_path d ! ?i]" "n_path d1 = take ?i p"
        "set (routes (Node d1 [c1])) = set (routes (Node ?d cs))"
        "p \<noteq> [] \<and> child_ok (hd p) (Node ?d cs) \<longrightarrow> child_ok (hd p) (Node d1 [c1])"
        by auto
      let ?q = "drop ?i p"
      have "static_str (n_path d1)" using s(2,6) by (simp add: wf_node_iff wf_static_def)
      then have np: "unat np = count_wild ?q"
        using st(2) s(10) by (metis add_0 append_take_drop_id count_wild_simps(3) count_wild_static)
      have "decides (addRoute_rest (Node d1 [c1]) ?q np fp (Some h)) (Node d1 [c1]) (n_path d1 @ ?q) h"
      proof (rule rest_static_decides [OF s(2,3,4,6) _ np])
        fix k assume "?q \<noteq> []" "find_index (hd ?q) (n_indices d1) = Some k"
        then show "decides (addRoute_walk (incPriority ([c1] ! k)) ?q np fp (Some h)) (incPriority ([c1] ! k)) ?q h"
          using lcp_differ [of p "n_path d"] lt s(9) by (auto simp: hd_drop_conv_nth split: if_splits)
      qed (use p s(8,10) in auto)
      then have "decides (addRoute_walk n p np fp (Some h)) (Node d1 [c1]) p h"
        using walk lt n s(1,10) by (simp add: walkHead_def Let_def)
      then have "decides (addRoute_walk n p np fp (Some h)) (Node ?d cs) p h"
        by (rule decides_head) (use s p in auto)
      then show ?thesis using n by (simp add: decides_alike [OF alike_raise])
    qed
  qed
qed


end
