(* ===== verification/Route_Table.thy ===== *)
theory Route_Table
  imports Router_Walk "HOL-Library.Multiset"
begin

text \<open>
  The contract of a route table, what a client may conclude from it, and the proof that the
  tree of \<^verbatim>\<open>router/tree.go\<close> keeps the contract: a route is accepted exactly when it fits the
  routes registered before, and a lookup returns exactly the route that matches and its
  parameters.
\<close>

section \<open>The contract\<close>

text \<open>
  The patterns the contract speaks of: not empty, at most 255 wildcards (\<open>maxParams\<close> is a
  byte), and no slash after a star.
\<close>

definition good_pat :: "string \<Rightarrow> bool" where
  "good_pat p \<longleftrightarrow> p \<noteq> [] \<and> count_wild p \<le> 255 \<and> catch_all_last p"

locale route_table =
  fixes new :: 't
    and add :: "'t \<Rightarrow> string \<Rightarrow> 'h \<Rightarrow> 't option"
    and find :: "'t \<Rightarrow> string \<Rightarrow> ('h \<times> param list) option"
    and ok :: "'t \<Rightarrow> bool"
    and tab :: "'t \<Rightarrow> (string \<times> 'h) set"
  assumes ok_new: "ok new" and tab_new: "tab new = {}"
    and add_accepts: "ok t \<Longrightarrow> good_pat p \<Longrightarrow> add t p h \<noteq> None \<longleftrightarrow> fits p (tab t)"
    and add_result: "ok t \<Longrightarrow> good_pat p \<Longrightarrow> add t p h = Some t' \<Longrightarrow> ok t' \<and> tab t' = insert (p, h) (tab t)"
    and find_matches: "ok t \<Longrightarrow> find t s = Some (h, ps) \<longleftrightarrow> matches (tab t) s h ps"

text \<open>Routes that can be registered together, in any order.\<close>

definition consistent :: "(string \<times> 'h) list \<Rightarrow> bool" where
  "consistent rs \<longleftrightarrow> distinct (map fst rs) \<and> (\<forall>(p, h) \<in> set rs. valid_pat p) \<and>
     (\<forall>(p, h) \<in> set rs. \<forall>(q, g) \<in> set rs. p \<noteq> q \<longrightarrow> compatible p q)"

lemma consistent_iff:
  "consistent rs \<longleftrightarrow> distinct (map fst rs) \<and> (\<forall>p h. (p, h) \<in> set rs \<longrightarrow> valid_pat p) \<and>
    (\<forall>p h q g. (p, h) \<in> set rs \<longrightarrow> (q, g) \<in> set rs \<longrightarrow> p \<noteq> q \<longrightarrow> compatible p q)"
  by (fastforce simp: consistent_def)

lemma consistent_snoc:
  "consistent (rs @ [(p, h)]) \<longleftrightarrow> consistent rs \<and> fits p (set rs)"
proof
  assume c: "consistent (rs @ [(p, h)])"
  from c have all: "\<And>a b x y. (a, b) \<in> set (rs @ [(p, h)]) \<Longrightarrow> (x, y) \<in> set (rs @ [(p, h)]) \<Longrightarrow> a \<noteq> x \<Longrightarrow> compatible a x"
    unfolding consistent_iff by blast
  have "p \<notin> fst ` set rs" using c by (simp add: consistent_iff)
  then have "q \<noteq> p \<and> compatible p q" if "(q, g) \<in> set rs" for q g
    using that all [of p h q g] by force
  then show "consistent rs \<and> fits p (set rs)" using c by (auto simp: consistent_iff fits_def)
next
  assume c: "consistent rs \<and> fits p (set rs)"
  then have "q \<noteq> p \<and> compatible p q \<and> compatible q p" if "(q, g) \<in> set rs" for q g
    using that fitsD [of p "set rs" q g] by (simp add: compatible_sym [of q])
  then show "consistent (rs @ [(p, h)])" using c by (auto simp: consistent_iff fits_def)
qed

lemma consistent_perm:
  assumes "mset rs = mset rs'"
  shows "consistent rs = consistent rs'"
proof -
  have "set rs = set rs'" using assms by (rule mset_eq_setD)
  moreover have "distinct (map fst rs) = distinct (map fst rs')"
    using assms by (intro mset_eq_imp_distinct_iff) simp
  ultimately show ?thesis by (simp add: consistent_def)
qed

context route_table
begin

primrec add_all :: "'t option \<Rightarrow> (string \<times> 'h) list \<Rightarrow> 't option" where
  "add_all t [] = t"
| "add_all t (r # rs) = add_all (case t of None \<Rightarrow> None | Some t \<Rightarrow> add t (fst r) (snd r)) rs"

lemma add_all_append: "add_all t (rs @ rs') = add_all (add_all t rs) rs'"
  by (induction rs arbitrary: t) simp_all

lemma add_all_table:
  assumes "\<forall>(p, h) \<in> set rs. good_pat p"
  shows "(add_all (Some new) rs \<noteq> None \<longleftrightarrow> consistent rs) \<and>
    (\<forall>t. add_all (Some new) rs = Some t \<longrightarrow> ok t \<and> tab t = set rs)"
  using assms
proof (induction rs rule: rev_induct)
  case Nil
  show ?case using ok_new tab_new by (simp add: consistent_def)
next
  case (snoc r rs)
  obtain p h where r: "r = (p, h)" by (cases r)
  have IH: "add_all (Some new) rs \<noteq> None \<longleftrightarrow> consistent rs"
    "\<And>t. add_all (Some new) rs = Some t \<Longrightarrow> ok t \<and> tab t = set rs" and g: "good_pat p"
    using snoc r by auto
  show ?case
  proof (cases "add_all (Some new) rs")
    case None
    then show ?thesis using IH(1) r by (simp add: add_all_append consistent_snoc)
  next
    case (Some t)
    then show ?thesis using IH r add_accepts [of t p h] add_result [of t p h] g
      by (auto simp: add_all_append consistent_snoc)
  qed
qed

lemma at_most_one:
  "ok t \<Longrightarrow> matches (tab t) s h ps \<Longrightarrow> matches (tab t) s h' ps' \<Longrightarrow> h = h' \<and> ps = ps'"
  by (simp flip: find_matches)

lemma find_stable:
  assumes "ok t" "good_pat p" "add t p h = Some t'" "find t s = Some r"
  shows "find t' s = Some r"
proof -
  obtain g ps where r: "r = (g, ps)" by (cases r)
  have "matches (tab t) s g ps" using assms(1,4) r find_matches by simp
  then have "matches (tab t') s g ps" using add_result [OF assms(1-3)] by (auto simp: matches_def)
  then show ?thesis using add_result [OF assms(1-3)] r find_matches by simp
qed

lemma order_irrelevant:
  assumes "\<forall>(p, h) \<in> set rs. good_pat p" "mset rs = mset rs'" "add_all (Some new) rs = Some t"
  shows "\<exists>t'. add_all (Some new) rs' = Some t' \<and> (\<forall>s. find t' s = find t s)"
proof -
  have s: "set rs = set rs'" using assms(2) by (rule mset_eq_setD)
  then have g: "\<forall>(p, h) \<in> set rs'. good_pat p" using assms(1) by simp
  have "consistent rs'" using add_all_table [OF assms(1)] assms(3) consistent_perm [OF assms(2)] by auto
  then obtain t' where t': "add_all (Some new) rs' = Some t'" using add_all_table [OF g] by auto
  then have "ok t" "tab t = set rs" "ok t'" "tab t' = set rs"
    using add_all_table [OF assms(1)] add_all_table [OF g] assms(3) s by auto
  then have "find t' x = Some r \<longleftrightarrow> find t x = Some r" for x r
    by (cases r) (simp add: find_matches)
  then have "find t' x = find t x" for x by (metis not_None_eq)
  with t' show ?thesis by blast
qed

end

section \<open>The tree keeps the contract\<close>

definition tree_ok :: "'h node \<Rightarrow> bool" where
  "tree_ok n \<longleftrightarrow> wf_node n \<and> cap_ok n \<and> is_static (data n) \<and>
     ((\<exists>q. n = Node (zero_data\<lparr>n_priority := q\<rparr>) []) \<or>
      live n \<and> (\<forall>(p, h) \<in> set (routes n). p \<noteq> []))"

lemma tree_ok_new: "tree_ok new_node"
proof -
  have "new_node = Node (zero_data\<lparr>n_priority := 0\<rparr>) []" by (simp add: new_node_def zero_data_def)
  moreover have "wf_node new_node" by (simp add: new_node_def wf_node_iff is_static_def wf_static_def)
  moreover have "cap_ok new_node" by (simp add: new_node_def is_wild_node_def)
  moreover have "is_static (data new_node)" by (simp add: new_node_def is_static_def)
  ultimately show ?thesis by (auto simp: tree_ok_def)
qed

lemma routes_new: "routes new_node = []"
  by (simp add: new_node_def routes.simps)

lemma root_alike:
  assumes "n_nType (data t) = NStatic"
  defines "t' \<equiv> Node ((data t)\<lparr>n_nType := NRoot\<rparr>) (children t)"
  shows "wf_node t' = wf_node t" "live t' = live t" "cap_ok t' = cap_ok t"
    "set (routes t') = set (routes t)" "is_static (data t')"
  using assms(1) unfolding t'_def
  by (cases t; simp add: wf_node.simps wf_static_def is_wild_node_def set_routes own_def is_static_def
      split: option.split)+

theorem addRoute_decides:
  assumes "tree_ok n" "good_pat p"
  shows "if fits p (set (routes n))
    then \<exists>t. addRoute n p (Some h) = Done t \<and> tree_ok t \<and> set (routes t) = insert (p, h) (set (routes n))
    else \<exists>e t. addRoute n p (Some h) = Panic e t"
proof -
  have p: "p \<noteq> []" "catch_all_last p" "unat (countParams p) = count_wild p"
    using assms(2) by (simp_all add: good_pat_def countParams_count_wild)
  note n = assms(1) [unfolded tree_ok_def]
  from n consider (empty) q where "n = Node (zero_data\<lparr>n_priority := q\<rparr>) []"
    | (full) "live n" "\<forall>(p, h) \<in> set (routes n). p \<noteq> []" by auto
  then show ?thesis
  proof cases
    case (empty q)
    let ?d = "zero_data\<lparr>n_priority := q + 1\<rparr>"
    have r: "set (routes n) = {}" using empty by (simp add: routes.simps)
    have a: "addRoute n p (Some h) =
        (case insertLoop ?d [] 0 0 (countParams p) p p (Some h) of
           Panic e t \<Rightarrow> Panic e t
         | Done t \<Rightarrow> Done (Node ((data t)\<lparr>n_nType := NRoot\<rparr>) (children t)))"
      using empty by (simp add: addRoute_def incPriority_def insertChild_def Let_def)
    have "loop_decides (insertLoop ?d [] 0 0 (countParams p) p p (Some h)) ?d (drop 0 p) h (unat (countParams p))"
      using p(3) by (intro insertLoop_decides) (simp_all add: is_static_def)
    then have L: "loop_decides (insertLoop ?d [] 0 0 (countParams p) p p (Some h)) ?d p h (count_wild p)"
      using p(3) by simp
    show ?thesis
    proof (cases "valid_pat p")
      case False
      with L a r show ?thesis by (auto simp: loop_decides_def)
    next
      case True
      with L obtain t where t: "insertLoop ?d [] 0 0 (countParams p) p p (Some h) = Done t"
        "loop_post ?d p h (count_wild p) t" by (auto simp: loop_decides_def)
      have t': "wf_node t" "live t" "cap_ok t" "n_nType (data t) = NStatic" "set (routes t) = {(p, h)}"
        using t(2) by (auto simp: loop_post_def own_def)
      then have "tree_ok (Node ((data t)\<lparr>n_nType := NRoot\<rparr>) (children t))"
        using p(1) by (simp only: tree_ok_def root_alike [OF t'(4)] t') simp
      then show ?thesis using a t(1) r True t' by (simp add: root_alike [OF t'(4)])
    qed
  next
    case full
    let ?n = "incPriority n"
    have al: "alike ?n n" by (rule alike_incPriority)
    then have wf: "wf_node ?n" "live ?n" "cap_ok ?n" "is_static (data ?n)"
      using n full by (auto simp: alike_def is_static_def)
    have "n_path (data ?n) \<noteq> [] \<or> children ?n \<noteq> []"
      using full by (cases n) (auto simp: incPriority_def set_routes own_def)
    then have a: "addRoute n p (Some h) = addRoute_walk ?n p (countParams p) p (Some h)"
      by (simp add: addRoute_def Let_def)
    have "enters ?n p (countParams p)" using p wf(4) by (simp add: enters_def)
    then have "decides (addRoute n p (Some h)) n p h"
      using addRoute_walk_decides [OF wf(1-3)] a by (simp add: decides_alike [OF al])
    moreover have "tree_ok t" if "inserted n p h t" for t
      using that full n p(1) by (auto simp: inserted_def tree_ok_def is_static_def)
    ultimately show ?thesis by (auto simp: decides_def inserted_def split: if_splits)
  qed
qed

theorem getValue_answers:
  assumes "tree_ok n"
  shows "\<exists>ho p tsr. getValue n s = Return ho p tsr \<and>
    (\<forall>h ps. matches (set (routes n)) s h ps \<longleftrightarrow> ho = Some h \<and> contents p = ps)"
proof -
  have "answers (getValue_walk n s None) None (set (routes n)) s"
    using assms by (intro getValue_walk_answers) (auto simp: tree_ok_def visits_def room_def)
  then show ?thesis by (auto simp: answers_def getValue_def contents_def)
qed

text \<open>The operations in the form of the contract.\<close>

definition accepted :: "'h outcome \<Rightarrow> 'h node option" where
  "accepted r = (case r of Done t \<Rightarrow> Some t | Panic e t \<Rightarrow> None)"

definition tree_add :: "'h node \<Rightarrow> string \<Rightarrow> 'h \<Rightarrow> 'h node option" where
  "tree_add n p h = accepted (addRoute n p (Some h))"

definition tree_find :: "'h node \<Rightarrow> string \<Rightarrow> ('h \<times> param list) option" where
  "tree_find n s =
     (case getValue n s of
        Return ho p tsr \<Rightarrow> map_option (\<lambda>h. (h, contents p)) ho
      | LookupPanic e \<Rightarrow> None)"

interpretation tree: route_table new_node tree_add tree_find tree_ok "\<lambda>n. set (routes n)"
proof unfold_locales
  fix t :: "'h node" and p s :: string and h :: 'h and ps t'
  show "tree_ok new_node" by (rule tree_ok_new)
  show "set (routes new_node) = {}" by (simp add: routes_new)
  show "tree_add t p h \<noteq> None \<longleftrightarrow> fits p (set (routes t))" if "tree_ok t" "good_pat p"
    using addRoute_decides [OF that, of h] by (auto simp: tree_add_def accepted_def split: if_splits)
  show "tree_ok t' \<and> set (routes t') = insert (p, h) (set (routes t))"
    if "tree_ok t" "good_pat p" "tree_add t p h = Some t'"
    using addRoute_decides [OF that(1,2), of h] that(3)
    by (auto simp: tree_add_def accepted_def split: if_splits)
  show "tree_find t s = Some (h, ps) \<longleftrightarrow> matches (set (routes t)) s h ps" if "tree_ok t"
    using getValue_answers [OF that, of s] by (auto simp: tree_find_def)
qed

end
