(* ===== verification/Router_Properties.thy ===== *)
theory Router_Properties
  imports Route_Table
begin

text \<open>
  What the tree of \<^verbatim>\<open>router/tree.go\<close> promises to the rest of the program, stated over the
  code's own operations.
\<close>

text \<open>Routes registered one after the other on a tree; the first panic ends the registration.\<close>

primrec addRoutes :: "'h node \<Rightarrow> (string \<times> 'h) list \<Rightarrow> 'h outcome" where
  "addRoutes n [] = Done n"
| "addRoutes n (r # rs) =
     (case addRoute n (fst r) (Some (snd r)) of
        Done t \<Rightarrow> addRoutes t rs
      | Panic e t \<Rightarrow> Panic e t)"

lemma add_all_None [simp]: "tree.add_all None rs = None"
  by (induction rs) simp_all

lemma accepted_addRoutes: "accepted (addRoutes n rs) = tree.add_all (Some n) rs"
proof (induction rs arbitrary: n)
  case (Cons r rs)
  show ?case
  proof (cases "addRoute n (fst r) (Some (snd r))")
    case (Done t)
    then have "tree_add n (fst r) (snd r) = Some t" by (simp add: tree_add_def accepted_def)
    then show ?thesis using Cons [of t] Done by simp
  next
    case (Panic e t)
    then have "tree_add n (fst r) (snd r) = None" by (simp add: tree_add_def accepted_def)
    then show ?thesis using Panic by (simp add: accepted_def)
  qed
qed (simp add: accepted_def)

lemma addRoutes_Done: "addRoutes n rs = Done t \<longleftrightarrow> tree.add_all (Some n) rs = Some t"
  unfolding accepted_addRoutes [symmetric] by (simp add: accepted_def split: outcome.split)

lemma getValue_find:
  assumes "tree_ok n"
  obtains ho p tsr where "getValue n s = Return ho p tsr" "tree_find n s = map_option (\<lambda>h. (h, contents p)) ho"
  using getValue_answers [OF assms, of s] by (auto simp: tree_find_def)

lemma addRoutes_table:
  assumes "\<forall>(p, h) \<in> set rs. good_pat p" "addRoutes new_node rs = Done t"
  shows "tree_ok t" "set (routes t) = set rs"
  using tree.add_all_table [OF assms(1)] assms(2) by (simp_all add: addRoutes_Done)

lemma addRoutes_consistent:
  assumes "\<forall>(p, h) \<in> set rs. good_pat p" "consistent rs"
  obtains t where "addRoutes new_node rs = Done t"
  using tree.add_all_table [OF assms(1)] assms(2) by (auto simp: addRoutes_Done)

section \<open>Properties\<close>



text \<open>C2: a lookup on a tree that holds any routes never panics, whatever the path; it returns the
  handle and the parameters of a route that matches the path, and no handle when none does.\<close>

theorem getValue_correct:
  assumes "tree_ok n"
  shows "\<exists>ho p tsr. getValue n s = Return ho p tsr \<and>
    (\<forall>h ps. (\<exists>pat. (pat, h) \<in> set (routes n) \<and> match_pat pat s = Some ps) \<longleftrightarrow>
      ho = Some h \<and> contents p = ps)"
  using getValue_answers [OF assms, of s] by (simp add: matches_def)

theorem getValue_correct_witness:
  "\<exists>p tsr. getValue (new_node :: bool node) ''/x'' = Return None p tsr"
  using getValue_correct [OF tree_ok_new, of "''/x''"] by (auto simp: routes_new)







text \<open>A route that was found is still found, with the same handle and parameters, after
  another route is registered.\<close>

theorem getValue_stable:
  assumes "tree_ok n" "good_pat q" "addRoute n q (Some g) = Done t" "getValue n s = Return (Some h) p tsr"
  shows "\<exists>p' tsr'. getValue t s = Return (Some h) p' tsr' \<and> contents p' = contents p"
proof -
  have "tree_add n q g = Some t" using assms(3) by (simp add: tree_add_def accepted_def)
  moreover have "tree_find n s = Some (h, contents p)" using assms(4) by (simp add: tree_find_def)
  ultimately have "tree_find t s = Some (h, contents p)" by (rule tree.find_stable [OF assms(1,2)])
  then show ?thesis by (auto simp: tree_find_def split: lookup.splits)
qed

theorem getValue_stable_witness:
  "\<exists>t1 t2. addRoute new_node ''/a'' (Some True) = Done t1 \<and> addRoute t1 ''/ab'' (Some False) = Done t2 \<and>
    (\<exists>p' tsr'. getValue t2 ''/a'' = Return (Some True) p' tsr')"
proof -
  have g: "good_pat ''/a''" "good_pat ''/ab''" by (simp_all add: good_pat_def is_wild_def)
  obtain t1 where t1: "addRoute new_node ''/a'' (Some True) = Done t1" "tree_ok t1"
    "set (routes t1) = {(''/a'', True)}"
    using addRoute_decides [OF tree_ok_new g(1), of True] by (auto simp: routes_new fits_def)
  obtain t2 where t2: "addRoute t1 ''/ab'' (Some False) = Done t2"
    using addRoute_decides [OF t1(2) g(2), of False] t1(3) by (auto simp: fits_def)
  have "matches (set (routes t1)) ''/a'' True []" using t1(3) by (simp add: matches_def)
  then obtain p tsr where "getValue t1 ''/a'' = Return (Some True) p tsr"
    using getValue_answers [OF t1(2), of "''/a''"] by auto
  from getValue_stable [OF t1(2) g(2) t2 this] show ?thesis using t1(1) t2 by blast
qed

end
