(* ===== verification/Go_Strings.thy ===== *)
theory Go_Strings
  imports Prelude
begin

text \<open>
  The parts of Go's standard library the router uses on text: decoding and encoding of UTF-8
  (\<open>range\<close> over a string, package \<open>unicode/utf8\<close>) and \<open>strings.ToLower\<close> as it was in Go 1.4,
  the version the repository pins. The table of \<open>unicode.ToLower\<close> is a parameter \<open>lower\<close> on
  runes; what the router relies on is its value on Latin-1, \<open>latin1_lower\<close>.
\<close>

section \<open>Bytes and runes\<close>

abbreviation byte :: "char \<Rightarrow> nat" where "byte c \<equiv> of_char c"

lemma byte_less: "byte c < 256"
  by simp

lemma byte_inject [simp]: "byte c = byte d \<longleftrightarrow> c = d"
  by (rule of_char_eq_iff)

definition RuneError :: nat where
  "RuneError = 0xFFFD"

definition continuation :: "nat \<Rightarrow> bool" where
  "continuation b \<longleftrightarrow> 0x80 \<le> b \<and> b < 0xC0"

definition surrogate :: "nat \<Rightarrow> bool" where
  "surrogate r \<longleftrightarrow> 0xD800 \<le> r \<and> r \<le> 0xDFFF"

text \<open>The rune at the front of a string that is not empty, and its width in bytes.\<close>

definition decodeRune :: "string \<Rightarrow> nat \<times> nat" where
  "decodeRune s =
     (let bs = map of_char s; c0 = bs ! 0; cont = (\<lambda>i. i < length bs \<and> continuation (bs ! i));
          low = (\<lambda>i. bs ! i mod 64); err = (RuneError, 1)
      in
      if c0 < 0x80 then (c0, 1)
      else if c0 < 0xC0 \<or> \<not> cont 1 then err
      else if c0 < 0xE0 then
        (let r = c0 mod 32 * 64 + low 1 in if r \<le> 0x7F then err else (r, 2))
      else if \<not> cont 2 then err
      else if c0 < 0xF0 then
        (let r = c0 mod 16 * 4096 + low 1 * 64 + low 2
         in if r \<le> 0x7FF \<or> surrogate r then err else (r, 3))
      else if \<not> cont 3 then err
      else if c0 < 0xF8 then
        (let r = c0 mod 8 * 262144 + low 1 * 4096 + low 2 * 64 + low 3
         in if r \<le> 0xFFFF \<or> 0x10FFFF < r then err else (r, 4))
      else err)"

lemma decodeRune_width: "s \<noteq> [] \<Longrightarrow> 1 \<le> snd (decodeRune s)"
  by (simp add: decodeRune_def Let_def)

lemma decodeRune_ascii: "byte c < 0x80 \<Longrightarrow> decodeRune (c # s) = (byte c, 1)"
  by (simp add: decodeRune_def)

text \<open>\<open>utf8.EncodeRune\<close>.\<close>

definition encodeRune :: "nat \<Rightarrow> string" where
  "encodeRune r0 =
     (let r = (if 0x10FFFF < r0 \<or> surrogate r0 then RuneError else r0);
          tail = (\<lambda>x. char_of (128 + x mod 64)) in
      if r \<le> 0x7F then [char_of r]
      else if r \<le> 0x7FF then [char_of (192 + r div 64), tail r]
      else if r \<le> 0xFFFF then [char_of (224 + r div 4096), tail (r div 64), tail r]
      else [char_of (240 + r div 262144), tail (r div 4096), tail (r div 64), tail r])"

text \<open>\<open>for i, r := range s\<close>: the offsets and runes of a string.\<close>

function rangeRunes :: "nat \<Rightarrow> string \<Rightarrow> (nat \<times> nat) list" where
  "rangeRunes i s =
     (if s = [] then []
      else (i, fst (decodeRune s)) # rangeRunes (i + snd (decodeRune s)) (drop (snd (decodeRune s)) s))"
  by pat_completeness auto
termination
  by (relation "measure (length \<circ> snd)") (use decodeRune_width in \<open>auto simp: Suc_le_eq\<close>)

declare rangeRunes.simps [simp del]

section \<open>\<open>strings.ToLower\<close>\<close>

text \<open>
  \<open>strings.Map\<close> returns its argument as long as no rune changes; from the first rune that
  changes on it re-encodes every rune, which turns an invalid byte into U+FFFD.
\<close>

function mapRest :: "(nat \<Rightarrow> nat) \<Rightarrow> string \<Rightarrow> string" where
  "mapRest f s =
     (if s = [] then [] else encodeRune (f (fst (decodeRune s))) @ mapRest f (drop (snd (decodeRune s)) s))"
  by pat_completeness auto
termination
  by (relation "measure (length \<circ> snd)") (use decodeRune_width in \<open>auto simp: Suc_le_eq\<close>)

function ToLower :: "(nat \<Rightarrow> nat) \<Rightarrow> string \<Rightarrow> string" where
  "ToLower f s =
     (if s = [] then []
      else let (r, w) = decodeRune s in
        if f r = r then take w s @ ToLower f (drop w s)
        else encodeRune (f r) @ mapRest f (drop w s))"
  by pat_completeness auto
termination
proof (relation "measure (length \<circ> snd)", goal_cases)
  case (2 f s x r w)
  then have ne: "s \<noteq> []" and "w = snd (decodeRune s)" by (auto simp: prod_eq_iff)
  with decodeRune_width [OF ne] show ?case by simp
qed simp

declare mapRest.simps [simp del] ToLower.simps [simp del]

section \<open>Latin-1\<close>

definition latin1_lower :: "nat \<Rightarrow> nat" where
  "latin1_lower r =
     (if 65 \<le> r \<and> r \<le> 90 \<or> 192 \<le> r \<and> r \<le> 222 \<and> r \<noteq> 215 then r + 32 else r)"

definition lower_law :: "(nat \<Rightarrow> nat) \<Rightarrow> bool" where
  "lower_law f \<longleftrightarrow> (\<forall>r < 256. f r = latin1_lower r)"

lemma lower_lawD: "lower_law f \<Longrightarrow> r < 256 \<Longrightarrow> f r = latin1_lower r"
  by (simp add: lower_law_def)

lemma lower_law_latin1: "lower_law latin1_lower"
  by (simp add: lower_law_def)

definition ascii :: "string \<Rightarrow> bool" where
  "ascii s \<longleftrightarrow> (\<forall>c \<in> set s. byte c < 128)"

lemma ascii_simps [simp]:
  "ascii []" "ascii (c # s) \<longleftrightarrow> byte c < 128 \<and> ascii s" "ascii (s @ t) \<longleftrightarrow> ascii s \<and> ascii t"
  by (auto simp: ascii_def)

lemma ascii_drop: "ascii s \<Longrightarrow> ascii (drop n s)"
  by (auto simp: ascii_def dest: in_set_dropD)

lemma ascii_take: "ascii s \<Longrightarrow> ascii (take n s)"
  by (auto simp: ascii_def dest: in_set_takeD)

definition lower_byte :: "char \<Rightarrow> char" where
  "lower_byte c = char_of (latin1_lower (byte c))"

lemma latin1_lower_ascii: "r < 128 \<Longrightarrow> latin1_lower r < 128"
  by (simp add: latin1_lower_def)

lemma mapRest_ascii:
  assumes "lower_law f" "ascii s"
  shows "mapRest f s = map lower_byte s"
  using assms(2)
proof (induction s)
  case (Cons c s)
  then have "f (byte c) = latin1_lower (byte c)" using assms(1) byte_less by (simp add: lower_lawD)
  moreover have "encodeRune r = [char_of r]" if "r < 128" for r :: nat
    using that by (simp add: encodeRune_def surrogate_def)
  ultimately show ?case
    using Cons latin1_lower_ascii [of "byte c"]
    by (subst mapRest.simps) (simp add: decodeRune_ascii lower_byte_def)
qed (simp add: mapRest.simps)

text \<open>On ASCII strings \<open>strings.ToLower\<close> maps the bytes.\<close>

lemma ToLower_ascii:
  assumes "lower_law f" "ascii s"
  shows "ToLower f s = map lower_byte s"
  using assms(2)
proof (induction s)
  case (Cons c s)
  then have "f (byte c) = latin1_lower (byte c)" using assms(1) byte_less by (simp add: lower_lawD)
  moreover have "encodeRune r = [char_of r]" if "r < 128" for r :: nat
    using that by (simp add: encodeRune_def surrogate_def)
  moreover have "lower_byte c = c" if "latin1_lower (byte c) = byte c" using that by (simp add: lower_byte_def)
  ultimately show ?case
    using Cons latin1_lower_ascii [of "byte c"] mapRest_ascii [OF assms(1), of s]
    by (subst ToLower.simps) (simp add: decodeRune_ascii lower_byte_def)
qed (simp add: ToLower.simps)

end
