(* ===== verification/Router_CaseFold.thy ===== *)
theory Router_CaseFold
  imports Router_Properties Go_Strings
begin

text \<open>
  \<^verbatim>\<open>router/tree.go\<close>, \<open>findCaseInsensitivePath\<close>: the lookup that ignores case and may add or
  remove a trailing slash. \<open>unicode.ToLower\<close> is the parameter \<open>lower\<close>.
\<close>

section \<open>The code\<close>

text \<open>Lines 466--477: the children tried in turn; \<open>rs\<close> are their results.\<close>

fun first_found :: "string \<Rightarrow> bool \<Rightarrow> (panic + string \<times> bool) list \<Rightarrow> panic + string \<times> bool" where
  "first_found ci found [] = Inr (ci, found)"
| "first_found ci found (r # rs) =
     (case r of
        Inl e \<Rightarrow> Inl e
      | Inr (out, f) \<Rightarrow> if f then Inr (ci @ out, True) else first_found ci found rs)"

text \<open>The indices of the children whose index rune equals the byte up to case.\<close>

definition ciIndices :: "(nat \<Rightarrow> nat) \<Rightarrow> char \<Rightarrow> string \<Rightarrow> nat list" where
  "ciIndices lower c ind =
     map fst (filter (\<lambda>(i, r). lower (byte c) = lower r) (rangeRunes 0 ind))"

text \<open>Lines 506--516: the path ends with the value of a parameter.\<close>

definition ciParamEnd :: "'h node \<Rightarrow> string \<Rightarrow> bool \<Rightarrow> string \<times> bool" where
  "ciParamEnd w ci fts =
     (if n_handle (data w) \<noteq> None then (ci, True)
      else
        (case children w of
           [c] \<Rightarrow>
             if fts \<and> n_path (data c) = ''/'' \<and> n_handle (data c) \<noteq> None then (ci @ ''/'', True)
             else (ci, False)
         | _ \<Rightarrow> (ci, False)))"

text \<open>Lines 524--546: the path ends at this node.\<close>

definition ciLeaf :: "'h node \<Rightarrow> string \<Rightarrow> bool \<Rightarrow> panic + string \<times> bool" where
  "ciLeaf n ci fts =
     (if n_handle (data n) \<noteq> None then Inr (ci, True)
      else if fts then
        (case find_index slash (n_indices (data n)) of
           None \<Rightarrow> Inr (ci, False)
         | Some i \<Rightarrow>
             if length (children n) \<le> i then Inl IndexOutOfRange
             else
               let c = children n ! i; dc = data c in
               if length (n_path dc) = 1 \<and> n_handle dc \<noteq> None then Inr (ci @ ''/'', True)
               else if n_nType dc = NCatchAll then
                 (case children c of
                    [] \<Rightarrow> Inl IndexOutOfRange
                  | l # _ \<Rightarrow> if n_handle (data l) \<noteq> None then Inr (ci @ ''/'', True) else Inr (ci, False))
               else Inr (ci, False))
      else Inr (ci, False))"

text \<open>Lines 549--561: the path leaves the tree at this node.\<close>

definition ciMiss :: "(nat \<Rightarrow> nat) \<Rightarrow> 'h node_data \<Rightarrow> string \<Rightarrow> string \<Rightarrow> bool \<Rightarrow> string \<times> bool" where
  "ciMiss lower d path ci fts =
     (if \<not> fts then (ci, False)
      else if path = ''/'' then (ci, True)
      else if length path + 1 = length (n_path d) \<and> n_path d ! length path = slash \<and>
        ToLower lower path = ToLower lower (take (length path) (n_path d)) \<and> n_handle d \<noteq> None
        then (ci @ n_path d, True)
      else (ci, False))"

function ciWalk :: "(nat \<Rightarrow> nat) \<Rightarrow> 'h node \<Rightarrow> string \<Rightarrow> string \<Rightarrow> bool \<Rightarrow> panic + string \<times> bool" where
  "ciWalk lower n path0 ci0 fts =
     (let d = data n; cs = children n; l = length (n_path d) in
      if l \<le> length path0 \<and> ToLower lower (take l path0) = ToLower lower (n_path d) then
        let path = drop l path0; ci = ci0 @ n_path d in
        if path = [] then ciLeaf n ci fts
        else if \<not> n_wildChild d then
          first_found ci (fts \<and> path = ''/'' \<and> n_handle d \<noteq> None)
            (map (\<lambda>i. if i < length cs then ciWalk lower (cs ! i) path [] fts else Inl IndexOutOfRange)
               (ciIndices lower (hd path) (n_indices d)))
        else if cs = [] then Inl IndexOutOfRange
        else
          let w = hd cs in
          (case n_nType (data w) of
             NParam \<Rightarrow>
               let k = paramEnd path; ci' = ci @ take k path in
               if k < length path then
                 (if children w \<noteq> [] then ciWalk lower (hd (children w)) (drop k path) ci' fts
                  else Inr (ci', fts \<and> length path = k + 1))
               else Inr (ciParamEnd w ci' fts)
           | NCatchAll \<Rightarrow> Inr (ci @ path, True)
           | _ \<Rightarrow> Inl InvalidNodeType)
      else Inr (ciMiss lower d path0 ci0 fts))"
  by (pat_completeness) (elim Pair_inject, hypsubst, rule refl)
termination
proof (relation "measure (\<lambda>(lower, n, path, ci, fts). nsize n)", goal_cases)
  case (2 lower n)
  then show ?case using nsize_child [of _ "children n" "data n"] by simp
next
  case (3 lower n)
  then show ?case
    using nsize_child [of "hd (children n)" "children n" "data n"]
      nsize_child [of "hd (children (hd (children n)))" "children (hd (children n))" "data (hd (children n))"]
    by simp
qed simp

declare ciWalk.simps [simp del]

definition findCaseInsensitivePath :: "(nat \<Rightarrow> nat) \<Rightarrow> 'h node \<Rightarrow> string \<Rightarrow> bool \<Rightarrow> panic + string \<times> bool" where
  "findCaseInsensitivePath lower n path fixTrailingSlash = ciWalk lower n path [] fixTrailingSlash"

section \<open>The runes of an index string\<close>

lemma rangeRunes_mem:
  "(i, r) \<in> set (rangeRunes k s) \<Longrightarrow>
    k \<le> i \<and> i < k + length s \<and> (byte (s ! (i - k)) < 128 \<longrightarrow> r = byte (s ! (i - k)))"
proof (induction k s rule: rangeRunes.induct)
  case (1 k s)
  show ?case
  proof (cases s)
    case Nil
    with "1.prems" show ?thesis by (simp add: rangeRunes.simps)
  next
    case (Cons c s')
    let ?w = "snd (decodeRune s)"
    have w: "1 \<le> ?w" using Cons by (intro decodeRune_width) simp
    have "(i, r) = (k, fst (decodeRune s)) \<or> (i, r) \<in> set (rangeRunes (k + ?w) (drop ?w s))"
      using "1.prems" Cons by (subst (asm) rangeRunes.simps) simp
    then show ?thesis
    proof
      assume "(i, r) = (k, fst (decodeRune s))"
      then show ?thesis using Cons decodeRune_ascii [of c s'] by auto
    next
      assume m: "(i, r) \<in> set (rangeRunes (k + ?w) (drop ?w s))"
      with "1.IH" Cons have h: "k + ?w \<le> i" "i < k + ?w + length (drop ?w s)"
        "byte (drop ?w s ! (i - (k + ?w))) < 128 \<longrightarrow> r = byte (drop ?w s ! (i - (k + ?w)))" by auto
      have "?w \<le> length s" using h(1,2) by (cases "?w \<le> length s") simp_all
      then have "drop ?w s ! (i - (k + ?w)) = s ! (i - k)" using h(1) by simp
      with h w \<open>?w \<le> length s\<close> show ?thesis by auto
    qed
  qed
qed

lemma ciIndices_mem:
  "i \<in> set (ciIndices lower c ind) \<Longrightarrow>
    i < length ind \<and> (byte (ind ! i) < 128 \<longrightarrow> lower (byte c) = lower (byte (ind ! i)))"
  by (auto simp: ciIndices_def dest!: rangeRunes_mem)

text \<open>Only a slash equals a slash up to case.\<close>

lemma lower_slash:
  assumes "lower_law lower" "lower (byte c) = lower (byte slash)"
  shows "c = slash"
proof -
  have "latin1_lower (byte c) = latin1_lower (byte slash)"
    using assms by (simp add: lower_lawD)
  also have "\<dots> = 47" by (simp add: latin1_lower_def)
  finally have "byte c = 47" by (simp add: latin1_lower_def split: if_splits)
  then have "byte c = byte slash" by simp
  then show ?thesis by (simp only: byte_inject)
qed

section \<open>Correctness\<close>

fun ascii_tree :: "'h node \<Rightarrow> bool" where
  "ascii_tree (Node d cs) \<longleftrightarrow> ascii (n_path d) \<and> list_all ascii_tree cs"

lemma ascii_tree_routes:
  "live n \<Longrightarrow> \<forall>(p, h) \<in> set (routes n). ascii p \<Longrightarrow> ascii_tree n"
proof (induction n rule: ascii_tree.induct)
  case (1 d cs)
  obtain p h where "(p, h) \<in> set (routes (Node d cs))" using live_routes [OF "1.prems"(1)] by blast
  moreover from this obtain q where "p = n_path d @ q" by (auto simp: routes_iff)
  ultimately have "ascii (n_path d)" using "1.prems"(2) by fastforce
  moreover have "ascii_tree c" if c: "c \<in> set cs" for c
  proof (rule "1.IH" [OF c])
    show "live c" using "1.prems"(1) c by (simp add: list_all_iff)
    show "\<forall>(p, h) \<in> set (routes c). ascii p"
    proof clarify
      fix p h assume "(p, h) \<in> set (routes c)"
      then have "(n_path d @ p, h) \<in> set (routes (Node d cs))" using c by (auto simp: routes_iff below_def)
      then show "ascii p" using "1.prems"(2) by fastforce
    qed
  qed
  ultimately show ?case by (simp add: list_all_iff)
qed

text \<open>A result of the loop at \<open>n\<close> for \<open>path\<close>: no panic; and a path that is found without fixing
  slashes is matched below \<open>n\<close> and differs from \<open>path\<close> by case only.\<close>

definition ci_good :: "panic + string \<times> bool \<Rightarrow> 'h node \<Rightarrow> string \<Rightarrow> string \<Rightarrow> bool \<Rightarrow> bool" where
  "ci_good r n path ci fts \<longleftrightarrow> (\<exists>suf found. r = Inr (ci @ suf, found) \<and>
     (found \<and> \<not> fts \<longrightarrow> (\<exists>h ps. matches (set (routes n)) suf h ps) \<and>
       (ascii path \<and> ascii_tree n \<longrightarrow> map lower_byte suf = map lower_byte path)))"

lemma ci_goodI:
  "r = Inr (ci @ suf, found) \<Longrightarrow>
   (found \<Longrightarrow> \<not> fts \<Longrightarrow> (\<exists>h ps. matches (set (routes n)) suf h ps) \<and>
       (ascii path \<and> ascii_tree n \<longrightarrow> map lower_byte suf = map lower_byte path)) \<Longrightarrow>
   ci_good r n path ci fts"
  by (auto simp: ci_good_def)

lemma first_found_good:
  assumes "\<forall>r \<in> set rs. \<exists>out f. r = Inr (out, f)"
  obtains suf found where "first_found ci dflt rs = Inr (ci @ suf, found)"
    "found \<longrightarrow> dflt \<or> Inr (suf, True) \<in> set rs"
proof -
  have "\<exists>suf found. first_found ci dflt rs = Inr (ci @ suf, found) \<and> (found \<longrightarrow> dflt \<or> Inr (suf, True) \<in> set rs)"
    using assms
  proof (induction rs)
    case Nil
    show ?case by (rule exI [of _ "[]"]) simp
  next
    case (Cons r rs)
    then obtain out f where r: "r = Inr (out, f)" by auto
    show ?case
    proof (cases f)
      case True
      with r show ?thesis by (intro exI [of _ out] exI [of _ True]) simp
    next
      case False
      with Cons r show ?thesis by fastforce
    qed
  qed
  with that show thesis by blast
qed

lemma ciLeaf_good:
  assumes wf: "wf_node (Node d cs)" and st: "is_static d" and s: "ToLower lower s = ToLower lower (n_path d)"
    and law: "lower_law lower"
  shows "ci_good (ciLeaf (Node d cs) (ci @ n_path d) fts) (Node d cs) s ci fts"
proof (cases "n_handle d")
  case (Some h)
  have "matches (set (routes (Node d cs))) (n_path d) h []" using matches_static [OF wf st] Some by simp
  then show ?thesis using Some s ToLower_ascii [OF law]
    by (intro ci_goodI [of _ _ "n_path d" True]) (auto simp: ciLeaf_def)
next
  case None
  have "\<exists>suf found. ciLeaf (Node d cs) (ci @ n_path d) fts = Inr ((ci @ n_path d) @ suf, found) \<and> (found \<longrightarrow> fts)"
  proof (cases "fts \<and> find_index slash (n_indices d) \<noteq> None")
    case False
    then show ?thesis using None by (intro exI [of _ "[]"] exI [of _ False]) (auto simp: ciLeaf_def)
  next
    case True
    then obtain k where k: "find_index slash (n_indices d) = Some k" by auto
    have w: "wf_static d cs" "list_all wf_node cs" using wf st by (simp_all add: wf_node_iff)
    then have "\<not> n_wildChild d" using k by (auto simp: wf_static_def)
    then have ok: "list_all2 child_ok (n_indices d) cs" using w(1) by (simp add: wf_static_def)
    have kl: "k < length cs" using find_index_Some [OF k] ok by (auto dest: list_all2_lengthD)
    obtain dc cc where c: "cs ! k = Node dc cc" by (cases "cs ! k")
    have "child_ok (n_indices d ! k) (Node dc cc)" "wf_node (Node dc cc)"
      using ok w(2) kl c by (metis list_all2_nthD2 list_all_length)+
    then have "n_nType dc = NCatchAll \<Longrightarrow> cc \<noteq> []"
      using wf_inner [of dc cc] by (auto simp: child_ok_def is_static_def)
    with True None k kl c show ?thesis by (auto simp: ciLeaf_def Let_def split: list.split)
  qed
  then show ?thesis by (auto intro!: ci_goodI)
qed

lemma ciParamEnd_good:
  "\<exists>suf found. ciParamEnd w ci fts = (ci @ suf, found) \<and> (found \<and> \<not> fts \<longrightarrow> suf = [] \<and> n_handle (data w) \<noteq> None)"
  by (auto simp: ciParamEnd_def split: list.split)

lemma ciMiss_good:
  "\<exists>suf found. ciMiss lower d path ci fts = (ci @ suf, found) \<and> (found \<longrightarrow> fts)"
  by (auto simp: ciMiss_def)

text \<open>A match below a node that may stand under a slash starts with the slash.\<close>

lemma matches_start:
  assumes "wf_node c" "child_ok slash c" "matches (set (routes c)) s h ps"
  shows "s \<noteq> [] \<and> hd s = slash"
proof -
  from assms(3) obtain p where p: "(p, h) \<in> set (routes c)" "match_pat p s = Some ps" by (auto simp: matches_def)
  from routes_start [OF assms(1,2) p(1)] obtain p' where "p = slash # p'" by (cases p) auto
  with p(2) show ?thesis by (cases s) (auto split: if_splits)
qed

lemma lower_eq_append:
  assumes "lower_law lower" "ToLower lower (take (length a) s) = ToLower lower a" "ascii s" "ascii a"
  shows "map lower_byte (a @ q) = map lower_byte s \<longleftrightarrow> map lower_byte q = map lower_byte (drop (length a) s)"
proof -
  have "map lower_byte (take (length a) s) = map lower_byte a"
    using assms ToLower_ascii [OF assms(1)] by (simp add: ascii_take)
  moreover have "map lower_byte s = map lower_byte (take (length a) s) @ map lower_byte (drop (length a) s)"
    by (simp flip: map_append)
  ultimately show ?thesis by simp
qed

text \<open>One turn of the loop at a node with a parameter child.\<close>

lemma ciWalk_param:
  assumes "length (n_path d) \<le> length s" "ToLower lower (take (length (n_path d)) s) = ToLower lower (n_path d)"
    "drop (length (n_path d)) s = t" "t \<noteq> []" "n_wildChild d" "n_nType dw = NParam"
  shows "ciWalk lower (Node d [Node dw cw]) s ci fts =
    (if after_segment t \<noteq> [] then
       (if cw \<noteq> [] then ciWalk lower (hd cw) (after_segment t) (ci @ n_path d @ segment t) fts
        else Inr (ci @ n_path d @ segment t, fts \<and> length t = paramEnd t + 1))
     else Inr (ciParamEnd (Node dw cw) (ci @ n_path d @ segment t) fts))"
  using assms by (subst ciWalk.simps) (simp add: Let_def paramEnd_segment)

text \<open>The loop never panics, and what it finds without fixing slashes is a route up to case.\<close>

lemma ciWalk_good:
  fixes n :: "'h node"
  assumes "lower_law lower" "wf_node n" "visits (data n) s"
  shows "ci_good (ciWalk lower n s ci fts) n s ci fts"
  using assms(2,3)
proof (induction "nsize n" arbitrary: n s ci rule: less_induct)
  case less
  obtain d cs where n: "n = Node d cs" by (cases n)
  note wf = less.prems(1) [unfolded n]
  have sub: "ci_good (ciWalk lower c t ci' fts) c t ci' fts"
    if "nsize c < nsize n" "wf_node c" "visits (data c) t" for c :: "'h node" and t ci'
    by (rule less.hyps [OF that])
  let ?a = "n_path d" and ?t = "drop (length (n_path d)) s"
  show ?case
  proof (cases "length ?a \<le> length s \<and> ToLower lower (take (length ?a) s) = ToLower lower ?a")
    case False
    then have "ciWalk lower n s ci fts = Inr (ciMiss lower d s ci fts)"
      using n by (subst ciWalk.simps) (auto simp: Let_def)
    then show ?thesis using ciMiss_good [of lower d s ci fts] by (auto intro!: ci_goodI)
  next
    case pre: True
    from less.prems(2) n consider (st) "is_static d"
      | (inner) "n_nType d = NCatchAll" "n_wildChild d" "s \<noteq> []" "hd s = slash"
      by (auto simp: visits_def)
    then show ?thesis
    proof cases
      case inner
      from wf_inner [OF wf inner(1,2)] obtain l name h where l: "cs = [Node l []]" "n_path d = []"
        "n_nType l = NCatchAll" "n_path l = slash # star # name" "n_handle l = Some h" by blast
      have "ciWalk lower n s ci fts = Inr (ci @ s, True)"
        using n l inner pre by (subst ciWalk.simps) (simp add: Let_def)
      moreover have "\<exists>h ps. matches (set (routes n)) s h ps"
        using matches_inner [of d l "[]" s] wf n l inner by auto
      ultimately show ?thesis by (auto intro: ci_goodI)
    next
      case st
      have w: "wf_static d cs" "list_all wf_node cs" using wf st by (simp_all add: wf_node_iff)
      note ms = matches_static [OF wf st]
      show ?thesis
      proof (cases "?t = []")
        case True
        then have "take (length ?a) s = s" by simp
        then have "ToLower lower s = ToLower lower ?a" using pre by simp
        moreover have "ciWalk lower n s ci fts = ciLeaf n (ci @ ?a) fts"
          using pre True n by (subst ciWalk.simps) (simp add: Let_def)
        ultimately show ?thesis using ciLeaf_good [OF wf st _ assms(1)] n by simp
      next
        case t: False
        have result: "ci_good (Inr (ci @ ?a @ q, found)) n s ci fts"
          if "found \<Longrightarrow> \<not> fts \<Longrightarrow> q \<noteq> [] \<and> (\<exists>h ps. matches (below cs) q h ps) \<and>
            (ascii ?t \<and> ascii_tree n \<longrightarrow> map lower_byte q = map lower_byte ?t)" for q found
        proof (rule ci_goodI [of _ _ "?a @ q" found], simp, intro conjI impI)
          assume f: found "\<not> fts"
          from that [OF f] obtain h ps where "q \<noteq> []" "matches (below cs) q h ps" by blast
          then have "matches (set (routes n)) (?a @ q) h ps" using n ms [of "?a @ q"] by simp
          then show "\<exists>h ps. matches (set (routes n)) (?a @ q) h ps" by blast
          assume a: "ascii s \<and> ascii_tree n"
          then show "map lower_byte (?a @ q) = map lower_byte s"
            using that [OF f] lower_eq_append [OF assms(1), of ?a s q] pre n by (simp add: ascii_drop)
        qed
        show ?thesis
        proof (cases "n_wildChild d")
          case False
          let ?go = "\<lambda>i. if i < length cs then ciWalk lower (cs ! i) ?t [] fts else Inl IndexOutOfRange"
          let ?is = "ciIndices lower (hd ?t) (n_indices d)"
          have ok: "list_all2 child_ok (n_indices d) cs" using w(1) False by (simp add: wf_static_def)
          have good: "i < length cs \<and> ci_good (ciWalk lower (cs ! i) ?t [] fts) (cs ! i) ?t [] fts" if i: "i \<in> set ?is" for i
          proof -
            have i': "i < length cs" "byte (n_indices d ! i) < 128 \<longrightarrow> lower (byte (hd ?t)) = lower (byte (n_indices d ! i))"
              using ciIndices_mem [OF i] ok by (auto dest: list_all2_lengthD)
            have c: "child_ok (n_indices d ! i) (cs ! i)" "wf_node (cs ! i)" "nsize (cs ! i) < nsize n"
              using ok w(2) i'(1) n nsize_child [of "cs ! i" cs d]
              by (auto simp: list_all2_conv_all_nth list_all_length simp del: nsize.simps)
            have "n_indices d ! i = slash \<Longrightarrow> hd ?t = slash" using i'(2) lower_slash [OF assms(1)] by simp
            then have "visits (data (cs ! i)) ?t"
              using child_ok_static_or_inner [OF c(1)] t by (auto simp: visits_def)
            then show ?thesis using sub [OF c(3,2)] i'(1) by simp
          qed
          then have all: "\<forall>r \<in> set (map ?go ?is). \<exists>out f. r = Inr (out, f)" by (fastforce simp: ci_good_def)
          obtain q found where q: "first_found (ci @ ?a) (fts \<and> ?t = ''/'' \<and> n_handle d \<noteq> None) (map ?go ?is) =
              Inr ((ci @ ?a) @ q, found)"
            "found \<longrightarrow> (fts \<and> ?t = ''/'' \<and> n_handle d \<noteq> None) \<or> Inr (q, True) \<in> set (map ?go ?is)"
            by (rule first_found_good [OF all, of "ci @ ?a" "fts \<and> ?t = ''/'' \<and> n_handle d \<noteq> None"])
          have "ciWalk lower n s ci fts = Inr (ci @ ?a @ q, found)"
            using q(1) pre t False n by (subst ciWalk.simps) (simp add: Let_def)
          moreover have "q \<noteq> [] \<and> (\<exists>h ps. matches (below cs) q h ps) \<and>
            (ascii ?t \<and> ascii_tree n \<longrightarrow> map lower_byte q = map lower_byte ?t)" if "found" "\<not> fts"
          proof -
            from q(2) that obtain i where i: "i \<in> set ?is" "?go i = Inr (q, True)" by auto
            from good [OF i(1)] i(2) that(2) obtain h ps where g: "i < length cs"
              "matches (set (routes (cs ! i))) q h ps"
              "ascii ?t \<and> ascii_tree (cs ! i) \<longrightarrow> map lower_byte q = map lower_byte ?t"
              by (auto simp: ci_good_def)
            have m: "matches (below cs) q h ps" using g(1,2) by (auto simp: matches_below)
            have "q \<noteq> []"
              using m below_static [OF wf st] by (fastforce simp: matches_def)
            moreover have "ascii_tree n \<longrightarrow> ascii_tree (cs ! i)" using n g(1) by (simp add: list_all_length)
            ultimately show ?thesis using m g(3) by blast
          qed
          ultimately show ?thesis using result by simp
        next
          case True
          obtain wn where "cs = [wn]" using w(1) True by (auto simp: wf_static_def length_Suc_conv)
          moreover obtain dw cw where "wn = Node dw cw" by (cases wn)
          ultimately have cs: "cs = [Node dw cw]" by simp
          have ty: "n_nType dw = NParam" using w(1) True cs by (simp add: wf_static_def)
          have wfw: "wf_node (Node dw cw)" using w(2) cs by simp
          note mp = matches_param [OF wfw ty]
          have walk: "ciWalk lower n s ci fts =
            (if after_segment ?t \<noteq> [] then
               (if cw \<noteq> [] then ciWalk lower (hd cw) (after_segment ?t) (ci @ ?a @ segment ?t) fts
                else Inr (ci @ ?a @ segment ?t, fts \<and> length ?t = paramEnd ?t + 1))
             else Inr (ciParamEnd (Node dw cw) (ci @ ?a @ segment ?t) fts))"
            unfolding n cs using pre by (intro ciWalk_param [OF _ _ refl t True ty]) simp_all
          show ?thesis
          proof (cases "after_segment ?t = []")
            case True
            then have seg: "segment ?t = ?t" using segment_append [of ?t] by simp
            from ciParamEnd_good [of "Node dw cw" "ci @ ?a @ segment ?t" fts] obtain q found where q:
              "ciParamEnd (Node dw cw) (ci @ ?a @ segment ?t) fts = ((ci @ ?a @ segment ?t) @ q, found)"
              "found \<and> \<not> fts \<longrightarrow> q = [] \<and> n_handle dw \<noteq> None" by auto
            have "ci_good (Inr (ci @ ?a @ ?t @ q, found)) n s ci fts"
            proof (rule result)
              assume f: found "\<not> fts"
              then obtain h where "q = []" "n_handle dw = Some h" using q(2) by auto
              then show "?t @ q \<noteq> [] \<and> (\<exists>h ps. matches (below cs) (?t @ q) h ps) \<and>
                  (ascii ?t \<and> ascii_tree n \<longrightarrow> map lower_byte (?t @ q) = map lower_byte ?t)"
                using mp [OF t] True t cs by simp
            qed
            then show ?thesis using walk True q(1) seg by simp
          next
            case False
            show ?thesis
            proof (cases cw)
              case Nil
              have "ci_good (Inr (ci @ ?a @ segment ?t, fts \<and> length ?t = paramEnd ?t + 1)) n s ci fts"
                by (rule result) simp
              then show ?thesis using walk False Nil by simp
            next
              case (Cons c cw')
              then have wp: "cw = [c]" "child_ok slash c" "wf_node c"
                using wfw ty by (auto simp: wf_node_iff wf_param_def)
              have v: "visits (data c) (after_segment ?t)"
                using child_ok_static_or_inner [OF wp(2)] False after_segment_cases [of ?t]
                by (auto simp: visits_def)
              have "nsize c < nsize n" using n cs wp(1) by simp
              from sub [OF this wp(3) v, of "ci @ ?a @ segment ?t"] obtain q found where q:
                "ciWalk lower c (after_segment ?t) (ci @ ?a @ segment ?t) fts = Inr ((ci @ ?a @ segment ?t) @ q, found)"
                "found \<and> \<not> fts \<longrightarrow> (\<exists>h ps. matches (set (routes c)) q h ps) \<and>
                  (ascii (after_segment ?t) \<and> ascii_tree c \<longrightarrow> map lower_byte q = map lower_byte (after_segment ?t))"
                by (auto simp: ci_good_def)
              have "ci_good (Inr (ci @ ?a @ segment ?t @ q, found)) n s ci fts"
              proof (rule result)
                assume f: found "\<not> fts"
                with q(2) obtain h ps where m: "matches (set (routes c)) q h ps" by blast
                from matches_start [OF wp(3,2) m] have s: "q \<noteq> []" "hd q = slash" by simp_all
                then have seg: "after_segment (segment ?t @ q) = q" "segment (segment ?t @ q) = segment ?t"
                  using segment_unique [of "segment ?t" q] segment_no_slash by simp_all
                have "\<exists>ps. matches (set (routes (Node dw cw))) (segment ?t @ q) h ps"
                  using mp [of "segment ?t @ q" h] s(1) seg m wp(1) by auto
                moreover have "map lower_byte (segment ?t @ q) = map lower_byte ?t" if a: "ascii ?t \<and> ascii_tree n"
                proof -
                  have "ascii (segment ?t @ after_segment ?t)" using a by (simp only: segment_append)
                  then have "map lower_byte q = map lower_byte (after_segment ?t)"
                    using q(2) f a n cs wp(1) by simp
                  then show ?thesis using segment_append [of ?t] by (metis map_append)
                qed
                ultimately show "segment ?t @ q \<noteq> [] \<and> (\<exists>h ps. matches (below cs) (segment ?t @ q) h ps) \<and>
                    (ascii ?t \<and> ascii_tree n \<longrightarrow> map lower_byte (segment ?t @ q) = map lower_byte ?t)"
                  using s(1) cs by auto
              qed
              then show ?thesis using walk False wp(1) q(1) by simp
            qed
          qed
        qed
      qed
    qed
  qed
qed

lemma findCaseInsensitivePath_good:
  assumes "lower_law lower" "tree_ok n"
  shows "ci_good (findCaseInsensitivePath lower n s fts) n s [] fts"
  unfolding findCaseInsensitivePath_def
  using assms by (intro ciWalk_good) (auto simp: tree_ok_def visits_def)

section \<open>Properties\<close>

text \<open>The rules that run the tree's code on concrete routes and paths.\<close>

lemmas run_addRoute = addRoute_def incPriority_def new_node_def insertChild_def insertLoop.simps
  countParams_def is_wild_def addRoute_walk.simps walkHead_def splitEdge_def splitChild_def
  appendChild_def incrementChildPrio_def Let_def

lemmas run_ci = findCaseInsensitivePath_def ciWalk.simps ciLeaf_def ToLower_ascii [OF lower_law_latin1]
  lower_byte_def latin1_lower_def char_of_def ciIndices_def rangeRunes.simps decodeRune_ascii ciMiss_def

text \<open>C7: the case-insensitive lookup never panics on a tree that holds any routes, whatever
  the path, with and without the correction of trailing slashes.\<close>

theorem findCaseInsensitivePath_total:
  assumes "lower_law lower" "tree_ok n"
  shows "\<exists>ciPath found. findCaseInsensitivePath lower n path fixTrailingSlash = Inr (ciPath, found)"
  using findCaseInsensitivePath_good [OF assms, of path fixTrailingSlash] by (auto simp: ci_good_def)

theorem findCaseInsensitivePath_total_witness:
  "\<exists>ciPath found. findCaseInsensitivePath latin1_lower (new_node :: bool node) ''/x'' True = Inr (ciPath, found)"
  by (rule findCaseInsensitivePath_total [OF lower_law_latin1 tree_ok_new])

text \<open>C8: without the correction of trailing slashes, a path the case-insensitive lookup finds is
  matched by a registered route; and when the path and the routes are ASCII it differs from
  the path that was looked up by case only.\<close>

theorem findCaseInsensitivePath_sound:
  assumes "lower_law lower" "tree_ok n" "live n"
    and "findCaseInsensitivePath lower n path False = Inr (ciPath, True)"
  shows "(\<exists>pat h ps. (pat, h) \<in> set (routes n) \<and> match_pat pat ciPath = Some ps) \<and>
    (ascii path \<and> (\<forall>(pat, h) \<in> set (routes n). ascii pat) \<longrightarrow> map lower_byte ciPath = map lower_byte path)"
  using findCaseInsensitivePath_good [OF assms(1,2), of path False] assms(3,4) ascii_tree_routes
  by (auto simp: ci_good_def matches_def)

theorem findCaseInsensitivePath_sound_witness:
  "\<exists>n :: bool node. findCaseInsensitivePath latin1_lower n ''/aB'' False = Inr (''/Ab'', True) \<and>
    map lower_byte ''/Ab'' = map lower_byte ''/aB''"
proof -
  let ?n = "Node (zero_data\<lparr>n_nType := NRoot, n_path := ''/Ab'', n_handle := Some True, n_priority := 1\<rparr>) []"
  have ok: "tree_ok ?n" "live ?n"
    by (auto simp: tree_ok_def wf_node_iff is_static_def wf_static_def is_wild_node_def is_wild_def routes.simps)
  have run: "findCaseInsensitivePath latin1_lower ?n ''/aB'' False = Inr (''/Ab'', True)"
    by (simp add: run_ci)
  have "\<forall>(pat, h) \<in> set (routes ?n). ascii pat" by (simp add: routes.simps)
  moreover have "ascii ''/aB''" by simp
  ultimately show ?thesis
    using findCaseInsensitivePath_sound [OF lower_law_latin1 ok run] run by blast
qed

text \<open>With the correction of trailing slashes the lookup reports paths that no route matches:
  \<open>/a\<close> is found for \<open>/A/\<close> among the routes \<open>/a/x\<close> and \<open>/ab\<close>, because the last test of the
  function accepts a remaining slash without asking for a handle above it.\<close>

theorem findCaseInsensitivePath_unmatched:
  "\<exists>t. addRoutes new_node [(''/a/x'', True), (''/ab'', False)] = Done t \<and>
     findCaseInsensitivePath latin1_lower t ''/A/'' True = Inr (''/a'', True) \<and>
     getValue t ''/a'' = Return None None False"
  by (simp add: run_addRoute) (simp add: run_ci getValue_def getValue_walk.simps getValue_leaf_def)


end
