(* ===== verification/Router.thy ===== *)
theory Router
  imports Router_CaseFold Clean_Path
begin

text \<open>
  \<^verbatim>\<open>router/router.go\<close> and \<^verbatim>\<open>router/handler.go\<close>: the \<open>Router\<close>, its registration and its dispatch.

  Handlers and panic handlers are application code. \<open>impl\<close> and \<open>pimpl\<close> are what they do: from
  the context they are given to the context they leave (they share it with the router through
  a pointer) and either a result or a panic. The calls of handlers are recorded in a trace.
\<close>

section \<open>Handlers and contexts\<close>

type_synonym error = string

text \<open>
  \<open>UrlContext\<close>. The router never looks at \<open>Context\<close>, \<open>Channel\<close> and \<open>Requests\<close>; they are one
  value \<open>u_conn\<close>.
\<close>

record 'c UrlContext =
  u_Path :: string
  u_Params :: Params
  u_Values :: "string \<rightharpoonup> string list"
  u_conn :: 'c

text \<open>
  How a call ends: it returns, or it panics with a value; \<^term>\<open>Panics None\<close> is \<open>panic(nil)\<close>, which
  \<open>recover\<close> cannot tell from no panic.
\<close>

datatype 'a call = Returns 'a | Panics "panic option"

type_synonym 'c HandlerFunc = "'c UrlContext \<Rightarrow> 'c UrlContext \<times> error option call"

text \<open>A \<open>Handler\<close>: the \<open>basicHandler\<close> of the package around a function, or one of the application.\<close>

datatype ('h, 'c) Handler =
    basicHandler "'c HandlerFunc"
  | AppHandler 'h

fun callHandler :: "('h \<Rightarrow> 'c HandlerFunc) \<Rightarrow> ('h, 'c) Handler \<Rightarrow> 'c HandlerFunc" where
  "callHandler impl (basicHandler hf) c = hf c"
| "callHandler impl (AppHandler h) c = impl h c"

datatype ('h, 'p, 'c) event =
    HandlerCalled "('h, 'c) Handler" "'c UrlContext"
  | NotFoundCalled "('h, 'c) Handler" "'c UrlContext"
  | PanicHandled 'p "'c UrlContext" panic

section \<open>The router\<close>

record ('h, 'p, 'c) Router =
  root :: "('h, 'c) Handler node"
  PanicHandler :: "'p option"
  NotFound :: "('h, 'c) Handler option"

definition ErrUnknownChannel :: error where
  "ErrUnknownChannel = ''Unknown channel type''"

definition New :: "'p option \<Rightarrow> ('h, 'c) Handler option \<Rightarrow> ('h, 'p, 'c) Router" where
  "New panicHandler notFound = \<lparr>root = new_node, PanicHandler = panicHandler, NotFound = notFound\<rparr>"

text \<open>A registration that panics leaves the tree as \<open>addRoute\<close> leaves it.\<close>

definition Register :: "('h, 'p, 'c) Router \<Rightarrow> string \<Rightarrow> ('h, 'c) Handler \<Rightarrow>
    ('h, 'p, 'c) Router \<times> unit call" where
  "Register r path handle =
     (case addRoute (root r) path (Some handle) of
        Done t \<Rightarrow> (r\<lparr>root := t\<rparr>, Returns ())
      | Panic e t \<Rightarrow> (r\<lparr>root := t\<rparr>, Panics (Some e)))"

definition RegisterFunc :: "('h, 'p, 'c) Router \<Rightarrow> string \<Rightarrow> 'c HandlerFunc \<Rightarrow>
    ('h, 'p, 'c) Router \<times> unit call" where
  "RegisterFunc r path hf = Register r path (basicHandler hf)"

definition HasRoute :: "('h, 'p, 'c) Router \<Rightarrow> string \<Rightarrow> bool call" where
  "HasRoute r path =
     (case getValue (root r) path of
        Return handler p tsr \<Rightarrow> Returns (handler \<noteq> None)
      | LookupPanic e \<Rightarrow> Panics (Some e))"

definition GetRoute :: "('h, 'p, 'c) Router \<Rightarrow> string \<Rightarrow>
    (('h, 'c) Handler \<times> Params) option call" where
  "GetRoute r path =
     (case getValue (root r) path of
        Return handler p tsr \<Rightarrow>
          Returns (case handler of None \<Rightarrow> None | Some h \<Rightarrow> Some (h, contents p))
      | LookupPanic e \<Rightarrow> Panics (Some e))"

text \<open>\<open>callRoute\<close>: the trace, the context, and the error and the flag it returns.\<close>

definition callRoute :: "('h \<Rightarrow> 'c HandlerFunc) \<Rightarrow> ('h, 'p, 'c) Router \<Rightarrow> 'c UrlContext \<Rightarrow>
    ('h, 'p, 'c) event list \<times> 'c UrlContext \<times> (error option \<times> bool) call" where
  "callRoute impl r c =
     (case GetRoute r (u_Path c) of
        Panics v \<Rightarrow> ([], c, Panics v)
      | Returns None \<Rightarrow> ([], c, Returns (None, False))
      | Returns (Some (h, params)) \<Rightarrow>
          let c1 = c\<lparr>u_Params := params\<rparr> in
          (case callHandler impl h c1 of
             (c2, Returns e) \<Rightarrow> ([HandlerCalled h c1], c2, Returns (e, True))
           | (c2, Panics v) \<Rightarrow> ([HandlerCalled h c1], c2, Panics v)))"

text \<open>Lines 79--85: nothing handles the path.\<close>

definition unknownPath :: "('h \<Rightarrow> 'c HandlerFunc) \<Rightarrow> ('h, 'p, 'c) Router \<Rightarrow> 'c UrlContext \<Rightarrow>
    ('h, 'p, 'c) event list \<times> 'c UrlContext \<times> error option call" where
  "unknownPath impl r c =
     (case NotFound r of
        None \<Rightarrow> ([], c, Returns (Some ErrUnknownChannel))
      | Some h \<Rightarrow>
          (case callHandler impl h c of
             (c2, Returns e) \<Rightarrow> ([NotFoundCalled h c], c2, Returns None)
           | (c2, Panics v) \<Rightarrow> ([NotFoundCalled h c], c2, Panics v)))"

text \<open>Lines 66--77: the path is cleaned and looked up again without regard to case.\<close>

definition fixPath :: "(nat \<Rightarrow> nat) \<Rightarrow> ('h, 'p, 'c) Router \<Rightarrow> string \<Rightarrow> string option call" where
  "fixPath lower r path =
     (case CleanPath path of
        Inl e \<Rightarrow> Panics (Some e)
      | Inr p \<Rightarrow>
          (case findCaseInsensitivePath lower (root r) p True of
             Inl e \<Rightarrow> Panics (Some e)
           | Inr (fixedPath, found) \<Rightarrow> Returns (if found then Some fixedPath else None)))"

definition handleBody :: "(nat \<Rightarrow> nat) \<Rightarrow> ('h \<Rightarrow> 'c HandlerFunc) \<Rightarrow> ('h, 'p, 'c) Router \<Rightarrow>
    'c UrlContext \<Rightarrow> ('h, 'p, 'c) event list \<times> 'c UrlContext \<times> error option call" where
  "handleBody lower impl r c =
     (case callRoute impl r c of
        (tr, c1, Panics v) \<Rightarrow> (tr, c1, Panics v)
      | (tr, c1, Returns (e, True)) \<Rightarrow> (tr, c1, Returns e)
      | (tr, c1, Returns (e, False)) \<Rightarrow>
          if u_Path c1 = ''/'' then unknownPath impl r c1
          else
            (case fixPath lower r (u_Path c1) of
               Panics v \<Rightarrow> ([], c1, Panics v)
             | Returns None \<Rightarrow> unknownPath impl r c1
             | Returns (Some p) \<Rightarrow>
                 (case callRoute impl r (c1\<lparr>u_Path := p\<rparr>) of
                    (tr, c2, Panics v) \<Rightarrow> (tr, c2, Panics v)
                  | (tr, c2, Returns (e, True)) \<Rightarrow> (tr, c2, Returns e)
                  | (tr, c2, Returns (e, False)) \<Rightarrow> unknownPath impl r c2)))"

text \<open>
  \<open>Handle\<close> with its deferred \<open>recv\<close>: a panic of the body is recovered when there is a panic
  handler, and then the unnamed result is its zero value, no error.
\<close>

definition Handle :: "(nat \<Rightarrow> nat) \<Rightarrow> ('h \<Rightarrow> 'c HandlerFunc) \<Rightarrow>
    ('p \<Rightarrow> 'c UrlContext \<Rightarrow> panic \<Rightarrow> 'c UrlContext \<times> unit call) \<Rightarrow> ('h, 'p, 'c) Router \<Rightarrow>
    'c UrlContext \<Rightarrow> ('h, 'p, 'c) event list \<times> 'c UrlContext \<times> error option call" where
  "Handle lower impl pimpl r c =
     (case handleBody lower impl r c of
        (tr, c1, Returns e) \<Rightarrow> (tr, c1, Returns e)
      | (tr, c1, Panics v) \<Rightarrow>
          (case PanicHandler r of
             None \<Rightarrow> (tr, c1, Panics v)
           | Some ph \<Rightarrow>
               (case v of
                  None \<Rightarrow> (tr, c1, Returns None)
                | Some rcv \<Rightarrow>
                    (case pimpl ph c1 rcv of
                       (c2, Returns _) \<Rightarrow> (tr @ [PanicHandled ph c1 rcv], c2, Returns None)
                     | (c2, Panics v') \<Rightarrow> (tr @ [PanicHandled ph c1 rcv], c2, Panics v')))))"

section \<open>Lookups\<close>

lemma GetRoute_find: "tree_ok (root r) \<Longrightarrow> GetRoute r path = Returns (tree_find (root r) path)"
  by (rule getValue_find [of "root r" path]) (auto simp: GetRoute_def tree_find_def split: option.split)

lemma HasRoute_find: "tree_ok (root r) \<Longrightarrow> HasRoute r path = Returns (tree_find (root r) path \<noteq> None)"
  by (rule getValue_find [of "root r" path]) (auto simp: HasRoute_def tree_find_def split: option.split)

lemma find_None_iff:
  assumes "tree_ok t"
  shows "tree_find t s = None \<longleftrightarrow> \<not> (\<exists>pat h ps. (pat, h) \<in> set (routes t) \<and> match_pat pat s = Some ps)"
proof -
  have "tree_find t s \<noteq> None \<longleftrightarrow> (\<exists>h ps. tree_find t s = Some (h, ps))" by auto
  also have "\<dots> \<longleftrightarrow> (\<exists>pat h ps. (pat, h) \<in> set (routes t) \<and> match_pat pat s = Some ps)"
    using tree.find_matches [OF assms] by (auto simp: matches_def)
  finally show ?thesis by blast
qed

lemma callRoute_find:
  assumes "tree_ok (root r)"
  shows "callRoute impl r c =
    (case tree_find (root r) (u_Path c) of
       None \<Rightarrow> ([], c, Returns (None, False))
     | Some (h, ps) \<Rightarrow>
         (case callHandler impl h (c\<lparr>u_Params := ps\<rparr>) of
            (c2, Returns e) \<Rightarrow> ([HandlerCalled h (c\<lparr>u_Params := ps\<rparr>)], c2, Returns (e, True))
          | (c2, Panics v) \<Rightarrow> ([HandlerCalled h (c\<lparr>u_Params := ps\<rparr>)], c2, Panics v)))"
  using GetRoute_find [OF assms] by (simp add: callRoute_def Let_def split: option.split)

lemma fixPath_total:
  assumes "tree_ok (root r)" "lower_law lower"
  shows "\<exists>p. fixPath lower r path = Returns p"
  using findCaseInsensitivePath_good [OF assms(2,1), of "clean_spec path" True]
  by (auto simp: fixPath_def CleanPath_spec ci_good_def)

text \<open>A registered path: the body runs its handler and nothing else.\<close>

lemma handleBody_found:
  assumes "tree_ok (root r)" "tree_find (root r) (u_Path c) = Some (h, ps)"
  shows "handleBody lower impl r c =
    (case callHandler impl h (c\<lparr>u_Params := ps\<rparr>) of (c2, res) \<Rightarrow> ([HandlerCalled h (c\<lparr>u_Params := ps\<rparr>)], c2, res))"
  using assms(2) callRoute_find [OF assms(1), of impl c]
  by (auto simp: handleBody_def split: prod.split call.split)

text \<open>A path that is not registered: the body looks up the fixed path, if there is one.\<close>

lemma handleBody_missing:
  assumes "tree_ok (root r)" "tree_find (root r) (u_Path c) = None"
  shows "handleBody lower impl r c =
    (if u_Path c = ''/'' then unknownPath impl r c
     else
       (case fixPath lower r (u_Path c) of
          Panics v \<Rightarrow> ([], c, Panics v)
        | Returns None \<Rightarrow> unknownPath impl r c
        | Returns (Some p) \<Rightarrow>
            (case tree_find (root r) p of
               None \<Rightarrow> unknownPath impl r (c\<lparr>u_Path := p\<rparr>)
             | Some (h, ps) \<Rightarrow>
                 (case callHandler impl h (c\<lparr>u_Path := p, u_Params := ps\<rparr>) of
                    (c2, res) \<Rightarrow> ([HandlerCalled h (c\<lparr>u_Path := p, u_Params := ps\<rparr>)], c2, res)))))"
  using assms(2) callRoute_find [OF assms(1), of impl]
  by (auto simp: handleBody_def split: prod.split call.split option.split)

text \<open>What runs at most: one handler, or the handler for unknown paths.\<close>

lemma handleBody_trace:
  assumes "tree_ok (root r)" "lower_law lower" "handleBody lower impl r c = (tr, c', res)"
  shows "(\<exists>h d. tr = [HandlerCalled h d] \<and> (d, h) \<in> {(d, h). \<exists>pat. (pat, h) \<in> set (routes (root r)) \<and>
      match_pat pat (u_Path d) = Some (u_Params d)} \<and> callHandler impl h d = (c', res)) \<or>
    (\<exists>h d. NotFound r = Some h \<and> tr = [NotFoundCalled h d]) \<or>
    NotFound r = None \<and> tr = [] \<and> res = Returns (Some ErrUnknownChannel)"
proof -
  have unknown: "(\<exists>h d. NotFound r = Some h \<and> tr = [NotFoundCalled h d]) \<or>
      NotFound r = None \<and> tr = [] \<and> res = Returns (Some ErrUnknownChannel)"
    if "unknownPath impl r d = (tr, c', res)" for d
    using that by (auto simp: unknownPath_def split: option.splits prod.splits call.splits)
  have found: "\<exists>pat. (pat, h) \<in> set (routes (root r)) \<and> match_pat pat s = Some ps"
    if "tree_find (root r) s = Some (h, ps)" for s h ps
    using that tree.find_matches [OF assms(1)] by (auto simp: matches_def)
  show ?thesis
  proof (cases "tree_find (root r) (u_Path c)")
    case (Some x)
    obtain h ps where x: "x = (h, ps)" by (cases x)
    then show ?thesis
      using assms(3) handleBody_found [OF assms(1), of c h ps lower impl] Some found [of "u_Path c" h ps]
      by (auto split: prod.splits)
  next
    case None
    obtain p where p: "fixPath lower r (u_Path c) = Returns p" using fixPath_total [OF assms(1,2)] by blast
    note b = handleBody_missing [OF assms(1) None, of lower impl]
    show ?thesis
    proof (cases "u_Path c \<noteq> ''/'' \<and> (\<exists>q x. p = Some q \<and> tree_find (root r) q = Some x)")
      case True
      then obtain q h ps where q: "p = Some q" "tree_find (root r) q = Some (h, ps)" by auto
      then show ?thesis using assms(3) b p True found [OF q(2)] by (auto split: prod.splits)
    next
      case False
      then have "\<exists>d. handleBody lower impl r c = unknownPath impl r d"
        using b p by (auto split: option.splits)
      then show ?thesis using unknown assms(3) by auto
    qed
  qed
qed

lemma Handle_returns:
  assumes "handleBody lower impl r c = (tr, c', Returns e)"
  shows "Handle lower impl pimpl r c = (tr, c', Returns e)"
  using assms by (simp add: Handle_def)


section \<open>Properties\<close>

text \<open>A router with one route, for the witnesses.\<close>

lemma one_route:
  assumes "good_pat p" "valid_pat p"
  obtains r :: "('h, 'p, 'c) Router" where "Register (New ph nf) p h = (r, Returns ())" "tree_ok (root r)"
    "set (routes (root r)) = {(p, h)}" "PanicHandler r = ph" "NotFound r = nf"
  using addRoute_decides [OF tree_ok_new assms(1), of h] assms(2)
  by (auto simp: Register_def New_def routes_new)

text \<open>C9: a registered route is dispatched to. When a route matches the path of the context, \<open>Handle\<close>
  calls its handler once, with the parameters of the match, calls nothing else, and returns
  the error the handler returns.\<close>

theorem Handle_registered:
  assumes "tree_ok (root r)" "(pat, h) \<in> set (routes (root r))" "match_pat pat (u_Path c) = Some ps"
    and "callHandler impl h (c\<lparr>u_Params := ps\<rparr>) = (c', Returns e)"
  shows "Handle lower impl pimpl r c = ([HandlerCalled h (c\<lparr>u_Params := ps\<rparr>)], c', Returns e)"
proof -
  have "tree_find (root r) (u_Path c) = Some (h, ps)"
    using assms(2,3) tree.find_matches [OF assms(1)] by (auto simp: matches_def)
  then show ?thesis using handleBody_found [OF assms(1)] assms(4) by (intro Handle_returns) simp
qed

theorem Handle_registered_witness:
  "\<exists>r :: (unit, unit, nat) Router. \<exists>h. Handle latin1_lower (\<lambda>_ c. (c, Returns None)) (\<lambda>_ c _. (c, Returns ())) r
      \<lparr>u_Path = ''/a/x'', u_Params = [], u_Values = Map.empty, u_conn = 7\<rparr> =
    ([HandlerCalled h \<lparr>u_Path = ''/a/x'', u_Params = [\<lparr>Key = ''b'', Value = ''x''\<rparr>], u_Values = Map.empty, u_conn = 7\<rparr>],
     \<lparr>u_Path = ''/a/x'', u_Params = [\<lparr>Key = ''b'', Value = ''x''\<rparr>], u_Values = Map.empty, u_conn = 7\<rparr>, Returns None)"
proof -
  have "good_pat ''/a/:b''" "valid_pat ''/a/:b''"
    by (simp_all add: good_pat_def is_wild_def segment_def after_segment_def valid_name_def)
  then obtain r :: "(unit, unit, nat) Router" where r: "tree_ok (root r)"
    "set (routes (root r)) = {(''/a/:b'', AppHandler ())}" by (rule one_route)
  from Handle_registered [OF r(1), of "''/a/:b''" "AppHandler ()"
      "\<lparr>u_Path = ''/a/x'', u_Params = [], u_Values = Map.empty, u_conn = 7\<rparr>" "[\<lparr>Key = ''b'', Value = ''x''\<rparr>]"
      "\<lambda>_ c. (c, Returns None)"] r(2)
  show ?thesis
    by (intro exI [of _ r] exI [of _ "AppHandler ()"]) (simp add: segment_def after_segment_def)
qed

text \<open>An unknown path goes to the handler for unknown paths, whose error is dropped; without
  one, \<open>Handle\<close> returns \<open>ErrUnknownChannel\<close>. A path is unknown when no route matches it and
  the cleaned path is not found without regard to case.\<close>

theorem Handle_unknown:
  assumes "tree_ok (root r)" "\<not> (\<exists>pat h ps. (pat, h) \<in> set (routes (root r)) \<and> match_pat pat (u_Path c) = Some ps)"
    and "CleanPath (u_Path c) = Inr p" "findCaseInsensitivePath lower (root r) p True = Inr (q, False)"
    and "\<And>h. NotFound r = Some h \<Longrightarrow> callHandler impl h c = (c', Returns e)"
  shows "Handle lower impl pimpl r c =
    (case NotFound r of
       None \<Rightarrow> ([], c, Returns (Some ErrUnknownChannel))
     | Some h \<Rightarrow> ([NotFoundCalled h c], c', Returns None))"
proof -
  have "tree_find (root r) (u_Path c) = None"
    using assms(2) find_None_iff [OF assms(1)] by blast
  then have "handleBody lower impl r c = unknownPath impl r c"
    using handleBody_missing [OF assms(1)] assms(3,4) by (simp add: fixPath_def)
  then show ?thesis using assms(5)
    by (cases "NotFound r") (simp_all add: unknownPath_def Handle_def)
qed

theorem Handle_unknown_witness:
  "Handle latin1_lower (\<lambda>_ c. (c, Returns None)) (\<lambda>_ c _. (c, Returns ())) (New None None :: (unit, unit, nat) Router)
     \<lparr>u_Path = ''/x'', u_Params = [], u_Values = Map.empty, u_conn = 7\<rparr> =
   ([], \<lparr>u_Path = ''/x'', u_Params = [], u_Values = Map.empty, u_conn = 7\<rparr>, Returns (Some ErrUnknownChannel))"
proof -
  have "CleanPath ''/x'' = Inr ''/x''"
    by (simp add: CleanPath_spec clean_spec_def resolve_def push_elem_def rooted_def render_def keeps_slash_def)
  moreover have "findCaseInsensitivePath latin1_lower new_node ''/x'' True = Inr ('''', False)"
    by (simp add: run_ci new_node_def)
  ultimately show ?thesis
    using Handle_unknown [of "New None None" "\<lparr>u_Path = ''/x'', u_Params = [], u_Values = Map.empty, u_conn = 7\<rparr>"
        "''/x''" latin1_lower "''''"]
    by (simp add: New_def tree_ok_new routes_new)
qed

text \<open>With a panic handler that returns, \<open>Handle\<close> never panics, whatever the handlers do.\<close>

theorem Handle_contains_panics:
  assumes "PanicHandler r = Some ph" "\<And>c v. \<exists>c'. pimpl ph c v = (c', Returns ())"
  shows "\<exists>tr c' e. Handle lower impl pimpl r c = (tr, c', Returns e)"
proof (cases "handleBody lower impl r c")
  case (fields tr c1 res)
  show ?thesis
  proof (cases res)
    case (Returns e)
    then show ?thesis using fields by (simp add: Handle_def)
  next
    case (Panics v)
    show ?thesis
    proof (cases v)
      case None
      then show ?thesis using fields Panics assms(1) by (simp add: Handle_def)
    next
      case (Some x)
      from assms(2) [of c1 x] obtain c' where "pimpl ph c1 x = (c', Returns ())" by blast
      then show ?thesis using fields Panics Some assms(1) by (simp add: Handle_def)
    qed
  qed
qed

theorem Handle_contains_panics_witness:
  "\<exists>tr c' e. Handle latin1_lower (\<lambda>_ c. (c, Panics None)) (\<lambda>_ c _. (c, Returns ()))
     (New (Some ()) (Some (AppHandler ())) :: (unit, unit, nat) Router)
     \<lparr>u_Path = ''/x'', u_Params = [], u_Values = Map.empty, u_conn = 7\<rparr> = (tr, c', Returns e)"
  by (rule Handle_contains_panics [of _ "()"]) (simp_all add: New_def)

text \<open>\<open>HasRoute\<close> returns, and returns true exactly when a registered route matches.\<close>

theorem HasRoute_correct:
  assumes "tree_ok (root r)"
  shows "HasRoute r path = Returns (\<exists>pat h ps. (pat, h) \<in> set (routes (root r)) \<and> match_pat pat path = Some ps)"
  using HasRoute_find [OF assms] find_None_iff [OF assms] by simp

theorem HasRoute_correct_witness:
  "HasRoute (New None None :: (unit, unit, unit) Router) ''/x'' = Returns False"
  using HasRoute_correct [of "New None None :: (unit, unit, unit) Router" "''/x''"]
  by (simp add: New_def tree_ok_new routes_new)

text \<open>\<open>Handle\<close> calls at most one handler of the routes, and only one whose pattern matches the
  path the handler sees, with the parameters the handler sees; otherwise it calls the handler
  for unknown paths, or returns \<open>ErrUnknownChannel\<close> and calls nothing.\<close>

theorem Handle_calls:
  assumes "tree_ok (root r)" "lower_law lower" "Handle lower impl pimpl r c = (tr, c', Returns e)"
    and "PanicHandler r = None"
  shows "(\<exists>h d pat. tr = [HandlerCalled h d] \<and> (pat, h) \<in> set (routes (root r)) \<and>
      match_pat pat (u_Path d) = Some (u_Params d) \<and> callHandler impl h d = (c', Returns e)) \<or>
    (\<exists>h d. NotFound r = Some h \<and> tr = [NotFoundCalled h d]) \<or>
    NotFound r = None \<and> tr = [] \<and> e = Some ErrUnknownChannel"
proof -
  have "handleBody lower impl r c = (tr, c', Returns e)"
    using assms(3,4) by (auto simp: Handle_def split: prod.splits call.splits)
  from handleBody_trace [OF assms(1,2) this] show ?thesis by auto
qed

theorem Handle_calls_witness:
  "\<exists>tr e. snd (snd (Handle latin1_lower (\<lambda>_ c. (c, Returns None)) (\<lambda>_ c _. (c, Returns ()))
      (New None None :: (unit, unit, nat) Router) \<lparr>u_Path = ''/'', u_Params = [], u_Values = Map.empty, u_conn = 7\<rparr>)) =
      Returns e \<and> tr = [] \<and> e = Some ErrUnknownChannel"
proof -
  let ?r = "New None None :: (unit, unit, nat) Router"
  let ?c = "\<lparr>u_Path = ''/'', u_Params = [], u_Values = Map.empty, u_conn = 7\<rparr> :: nat UrlContext"
  have ok: "tree_ok (root ?r)" by (simp add: New_def tree_ok_new)
  have "tree_find (root ?r) ''/'' = None"
    using tree.find_matches [OF ok] by (cases "tree_find (root ?r) ''/''") (auto simp: New_def routes_new)
  then have "Handle latin1_lower (\<lambda>_ c. (c, Returns None)) (\<lambda>_ c _. (c, Returns ())) ?r ?c =
      ([], ?c, Returns (Some ErrUnknownChannel))"
    using handleBody_missing [OF ok, of ?c] by (simp add: Handle_def unknownPath_def New_def)
  from Handle_calls [OF ok lower_law_latin1 this] this show ?thesis by (simp add: New_def)
qed

text \<open>Registration and lookup. A registration that returns makes \<open>GetRoute\<close> return the handler,
  with the parameters of the match, for every path the pattern matches.\<close>

theorem Register_GetRoute:
  assumes "tree_ok (root r)" "good_pat p" "Register r p h = (r', Returns ())" "match_pat p s = Some ps"
  shows "GetRoute r' s = Returns (Some (h, ps))"
proof -
  obtain t where t: "addRoute (root r) p (Some h) = Done t" "r' = r\<lparr>root := t\<rparr>"
    using assms(3) by (auto simp: Register_def split: outcome.splits)
  then have "tree_add (root r) p h = Some t" by (simp add: tree_add_def accepted_def)
  from tree.add_result [OF assms(1,2) this] have ok: "tree_ok t" "(p, h) \<in> set (routes t)" by simp_all
  then have "tree_find t s = Some (h, ps)"
    using assms(4) tree.find_matches [OF ok(1)] by (auto simp: matches_def)
  then show ?thesis using GetRoute_find [of r'] ok(1) t(2) by simp
qed

theorem Register_GetRoute_witness:
  "\<exists>r :: (unit, unit, unit) Router. GetRoute r ''/a/x'' = Returns (Some (AppHandler (), [\<lparr>Key = ''b'', Value = ''x''\<rparr>]))"
proof -
  have g: "good_pat ''/a/:b''" "valid_pat ''/a/:b''"
    by (simp_all add: good_pat_def is_wild_def segment_def after_segment_def valid_name_def)
  then obtain r :: "(unit, unit, unit) Router" where
    r: "Register (New None None) ''/a/:b'' (AppHandler ()) = (r, Returns ())" by (rule one_route)
  have "tree_ok (root (New None None :: (unit, unit, unit) Router))" by (simp add: New_def tree_ok_new)
  from Register_GetRoute [OF this g(1) r, of "''/a/x''"] show ?thesis
    by (auto simp: segment_def after_segment_def)
qed


end
