(* ===== verification/Go_Url.thy ===== *)
theory Go_Url
  imports Go_Strings
begin

text \<open>
  What the dispatcher uses of Go's package \<open>net/url\<close>, as it was in Go 1.4: \<open>ParseRequestURI\<close> and
  \<open>ParseQuery\<close>, with \<open>getscheme\<close>, \<open>split\<close>, \<open>parseAuthority\<close> and \<open>unescape\<close>.
\<close>

section \<open>Escapes\<close>

datatype url_error =
    EmptyUrl
  | MissingScheme
  | InvalidRequestURI
  | HostEscape
  | EscapeError string

datatype encoding = encodePath | encodeUserPassword | encodeQueryComponent

definition hexval :: "char \<Rightarrow> nat option" where
  "hexval c =
     (let b = byte c in
      if 48 \<le> b \<and> b \<le> 57 then Some (b - 48)
      else if 97 \<le> b \<and> b \<le> 102 then Some (b - 87)
      else if 65 \<le> b \<and> b \<le> 70 then Some (b - 55)
      else None)"

abbreviation percent :: char where "percent \<equiv> CHR ''%''"

text \<open>
  \<open>unescape\<close>: an escape must have two hexadecimal digits; an error carries the escape, cut to
  three bytes. A plus is a space in a query component.
\<close>

fun unescape :: "encoding \<Rightarrow> string \<Rightarrow> url_error + string" where
  "unescape mode [] = Inr []"
| "unescape mode (c # s) =
     (if c = percent then
        (case s of
           x # y # r \<Rightarrow>
             (case (hexval x, hexval y) of
                (Some a, Some b) \<Rightarrow> map_sum id ((#) (char_of (16 * a + b))) (unescape mode r)
              | _ \<Rightarrow> Inl (EscapeError (take 3 (c # s))))
         | _ \<Rightarrow> Inl (EscapeError (take 3 (c # s))))
      else map_sum id ((#) (if c = CHR ''+'' \<and> mode = encodeQueryComponent then CHR '' '' else c))
             (unescape mode s))"

section \<open>\<open>ParseRequestURI\<close>\<close>

record userinfo =
  username :: string
  password :: "string option"

record URL =
  Scheme :: string
  Opaque :: string
  User :: "userinfo option"
  Host :: string
  Path :: string
  RawQuery :: string

definition empty_URL :: URL where
  "empty_URL = \<lparr>Scheme = '''', Opaque = '''', User = None, Host = '''', Path = '''', RawQuery = ''''\<rparr>"

definition letter :: "char \<Rightarrow> bool" where
  "letter c \<longleftrightarrow> (let b = byte c in 97 \<le> b \<and> b \<le> 122 \<or> 65 \<le> b \<and> b \<le> 90)"

definition scheme_char :: "char \<Rightarrow> bool" where
  "scheme_char c \<longleftrightarrow> (let b = byte c in 48 \<le> b \<and> b \<le> 57 \<or> b = 43 \<or> b = 45 \<or> b = 46)"

text \<open>The loop of \<open>getscheme\<close> at index \<open>i\<close>.\<close>

function getscheme_at :: "string \<Rightarrow> nat \<Rightarrow> url_error + string \<times> string" where
  "getscheme_at rawurl i =
     (if length rawurl \<le> i then Inr ('''', rawurl)
      else
        let c = rawurl ! i in
        if letter c then getscheme_at rawurl (i + 1)
        else if scheme_char c then
          (if i = 0 then Inr ('''', rawurl) else getscheme_at rawurl (i + 1))
        else if c = colon then
          (if i = 0 then Inl MissingScheme else Inr (take i rawurl, drop (i + 1) rawurl))
        else Inr ('''', rawurl))"
  by pat_completeness auto
termination
  by (relation "measure (\<lambda>(s, i). length s - i)") auto

declare getscheme_at.simps [simp del]

definition getscheme :: "string \<Rightarrow> url_error + string \<times> string" where
  "getscheme rawurl = getscheme_at rawurl 0"

text \<open>\<open>split\<close> for a separator of one byte.\<close>

definition split :: "string \<Rightarrow> char \<Rightarrow> bool \<Rightarrow> string \<times> string" where
  "split s c cutc =
     (case find_index c s of
        None \<Rightarrow> (s, '''')
      | Some i \<Rightarrow> (take i s, drop (if cutc then i + 1 else i) s))"

text \<open>\<open>strings.LastIndex\<close> of a byte, as the parts before and after it.\<close>

definition split_last :: "string \<Rightarrow> char \<Rightarrow> (string \<times> string) option" where
  "split_last s c =
     (case find_index c (rev s) of
        None \<Rightarrow> None
      | Some k \<Rightarrow> Some (take (length s - 1 - k) s, drop (length s - k) s))"

definition parseAuthority :: "string \<Rightarrow> url_error + userinfo option \<times> string" where
  "parseAuthority authority =
     (case split_last authority (CHR ''@'') of
        None \<Rightarrow> Inr (None, authority)
      | Some (info, host) \<Rightarrow>
          if colon \<notin> set info then
            map_sum id (\<lambda>u. (Some \<lparr>username = u, password = None\<rparr>, host)) (unescape encodeUserPassword info)
          else
            (let (u, p) = split info colon True in
             (case unescape encodeUserPassword u of
                Inl e \<Rightarrow> Inl e
              | Inr u' \<Rightarrow>
                  map_sum id (\<lambda>p'. (Some \<lparr>username = u', password = Some p'\<rparr>, host))
                    (unescape encodeUserPassword p))))"

text \<open>Whether a rest starts with two slashes, behind which an authority stands.\<close>

definition has_authority :: "string \<Rightarrow> bool" where
  "has_authority s \<longleftrightarrow> take 2 s = ''//''"

definition ParseRequestURI :: "(nat \<Rightarrow> nat) \<Rightarrow> string \<Rightarrow> url_error + URL" where
  "ParseRequestURI lower rawurl =
     (if rawurl = '''' then Inl EmptyUrl
      else if rawurl = ''*'' then Inr (empty_URL\<lparr>Path := ''*''\<rparr>)
      else
        (case getscheme rawurl of
           Inl e \<Rightarrow> Inl e
         | Inr (scheme0, rest0) \<Rightarrow>
             let scheme = ToLower lower scheme0;
                 (rest, query) = split rest0 (CHR ''?'') True;
                 url = empty_URL\<lparr>Scheme := scheme, RawQuery := query\<rparr>
             in
             if rest = '''' \<or> hd rest \<noteq> slash then
               (if scheme \<noteq> '''' then Inr (url\<lparr>Opaque := rest\<rparr>) else Inl InvalidRequestURI)
             else if scheme \<noteq> '''' \<and> has_authority rest then
               (let (authority, rest') = split (drop 2 rest) slash False in
                (case parseAuthority authority of
                   Inl e \<Rightarrow> Inl e
                 | Inr (user, host) \<Rightarrow>
                     if percent \<in> set host then Inl HostEscape
                     else map_sum id (\<lambda>p. url\<lparr>User := user, Host := host, Path := p\<rparr>)
                            (unescape encodePath rest')))
             else map_sum id (\<lambda>p. url\<lparr>Path := p\<rparr>) (unescape encodePath rest)))"

section \<open>\<open>ParseQuery\<close>\<close>

text \<open>
  The loop of \<open>parseQuery\<close>: it goes on after an error, and returns the values of the pairs that
  could be decoded and whether there was an error.
\<close>

definition is_sep :: "char \<Rightarrow> bool" where
  "is_sep c \<longleftrightarrow> c = CHR ''&'' \<or> c = CHR '';''"

definition addValue :: "(string \<rightharpoonup> string list) \<Rightarrow> string \<Rightarrow> string \<Rightarrow> (string \<rightharpoonup> string list)" where
  "addValue m key v = m(key \<mapsto> (case m key of None \<Rightarrow> [] | Some vs \<Rightarrow> vs) @ [v])"

text \<open>One pair \<open>key=value\<close>; \<^const>\<open>None\<close> is an escape that is not well-formed.\<close>

definition parsePair :: "string \<Rightarrow> (string \<times> string) option" where
  "parsePair pair =
     (let (key, v) = split pair (CHR ''='') True in
      (case (unescape encodeQueryComponent key, unescape encodeQueryComponent v) of
         (Inr k, Inr v') \<Rightarrow> Some (k, v')
       | _ \<Rightarrow> None))"

lemma shorter_rest: "s \<noteq> [] \<Longrightarrow> length (dropWhile P s) - Suc 0 < length s"
  using length_dropWhile_le [of P s] by (simp add: less_eq_Suc_le [symmetric] le_imp_less_Suc flip: length_greater_0_conv)

function parseQuery :: "(string \<rightharpoonup> string list) \<Rightarrow> bool \<Rightarrow> string \<Rightarrow> (string \<rightharpoonup> string list) \<times> bool" where
  "parseQuery m err query =
     (if query = '''' then (m, err)
      else
        let key = takeWhile (\<lambda>c. \<not> is_sep c) query;
            rest = drop 1 (dropWhile (\<lambda>c. \<not> is_sep c) query)
        in
        if key = '''' then parseQuery m err rest
        else
          (case parsePair key of
             None \<Rightarrow> parseQuery m True rest
           | Some (k, v) \<Rightarrow> parseQuery (addValue m k v) err rest))"
  by pat_completeness auto
termination
  by (relation "measure (\<lambda>(m, err, query). length query)") (auto simp: shorter_rest)

declare parseQuery.simps [simp del]

definition ParseQuery :: "string \<Rightarrow> (string \<rightharpoonup> string list) \<times> bool" where
  "ParseQuery query = parseQuery Map.empty False query"

section \<open>URIs without a scheme\<close>

lemma encodeRune_nonempty: "encodeRune r \<noteq> []"
  by (simp add: encodeRune_def Let_def)

lemma ToLower_empty_iff: "ToLower f s = [] \<longleftrightarrow> s = []"
proof (cases "s = []")
  case False
  then show ?thesis using decodeRune_width [of s] encodeRune_nonempty
    by (subst ToLower.simps) (auto simp: Let_def split: prod.split)
qed (simp add: ToLower.simps)

text \<open>A path that starts with a slash has no scheme.\<close>

lemma getscheme_slash: "getscheme (slash # s) = Inr ('''', slash # s)"
  by (simp add: getscheme_def letter_def scheme_char_def getscheme_at.simps [of _ 0])

text \<open>The rest after the scheme is the URI itself when there is no scheme.\<close>

lemma getscheme_at_none:
  "getscheme_at s i = Inr ('''', rest) \<Longrightarrow> rest = s"
proof (induction s i rule: getscheme_at.induct)
  case (1 s i)
  show ?case using "1.prems" "1.IH"
    by (subst (asm) getscheme_at.simps) (auto simp: Let_def split: if_splits)
qed

lemma getscheme_none: "getscheme s = Inr ('''', rest) \<Longrightarrow> rest = s"
  by (simp add: getscheme_def getscheme_at_none)

lemma split_at: "c \<notin> set a \<Longrightarrow> split (a @ c # b) c True = (a, b)"
proof -
  assume c: "c \<notin> set a"
  then have "find_index c (a @ c # b) = Some (length a)" by (induction a) auto
  then show ?thesis by (simp add: split_def)
qed

lemma split_none: "c \<notin> set a \<Longrightarrow> split a c cutc = (a, '''')"
  by (simp add: split_def find_index_None [THEN iffD2])

lemma unescape_hd: "unescape m (c # s) = Inr p \<Longrightarrow> c \<noteq> percent \<Longrightarrow> c \<noteq> CHR ''+'' \<Longrightarrow> p \<noteq> [] \<and> hd p = c"
  by (cases "unescape m s") auto

text \<open>A URI without a scheme that is accepted has no user, host or opaque part, and its path is a
  star or starts with a slash.\<close>

lemma ParseRequestURI_schemeless:
  assumes "ParseRequestURI lower raw = Inr uri" "Scheme uri = ''''"
  shows "User uri = None \<and> Host uri = '''' \<and> Opaque uri = '''' \<and>
    (raw = ''*'' \<and> Path uri = ''*'' \<or> raw \<noteq> [] \<and> hd raw = slash \<and> Path uri \<noteq> [] \<and> hd (Path uri) = slash)"
proof (cases "raw = '''' \<or> raw = ''*''")
  case True
  then show ?thesis using assms by (auto simp: ParseRequestURI_def empty_URL_def)
next
  case False
  then obtain s0 r0 where g: "getscheme raw = Inr (s0, r0)"
    using assms(1) by (cases "getscheme raw") (auto simp: ParseRequestURI_def)
  obtain r q where sp: "split r0 (CHR ''?'') True = (r, q)" by (cases "split r0 (CHR ''?'') True")
  let ?url = "empty_URL\<lparr>Scheme := ToLower lower s0, RawQuery := q\<rparr>"
  have p: "(if r = '''' \<or> hd r \<noteq> slash then
        (if ToLower lower s0 \<noteq> '''' then Inr (?url\<lparr>Opaque := r\<rparr>) else Inl InvalidRequestURI)
      else if ToLower lower s0 \<noteq> '''' \<and> has_authority r then
        (let (authority, rest') = split (drop 2 r) slash False in
         (case parseAuthority authority of
            Inl e \<Rightarrow> Inl e
          | Inr (user, host) \<Rightarrow>
              if percent \<in> set host then Inl HostEscape
              else map_sum id (\<lambda>p. ?url\<lparr>User := user, Host := host, Path := p\<rparr>) (unescape encodePath rest')))
      else map_sum id (\<lambda>p. ?url\<lparr>Path := p\<rparr>) (unescape encodePath r)) = Inr uri"
    using assms(1) False g sp by (simp add: ParseRequestURI_def Let_def)
  have "ToLower lower s0 = ''''"
    using p assms(2)
    by (auto simp: Let_def empty_URL_def map_sum_def split: if_splits sum.splits prod.splits)
  then have s0: "s0 = ''''" "ToLower lower s0 = ''''" using ToLower_empty_iff by auto
  then have r0: "r0 = raw" using g getscheme_none by simp
  have r: "r \<noteq> ''''" "hd r = slash" using p s0(2) by (auto split: if_splits)
  then obtain path where path: "unescape encodePath r = Inr path" "uri = ?url\<lparr>Path := path\<rparr>"
    using p s0(2) by (cases "unescape encodePath r") auto
  obtain t where "r = slash # t" using r by (cases r) auto
  then have "path \<noteq> [] \<and> hd path = slash" using unescape_hd [of encodePath slash t path] path(1) by simp
  moreover have "raw \<noteq> [] \<and> hd raw = slash"
    using sp r r0 by (cases raw) (auto simp: split_def split: option.splits if_splits)
  ultimately show ?thesis using path(2) s0(2) by (simp add: empty_URL_def)
qed

section \<open>Every path can be written\<close>

text \<open>The percent encoding of a byte, in two upper-case digits.\<close>

definition hexdigit :: "nat \<Rightarrow> char" where
  "hexdigit n = char_of (if n < 10 then 48 + n else 55 + n)"

definition percent_encode :: "char \<Rightarrow> string" where
  "percent_encode c = [percent, hexdigit (byte c div 16), hexdigit (byte c mod 16)]"

lemma hexval_hexdigit: "n < 16 \<Longrightarrow> hexval (hexdigit n) = Some n"
  by (auto simp: hexval_def hexdigit_def Let_def)

text \<open>Escaping any bytes, the percent sign and the plus sign among them, and unescaping gives the
  string back.\<close>

definition escape_where :: "(char \<Rightarrow> bool) \<Rightarrow> string \<Rightarrow> string" where
  "escape_where P s = concat (map (\<lambda>c. if P c then percent_encode c else [c]) s)"

lemma unescape_escape:
  assumes "P percent" "P (CHR ''+'')"
  shows "unescape m (escape_where P s) = Inr s"
proof (induction s)
  case (Cons c s)
  show ?case
  proof (cases "P c")
    case True
    have "16 * (byte c div 16) + byte c mod 16 = byte c" by simp
    then show ?thesis using True Cons
      by (simp add: escape_where_def percent_encode_def hexval_hexdigit less_mult_imp_div_less byte_less)
  next
    case False
    then have "c \<noteq> percent" "c \<noteq> CHR ''+''" using assms by auto
    then show ?thesis using False Cons by (simp add: escape_where_def)
  qed
qed (simp add: escape_where_def)


text \<open>The URI of a path: the bytes with a meaning to the parser escaped.\<close>

definition uri_of_path :: "string \<Rightarrow> string" where
  "uri_of_path = escape_where (\<lambda>c. c = percent \<or> c = CHR ''+'' \<or> c = CHR ''?'')"

lemma ToLower_Nil [simp]: "ToLower f [] = []"
  by (simp add: ToLower_empty_iff)

lemma hexdigit_not_query: "n < 16 \<Longrightarrow> hexdigit n \<noteq> CHR ''?''"
proof
  assume "n < 16" "hexdigit n = CHR ''?''"
  then have "hexval (CHR ''?'') = Some n" using hexval_hexdigit by metis
  then show False by (simp add: hexval_def)
qed

lemma uri_of_path_no_query: "CHR ''?'' \<notin> set (uri_of_path p)"
proof (induction p)
  case (Cons c p)
  have "byte c div 16 < 16" "byte c mod 16 < 16" by (simp_all add: less_mult_imp_div_less byte_less)
  then show ?case using Cons hexdigit_not_query
    by (auto simp: uri_of_path_def escape_where_def percent_encode_def dest: sym)
qed (simp add: uri_of_path_def escape_where_def)

lemma ParseRequestURI_uri_of_path:
  assumes "p \<noteq> []" "hd p = slash"
  shows "ParseRequestURI lower (uri_of_path p) = Inr (empty_URL\<lparr>Path := p\<rparr>)"
proof -
  obtain s where p: "p = slash # s" using assms by (cases p) auto
  then have u: "uri_of_path p = slash # uri_of_path s" by (simp add: uri_of_path_def escape_where_def)
  have "split (uri_of_path p) (CHR ''?'') True = (uri_of_path p, '''')"
    by (rule split_none [OF uri_of_path_no_query])
  moreover have "unescape encodePath (uri_of_path p) = Inr p"
    unfolding uri_of_path_def by (rule unescape_escape) simp_all
  ultimately show ?thesis using u
    by (simp add: ParseRequestURI_def getscheme_slash Let_def empty_URL_def)
qed

end
