(* ===== verification/Ssh_Flow.thy ===== *)
theory Ssh_Flow
  imports Prelude
begin

text \<open>
  Flow control of an SSH channel in the vendored package \<^verbatim>\<open>golang.org/x/crypto/ssh\<close>: the window
  of \<^verbatim>\<open>common.go\<close> and the buffer of \<^verbatim>\<open>buffer.go\<close>. Each method runs under the lock of its
  object, so it is one step on the object's state; a method that would wait on the condition
  variable does not return in that state, which is the value \<^const>\<open>None\<close>.
\<close>

section \<open>The window\<close>

record window =
  win :: "32 word"
  win_closed :: bool

definition new_window :: window where
  "new_window = \<lparr>win = 0, win_closed = False\<rparr>"

text \<open>\<open>add\<close> refuses an increment that would overflow the 32 bits.\<close>

definition win_add :: "window \<Rightarrow> 32 word \<Rightarrow> window \<times> bool" where
  "win_add w n =
     (if n = 0 then (w, True)
      else if win w + n < n then (w, False)
      else (w\<lparr>win := win w + n\<rparr>, True))"

definition win_close :: "window \<Rightarrow> window" where
  "win_close w = w\<lparr>win_closed := True\<rparr>"

text \<open>\<open>reserve\<close>: the amount reserved, and whether the error is \<open>io.EOF\<close>; it waits while nothing is
  left and the window is open.\<close>

definition win_reserve :: "window \<Rightarrow> 32 word \<Rightarrow> (window \<times> 32 word \<times> bool) option" where
  "win_reserve w n =
     (if win w = 0 \<and> \<not> win_closed w then None
      else
        let m = (if win w < n then win w else n)
        in Some (w\<lparr>win := win w - m\<rparr>, m, win_closed w))"

lemma unat32: "unat (a :: 32 word) < 2 ^ 32"
  using unsigned_less [of a] by simp

lemma overflow_iff:
  fixes a b :: "32 word"
  shows "a + b < b \<longleftrightarrow> 2 ^ 32 \<le> unat a + unat b"
proof
  assume "a + b < b"
  then have "\<not> unat a + unat b < 2 ^ 32"
    using unat_add_lem [of a b] by (auto simp: word_less_nat_alt)
  then show "2 ^ 32 \<le> unat a + unat b" by simp
next
  assume o: "2 ^ 32 \<le> unat a + unat b"
  have "unat (a + b) = (unat a + unat b) mod 2 ^ 32" by (simp add: unat_word_ariths)
  also have "\<dots> = unat a + unat b - 2 ^ 32"
    using o unat32 [of a] unat32 [of b] by (simp add: le_mod_geq mod_if)
  finally show "a + b < b"
    using unat32 [of a] o by (simp add: word_less_nat_alt)
qed

lemma win_add_spec:
  "win_add w n =
    (if unat (win w) + unat n < 2 ^ 32 then (w\<lparr>win := win w + n\<rparr>, True) else (w, False))"
  using overflow_iff [of "win w" n] unat32 [of "win w"] by (auto simp: win_add_def)

lemma win_reserve_spec:
  assumes "win_reserve w n = Some (w', m, eof)"
  shows "unat m = min (unat (win w)) (unat n)" "unat (win w') + unat m = unat (win w)"
    "eof = win_closed w" "win_closed w' = win_closed w"
  using assms unat_sub [of "win w" "win w"] unat_sub [of n "win w"]
  by (auto simp: win_reserve_def Let_def word_less_nat_alt word_le_nat_alt split: if_splits)

section \<open>The buffer\<close>

text \<open>
  The linked list from \<open>head\<close> to \<open>tail\<close> is the list of its elements' remaining bytes; it is never
  empty, as \<open>newBuffer\<close> starts with one element.
\<close>

type_synonym bytes = "8 word list"

record buffer =
  elems :: "bytes list"
  buf_closed :: bool

definition newBuffer :: buffer where
  "newBuffer = \<lparr>elems = [[]], buf_closed = False\<rparr>"

definition buf_write :: "buffer \<Rightarrow> bytes \<Rightarrow> buffer" where
  "buf_write b data = b\<lparr>elems := elems b @ [data]\<rparr>"

definition buf_eof :: "buffer \<Rightarrow> buffer" where
  "buf_eof b = b\<lparr>buf_closed := True\<rparr>"

text \<open>
  The loop of \<open>Read\<close> for \<open>k\<close> more bytes when \<open>out\<close> was copied already: the new state, the bytes
  copied and whether the error is \<open>io.EOF\<close>.
\<close>

function buf_read_loop :: "buffer \<Rightarrow> nat \<Rightarrow> bytes \<Rightarrow> (buffer \<times> bytes \<times> bool) option" where
  "buf_read_loop b k out =
     (if k = 0 then Some (b, out, False)
      else
        (case elems b of
           [] \<Rightarrow> None
         | h # es \<Rightarrow>
             if h \<noteq> [] then
               (let r = min k (length h) in
                buf_read_loop (b\<lparr>elems := drop r h # es\<rparr>) (k - r) (out @ take r h))
             else if es \<noteq> [] then buf_read_loop (b\<lparr>elems := es\<rparr>) k out
             else if out \<noteq> [] then Some (b, out, False)
             else if buf_closed b then Some (b, out, True)
             else None))"
  by pat_completeness auto
termination
  by (relation "measures [\<lambda>(b, k, out). length (elems b), \<lambda>(b, k, out). k]") auto

declare buf_read_loop.simps [simp del]

definition buf_Read :: "buffer \<Rightarrow> nat \<Rightarrow> (buffer \<times> bytes \<times> bool) option" where
  "buf_Read b k = buf_read_loop b k []"

text \<open>The bytes a buffer holds, in the order they will be read.\<close>

definition buffered :: "buffer \<Rightarrow> bytes" where
  "buffered b = concat (elems b)"

lemma buffered_new [simp]: "buffered newBuffer = []"
  by (simp add: buffered_def newBuffer_def)

lemma buffered_write [simp]: "buffered (buf_write b data) = buffered b @ data"
  by (simp add: buffered_def buf_write_def)

lemma buffered_eof [simp]: "buffered (buf_eof b) = buffered b"
  by (simp add: buffered_def buf_eof_def)

lemma buf_read_loop_spec:
  assumes "elems b \<noteq> []"
  shows "(if k = 0 \<or> buffered b \<noteq> [] \<or> out \<noteq> []
    then \<exists>b'. buf_read_loop b k out = Some (b', out @ take k (buffered b), False) \<and>
      buffered b' = drop k (buffered b) \<and> elems b' \<noteq> [] \<and> buf_closed b' = buf_closed b
    else if buf_closed b
    then \<exists>b'. buf_read_loop b k out = Some (b', [], True) \<and> buffered b' = [] \<and> elems b' \<noteq> [] \<and> buf_closed b'
    else buf_read_loop b k out = None)"
  using assms
proof (induction b k out rule: buf_read_loop.induct)
  case (1 b k out)
  obtain h es where e: "elems b = h # es" using "1.prems" by (cases "elems b") auto
  show ?case
  proof (cases "k = 0")
    case True
    then show ?thesis using "1.prems" by (simp add: buf_read_loop.simps)
  next
    case k: False
    show ?thesis
    proof (cases "h = []")
      case False
      let ?r = "min k (length h)"
      let ?b = "b\<lparr>elems := drop ?r h # es\<rparr>"
      have "buf_read_loop b k out = buf_read_loop ?b (k - ?r) (out @ take ?r h)"
        using k e False by (subst buf_read_loop.simps) (simp add: Let_def)
      moreover have "out @ take ?r h \<noteq> []" using k False by (simp add: min_def)
      moreover have "take ?r h @ take (k - ?r) (buffered ?b) = take k (buffered b)"
        "drop (k - ?r) (buffered ?b) = drop k (buffered b)" "buffered b \<noteq> []"
        using e False by (auto simp: buffered_def min_def)
      ultimately show ?thesis
        using "1.IH"(1) [OF k e False refl] k by auto
    next
      case True
      show ?thesis
      proof (cases "es = []")
        case False
        have "buf_read_loop b k out = buf_read_loop (b\<lparr>elems := es\<rparr>) k out"
          using k e True False by (subst buf_read_loop.simps) simp
        moreover have "buffered (b\<lparr>elems := es\<rparr>) = buffered b" "buf_closed (b\<lparr>elems := es\<rparr>) = buf_closed b"
          "elems (b\<lparr>elems := es\<rparr>) \<noteq> []"
          using e True False by (simp_all add: buffered_def)
        moreover have "\<not> h \<noteq> []" using True by simp
        ultimately show ?thesis using "1.IH"(2) [OF k e _ False] by (simp only: not_False_eq_True True_implies_equals)
      next
        case es: True
        then have "buf_read_loop b k out =
            (if out \<noteq> [] then Some (b, out, False) else if buf_closed b then Some (b, out, True) else None)"
          using k e True by (subst buf_read_loop.simps) simp
        then show ?thesis using k e True es by (cases "out = []") (simp_all add: buffered_def)
      qed
    qed
  qed
qed

text \<open>A read returns the first bytes, \<open>io.EOF\<close> when there are none and the buffer is closed, and
  waits when there are none and it is open.\<close>

lemma buf_Read_spec:
  assumes "elems b \<noteq> []"
  shows "(if k = 0 \<or> buffered b \<noteq> []
    then \<exists>b'. buf_Read b k = Some (b', take k (buffered b), False) \<and>
      buffered b' = drop k (buffered b) \<and> elems b' \<noteq> [] \<and> buf_closed b' = buf_closed b
    else if buf_closed b
    then \<exists>b'. buf_Read b k = Some (b', [], True) \<and> buffered b' = [] \<and> elems b' \<noteq> [] \<and> buf_closed b'
    else buf_Read b k = None)"
  using buf_read_loop_spec [OF assms, of k "[]"] by (simp only: buf_Read_def append_Nil simp_thms)

end
