(* ===== verification/Ssh_Wire.thy ===== *)
theory Ssh_Wire
  imports Ssh_Flow
begin

unbundle bit_operations_syntax

text \<open>
  The wire format of the vendored package \<^verbatim>\<open>golang.org/x/crypto/ssh\<close> (\<^verbatim>\<open>messages.go\<close>, with the
  byte helpers of \<^verbatim>\<open>common.go\<close>). The code marshals structs by reflection, so a struct type is a
  value of the model: its tag and the kinds of its fields in order. A message is a struct type
  with the values of its fields.

  Every parse has three outcomes in Go: it succeeds, it returns an error, or it panics.
\<close>

section \<open>Bytes of integers\<close>

definition u32be :: "32 word \<Rightarrow> bytes" where
  "u32be n = [ucast (drop_bit 24 n), ucast (drop_bit 16 n), ucast (drop_bit 8 n), ucast n]"

definition u64be :: "64 word \<Rightarrow> bytes" where
  "u64be n = [ucast (drop_bit 56 n), ucast (drop_bit 48 n), ucast (drop_bit 40 n), ucast (drop_bit 32 n),
     ucast (drop_bit 24 n), ucast (drop_bit 16 n), ucast (drop_bit 8 n), ucast n]"

definition appendU16 :: "bytes \<Rightarrow> 16 word \<Rightarrow> bytes" where
  "appendU16 buf n = buf @ [ucast (drop_bit 8 n), ucast n]"

definition appendU32 :: "bytes \<Rightarrow> 32 word \<Rightarrow> bytes" where
  "appendU32 buf n = buf @ u32be n"

definition appendU64 :: "bytes \<Rightarrow> 64 word \<Rightarrow> bytes" where
  "appendU64 buf n = buf @ u64be n"

definition appendInt :: "bytes \<Rightarrow> nat \<Rightarrow> bytes" where
  "appendInt buf n = appendU32 buf (word_of_nat n)"

definition appendString :: "bytes \<Rightarrow> bytes \<Rightarrow> bytes" where
  "appendString buf s = appendU32 buf (word_of_nat (length s)) @ s"

definition appendBool :: "bytes \<Rightarrow> bool \<Rightarrow> bytes" where
  "appendBool buf b = (if b then buf @ [1] else buf @ [0])"

text \<open>The number a big-endian byte string stands for: \<open>big.Int.SetBytes\<close>.\<close>

definition bigNat :: "bytes \<Rightarrow> nat" where
  "bigNat bs = foldl (\<lambda>a b. a * 256 + unat b) 0 bs"

text \<open>\<open>binary.BigEndian.Uint32\<close> and \<open>Uint64\<close>.\<close>

definition be32 :: "bytes \<Rightarrow> 32 word" where
  "be32 bs = word_of_nat (bigNat (take 4 bs))"

definition be64 :: "bytes \<Rightarrow> 64 word" where
  "be64 bs = word_of_nat (bigNat (take 8 bs))"

lemma bigNat_Nil [simp]: "bigNat [] = 0"
  by (simp add: bigNat_def)

lemma bigNat_snoc [simp]: "bigNat (bs @ [b]) = bigNat bs * 256 + unat b"
  by (simp add: bigNat_def)

lemma bigNat_Cons: "bigNat (b # bs) = unat b * 256 ^ length bs + bigNat bs"
proof (induction bs rule: rev_induct)
  case (snoc x xs)
  have "bigNat (b # xs @ [x]) = bigNat (b # xs) * 256 + unat x"
    using bigNat_snoc [of "b # xs" x] by simp
  then show ?case using snoc by (simp add: algebra_simps)
qed (simp add: bigNat_def)

lemma length_u32be [simp]: "length (u32be n) = 4"
  by (simp add: u32be_def)

lemma length_u64be [simp]: "length (u64be n) = 8"
  by (simp add: u64be_def)

lemma unat_byte: "unat (ucast w :: 8 word) = unat (w :: 'a::len word) mod 256"
  by (simp add: unsigned_ucast_eq take_bit_eq_mod)

lemma unat_drop_byte: "unat (drop_bit k w) = unat (w :: 'a::len word) div 2 ^ k"
  by (simp add: unat_drop_bit_eq drop_bit_eq_div [where 'a = nat])

lemma join_bytes:
  fixes n :: nat
  assumes "m = k + 8"
  shows "n div 2 ^ m * 256 + n div 2 ^ k mod 256 = n div 2 ^ k"
proof -
  have "n div 2 ^ m = n div 2 ^ k div 256" using assms by (simp add: power_add div_mult2_eq)
  then show ?thesis by simp
qed

lemma join_last_byte: "n div 2 ^ 8 * 256 + n mod 256 = n" for n :: nat
  by simp

lemma bigNat_u32be [simp]: "bigNat (u32be n) = unat n"
proof -
  let ?n = "unat n"
  have "?n div 2 ^ 24 < 256" using unsigned_less [of n, where ?'a = nat] by (simp add: less_mult_imp_div_less)
  then have "?n div 2 ^ 24 mod 256 = ?n div 2 ^ 24" by simp
  moreover have "?n div 2 ^ 24 * 256 + ?n div 2 ^ 16 mod 256 = ?n div 2 ^ 16"
    "?n div 2 ^ 16 * 256 + ?n div 2 ^ 8 mod 256 = ?n div 2 ^ 8"
    "?n div 2 ^ 8 * 256 + ?n mod 256 = ?n"
    by (rule join_bytes, simp)+ (rule join_last_byte)
  ultimately show ?thesis
    by (simp only: u32be_def bigNat_def unat_byte unat_drop_byte foldl.simps mult_zero_left add_0)
qed

lemma bigNat_u64be [simp]: "bigNat (u64be n) = unat n"
proof -
  let ?n = "unat n"
  have "?n div 2 ^ 56 < 256" using unsigned_less [of n, where ?'a = nat] by (simp add: less_mult_imp_div_less)
  then have "?n div 2 ^ 56 mod 256 = ?n div 2 ^ 56" by simp
  moreover have "?n div 2 ^ 56 * 256 + ?n div 2 ^ 48 mod 256 = ?n div 2 ^ 48"
    "?n div 2 ^ 48 * 256 + ?n div 2 ^ 40 mod 256 = ?n div 2 ^ 40"
    "?n div 2 ^ 40 * 256 + ?n div 2 ^ 32 mod 256 = ?n div 2 ^ 32"
    "?n div 2 ^ 32 * 256 + ?n div 2 ^ 24 mod 256 = ?n div 2 ^ 24"
    "?n div 2 ^ 24 * 256 + ?n div 2 ^ 16 mod 256 = ?n div 2 ^ 16"
    "?n div 2 ^ 16 * 256 + ?n div 2 ^ 8 mod 256 = ?n div 2 ^ 8"
    "?n div 2 ^ 8 * 256 + ?n mod 256 = ?n"
    by (rule join_bytes, simp)+ (rule join_last_byte)
  ultimately show ?thesis
    by (simp only: u64be_def bigNat_def unat_byte unat_drop_byte foldl.simps mult_zero_left add_0)
qed

lemma be32_u32be [simp]: "be32 (u32be n @ rest) = n"
  by (simp add: be32_def)

lemma be64_u64be [simp]: "be64 (u64be n @ rest) = n"
  by (simp add: be64_def)

section \<open>Strings and name lists\<close>

text \<open>
  \<open>parseString\<close>: \<^const>\<open>None\<close> is the result \<open>ok = false\<close>. The sum \<open>4+length\<close> is taken in 32 bits, so for
  the four greatest lengths it is less than four and the slice expression \<open>in[4 : 4+length]\<close> panics.
\<close>

definition parseString :: "bytes \<Rightarrow> panic + (bytes \<times> bytes) option" where
  "parseString inp =
     (if length inp < 4 then Inr None
      else
        let want = 4 + be32 inp in
        if word_of_nat (length inp) < want then Inr None
        else if 4 \<le> unat want \<and> unat want \<le> length inp
          then Inr (Some (substr inp 4 (unat want), drop (unat want) inp))
        else Inl SliceBounds)"

definition marshalString :: "bytes \<Rightarrow> bytes \<Rightarrow> panic + bytes \<times> bytes" where
  "marshalString to s =
     (if length to < 4 then Inl IndexOutOfRange
      else if length to < 4 + length s then Inl SliceBounds
      else Inr (u32be (word_of_nat (length s)) @ s @ drop (4 + length s) to, drop (4 + length s) to))"

definition stringLength :: "nat \<Rightarrow> nat" where
  "stringLength n = 4 + n"

text \<open>What \<open>writeString\<close> writes.\<close>

definition writeString :: "bytes \<Rightarrow> bytes" where
  "writeString s = u32be (word_of_nat (length s)) @ s"

abbreviation comma :: "8 word" where "comma \<equiv> 44"

text \<open>\<open>bytes.Split\<close> at a comma.\<close>

fun splitComma :: "bytes \<Rightarrow> bytes list" where
  "splitComma [] = [[]]"
| "splitComma (b # bs) =
     (if b = comma then [] # splitComma bs
      else (case splitComma bs of [] \<Rightarrow> [[b]] | p # ps \<Rightarrow> (b # p) # ps))"

definition parseNameList :: "bytes \<Rightarrow> panic + (bytes list \<times> bytes) option" where
  "parseNameList inp =
     (case parseString inp of
        Inl e \<Rightarrow> Inl e
      | Inr None \<Rightarrow> Inr None
      | Inr (Some (contents, rest)) \<Rightarrow>
          Inr (Some (if contents = [] then [] else splitComma contents, rest)))"

text \<open>The loop of \<open>marshalStruct\<close> over a name list.\<close>

fun joinNames :: "bytes list \<Rightarrow> bytes" where
  "joinNames [] = []"
| "joinNames [n] = n"
| "joinNames (n # m # ns) = n @ comma # joinNames (m # ns)"

definition parseUint32 :: "bytes \<Rightarrow> (32 word \<times> bytes) option" where
  "parseUint32 inp = (if length inp < 4 then None else Some (be32 inp, drop 4 inp))"

definition parseUint64 :: "bytes \<Rightarrow> (64 word \<times> bytes) option" where
  "parseUint64 inp = (if length inp < 8 then None else Some (be64 inp, drop 8 inp))"

definition marshalUint32 :: "bytes \<Rightarrow> 32 word \<Rightarrow> panic + bytes \<times> bytes" where
  "marshalUint32 to n =
     (if length to < 4 then Inl IndexOutOfRange else Inr (u32be n @ drop 4 to, drop 4 to))"

definition marshalUint64 :: "bytes \<Rightarrow> 64 word \<Rightarrow> panic + bytes \<times> bytes" where
  "marshalUint64 to n =
     (if length to < 8 then Inl IndexOutOfRange else Inr (u64be n @ drop 8 to, drop 8 to))"

section \<open>Multiple-precision integers\<close>

text \<open>\<open>big.Int.Bytes\<close>, \<open>BitLen\<close> on a non-negative number.\<close>

fun natBytes :: "nat \<Rightarrow> bytes" where
  "natBytes n = (if n = 0 then [] else natBytes (n div 256) @ [word_of_nat n])"

fun bitLen :: "nat \<Rightarrow> nat" where
  "bitLen n = (if n = 0 then 0 else Suc (bitLen (n div 2)))"

declare natBytes.simps [simp del] bitLen.simps [simp del]

text \<open>Lines 525--537: two's complement.\<close>

definition parseInt :: "bytes \<Rightarrow> panic + (int \<times> bytes) option" where
  "parseInt inp =
     (case parseString inp of
        Inl e \<Rightarrow> Inl e
      | Inr None \<Rightarrow> Inr None
      | Inr (Some (contents, rest)) \<Rightarrow>
          let out = (if contents \<noteq> [] \<and> hd contents AND 0x80 = 0x80
            then - (int (bigNat (map NOT contents)) + 1) else int (bigNat contents))
          in Inr (Some (out, rest)))"

definition intLength :: "int \<Rightarrow> nat" where
  "intLength n =
     4 + (if n < 0 then
            let l = bitLen (nat (- n - 1)) in (if l mod 8 = 0 then 1 else 0) + (l + 7) div 8
          else if n = 0 then 0
          else let l = bitLen (nat n) in (if l mod 8 = 0 then 1 else 0) + (l + 7) div 8)"

text \<open>The contents \<open>marshalInt\<close> writes: the padding byte, if any, and the bytes of the number.\<close>

definition intPad :: "int \<Rightarrow> bytes" where
  "intPad n =
     (if n < 0 then
        let bs = map (\<lambda>b. b XOR 0xff) (natBytes (nat (- n - 1)))
        in if bs = [] \<or> hd bs AND 0x80 = 0 then [0xff] else []
      else if n = 0 then []
      else let bs = natBytes (nat n) in if bs \<noteq> [] \<and> hd bs AND 0x80 \<noteq> 0 then [0] else [])"

definition intBytes :: "int \<Rightarrow> bytes" where
  "intBytes n =
     (if n < 0 then map (\<lambda>b. b XOR 0xff) (natBytes (nat (- n - 1)))
      else if n = 0 then [] else natBytes (nat n))"

text \<open>\<open>copy\<close> takes what fits; the buffer after the call and the rest of it.\<close>

definition marshalInt :: "bytes \<Rightarrow> int \<Rightarrow> panic + bytes \<times> bytes" where
  "marshalInt to n =
     (if length to < 4 then Inl SliceBounds
      else if length to < 4 + length (intPad n) then Inl IndexOutOfRange
      else
        let nBytes = min (length to - 4 - length (intPad n)) (length (intBytes n));
            body = intPad n @ take nBytes (intBytes n);
            rest = drop (4 + length body) to
        in Inr (u32be (word_of_nat (length body)) @ body @ rest, rest))"

definition writeInt :: "int \<Rightarrow> panic + bytes" where
  "writeInt n = map_sum id fst (marshalInt (replicate (intLength n) 0) n)"

section \<open>Struct types\<close>

text \<open>
  The kinds of fields the reflection distinguishes; \<open>KRest\<close> is a byte slice with the tag \<open>rest\<close>.
  \<open>KBadArray\<close>, \<open>KBadSlice\<close> and \<open>KBadPtr\<close> are the types both directions refuse, \<open>KOther\<close> is a kind
  that \<open>Unmarshal\<close> refuses and \<open>Marshal\<close> skips.
\<close>

datatype kind =
    KBool | KArray nat | KUint64 | KUint32 | KUint8 | KString | KBytes | KRest | KNames | KBigInt
  | KBadArray | KBadSlice | KBadPtr | KOther

datatype fval =
    VBool bool | VU64 "64 word" | VU32 "32 word" | VU8 "8 word" | VBytes bytes | VNames "bytes list"
  | VInt int | VOther

record struct_type =
  st_name :: string
  st_tag :: "nat option"
  st_fields :: "(string \<times> kind) list"

text \<open>The values a field of a kind can have.\<close>

definition typed :: "kind \<Rightarrow> fval \<Rightarrow> bool" where
  "typed k v =
     (case v of
        VBool b \<Rightarrow> k = KBool
      | VU64 w \<Rightarrow> k = KUint64
      | VU32 w \<Rightarrow> k = KUint32
      | VU8 w \<Rightarrow> k = KUint8
      | VBytes s \<Rightarrow> k \<in> {KString, KBytes, KRest} \<or> k = KArray (length s)
      | VNames ns \<Rightarrow> k = KNames
      | VInt n \<Rightarrow> k = KBigInt
      | VOther \<Rightarrow> k \<in> {KBadArray, KBadSlice, KBadPtr, KOther})"

text \<open>The type byte, zero when the tag is absent.\<close>

definition typeTag :: "struct_type \<Rightarrow> 8 word" where
  "typeTag t = (case st_tag t of None \<Rightarrow> 0 | Some i \<Rightarrow> word_of_nat i)"

datatype wire_error =
    ParseError "8 word"
  | UnexpectedMessage "8 word" "8 word"
      \<comment> \<open>expected, got\<close>
  | ShortRead
  | FieldError string string string
      \<comment> \<open>field, type, problem\<close>
  | OtherError string

datatype 'a parsed = Parsed 'a | Malformed wire_error | Crash panic

definition fieldError :: "struct_type \<Rightarrow> string \<Rightarrow> string \<Rightarrow> wire_error" where
  "fieldError t field problem = FieldError field (st_name t) problem"

section \<open>\<open>Unmarshal\<close>\<close>

definition from_optional :: "wire_error \<Rightarrow> ('a \<Rightarrow> fval) \<Rightarrow> panic + ('a \<times> bytes) option \<Rightarrow> (fval \<times> bytes) parsed" where
  "from_optional e mk r =
     (case r of Inl c \<Rightarrow> Crash c | Inr None \<Rightarrow> Malformed e | Inr (Some (x, rest)) \<Rightarrow> Parsed (mk x, rest))"

text \<open>One turn of the loop: the value of the field and the rest of the data.\<close>

fun unmarshalField :: "struct_type \<Rightarrow> string \<times> kind \<Rightarrow> bytes \<Rightarrow> (fval \<times> bytes) parsed" where
  "unmarshalField t (f, KBool) data =
     (if data = [] then Malformed ShortRead else Parsed (VBool (hd data \<noteq> 0), tl data))"
| "unmarshalField t (f, KArray n) data =
     (if length data < n then Malformed ShortRead else Parsed (VBytes (take n data), drop n data))"
| "unmarshalField t (f, KUint64) data = from_optional ShortRead VU64 (Inr (parseUint64 data))"
| "unmarshalField t (f, KUint32) data = from_optional ShortRead VU32 (Inr (parseUint32 data))"
| "unmarshalField t (f, KUint8) data =
     (if data = [] then Malformed ShortRead else Parsed (VU8 (hd data), tl data))"
| "unmarshalField t (f, KString) data = from_optional (fieldError t f '''') VBytes (parseString data)"
| "unmarshalField t (f, KBytes) data = from_optional ShortRead VBytes (parseString data)"
| "unmarshalField t (f, KRest) data = Parsed (VBytes data, [])"
| "unmarshalField t (f, KNames) data = from_optional ShortRead VNames (parseNameList data)"
| "unmarshalField t (f, KBigInt) data = from_optional ShortRead VInt (parseInt data)"
| "unmarshalField t (f, KBadArray) data = Malformed (fieldError t f ''array of unsupported type'')"
| "unmarshalField t (f, KBadSlice) data = Malformed (fieldError t f ''slice of unsupported type'')"
| "unmarshalField t (f, KBadPtr) data = Malformed (fieldError t f ''pointer to unsupported type'')"
| "unmarshalField t (f, KOther) data = Malformed (fieldError t f ''unsupported type'')"

text \<open>The loop over the fields, and the check that nothing is left.\<close>

fun unmarshalFields :: "struct_type \<Rightarrow> (string \<times> kind) list \<Rightarrow> bytes \<Rightarrow> fval list parsed" where
  "unmarshalFields t [] data = (if data \<noteq> [] then Malformed (ParseError (typeTag t)) else Parsed [])"
| "unmarshalFields t (f # fs) data =
     (case unmarshalField t f data of
        Malformed e \<Rightarrow> Malformed e
      | Crash c \<Rightarrow> Crash c
      | Parsed (v, rest) \<Rightarrow>
          (case unmarshalFields t fs rest of
             Malformed e \<Rightarrow> Malformed e | Crash c \<Rightarrow> Crash c | Parsed vs \<Rightarrow> Parsed (v # vs)))"

definition Unmarshal :: "bytes \<Rightarrow> struct_type \<Rightarrow> fval list parsed" where
  "Unmarshal data t =
     (let expectedType = typeTag t in
      if data = [] then Malformed (ParseError expectedType)
      else if expectedType > 0 then
        (if hd data \<noteq> expectedType then Malformed (UnexpectedMessage expectedType (hd data))
         else unmarshalFields t (st_fields t) (tl data))
      else unmarshalFields t (st_fields t) data)"

section \<open>\<open>Marshal\<close>\<close>

text \<open>
  The name list case, which overwrites the length, and one turn of the loop of \<open>marshalStruct\<close> on
  field \<open>i\<close>. The value tells the kind, except for byte slices, strings and arrays and for the types
  that are not supported; a field of another kind is skipped. A big integer is written into the
  tail of \<open>out\<close> that \<open>intLength\<close> made room for.
\<close>

definition marshalNames :: "bytes \<Rightarrow> bytes list \<Rightarrow> bytes" where
  "marshalNames out ns =
     (let offset = length out; out1 = appendU32 out 0 in
      if ns \<noteq> [] then
        let out2 = out1 @ joinNames ns
        in take offset out2 @ u32be (word_of_nat (length out2 - offset - 4)) @ drop (offset + 4) out2
      else out1)"

definition marshalField :: "nat \<Rightarrow> bytes \<Rightarrow> kind \<Rightarrow> fval \<Rightarrow> panic + bytes" where
  "marshalField i out k v =
     (case v of
        VBool b \<Rightarrow> Inr (out @ [if b then 1 else 0])
      | VU32 w \<Rightarrow> Inr (appendU32 out w)
      | VU64 w \<Rightarrow> Inr (appendU64 out w)
      | VU8 w \<Rightarrow> Inr (out @ [w])
      | VBytes s \<Rightarrow>
          (case k of
             KArray n \<Rightarrow> Inr (out @ s)
           | KRest \<Rightarrow> Inr (out @ s)
           | _ \<Rightarrow> Inr (appendInt out (length s) @ s))
      | VNames ns \<Rightarrow> Inr (marshalNames out ns)
      | VInt n \<Rightarrow> map_sum id (\<lambda>b. out @ b) (writeInt n)
      | VOther \<Rightarrow>
          (case k of
             KOther \<Rightarrow> Inr out
           | _ \<Rightarrow> Inl (UnsupportedField i)))"

fun marshalFields :: "nat \<Rightarrow> bytes \<Rightarrow> kind list \<Rightarrow> fval list \<Rightarrow> panic + bytes" where
  "marshalFields i out (k # ks) (v # vs) =
     (case marshalField i out k v of Inl e \<Rightarrow> Inl e | Inr out' \<Rightarrow> marshalFields (i + 1) out' ks vs)"
| "marshalFields i out _ _ = Inr out"

definition marshalStruct :: "bytes \<Rightarrow> struct_type \<Rightarrow> fval list \<Rightarrow> panic + bytes" where
  "marshalStruct out t vs =
     (let msgType = typeTag t
      in marshalFields 0 (if msgType > 0 then out @ [msgType] else out) (map snd (st_fields t)) vs)"

definition Marshal :: "struct_type \<Rightarrow> fval list \<Rightarrow> panic + bytes" where
  "Marshal t vs = marshalStruct [] t vs"

section \<open>Round trips of the parts\<close>

lemma parseString_append [simp]:
  assumes "4 + length s + length rest < 2 ^ 32"
  shows "parseString (u32be (word_of_nat (length s)) @ s @ rest) = Inr (Some (s, rest))"
proof -
  let ?inp = "u32be (word_of_nat (length s)) @ s @ rest"
  have l: "length ?inp = 4 + length s + length rest" by simp
  have w: "4 + be32 ?inp = word_of_nat (4 + length s)" by simp
  have u: "unat (word_of_nat (4 + length s) :: 32 word) = 4 + length s"
    using assms by (simp only: unat_of_nat) simp
  have ul: "unat (word_of_nat (length ?inp) :: 32 word) = length ?inp"
    using assms by (simp only: unat_of_nat l) simp
  have nl: "\<not> word_of_nat (length ?inp) < (word_of_nat (4 + length s) :: 32 word)"
    unfolding word_less_nat_alt u ul by (simp add: l)
  show ?thesis
    unfolding parseString_def Let_def w u
    using nl l by (simp add: substr_def del: length_append)
qed

lemma parseString_whole [simp]:
  "4 + length s < 2 ^ 32 \<Longrightarrow> parseString (u32be (word_of_nat (length s)) @ s) = Inr (Some (s, []))"
  using parseString_append [of s "[]"] by simp

lemma splitComma_ne [simp]: "splitComma bs \<noteq> []"
  by (induction bs) (auto split: list.split)

lemma splitComma_plain: "comma \<notin> set n \<Longrightarrow> splitComma n = [n]"
  by (induction n) auto

lemma splitComma_sep: "comma \<notin> set n \<Longrightarrow> splitComma (n @ comma # bs) = n # splitComma bs"
  by (induction n) (auto split: list.split)

lemma splitComma_join:
  "ns \<noteq> [] \<Longrightarrow> \<forall>n \<in> set ns. comma \<notin> set n \<Longrightarrow> splitComma (joinNames ns) = ns"
  by (induction ns rule: joinNames.induct) (simp_all add: splitComma_plain splitComma_sep)

lemma joinNames_Nil: "joinNames ns = [] \<longleftrightarrow> ns = [] \<or> ns = [[]]"
  by (induction ns rule: joinNames.induct) simp_all

text \<open>The names a name list can carry.\<close>

definition names_ok :: "bytes list \<Rightarrow> bool" where
  "names_ok ns \<longleftrightarrow> ns \<noteq> [[]] \<and> (\<forall>n \<in> set ns. comma \<notin> set n)"

lemma parseNameList_append:
  assumes "4 + length (joinNames ns) + length rest < 2 ^ 32" "names_ok ns"
  shows "parseNameList (u32be (word_of_nat (length (joinNames ns))) @ joinNames ns @ rest) = Inr (Some (ns, rest))"
  unfolding parseNameList_def parseString_append [OF assms(1)]
  using assms(2) splitComma_join [of ns] by (cases "ns = []") (auto simp: names_ok_def joinNames_Nil)

lemma marshalNames_eq:
  "marshalNames out ns = out @ u32be (word_of_nat (length (joinNames ns))) @ joinNames ns"
  by (cases "ns = []") (simp_all add: marshalNames_def appendU32_def Let_def)

section \<open>Round trip of the integers\<close>

lemma bitLen_le: "bitLen n \<le> k \<longleftrightarrow> n < 2 ^ k"
proof (induction k arbitrary: n)
  case 0
  show ?case by (simp add: bitLen.simps [of n])
next
  case (Suc k)
  show ?case
  proof (cases "n = 0")
    case False
    then have "bitLen n \<le> Suc k \<longleftrightarrow> bitLen (n div 2) \<le> k" by (simp add: bitLen.simps [of n])
    also have "\<dots> \<longleftrightarrow> n < 2 ^ Suc k" unfolding Suc.IH by (simp add: div_less_iff_less_mult mult.commute)
    finally show ?thesis .
  qed (simp add: bitLen.simps)
qed

lemma bitLen_div: "256 \<le> n \<Longrightarrow> bitLen n = bitLen (n div 256) + 8"
proof -
  assume n: "256 \<le> n"
  have le: "bitLen n \<le> k + 8 \<longleftrightarrow> bitLen (n div 256) \<le> k" for k
    unfolding bitLen_le by (simp add: power_add div_less_iff_less_mult)
  have "\<not> bitLen n \<le> 7" using n unfolding bitLen_le by simp
  then have "bitLen n = bitLen n - 8 + 8" by simp
  with le [of "bitLen n - 8"] le [of "bitLen (n div 256)"] show ?thesis by simp
qed

lemma bitLen_byte: "0 < n \<Longrightarrow> n < 256 \<Longrightarrow> 0 < bitLen n \<and> bitLen n \<le> 8 \<and> (bitLen n = 8 \<longleftrightarrow> 128 \<le> n)"
  using bitLen_le [of n 0] bitLen_le [of n 8] bitLen_le [of n 7] by auto

lemma natBytes_step: "0 < n \<Longrightarrow> natBytes n = natBytes (n div 256) @ [word_of_nat n]"
  by (subst natBytes.simps) simp

lemma natBytes_0 [simp]: "natBytes 0 = []"
  by (subst natBytes.simps) simp

lemma natBytes_Nil [simp]: "natBytes n = [] \<longleftrightarrow> n = 0"
  by (subst natBytes.simps) simp

lemma unat_of_byte: "unat (word_of_nat n :: 8 word) = n mod 256"
  by (simp add: unat_of_nat)

lemma bigNat_natBytes [simp]: "bigNat (natBytes n) = n"
proof (induction n rule: natBytes.induct)
  case (1 n)
  then show ?case by (cases "n = 0") (simp_all add: natBytes_step unat_of_byte)
qed

lemma length_natBytes: "length (natBytes n) = (bitLen n + 7) div 8"
proof (induction n rule: natBytes.induct)
  case (1 n)
  consider "n = 0" | "0 < n" "n < 256" | "256 \<le> n" by linarith
  then show ?case
  proof cases
    case 1
    then show ?thesis by (simp add: bitLen.simps)
  next
    case 2
    then have "length (natBytes n) = 1" by (simp add: natBytes_step)
    moreover have "(bitLen n + 7) div 8 = 1" using bitLen_byte [OF 2] by presburger
    ultimately show ?thesis by simp
  next
    case 3
    then have "n \<noteq> 0" by simp
    with "1.IH" 3 show ?thesis by (simp add: natBytes_step bitLen_div)
  qed
qed

lemma top_bit: "(w :: 8 word) AND 0x80 = 0 \<longleftrightarrow> unat w < 128"
proof -
  have "w AND 2 ^ 7 = 0 \<longleftrightarrow> \<not> bit w 7" by (rule and_exp_eq_0_iff_not_bit)
  also have "bit w 7 \<longleftrightarrow> bit (unat w) 7" by (simp add: bit_unsigned_iff)
  also have "bit (unat w) 7 \<longleftrightarrow> odd (unat w div 2 ^ 7)" by (rule bit_iff_odd)
  also have "\<not> odd (unat w div 2 ^ 7) \<longleftrightarrow> unat w < 128"
  proof -
    have "unat w div 2 ^ 7 < 2" using unsigned_less [of w, where ?'a = nat] by (simp add: less_mult_imp_div_less)
    then have "odd (unat w div 2 ^ 7) \<longleftrightarrow> unat w div 2 ^ 7 \<noteq> 0" by (auto simp: less_2_cases_iff)
    then show ?thesis by (simp add: div_eq_0_iff)
  qed
  finally show ?thesis by simp
qed

lemma top_bit_NOT: "(NOT w :: 8 word) AND 0x80 = 0 \<longleftrightarrow> w AND 0x80 \<noteq> 0"
proof -
  have "NOT w AND 2 ^ 7 = 0 \<longleftrightarrow> \<not> w AND 2 ^ 7 = 0"
    by (simp only: and_exp_eq_0_iff_not_bit bit_not_iff) simp
  then show ?thesis by simp
qed

lemma top_bit_cases: "(w :: 8 word) AND 0x80 = 0 \<or> w AND 0x80 = 0x80"
proof -
  have "w AND 2 ^ 7 = (if bit w 7 then 2 ^ 7 else 0)"
  proof (rule bit_eqI)
    fix k
    show "bit (w AND 2 ^ 7) k = bit (if bit w 7 then 2 ^ 7 else (0 :: 8 word)) k"
      by (cases "bit w 7") (auto simp only: bit_and_iff bit_exp_iff if_True if_False bit_0_eq)
  qed
  then show ?thesis by (simp split: if_splits)
qed

lemma xor_ff: "(b :: 8 word) XOR 0xff = NOT b"
proof -
  have "0xff = (- 1 :: 8 word)" by simp
  then have "b XOR 0xff = b XOR - 1" by (simp only:)
  also have "\<dots> = NOT b" by (rule bit.xor_one_right)
  finally show ?thesis .
qed

lemma hd_natBytes: "0 < n \<Longrightarrow> hd (natBytes n) AND 0x80 \<noteq> 0 \<longleftrightarrow> bitLen n mod 8 = 0"
proof (induction n rule: natBytes.induct)
  case (1 n)
  show ?case
  proof (cases "n < 256")
    case True
    then have "natBytes n = [word_of_nat n]" using "1.prems" by (simp add: natBytes_step)
    moreover have "bitLen n mod 8 = 0 \<longleftrightarrow> 128 \<le> n" using bitLen_byte [of n] True "1.prems" by presburger
    ultimately show ?thesis using True by (simp add: top_bit unat_of_byte not_less)
  next
    case False
    then have n: "256 \<le> n" "n div 256 \<noteq> 0" by (simp_all add: div_eq_0_iff)
    have "hd (natBytes n) = hd (natBytes (n div 256))"
      using n "1.prems" by (subst natBytes_step) (simp_all add: hd_append)
    moreover have "bitLen n mod 8 = bitLen (n div 256) mod 8" using n by (simp add: bitLen_div)
    ultimately show ?thesis using "1.IH" "1.prems" n by simp
  qed
qed

lemma map_xor_ff: "map (\<lambda>b. b XOR 0xff) bs = map NOT (bs :: bytes)"
  by (simp only: xor_ff)

text \<open>\<open>intLength\<close> is the room \<open>marshalInt\<close> needs, so it writes all of the number and no more.\<close>

lemma length_int: "intLength n = 4 + length (intPad n @ intBytes n)"
proof -
  have pad: "bs \<noteq> [] \<Longrightarrow> hd (map NOT bs) AND 0x80 = 0 \<longleftrightarrow> hd bs AND 0x80 \<noteq> 0" for bs :: bytes
    using top_bit_NOT by (simp add: hd_map)
  consider "n < 0" | "n = 0" | "0 < n" by linarith
  then show ?thesis
  proof cases
    case 1
    let ?m = "nat (- n - 1)"
    show ?thesis
    proof (cases "?m = 0")
      case True
      then show ?thesis using 1 by (simp add: intLength_def intPad_def intBytes_def bitLen.simps)
    next
      case False
      then have "hd (map NOT (natBytes ?m)) AND 0x80 = 0 \<longleftrightarrow> bitLen ?m mod 8 = 0"
        using pad [of "natBytes ?m"] hd_natBytes [of ?m] by simp
      then show ?thesis using 1 False
        by (simp add: intLength_def intPad_def intBytes_def Let_def length_natBytes map_xor_ff del: xor_ff)
    qed
  next
    case 2
    then show ?thesis by (simp add: intLength_def intPad_def intBytes_def)
  next
    case 3
    then show ?thesis using hd_natBytes [of "nat n"]
      by (simp add: intLength_def intPad_def intBytes_def Let_def length_natBytes)
  qed
qed

lemma marshalInt_all:
  "marshalInt (replicate (intLength n) 0) n =
    Inr (u32be (word_of_nat (length (intPad n @ intBytes n))) @ intPad n @ intBytes n, [])"
  using length_int [of n] by (simp add: marshalInt_def Let_def)

lemma writeInt_eq: "writeInt n = Inr (u32be (word_of_nat (length (intPad n @ intBytes n))) @ intPad n @ intBytes n)"
  by (simp only: writeInt_def marshalInt_all) simp

lemma parseInt_append:
  assumes "4 + length (intPad n @ intBytes n) + length rest < 2 ^ 32"
  shows "parseInt (u32be (word_of_nat (length (intPad n @ intBytes n))) @ (intPad n @ intBytes n) @ rest) =
    Inr (Some (n, rest))"
proof -
  have hd0: "(0xff :: 8 word) AND 0x80 = 0x80" "(0 :: 8 word) AND 0x80 = 0" by simp_all
  let ?c = "intPad n @ intBytes n"
  have "(if ?c \<noteq> [] \<and> hd ?c AND 0x80 = 0x80 then - (int (bigNat (map NOT ?c)) + 1) else int (bigNat ?c)) = n"
  proof -
    consider "n < 0" | "n = 0" | "0 < n" by linarith
    then show ?thesis
    proof cases
      case 1
      let ?bs = "natBytes (nat (- n - 1))"
      have b: "intBytes n = map NOT ?bs" using 1 by (simp add: intBytes_def map_xor_ff)
      have "?c \<noteq> [] \<and> hd ?c AND 0x80 = 0x80 \<and> bigNat (map NOT ?c) = bigNat ?bs"
      proof (cases "map NOT ?bs = [] \<or> hd (map NOT ?bs) AND 0x80 = 0")
        case True
        then have "intPad n = [0xff]" using 1 unfolding intPad_def by (simp only: map_xor_ff Let_def if_True)
        then show ?thesis using b by (simp add: bigNat_Cons o_def)
      next
        case False
        then have "intPad n = []" using 1 unfolding intPad_def by (simp only: map_xor_ff Let_def if_True if_False)
        then show ?thesis using b False top_bit_cases [of "hd (map NOT ?bs)"] by (simp add: o_def)
      qed
      then show ?thesis using 1 by simp
    next
      case 2
      then show ?thesis by (simp add: intPad_def intBytes_def)
    next
      case 3
      let ?bs = "natBytes (nat n)"
      have b: "intBytes n = ?bs" using 3 by (simp add: intBytes_def)
      have "\<not> (?c \<noteq> [] \<and> hd ?c AND 0x80 = 0x80) \<and> bigNat ?c = bigNat ?bs"
        using 3 b by (simp add: intPad_def Let_def bigNat_Cons)
      then show ?thesis using 3 by simp
    qed
  qed
  then show ?thesis
    using parseString_append [of ?c rest] assms by (simp only: parseInt_def) (simp add: Let_def)
qed

section \<open>The messages\<close>

definition disconnectMsg :: struct_type where
  "disconnectMsg = \<lparr>st_name = ''disconnectMsg'', st_tag = Some 1, st_fields =
    [(''Reason'', KUint32), (''Message'', KString), (''Language'', KString)]\<rparr>"

definition kexInitMsg :: struct_type where
  "kexInitMsg = \<lparr>st_name = ''kexInitMsg'', st_tag = Some 20, st_fields =
    [(''Cookie'', KArray 16), (''KexAlgos'', KNames), (''ServerHostKeyAlgos'', KNames),
     (''CiphersClientServer'', KNames), (''CiphersServerClient'', KNames),
     (''MACsClientServer'', KNames), (''MACsServerClient'', KNames),
     (''CompressionClientServer'', KNames), (''CompressionServerClient'', KNames),
     (''LanguagesClientServer'', KNames), (''LanguagesServerClient'', KNames),
     (''FirstKexFollows'', KBool), (''Reserved'', KUint32)]\<rparr>"

definition kexDHInitMsg :: struct_type where
  "kexDHInitMsg = \<lparr>st_name = ''kexDHInitMsg'', st_tag = Some 30, st_fields =
    [(''X'', KBigInt)]\<rparr>"

definition kexECDHInitMsg :: struct_type where
  "kexECDHInitMsg = \<lparr>st_name = ''kexECDHInitMsg'', st_tag = Some 30, st_fields =
    [(''ClientPubKey'', KBytes)]\<rparr>"

definition kexECDHReplyMsg :: struct_type where
  "kexECDHReplyMsg = \<lparr>st_name = ''kexECDHReplyMsg'', st_tag = Some 31, st_fields =
    [(''HostKey'', KBytes), (''EphemeralPubKey'', KBytes), (''Signature'', KBytes)]\<rparr>"

definition kexDHReplyMsg :: struct_type where
  "kexDHReplyMsg = \<lparr>st_name = ''kexDHReplyMsg'', st_tag = Some 31, st_fields =
    [(''HostKey'', KBytes), (''Y'', KBigInt), (''Signature'', KBytes)]\<rparr>"

definition serviceRequestMsg :: struct_type where
  "serviceRequestMsg = \<lparr>st_name = ''serviceRequestMsg'', st_tag = Some 5, st_fields =
    [(''Service'', KString)]\<rparr>"

definition serviceAcceptMsg :: struct_type where
  "serviceAcceptMsg = \<lparr>st_name = ''serviceAcceptMsg'', st_tag = Some 6, st_fields =
    [(''Service'', KString)]\<rparr>"

definition userAuthRequestMsg :: struct_type where
  "userAuthRequestMsg = \<lparr>st_name = ''userAuthRequestMsg'', st_tag = Some 50, st_fields =
    [(''User'', KString), (''Service'', KString), (''Method'', KString),
     (''Payload'', KRest)]\<rparr>"

definition userAuthFailureMsg :: struct_type where
  "userAuthFailureMsg = \<lparr>st_name = ''userAuthFailureMsg'', st_tag = Some 51, st_fields =
    [(''Methods'', KNames), (''PartialSuccess'', KBool)]\<rparr>"

definition userAuthInfoRequestMsg :: struct_type where
  "userAuthInfoRequestMsg = \<lparr>st_name = ''userAuthInfoRequestMsg'', st_tag = Some 60, st_fields =
    [(''User'', KString), (''Instruction'', KString), (''DeprecatedLanguage'', KString),
     (''NumPrompts'', KUint32), (''Prompts'', KRest)]\<rparr>"

definition channelOpenMsg :: struct_type where
  "channelOpenMsg = \<lparr>st_name = ''channelOpenMsg'', st_tag = Some 90, st_fields =
    [(''ChanType'', KString), (''PeersId'', KUint32), (''PeersWindow'', KUint32),
     (''MaxPacketSize'', KUint32), (''TypeSpecificData'', KRest)]\<rparr>"

definition channelOpenConfirmMsg :: struct_type where
  "channelOpenConfirmMsg = \<lparr>st_name = ''channelOpenConfirmMsg'', st_tag = Some 91, st_fields =
    [(''PeersId'', KUint32), (''MyId'', KUint32), (''MyWindow'', KUint32),
     (''MaxPacketSize'', KUint32), (''TypeSpecificData'', KRest)]\<rparr>"

definition channelOpenFailureMsg :: struct_type where
  "channelOpenFailureMsg = \<lparr>st_name = ''channelOpenFailureMsg'', st_tag = Some 92, st_fields =
    [(''PeersId'', KUint32), (''Reason'', KUint32), (''Message'', KString),
     (''Language'', KString)]\<rparr>"

definition channelRequestMsg :: struct_type where
  "channelRequestMsg = \<lparr>st_name = ''channelRequestMsg'', st_tag = Some 98, st_fields =
    [(''PeersId'', KUint32), (''Request'', KString), (''WantReply'', KBool),
     (''RequestSpecificData'', KRest)]\<rparr>"

definition channelRequestSuccessMsg :: struct_type where
  "channelRequestSuccessMsg = \<lparr>st_name = ''channelRequestSuccessMsg'', st_tag = Some 99, st_fields =
    [(''PeersId'', KUint32)]\<rparr>"

definition channelRequestFailureMsg :: struct_type where
  "channelRequestFailureMsg = \<lparr>st_name = ''channelRequestFailureMsg'', st_tag = Some 100, st_fields =
    [(''PeersId'', KUint32)]\<rparr>"

definition channelCloseMsg :: struct_type where
  "channelCloseMsg = \<lparr>st_name = ''channelCloseMsg'', st_tag = Some 97, st_fields =
    [(''PeersId'', KUint32)]\<rparr>"

definition channelEOFMsg :: struct_type where
  "channelEOFMsg = \<lparr>st_name = ''channelEOFMsg'', st_tag = Some 96, st_fields =
    [(''PeersId'', KUint32)]\<rparr>"

definition globalRequestMsg :: struct_type where
  "globalRequestMsg = \<lparr>st_name = ''globalRequestMsg'', st_tag = Some 80, st_fields =
    [(''Type'', KString), (''WantReply'', KBool), (''Data'', KRest)]\<rparr>"

definition globalRequestSuccessMsg :: struct_type where
  "globalRequestSuccessMsg = \<lparr>st_name = ''globalRequestSuccessMsg'', st_tag = Some 81, st_fields =
    [(''Data'', KRest)]\<rparr>"

definition globalRequestFailureMsg :: struct_type where
  "globalRequestFailureMsg = \<lparr>st_name = ''globalRequestFailureMsg'', st_tag = Some 82, st_fields =
    [(''Data'', KRest)]\<rparr>"

definition windowAdjustMsg :: struct_type where
  "windowAdjustMsg = \<lparr>st_name = ''windowAdjustMsg'', st_tag = Some 93, st_fields =
    [(''PeersId'', KUint32), (''AdditionalBytes'', KUint32)]\<rparr>"

definition userAuthPubKeyOkMsg :: struct_type where
  "userAuthPubKeyOkMsg = \<lparr>st_name = ''userAuthPubKeyOkMsg'', st_tag = Some 60, st_fields =
    [(''Algo'', KString), (''PubKey'', KBytes)]\<rparr>"

lemmas message_types =
  disconnectMsg_def kexInitMsg_def kexDHInitMsg_def kexECDHInitMsg_def kexECDHReplyMsg_def
  kexDHReplyMsg_def serviceRequestMsg_def serviceAcceptMsg_def userAuthRequestMsg_def
  userAuthFailureMsg_def userAuthInfoRequestMsg_def channelOpenMsg_def
  channelOpenConfirmMsg_def channelOpenFailureMsg_def channelRequestMsg_def
  channelRequestSuccessMsg_def channelRequestFailureMsg_def channelCloseMsg_def
  channelEOFMsg_def globalRequestMsg_def globalRequestSuccessMsg_def
  globalRequestFailureMsg_def windowAdjustMsg_def userAuthPubKeyOkMsg_def

text \<open>The switch of \<open>decode\<close>, and \<open>decode\<close>: the type of the message and its values.\<close>

definition messageType :: "8 word \<Rightarrow> struct_type option" where
  "messageType b =
     (if b = 1 then Some disconnectMsg
      else if b = 5 then Some serviceRequestMsg
      else if b = 6 then Some serviceAcceptMsg
      else if b = 20 then Some kexInitMsg
      else if b = 30 then Some kexDHInitMsg
      else if b = 31 then Some kexDHReplyMsg
      else if b = 50 then Some userAuthRequestMsg
      else if b = 51 then Some userAuthFailureMsg
      else if b = 60 then Some userAuthPubKeyOkMsg
      else if b = 80 then Some globalRequestMsg
      else if b = 81 then Some globalRequestSuccessMsg
      else if b = 82 then Some globalRequestFailureMsg
      else if b = 90 then Some channelOpenMsg
      else if b = 91 then Some channelOpenConfirmMsg
      else if b = 92 then Some channelOpenFailureMsg
      else if b = 93 then Some windowAdjustMsg
      else if b = 96 then Some channelEOFMsg
      else if b = 97 then Some channelCloseMsg
      else if b = 98 then Some channelRequestMsg
      else if b = 99 then Some channelRequestSuccessMsg
      else if b = 100 then Some channelRequestFailureMsg
      else None)"

definition decode :: "bytes \<Rightarrow> (struct_type \<times> fval list) parsed" where
  "decode packet =
     (case packet of
        [] \<Rightarrow> Crash IndexOutOfRange
      | b # _ \<Rightarrow>
          (case messageType b of
             None \<Rightarrow> Malformed (UnexpectedMessage 0 b)
           | Some t \<Rightarrow>
               (case Unmarshal packet t of
                  Parsed vs \<Rightarrow> Parsed (t, vs) | Malformed e \<Rightarrow> Malformed e | Crash c \<Rightarrow> Crash c)))"

section \<open>Round trip of messages\<close>

text \<open>What can be carried: names without commas, and values of supported kinds.\<close>

definition value_ok :: "fval \<Rightarrow> bool" where
  "value_ok v = (case v of VNames ns \<Rightarrow> names_ok ns | VOther \<Rightarrow> False | _ \<Rightarrow> True)"

definition values_ok :: "struct_type \<Rightarrow> fval list \<Rightarrow> bool" where
  "values_ok t vs \<longleftrightarrow> list_all2 (\<lambda>f v. typed (snd f) v \<and> value_ok v) (st_fields t) vs"

definition rest_last :: "struct_type \<Rightarrow> bool" where
  "rest_last t \<longleftrightarrow> KRest \<notin> set (butlast (map snd (st_fields t)))"

lemma marshalField_inverse:
  assumes "typed k v" "value_ok v"
  obtains bs where "\<And>i out. marshalField i out k v = Inr (out @ bs)"
    "\<And>f rest. length bs + length rest < 2 ^ 32 \<Longrightarrow> (k = KRest \<Longrightarrow> rest = []) \<Longrightarrow>
       unmarshalField t (f, k) (bs @ rest) = Parsed (v, rest)"
proof (cases v)
  case (VBool b)
  then show ?thesis using assms that [of "[if b then 1 else 0]"] by (simp add: typed_def marshalField_def)
next
  case (VU64 w)
  then show ?thesis using assms that [of "u64be w"]
    by (simp add: typed_def marshalField_def appendU64_def parseUint64_def from_optional_def)
next
  case (VU32 w)
  then show ?thesis using assms that [of "u32be w"]
    by (simp add: typed_def marshalField_def appendU32_def parseUint32_def from_optional_def)
next
  case (VU8 w)
  then show ?thesis using assms that [of "[w]"] by (simp add: typed_def marshalField_def)
next
  case (VBytes s)
  then consider "k = KString" | "k = KBytes" | "k = KRest" | "k = KArray (length s)"
    using assms by (auto simp: typed_def)
  then show ?thesis
  proof cases
    case 1
    then show ?thesis using VBytes that [of "u32be (word_of_nat (length s)) @ s"]
      by (simp add: marshalField_def appendInt_def appendU32_def from_optional_def)
  next
    case 2
    then show ?thesis using VBytes that [of "u32be (word_of_nat (length s)) @ s"]
      by (simp add: marshalField_def appendInt_def appendU32_def from_optional_def)
  next
    case 3
    then show ?thesis using VBytes that [of s] by (simp add: marshalField_def)
  next
    case 4
    then show ?thesis using VBytes that [of s] by (simp add: marshalField_def)
  qed
next
  case (VNames ns)
  then show ?thesis using assms that [of "u32be (word_of_nat (length (joinNames ns))) @ joinNames ns"]
    by (simp add: typed_def value_ok_def marshalField_def marshalNames_eq parseNameList_append from_optional_def)
next
  case (VInt n)
  let ?c = "intPad n @ intBytes n"
  have "unmarshalField t (f, KBigInt) ((u32be (word_of_nat (length ?c)) @ ?c) @ rest) = Parsed (VInt n, rest)"
    if "length (u32be (word_of_nat (length ?c)) @ ?c) + length rest < 2 ^ 32" for f rest
    using that parseInt_append [of n rest] by (simp add: from_optional_def)
  then show ?thesis using VInt assms that [of "u32be (word_of_nat (length ?c)) @ ?c"]
    by (simp add: typed_def marshalField_def writeInt_eq)
next
  case VOther
  then show ?thesis using assms by (simp add: value_ok_def)
qed

lemma marshalFields_inverse:
  assumes "list_all2 (\<lambda>f v. typed (snd f) v \<and> value_ok v) fs vs" "KRest \<notin> set (butlast (map snd fs))"
  shows "\<exists>bs. (\<forall>i out. marshalFields i out (map snd fs) vs = Inr (out @ bs)) \<and>
    (length bs < 2 ^ 32 \<longrightarrow> unmarshalFields t fs bs = Parsed vs)"
  using assms
proof (induction fs vs rule: list_all2_induct)
  case Nil
  then show ?case by simp
next
  case (Cons f fs v vs)
  obtain x k where f: "f = (x, k)" by (cases f)
  from Cons.hyps f have tv: "typed k v" "value_ok v" by simp_all
  obtain b where b: "\<And>i out. marshalField i out k v = Inr (out @ b)"
    "\<And>f rest. length b + length rest < 2 ^ 32 \<Longrightarrow> (k = KRest \<Longrightarrow> rest = []) \<Longrightarrow>
       unmarshalField t (f, k) (b @ rest) = Parsed (v, rest)"
    by (rule marshalField_inverse [OF tv, where t = t]) blast
  have "KRest \<notin> set (butlast (map snd fs))" using Cons.prems by (cases fs) auto
  then obtain bs where bs: "\<And>i out. marshalFields i out (map snd fs) vs = Inr (out @ bs)"
    "length bs < 2 ^ 32 \<longrightarrow> unmarshalFields t fs bs = Parsed vs"
    using Cons.IH by blast
  have "bs = []" if "k = KRest"
  proof -
    from that Cons.prems f have "fs = []" by (cases fs) auto
    then show ?thesis using bs(1) [of 0 "[]"] by (simp add: Cons.hyps)
  qed
  then have "unmarshalFields t (f # fs) (b @ bs) = Parsed (v # vs)" if "length (b @ bs) < 2 ^ 32"
    using that f b(2) [of bs x] bs(2) by simp
  moreover have "marshalFields i out (map snd (f # fs)) (v # vs) = Inr (out @ b @ bs)" for i out
    using b(1) bs(1) f by simp
  ultimately show ?case by blast
qed

text \<open>\<open>Marshal\<close> does not panic, and \<open>Unmarshal\<close> reads what it wrote.\<close>

lemma Marshal_inverse:
  assumes "values_ok t vs" "rest_last t" "typeTag t > 0"
  obtains bs where "Marshal t vs = Inr (typeTag t # bs)"
    "length bs < 2 ^ 32 \<Longrightarrow> Unmarshal (typeTag t # bs) t = Parsed vs"
proof -
  from marshalFields_inverse [of "st_fields t" vs t] assms obtain bs where
    "\<And>i out. marshalFields i out (map snd (st_fields t)) vs = Inr (out @ bs)"
    "length bs < 2 ^ 32 \<longrightarrow> unmarshalFields t (st_fields t) bs = Parsed vs"
    by (auto simp: values_ok_def rest_last_def)
  then show ?thesis using assms(3) that [of bs]
    by (simp add: Marshal_def marshalStruct_def Unmarshal_def Let_def)
qed

lemma Marshal_untagged_inverse:
  assumes "values_ok t vs" "rest_last t" "st_tag t = None"
  obtains bs where "Marshal t vs = Inr bs" "bs \<noteq> [] \<Longrightarrow> length bs < 2 ^ 32 \<Longrightarrow> Unmarshal bs t = Parsed vs"
proof -
  from marshalFields_inverse [of "st_fields t" vs t] assms obtain bs where
    "\<And>i out. marshalFields i out (map snd (st_fields t)) vs = Inr (out @ bs)"
    "length bs < 2 ^ 32 \<longrightarrow> unmarshalFields t (st_fields t) bs = Parsed vs"
    by (auto simp: values_ok_def rest_last_def)
  then show ?thesis using assms(3) that [of bs]
    by (simp add: Marshal_def marshalStruct_def Unmarshal_def Let_def typeTag_def)
qed

text \<open>
  The contract between an encoder and its decoder: what the encoder writes for a good value is read
  back. Then different values have different encodings, so code that compares encodings compares values.
\<close>

locale codec =
  fixes enc :: "'a \<Rightarrow> panic + bytes"
    and dec :: "bytes \<Rightarrow> 'a parsed"
    and good :: "'a \<Rightarrow> bool"
  assumes dec_enc: "good x \<Longrightarrow> enc x = Inr b \<Longrightarrow> length b < 2 ^ 32 \<Longrightarrow> dec b = Parsed x"
begin

lemma enc_inject:
  assumes "good x" "good y" "enc x = Inr b" "enc y = Inr b" "length b < 2 ^ 32"
  shows "x = y"
  using dec_enc [OF assms(1,3,5)] dec_enc [OF assms(2,4,5)] by simp

end

lemma messageType_facts:
  "messageType b = Some t \<Longrightarrow> typeTag t = b \<and> b > 0 \<and> rest_last t"
  by (auto simp: messageType_def message_types typeTag_def rest_last_def split: if_splits)

text \<open>The messages keep the contract.\<close>

interpretation message: codec "\<lambda>(t, vs). Marshal t vs" decode "\<lambda>(t, vs). messageType (typeTag t) = Some t \<and> values_ok t vs"
proof
  fix x :: "struct_type \<times> fval list" and b
  obtain t vs where x: "x = (t, vs)" by (cases x)
  assume "case x of (t, vs) \<Rightarrow> messageType (typeTag t) = Some t \<and> values_ok t vs" "(case x of (t, vs) \<Rightarrow> Marshal t vs) = Inr b"
    and l: "length b < 2 ^ 32"
  then have g: "messageType (typeTag t) = Some t" "values_ok t vs" "Marshal t vs = Inr b" by (simp_all add: x)
  have t: "rest_last t" "typeTag t > 0" using messageType_facts [OF g(1)] by simp_all
  obtain bs where "Marshal t vs = Inr (typeTag t # bs)"
    "length bs < 2 ^ 32 \<Longrightarrow> Unmarshal (typeTag t # bs) t = Parsed vs"
    by (rule Marshal_inverse [OF g(2) t]) blast
  then show "decode b = Parsed x" using g l x by (auto simp: decode_def)
qed

section \<open>Values of decoded messages\<close>

definition u32_at :: "fval list \<Rightarrow> nat \<Rightarrow> 32 word" where
  "u32_at vs i = (case vs ! i of VU32 w \<Rightarrow> w | _ \<Rightarrow> 0)"

definition bytes_at :: "fval list \<Rightarrow> nat \<Rightarrow> bytes" where
  "bytes_at vs i = (case vs ! i of VBytes b \<Rightarrow> b | _ \<Rightarrow> [])"

definition bool_at :: "fval list \<Rightarrow> nat \<Rightarrow> bool" where
  "bool_at vs i = (case vs ! i of VBool b \<Rightarrow> b | _ \<Rightarrow> False)"

definition str :: "bytes \<Rightarrow> string" where
  "str bs = map (\<lambda>b. char_of (unat b)) bs"

definition bytes_of :: "string \<Rightarrow> bytes" where
  "bytes_of s = map (\<lambda>c. word_of_nat (of_char c)) s"

section \<open>Packets that panic\<close>

text \<open>A length that the 32-bit sum \<open>4+length\<close> wraps around.\<close>

definition overlong :: "bytes \<Rightarrow> bool" where
  "overlong bs \<longleftrightarrow> 4 \<le> length bs \<and> be32 bs \<ge> 0xFFFFFFFC"

lemma four_plus: "unat (4 + w :: 32 word) = (if w \<ge> 0xFFFFFFFC then unat w + 4 - 2 ^ 32 else 4 + unat w)"
proof -
  have w: "unat w < 2 ^ 32" using unsigned_less [of w, where ?'a = nat] by simp
  have c: "w \<ge> 0xFFFFFFFC \<longleftrightarrow> unat w \<ge> 0xFFFFFFFC" by (simp add: word_le_nat_alt)
  have "unat (4 + w) = (4 + unat w) mod 2 ^ 32" by (simp add: unat_word_ariths)
  then show ?thesis using w unfolding c by (auto simp: mod_if)
qed

lemma parseString_crash:
  assumes "length inp < 2 ^ 32"
  shows "parseString inp = Inl e \<longleftrightarrow> overlong inp \<and> e = SliceBounds"
proof -
  have l: "unat (word_of_nat (length inp) :: 32 word) = length inp"
    using assms by (simp only: unat_of_nat) simp
  have "unat (be32 inp) < 2 ^ 32" using unsigned_less [of "be32 inp", where ?'a = nat] by simp
  then show ?thesis
    using four_plus [of "be32 inp"] unfolding parseString_def Let_def word_less_nat_alt l
    by (auto simp: overlong_def)
qed

lemma parseString_suffix: "parseString inp = Inr (Some (s, rest)) \<Longrightarrow> suffix rest inp"
  by (auto simp: parseString_def Let_def suffix_drop split: if_splits)

lemma unmarshalField_suffix:
  assumes "unmarshalField t (f, k) data = Parsed (v, rest)"
  shows "suffix rest data"
  using assms
  by (cases k) (auto simp: from_optional_def parseUint32_def parseUint64_def parseNameList_def parseInt_def Let_def
      suffix_drop suffix_tl dest: parseString_suffix split: if_splits sum.splits option.splits prod.splits)

lemma unmarshalField_crash:
  assumes "unmarshalField t (f, k) data = Crash c" "length data < 2 ^ 32"
  shows "c = SliceBounds \<and> overlong data"
  using assms
  by (cases k) (auto simp: from_optional_def parseNameList_def parseInt_def Let_def parseString_crash [OF assms(2)]
      split: if_splits sum.splits option.splits prod.splits)

lemma unmarshalFields_crash:
  assumes "unmarshalFields t fs data = Crash c" "length data < 2 ^ 32"
  shows "c = SliceBounds \<and> (\<exists>bs. suffix bs data \<and> overlong bs)"
  using assms
proof (induction fs arbitrary: data)
  case (Cons f fs)
  obtain x k where f: "f = (x, k)" by (cases f)
  show ?case
  proof (cases "unmarshalField t (x, k) data")
    case (Crash d)
    then show ?thesis using Cons.prems f unmarshalField_crash [of t x k data d] by auto
  next
    case (Parsed y)
    obtain v rest where y: "y = (v, rest)" by (cases y)
    have s: "suffix rest data" using unmarshalField_suffix Parsed y by blast
    then have "length rest < 2 ^ 32" using Cons.prems(2) suffix_length_le by fastforce
    then show ?thesis using Cons.IH [of rest] Cons.prems(1) f Parsed y s
      by (auto split: parsed.splits dest: suffix_order.trans)
  qed (use Cons.prems f in simp)
qed (simp split: if_splits)

lemma decode_crash:
  assumes "decode packet = Crash c" "packet \<noteq> []" "length packet \<le> 2 ^ 32"
  shows "c = SliceBounds \<and> (\<exists>bs. suffix bs packet \<and> overlong bs)"
proof -
  obtain b data where p: "packet = b # data" using assms(2) by (cases packet) auto
  obtain t where t: "messageType b = Some t" "Unmarshal packet t = Crash c"
    using assms(1) p by (auto simp: decode_def split: option.splits parsed.splits)
  then have "unmarshalFields t (st_fields t) data = Crash c"
    using p messageType_facts [OF t(1)] by (auto simp: Unmarshal_def Let_def split: if_splits)
  from unmarshalFields_crash [OF this] show ?thesis using assms(3) p by (auto intro: suffix_ConsI)
qed

lemma Unmarshal_crash:
  assumes "Unmarshal packet t = Crash c" "length packet < 2 ^ 32"
  shows "c = SliceBounds \<and> (\<exists>bs. suffix bs packet \<and> overlong bs)"
proof (cases packet)
  case (Cons b data)
  then have "unmarshalFields t (st_fields t) data = Crash c \<or> unmarshalFields t (st_fields t) packet = Crash c"
    using assms(1) by (auto simp: Unmarshal_def Let_def split: if_splits)
  then show ?thesis
    using unmarshalFields_crash [of t "st_fields t" data c] unmarshalFields_crash [of t "st_fields t" packet c] assms(2) Cons
    by (auto intro: suffix_ConsI)
qed (use assms in \<open>simp add: Unmarshal_def Let_def\<close>)

lemma splitComma_names: "n \<in> set (splitComma bs) \<Longrightarrow> comma \<notin> set n"
  by (induction bs arbitrary: n) (auto split: list.splits if_splits)

lemma splitComma_empty: "splitComma bs = [[]] \<longleftrightarrow> bs = []"
  by (cases bs) (auto split: list.split)

text \<open>What is read into a field has the type of the field.\<close>

lemma unmarshalField_typed:
  assumes "unmarshalField t (f, k) data = Parsed (v, rest)"
  shows "typed k v \<and> value_ok v"
  using assms
  by (cases k) (auto simp: from_optional_def parseNameList_def typed_def value_ok_def names_ok_def splitComma_empty
      dest: splitComma_names split: if_splits sum.splits option.splits prod.splits)

lemma unmarshalFields_typed:
  "unmarshalFields t fs data = Parsed vs \<Longrightarrow> list_all2 (\<lambda>f v. typed (snd f) v \<and> value_ok v) fs vs"
proof (induction fs arbitrary: data vs)
  case (Cons f fs)
  obtain x k where f: "f = (x, k)" by (cases f)
  from Cons.prems f obtain v rest vs' where v: "unmarshalField t (x, k) data = Parsed (v, rest)"
    "unmarshalFields t fs rest = Parsed vs'" "vs = v # vs'"
    by (auto split: parsed.splits)
  then show ?case using Cons.IH f unmarshalField_typed [OF v(1)] by simp
qed (auto split: if_splits)

lemma Unmarshal_typed: "Unmarshal packet t = Parsed vs \<Longrightarrow> values_ok t vs"
  by (auto simp: Unmarshal_def Let_def values_ok_def dest: unmarshalFields_typed split: if_splits)

section \<open>Properties\<close>





text \<open>C34: every packet that \<open>decode\<close> accepts is read at the message type of its first byte, each field holds a
  value of the field's type, and the values can be marshalled again: \<open>Marshal\<close> does not panic on them, and
  what it writes is read back to the same values.\<close>

theorem decode_typed:
  assumes "decode packet = Parsed (t, vs)"
  shows "messageType (hd packet) = Some t \<and> values_ok t vs \<and>
    (\<exists>packet'. Marshal t vs = Inr packet' \<and> (length packet' \<le> 2 ^ 32 \<longrightarrow> decode packet' = Parsed (t, vs)))"
proof -
  have t: "messageType (hd packet) = Some t" and u: "Unmarshal packet t = Parsed vs"
    using assms by (auto simp: decode_def split: list.splits option.splits parsed.splits)
  note v = Unmarshal_typed [OF u]
  have g: "messageType (typeTag t) = Some t" "rest_last t" "typeTag t > 0"
    using t messageType_facts [OF t] by simp_all
  obtain bs where "Marshal t vs = Inr (typeTag t # bs)" "length bs < 2 ^ 32 \<Longrightarrow> Unmarshal (typeTag t # bs) t = Parsed vs"
    by (rule Marshal_inverse [OF v g(2,3)]) blast
  then have "\<exists>packet'. Marshal t vs = Inr packet' \<and> (length packet' \<le> 2 ^ 32 \<longrightarrow> decode packet' = Parsed (t, vs))"
    using g(1) by (auto simp: decode_def)
  with t v show ?thesis by blast
qed

theorem decode_typed_witness:
  "decode [51, 0, 0, 0, 3, 97, 44, 98, 7] = Parsed (userAuthFailureMsg, [VNames [[97], [98]], VBool True]) \<and>
   values_ok userAuthFailureMsg [VNames [[97], [98]], VBool True]"
proof -
  have d: "decode [51, 0, 0, 0, 3, 97, 44, 98, 7] = Parsed (userAuthFailureMsg, [VNames [[97], [98]], VBool True])"
    by (simp add: decode_def messageType_def Unmarshal_def Let_def userAuthFailureMsg_def typeTag_def from_optional_def
        parseNameList_def parseString_def be32_def bigNat_def substr_def)
  from decode_typed [OF this] d show ?thesis by simp
qed

end
