(* ===== verification/Interfaces.thy ===== *)
theory Interfaces
  imports Prelude
begin

text \<open>
  The interfaces between the dispatchers and what they run on, as contracts.

  \<open>new_channel\<close> is \<open>ssh.NewChannel\<close>: a channel the peer asks for must be accepted or rejected,
  and the first of these calls decides it.
\<close>

locale new_channel =
  fixes accept :: "'c \<Rightarrow> 'c \<times> 'x option"
    and reject :: "'c \<Rightarrow> 32 word \<Rightarrow> string \<Rightarrow> 'c \<times> 'x option"
    and is_decided :: "'c \<Rightarrow> bool"
  assumes accept_decides: "is_decided (fst (accept ch))"
    and reject_decides: "is_decided (fst (reject ch reason msg))"
    and accept_once: "is_decided ch \<Longrightarrow> \<exists>e. accept ch = (ch, Some e)"
    and reject_once: "is_decided ch \<Longrightarrow> \<exists>e. reject ch reason msg = (ch, Some e)"

end
