(* ===== verification/Ssh_Channel.thy ===== *)
theory Ssh_Channel
  imports Ssh_Wire Interfaces
begin

text \<open>
  The channel of the vendored package \<^verbatim>\<open>golang.org/x/crypto/ssh\<close> (\<^verbatim>\<open>channel.go\<close>): accepting and
  rejecting, reading and writing under flow control, closing. The packet transport below the
  channel is a parameter \<open>tr\<close>: from the packets handed to it so far and a new one to the error
  of writing it, if any. The locks of the methods make each of them a step on the state.
\<close>

section \<open>State\<close>

datatype channelDirection = channelInbound | channelOutbound

datatype message =
    ChannelOpenConfirm "32 word" "32 word" "32 word" "32 word"
      \<comment> \<open>peer's id, my id, my window, maximum packet size\<close>
  | ChannelOpenFailure "32 word" "32 word" string string
      \<comment> \<open>peer's id, reason, message, language\<close>
  | WindowAdjust "32 word" "32 word"
  | ChannelData "32 word" bytes
  | ChannelExtendedData "32 word" "32 word" bytes
  | ChannelEOF "32 word"
  | ChannelClose "32 word"
  | ChannelRequest "32 word" string bool bytes
  | ChannelSuccess "32 word"
  | ChannelFailure "32 word"

datatype chan_error =
    IoEOF
  | ErrUndecided
  | ErrDecidedAlready
  | Transport string
  | ParseErr "8 word"
  | ExceedsMaxPayload
  | WrongPacketLength
  | WroteTooMuch
  | ExtendedUnimplemented "32 word"
  | ResponseOnInbound
  | DuplicateResponse
  | InvalidMaxPacketSize "32 word"
  | InvalidWindowUpdate "32 word"
  | BadPacket wire_error
  | UnexpectedResponse

text \<open>
  A decoded message, and a \<open>Request\<close> without the reference to where it came from: its type, whether
  a reply is wanted and its payload.
\<close>

type_synonym wire_msg = "struct_type \<times> fval list"

record request =
  r_Type :: bytes
  r_WantReply :: bool
  r_Payload :: bytes

text \<open>
  The struct; \<open>sent\<close> is what was handed to the transport. \<open>msgs\<close> and \<open>requests\<close> are the contents of
  the Go channels \<open>msg\<close> and \<open>incomingRequests\<close>, both of capacity 16; they are closed together.
\<close>

record channel =
  chanType :: string
  extraData :: bytes
  localId :: "32 word"
  remoteId :: "32 word"
  maxIncomingPayload :: "32 word"
  maxRemotePayload :: "32 word"
  decided :: bool
  direction :: channelDirection
  sentEOF :: bool
  remoteWin :: window
  pending :: buffer
  extPending :: buffer
  myWindow :: "32 word"
  sentClose :: bool
  msgs :: "wire_msg list"
  requests :: "request list"
  queues_closed :: bool
  sent :: "message list"

type_synonym transport = "message list \<Rightarrow> message \<Rightarrow> string option"

definition minPacketLength :: "32 word" where "minPacketLength = 9"
definition channelMaxPacket :: "32 word" where "channelMaxPacket = push_bit 15 1"
definition channelWindowSize :: "32 word" where "channelWindowSize = 64 * channelMaxPacket"

lemma channel_constants: "unat channelMaxPacket = 32768" "unat channelWindowSize = 2097152"
  by (simp_all add: channelMaxPacket_def channelWindowSize_def push_bit_eq_mult unat_word_ariths)

text \<open>\<open>newChannel\<close>, the id that the list of channels assigned given.\<close>

definition newChannel :: "string \<Rightarrow> channelDirection \<Rightarrow> bytes \<Rightarrow> 32 word \<Rightarrow> channel" where
  "newChannel chType dir extra lid =
     \<lparr>chanType = chType, extraData = extra, localId = lid, remoteId = 0, maxIncomingPayload = 0,
      maxRemotePayload = 0, decided = False, direction = dir, sentEOF = False,
      remoteWin = new_window, pending = newBuffer, extPending = newBuffer,
      myWindow = channelWindowSize, sentClose = False, msgs = [], requests = [],
      queues_closed = False, sent = []\<rparr>"

section \<open>Sending\<close>

primrec is_close :: "message \<Rightarrow> bool" where
  "is_close (ChannelOpenConfirm a b c d) = False"
| "is_close (ChannelOpenFailure a b c d) = False"
| "is_close (WindowAdjust a b) = False"
| "is_close (ChannelData a b) = False"
| "is_close (ChannelExtendedData a b c) = False"
| "is_close (ChannelEOF a) = False"
| "is_close (ChannelClose a) = True"
| "is_close (ChannelRequest a b c d) = False"
| "is_close (ChannelSuccess a) = False"
| "is_close (ChannelFailure a) = False"

definition writePacket :: "transport \<Rightarrow> channel \<Rightarrow> message \<Rightarrow> channel \<times> chan_error option" where
  "writePacket tr c m =
     (if sentClose c then (c, Some IoEOF)
      else (c\<lparr>sentClose := is_close m, sent := sent c @ [m]\<rparr>, map_option Transport (tr (sent c) m)))"

text \<open>\<open>sendMessage\<close> overwrites the first field, the peer's id, after marshalling.\<close>

primrec set_peer :: "32 word \<Rightarrow> message \<Rightarrow> message" where
  "set_peer i (ChannelOpenConfirm a b c d) = ChannelOpenConfirm i b c d"
| "set_peer i (ChannelOpenFailure a b c d) = ChannelOpenFailure i b c d"
| "set_peer i (WindowAdjust a b) = WindowAdjust i b"
| "set_peer i (ChannelData a b) = ChannelData i b"
| "set_peer i (ChannelExtendedData a b c) = ChannelExtendedData i b c"
| "set_peer i (ChannelEOF a) = ChannelEOF i"
| "set_peer i (ChannelClose a) = ChannelClose i"
| "set_peer i (ChannelRequest a b c d) = ChannelRequest i b c d"
| "set_peer i (ChannelSuccess a) = ChannelSuccess i"
| "set_peer i (ChannelFailure a) = ChannelFailure i"

definition sendMessage :: "transport \<Rightarrow> channel \<Rightarrow> message \<Rightarrow> channel \<times> chan_error option" where
  "sendMessage tr c m = writePacket tr c (set_peer (remoteId c) m)"

text \<open>\<open>min\<close> truncates the length to 32 bits.\<close>

definition min_len :: "32 word \<Rightarrow> nat \<Rightarrow> 32 word" where
  "min_len a b = (if a < word_of_nat b then a else word_of_nat b)"

text \<open>
  The loop of \<open>WriteExtended\<close>. It waits when the window is used up, and would send empty packets
  for ever if the peer's maximum were zero: \<^const>\<open>None\<close> is not returning.
\<close>

partial_function (option) write_loop :: "transport \<Rightarrow> 32 word \<Rightarrow> channel \<Rightarrow> bytes \<Rightarrow> nat \<Rightarrow>
    (channel \<times> nat \<times> chan_error option) option" where
  "write_loop tr code c data n =
     (if data = [] then Some (c, n, None)
      else
        (case win_reserve (remoteWin c) (min_len (maxRemotePayload c) (length data)) of
           None \<Rightarrow> None
         | Some (rw, space, eof) \<Rightarrow>
             let c1 = c\<lparr>remoteWin := rw\<rparr>; todo = take (unat space) data;
                 m = (if code > 0 then ChannelExtendedData (remoteId c) code todo
                      else ChannelData (remoteId c) todo)
             in
             if eof then Some (c1, n, Some IoEOF)
             else
               (case writePacket tr c1 m of
                  (c2, Some e) \<Rightarrow> Some (c2, n, Some e)
                | (c2, None) \<Rightarrow> write_loop tr code c2 (drop (unat space) data) (n + length todo))))"

definition WriteExtended :: "transport \<Rightarrow> channel \<Rightarrow> bytes \<Rightarrow> 32 word \<Rightarrow>
    (channel \<times> nat \<times> chan_error option) option" where
  "WriteExtended tr c data code =
     (if sentEOF c then Some (c, 0, Some IoEOF) else write_loop tr code c data 0)"

section \<open>Receiving\<close>


definition msgChannelData :: "8 word" where "msgChannelData = 94"
definition msgChannelExtendedData :: "8 word" where "msgChannelExtendedData = 95"

text \<open>\<open>handleData\<close> on a packet, which is not empty.\<close>

definition handleData :: "channel \<Rightarrow> bytes \<Rightarrow> channel \<times> chan_error option" where
  "handleData c packet =
     (let isExt = (packet ! 0 = msgChannelExtendedData); headerLen = (if isExt then 13 else 9) in
      if length packet < headerLen then (c, Some (ParseErr (packet ! 0)))
      else
        let extended = (if isExt then be32 (drop 5 packet) else 0);
            len = be32 (drop (headerLen - 4) packet);
            data = drop headerLen packet
        in
        if len = 0 then (c, None)
        else if len > maxIncomingPayload c then (c, Some ExceedsMaxPayload)
        else if len \<noteq> word_of_nat (length data) then (c, Some WrongPacketLength)
        else if myWindow c < len then (c, Some WroteTooMuch)
        else
          let c1 = c\<lparr>myWindow := myWindow c - len\<rparr> in
          if extended = 1 then (c1\<lparr>extPending := buf_write (extPending c1) data\<rparr>, None)
          else if extended > 0 then (c1, None)
          else (c1\<lparr>pending := buf_write (pending c1) data\<rparr>, None))"

definition adjustWindow :: "transport \<Rightarrow> channel \<Rightarrow> 32 word \<Rightarrow> channel \<times> chan_error option" where
  "adjustWindow tr c n = sendMessage tr (c\<lparr>myWindow := myWindow c + n\<rparr>) (WindowAdjust 0 n)"

text \<open>\<open>ReadExtended\<close> for a slice of length \<open>k\<close>: the bytes read and the error; it may wait.\<close>

definition finishRead :: "transport \<Rightarrow> channel \<Rightarrow> bytes \<Rightarrow> bool \<Rightarrow> channel \<times> bytes \<times> chan_error option" where
  "finishRead tr c data eof =
     (if data \<noteq> [] then
        (case adjustWindow tr c (word_of_nat (length data)) of
           (c1, err) \<Rightarrow> (c1, data, if err = Some IoEOF then None else err))
      else (c, data, if eof then Some IoEOF else None))"

definition ReadExtended :: "transport \<Rightarrow> channel \<Rightarrow> nat \<Rightarrow> 32 word \<Rightarrow>
    (channel \<times> bytes \<times> chan_error option) option" where
  "ReadExtended tr c k extended =
     (if extended = 1 then
        map_option (\<lambda>(b, data, eof). finishRead tr (c\<lparr>extPending := b\<rparr>) data eof) (buf_Read (extPending c) k)
      else if extended = 0 then
        map_option (\<lambda>(b, data, eof). finishRead tr (c\<lparr>pending := b\<rparr>) data eof) (buf_Read (pending c) k)
      else Some (c, [], Some (ExtendedUnimplemented extended)))"

section \<open>Accepting, rejecting and the operations of the interface\<close>

definition Accept :: "transport \<Rightarrow> channel \<Rightarrow> channel \<times> chan_error option" where
  "Accept tr c =
     (if decided c then (c, Some ErrDecidedAlready)
      else
        let c1 = c\<lparr>maxIncomingPayload := channelMaxPacket\<rparr>;
            confirm = ChannelOpenConfirm (remoteId c1) (localId c1) (myWindow c1) (maxIncomingPayload c1)
        in sendMessage tr (c1\<lparr>decided := True\<rparr>) confirm)"

definition Reject :: "transport \<Rightarrow> channel \<Rightarrow> 32 word \<Rightarrow> string \<Rightarrow> channel \<times> chan_error option" where
  "Reject tr c reason msg =
     (if decided c then (c, Some ErrDecidedAlready)
      else sendMessage tr (c\<lparr>decided := True\<rparr>) (ChannelOpenFailure (remoteId c) reason msg ''en''))"

definition Read :: "transport \<Rightarrow> channel \<Rightarrow> nat \<Rightarrow> (channel \<times> bytes \<times> chan_error option) option" where
  "Read tr c k = (if \<not> decided c then Some (c, [], Some ErrUndecided) else ReadExtended tr c k 0)"

definition Write :: "transport \<Rightarrow> channel \<Rightarrow> bytes \<Rightarrow> (channel \<times> nat \<times> chan_error option) option" where
  "Write tr c data = (if \<not> decided c then Some (c, 0, Some ErrUndecided) else WriteExtended tr c data 0)"

definition CloseWrite :: "transport \<Rightarrow> channel \<Rightarrow> channel \<times> chan_error option" where
  "CloseWrite tr c =
     (if \<not> decided c then (c, Some ErrUndecided)
      else sendMessage tr (c\<lparr>sentEOF := True\<rparr>) (ChannelEOF (remoteId c)))"

definition Close :: "transport \<Rightarrow> channel \<Rightarrow> channel \<times> chan_error option" where
  "Close tr c =
     (if \<not> decided c then (c, Some ErrUndecided)
      else sendMessage tr c (ChannelClose (remoteId c)))"

definition ackRequest :: "transport \<Rightarrow> channel \<Rightarrow> bool \<Rightarrow> channel \<times> chan_error option" where
  "ackRequest tr c ok =
     (if \<not> decided c then (c, Some ErrUndecided)
      else sendMessage tr c (if ok then ChannelSuccess (remoteId c) else ChannelFailure (remoteId c)))"

text \<open>
  The unexported \<open>close\<close>, run when the connection ends or the peer closes the channel. Closing the
  Go channels a second time panics, after the buffers were ended.
\<close>

definition close_channel :: "channel \<Rightarrow> panic + channel" where
  "close_channel c =
     (if queues_closed c then Inl CloseOfClosed
      else Inr (c\<lparr>pending := buf_eof (pending c), extPending := buf_eof (extPending c), queues_closed := True,
        sentClose := True, remoteWin := win_close (remoteWin c)\<rparr>))"

definition responseMessageReceived :: "channel \<Rightarrow> channel \<times> chan_error option" where
  "responseMessageReceived c =
     (if direction c = channelInbound then (c, Some ResponseOnInbound)
      else if decided c then (c, Some DuplicateResponse)
      else (c\<lparr>decided := True\<rparr>, None))"

section \<open>Flow control of what is received\<close>

text \<open>
  The window left, and the bytes that wait to be read, never exceed the initial window. It is an
  inequality: the window of extended data other than standard error is never given back.
\<close>

definition chan_ok :: "channel \<Rightarrow> bool" where
  "chan_ok c \<longleftrightarrow> elems (pending c) \<noteq> [] \<and> elems (extPending c) \<noteq> [] \<and>
     unat (myWindow c) + length (buffered (pending c)) + length (buffered (extPending c))
       \<le> unat channelWindowSize"

lemma elems_write [simp]: "elems (buf_write b data) \<noteq> []"
  by (simp add: buf_write_def)

lemma chan_ok_new: "chan_ok (newChannel ty dir extra lid)"
  by (simp add: chan_ok_def newChannel_def newBuffer_def buffered_def)

lemma handleData_cases:
  assumes "handleData c packet = (c', err)" "length packet < 2 ^ 32"
  obtains (unchanged) "c' = c"
  | (received) data where "err = None" "data \<noteq> []" "length data \<le> unat (maxIncomingPayload c)"
      "length data \<le> unat (myWindow c)" "unat (myWindow c') = unat (myWindow c) - length data"
      "\<exists>h. packet = h @ data" "c'\<lparr>myWindow := 0, pending := pending c, extPending := extPending c\<rparr> = c\<lparr>myWindow := 0\<rparr>"
      "pending c' = buf_write (pending c) data \<and> extPending c' = extPending c \<or>
       pending c' = pending c \<and> extPending c' = buf_write (extPending c) data \<or>
       pending c' = pending c \<and> extPending c' = extPending c"
proof (cases "c' = c")
  case True
  then show ?thesis by (rule unchanged)
next
  case False
  let ?hl = "if packet ! 0 = msgChannelExtendedData then 13 else 9"
  let ?data = "drop ?hl packet" and ?len = "be32 (drop (?hl - 4) packet)"
  let ?c1 = "c\<lparr>myWindow := myWindow c - ?len\<rparr>"
  have f: "\<not> ?len = 0" "\<not> ?len > maxIncomingPayload c" "\<not> ?len \<noteq> word_of_nat (length ?data)"
    "\<not> myWindow c < ?len" "err = None"
    "c' = ?c1\<lparr>extPending := buf_write (extPending c) ?data\<rparr> \<or> c' = ?c1 \<or>
     c' = ?c1\<lparr>pending := buf_write (pending c) ?data\<rparr>"
    using assms(1) False by (auto simp add: handleData_def Let_def split: if_splits)
  have "length ?data < 2 ^ 32" using assms(2) by simp
  then have u: "unat ?len = length ?data" using f(3) by (simp add: unat_of_nat take_bit_nat_eq_self)
  show ?thesis
  proof (rule received)
    show "err = None" by (rule f)
    show "?data \<noteq> []" using u f(1) by (auto simp flip: unat_eq_0)
    show "length ?data \<le> unat (maxIncomingPayload c)" using u f(2) by (simp add: word_less_nat_alt)
    show w: "length ?data \<le> unat (myWindow c)" using u f(4) by (simp add: word_less_nat_alt)
    have "?len \<le> myWindow c" using f(4) by simp
    then have "unat (myWindow c - ?len) = unat (myWindow c) - length ?data" using u by (simp add: unat_sub)
    then show "unat (myWindow c') = unat (myWindow c) - length ?data" using f(6) by auto
    show "\<exists>h. packet = h @ ?data" by (metis append_take_drop_id)
    show "c'\<lparr>myWindow := 0, pending := pending c, extPending := extPending c\<rparr> = c\<lparr>myWindow := 0\<rparr>"
      using f(6) by auto
    show "pending c' = buf_write (pending c) ?data \<and> extPending c' = extPending c \<or>
       pending c' = pending c \<and> extPending c' = buf_write (extPending c) ?data \<or>
       pending c' = pending c \<and> extPending c' = extPending c"
      using f(6) by auto
  qed
qed

lemma handleData_ok:
  assumes "chan_ok c" "handleData c packet = (c', err)" "length packet < 2 ^ 32"
  shows "chan_ok c'"
  using assms(2,3)
proof (cases rule: handleData_cases)
  case unchanged
  then show ?thesis using assms(1) by simp
next
  case (received data)
  from received(8) show ?thesis
    using assms(1) received(4,5) by (elim disjE conjE) (simp_all add: chan_ok_def le_diff_conv)
qed

lemma writePacket_frame:
  "writePacket tr c m = (c', err) \<Longrightarrow>
    pending c' = pending c \<and> extPending c' = extPending c \<and> myWindow c' = myWindow c \<and>
    decided c' = decided c \<and> remoteWin c' = remoteWin c \<and> maxRemotePayload c' = maxRemotePayload c \<and>
    sentEOF c' = sentEOF c"
  by (auto simp: writePacket_def split: if_splits)

lemma finishRead_frame:
  assumes "finishRead tr c data eof = (c', out, err)"
  shows "pending c' = pending c \<and> extPending c' = extPending c \<and> out = data \<and>
    myWindow c' = myWindow c + word_of_nat (length data)"
  using assms by (auto simp: finishRead_def adjustWindow_def sendMessage_def split: if_splits prod.splits
      dest!: writePacket_frame)

text \<open>A read gives back the window of the bytes it returns, and cannot overflow it.\<close>

lemma unat_add_small:
  fixes w :: "32 word"
  assumes "unat w + n \<le> unat channelWindowSize"
  shows "unat (w + word_of_nat n) = unat w + n"
proof -
  have "n < 2 ^ 32" "unat w + n < 2 ^ 32" using assms by (simp_all add: channel_constants)
  then show ?thesis by (simp add: unat_word_ariths unat_of_nat take_bit_nat_eq_self)
qed

lemma ReadExtended_ok:
  assumes ok: "chan_ok c" and r: "ReadExtended tr c k ext = Some (c', data, err)"
  shows "chan_ok c'" "unat (myWindow c') = unat (myWindow c) + length data"
    "length data \<le> k"
    "ext = 0 \<longrightarrow> buffered (pending c) = data @ buffered (pending c') \<and> extPending c' = extPending c"
    "ext = 1 \<longrightarrow> buffered (extPending c) = data @ buffered (extPending c') \<and> pending c' = pending c"
proof -
  have rd: "\<exists>out. data = out \<and> out = take k (buffered b) \<and> buffered b' = drop k (buffered b) \<and> elems b' \<noteq> []"
    if "elems b \<noteq> []" "buf_Read b k = Some (b', data, eof)" for b b' eof
    using buf_Read_spec [OF that(1), of k] that(2) by (auto split: if_splits)
  consider (std) "ext = 0" | (ext) "ext = 1" | (other) "ext \<noteq> 0" "ext \<noteq> 1" by blast
  then have "chan_ok c' \<and> unat (myWindow c') = unat (myWindow c) + length data \<and> length data \<le> k \<and>
    (ext = 0 \<longrightarrow> buffered (pending c) = data @ buffered (pending c') \<and> extPending c' = extPending c) \<and>
    (ext = 1 \<longrightarrow> buffered (extPending c) = data @ buffered (extPending c') \<and> pending c' = pending c)"
  proof cases
    case std
    then obtain b' d eof where b: "buf_Read (pending c) k = Some (b', d, eof)"
      "finishRead tr (c\<lparr>pending := b'\<rparr>) d eof = (c', data, err)"
      using r by (auto simp: ReadExtended_def)
    from finishRead_frame [OF b(2)] have f: "pending c' = b'" "extPending c' = extPending c" "data = d"
      "myWindow c' = myWindow c + word_of_nat (length d)" by simp_all
    from rd [of "pending c" b' eof] b(1) ok f(3) have d: "d = take k (buffered (pending c))"
      "buffered b' = drop k (buffered (pending c))" "elems b' \<noteq> []" by (auto simp: chan_ok_def)
    have len: "length d + length (buffered b') = length (buffered (pending c))"
      using d(1,2) by (metis append_take_drop_id length_append)
    then have "unat (myWindow c') = unat (myWindow c) + length d"
      using ok unfolding f(4) by (intro unat_add_small) (simp add: chan_ok_def)
    then show ?thesis using ok f d len std by (auto simp: chan_ok_def)
  next
    case ext
    then obtain b' d eof where b: "buf_Read (extPending c) k = Some (b', d, eof)"
      "finishRead tr (c\<lparr>extPending := b'\<rparr>) d eof = (c', data, err)"
      using r by (auto simp: ReadExtended_def)
    from finishRead_frame [OF b(2)] have f: "pending c' = pending c" "extPending c' = b'" "data = d"
      "myWindow c' = myWindow c + word_of_nat (length d)" by simp_all
    from rd [of "extPending c" b' eof] b(1) ok f(3) have d: "d = take k (buffered (extPending c))"
      "buffered b' = drop k (buffered (extPending c))" "elems b' \<noteq> []" by (auto simp: chan_ok_def)
    have len: "length d + length (buffered b') = length (buffered (extPending c))"
      using d(1,2) by (metis append_take_drop_id length_append)
    then have "unat (myWindow c') = unat (myWindow c) + length d"
      using ok unfolding f(4) by (intro unat_add_small) (simp add: chan_ok_def)
    then show ?thesis using ok f d len ext by (auto simp: chan_ok_def)
  next
    case other
    then show ?thesis using ok r by (auto simp: ReadExtended_def)
  qed
  then show "chan_ok c'" "unat (myWindow c') = unat (myWindow c) + length data" "length data \<le> k"
    "ext = 0 \<longrightarrow> buffered (pending c) = data @ buffered (pending c') \<and> extPending c' = extPending c"
    "ext = 1 \<longrightarrow> buffered (extPending c) = data @ buffered (extPending c') \<and> pending c' = pending c"
    by blast+
qed


section \<open>Flow control of what is sent\<close>

primrec payload :: "message \<Rightarrow> bytes" where
  "payload (ChannelOpenConfirm a b c d) = []"
| "payload (ChannelOpenFailure a b c d) = []"
| "payload (WindowAdjust a b) = []"
| "payload (ChannelData a b) = b"
| "payload (ChannelExtendedData a b c) = c"
| "payload (ChannelEOF a) = []"
| "payload (ChannelClose a) = []"
| "payload (ChannelRequest a b c d) = []"
| "payload (ChannelSuccess a) = []"
| "payload (ChannelFailure a) = []"

definition payloads :: "message list \<Rightarrow> bytes" where
  "payloads ms = concat (map payload ms)"

lemma payloads_simps [simp]: "payloads [] = []" "payloads (m # ms) = payload m @ payloads ms"
  by (simp_all add: payloads_def)

text \<open>The packets of a write stay within the peer's maximum and within its window, and carry the
  bytes in their order, all of them when there is no error.\<close>

definition write_post :: "channel \<Rightarrow> bytes \<Rightarrow> nat \<Rightarrow> channel \<times> nat \<times> chan_error option \<Rightarrow> bool" where
  "write_post c data n r \<longleftrightarrow> (case r of (c', n', err) \<Rightarrow>
     \<exists>ms. sent c' = sent c @ ms \<and>
       (\<forall>m \<in> set ms. length (payload m) \<le> unat (maxRemotePayload c)) \<and>
       length (payloads ms) \<le> unat (win (remoteWin c)) \<and>
       (\<exists>rest. data = payloads ms @ rest) \<and>
       (err = None \<longrightarrow> payloads ms = data \<and> n' = n + length data))"

lemma min_len_le: "unat (min_len a n) \<le> unat a" "unat (min_len a n) \<le> n"
proof -
  have w: "unat (word_of_nat n :: 32 word) \<le> n" by (simp add: unat_of_nat)
  show "unat (min_len a n) \<le> unat a" by (auto simp: min_len_def word_less_nat_alt)
  show "unat (min_len a n) \<le> n" using w by (auto simp: min_len_def word_less_nat_alt)
qed

lemma write_loop_post:
  "write_loop tr code c data n = Some r \<Longrightarrow> write_post c data n r"
proof (induction tr code c data n r rule: write_loop.raw_induct [rotated, consumes 1, case_names step])
  case (step wl tr code c data n r)
  show ?case
  proof (cases "data = []")
    case True
    then show ?thesis using step(2) by (auto simp: write_post_def intro: exI [of _ "[]"])
  next
    case False
    then obtain rw space eof where w: "win_reserve (remoteWin c) (min_len (maxRemotePayload c) (length data)) =
        Some (rw, space, eof)"
      using step(2) by (cases "win_reserve (remoteWin c) (min_len (maxRemotePayload c) (length data))") auto
    from win_reserve_spec [OF w] have sp: "unat space \<le> unat (win (remoteWin c))"
      "unat space \<le> unat (maxRemotePayload c)" "unat space \<le> length data"
      "unat (win rw) + unat space = unat (win (remoteWin c))"
      using min_len_le [of "maxRemotePayload c" "length data"] by auto
    let ?c1 = "c\<lparr>remoteWin := rw\<rparr>" and ?todo = "take (unat space) data"
    let ?m = "if code > 0 then ChannelExtendedData (remoteId c) code ?todo else ChannelData (remoteId c) ?todo"
    have pm: "payload ?m = ?todo" by simp
    show ?thesis
    proof (cases eof)
      case True
      then show ?thesis using step(2) False w by (auto simp: write_post_def Let_def intro: exI [of _ "[]"])
    next
      case neof: False
      obtain c2 err where wp: "writePacket tr ?c1 ?m = (c2, err)" by (cases "writePacket tr ?c1 ?m") auto
      have fr: "remoteWin c2 = rw" "maxRemotePayload c2 = maxRemotePayload c"
        using writePacket_frame [OF wp] by simp_all
      show ?thesis
      proof (cases err)
        case (Some e)
        have "sent c2 = sent c \<or> sent c2 = sent c @ [?m]"
          using wp by (auto simp: writePacket_def split: if_splits)
        then obtain ms where ms: "sent c2 = sent c @ ms" "ms = [] \<or> ms = [?m]" by auto
        have "r = (c2, n, Some e)" using step(2) False w neof wp Some by (simp add: Let_def)
        moreover have p: "\<forall>m \<in> set ms. payload m = ?todo" "payloads ms = [] \<or> payloads ms = ?todo"
          using ms(2) pm by auto
        have "\<exists>rest. data = payloads ms @ rest"
          using p(2) by (metis append_Nil append_take_drop_id)
        moreover have "length (payloads ms) \<le> unat (win (remoteWin c))"
          using p(2) sp by auto
        ultimately show ?thesis using ms(1) p(1) sp(2,3)
          unfolding write_post_def by (auto intro!: exI [of _ ms])
      next
        case None
        have s2: "sent c2 = sent c @ [?m]"
          using wp None by (auto simp: writePacket_def split: if_splits)
        have "wl tr code c2 (drop (unat space) data) (n + length ?todo) = Some r"
          using step(2) False w neof wp None by (simp add: Let_def)
        from step(1) [OF this] obtain c' n' e ms where ih: "r = (c', n', e)" "sent c' = sent c2 @ ms"
          "\<forall>m \<in> set ms. length (payload m) \<le> unat (maxRemotePayload c2)"
          "length (payloads ms) \<le> unat (win (remoteWin c2))" "\<exists>rest. drop (unat space) data = payloads ms @ rest"
          "e = None \<longrightarrow> payloads ms = drop (unat space) data \<and> n' = n + length ?todo + length (drop (unat space) data)"
          by (cases r) (auto simp: write_post_def)
        have "\<exists>rest. data = payloads (?m # ms) @ rest"
          using ih(5) pm by (metis append_assoc append_take_drop_id payloads_simps(2))
        moreover have "e = None \<longrightarrow> payloads (?m # ms) = data \<and> n' = n + length data"
          using ih(6) pm sp(3) by simp
        moreover have "length (payloads (?m # ms)) \<le> unat (win (remoteWin c))"
          using ih(4) pm sp(3,4) fr(1) by simp
        moreover have "\<forall>m \<in> set (?m # ms). length (payload m) \<le> unat (maxRemotePayload c)"
          using ih(3) pm sp(2) fr(2) by simp
        ultimately show ?thesis using ih(1,2) s2 unfolding write_post_def
          by (auto simp del: payloads_simps intro!: exI [of _ "?m # ms"])
      qed
    qed
  qed
qed

text \<open>A write that fits the window returns, and sends everything.\<close>

lemma write_loop_returns:
  assumes "0 < maxRemotePayload c" "length data \<le> unat (win (remoteWin c))" "\<not> win_closed (remoteWin c)"
    "\<not> sentClose c" "\<And>ms m. tr ms m = None"
  shows "\<exists>c'. write_loop tr code c data n = Some (c', n + length data, None)"
  using assms(1-4)
proof (induction "length data" arbitrary: c data n rule: less_induct)
  case less
  show ?case
  proof (cases "data = []")
    case True
    then show ?thesis by (simp add: write_loop.simps)
  next
    case False
    have len: "length data < 2 ^ 32" using less.prems(2) unat32 [of "win (remoteWin c)"] by simp
    let ?sp = "min_len (maxRemotePayload c) (length data)"
    have "unat (word_of_nat (length data) :: 32 word) = length data"
      using len by (simp add: unat_of_nat take_bit_nat_eq_self)
    then have sp: "0 < unat ?sp" "unat ?sp \<le> length data"
      using less.prems(1) False min_len_le(2) [of "maxRemotePayload c" "length data"]
      by (auto simp: min_len_def word_less_nat_alt)
    have "win (remoteWin c) \<noteq> 0" using less.prems(2) False by auto
    then have w: "win_reserve (remoteWin c) ?sp =
        Some ((remoteWin c)\<lparr>win := win (remoteWin c) - ?sp\<rparr>, ?sp, False)"
      using less.prems(2,3) sp(2) by (simp add: win_reserve_def word_less_nat_alt Let_def)
    have "?sp \<le> win (remoteWin c)" using less.prems(2) sp(2) by (simp add: word_le_nat_alt)
    then have win': "unat (win (remoteWin c) - ?sp) = unat (win (remoteWin c)) - unat ?sp"
      by (simp add: unat_sub)
    let ?todo = "take (unat ?sp) data"
    let ?m = "if code > 0 then ChannelExtendedData (remoteId c) code ?todo else ChannelData (remoteId c) ?todo"
    let ?c1 = "c\<lparr>remoteWin := (remoteWin c)\<lparr>win := win (remoteWin c) - ?sp\<rparr>\<rparr>"
    let ?c2 = "?c1\<lparr>sentClose := False, sent := sent c @ [?m]\<rparr>"
    have "\<not> is_close ?m" by simp
    then have "writePacket tr ?c1 ?m = (?c2, None)"
      using less.prems(4) assms(5) by (simp add: writePacket_def)
    then have "write_loop tr code c data n = write_loop tr code ?c2 (drop (unat ?sp) data) (n + length ?todo)"
      using False w by (subst write_loop.simps) (simp add: Let_def)
    moreover have "\<exists>c'. write_loop tr code ?c2 (drop (unat ?sp) data) (n + length ?todo) =
        Some (c', n + length ?todo + length (drop (unat ?sp) data), None)"
      using less.prems sp win' by (intro less.hyps) simp_all
    ultimately show ?thesis using sp(2) by simp
  qed
qed


section \<open>The contract of a new channel\<close>

lemma writePacket_decided [simp]: "decided (fst (writePacket tr c m)) = decided c"
  by (simp add: writePacket_def)

lemma sendMessage_decided [simp]: "decided (fst (sendMessage tr c m)) = decided c"
  by (simp add: sendMessage_def)

interpretation ssh: new_channel "Accept tr" "Reject tr" decided for tr
  by unfold_locales (simp_all add: Accept_def Reject_def Let_def)

section \<open>Properties\<close>

text \<open>C10: the flow-control window of received data is sound. When a data packet is handled, the
  window left and the bytes waiting to be read still fit the initial window, so \<open>myWindow\<close>
  never wraps below zero, whether the packet is stored, discarded or refused.\<close>

theorem handleData_window:
  assumes "chan_ok c" "handleData c packet = (c', err)" "length packet < 2 ^ 32"
  shows "chan_ok c' \<and> unat (myWindow c') \<le> unat (myWindow c) \<and>
    (err \<noteq> None \<longrightarrow> c' = c)"
  using handleData_ok [OF assms] handleData_cases [OF assms(2,3)]
  by (metis diff_le_self order_refl option.distinct(1))

theorem handleData_window_witness:
  "\<exists>c'. handleData (newChannel ''x'' channelInbound [] 0\<lparr>maxIncomingPayload := 9\<rparr>)
      [94, 0, 0, 0, 0, 0, 0, 0, 1, 7] = (c', None) \<and> buffered (pending c') = [7] \<and> chan_ok c'"
proof -
  let ?c = "newChannel ''x'' channelInbound [] 0\<lparr>maxIncomingPayload := 9\<rparr>"
  have ok: "chan_ok ?c" by (simp add: chan_ok_def newChannel_def newBuffer_def buffered_def)
  have "\<exists>c'. handleData ?c [94, 0, 0, 0, 0, 0, 0, 0, 1, 7] = (c', None) \<and> buffered (pending c') = [7]"
    by (simp add: handleData_def be32_def bigNat_def msgChannelExtendedData_def newChannel_def newBuffer_def
        channelWindowSize_def channelMaxPacket_def buf_write_def buffered_def)
  then obtain c' where "handleData ?c [94, 0, 0, 0, 0, 0, 0, 0, 1, 7] = (c', None)" "buffered (pending c') = [7]"
    by blast
  with handleData_window [OF ok this(1)] show ?thesis by simp
qed

text \<open>A read returns the first bytes of the stream it reads, leaves the rest, gives back exactly
  the window of the bytes it returned, and this addition cannot overflow: the window stays
  within its initial size, as the comment of \<open>adjustWindow\<close> says.\<close>

theorem ReadExtended_window:
  assumes "chan_ok c" "ReadExtended tr c k ext = Some (c', data, err)"
  shows "chan_ok c' \<and> unat (myWindow c') = unat (myWindow c) + length data \<and>
    unat (myWindow c') \<le> unat channelWindowSize \<and> length data \<le> k \<and>
    (ext = 0 \<longrightarrow> buffered (pending c) = data @ buffered (pending c')) \<and>
    (ext = 1 \<longrightarrow> buffered (extPending c) = data @ buffered (extPending c'))"
  using ReadExtended_ok [OF assms] by (auto simp: chan_ok_def)


text \<open>A write that fits the peer's window returns with every byte sent, when the transport does
  not fail and the channel is open.\<close>

theorem WriteExtended_returns:
  assumes "0 < maxRemotePayload c" "length data \<le> unat (win (remoteWin c))" "\<not> win_closed (remoteWin c)"
    "\<not> sentClose c" "\<not> sentEOF c" "\<And>ms m. tr ms m = None"
  shows "\<exists>c'. WriteExtended tr c data code = Some (c', length data, None)"
  using write_loop_returns [where tr = tr and code = code and n = 0, OF assms(1-4,6)] assms(5)
  by (simp add: WriteExtended_def)

text \<open>An open channel for the witnesses: the peer has granted 5 bytes of window in packets of 2.\<close>

definition open_channel :: channel where
  "open_channel = newChannel ''x'' channelInbound [] 0
     \<lparr>maxIncomingPayload := 9, maxRemotePayload := 2, decided := True, remoteWin := \<lparr>win = 5, win_closed = False\<rparr>,
      pending := \<lparr>elems = [[], [1, 2], [3]], buf_closed = False\<rparr>, myWindow := 100\<rparr>"

lemma open_channel_simps [simp]:
  "maxRemotePayload open_channel = 2" "win (remoteWin open_channel) = 5"
  "\<not> win_closed (remoteWin open_channel)" "\<not> sentClose open_channel" "\<not> sentEOF open_channel"
  "sent open_channel = []" "chan_ok open_channel" "unat (myWindow open_channel) = 100"
  by (simp_all add: open_channel_def newChannel_def chan_ok_def newBuffer_def buffered_def channel_constants)

theorem WriteExtended_returns_witness:
  "\<exists>c'. WriteExtended (\<lambda>_ _. None) open_channel [1, 2, 3] 0 = Some (c', 3, None)"
  using WriteExtended_returns [of open_channel "[1, 2, 3]" "\<lambda>_ _. None" 0] by (simp add: numeral_3_eq_3)


theorem ReadExtended_window_witness:
  "\<exists>c'. ReadExtended (\<lambda>_ _. None) open_channel 2 0 = Some (c', [1, 2], None) \<and> unat (myWindow c') = 102"
proof -
  have "\<exists>c'. ReadExtended (\<lambda>_ _. None) open_channel 2 0 = Some (c', [1, 2], None)"
    by (simp add: ReadExtended_def buf_Read_def buf_read_loop.simps open_channel_def newChannel_def
        finishRead_def adjustWindow_def sendMessage_def writePacket_def)
  then obtain c' where "ReadExtended (\<lambda>_ _. None) open_channel 2 0 = Some (c', [1, 2], None)" by blast
  with ReadExtended_window [OF _ this] show ?thesis by auto
qed

end
