(* ===== verification/Dispatcher.thy ===== *)
theory Dispatcher
  imports Router Go_Url Ssh_Channel Interfaces
begin

text \<open>
  \<^verbatim>\<open>dispatcher.go\<close>, \<^verbatim>\<open>rejects.go\<close> and \<^verbatim>\<open>handler.go\<close>: the two dispatchers that turn an incoming
  \<open>ssh.NewChannel\<close> into a call of a handler.

  The interface \<open>ssh.NewChannel\<close> is three functions on the state of the channel: \<open>accept\<close>,
  \<open>reject\<close> and \<open>chType\<close>. Its contract is the locale \<open>new_channel\<close>, and the channel of the
  package \<^verbatim>\<open>ssh\<close> is shown to keep it. The calls a dispatcher makes are recorded in a trace;
  logging is left out.
\<close>

section \<open>Reasons\<close>

definition UnknownChannelType :: "32 word" where "UnknownChannelType = 3"

definition ChannelAcceptError :: "32 word" where "ChannelAcceptError = 1000"
definition InvalidChannelType :: "32 word" where "InvalidChannelType = 1001"
definition InvalidQueryParams :: "32 word" where "InvalidQueryParams = 1002"
definition HostNotSupported :: "32 word" where "HostNotSupported = 1003"
definition SchemeNotSupported :: "32 word" where "SchemeNotSupported = 1004"
definition UserNotSupported :: "32 word" where "UserNotSupported = 1005"
definition ChannelHandleError :: "32 word" where "ChannelHandleError = 1006"

section \<open>Traces\<close>

text \<open>
  \<open>AcceptCalled ok\<close> and \<open>RejectCalled reason message ok\<close>: the call and whether it returned no
  error. \<open>ConnClosed\<close> is the deferred \<open>conn.Close()\<close>.
\<close>

datatype 'e devent =
    AcceptCalled bool
  | RejectCalled "32 word" string bool
  | Handled 'e
  | ConnClosed

type_synonym ('c, 'e) dispatch = "'e devent list \<times> 'c \<times> unit call"

definition do_reject :: "('c \<Rightarrow> 32 word \<Rightarrow> string \<Rightarrow> 'c \<times> 'x option) \<Rightarrow> 'c \<Rightarrow> 32 word \<Rightarrow> string \<Rightarrow>
    ('c, 'e) dispatch" where
  "do_reject reject ch reason msg =
     (case reject ch reason msg of (ch', err) \<Rightarrow> ([RejectCalled reason msg (err = None)], ch', Returns ()))"

text \<open>What comes before the rest of a dispatch, and the deferred close after it.\<close>

definition after :: "'e devent list \<Rightarrow> ('c, 'e) dispatch \<Rightarrow> ('c, 'e) dispatch" where
  "after evs r = (evs @ fst r, snd r)"

definition deferClose :: "('c, 'e) dispatch \<Rightarrow> ('c, 'e) dispatch" where
  "deferClose r = (fst r @ [ConnClosed], snd r)"

definition handleErrorMessage :: "error \<Rightarrow> string" where
  "handleErrorMessage e = ''error handling channel: '' @ e"

section \<open>\<open>UrlDispatcher\<close>\<close>

text \<open>The function \<open>reject\<close>: the reason and message of the rejection, if the URI is refused.\<close>

definition rejectUri :: "URL \<Rightarrow> (32 word \<times> string) option" where
  "rejectUri uri =
     (if Scheme uri \<noteq> '''' then
        Some (SchemeNotSupported, ''schemes are not supported in the channel URI'')
      else if User uri \<noteq> None then
        Some (UserNotSupported, ''users are not supported in the channel URI'')
      else if Host uri \<noteq> '''' then
        Some (HostNotSupported, ''hosts are not supported in the channel URI'')
      else None)"

text \<open>
  Lines 102--122: the channel is accepted and handled. \<open>handle\<close> takes the accepted channel to the
  channel the handler leaves, a record of what it did, and its result.
\<close>

definition acceptAndHandle :: "('c \<Rightarrow> 'c \<times> 'x option) \<Rightarrow> ('c \<Rightarrow> 32 word \<Rightarrow> string \<Rightarrow> 'c \<times> 'x option) \<Rightarrow>
    ('c \<Rightarrow> 'c \<times> 'e \<times> error option call) \<Rightarrow> 'c \<Rightarrow> string \<Rightarrow> ('c, 'e) dispatch" where
  "acceptAndHandle accept reject handle ch chType =
     (case accept ch of
        (ch1, Some e) \<Rightarrow> after [AcceptCalled False] (do_reject reject ch1 ChannelAcceptError chType)
      | (ch1, None) \<Rightarrow>
          (case handle ch1 of
             (ch2, ev, Panics v) \<Rightarrow> ([AcceptCalled True, Handled ev], ch2, Panics v)
           | (ch2, ev, Returns None) \<Rightarrow> ([AcceptCalled True, Handled ev], ch2, Returns ())
           | (ch2, ev, Returns (Some err)) \<Rightarrow>
               after [AcceptCalled True, Handled ev]
                 (do_reject reject ch2 ChannelHandleError (handleErrorMessage err))))"

text \<open>
  The router runs a handler with a context that holds the \<open>context.Context\<close> of the connection and
  the accepted channel; the handler leaves the channel in the context.
\<close>

definition routeChannel :: "(nat \<Rightarrow> nat) \<Rightarrow> ('h \<Rightarrow> ('u \<times> 'c) HandlerFunc) \<Rightarrow>
    ('p \<Rightarrow> ('u \<times> 'c) UrlContext \<Rightarrow> panic \<Rightarrow> ('u \<times> 'c) UrlContext \<times> unit call) \<Rightarrow>
    ('h, 'p, 'u \<times> 'c) Router \<Rightarrow> string \<Rightarrow> (string \<rightharpoonup> string list) \<Rightarrow> 'u \<Rightarrow> 'c \<Rightarrow>
    'c \<times> ('h, 'p, 'u \<times> 'c) event list \<times> error option call" where
  "routeChannel lower impl pimpl r path vals ctx ch =
     (case Handle lower impl pimpl r \<lparr>u_Path = path, u_Params = [], u_Values = vals, u_conn = (ctx, ch)\<rparr> of
        (tr, c, res) \<Rightarrow> (snd (u_conn c), tr, res))"

definition UrlDispatch :: "('c \<Rightarrow> 'c \<times> 'x option) \<Rightarrow> ('c \<Rightarrow> 32 word \<Rightarrow> string \<Rightarrow> 'c \<times> 'x option) \<Rightarrow>
    ('c \<Rightarrow> string) \<Rightarrow> (nat \<Rightarrow> nat) \<Rightarrow> ('h \<Rightarrow> ('u \<times> 'c) HandlerFunc) \<Rightarrow>
    ('p \<Rightarrow> ('u \<times> 'c) UrlContext \<Rightarrow> panic \<Rightarrow> ('u \<times> 'c) UrlContext \<times> unit call) \<Rightarrow>
    ('h, 'p, 'u \<times> 'c) Router \<Rightarrow> 'u \<Rightarrow> 'c \<Rightarrow> ('c, ('h, 'p, 'u \<times> 'c) event list) dispatch" where
  "UrlDispatch accept reject chType lower impl pimpl r ctx ch =
     deferClose
       (case ParseRequestURI lower (chType ch) of
          Inl e \<Rightarrow> do_reject reject ch InvalidChannelType ''invalid channel URI''
        | Inr uri \<Rightarrow>
            (case rejectUri uri of
               Some (reason, msg) \<Rightarrow> do_reject reject ch reason msg
             | None \<Rightarrow>
                 (case ParseQuery (RawQuery uri) of
                    (vals, True) \<Rightarrow>
                      do_reject reject ch InvalidQueryParams ''invalid query params in channel type''
                  | (vals, False) \<Rightarrow>
                      (case HasRoute r (Path uri) of
                         Panics v \<Rightarrow> ([], ch, Panics v)
                       | Returns False \<Rightarrow> do_reject reject ch UnknownChannelType (Path uri)
                       | Returns True \<Rightarrow>
                           acceptAndHandle accept reject
                             (routeChannel lower impl pimpl r (Path uri) vals ctx) ch (Path uri)))))"

section \<open>\<open>SimpleDispatcher\<close>\<close>

text \<open>
  The \<open>recover\<close> of lines 29--33 is not in a deferred function: it runs before anything can
  panic, returns nil, and the panic handler is never called. \<open>sd_PanicHandler\<close> is kept to say so.
\<close>

record ('h, 'p) SimpleDispatcher =
  sd_Handlers :: "string \<rightharpoonup> 'h"
  sd_PanicHandler :: "'p option"
  sd_NotFound :: "'h option"

definition SimpleDispatch :: "('c \<Rightarrow> 'c \<times> 'x option) \<Rightarrow> ('c \<Rightarrow> 32 word \<Rightarrow> string \<Rightarrow> 'c \<times> 'x option) \<Rightarrow>
    ('c \<Rightarrow> string) \<Rightarrow> ('h \<Rightarrow> 'c \<Rightarrow> 'c \<times> error option call) \<Rightarrow> ('h, 'p) SimpleDispatcher \<Rightarrow> 'c \<Rightarrow>
    ('c, 'h) dispatch" where
  "SimpleDispatch accept reject chType impl u ch =
     deferClose
       (case sd_Handlers u (chType ch) of
          None \<Rightarrow> ([], ch, Returns ())
        | Some h \<Rightarrow> acceptAndHandle accept reject (\<lambda>c. case impl h c of (c', res) \<Rightarrow> (c', h, res)) ch (chType ch))"

section \<open>Every dispatch answers the channel\<close>

text \<open>The calls that had an effect on the peer: they returned no error.\<close>

primrec effective :: "'e devent \<Rightarrow> bool" where
  "effective (AcceptCalled ok) = ok"
| "effective (RejectCalled reason msg ok) = ok"
| "effective (Handled ev) = False"
| "effective ConnClosed = False"

definition answered :: "('c \<Rightarrow> bool) \<Rightarrow> ('c, 'e) dispatch \<Rightarrow> bool" where
  "answered is_decided r \<longleftrightarrow> length (filter effective (fst r)) \<le> 1 \<and>
     (snd (snd r) = Returns () \<longrightarrow> is_decided (fst (snd r))) \<and>
     (\<forall>msg ok. RejectCalled ChannelHandleError msg ok \<in> set (fst r) \<longrightarrow> \<not> ok)"

definition keeps :: "('c \<Rightarrow> bool) \<Rightarrow> ('c \<Rightarrow> 'c \<times> 'e \<times> error option call) \<Rightarrow> bool" where
  "keeps is_decided handle \<longleftrightarrow> (\<forall>ch. is_decided ch \<longrightarrow> is_decided (fst (handle ch)))"

lemma answered_deferClose [simp]: "answered is_decided (deferClose r) = answered is_decided r"
  by (auto simp: answered_def deferClose_def)

context new_channel
begin

lemma answered_reject:
  "reason \<noteq> ChannelHandleError \<Longrightarrow> answered is_decided (do_reject reject ch reason msg)"
  using reject_decides [of ch reason msg]
  by (auto simp: answered_def do_reject_def split: prod.split)

lemma answered_acceptAndHandle:
  assumes "keeps is_decided handle"
  shows "answered is_decided (acceptAndHandle accept reject handle ch ty)"
proof -
  obtain ch1 err where a: "accept ch = (ch1, err)" by (cases "accept ch")
  have d1: "is_decided ch1" using accept_decides [of ch] a by simp
  show ?thesis
  proof (cases err)
    case (Some e)
    from reject_once [OF d1, of ChannelAcceptError ty] obtain e' where
      "reject ch1 ChannelAcceptError ty = (ch1, Some e')" by blast
    then show ?thesis using a Some d1
      by (simp add: acceptAndHandle_def answered_def after_def do_reject_def)
  next
    case None
    obtain ch2 ev res where h: "handle ch1 = (ch2, ev, res)" by (cases "handle ch1")
    then have d2: "is_decided ch2" using assms d1 by (force simp: keeps_def)
    show ?thesis
    proof (cases "\<exists>x. res = Returns (Some x)")
      case True
      then obtain x where x: "res = Returns (Some x)" by blast
      from reject_once [OF d2, of ChannelHandleError "handleErrorMessage x"] obtain e' where
        "reject ch2 ChannelHandleError (handleErrorMessage x) = (ch2, Some e')" by blast
      then show ?thesis using a None h d2 x
        by (simp add: acceptAndHandle_def answered_def after_def do_reject_def)
    next
      case False
      then show ?thesis using a None h d2
        by (cases res) (auto simp: acceptAndHandle_def answered_def split: option.split)
    qed
  qed
qed

end

section \<open>The dispatch of a URI\<close>

text \<open>The handlers and the panic handler of a router leave an accepted channel accepted.\<close>

definition handlers :: "('h, 'p, 'u) Router \<Rightarrow> ('h, 'u) Handler set" where
  "handlers r = snd ` set (routes (root r)) \<union> set_option (NotFound r)"

definition keeps_decision :: "('c \<Rightarrow> bool) \<Rightarrow> ('h \<Rightarrow> ('u \<times> 'c) HandlerFunc) \<Rightarrow>
    ('p \<Rightarrow> ('u \<times> 'c) UrlContext \<Rightarrow> panic \<Rightarrow> ('u \<times> 'c) UrlContext \<times> unit call) \<Rightarrow> ('h, 'p, 'u \<times> 'c) Router \<Rightarrow> bool" where
  "keeps_decision is_decided impl pimpl r \<longleftrightarrow>
     (\<forall>h \<in> handlers r. \<forall>c. is_decided (snd (u_conn c)) \<longrightarrow> is_decided (snd (u_conn (fst (callHandler impl h c))))) \<and>
     (\<forall>ph c v. is_decided (snd (u_conn c)) \<longrightarrow> is_decided (snd (u_conn (fst (pimpl ph c v)))))"

lemma callRoute_keeps:
  assumes "keeps_decision is_decided impl pimpl r" "is_decided (snd (u_conn c))" "callRoute impl r c = (tr, c', res)"
    "tree_ok (root r)"
  shows "is_decided (snd (u_conn c'))"
proof (cases "tree_find (root r) (u_Path c)")
  case None
  then show ?thesis using assms(2,3) callRoute_find [OF assms(4), of impl c] by simp
next
  case (Some y)
  obtain h ps where y: "y = (h, ps)" by (cases y)
  let ?c1 = "c\<lparr>u_Params := ps\<rparr>"
  have "\<exists>p. (p, h) \<in> set (routes (root r))"
    using Some y tree.find_matches [OF assms(4)] by (auto simp: matches_def)
  then have "h \<in> handlers r" by (auto simp: handlers_def image_iff intro: bexI [rotated])
  then have "is_decided (snd (u_conn (fst (callHandler impl h ?c1))))"
    using assms(1,2) by (simp add: keeps_decision_def)
  then show ?thesis using assms(3) Some y callRoute_find [OF assms(4), of impl c]
    by (auto split: prod.splits call.splits)
qed

lemma unknownPath_keeps:
  assumes "keeps_decision is_decided impl pimpl r" "is_decided (snd (u_conn c))" "unknownPath impl r c = (tr, c', res)"
  shows "is_decided (snd (u_conn c'))"
proof (cases "NotFound r")
  case None
  then show ?thesis using assms(2,3) by (simp add: unknownPath_def)
next
  case (Some h)
  then have "h \<in> handlers r" by (simp add: handlers_def)
  then have "is_decided (snd (u_conn (fst (callHandler impl h c))))"
    using assms(1,2) by (simp add: keeps_decision_def)
  then show ?thesis using assms(3) Some
    by (auto simp: unknownPath_def split: prod.splits call.splits)
qed

lemma handleBody_keeps:
  assumes "keeps_decision is_decided impl pimpl r" "is_decided (snd (u_conn c))" "handleBody lower impl r c = (tr, c', res)"
    "tree_ok (root r)"
  shows "is_decided (snd (u_conn c'))"
proof -
  obtain tr1 c1 r1 where 1: "callRoute impl r c = (tr1, c1, r1)" by (cases "callRoute impl r c")
  have d1: "is_decided (snd (u_conn c1))" by (rule callRoute_keeps [OF assms(1,2) 1 assms(4)])
  have un: "unknownPath impl r d = (tr, c', res) \<Longrightarrow> is_decided (snd (u_conn d)) \<Longrightarrow> is_decided (snd (u_conn c'))" for d
    using unknownPath_keeps [OF assms(1)] by blast
  consider (finished) "c' = c1" | (unknown) "unknownPath impl r c1 = (tr, c', res)"
    | (fixed) p where "fixPath lower r (u_Path c1) = Returns (Some p)"
        "(case callRoute impl r (c1\<lparr>u_Path := p\<rparr>) of
            (tr, c2, Panics v) \<Rightarrow> (tr, c2, Panics v)
          | (tr, c2, Returns (e, True)) \<Rightarrow> (tr, c2, Returns e)
          | (tr, c2, Returns (e, False)) \<Rightarrow> unknownPath impl r c2) = (tr, c', res)"
    using assms(3) 1 by (auto simp: handleBody_def split: call.splits prod.splits if_splits option.splits bool.splits)
  then show ?thesis
  proof cases
    case finished
    then show ?thesis using d1 by simp
  next
    case unknown
    then show ?thesis using un d1 by blast
  next
    case (fixed p)
    obtain tr2 c2 r2 where 2: "callRoute impl r (c1\<lparr>u_Path := p\<rparr>) = (tr2, c2, r2)"
      by (cases "callRoute impl r (c1\<lparr>u_Path := p\<rparr>)")
    have "is_decided (snd (u_conn c2))" using callRoute_keeps [OF assms(1) _ 2 assms(4)] d1 by simp
    then show ?thesis using fixed(2) 2 un by (auto split: call.splits prod.splits bool.splits)
  qed
qed

lemma routeChannel_keeps:
  assumes "keeps_decision is_decided impl pimpl r" "tree_ok (root r)"
  shows "keeps is_decided (routeChannel lower impl pimpl r path vals ctx)"
  unfolding keeps_def
proof (intro allI impI)
  fix ch assume d: "is_decided ch"
  let ?c = "\<lparr>u_Path = path, u_Params = [], u_Values = vals, u_conn = (ctx, ch)\<rparr>"
  obtain tr c1 res where b: "handleBody lower impl r ?c = (tr, c1, res)" by (cases "handleBody lower impl r ?c")
  have d1: "is_decided (snd (u_conn c1))" using handleBody_keeps [OF assms(1) _ b assms(2)] d by simp
  have "is_decided (snd (u_conn (fst (snd (Handle lower impl pimpl r ?c)))))"
  proof (cases "\<exists>v ph. res = Panics (Some v) \<and> PanicHandler r = Some ph")
    case True
    then obtain v ph where v: "res = Panics (Some v)" "PanicHandler r = Some ph" by blast
    have "is_decided (snd (u_conn (fst (pimpl ph c1 v))))" using assms d1 by (simp add: keeps_decision_def)
    then show ?thesis using b v by (auto simp: Handle_def split: prod.splits call.splits)
  next
    case False
    then have "fst (snd (Handle lower impl pimpl r ?c)) = c1"
      using b by (auto simp: Handle_def split: call.split option.split)
    then show ?thesis using d1 by simp
  qed
  then show "is_decided (fst (routeChannel lower impl pimpl r path vals ctx ch))"
    by (cases "Handle lower impl pimpl r ?c") (simp add: routeChannel_def)
qed

context new_channel
begin

lemma answered_UrlDispatch:
  assumes "keeps_decision is_decided impl pimpl r" "tree_ok (root r)"
  shows "answered is_decided (UrlDispatch accept reject ty lower impl pimpl r ctx ch)"
proof -
  have ne: "InvalidChannelType \<noteq> ChannelHandleError" "InvalidQueryParams \<noteq> ChannelHandleError"
    "UnknownChannelType \<noteq> ChannelHandleError"
    by (simp_all add: InvalidChannelType_def InvalidQueryParams_def UnknownChannelType_def ChannelHandleError_def)
  have ru: "reason \<noteq> ChannelHandleError" if "rejectUri uri = Some (reason, msg)" for uri reason msg
    using that by (auto simp: rejectUri_def SchemeNotSupported_def UserNotSupported_def HostNotSupported_def
        ChannelHandleError_def split: if_splits)
  show ?thesis
    using HasRoute_find [OF assms(2)] ne ru
      answered_acceptAndHandle [OF routeChannel_keeps [OF assms]]
    by (auto simp: UrlDispatch_def answered_reject split: sum.split option.split prod.split bool.split)
qed

end

section \<open>Properties\<close>

lemma rejectUri_scheme:
  assumes "ParseRequestURI lower raw = Inr uri" "rejectUri uri = Some (reason, msg)"
  shows "reason = SchemeNotSupported"
  using ParseRequestURI_schemeless [OF assms(1)] assms(2) by (auto simp: rejectUri_def split: if_splits)

text \<open>C12: the channel of every request is answered. For the channels of the package \<^verbatim>\<open>ssh\<close>, a dispatch
  that returns leaves the channel decided; at most one call of \<open>Accept\<close> and \<open>Reject\<close> succeeds;
  and the rejection that follows an error of the handler never reaches the peer, because the
  channel was accepted before.\<close>

theorem UrlDispatch_answers:
  assumes "tree_ok (root r)" "keeps_decision decided impl pimpl r"
    and "UrlDispatch (Accept tr) (Reject tr) chanType lower impl pimpl r ctx ch = (evs, ch', res)"
  shows "length (filter effective evs) \<le> 1 \<and> (res = Returns () \<longrightarrow> decided ch') \<and>
    (\<forall>msg ok. RejectCalled ChannelHandleError msg ok \<in> set evs \<longrightarrow> \<not> ok)"
  using ssh.answered_UrlDispatch [OF assms(2,1), of tr chanType lower ctx ch] assms(3)
  by (auto simp: answered_def)

theorem UrlDispatch_answers_witness:
  "\<exists>evs ch'. UrlDispatch (Accept (\<lambda>_ _. None)) (Reject (\<lambda>_ _. None)) chanType latin1_lower
      (\<lambda>_ c. (c, Returns None)) (\<lambda>_ c _. (c, Returns ())) (New None None :: (unit, unit, unit \<times> channel) Router) ()
      (newChannel ''session'' channelInbound [] 0) = (evs, ch', Returns ()) \<and> decided ch'"
proof -
  let ?r = "New None None :: (unit, unit, unit \<times> channel) Router"
  let ?impl = "(\<lambda>_ c. (c, Returns None)) :: unit \<Rightarrow> (unit \<times> channel) HandlerFunc"
  let ?pimpl = "(\<lambda>_ c _. (c, Returns ())) :: unit \<Rightarrow> (unit \<times> channel) UrlContext \<Rightarrow> panic \<Rightarrow> (unit \<times> channel) UrlContext \<times> unit call"
  let ?d = "UrlDispatch (Accept (\<lambda>_ _. None)) (Reject (\<lambda>_ _. None)) chanType latin1_lower ?impl ?pimpl ?r ()
      (newChannel ''session'' channelInbound [] 0)"
  have ok: "tree_ok (root ?r)" by (simp add: New_def tree_ok_new)
  have k: "keeps_decision decided ?impl ?pimpl ?r" by (simp add: keeps_decision_def handlers_def New_def routes_new)
  have "ParseRequestURI latin1_lower ''session'' = Inl InvalidRequestURI"
    by (simp add: ParseRequestURI_def getscheme_def getscheme_at.simps letter_def split_none Let_def)
  then have "\<exists>evs ch'. ?d = (evs, ch', Returns ())"
    by (simp add: UrlDispatch_def newChannel_def deferClose_def do_reject_def split: prod.split)
  then obtain evs ch' where d: "?d = (evs, ch', Returns ())" by blast
  with UrlDispatch_answers [OF ok k d] show ?thesis by blast
qed


text \<open>A URL dispatch never gives the reasons \<open>UserNotSupported\<close> and \<open>HostNotSupported\<close>: the parser
  reads no authority without a scheme, and a scheme is refused first.\<close>

theorem UrlDispatch_reasons:
  assumes "RejectCalled reason msg ok \<in> set (fst (UrlDispatch accept reject ty lower impl pimpl r ctx ch))"
  shows "reason \<in> {InvalidChannelType, SchemeNotSupported, InvalidQueryParams, UnknownChannelType,
      ChannelAcceptError, ChannelHandleError} \<and> reason \<noteq> UserNotSupported \<and> reason \<noteq> HostNotSupported"
proof -
  have "reason \<in> {InvalidChannelType, SchemeNotSupported, InvalidQueryParams, UnknownChannelType,
      ChannelAcceptError, ChannelHandleError}"
    using assms rejectUri_scheme
    by (auto simp: UrlDispatch_def deferClose_def do_reject_def acceptAndHandle_def after_def
        split: sum.splits option.splits prod.splits bool.splits call.splits)
  then show ?thesis
    by (auto simp: InvalidChannelType_def SchemeNotSupported_def InvalidQueryParams_def UnknownChannelType_def
        ChannelAcceptError_def ChannelHandleError_def UserNotSupported_def HostNotSupported_def)
qed

theorem UrlDispatch_reasons_witness:
  "\<exists>reason msg. RejectCalled reason msg True \<in> set (fst (UrlDispatch (\<lambda>c. (c, None :: unit option)) (\<lambda>c _ _. (c, None))
      (\<lambda>_. '''') latin1_lower (\<lambda>_ c. (c, Returns None)) (\<lambda>_ c _. (c, Returns ()))
      (New None None :: (unit, unit, unit \<times> unit) Router) () ())) \<and> reason \<noteq> HostNotSupported"
proof -
  have "RejectCalled InvalidChannelType ''invalid channel URI'' True \<in>
      set (fst (UrlDispatch (\<lambda>c. (c, None :: unit option)) (\<lambda>c _ _. (c, None))
      (\<lambda>_. '''') latin1_lower (\<lambda>_ c. (c, Returns None)) (\<lambda>_ c _. (c, Returns ()))
      (New None None :: (unit, unit, unit \<times> unit) Router) () ()))"
    by (simp add: UrlDispatch_def ParseRequestURI_def deferClose_def do_reject_def)
  from UrlDispatch_reasons [OF this] this show ?thesis by blast
qed

text \<open>The whole way of a channel whose path is registered. The request \<open>p\<close>, written as a URI, is
  accepted, the handler of the matching route runs with the path and the parameters of the
  match, and the connection is closed; when the handler returns an error the dispatcher also
  tries to reject the channel.\<close>

theorem UrlDispatch_registered:
  assumes "tree_ok (root r)" "p \<noteq> []" "hd p = slash" "ty ch = uri_of_path p"
    and "(pat, h) \<in> set (routes (root r))" "match_pat pat p = Some ps"
    and "accept ch = (ch1, None)"
    and "callHandler impl h \<lparr>u_Path = p, u_Params = ps, u_Values = Map.empty, u_conn = (ctx, ch1)\<rparr> = (c', Returns e)"
  shows "\<exists>ok. fst (UrlDispatch accept reject ty lower impl pimpl r ctx ch) =
    [AcceptCalled True,
     Handled [HandlerCalled h \<lparr>u_Path = p, u_Params = ps, u_Values = Map.empty, u_conn = (ctx, ch1)\<rparr>]] @
    (case e of None \<Rightarrow> [] | Some err \<Rightarrow> [RejectCalled ChannelHandleError (handleErrorMessage err) ok]) @ [ConnClosed]"
proof -
  let ?c = "\<lparr>u_Path = p, u_Params = [], u_Values = Map.empty, u_conn = (ctx, ch1)\<rparr>"
  have find: "tree_find (root r) p = Some (h, ps)"
    using assms(5,6) tree.find_matches [OF assms(1)] by (auto simp: matches_def)
  have "handleBody lower impl r ?c = ([HandlerCalled h (?c\<lparr>u_Params := ps\<rparr>)], c', Returns e)"
    using handleBody_found [OF assms(1), of ?c h ps lower impl] find assms(8) by simp
  from Handle_returns [OF this, of pimpl] have route: "routeChannel lower impl pimpl r p Map.empty ctx ch1 =
      (snd (u_conn c'), [HandlerCalled h (?c\<lparr>u_Params := ps\<rparr>)], Returns e)"
    by (simp add: routeChannel_def)
  have u: "ParseRequestURI lower (ty ch) = Inr (empty_URL\<lparr>Path := p\<rparr>)"
    unfolding assms(4) by (rule ParseRequestURI_uri_of_path [OF assms(2,3)])
  have q: "ParseQuery [] = (Map.empty, False)" by (simp add: ParseQuery_def parseQuery.simps)
  have "HasRoute r p = Returns True" using HasRoute_find [OF assms(1), of p] find by simp
  then show ?thesis using u q assms(7) route
    by (simp add: UrlDispatch_def rejectUri_def empty_URL_def acceptAndHandle_def deferClose_def after_def
        do_reject_def split: option.split prod.split)
qed

theorem UrlDispatch_registered_witness:
  "\<exists>(r :: (unit, unit, unit \<times> channel) Router) evs. fst (UrlDispatch (Accept (\<lambda>_ _. None)) (Reject (\<lambda>_ _. None)) chanType latin1_lower
      (\<lambda>_ c. (c, Returns (Some ''no''))) (\<lambda>_ c _. (c, Returns ())) r () (newChannel (uri_of_path ''/a/x'') channelInbound [] 0)) =
    AcceptCalled True # evs \<and> length evs = 3"
proof -
  let ?ch = "newChannel (uri_of_path ''/a/x'') channelInbound [] 0"
  have "good_pat ''/a/:b''" "valid_pat ''/a/:b''"
    by (simp_all add: good_pat_def is_wild_def segment_def after_segment_def valid_name_def)
  then obtain r :: "(unit, unit, unit \<times> channel) Router" where r: "tree_ok (root r)"
    "set (routes (root r)) = {(''/a/:b'', AppHandler ())}" by (rule one_route)
  have m: "match_pat ''/a/:b'' ''/a/x'' = Some [\<lparr>Key = ''b'', Value = ''x''\<rparr>]"
    by (simp add: segment_def after_segment_def)
  have "\<exists>ch1. Accept (\<lambda>_ _. None) ?ch = (ch1, None)"
    by (simp add: Accept_def newChannel_def sendMessage_def writePacket_def Let_def)
  then obtain ch1 where a: "Accept (\<lambda>_ _. None) ?ch = (ch1, None)" by blast
  have ty: "chanType ?ch = uri_of_path ''/a/x''" by (simp add: newChannel_def)
  have "\<exists>ok. fst (UrlDispatch (Accept (\<lambda>_ _. None)) (Reject (\<lambda>_ _. None)) chanType latin1_lower
      (\<lambda>_ c. (c, Returns (Some ''no''))) (\<lambda>_ c _. (c, Returns ())) r () ?ch) =
    [AcceptCalled True, Handled [HandlerCalled (AppHandler ()) \<lparr>u_Path = ''/a/x'', u_Params = [\<lparr>Key = ''b'', Value = ''x''\<rparr>],
       u_Values = Map.empty, u_conn = ((), ch1)\<rparr>]] @
    (case Some ''no'' of None \<Rightarrow> [] | Some err \<Rightarrow> [RejectCalled ChannelHandleError (handleErrorMessage err) ok]) @ [ConnClosed]"
    by (rule UrlDispatch_registered [where ty = chanType and ch = ?ch and accept = "Accept (\<lambda>_ _. None)",
          OF r(1) _ _ ty _ m a]) (simp_all add: r(2))
  then obtain ok where fin: "fst (UrlDispatch (Accept (\<lambda>_ _. None)) (Reject (\<lambda>_ _. None)) chanType latin1_lower
      (\<lambda>_ c. (c, Returns (Some ''no''))) (\<lambda>_ c _. (c, Returns ())) r () ?ch) =
    AcceptCalled True # [Handled [HandlerCalled (AppHandler ()) \<lparr>u_Path = ''/a/x'', u_Params = [\<lparr>Key = ''b'', Value = ''x''\<rparr>],
       u_Values = Map.empty, u_conn = ((), ch1)\<rparr>], RejectCalled ChannelHandleError (handleErrorMessage ''no'') ok, ConnClosed]"
    by auto
  show ?thesis
    by (intro exI conjI, rule fin) simp
qed

text \<open>A path that no route matches is rejected as an unknown channel type, with the path as the
  message, and never accepted.\<close>

theorem UrlDispatch_unknown:
  assumes "tree_ok (root r)" "p \<noteq> []" "hd p = slash" "ty ch = uri_of_path p"
    and "\<not> (\<exists>pat h ps. (pat, h) \<in> set (routes (root r)) \<and> match_pat pat p = Some ps)"
  shows "UrlDispatch accept reject ty lower impl pimpl r ctx ch =
    (case reject ch UnknownChannelType p of
       (ch', err) \<Rightarrow> ([RejectCalled UnknownChannelType p (err = None), ConnClosed], ch', Returns ()))"
proof -
  have u: "ParseRequestURI lower (ty ch) = Inr (empty_URL\<lparr>Path := p\<rparr>)"
    unfolding assms(4) by (rule ParseRequestURI_uri_of_path [OF assms(2,3)])
  have q: "ParseQuery [] = (Map.empty, False)" by (simp add: ParseQuery_def parseQuery.simps)
  have "HasRoute r p = Returns False"
    using HasRoute_find [OF assms(1), of p] find_None_iff [OF assms(1), of p] assms(5) by simp
  then show ?thesis using u q
    by (simp add: UrlDispatch_def rejectUri_def empty_URL_def deferClose_def do_reject_def split: prod.split)
qed

theorem UrlDispatch_unknown_witness:
  "fst (UrlDispatch (\<lambda>c. (c, None :: unit option)) (\<lambda>c _ _. (c, None)) (\<lambda>_. uri_of_path ''/a'') latin1_lower
      (\<lambda>_ c. (c, Returns None)) (\<lambda>_ c _. (c, Returns ())) (New None None :: (unit, unit, unit \<times> unit) Router) () ()) =
    [RejectCalled UnknownChannelType ''/a'' True, ConnClosed]"
  by (subst UrlDispatch_unknown [of _ "''/a''"]) (simp_all add: New_def tree_ok_new routes_new)

text \<open>What the \<open>SimpleDispatcher\<close> does with a channel of the package \<^verbatim>\<open>ssh\<close>. At most one call of
  \<open>Accept\<close> and \<open>Reject\<close> succeeds and the connection is closed last. A type that has a handler is
  decided when the dispatch returns, and a panic of its handler leaves the dispatch whether or
  not there is a panic handler. A type without a handler is neither accepted nor rejected,
  whatever \<open>NotFound\<close> is.\<close>

theorem SimpleDispatch_answers:
  assumes "\<And>h c. decided c \<Longrightarrow> decided (fst (impl h c))"
    and "SimpleDispatch (Accept tr) (Reject tr) chanType impl u ch = (evs, ch', res)"
  shows "length (filter effective evs) \<le> 1 \<and> last evs = ConnClosed \<and>
    (case sd_Handlers u (chanType ch) of
       None \<Rightarrow> evs = [ConnClosed] \<and> ch' = ch \<and> res = Returns ()
     | Some h \<Rightarrow> (res = Returns () \<longrightarrow> decided ch') \<and>
         (\<forall>ch1 ch2 v. Accept tr ch = (ch1, None) \<and> impl h ch1 = (ch2, Panics v) \<longrightarrow>
            evs = [AcceptCalled True, Handled h, ConnClosed] \<and> ch' = ch2 \<and> res = Panics v))"
proof (cases "sd_Handlers u (chanType ch)")
  case None
  then show ?thesis using assms(2) by (auto simp: SimpleDispatch_def deferClose_def)
next
  case (Some h)
  let ?handle = "\<lambda>c. case impl h c of (c', res) \<Rightarrow> (c', h, res)"
  have "keeps decided ?handle" by (simp add: keeps_def case_prod_beta assms(1))
  from ssh.answered_acceptAndHandle [OF this]
  have "answered decided (SimpleDispatch (Accept tr) (Reject tr) chanType impl u ch)"
    using Some by (simp add: SimpleDispatch_def)
  moreover have "last evs = ConnClosed"
    using assms(2) by (auto simp: SimpleDispatch_def deferClose_def)
  moreover have "evs = [AcceptCalled True, Handled h, ConnClosed] \<and> ch' = ch2 \<and> res = Panics v"
    if "Accept tr ch = (ch1, None)" "impl h ch1 = (ch2, Panics v)" for ch1 ch2 v
    using that assms(2) Some by (simp add: SimpleDispatch_def acceptAndHandle_def deferClose_def)
  ultimately show ?thesis using assms(2) Some by (auto simp: answered_def)
qed

theorem SimpleDispatch_answers_witness:
  "\<exists>evs ch'. SimpleDispatch (Accept (\<lambda>_ _. None)) (Reject (\<lambda>_ _. None)) chanType (\<lambda>_ c. (c, Panics (Some NilDereference)))
      (\<lparr>sd_Handlers = [''x'' \<mapsto> ()], sd_PanicHandler = Some (), sd_NotFound = None\<rparr> :: (unit, unit) SimpleDispatcher)
      (newChannel ''x'' channelInbound [] 0) = (evs, ch', Panics (Some NilDereference)) \<and> last evs = ConnClosed"
proof -
  let ?u = "\<lparr>sd_Handlers = [''x'' \<mapsto> ()], sd_PanicHandler = Some (), sd_NotFound = None\<rparr> :: (unit, unit) SimpleDispatcher"
  let ?impl = "(\<lambda>_ c. (c, Panics (Some NilDereference))) :: unit \<Rightarrow> channel \<Rightarrow> channel \<times> error option call"
  let ?ch = "newChannel ''x'' channelInbound [] 0"
  obtain evs ch' res where d: "SimpleDispatch (Accept (\<lambda>_ _. None)) (Reject (\<lambda>_ _. None)) chanType ?impl ?u ?ch = (evs, ch', res)"
    by (cases "SimpleDispatch (Accept (\<lambda>_ _. None)) (Reject (\<lambda>_ _. None)) chanType ?impl ?u ?ch")
  have "\<exists>ch1. Accept (\<lambda>_ _. None) ?ch = (ch1, None)"
    by (simp add: Accept_def newChannel_def sendMessage_def writePacket_def Let_def)
  moreover have "sd_Handlers ?u (chanType ?ch) = Some ()" by (simp add: newChannel_def)
  ultimately have "res = Panics (Some NilDereference) \<and> last evs = ConnClosed"
    using SimpleDispatch_answers [OF _ d] by auto
  with d show ?thesis by blast
qed

end
