(* ===== verification/Ssh_Mux.thy ===== *)
theory Ssh_Mux
  imports Ssh_Channel
begin

text \<open>
  The connection protocol of the vendored package \<^verbatim>\<open>golang.org/x/crypto/ssh\<close>: what a channel does
  with a packet (\<^verbatim>\<open>channel.go\<close>, \<open>handlePacket\<close> and the requests) and the multiplexer that reads
  packets and hands them to channels (\<^verbatim>\<open>mux.go\<close>).

  The mux and the application share channels by reference: the objects of the model are a list
  that only grows, and the channel list, the queues and the application hold indices into it. A Go
  channel is a list with a capacity. Sending to a full one and receiving from an empty one waits;
  a function that waits is \<open>Blocks\<close>, and runs again when the queue has changed.
\<close>

section \<open>Go channels\<close>

definition send_to :: "bool \<Rightarrow> nat \<Rightarrow> 'a list \<Rightarrow> 'a \<Rightarrow> 'a list step" where
  "send_to closed capacity q x =
     (if closed then Panicked SendOnClosed else if length q < capacity then Ran (q @ [x]) else Blocks)"

text \<open>A receive gives \<^const>\<open>None\<close> when the channel is closed and empty.\<close>

definition receive_from :: "bool \<Rightarrow> 'a list \<Rightarrow> ('a option \<times> 'a list) step" where
  "receive_from closed q =
     (case q of x # xs \<Rightarrow> Ran (Some x, xs) | [] \<Rightarrow> if closed then Ran (None, []) else Blocks)"

section \<open>The channel and a packet\<close>

definition push_msg :: "channel \<Rightarrow> wire_msg \<Rightarrow> channel step" where
  "push_msg c m = and_then (send_to (queues_closed c) 16 (msgs c) m) (\<lambda>q. Ran (c\<lparr>msgs := q\<rparr>))"

text \<open>
  The type switch of \<open>handlePacket\<close>: the channel, the ids removed from the channel list, and the
  error. The removal comes before the message is queued.
\<close>

definition handleMessage :: "channel \<Rightarrow> wire_msg \<Rightarrow> (channel \<times> 32 word list \<times> chan_error option) step" where
  "handleMessage c m =
     (let t = fst m; vs = snd m in
      if t = channelOpenFailureMsg then
        (case responseMessageReceived c of
           (c1, Some e) \<Rightarrow> Ran (c1, [], Some e)
         | (c1, None) \<Rightarrow> and_then (push_msg c1 m) (\<lambda>c2. Ran (c2, [u32_at vs 0], None)))
      else if t = channelOpenConfirmMsg then
        (case responseMessageReceived c of
           (c1, Some e) \<Rightarrow> Ran (c1, [], Some e)
         | (c1, None) \<Rightarrow>
             let maxPacket = u32_at vs 3 in
             if maxPacket < minPacketLength \<or> maxPacket > push_bit 31 1
             then Ran (c1, [], Some (InvalidMaxPacketSize maxPacket))
             else
               let c2 = c1\<lparr>remoteId := u32_at vs 1, maxRemotePayload := maxPacket,
                     remoteWin := fst (win_add (remoteWin c1) (u32_at vs 2))\<rparr>
               in and_then (push_msg c2 m) (\<lambda>c3. Ran (c3, [], None)))
      else if t = windowAdjustMsg then
        (case win_add (remoteWin c) (u32_at vs 1) of
           (w, ok) \<Rightarrow>
             Ran (c\<lparr>remoteWin := w\<rparr>, [], if ok then None else Some (InvalidWindowUpdate (u32_at vs 1))))
      else if t = channelRequestMsg then
        (let req = \<lparr>r_Type = bytes_at vs 1, r_WantReply = bool_at vs 2, r_Payload = bytes_at vs 3\<rparr>
         in and_then (send_to (queues_closed c) 16 (requests c) req) (\<lambda>q. Ran (c\<lparr>requests := q\<rparr>, [], None)))
      else and_then (push_msg c m) (\<lambda>c1. Ran (c1, [], None)))"

definition msgChannelClose :: "8 word" where "msgChannelClose = 97"
definition msgChannelEOF :: "8 word" where "msgChannelEOF = 96"

definition handlePacket :: "transport \<Rightarrow> channel \<Rightarrow> bytes \<Rightarrow> (channel \<times> 32 word list \<times> chan_error option) step" where
  "handlePacket tr c packet =
     (case packet of
        [] \<Rightarrow> Panicked IndexOutOfRange
      | b # _ \<Rightarrow>
          if b = msgChannelData \<or> b = msgChannelExtendedData then
            (case handleData c packet of (c1, err) \<Rightarrow> Ran (c1, [], err))
          else if b = msgChannelClose then
            (case sendMessage tr c (ChannelClose (remoteId c)) of
               (c1, _) \<Rightarrow>
                 (case close_channel c1 of
                    Inl e \<Rightarrow> Panicked e
                  | Inr c2 \<Rightarrow> Ran (c2, [localId c1], None)))
          else if b = msgChannelEOF then
            Ran (c\<lparr>extPending := buf_eof (extPending c), pending := buf_eof (pending c)\<rparr>, [], None)
          else
            (case decode packet of
               Crash e \<Rightarrow> Panicked e
             | Malformed e \<Rightarrow> Ran (c, [], Some (BadPacket e))
             | Parsed m \<Rightarrow> handleMessage c m))"

section \<open>Requests on a channel\<close>

text \<open>
  \<open>SendRequest\<close> up to the point where it waits for the reply, which is \<^const>\<open>None\<close>, and the
  receive of the reply.
\<close>

definition SendRequest_send :: "transport \<Rightarrow> channel \<Rightarrow> string \<Rightarrow> bool \<Rightarrow> bytes \<Rightarrow>
    channel \<times> (bool \<times> chan_error option) option" where
  "SendRequest_send tr c name wantReply data =
     (if \<not> decided c then (c, Some (False, Some ErrUndecided))
      else
        (case sendMessage tr c (ChannelRequest (remoteId c) name wantReply data) of
           (c1, Some e) \<Rightarrow> (c1, Some (False, Some e))
         | (c1, None) \<Rightarrow> (c1, if wantReply then None else Some (False, None))))"

definition SendRequest_reply :: "channel \<Rightarrow> (channel \<times> bool \<times> chan_error option) step" where
  "SendRequest_reply c =
     and_then (receive_from (queues_closed c) (msgs c))
       (\<lambda>(m, q). Ran (c\<lparr>msgs := q\<rparr>,
          case m of
            None \<Rightarrow> (False, Some IoEOF)
          | Some (t, vs) \<Rightarrow>
              if t = channelRequestFailureMsg then (False, None)
              else if t = channelRequestSuccessMsg then (True, None)
              else (False, Some UnexpectedResponse)))"

text \<open>\<open>Extended\<close> gives nothing before the decision; its reader and writer use the code.\<close>

definition Extended :: "channel \<Rightarrow> 32 word \<Rightarrow> 32 word option" where
  "Extended c code = (if \<not> decided c then None else Some code)"

definition Stderr :: "channel \<Rightarrow> 32 word option" where
  "Stderr c = Extended c 1"

section \<open>The channel list\<close>

text \<open>A slot holds a reference or nil; ids are the indices plus \<open>offset\<close>, in 32 bits.\<close>

definition chanList_add :: "'a option list \<Rightarrow> 32 word \<Rightarrow> 'a \<Rightarrow> 'a option list \<times> 32 word" where
  "chanList_add cs off ch =
     (case find_index None cs of
        Some i \<Rightarrow> (cs[i := Some ch], word_of_nat i + off)
      | None \<Rightarrow> (cs @ [Some ch], word_of_nat (length (cs @ [Some ch]) - 1) + off))"

definition getChan :: "'a option list \<Rightarrow> 32 word \<Rightarrow> 32 word \<Rightarrow> 'a option" where
  "getChan cs off id0 =
     (let k = id0 - off in if k < word_of_nat (length cs) then cs ! unat k else None)"

definition chanList_remove :: "'a option list \<Rightarrow> 32 word \<Rightarrow> 32 word \<Rightarrow> 'a option list" where
  "chanList_remove cs off id0 =
     (let k = id0 - off in if k < word_of_nat (length cs) then cs[unat k := None] else cs)"

text \<open>\<open>dropAll\<close> returns the channels and leaves the list empty.\<close>

definition dropAll :: "'a option list \<Rightarrow> 'a list \<times> 'a option list" where
  "dropAll cs = (map the (filter (\<lambda>c. c \<noteq> None) cs), [])"

section \<open>The multiplexer\<close>

datatype mux_error =
    OfChannel chan_error
  | OfWire wire_error
  | NoChannel "32 word"
  | Disconnected "fval list"
  | ReadFailed string
  | WriteFailed string
  | ResponseUnexpected

text \<open>
  The struct. \<open>objs\<close> are the channel objects made so far; \<open>chans\<close>, \<open>offset\<close> are the channel list;
  a global request carries no channel. \<open>mux_sent\<close> are the messages the mux itself wrote.
\<close>

record mux =
  objs :: "channel list"
  chans :: "nat option list"
  offset :: "32 word"
  incomingChannels :: "nat list"
  incomingRequests :: "request list"
  globalResponses :: "wire_msg list"
  mux_closed :: bool
  conn_closed :: bool
  mux_err :: "mux_error option"
  mux_sent :: "wire_msg list"

definition newMux :: mux where
  "newMux =
     \<lparr>objs = [], chans = [], offset = 0, incomingChannels = [], incomingRequests = [], globalResponses = [],
      mux_closed = False, conn_closed = False, mux_err = None, mux_sent = []\<rparr>"

text \<open>The connection below: the error of writing a message after those written before.\<close>

type_synonym connection = "wire_msg list \<Rightarrow> wire_msg \<Rightarrow> string option"

definition mux_sendMessage :: "connection \<Rightarrow> mux \<Rightarrow> wire_msg \<Rightarrow> mux \<times> mux_error option" where
  "mux_sendMessage cn m msg =
     (m\<lparr>mux_sent := mux_sent m @ [msg]\<rparr>, map_option WriteFailed (cn (mux_sent m) msg))"

definition mux_newChannel :: "mux \<Rightarrow> string \<Rightarrow> channelDirection \<Rightarrow> bytes \<Rightarrow> mux \<times> nat" where
  "mux_newChannel m ty dir extra =
     (let i = length (objs m); (cs, lid) = chanList_add (chans m) (offset m) i
      in (m\<lparr>objs := objs m @ [newChannel ty dir extra lid], chans := cs\<rparr>, i))"

definition ackGlobalRequest :: "connection \<Rightarrow> mux \<Rightarrow> bool \<Rightarrow> bytes \<Rightarrow> mux \<times> mux_error option" where
  "ackGlobalRequest cn m ok data =
     (if ok then mux_sendMessage cn m (globalRequestSuccessMsg, [VBytes data])
      else mux_sendMessage cn m (globalRequestFailureMsg, [VBytes data]))"

definition Disconnect :: "connection \<Rightarrow> mux \<Rightarrow> 32 word \<Rightarrow> bytes \<Rightarrow> mux \<times> mux_error option" where
  "Disconnect cn m reason msg =
     mux_sendMessage cn m (disconnectMsg, [VU32 reason, VBytes msg, VBytes []])"

text \<open>\<open>Wait\<close> returns the error of the loop and waits while there is none.\<close>

definition mux_Wait :: "mux \<Rightarrow> mux_error step" where
  "mux_Wait m = (case mux_err m of None \<Rightarrow> Blocks | Some e \<Rightarrow> Ran e)"

definition mux_SendRequest_send :: "connection \<Rightarrow> mux \<Rightarrow> bytes \<Rightarrow> bool \<Rightarrow> bytes \<Rightarrow>
    mux \<times> (bool \<times> bytes \<times> mux_error option) option" where
  "mux_SendRequest_send cn m name wantReply data =
     (case mux_sendMessage cn m (globalRequestMsg, [VBytes name, VBool wantReply, VBytes data]) of
        (m1, Some e) \<Rightarrow> (m1, Some (False, [], Some e))
      | (m1, None) \<Rightarrow> (m1, if wantReply then None else Some (False, [], None)))"

definition mux_SendRequest_reply :: "mux \<Rightarrow> (mux \<times> bool \<times> bytes \<times> mux_error option) step" where
  "mux_SendRequest_reply m =
     and_then (receive_from (mux_closed m) (globalResponses m))
       (\<lambda>(r, q). Ran (m\<lparr>globalResponses := q\<rparr>,
          case r of
            None \<Rightarrow> (False, [], Some (OfChannel IoEOF))
          | Some (t, vs) \<Rightarrow>
              if t = globalRequestFailureMsg then (False, bytes_at vs 0, None)
              else if t = globalRequestSuccessMsg then (True, bytes_at vs 0, None)
              else (False, [], Some ResponseUnexpected)))"

section \<open>One packet\<close>

definition handleDisconnect :: "mux \<Rightarrow> bytes \<Rightarrow> (mux \<times> mux_error option) step" where
  "handleDisconnect m packet =
     (case Unmarshal packet disconnectMsg of
        Crash e \<Rightarrow> Panicked e
      | Malformed e \<Rightarrow> Ran (m, Some (OfWire e))
      | Parsed vs \<Rightarrow> Ran (m, Some (Disconnected vs)))"

definition handleGlobalPacket :: "mux \<Rightarrow> bytes \<Rightarrow> (mux \<times> mux_error option) step" where
  "handleGlobalPacket m packet =
     (case decode packet of
        Crash e \<Rightarrow> Panicked e
      | Malformed e \<Rightarrow> Ran (m, Some (OfWire e))
      | Parsed (t, vs) \<Rightarrow>
          if t = globalRequestMsg then
            and_then (send_to (mux_closed m) 16 (incomingRequests m)
                \<lparr>r_Type = bytes_at vs 0, r_WantReply = bool_at vs 1, r_Payload = bytes_at vs 2\<rparr>)
              (\<lambda>q. Ran (m\<lparr>incomingRequests := q\<rparr>, None))
          else if t = globalRequestSuccessMsg \<or> t = globalRequestFailureMsg then
            and_then (send_to (mux_closed m) 1 (globalResponses m) (t, vs))
              (\<lambda>q. Ran (m\<lparr>globalResponses := q\<rparr>, None))
          else Panicked NotGlobalMessage)"

definition ConnectionFailed :: "32 word" where "ConnectionFailed = 2"

definition handleChannelOpen :: "connection \<Rightarrow> mux \<Rightarrow> bytes \<Rightarrow> (mux \<times> mux_error option) step" where
  "handleChannelOpen cn m packet =
     (case Unmarshal packet channelOpenMsg of
        Crash e \<Rightarrow> Panicked e
      | Malformed e \<Rightarrow> Ran (m, Some (OfWire e))
      | Parsed vs \<Rightarrow>
          let maxPacket = u32_at vs 3 in
          if maxPacket < minPacketLength \<or> maxPacket > push_bit 31 1
          then Ran (mux_sendMessage cn m (channelOpenFailureMsg,
            [VU32 (u32_at vs 1), VU32 ConnectionFailed, VBytes (bytes_of ''invalid request''),
             VBytes (bytes_of ''en_US.UTF-8'')]))
          else
            let (m1, i) = mux_newChannel m (str (bytes_at vs 0)) channelInbound (bytes_at vs 4);
                c = objs m1 ! i;
                c1 = c\<lparr>remoteId := u32_at vs 1, maxRemotePayload := maxPacket,
                  remoteWin := fst (win_add (remoteWin c) (u32_at vs 2))\<rparr>;
                m2 = m1\<lparr>objs := (objs m1)[i := c1]\<rparr>
            in and_then (send_to (mux_closed m2) 16 (incomingChannels m2) i)
                 (\<lambda>q. Ran (m2\<lparr>incomingChannels := q\<rparr>, None)))"

text \<open>A packet for the channel object \<open>i\<close>, with what it removes from the channel list.\<close>

definition channelPacket :: "transport \<Rightarrow> mux \<Rightarrow> nat \<Rightarrow> bytes \<Rightarrow> (mux \<times> mux_error option) step" where
  "channelPacket tr m i packet =
     and_then (handlePacket tr (objs m ! i) packet)
       (\<lambda>(c, removed, err).
          Ran (m\<lparr>objs := (objs m)[i := c], chans := fold (\<lambda>k cs. chanList_remove cs (offset m) k) removed (chans m)\<rparr>,
            map_option OfChannel err))"

text \<open>\<open>readPacket\<close> gives an error or a packet.\<close>

definition onePacket :: "transport \<Rightarrow> connection \<Rightarrow> mux \<Rightarrow> string + bytes \<Rightarrow> (mux \<times> mux_error option) step" where
  "onePacket tr cn m inp =
     (case inp of
        Inl err \<Rightarrow> Ran (m, Some (ReadFailed err))
      | Inr [] \<Rightarrow> Panicked IndexOutOfRange
      | Inr (b # rest) \<Rightarrow>
          let packet = b # rest in
          if b = 21 then Ran (m, None)
          else if b = 1 then handleDisconnect m packet
          else if b = 90 then handleChannelOpen cn m packet
          else if b = 80 \<or> b = 81 \<or> b = 82 then handleGlobalPacket m packet
          else if length packet < 5 then Ran (m, Some (OfWire (ParseError b)))
          else
            (case getChan (chans m) (offset m) (be32 rest) of
               None \<Rightarrow> Ran (m, Some (NoChannel (be32 rest)))
             | Some i \<Rightarrow> channelPacket tr m i packet))"

text \<open>The end of \<open>loop\<close>: the channels that are left are closed, then the queues.\<close>

fun closeAll :: "nat list \<Rightarrow> channel list \<Rightarrow> panic + channel list" where
  "closeAll [] os = Inr os"
| "closeAll (i # is) os =
     (case close_channel (os ! i) of Inl e \<Rightarrow> Inl e | Inr c \<Rightarrow> closeAll is (os[i := c]))"

definition loop_exit :: "mux \<Rightarrow> mux_error \<Rightarrow> mux step" where
  "loop_exit m err =
     (case dropAll (chans m) of
        (dropped, cs) \<Rightarrow>
          (case closeAll dropped (objs m) of
             Inl e \<Rightarrow> Panicked e
           | Inr os \<Rightarrow>
               if mux_closed m then Panicked CloseOfClosed
               else Ran (m\<lparr>objs := os, chans := cs, mux_closed := True, conn_closed := True, mux_err := Some err\<rparr>)))"

text \<open>\<open>loop\<close> over the results of \<open>readPacket\<close> so far, and whether it ended.\<close>

fun mux_loop :: "transport \<Rightarrow> connection \<Rightarrow> mux \<Rightarrow> (string + bytes) list \<Rightarrow> (mux \<times> bool) step" where
  "mux_loop tr cn m [] = Ran (m, False)"
| "mux_loop tr cn m (x # xs) =
     and_then (onePacket tr cn m x)
       (\<lambda>(m1, err). case err of
          None \<Rightarrow> mux_loop tr cn m1 xs
        | Some e \<Rightarrow> and_then (loop_exit m1 e) (\<lambda>m2. Ran (m2, True)))"

section \<open>Opening a channel\<close>

definition openChannel_send :: "connection \<Rightarrow> mux \<Rightarrow> string \<Rightarrow> bytes \<Rightarrow> mux \<times> nat \<times> mux_error option" where
  "openChannel_send cn m ty extra =
     (let (m1, i) = mux_newChannel m ty channelOutbound extra;
          c = (objs m1 ! i)\<lparr>maxIncomingPayload := channelMaxPacket\<rparr>;
          m2 = m1\<lparr>objs := (objs m1)[i := c]\<rparr>;
          (m3, err) = mux_sendMessage cn m2 (channelOpenMsg,
            [VBytes (bytes_of ty), VU32 (localId c), VU32 (myWindow c), VU32 (maxIncomingPayload c), VBytes extra])
      in (m3, i, err))"

text \<open>The receive of the answer: the channel, or the reason and message of the refusal.\<close>

datatype opened = Opened nat | Refused "32 word" bytes | UnexpectedPacket

definition openChannel_reply :: "mux \<Rightarrow> nat \<Rightarrow> (mux \<times> opened) step" where
  "openChannel_reply m i =
     (let c = objs m ! i in
      and_then (receive_from (queues_closed c) (msgs c))
        (\<lambda>(r, q). Ran (m\<lparr>objs := (objs m)[i := c\<lparr>msgs := q\<rparr>]\<rparr>,
           case r of
             None \<Rightarrow> UnexpectedPacket
           | Some (t, vs) \<Rightarrow>
               if t = channelOpenConfirmMsg then Opened i
               else if t = channelOpenFailureMsg then Refused (u32_at vs 1) (bytes_at vs 2)
               else UnexpectedPacket)))"

text \<open>\<open>Reply\<close> to a request of the channel \<open>i\<close>, or to a global one.\<close>

definition Reply :: "transport \<Rightarrow> connection \<Rightarrow> mux \<Rightarrow> nat option \<Rightarrow> request \<Rightarrow> bool \<Rightarrow> bytes \<Rightarrow> mux \<times> mux_error option" where
  "Reply tr cn m ch req ok data =
     (if \<not> r_WantReply req then (m, None)
      else
        (case ch of
           None \<Rightarrow> ackGlobalRequest cn m ok data
         | Some i \<Rightarrow>
             (case ackRequest tr (objs m ! i) ok of
                (c, err) \<Rightarrow> (m\<lparr>objs := (objs m)[i := c]\<rparr>, map_option OfChannel err))))"

section \<open>The channel list hands out ids\<close>

lemma word_of_nat_inj32:
  "k < 2 ^ 32 \<Longrightarrow> j < 2 ^ 32 \<Longrightarrow> (word_of_nat k :: 32 word) = word_of_nat j \<longleftrightarrow> k = j"
  by (auto simp: word_of_nat_eq_iff take_bit_nat_eq_self)

lemma unat_of_nat32: "k < 2 ^ 32 \<Longrightarrow> unat (word_of_nat k :: 32 word) = k"
  by (simp only: unat_of_nat) simp

lemma less_of_length:
  fixes w :: "32 word"
  assumes "n < 2 ^ 32"
  shows "w < word_of_nat n \<longleftrightarrow> unat w < n"
  using assms by (simp only: word_less_nat_alt unat_of_nat32)

lemma getChan_iff:
  assumes "length cs < 2 ^ 32"
  shows "getChan cs off x = Some i \<longleftrightarrow> (\<exists>k < length cs. cs ! k = Some i \<and> x = word_of_nat k + off)"
proof -
  have "(unat (x - off) < length cs \<and> cs ! unat (x - off) = Some i) \<longleftrightarrow>
      (\<exists>k < length cs. cs ! k = Some i \<and> x = word_of_nat k + off)" (is "?l \<longleftrightarrow> ?r")
  proof
    assume ?l
    then show ?r by (intro exI [of _ "unat (x - off)"]) simp
  next
    assume ?r
    then obtain k where "k < length cs" "cs ! k = Some i" "x = word_of_nat k + off" by blast
    then show ?l using assms by (simp add: unat_of_nat32)
  qed
  then show ?thesis by (auto simp: getChan_def Let_def less_of_length [OF assms])
qed

lemma length_remove [simp]: "length (chanList_remove cs off x) = length cs"
  by (simp add: chanList_remove_def Let_def)

lemma nth_remove:
  assumes "length cs < 2 ^ 32" "k < length cs"
  shows "chanList_remove cs off x ! k = (if x = word_of_nat k + off then None else cs ! k)"
proof -
  have "unat (x - off) = k \<longleftrightarrow> x = word_of_nat k + off"
  proof -
    have "unat (x - off) = k \<longleftrightarrow> x - off = word_of_nat k" using assms by (auto simp: unat_of_nat32)
    then show ?thesis by (simp add: diff_eq_eq)
  qed
  then show ?thesis
    using assms by (auto simp: chanList_remove_def Let_def less_of_length [OF assms(1)] nth_list_update)
qed

lemma chanList_add_facts:
  assumes "chanList_add cs off i = (cs', x)" "length cs < 2 ^ 32"
  obtains k where "k < length cs'" "x = word_of_nat k + off" "k < length cs \<Longrightarrow> cs ! k = None" "cs' ! k = Some i"
    "\<And>j. j < length cs' \<Longrightarrow> j \<noteq> k \<Longrightarrow> j < length cs \<and> cs' ! j = cs ! j"
    "length cs \<le> length cs'" "length cs' \<le> Suc (length cs)"
proof (cases "find_index None cs")
  case None
  then show ?thesis using assms that [of "length cs"]
    by (auto simp: chanList_add_def nth_append)
next
  case (Some k)
  then have "k < length cs" "cs ! k = None" using find_index_Some by force+
  then show ?thesis using Some assms that [of k] by (auto simp: chanList_add_def)
qed

section \<open>A channel keeps its id, and only a close message closes it\<close>

lemma sendMessage_frame:
  "sendMessage tr c m = (c', err) \<Longrightarrow> localId c' = localId c \<and> queues_closed c' = queues_closed c \<and>
    pending c' = pending c \<and> extPending c' = extPending c \<and> myWindow c' = myWindow c"
  by (auto simp: sendMessage_def writePacket_def split: if_splits)

lemma responseMessageReceived_frame:
  "responseMessageReceived c = (c', err) \<Longrightarrow> localId c' = localId c \<and> queues_closed c' = queues_closed c \<and>
    pending c' = pending c \<and> extPending c' = extPending c \<and> myWindow c' = myWindow c"
  by (auto simp: responseMessageReceived_def split: if_splits)

lemma push_msg_Ran: "push_msg c m = Ran c' \<longleftrightarrow> \<not> queues_closed c \<and> length (msgs c) < 16 \<and> c' = c\<lparr>msgs := msgs c @ [m]\<rparr>"
  by (auto simp: push_msg_def send_to_def)

lemma push_msg_Panicked: "push_msg c m = Panicked e \<longleftrightarrow> queues_closed c \<and> e = SendOnClosed"
  by (auto simp: push_msg_def send_to_def)

lemma handleMessage_frame:
  assumes "handleMessage c m = Ran (c', removed, err)"
  shows "localId c' = localId c \<and> queues_closed c' = queues_closed c \<and>
    pending c' = pending c \<and> extPending c' = extPending c \<and> myWindow c' = myWindow c"
  using assms
  by (auto simp: handleMessage_def Let_def and_then_Ran push_msg_Ran send_to_def
      dest!: responseMessageReceived_frame split: if_splits prod.splits option.splits)

lemma handleMessage_open:
  assumes "\<not> queues_closed c"
  shows "handleMessage c m \<noteq> Panicked e"
  using assms
  by (auto simp: handleMessage_def Let_def and_then_Panicked push_msg_Panicked send_to_def
      dest!: responseMessageReceived_frame split: if_splits prod.splits option.splits)

lemma chan_ok_frame:
  "chan_ok c \<Longrightarrow> pending c' = pending c \<Longrightarrow> extPending c' = extPending c \<Longrightarrow> myWindow c' = myWindow c \<Longrightarrow> chan_ok c'"
  by (simp add: chan_ok_def)

lemma chan_ok_eof:
  "chan_ok c \<Longrightarrow> pending c' = buf_eof (pending c) \<Longrightarrow> extPending c' = buf_eof (extPending c) \<Longrightarrow>
    myWindow c' = myWindow c \<Longrightarrow> chan_ok c'"
  by (simp add: chan_ok_def buf_eof_def buffered_def)

lemma handleData_frame:
  "handleData c packet = (c', err) \<Longrightarrow> localId c' = localId c \<and> queues_closed c' = queues_closed c"
  by (auto simp: handleData_def Let_def split: if_splits)

lemma handlePacket_cases:
  assumes "handlePacket tr c (b # rest) = r"
  obtains (data) c' err where "handleData c (b # rest) = (c', err)" "r = Ran (c', [], err)"
    | (close) c1 err where "sendMessage tr c (ChannelClose (remoteId c)) = (c1, err)"
      "r = (case close_channel c1 of Inl e \<Rightarrow> Panicked e | Inr c2 \<Rightarrow> Ran (c2, [localId c1], None))"
    | (eof) "r = Ran (c\<lparr>extPending := buf_eof (extPending c), pending := buf_eof (pending c)\<rparr>, [], None)"
    | (crash) e where "decode (b # rest) = Crash e" "r = Panicked e"
    | (malformed) e where "r = Ran (c, [], Some (BadPacket e))"
    | (message) m where "decode (b # rest) = Parsed m" "r = handleMessage c m"
proof -
  consider (data) "b = msgChannelData \<or> b = msgChannelExtendedData"
    | (close) "\<not> (b = msgChannelData \<or> b = msgChannelExtendedData)" "b = msgChannelClose"
    | (eof) "\<not> (b = msgChannelData \<or> b = msgChannelExtendedData)" "b \<noteq> msgChannelClose" "b = msgChannelEOF"
    | (other) "\<not> (b = msgChannelData \<or> b = msgChannelExtendedData)" "b \<noteq> msgChannelClose" "b \<noteq> msgChannelEOF"
    by blast
  then show ?thesis
  proof cases
    case data
    show ?thesis
    proof (cases "handleData c (b # rest)")
      case (Pair c' err)
      with that(1) [OF this] data assms show ?thesis by (simp add: handlePacket_def)
    qed
  next
    case close
    show ?thesis
    proof (cases "sendMessage tr c (ChannelClose (remoteId c))")
      case (Pair c1 err)
      with that(2) [OF this] close assms show ?thesis by (simp add: handlePacket_def)
    qed
  next
    case eof
    with that(3) assms show ?thesis by (simp add: handlePacket_def)
  next
    case other
    then show ?thesis using assms that(4-6)
      by (cases "decode (b # rest)") (auto simp: handlePacket_def)
  qed
qed

lemma handlePacket_keeps:
  assumes "handlePacket tr c packet = Ran (c', removed, err)" "chan_ok c" "length packet < 2 ^ 32"
  shows "localId c' = localId c \<and> chan_ok c' \<and> (queues_closed c' \<longrightarrow> queues_closed c \<or> removed = [localId c])"
proof -
  obtain b rest where p: "packet = b # rest" using assms(1) by (cases packet) (auto simp: handlePacket_def)
  show ?thesis
  proof (rule handlePacket_cases [OF assms(1) [unfolded p]])
    fix c1 x assume d: "handleData c (b # rest) = (c1, x)" "Ran (c', removed, err) = Ran (c1, [], x)"
    then show ?thesis
      using handleData_ok [OF assms(2) d(1)] handleData_frame [OF d(1)] assms(3) p by simp
  next
    fix c1 x assume s: "sendMessage tr c (ChannelClose (remoteId c)) = (c1, x)"
      "Ran (c', removed, err) = (case close_channel c1 of Inl e \<Rightarrow> Panicked e | Inr c2 \<Rightarrow> Ran (c2, [localId c1], None))"
    then show ?thesis using sendMessage_frame [OF s(1)] assms(2)
      by (auto simp: close_channel_def split: if_splits intro: chan_ok_eof)
  next
    assume "Ran (c', removed, err) = Ran (c\<lparr>extPending := buf_eof (extPending c), pending := buf_eof (pending c)\<rparr>, [], None)"
    then show ?thesis using assms(2) by (auto intro: chan_ok_eof)
  next
    fix m assume "Ran (c', removed, err) = handleMessage c m"
    then show ?thesis using handleMessage_frame [of c m c' removed err] assms(2) by (auto intro: chan_ok_frame)
  qed (use assms(2) in simp_all)
qed

lemma handlePacket_panic:
  assumes "handlePacket tr c packet = Panicked e" "\<not> queues_closed c" "packet \<noteq> []" "length packet < 2 ^ 32"
  shows "e = SliceBounds \<and> (\<exists>bs. suffix bs packet \<and> overlong bs)"
proof -
  obtain b rest where p: "packet = b # rest" using assms(3) by (cases packet) auto
  have "decode packet = Crash e"
  proof (rule handlePacket_cases [OF assms(1) [unfolded p]])
    fix c1 x assume s: "sendMessage tr c (ChannelClose (remoteId c)) = (c1, x)"
      "Panicked e = (case close_channel c1 of Inl e \<Rightarrow> Panicked e | Inr c2 \<Rightarrow> Ran (c2, [localId c1], None))"
    then show ?thesis using sendMessage_frame [OF s(1)] assms(2) by (simp add: close_channel_def)
  next
    fix m assume "Panicked e = handleMessage c m"
    then show ?thesis using handleMessage_open [OF assms(2), of m e] by simp
  qed (use p in simp_all)
  then show ?thesis using decode_crash assms(3,4) by simp
qed

section \<open>The invariant of the multiplexer\<close>

text \<open>
  A listed channel exists, has the id of its slot and is open; all channels keep their flow
  control; the queues of the mux are open while its loop runs.
\<close>

definition slot_ok :: "mux \<Rightarrow> nat \<Rightarrow> nat \<Rightarrow> bool" where
  "slot_ok m k i \<longleftrightarrow> i < length (objs m) \<and> localId (objs m ! i) = word_of_nat k + offset m \<and>
     \<not> queues_closed (objs m ! i)"

definition mux_ok :: "mux \<Rightarrow> bool" where
  "mux_ok m \<longleftrightarrow> \<not> mux_closed m \<and> (\<forall>c \<in> set (objs m). chan_ok c) \<and>
     (\<forall>k i. k < length (chans m) \<longrightarrow> chans m ! k = Some i \<longrightarrow> slot_ok m k i)"

lemma mux_ok_new: "mux_ok newMux"
  by (simp add: mux_ok_def newMux_def)

lemma mux_ok_slot: "mux_ok m \<Longrightarrow> k < length (chans m) \<Longrightarrow> chans m ! k = Some i \<Longrightarrow> slot_ok m k i"
  by (simp add: mux_ok_def)

lemma mux_ok_chan: "mux_ok m \<Longrightarrow> i < length (objs m) \<Longrightarrow> chan_ok (objs m ! i)"
  by (simp add: mux_ok_def)

text \<open>Changes that touch neither the channels nor the list keep the invariant.\<close>

lemma mux_ok_frame:
  assumes "mux_ok m" "objs m' = objs m" "chans m' = chans m" "offset m' = offset m" "mux_closed m' = mux_closed m"
  shows "mux_ok m'"
  using assms by (simp add: mux_ok_def slot_ok_def)

lemma nth_fold_remove:
  assumes "length cs < 2 ^ 32" "k < length cs"
  shows "fold (\<lambda>x cs. chanList_remove cs off x) xs cs ! k =
    (if word_of_nat k + off \<in> set xs then None else cs ! k)"
  using assms by (induction xs arbitrary: cs) (auto simp: nth_remove)

lemma length_fold_remove [simp]: "length (fold (\<lambda>x cs. chanList_remove cs off x) xs cs) = length cs"
  by (induction xs arbitrary: cs) simp_all

lemma slots_injective:
  assumes "mux_ok m" "length (chans m) < 2 ^ 32" "k < length (chans m)" "j < length (chans m)"
    "chans m ! k = Some i" "chans m ! j = Some i"
  shows "k = j"
proof -
  have "(word_of_nat k :: 32 word) = word_of_nat j"
    using mux_ok_slot [OF assms(1,3,5)] mux_ok_slot [OF assms(1,4,6)] by (simp add: slot_ok_def)
  then show ?thesis using assms(2-4) by (simp add: word_of_nat_inj32)
qed

lemma channelPacket_keeps:
  assumes "mux_ok m" "length (chans m) < 2 ^ 32" "k < length (chans m)" "chans m ! k = Some i"
    "channelPacket tr m i packet = Ran (m', err)" "length packet < 2 ^ 32"
  shows "mux_ok m' \<and> length (chans m') = length (chans m)"
proof -
  have s: "i < length (objs m)" "localId (objs m ! i) = word_of_nat k + offset m" "\<not> queues_closed (objs m ! i)"
    using mux_ok_slot [OF assms(1,3,4)] by (simp_all add: slot_ok_def)
  obtain c removed e where h: "handlePacket tr (objs m ! i) packet = Ran (c, removed, e)"
    and m': "m' = m\<lparr>objs := (objs m)[i := c], chans := fold (\<lambda>k cs. chanList_remove cs (offset m) k) removed (chans m)\<rparr>"
    using assms(5) by (auto simp: channelPacket_def and_then_Ran)
  from handlePacket_keeps [OF h mux_ok_chan [OF assms(1) s(1)] assms(6)] s have
    c: "localId c = word_of_nat k + offset m" "chan_ok c" "queues_closed c \<Longrightarrow> removed = [word_of_nat k + offset m]"
    by auto
  have "slot_ok m' j x" if "j < length (chans m')" "chans m' ! j = Some x" for j x
  proof -
    from that have j: "j < length (chans m)" "word_of_nat j + offset m \<notin> set removed" "chans m ! j = Some x"
      using assms(2) by (simp_all add: m' nth_fold_remove split: if_splits)
    have old: "slot_ok m j x" by (rule mux_ok_slot [OF assms(1) j(1,3)])
    show ?thesis
    proof (cases "x = i")
      case True
      then have "j = k" using slots_injective [OF assms(1,2) j(1) assms(3)] j(3) assms(4) by simp
      then show ?thesis using True old c j(2) by (auto simp: slot_ok_def m')
    qed (use old in \<open>simp add: slot_ok_def m'\<close>)
  qed
  moreover have "\<forall>c \<in> set (objs m'). chan_ok c"
    using assms(1) c(2) set_update_subset_insert [of "objs m" i c] by (auto simp: mux_ok_def m')
  ultimately show ?thesis using assms(1) by (simp add: mux_ok_def m')
qed

lemma newChannel_keeps:
  assumes "mux_ok m" "length (chans m) < 2 ^ 32 - 1" "mux_newChannel m ty dir extra = (m', i)"
  shows "mux_ok m' \<and> i = length (objs m) \<and> length (objs m') = Suc i \<and> length (chans m') \<le> Suc (length (chans m)) \<and>
    length (chans m) \<le> length (chans m')"
proof -
  obtain cs lid where a: "chanList_add (chans m) (offset m) (length (objs m)) = (cs, lid)"
    by (cases "chanList_add (chans m) (offset m) (length (objs m))")
  have m': "m' = m\<lparr>objs := objs m @ [newChannel ty dir extra lid], chans := cs\<rparr>" and i: "i = length (objs m)"
    using assms(3) a by (auto simp: mux_newChannel_def Let_def)
  have l: "length (chans m) < 2 ^ 32" using assms(2) by simp
  obtain k where k: "k < length cs" "lid = word_of_nat k + offset m" "cs ! k = Some (length (objs m))"
    "\<And>j. j < length cs \<Longrightarrow> j \<noteq> k \<Longrightarrow> j < length (chans m) \<and> cs ! j = chans m ! j"
    "length (chans m) \<le> length cs" "length cs \<le> Suc (length (chans m))"
    by (rule chanList_add_facts [OF a l]) blast
  have "slot_ok m' j x" if "j < length cs" "cs ! j = Some x" for j x
  proof (cases "j = k")
    case True
    then show ?thesis using that k by (auto simp: slot_ok_def m' newChannel_def nth_append)
  next
    case False
    then have "j < length (chans m)" "chans m ! j = Some x" using k(4) that by auto
    from mux_ok_slot [OF assms(1) this] show ?thesis by (simp add: slot_ok_def m' nth_append)
  qed
  moreover have "\<forall>c \<in> set (objs m'). chan_ok c" using assms(1) by (auto simp: m' mux_ok_def chan_ok_new)
  ultimately show ?thesis using assms(1) i k(5,6) by (simp add: mux_ok_def m')
qed

text \<open>An object changed without its id, queues and flow control.\<close>

lemma mux_ok_update:
  assumes "mux_ok m" "i < length (objs m)" "localId c = localId (objs m ! i)" "queues_closed c = queues_closed (objs m ! i)"
    "chan_ok c"
  shows "mux_ok (m\<lparr>objs := (objs m)[i := c]\<rparr>)"
proof -
  have "\<forall>c' \<in> set ((objs m)[i := c]). chan_ok c'"
    using assms set_update_subset_insert [of "objs m" i c] by (auto simp: mux_ok_def)
  then show ?thesis using assms by (auto simp: mux_ok_def slot_ok_def nth_list_update)
qed

lemma handleChannelOpen_keeps:
  assumes "mux_ok m" "length (chans m) < 2 ^ 32 - 1" "handleChannelOpen cn m packet = Ran (m', err)"
  shows "mux_ok m' \<and> length (chans m') \<le> Suc (length (chans m))"
proof (cases "Unmarshal packet channelOpenMsg")
  case (Parsed vs)
  show ?thesis
  proof (cases "u32_at vs 3 < minPacketLength \<or> u32_at vs 3 > push_bit 31 1")
    case True
    then have "m' = m\<lparr>mux_sent := mux_sent m'\<rparr>"
      using assms(3) Parsed by (auto simp: handleChannelOpen_def Let_def mux_sendMessage_def)
    then show ?thesis using mux_ok_frame [OF assms(1), of m'] by (metis le_SucI mux.select_convs(1-3,7) mux.surjective mux.update_convs(10) order_refl)
  next
    case False
    obtain m1 i where n: "mux_newChannel m (str (bytes_at vs 0)) channelInbound (bytes_at vs 4) = (m1, i)"
      by (cases "mux_newChannel m (str (bytes_at vs 0)) channelInbound (bytes_at vs 4)")
    note k = newChannel_keeps [OF assms(1,2) n]
    let ?c = "(objs m1 ! i)\<lparr>remoteId := u32_at vs 1, maxRemotePayload := u32_at vs 3,
        remoteWin := fst (win_add (remoteWin (objs m1 ! i)) (u32_at vs 2))\<rparr>"
    have "chan_ok ?c" using k mux_ok_chan [of m1 i] by (auto intro: chan_ok_frame)
    then have "mux_ok (m1\<lparr>objs := (objs m1)[i := ?c]\<rparr>)" using k by (intro mux_ok_update) simp_all
    moreover have "\<exists>q. m' = m1\<lparr>objs := (objs m1)[i := ?c], incomingChannels := q\<rparr>"
      using assms(3) Parsed False n
      by (auto simp: handleChannelOpen_def Let_def and_then_Ran send_to_def split: if_splits)
    ultimately show ?thesis using k by (auto intro: mux_ok_frame)
  qed
qed (use assms in \<open>simp_all add: handleChannelOpen_def\<close>)

lemma handleGlobalPacket_keeps:
  assumes "mux_ok m" "handleGlobalPacket m packet = Ran (m', err)"
  shows "mux_ok m' \<and> chans m' = chans m"
  using assms
  by (auto simp: handleGlobalPacket_def and_then_Ran send_to_def intro: mux_ok_frame
      split: parsed.splits prod.splits if_splits)

lemma handleGlobalPacket_panic:
  assumes "handleGlobalPacket m packet = Panicked e" "mux_ok m" "packet \<noteq> []" "length packet \<le> 2 ^ 32"
    "hd packet \<in> {80, 81, 82}"
  shows "e = SliceBounds \<and> (\<exists>bs. suffix bs packet \<and> overlong bs)"
proof -
  obtain b rest where p: "packet = b # rest" using assms(3) by (cases packet) auto
  have "t = globalRequestMsg \<or> t = globalRequestSuccessMsg \<or> t = globalRequestFailureMsg"
    if "decode packet = Parsed (t, vs)" for t vs
    using that assms(5) p by (auto simp: decode_def messageType_def split: parsed.splits)
  then have "decode packet = Crash e"
    using assms(1,2)
    by (auto simp: handleGlobalPacket_def and_then_Panicked send_to_def mux_ok_def split: parsed.splits prod.splits if_splits)
  then show ?thesis using decode_crash assms(3,4) by simp
qed

lemma handleChannelOpen_panic:
  assumes "handleChannelOpen cn m packet = Panicked e" "mux_ok m" "length packet < 2 ^ 32"
  shows "e = SliceBounds \<and> (\<exists>bs. suffix bs packet \<and> overlong bs)"
proof -
  have "mux_closed (fst (mux_newChannel m ty dir extra)) = mux_closed m" for ty dir extra
    by (simp add: mux_newChannel_def Let_def split: prod.split)
  then have "Unmarshal packet channelOpenMsg = Crash e"
    using assms(1,2)
    by (auto simp: handleChannelOpen_def and_then_Panicked send_to_def mux_ok_def Let_def mux_newChannel_def
        split: parsed.splits prod.splits if_splits)
  then show ?thesis using Unmarshal_crash assms(3) by blast
qed

lemma channelPacket_panic:
  assumes "channelPacket tr m i packet = Panicked e" "slot_ok m k i" "packet \<noteq> []" "length packet < 2 ^ 32"
  shows "e = SliceBounds \<and> (\<exists>bs. suffix bs packet \<and> overlong bs)"
  using assms handlePacket_panic [of tr "objs m ! i" packet e]
  by (auto simp: channelPacket_def and_then_Panicked slot_ok_def)

text \<open>The branches of \<open>onePacket\<close>.\<close>

lemma onePacket_cases:
  assumes "onePacket tr cn m (Inr (b # rest)) = r" "length (chans m) < 2 ^ 32"
  obtains (ignored) err where "r = Ran (m, err)"
    | (disconnect) "r = handleDisconnect m (b # rest)"
    | (opens) "r = handleChannelOpen cn m (b # rest)"
    | (global) "r = handleGlobalPacket m (b # rest)" "b \<in> {80, 81, 82}"
    | (channel) k i where "k < length (chans m)" "chans m ! k = Some i" "r = channelPacket tr m i (b # rest)"
proof -
  consider "b = 21" | "b = 1" | "b = 90" | "b \<in> {80, 81, 82}" | (other) "b \<notin> {21, 1, 90, 80, 81, 82}" by blast
  then show ?thesis
  proof cases
    case other
    show ?thesis
    proof (cases "length (b # rest) < 5")
      case True
      then have "r = Ran (m, Some (OfWire (ParseError b)))" using assms(1) other by (simp add: onePacket_def)
      then show ?thesis by (rule that(1))
    next
      case long: False
      show ?thesis
      proof (cases "getChan (chans m) (offset m) (be32 rest)")
        case None
        then have "r = Ran (m, Some (NoChannel (be32 rest)))" using assms(1) other long by (simp add: onePacket_def)
        then show ?thesis by (rule that(1))
      next
        case (Some i)
        then obtain k where "k < length (chans m)" "chans m ! k = Some i"
          using getChan_iff [OF assms(2)] by blast
        then show ?thesis using assms other long Some that(5) by (simp add: onePacket_def)
      qed
    qed
  qed (use assms that in \<open>auto simp: onePacket_def\<close>)
qed

lemma onePacket_keeps:
  assumes "mux_ok m" "length (chans m) < 2 ^ 32 - 1" "onePacket tr cn m inp = Ran (m', err)"
    "\<And>packet. inp = Inr packet \<Longrightarrow> length packet < 2 ^ 32"
  shows "mux_ok m' \<and> length (chans m') \<le> Suc (length (chans m))"
proof (cases inp)
  case (Inl e)
  then show ?thesis using assms by (simp add: onePacket_def)
next
  case (Inr packet)
  then obtain b rest where p: "packet = b # rest" using assms(3) by (cases packet) (auto simp: onePacket_def)
  have l: "length (chans m) < 2 ^ 32" using assms(2) by simp
  have lp: "length (b # rest) < 2 ^ 32" using assms(4) Inr p by blast
  from assms(3) [unfolded Inr p] l show ?thesis
  proof (cases rule: onePacket_cases)
    case disconnect
    then show ?thesis using assms(1) by (auto simp: handleDisconnect_def split: parsed.splits)
  next
    case opens
    then show ?thesis using handleChannelOpen_keeps [OF assms(1,2), of cn "b # rest" m' err] by simp
  next
    case global
    then show ?thesis using handleGlobalPacket_keeps [OF assms(1), of "b # rest" m' err] by simp
  next
    case (channel k i)
    then show ?thesis using channelPacket_keeps [OF assms(1) l, of k i tr "b # rest" m' err] lp by simp
  qed (use assms(1) in simp)
qed

lemma onePacket_panic:
  assumes "mux_ok m" "length (chans m) < 2 ^ 32" "onePacket tr cn m (Inr packet) = Panicked e"
    "packet \<noteq> []" "length packet < 2 ^ 32"
  shows "e = SliceBounds \<and> (\<exists>bs. suffix bs packet \<and> overlong bs)"
proof -
  obtain b rest where p: "packet = b # rest" using assms(4) by (cases packet) auto
  from assms(3) [unfolded p] assms(2) show ?thesis
  proof (cases rule: onePacket_cases)
    case disconnect
    then have "Unmarshal packet disconnectMsg = Crash e" using p by (auto simp: handleDisconnect_def split: parsed.splits)
    then show ?thesis using Unmarshal_crash assms(5) by blast
  next
    case opens
    then show ?thesis using handleChannelOpen_panic [of cn m packet e] assms(1,5) p by simp
  next
    case global
    then show ?thesis using handleGlobalPacket_panic [of m packet e] assms(1,4,5) p by simp
  next
    case (channel k i)
    then show ?thesis
      using channelPacket_panic [of tr m i packet e k] mux_ok_slot [OF assms(1)] assms(4,5) p by simp
  qed simp
qed

section \<open>The end of the loop\<close>

lemma closeAll_closes:
  assumes "\<forall>i \<in> set is. i < length os \<and> \<not> queues_closed (os ! i)" "distinct is"
  shows "\<exists>os'. closeAll is os = Inr os' \<and> length os' = length os \<and>
    (\<forall>i < length os. i \<notin> set is \<longrightarrow> os' ! i = os ! i) \<and>
    (\<forall>i \<in> set is. close_channel (os ! i) = Inr (os' ! i))"
  using assms
proof (induction "is" arbitrary: os)
  case (Cons i "is")
  obtain c where c: "close_channel (os ! i) = Inr c" using Cons.prems(1) by (simp add: close_channel_def)
  have "\<forall>j \<in> set is. j < length (os[i := c]) \<and> \<not> queues_closed (os[i := c] ! j)"
    using Cons.prems by (auto simp: nth_list_update)
  from Cons.IH [OF this] obtain os' where os': "closeAll is (os[i := c]) = Inr os'" "length os' = length os"
    "\<forall>j < length os. j \<notin> set is \<longrightarrow> os' ! j = os[i := c] ! j"
    "\<forall>j \<in> set is. close_channel (os[i := c] ! j) = Inr (os' ! j)"
    using Cons.prems(2) by auto
  have "os[i := c] ! j = os ! j" if "j \<in> set is" for j using that Cons.prems(2)
    by (cases "j = i") (simp_all add: nth_list_update_neq)
  then have "os' ! i = c" "\<forall>j \<in> set is. close_channel (os ! j) = Inr (os' ! j)"
    using os'(3,4) Cons.prems by auto
  then show ?case using c os' by auto
qed simp

lemma dropAll_listed: "i \<in> set (fst (dropAll cs)) \<longleftrightarrow> (\<exists>k < length cs. cs ! k = Some i)"
  by (force simp: dropAll_def in_set_conv_nth image_iff)

lemma distinct_map_the:
  "\<forall>k j i. k < length cs \<longrightarrow> j < length cs \<longrightarrow> cs ! k = Some i \<longrightarrow> cs ! j = Some i \<longrightarrow> k = j \<Longrightarrow>
    distinct (map the (filter (\<lambda>c. c \<noteq> None) cs))"
proof (induction cs)
  case (Cons c cs)
  have "distinct (map the (filter (\<lambda>c. c \<noteq> None) cs))"
  proof (rule Cons.IH, intro allI impI)
    fix k j i assume "k < length cs" "j < length cs" "cs ! k = Some i" "cs ! j = Some i"
    then show "k = j" using Cons.prems [rule_format, of "Suc k" "Suc j" i] by simp
  qed
  moreover have "Some i \<notin> set cs" if "c = Some i" for i
  proof
    assume "Some i \<in> set cs"
    then obtain j where "j < length cs" "cs ! j = Some i" by (auto simp: in_set_conv_nth)
    then show False using Cons.prems [rule_format, of 0 "Suc j" i] that by simp
  qed
  ultimately show ?case by (auto simp: image_iff)
qed simp

lemma distinct_dropAll:
  assumes "mux_ok m" "length (chans m) < 2 ^ 32"
  shows "distinct (fst (dropAll (chans m)))"
  using distinct_map_the [of "chans m"] slots_injective [OF assms] by (auto simp: dropAll_def)

lemma loop_exit_closes:
  assumes "mux_ok m" "length (chans m) < 2 ^ 32"
  shows "\<exists>m'. loop_exit m err = Ran m' \<and> chans m' = [] \<and> mux_closed m' \<and> conn_closed m' \<and> mux_err m' = Some err \<and>
    (\<forall>k i. k < length (chans m) \<and> chans m ! k = Some i \<longrightarrow> close_channel (objs m ! i) = Inr (objs m' ! i))"
proof -
  obtain "is" where d: "dropAll (chans m) = (is, [])" by (simp add: dropAll_def)
  have listed: "i \<in> set is \<longleftrightarrow> (\<exists>k < length (chans m). chans m ! k = Some i)" for i
    using dropAll_listed [of i "chans m"] d by simp
  have "\<forall>i \<in> set is. i < length (objs m) \<and> \<not> queues_closed (objs m ! i)"
    using mux_ok_slot [OF assms(1)] by (auto simp: listed slot_ok_def)
  moreover have "distinct is" using distinct_dropAll [OF assms] d by simp
  ultimately obtain os where
    os: "closeAll is (objs m) = Inr os" "\<forall>i \<in> set is. close_channel (objs m ! i) = Inr (os ! i)"
    using closeAll_closes by blast
  then show ?thesis
    using d assms(1) by (auto simp: loop_exit_def mux_ok_def listed)
qed

text \<open>Nothing that uses a closed channel waits.\<close>

lemma closed_returns:
  assumes "close_channel c = Inr c'" "chan_ok c"
  shows "ReadExtended tr c' k ext \<noteq> None" "WriteExtended tr c' data code \<noteq> None" "SendRequest_reply c' \<noteq> Blocks"
proof -
  have c': "buf_closed (pending c')" "buf_closed (extPending c')" "elems (pending c') \<noteq> []" "elems (extPending c') \<noteq> []"
    "win_closed (remoteWin c')" "queues_closed c'"
    using assms by (auto simp: close_channel_def chan_ok_def buf_eof_def win_close_def split: if_splits)
  have "buf_Read (pending c') k \<noteq> None" "buf_Read (extPending c') k \<noteq> None"
    using buf_Read_spec [OF c'(3), of k] buf_Read_spec [OF c'(4), of k] c'(1,2) by (auto split: if_splits)
  then show "ReadExtended tr c' k ext \<noteq> None" by (simp add: ReadExtended_def del: not_None_eq)
  have "write_loop tr code c' data 0 \<noteq> None"
    using c'(5) by (subst write_loop.simps) (auto simp: win_reserve_def Let_def)
  then show "WriteExtended tr c' data code \<noteq> None" by (simp add: WriteExtended_def)
  show "SendRequest_reply c' \<noteq> Blocks"
    using c'(6) by (auto simp: SendRequest_reply_def receive_from_def split: list.split)
qed

lemma mux_loop_keeps:
  assumes "mux_ok m" "length (chans m) + length xs < 2 ^ 32 - 1" "\<forall>p. Inr p \<in> set xs \<longrightarrow> p \<noteq> [] \<and> length p < 2 ^ 32"
  shows "case mux_loop tr cn m xs of
      Ran (m', False) \<Rightarrow> mux_ok m'
    | Ran (m', True) \<Rightarrow> chans m' = [] \<and> mux_closed m' \<and> conn_closed m' \<and> mux_err m' \<noteq> None
    | Blocks \<Rightarrow> True
    | Panicked e \<Rightarrow> e = SliceBounds \<and> (\<exists>p bs. Inr p \<in> set xs \<and> suffix bs p \<and> overlong bs)"
  using assms
proof (induction xs arbitrary: m)
  case Nil
  then show ?case by simp
next
  case (Cons x xs)
  have l: "length (chans m) < 2 ^ 32 - 1" using Cons.prems(2) by simp
  have p: "x = Inr p \<Longrightarrow> p \<noteq> [] \<and> length p < 2 ^ 32" for p using Cons.prems(3) by simp
  show ?case
  proof (cases "onePacket tr cn m x")
    case (Panicked e)
    then obtain packet where "x = Inr packet" by (cases x) (auto simp: onePacket_def)
    then show ?thesis
      using onePacket_panic [OF Cons.prems(1), of tr cn packet e] Panicked l p by auto
  next
    case (Ran y)
    obtain m1 err where y: "y = (m1, err)" by (cases y)
    have k: "mux_ok m1" "length (chans m1) \<le> Suc (length (chans m))"
      using onePacket_keeps [OF Cons.prems(1) l, of tr cn x m1 err] Ran y p by auto
    show ?thesis
    proof (cases err)
      case None
      have "length (chans m1) + length xs < 2 ^ 32 - 1" using k(2) Cons.prems(2) by simp
      from Cons.IH [OF k(1) this] Cons.prems(3) show ?thesis
        using Ran y None by (auto split: step.splits prod.splits bool.splits)
    next
      case (Some e)
      have "length (chans m1) < 2 ^ 32" using k(2) l by simp
      from loop_exit_closes [OF k(1) this, of e] obtain m' where "loop_exit m1 e = Ran m'" "chans m' = []" "mux_closed m'"
        "conn_closed m'" "mux_err m' = Some e" by blast
      then show ?thesis using Ran y Some by simp
    qed
  qed simp
qed

section \<open>Properties\<close>



text \<open>No one waits for a connection that is gone. The end of the loop succeeds, and then a read or a
  write on a channel that was listed returns, a pending request gets its answer, a pending global
  request too, and \<open>Wait\<close> returns the error.\<close>

theorem loop_exit_wakes:
  assumes "mux_ok m" "length (chans m) < 2 ^ 32"
  shows "\<exists>m'. loop_exit m err = Ran m' \<and> mux_Wait m' = Ran err \<and> mux_SendRequest_reply m' \<noteq> Blocks \<and>
    (\<forall>k i. k < length (chans m) \<and> chans m ! k = Some i \<longrightarrow>
       (\<forall>n ext. ReadExtended tr (objs m' ! i) n ext \<noteq> None) \<and>
       (\<forall>data code. WriteExtended tr (objs m' ! i) data code \<noteq> None) \<and>
       SendRequest_reply (objs m' ! i) \<noteq> Blocks)"
proof -
  from loop_exit_closes [OF assms, of err] obtain m' where m': "loop_exit m err = Ran m'" "mux_closed m'" "mux_err m' = Some err"
    "\<And>k i. k < length (chans m) \<Longrightarrow> chans m ! k = Some i \<Longrightarrow> close_channel (objs m ! i) = Inr (objs m' ! i)"
    by blast
  have "mux_SendRequest_reply m' \<noteq> Blocks"
    using m'(2) by (auto simp: mux_SendRequest_reply_def receive_from_def split: list.split)
  moreover have "(\<forall>n ext. ReadExtended tr (objs m' ! i) n ext \<noteq> None) \<and>
       (\<forall>data code. WriteExtended tr (objs m' ! i) data code \<noteq> None) \<and> SendRequest_reply (objs m' ! i) \<noteq> Blocks"
    if "k < length (chans m)" "chans m ! k = Some i" for k i
  proof -
    have "chan_ok (objs m ! i)"
      using mux_ok_slot [OF assms(1) that] mux_ok_chan [OF assms(1), of i] by (simp add: slot_ok_def)
    with m'(4) [OF that] show ?thesis using closed_returns by blast
  qed
  moreover have "mux_Wait m' = Ran err" using m'(3) by (simp add: mux_Wait_def)
  ultimately show ?thesis using m'(1) by blast
qed

text \<open>Ids. A new channel, whichever side opens it, gets an id that no listed channel has, packets with
  that id reach it, and no other id changes its channel.\<close>

theorem newChannel_id:
  assumes "mux_ok m" "length (chans m) < 2 ^ 32 - 1" "mux_newChannel m ty dir extra = (m', i)"
  shows "getChan (chans m) (offset m) (localId (objs m' ! i)) = None \<and>
    getChan (chans m') (offset m') (localId (objs m' ! i)) = Some i \<and>
    (\<forall>x. x \<noteq> localId (objs m' ! i) \<longrightarrow> getChan (chans m') (offset m') x = getChan (chans m) (offset m) x)"
proof -
  obtain cs lid where a: "chanList_add (chans m) (offset m) (length (objs m)) = (cs, lid)"
    by (cases "chanList_add (chans m) (offset m) (length (objs m))")
  have m': "chans m' = cs" "offset m' = offset m" "localId (objs m' ! i) = lid" "i = length (objs m)"
    using assms(3) a by (auto simp: mux_newChannel_def Let_def newChannel_def)
  have l: "length (chans m) < 2 ^ 32" using assms(2) by simp
  obtain k where k: "k < length cs" "lid = word_of_nat k + offset m" "k < length (chans m) \<Longrightarrow> chans m ! k = None"
    "cs ! k = Some (length (objs m))" "\<And>j. j < length cs \<Longrightarrow> j \<noteq> k \<Longrightarrow> j < length (chans m) \<and> cs ! j = chans m ! j"
    "length (chans m) \<le> length cs" "length cs \<le> Suc (length (chans m))"
    by (rule chanList_add_facts [OF a l]) blast
  have lc: "length cs < 2 ^ 32" using k(7) assms(2) by simp
  have inj: "j < length cs \<Longrightarrow> lid = word_of_nat j + offset m \<longleftrightarrow> j = k" for j
    using k(1,2) lc by (auto simp: word_of_nat_inj32)
  have "getChan (chans m) (offset m) lid = None"
    using getChan_iff [OF l, of "offset m" lid] inj k(3,6) by (metis less_le_trans not_None_eq)
  moreover have "getChan cs (offset m) lid = Some i" using getChan_iff [OF lc] k m'(4) by blast
  moreover have "getChan cs (offset m) x = getChan (chans m) (offset m) x" if "x \<noteq> lid" for x
  proof -
    have "getChan cs (offset m) x = Some y \<longleftrightarrow> getChan (chans m) (offset m) x = Some y" for y
      unfolding getChan_iff [OF lc] getChan_iff [OF l] using k(2,5,6) that by (metis less_le_trans)
    then show ?thesis by (metis not_None_eq)
  qed
  ultimately show ?thesis unfolding m'(1-3) by blast
qed

theorem newChannel_id_witness:
  "getChan (chans (fst (mux_newChannel newMux ''x'' channelOutbound []))) 0 0 = Some 0"
  using newChannel_id [of newMux "''x''" channelOutbound "[]" "fst (mux_newChannel newMux ''x'' channelOutbound [])" 0] mux_ok_new
  by (simp add: mux_newChannel_def chanList_add_def newMux_def Let_def newChannel_def)

theorem loop_exit_wakes_witness:
  "\<exists>m'. loop_exit (fst (mux_newChannel newMux ''x'' channelOutbound [])) (ReadFailed ''EOF'') = Ran m' \<and>
    ReadExtended (\<lambda>_ _. None) (objs m' ! 0) 1 0 \<noteq> None"
proof -
  let ?m = "fst (mux_newChannel newMux ''x'' channelOutbound [])"
  obtain i where n: "mux_newChannel newMux ''x'' channelOutbound [] = (?m, i)" by (metis prod.collapse)
  have c: "length (chans newMux) < 2 ^ 32 - 1" "chans ?m = [Some 0]"
    by (simp_all add: newMux_def mux_newChannel_def chanList_add_def Let_def)
  have "mux_ok ?m" using newChannel_keeps [OF mux_ok_new c(1) n] by simp
  from loop_exit_wakes [OF this, of "ReadFailed ''EOF''" "\<lambda>_ _. None"] show ?thesis using c(2) by auto
qed

end
