(* ===== verification/Net_Context.thy ===== *)
theory Net_Context
  imports Prelude
begin

text \<open>
  The vendored package \<^verbatim>\<open>golang.org/x/net/context\<close>: trees of contexts and their cancellation, on
  which the server and the task reaper rest.

  A context is a chain of values towards the background context. What changes, the error and the
  registered children of a cancellable context, is a cell of a memory; the chain holds its
  address. Contexts made by other packages, which the code watches with a goroutine, are not
  modelled. Times are integers, and the present is an argument.
\<close>

section \<open>Contexts\<close>

datatype ctx_err = Canceled | DeadlineExceeded

datatype ('k, 'v) ctx =
    emptyCtx
  | cancelCtx nat "('k, 'v) ctx"
  | timerCtx nat "('k, 'v) ctx" int
      \<comment> \<open>with its deadline\<close>
  | valueCtx "('k, 'v) ctx" 'k 'v

record cell =
  c_err :: "ctx_err option"
  c_children :: "nat list"
  c_parent :: "nat option"
      \<comment> \<open>where \<open>parentCancelCtx\<close> leads from the embedded context\<close>
  c_timer :: bool

type_synonym memory = "cell list"

text \<open>\<open>parentCancelCtx\<close>: the cell of the nearest cancellable context.\<close>

primrec parentCancelCtx :: "('k, 'v) ctx \<Rightarrow> nat option" where
  "parentCancelCtx emptyCtx = None"
| "parentCancelCtx (cancelCtx a p) = Some a"
| "parentCancelCtx (timerCtx a p d) = Some a"
| "parentCancelCtx (valueCtx p k v) = parentCancelCtx p"

text \<open>\<open>Err\<close>, and whether the channel \<open>Done\<close> is closed; the nil channel of \<open>emptyCtx\<close> never is.\<close>

definition Err :: "memory \<Rightarrow> ('k, 'v) ctx \<Rightarrow> ctx_err option" where
  "Err m c = (case parentCancelCtx c of None \<Rightarrow> None | Some a \<Rightarrow> c_err (m ! a))"

definition is_done :: "memory \<Rightarrow> ('k, 'v) ctx \<Rightarrow> bool" where
  "is_done m c \<longleftrightarrow> Err m c \<noteq> None"

primrec Value_of :: "('k, 'v) ctx \<Rightarrow> 'k \<Rightarrow> 'v option" where
  "Value_of emptyCtx key = None"
| "Value_of (cancelCtx a p) key = Value_of p key"
| "Value_of (timerCtx a p d) key = Value_of p key"
| "Value_of (valueCtx p k v) key = (if k = key then Some v else Value_of p key)"

primrec Deadline_of :: "('k, 'v) ctx \<Rightarrow> int option" where
  "Deadline_of emptyCtx = None"
| "Deadline_of (cancelCtx a p) = Deadline_of p"
| "Deadline_of (timerCtx a p d) = Some d"
| "Deadline_of (valueCtx p k v) = Deadline_of p"

section \<open>Cancelling\<close>

text \<open>
  \<open>cancel(false, err)\<close> on cells one after the other: an error that is set stays, and the children
  are cancelled before they are forgotten. The timer of a \<open>timerCtx\<close> is stopped. The recursion is
  as deep as the tree, so the number of cells is fuel enough.
\<close>

fun cancel_cells :: "nat \<Rightarrow> memory \<Rightarrow> nat list \<Rightarrow> ctx_err \<Rightarrow> memory option" where
  "cancel_cells f m [] e = Some m"
| "cancel_cells 0 m (a # as) e = None"
| "cancel_cells (Suc f) m (a # as) e =
     (if c_err (m ! a) \<noteq> None then cancel_cells (Suc f) (m[a := (m ! a)\<lparr>c_timer := False\<rparr>]) as e
      else
        (case cancel_cells f (m[a := (m ! a)\<lparr>c_err := Some e\<rparr>]) (c_children (m ! a)) e of
           None \<Rightarrow> None
         | Some m1 \<Rightarrow> cancel_cells (Suc f) (m1[a := (m1 ! a)\<lparr>c_children := [], c_timer := False\<rparr>]) as e))"

definition removeChild :: "memory \<Rightarrow> nat \<Rightarrow> memory" where
  "removeChild m a =
     (case c_parent (m ! a) of
        None \<Rightarrow> m
      | Some p \<Rightarrow> m[p := (m ! p)\<lparr>c_children := filter (\<lambda>b. b \<noteq> a) (c_children (m ! p))\<rparr>])"

text \<open>\<open>cancel(true, err)\<close>. A \<open>cancelCtx\<close> that was cancelled before returns first; a \<open>timerCtx\<close> removes
  itself in any case.\<close>

definition cancel :: "bool \<Rightarrow> memory \<Rightarrow> nat \<Rightarrow> ctx_err \<Rightarrow> memory option" where
  "cancel is_timer m a e =
     (if \<not> is_timer \<and> c_err (m ! a) \<noteq> None then Some m
      else map_option (\<lambda>m1. removeChild m1 a) (cancel_cells (Suc (length m)) m [a] e))"

section \<open>Deriving contexts\<close>

text \<open>\<open>propagateCancel\<close> for the new cell \<open>a\<close>.\<close>

definition propagateCancel :: "memory \<Rightarrow> ('k, 'v) ctx \<Rightarrow> nat \<Rightarrow> memory option" where
  "propagateCancel m parent a =
     (case parentCancelCtx parent of
        None \<Rightarrow> Some m
      | Some p \<Rightarrow>
          (case c_err (m ! p) of
             Some e \<Rightarrow> cancel_cells (Suc (length m)) m [a] e
           | None \<Rightarrow> Some (m[p := (m ! p)\<lparr>c_children := c_children (m ! p) @ [a]\<rparr>])))"

definition newCell :: "('k, 'v) ctx \<Rightarrow> cell" where
  "newCell parent = \<lparr>c_err = None, c_children = [], c_parent = parentCancelCtx parent, c_timer = False\<rparr>"

definition WithCancel :: "memory \<Rightarrow> ('k, 'v) ctx \<Rightarrow> (memory \<times> ('k, 'v) ctx) option" where
  "WithCancel m parent =
     map_option (\<lambda>m1. (m1, cancelCtx (length m) parent)) (propagateCancel (m @ [newCell parent]) parent (length m))"

definition WithDeadline :: "int \<Rightarrow> memory \<Rightarrow> ('k, 'v) ctx \<Rightarrow> int \<Rightarrow> (memory \<times> ('k, 'v) ctx) option" where
  "WithDeadline now m parent deadline =
     (if (case Deadline_of parent of None \<Rightarrow> False | Some cur \<Rightarrow> cur < deadline) then WithCancel m parent
      else
        (case propagateCancel (m @ [newCell parent]) parent (length m) of
           None \<Rightarrow> None
         | Some m1 \<Rightarrow>
             let a = length m; c = timerCtx a parent deadline in
             if deadline - now \<le> 0 then map_option (\<lambda>m2. (m2, c)) (cancel True m1 a DeadlineExceeded)
             else if c_err (m1 ! a) = None then Some (m1[a := (m1 ! a)\<lparr>c_timer := True\<rparr>], c)
             else Some (m1, c)))"

definition WithTimeout :: "int \<Rightarrow> memory \<Rightarrow> ('k, 'v) ctx \<Rightarrow> int \<Rightarrow> (memory \<times> ('k, 'v) ctx) option" where
  "WithTimeout now m parent timeout = WithDeadline now m parent (now + timeout)"

definition WithValue :: "('k, 'v) ctx \<Rightarrow> 'k \<Rightarrow> 'v \<Rightarrow> ('k, 'v) ctx" where
  "WithValue parent key val = valueCtx parent key val"

text \<open>The cancel function that \<open>WithCancel\<close> and \<open>WithDeadline\<close> return, on the context they return.\<close>

definition cancelFunc :: "memory \<Rightarrow> ('k, 'v) ctx \<Rightarrow> memory option" where
  "cancelFunc m c =
     (case c of
        cancelCtx a p \<Rightarrow> cancel False m a Canceled
      | timerCtx a p d \<Rightarrow> cancel True m a Canceled
      | _ \<Rightarrow> Some m)"

section \<open>What cancelling does\<close>

text \<open>Parents are older cells, and registered children are children.\<close>

definition struct_ok :: "memory \<Rightarrow> bool" where
  "struct_ok m \<longleftrightarrow> (\<forall>b < length m. (\<forall>p. c_parent (m ! b) = Some p \<longrightarrow> p < b) \<and>
     (\<forall>c \<in> set (c_children (m ! b)). c < length m \<and> c_parent (m ! c) = Some b))"

text \<open>\<open>below m a b\<close>: the context of the cell \<open>b\<close> was derived from that of \<open>a\<close>, in any number of steps.\<close>

inductive below :: "memory \<Rightarrow> nat \<Rightarrow> nat \<Rightarrow> bool" for m a where
  below_refl: "below m a a"
| below_step: "below m a b \<Longrightarrow> c_parent (m ! c) = Some b \<Longrightarrow> c < length m \<Longrightarrow> below m a c"

inductive_cases belowE: "below m a b"

definition cancel_post :: "memory \<Rightarrow> nat list \<Rightarrow> ctx_err \<Rightarrow> memory \<Rightarrow> bool" where
  "cancel_post m as e m' \<longleftrightarrow> length m' = length m \<and>
     (\<forall>b < length m. c_parent (m' ! b) = c_parent (m ! b) \<and>
       (c_err (m ! b) \<noteq> None \<longrightarrow> c_err (m' ! b) = c_err (m ! b)) \<and>
       (c_children (m' ! b) = c_children (m ! b) \<or> c_children (m' ! b) = [] \<and> c_err (m' ! b) \<noteq> None) \<and>
       (c_err (m ! b) = None \<and> c_err (m' ! b) \<noteq> None \<longrightarrow>
          c_err (m' ! b) = Some e \<and> (\<forall>c \<in> set (c_children (m ! b)). c_err (m' ! c) \<noteq> None) \<and>
          (\<exists>a \<in> set as. below m a b))) \<and>
     (\<forall>a \<in> set as. c_err (m' ! a) \<noteq> None)"

lemma struct_ok_child:
  "struct_ok m \<Longrightarrow> b < length m \<Longrightarrow> c \<in> set (c_children (m ! b)) \<Longrightarrow> c < length m \<and> c_parent (m ! c) = Some b \<and> b < c"
  by (auto simp: struct_ok_def)

lemma below_cong:
  assumes "length m' = length m" "\<forall>b < length m. c_parent (m' ! b) = c_parent (m ! b)"
  shows "below m' a b \<longleftrightarrow> below m a b"
proof
  show "below m' a b \<Longrightarrow> below m a b"
    by (induction rule: below.induct) (use assms in \<open>auto intro: below.intros\<close>)
  show "below m a b \<Longrightarrow> below m' a b"
    by (induction rule: below.induct) (use assms in \<open>auto intro: below.intros\<close>)
qed

lemma below_trans: "below m b c \<Longrightarrow> below m a b \<Longrightarrow> below m a c"
  by (induction rule: below.induct) (auto intro: below.intros)

lemma cancel_post_struct:
  assumes "struct_ok m" "cancel_post m as e m'"
  shows "struct_ok m'"
  using assms unfolding struct_ok_def cancel_post_def by (metis empty_iff list.set(1))

text \<open>A cell that changed only in its timer, or from open to cancelled with the children kept.\<close>

lemma struct_ok_update:
  assumes "struct_ok m" "a < length m" "c_parent x = c_parent (m ! a)" "set (c_children x) \<subseteq> set (c_children (m ! a))"
  shows "struct_ok (m[a := x])"
  using assms unfolding struct_ok_def by (auto simp: nth_list_update)

lemma cancel_post_cons:
  assumes s: "struct_ok m" "a < length m" "c_err (m ! a) = None"
    and p1: "cancel_post (m[a := (m ! a)\<lparr>c_err := Some e\<rparr>]) (c_children (m ! a)) e m1"
    and p2: "cancel_post (m1[a := (m1 ! a)\<lparr>c_children := [], c_timer := False\<rparr>]) as e m'"
  shows "cancel_post m (a # as) e m'"
proof -
  let ?m0 = "m[a := (m ! a)\<lparr>c_err := Some e\<rparr>]" and ?m2 = "m1[a := (m1 ! a)\<lparr>c_children := [], c_timer := False\<rparr>]"
  have len: "length m1 = length m" "length m' = length m" using p1 p2 by (simp_all add: cancel_post_def)
  have b0: "below ?m0 x y \<longleftrightarrow> below m x y" for x y
    by (rule below_cong) (use s in \<open>auto simp: nth_list_update\<close>)
  have par1: "\<forall>b < length m. c_parent (m1 ! b) = c_parent (m ! b)"
  proof (intro allI impI)
    fix b assume "b < length m"
    then have "c_parent (m1 ! b) = c_parent (?m0 ! b)" using p1 by (simp add: cancel_post_def)
    then show "c_parent (m1 ! b) = c_parent (m ! b)" using s(2) by (cases "b = a") simp_all
  qed
  have b2: "below ?m2 x y \<longleftrightarrow> below m x y" for x y
    by (rule below_cong) (use par1 len s(2) in \<open>auto simp: nth_list_update\<close>)
  have child: "below m a c" if "c \<in> set (c_children (m ! a))" for c
    using struct_ok_child [OF s(1,2) that] by (auto intro: below.intros)
  have a1: "c_err (m1 ! a) = Some e" using p1 s(2) by (auto simp: cancel_post_def)
  have step1: "c_err (m ! b) \<noteq> None \<longrightarrow> c_err (m1 ! b) = c_err (m ! b)"
      "b \<noteq> a \<Longrightarrow> c_children (m1 ! b) = c_children (m ! b) \<or> c_children (m1 ! b) = [] \<and> c_err (m1 ! b) \<noteq> None"
      "c_err (m ! b) = None \<and> c_err (m1 ! b) \<noteq> None \<longrightarrow> c_err (m1 ! b) = Some e \<and>
        (\<forall>c \<in> set (c_children (m ! b)). c_err (m1 ! c) \<noteq> None) \<and> below m a b"
    if b: "b < length m" for b
  proof -
    show "c_err (m ! b) \<noteq> None \<longrightarrow> c_err (m1 ! b) = c_err (m ! b)"
      using p1 b s(3) by (cases "b = a") (auto simp: cancel_post_def)
    show "c_children (m1 ! b) = c_children (m ! b) \<or> c_children (m1 ! b) = [] \<and> c_err (m1 ! b) \<noteq> None" if "b \<noteq> a"
      using p1 b that by (auto simp: cancel_post_def)
    show "c_err (m ! b) = None \<and> c_err (m1 ! b) \<noteq> None \<longrightarrow> c_err (m1 ! b) = Some e \<and>
        (\<forall>c \<in> set (c_children (m ! b)). c_err (m1 ! c) \<noteq> None) \<and> below m a b"
    proof (cases "b = a")
      case True
      then show ?thesis using a1 p1 s by (auto simp: cancel_post_def intro: below.intros)
    next
      case False
      have "c_err (m ! b) = None \<and> c_err (m1 ! b) \<noteq> None \<longrightarrow> c_err (m1 ! b) = Some e \<and>
          (\<forall>c \<in> set (c_children (m ! b)). c_err (m1 ! c) \<noteq> None) \<and> (\<exists>x \<in> set (c_children (m ! a)). below m x b)"
        using p1 b False by (simp add: cancel_post_def b0)
      then show ?thesis using child below_trans by blast
    qed
  qed
  have step2: "c_err (m1 ! b) \<noteq> None \<longrightarrow> c_err (m' ! b) = c_err (m1 ! b)"
      "b \<noteq> a \<Longrightarrow> c_children (m' ! b) = c_children (m1 ! b) \<or> c_children (m' ! b) = [] \<and> c_err (m' ! b) \<noteq> None"
      "c_err (m1 ! b) = None \<and> c_err (m' ! b) \<noteq> None \<longrightarrow> c_err (m' ! b) = Some e \<and>
        (b \<noteq> a \<longrightarrow> (\<forall>c \<in> set (c_children (m1 ! b)). c_err (m' ! c) \<noteq> None)) \<and> (\<exists>x \<in> set as. below m x b)"
      "c_parent (m' ! b) = c_parent (m ! b)" "b = a \<Longrightarrow> c_children (m' ! b) = []"
    if b: "b < length m" for b
  proof -
    have q: "c_err (?m2 ! b) = c_err (m1 ! b)" "c_parent (?m2 ! b) = c_parent (m1 ! b)"
      "c_children (?m2 ! b) = (if b = a then [] else c_children (m1 ! b))"
      using s(2) len by (cases "b = a"; simp)+
    have "c_parent (m' ! b) = c_parent (?m2 ! b) \<and> (c_err (?m2 ! b) \<noteq> None \<longrightarrow> c_err (m' ! b) = c_err (?m2 ! b)) \<and>
       (c_children (m' ! b) = c_children (?m2 ! b) \<or> c_children (m' ! b) = [] \<and> c_err (m' ! b) \<noteq> None) \<and>
       (c_err (?m2 ! b) = None \<and> c_err (m' ! b) \<noteq> None \<longrightarrow>
          c_err (m' ! b) = Some e \<and> (\<forall>c \<in> set (c_children (?m2 ! b)). c_err (m' ! c) \<noteq> None) \<and>
          (\<exists>a \<in> set as. below m a b))"
    proof -
      have bl: "b < length m1" using b len by simp
      show ?thesis
        using conjunct1 [OF conjunct2 [OF p2 [unfolded cancel_post_def b2 length_list_update]], rule_format, OF bl] by blast
    qed
    note H = this [unfolded q]
    have P: "c_parent (m' ! b) = c_parent (m1 ! b)" "c_err (m1 ! b) \<noteq> None \<longrightarrow> c_err (m' ! b) = c_err (m1 ! b)"
       "b \<noteq> a \<longrightarrow> c_children (m' ! b) = c_children (m1 ! b) \<or> c_children (m' ! b) = [] \<and> c_err (m' ! b) \<noteq> None"
       "c_err (m1 ! b) = None \<and> c_err (m' ! b) \<noteq> None \<longrightarrow>
          c_err (m' ! b) = Some e \<and> (b \<noteq> a \<longrightarrow> (\<forall>c \<in> set (c_children (m1 ! b)). c_err (m' ! c) \<noteq> None)) \<and>
          (\<exists>a \<in> set as. below m a b)" "b = a \<longrightarrow> c_children (m' ! b) = []"
      using H by (cases "b = a"; simp only: if_True if_False simp_thms; blast)+
    show "c_err (m1 ! b) \<noteq> None \<longrightarrow> c_err (m' ! b) = c_err (m1 ! b)" by (rule P)
    show "b \<noteq> a \<Longrightarrow> c_children (m' ! b) = c_children (m1 ! b) \<or> c_children (m' ! b) = [] \<and> c_err (m' ! b) \<noteq> None"
      using P(3) by blast
    show "c_err (m1 ! b) = None \<and> c_err (m' ! b) \<noteq> None \<longrightarrow> c_err (m' ! b) = Some e \<and>
        (b \<noteq> a \<longrightarrow> (\<forall>c \<in> set (c_children (m1 ! b)). c_err (m' ! c) \<noteq> None)) \<and> (\<exists>x \<in> set as. below m x b)" by (rule P)
    show "c_parent (m' ! b) = c_parent (m ! b)" using P(1) par1 b by simp
    show "b = a \<Longrightarrow> c_children (m' ! b) = []" using P(5) by blast
  qed
  have a': "c_err (m' ! a) \<noteq> None" "c_children (m' ! a) = []"
    using step2(1) [OF s(2)] a1 step2(5) [OF s(2)] by simp_all
  have keep: "c < length m \<Longrightarrow> c_err (m1 ! c) \<noteq> None \<Longrightarrow> c_err (m' ! c) \<noteq> None" for c
    using step2(1) by metis
  show ?thesis unfolding cancel_post_def
  proof (intro conjI allI impI ballI)
    fix b assume b: "b < length m"
    show "c_parent (m' ! b) = c_parent (m ! b)" by (rule step2(4) [OF b])
    show "c_err (m ! b) \<noteq> None \<Longrightarrow> c_err (m' ! b) = c_err (m ! b)" using step1(1) step2(1) b by metis
    show "c_children (m' ! b) = c_children (m ! b) \<or> c_children (m' ! b) = [] \<and> c_err (m' ! b) \<noteq> None"
      using step1(2) [OF b] step2(2) [OF b] a' keep [OF b] by (cases "b = a") auto
    assume n: "c_err (m ! b) = None \<and> c_err (m' ! b) \<noteq> None"
    show "c_err (m' ! b) = Some e"
      using step1(3) [OF b] step2(1,3) [OF b] n by metis
    show "\<exists>x \<in> set (a # as). below m x b"
      using step1(3) [OF b] step2(3) [OF b] n by (metis list.set_intros)
    fix c assume c: "c \<in> set (c_children (m ! b))"
    then have lc: "c < length m" using struct_ok_child [OF s(1) b] by blast
    show "c_err (m' ! c) \<noteq> None"
    proof (cases "c_err (m1 ! b) = None")
      case True
      then have "b \<noteq> a" using a1 by auto
      then have "c \<in> set (c_children (m1 ! b))" using step1(2) [OF b] True c by auto
      then show ?thesis using step2(3) [OF b] True n \<open>b \<noteq> a\<close> by blast
    next
      case False
      then show ?thesis using step1(3) [OF b] n c keep [OF lc] by blast
    qed
  next
    fix x assume "x \<in> set (a # as)"
    then show "c_err (m' ! x) \<noteq> None" using a'(1) p2 by (auto simp: cancel_post_def)
  qed (use len in simp)
qed

lemma cancel_post_skip:
  assumes "a < length m" "c_err (m ! a) \<noteq> None" "cancel_post (m[a := (m ! a)\<lparr>c_timer := False\<rparr>]) as e m'"
  shows "cancel_post m (a # as) e m'"
proof -
  let ?m = "m[a := (m ! a)\<lparr>c_timer := False\<rparr>]"
  have same: "c_err (?m ! b) = c_err (m ! b)" "c_children (?m ! b) = c_children (m ! b)" "c_parent (?m ! b) = c_parent (m ! b)"
    for b using assms(1) by (simp_all add: nth_list_update)
  have "below ?m x y \<longleftrightarrow> below m x y" for x y by (rule below_cong) (simp_all only: length_list_update same, blast)
  then show ?thesis using assms unfolding cancel_post_def same length_list_update by auto
qed

lemma cancel_cells_post:
  assumes "struct_ok m" "\<forall>a \<in> set as. a < length m \<and> length m < f + a"
  shows "\<exists>m'. cancel_cells f m as e = Some m' \<and> cancel_post m as e m'"
  using assms
proof (induction f m as e rule: cancel_cells.induct)
  case (1 f m e)
  then show ?case by (auto simp: cancel_post_def)
next
  case (2 m a as e)
  then show ?case by auto
next
  case (3 f m a as e)
  have a: "a < length m" using "3.prems"(2) by simp
  show ?case
  proof (cases "c_err (m ! a) \<noteq> None")
    case True
    have s: "struct_ok (m[a := (m ! a)\<lparr>c_timer := False\<rparr>])" by (rule struct_ok_update [OF "3.prems"(1) a]) simp_all
    have "\<forall>x \<in> set as. x < length (m[a := (m ! a)\<lparr>c_timer := False\<rparr>]) \<and>
        length (m[a := (m ! a)\<lparr>c_timer := False\<rparr>]) < Suc f + x" using "3.prems"(2) by simp
    from "3.IH"(1) [OF True s this] show ?thesis using True cancel_post_skip [OF a True] by auto
  next
    case False
    let ?m0 = "m[a := (m ! a)\<lparr>c_err := Some e\<rparr>]"
    have s0: "struct_ok ?m0" by (rule struct_ok_update [OF "3.prems"(1) a]) simp_all
    have "\<forall>x \<in> set (c_children (m ! a)). x < length ?m0 \<and> length ?m0 < f + x"
    proof
      fix x assume "x \<in> set (c_children (m ! a))"
      with struct_ok_child [OF "3.prems"(1) a] have "x < length m" "a < x" by auto
      moreover have "length m < Suc f + a" using "3.prems"(2) by simp
      ultimately show "x < length ?m0 \<and> length ?m0 < f + x" by simp
    qed
    from "3.IH"(2) [OF False s0 this] obtain m1 where m1: "cancel_cells f ?m0 (c_children (m ! a)) e = Some m1"
      "cancel_post ?m0 (c_children (m ! a)) e m1" by blast
    have l1: "length m1 = length m" using m1(2) by (simp add: cancel_post_def)
    have "struct_ok m1" by (rule cancel_post_struct [OF s0 m1(2)])
    then have s2: "struct_ok (m1[a := (m1 ! a)\<lparr>c_children := [], c_timer := False\<rparr>])"
      by (rule struct_ok_update) (use a l1 in simp_all)
    have "\<forall>x \<in> set as. x < length (m1[a := (m1 ! a)\<lparr>c_children := [], c_timer := False\<rparr>]) \<and>
        length (m1[a := (m1 ! a)\<lparr>c_children := [], c_timer := False\<rparr>]) < Suc f + x" using "3.prems"(2) l1 by simp
    from "3.IH"(3) [OF False m1(1) s2 this] obtain m' where
      "cancel_cells (Suc f) (m1[a := (m1 ! a)\<lparr>c_children := [], c_timer := False\<rparr>]) as e = Some m'"
      "cancel_post (m1[a := (m1 ! a)\<lparr>c_children := [], c_timer := False\<rparr>]) as e m'" by blast
    with cancel_post_cons [OF "3.prems"(1) a _ m1(2)] False m1(1) show ?thesis by auto
  qed
qed

section \<open>The invariant of the tree\<close>

text \<open>A cancelled context has only cancelled children, and the open ones are registered.\<close>

definition mem_ok :: "memory \<Rightarrow> bool" where
  "mem_ok m \<longleftrightarrow> struct_ok m \<and> (\<forall>b < length m. \<forall>p. c_parent (m ! b) = Some p \<longrightarrow>
     (c_err (m ! p) \<noteq> None \<longrightarrow> c_err (m ! b) \<noteq> None) \<and> (c_err (m ! b) = None \<longrightarrow> b \<in> set (c_children (m ! p))))"

definition ctx_ok :: "memory \<Rightarrow> ('k, 'v) ctx \<Rightarrow> bool" where
  "ctx_ok m c \<longleftrightarrow> (\<forall>p. parentCancelCtx c = Some p \<longrightarrow> p < length m)"

lemma mem_ok_Nil [simp]: "mem_ok []"
  by (simp add: mem_ok_def struct_ok_def)

lemma below_length: "below m a b \<Longrightarrow> a < length m \<Longrightarrow> b < length m"
  by (induction rule: below.induct) auto

lemma below_cancelled:
  assumes "below m a b" "mem_ok m" "c_err (m ! a) \<noteq> None"
  shows "c_err (m ! b) \<noteq> None"
  using assms by (induction rule: below.induct) (auto simp: mem_ok_def)

lemma cancel_post_mem:
  assumes "mem_ok m" "cancel_post m as e m'"
  shows "mem_ok m'"
proof -
  have s: "struct_ok m'" using assms cancel_post_struct by (auto simp: mem_ok_def)
  have l: "length m' = length m" using assms(2) by (simp add: cancel_post_def)
  have "(c_err (m' ! p) \<noteq> None \<longrightarrow> c_err (m' ! b) \<noteq> None) \<and> (c_err (m' ! b) = None \<longrightarrow> b \<in> set (c_children (m' ! p)))"
    if b: "b < length m" "c_parent (m ! b) = Some p" for b p
  proof -
    have p: "p < length m" using assms(1) b unfolding mem_ok_def struct_ok_def by (meson less_trans)
    have old: "c_err (m ! p) \<noteq> None \<longrightarrow> c_err (m ! b) \<noteq> None" "c_err (m ! b) = None \<longrightarrow> b \<in> set (c_children (m ! p))"
      using assms(1) b by (auto simp: mem_ok_def)
    have pb: "c_err (m ! b) \<noteq> None \<longrightarrow> c_err (m' ! b) \<noteq> None" using assms(2) b(1) by (auto simp: cancel_post_def)
    have pp: "c_children (m' ! p) = c_children (m ! p) \<or> c_err (m' ! p) \<noteq> None"
      "c_err (m ! p) = None \<and> c_err (m' ! p) \<noteq> None \<longrightarrow> (\<forall>c \<in> set (c_children (m ! p)). c_err (m' ! c) \<noteq> None)"
      using assms(2) p by (auto simp: cancel_post_def)
    show ?thesis using old pb pp by metis
  qed
  moreover have "c_parent (m' ! b) = c_parent (m ! b)" if "b < length m" for b
    using assms(2) that by (simp add: cancel_post_def)
  ultimately show ?thesis using s l unfolding mem_ok_def by metis
qed

lemma cancel_post_iff:
  assumes "mem_ok m" "cancel_post m [a] e m'" "a < length m" "b < length m"
  shows "c_err (m' ! b) = (if c_err (m ! b) \<noteq> None then c_err (m ! b) else if below m a b then Some e else None)"
proof -
  have m': "mem_ok m'" by (rule cancel_post_mem [OF assms(1,2)])
  have "below m' a b \<longleftrightarrow> below m a b" by (rule below_cong) (use assms(2) in \<open>simp_all add: cancel_post_def\<close>)
  moreover have "c_err (m' ! a) \<noteq> None" using assms(2) by (simp add: cancel_post_def)
  ultimately have "below m a b \<Longrightarrow> c_err (m' ! b) \<noteq> None" using below_cancelled [of m' a b] m' by simp
  moreover have "(c_err (m ! b) \<noteq> None \<longrightarrow> c_err (m' ! b) = c_err (m ! b)) \<and>
      (c_err (m ! b) = None \<and> c_err (m' ! b) \<noteq> None \<longrightarrow> c_err (m' ! b) = Some e \<and> below m a b)"
    using assms(2,4) unfolding cancel_post_def by simp
  ultimately show ?thesis by (cases "c_err (m' ! b)") auto
qed

lemma removeChild_ok:
  assumes "mem_ok m" "a < length m" "c_err (m ! a) \<noteq> None"
  shows "mem_ok (removeChild m a) \<and> length (removeChild m a) = length m \<and>
    (\<forall>b < length m. c_err (removeChild m a ! b) = c_err (m ! b) \<and> c_parent (removeChild m a ! b) = c_parent (m ! b))"
proof (cases "c_parent (m ! a)")
  case (Some p)
  have p: "p < length m" using assms(1,2) Some unfolding mem_ok_def struct_ok_def by (meson less_trans)
  let ?m = "removeChild m a" and ?cs = "filter (\<lambda>b. b \<noteq> a) (c_children (m ! p))"
  have r: "?m = m[p := (m ! p)\<lparr>c_children := ?cs\<rparr>]" by (simp add: removeChild_def Some)
  have s: "struct_ok ?m"
    unfolding r by (rule struct_ok_update) (use assms(1) p in \<open>simp_all add: mem_ok_def\<close>)
  have same: "length ?m = length m" "c_err (?m ! b) = c_err (m ! b)" "c_parent (?m ! b) = c_parent (m ! b)"
    "x \<in> set (c_children (?m ! b)) \<longleftrightarrow> x \<in> set (c_children (m ! b)) \<and> (b = p \<longrightarrow> x \<noteq> a)" for b x
    using p by (auto simp: r nth_list_update)
  have "\<forall>b < length ?m. \<forall>p. c_parent (?m ! b) = Some p \<longrightarrow>
     (c_err (?m ! p) \<noteq> None \<longrightarrow> c_err (?m ! b) \<noteq> None) \<and> (c_err (?m ! b) = None \<longrightarrow> b \<in> set (c_children (?m ! p)))"
    unfolding same using assms(1,3) by (auto simp: mem_ok_def)
  then have "mem_ok ?m" using s by (simp add: mem_ok_def)
  then show ?thesis using same by blast
qed (use assms in \<open>simp add: removeChild_def\<close>)

lemma cancel_spec:
  assumes "mem_ok m" "a < length m"
  shows "\<exists>m'. cancel t m a e = Some m' \<and> mem_ok m' \<and> length m' = length m \<and>
    (\<forall>b < length m. c_parent (m' ! b) = c_parent (m ! b) \<and> c_err (m' ! b) =
      (if c_err (m ! b) \<noteq> None then c_err (m ! b) else if below m a b then Some e else None))"
proof (cases "\<not> t \<and> c_err (m ! a) \<noteq> None")
  case True
  then have "\<forall>b. below m a b \<longrightarrow> c_err (m ! b) \<noteq> None" using below_cancelled [OF _ assms(1)] by blast
  then show ?thesis using True assms by (auto simp: cancel_def)
next
  case False
  have "struct_ok m" using assms(1) by (simp add: mem_ok_def)
  from cancel_cells_post [OF this, of "[a]" "Suc (length m)" e] assms(2) obtain m1 where
    m1: "cancel_cells (Suc (length m)) m [a] e = Some m1" "cancel_post m [a] e m1" by auto
  have l: "length m1 = length m" "\<forall>b < length m. c_parent (m1 ! b) = c_parent (m ! b)" "c_err (m1 ! a) \<noteq> None"
    using m1(2) by (simp_all add: cancel_post_def)
  have ok: "mem_ok m1" by (rule cancel_post_mem [OF assms(1) m1(2)])
  have "cancel t m a e = Some (removeChild m1 a)" using False m1(1) by (auto simp: cancel_def)
  then show ?thesis
    using removeChild_ok [OF ok, of a] l assms(2) cancel_post_iff [OF assms(1) m1(2) assms(2)] by auto
qed

section \<open>Deriving a context\<close>

lemma nth_append_old: "b < length m \<Longrightarrow> (m @ [x]) ! b = m ! b"
  by (simp add: nth_append)

lemma newCell_simps [simp]:
  "c_err (newCell parent) = None" "c_children (newCell parent) = []" "c_parent (newCell parent) = parentCancelCtx parent"
  "c_timer (newCell parent) = False"
  by (simp_all add: newCell_def)

text \<open>The new cell, not yet registered with its parent.\<close>

lemma newCell_struct:
  assumes "struct_ok m" "ctx_ok m parent"
  shows "struct_ok (m @ [newCell parent])"
proof -
  let ?m = "m @ [newCell parent]"
  have "(\<forall>p. c_parent (?m ! b) = Some p \<longrightarrow> p < b) \<and>
      (\<forall>c \<in> set (c_children (?m ! b)). c < length ?m \<and> c_parent (?m ! c) = Some b)" if b: "b < Suc (length m)" for b
  proof (cases "b = length m")
    case True
    then show ?thesis using assms(2) by (simp add: ctx_ok_def)
  next
    case False
    then have "b < length m" "?m ! b = m ! b" using b by (simp_all add: nth_append)
    moreover have "(\<forall>p. c_parent (m ! b) = Some p \<longrightarrow> p < b) \<and>
        (\<forall>c \<in> set (c_children (m ! b)). c < length m \<and> c_parent (m ! c) = Some b)"
      using assms(1) \<open>b < length m\<close> unfolding struct_ok_def by blast
    ultimately show ?thesis by (simp add: nth_append) (meson less_SucI)
  qed
  then show ?thesis by (simp add: struct_ok_def)
qed

text \<open>The invariant, one cell at a time.\<close>

lemma mem_okI:
  assumes "struct_ok m"
    "\<And>b p. b < length m \<Longrightarrow> c_parent (m ! b) = Some p \<Longrightarrow> c_err (m ! p) \<noteq> None \<Longrightarrow> c_err (m ! b) \<noteq> None"
    "\<And>b p. b < length m \<Longrightarrow> c_parent (m ! b) = Some p \<Longrightarrow> c_err (m ! b) = None \<Longrightarrow> b \<in> set (c_children (m ! p))"
  shows "mem_ok m"
  using assms unfolding mem_ok_def by blast

lemma mem_okD:
  assumes "mem_ok m" "b < length m" "c_parent (m ! b) = Some p"
  shows "p < b" "c_err (m ! p) \<noteq> None \<Longrightarrow> c_err (m ! b) \<noteq> None" "c_err (m ! b) = None \<Longrightarrow> b \<in> set (c_children (m ! p))"
proof -
  have "\<forall>p. c_parent (m ! b) = Some p \<longrightarrow> p < b"
    using assms(1,2) unfolding mem_ok_def struct_ok_def by blast
  moreover have "\<forall>p. c_parent (m ! b) = Some p \<longrightarrow>
     (c_err (m ! p) \<noteq> None \<longrightarrow> c_err (m ! b) \<noteq> None) \<and> (c_err (m ! b) = None \<longrightarrow> b \<in> set (c_children (m ! p)))"
    using assms(1,2) unfolding mem_ok_def by blast
  ultimately show "p < b" "c_err (m ! p) \<noteq> None \<Longrightarrow> c_err (m ! b) \<noteq> None" "c_err (m ! b) = None \<Longrightarrow> b \<in> set (c_children (m ! p))"
    using assms(3) by simp_all
qed

lemma mem_ok_struct: "mem_ok m \<Longrightarrow> struct_ok m"
  by (simp add: mem_ok_def)

text \<open>A memory that keeps the old cells, with the registration of a new cell where its parent is open.\<close>

lemma mem_ok_extend:
  assumes "mem_ok m" "ctx_ok m parent" "struct_ok m'" "length m' = Suc (length m)"
    "\<And>b. b < length m \<Longrightarrow> c_err (m' ! b) = c_err (m ! b) \<and> c_parent (m' ! b) = c_parent (m ! b) \<and>
       (c_err (m ! b) = None \<longrightarrow> set (c_children (m ! b)) \<subseteq> set (c_children (m' ! b)))"
    "c_parent (m' ! length m) = parentCancelCtx parent" "c_err (m' ! length m) = Err m parent"
    "\<And>p. parentCancelCtx parent = Some p \<Longrightarrow> Err m parent = None \<Longrightarrow> length m \<in> set (c_children (m' ! p))"
  shows "mem_ok m'"
proof (rule mem_okI [OF assms(3)])
  fix b p assume b: "b < length m'" "c_parent (m' ! b) = Some p"
  have old: "c_parent (m ! b) = Some p" "p < length m" "b < length m" if "b \<noteq> length m"
  proof -
    show l: "b < length m" using b(1) that assms(4) by simp
    show c: "c_parent (m ! b) = Some p" using assms(5) [OF l] b(2) by simp
    show "p < length m" using mem_okD(1) [OF assms(1) l c] l by simp
  qed
  have new: "parentCancelCtx parent = Some p" "p < length m" "c_err (m ! p) = Err m parent" if "b = length m"
    using that b(2) assms(2,6) by (auto simp: ctx_ok_def Err_def)
  show "c_err (m' ! b) \<noteq> None" if "c_err (m' ! p) \<noteq> None"
  proof (cases "b = length m")
    case True
    then show ?thesis using new [OF True] assms(5) [OF new(2) [OF True]] assms(7) that by simp
  next
    case False
    then show ?thesis using mem_okD(2) [OF assms(1) old(3,1) [OF False]] assms(5) old(2,3) [OF False] that by metis
  qed
  show "b \<in> set (c_children (m' ! p))" if "c_err (m' ! b) = None"
  proof (cases "b = length m")
    case True
    then show ?thesis using new [OF True] assms(7,8) that by simp
  next
    case False
    then have "c_err (m ! b) = None" using assms(5) old(3) that by simp
    then have "b \<in> set (c_children (m ! p))" "c_err (m ! p) = None"
      using mem_okD(2,3) [OF assms(1) old(3,1) [OF False]] by blast+
    then show ?thesis using assms(5) [OF old(2) [OF False]] by blast
  qed
qed

lemma below_older: "below m a b \<Longrightarrow> struct_ok m \<Longrightarrow> a \<le> b"
  by (induction rule: below.induct) (auto simp: struct_ok_def intro: less_imp_le order.trans)

text \<open>\<open>propagateCancel\<close> on a cell that was just made.\<close>

lemma propagateCancel_spec:
  fixes parent :: "('k, 'v) ctx"
  assumes "mem_ok m" "ctx_ok m parent"
  shows "\<exists>m'. propagateCancel (m @ [newCell parent]) parent (length m) = Some m' \<and> mem_ok m' \<and>
    length m' = Suc (length m) \<and> (\<forall>b < length m. c_err (m' ! b) = c_err (m ! b) \<and> c_parent (m' ! b) = c_parent (m ! b)) \<and>
    c_err (m' ! length m) = Err m parent \<and> c_parent (m' ! length m) = parentCancelCtx parent"
proof -
  let ?m = "m @ [newCell parent]" and ?a = "length m"
  have s1: "struct_ok ?m" by (rule newCell_struct [OF mem_ok_struct [OF assms(1)] assms(2)])
  have at: "?m ! ?a = newCell parent" "b < ?a \<Longrightarrow> ?m ! b = m ! b" for b by (simp_all add: nth_append)
  note ext = mem_ok_extend [OF assms]
  show ?thesis
  proof (cases "parentCancelCtx parent")
    case None
    have "mem_ok ?m" by (rule ext [OF s1]) (use at(2) None in \<open>simp_all add: Err_def\<close>)
    then show ?thesis using None by (simp add: propagateCancel_def at Err_def)
  next
    case (Some p)
    have p: "p < ?a" using assms(2) Some by (simp add: ctx_ok_def)
    have E: "Err m parent = c_err (m ! p)" by (simp add: Err_def Some)
    show ?thesis
    proof (cases "c_err (m ! p)")
      case None
      let ?m' = "?m[p := (m ! p)\<lparr>c_children := c_children (m ! p) @ [?a]\<rparr>]"
      have same: "length ?m' = Suc ?a" "c_err (?m' ! b) = c_err (?m ! b)" "c_parent (?m' ! b) = c_parent (?m ! b)"
        "set (c_children (?m' ! b)) = set (c_children (?m ! b)) \<union> (if b = p then {?a} else {})" for b
        using p at(2) [OF p] by (cases "b = p"; simp)+
      have "struct_ok ?m'" unfolding struct_ok_def same
      proof (intro allI impI)
        fix b assume b: "b < Suc ?a"
        then have "(\<forall>q. c_parent (?m ! b) = Some q \<longrightarrow> q < b) \<and>
            (\<forall>c \<in> set (c_children (?m ! b)). c < Suc ?a \<and> c_parent (?m ! c) = Some b)"
          using s1 by (simp add: struct_ok_def)
        moreover have "c_parent (?m ! ?a) = Some p" by (simp add: at Some)
        ultimately show "(\<forall>q. c_parent (?m ! b) = Some q \<longrightarrow> q < b) \<and>
            (\<forall>c \<in> set (c_children (?m ! b)) \<union> (if b = p then {?a} else {}). c < Suc ?a \<and> c_parent (?m ! c) = Some b)"
          by auto
      qed
      then have "mem_ok ?m'" by (rule ext) (use p None Some E in \<open>simp_all only: same at, simp_all\<close>)
      then show ?thesis using Some None p at same E
        by (simp add: propagateCancel_def)
    next
      case (Some e)
      from cancel_cells_post [OF s1, of "[?a]" "Suc (length ?m)" e] obtain m' where
        m': "cancel_cells (Suc (length ?m)) ?m [?a] e = Some m'" "cancel_post ?m [?a] e m'" by auto
      have l: "length m' = Suc ?a" using m'(2) by (simp add: cancel_post_def)
      have post: "c_parent (m' ! b) = c_parent (?m ! b) \<and> (c_err (?m ! b) \<noteq> None \<longrightarrow> c_err (m' ! b) = c_err (?m ! b)) \<and>
          (c_children (m' ! b) = c_children (?m ! b) \<or> c_children (m' ! b) = [] \<and> c_err (m' ! b) \<noteq> None) \<and>
          (c_err (?m ! b) = None \<and> c_err (m' ! b) \<noteq> None \<longrightarrow> c_err (m' ! b) = Some e \<and> below ?m ?a b)"
        if "b < Suc ?a" for b
        using m'(2) that unfolding cancel_post_def by simp
      have old: "c_err (m' ! b) = c_err (m ! b) \<and> c_parent (m' ! b) = c_parent (m ! b) \<and>
          (c_err (m ! b) = None \<longrightarrow> set (c_children (m ! b)) \<subseteq> set (c_children (m' ! b)))" if b: "b < ?a" for b
      proof -
        have "\<not> below ?m ?a b" using below_older [OF _ s1] b by fastforce
        then have "c_err (m' ! b) = c_err (m ! b)" using post [of b] b at(2) [OF b]
          by (cases "c_err (m ! b)"; cases "c_err (m' ! b)") auto
        then show ?thesis using post [of b] b at(2) [OF b] by auto
      qed
      have "c_err (m' ! ?a) \<noteq> None" using m'(2) by (simp add: cancel_post_def)
      then have new: "c_err (m' ! ?a) = Some e" "c_parent (m' ! ?a) = parentCancelCtx parent"
        using post [of ?a] at(1) by auto
      have "mem_ok m'"
        by (rule ext [OF cancel_post_struct [OF s1 m'(2)] l old]) (use new E Some in simp_all)
      then show ?thesis using Some \<open>parentCancelCtx parent = Some p\<close> m'(1) l old new E at(2) [OF p]
        by (simp add: propagateCancel_def)
    qed
  qed
qed

text \<open>What one step does to the cells that were there.\<close>

definition keeps :: "memory \<Rightarrow> memory \<Rightarrow> bool" where
  "keeps m m' \<longleftrightarrow> length m \<le> length m' \<and> (\<forall>b < length m. c_parent (m' ! b) = c_parent (m ! b) \<and>
     (c_err (m ! b) \<noteq> None \<longrightarrow> c_err (m' ! b) = c_err (m ! b)))"

lemma keeps_trans: "keeps m m1 \<Longrightarrow> keeps m1 m2 \<Longrightarrow> keeps m m2"
  unfolding keeps_def by (metis order.trans order.strict_trans2)

lemma cancel_keeps:
  assumes "mem_ok m" "a < length m"
  obtains m' where "cancel t m a e = Some m'" "mem_ok m'" "keeps m m'" "length m' = length m" "c_err (m' ! a) \<noteq> None"
proof -
  obtain m' where m': "cancel t m a e = Some m'" "mem_ok m'" "length m' = length m"
    "\<forall>b < length m. c_parent (m' ! b) = c_parent (m ! b) \<and> c_err (m' ! b) =
      (if c_err (m ! b) \<noteq> None then c_err (m ! b) else if below m a b then Some e else None)"
    using cancel_spec [OF assms] by blast
  have "c_err (m' ! a) \<noteq> None" using m'(4) assms(2) by (simp add: below_refl)
  moreover have "keeps m m'" unfolding keeps_def using m'(3,4) by simp
  ultimately show ?thesis using that m' by blast
qed

lemma WithCancel_spec:
  assumes "mem_ok m" "ctx_ok m parent"
  obtains m' where "WithCancel m parent = Some (m', cancelCtx (length m) parent)" "mem_ok m'" "keeps m m'"
    "length m' = Suc (length m)" "c_parent (m' ! length m) = parentCancelCtx parent" "c_err (m' ! length m) = Err m parent"
  using propagateCancel_spec [OF assms] unfolding WithCancel_def keeps_def
  by (metis (no_types, lifting) le_SucI option.simps(9) order_refl)

lemma mem_ok_timer:
  assumes "mem_ok m" "a < length m"
  shows "mem_ok (m[a := (m ! a)\<lparr>c_timer := t\<rparr>])"
proof -
  have same: "c_err (m[a := (m ! a)\<lparr>c_timer := t\<rparr>] ! b) = c_err (m ! b)"
    "c_children (m[a := (m ! a)\<lparr>c_timer := t\<rparr>] ! b) = c_children (m ! b)"
    "c_parent (m[a := (m ! a)\<lparr>c_timer := t\<rparr>] ! b) = c_parent (m ! b)" for b
    using assms(2) by (cases "b = a"; simp)+
  show ?thesis using assms(1) unfolding mem_ok_def struct_ok_def same length_list_update .
qed

lemma WithDeadline_spec:
  assumes "mem_ok m" "ctx_ok m parent"
  obtains m' c where "WithDeadline now m parent deadline = Some (m', c)" "mem_ok m'" "keeps m m'"
    "length m' = Suc (length m)" "c_parent (m' ! length m) = parentCancelCtx parent"
    "c = cancelCtx (length m) parent \<or> c = timerCtx (length m) parent deadline"
proof (cases "case Deadline_of parent of None \<Rightarrow> False | Some cur \<Rightarrow> cur < deadline")
  case True
  then have "WithDeadline now m parent deadline = WithCancel m parent" by (simp add: WithDeadline_def)
  then show ?thesis using WithCancel_spec [OF assms] that by metis
next
  case False
  let ?a = "length m" and ?c = "timerCtx (length m) parent deadline"
  obtain m1 where m1: "propagateCancel (m @ [newCell parent]) parent ?a = Some m1" "mem_ok m1" "length m1 = Suc ?a"
    "\<forall>b < ?a. c_err (m1 ! b) = c_err (m ! b) \<and> c_parent (m1 ! b) = c_parent (m ! b)" "c_parent (m1 ! ?a) = parentCancelCtx parent"
    using propagateCancel_spec [OF assms] by blast
  have k: "keeps m m1" unfolding keeps_def using m1(3,4) by simp
  have a: "?a < length m1" using m1(3) by simp
  show ?thesis
  proof (cases "deadline - now \<le> 0")
    case late: True
    obtain m2 where m2: "cancel True m1 ?a DeadlineExceeded = Some m2" "mem_ok m2" "keeps m1 m2" "length m2 = length m1"
      by (rule cancel_keeps [OF m1(2) a])
    have "WithDeadline now m parent deadline = Some (m2, ?c)" using False late m1(1) m2(1) by (simp add: WithDeadline_def Let_def)
    moreover have "c_parent (m2 ! ?a) = parentCancelCtx parent" using m2(3) a m1(5) by (simp add: keeps_def)
    ultimately show ?thesis using that m2 keeps_trans [OF k m2(3)] m1(3) by simp
  next
    case early: False
    show ?thesis
    proof (cases "c_err (m1 ! ?a) = None")
      case True
      have "WithDeadline now m parent deadline = Some (m1[?a := (m1 ! ?a)\<lparr>c_timer := True\<rparr>], ?c)"
        using False early True m1(1) by (simp add: WithDeadline_def Let_def)
      moreover have "keeps m (m1[?a := (m1 ! ?a)\<lparr>c_timer := True\<rparr>])" using k by (simp add: keeps_def)
      ultimately show ?thesis using that mem_ok_timer [OF m1(2) a] m1(3,5) by simp
    next
      case no: False
      have "WithDeadline now m parent deadline = Some (m1, ?c)"
        using no False early m1(1) by (simp add: WithDeadline_def Let_def del: not_None_eq)
      then show ?thesis using that m1(2,3,5) k by simp
    qed
  qed
qed

section \<open>Programs with contexts\<close>

text \<open>The contexts a program has made, and the memory: \<open>run\<close> makes, cancels and lets timers expire.\<close>

inductive ctx_run :: "memory \<Rightarrow> ('k, 'v) ctx set \<Rightarrow> bool" where
  run_background: "ctx_run [] {emptyCtx}"
| run_cancelled: "ctx_run m C \<Longrightarrow> c \<in> C \<Longrightarrow> WithCancel m c = Some (m', c') \<Longrightarrow> ctx_run m' (insert c' C)"
| run_deadline: "ctx_run m C \<Longrightarrow> c \<in> C \<Longrightarrow> WithDeadline now m c d = Some (m', c') \<Longrightarrow> ctx_run m' (insert c' C)"
| run_value: "ctx_run m C \<Longrightarrow> c \<in> C \<Longrightarrow> ctx_run m (insert (WithValue c k v) C)"
| run_cancel: "ctx_run m C \<Longrightarrow> c \<in> C \<Longrightarrow> cancelFunc m c = Some m' \<Longrightarrow> ctx_run m' C"
| run_expire: "ctx_run m C \<Longrightarrow> timerCtx a p d \<in> C \<Longrightarrow> cancel True m a DeadlineExceeded = Some m' \<Longrightarrow> ctx_run m' C"

text \<open>Every cell of the chain is there, and knows the cell after it.\<close>

primrec chain_ok :: "memory \<Rightarrow> ('k, 'v) ctx \<Rightarrow> bool" where
  "chain_ok m emptyCtx \<longleftrightarrow> True"
| "chain_ok m (cancelCtx a p) \<longleftrightarrow> a < length m \<and> c_parent (m ! a) = parentCancelCtx p \<and> chain_ok m p"
| "chain_ok m (timerCtx a p d) \<longleftrightarrow> a < length m \<and> c_parent (m ! a) = parentCancelCtx p \<and> chain_ok m p"
| "chain_ok m (valueCtx p k v) \<longleftrightarrow> chain_ok m p"

text \<open>The context and those it was derived from.\<close>

primrec ancestors :: "('k, 'v) ctx \<Rightarrow> ('k, 'v) ctx set" where
  "ancestors emptyCtx = {emptyCtx}"
| "ancestors (cancelCtx a p) = insert (cancelCtx a p) (ancestors p)"
| "ancestors (timerCtx a p d) = insert (timerCtx a p d) (ancestors p)"
| "ancestors (valueCtx p k v) = insert (valueCtx p k v) (ancestors p)"

lemma chain_ok_ctx: "chain_ok m c \<Longrightarrow> ctx_ok m c"
  by (induction c) (auto simp: ctx_ok_def)

lemma chain_ok_keeps: "chain_ok m c \<Longrightarrow> keeps m m' \<Longrightarrow> chain_ok m' c"
  by (induction c) (auto simp: keeps_def)

lemma chain_done:
  assumes "mem_ok m" "chain_ok m d" "c \<in> ancestors d" "is_done m c"
  shows "is_done m d"
  using assms(2-4)
proof (induction d)
  case (cancelCtx a p)
  then show ?case using mem_okD(2) [OF assms(1), of a] 
    by (auto simp: is_done_def Err_def split: option.splits)
next
  case (timerCtx a p t)
  then show ?case using mem_okD(2) [OF assms(1), of a] 
    by (auto simp: is_done_def Err_def split: option.splits)
qed (auto simp: is_done_def Err_def)

lemma cancelFunc_keeps:
  assumes "mem_ok m" "chain_ok m c"
  obtains m' where "cancelFunc m c = Some m'" "mem_ok m'" "keeps m m'" "length m' = length m"
proof (cases c)
  case (cancelCtx a p)
  with assms show ?thesis using cancel_keeps [OF assms(1), of a False Canceled] that by (auto simp: cancelFunc_def)
next
  case (timerCtx a p d)
  with assms show ?thesis using cancel_keeps [OF assms(1), of a True Canceled] that by (auto simp: cancelFunc_def)
next
  case emptyCtx
  show ?thesis by (rule that [of m]) (use assms emptyCtx in \<open>simp_all add: cancelFunc_def keeps_def\<close>)
next
  case (valueCtx p k v)
  show ?thesis by (rule that [of m]) (use assms valueCtx in \<open>simp_all add: cancelFunc_def keeps_def\<close>)
qed

lemma ctx_run_ok: "ctx_run m C \<Longrightarrow> mem_ok m \<and> (\<forall>c \<in> C. chain_ok m c)"
proof (induction rule: ctx_run.induct)
  case (run_cancelled m C c m' c')
  then obtain ok: "mem_ok m" "chain_ok m c" by blast
  obtain m1 where "WithCancel m c = Some (m1, cancelCtx (length m) c)" "mem_ok m1" "keeps m m1"
    "length m1 = Suc (length m)" "c_parent (m1 ! length m) = parentCancelCtx c"
    by (rule WithCancel_spec [OF ok(1) chain_ok_ctx [OF ok(2)]])
  with run_cancelled show ?case using chain_ok_keeps by fastforce
next
  case (run_deadline m C c now d m' c')
  then obtain ok: "mem_ok m" "chain_ok m c" by blast
  obtain m1 c1 where "WithDeadline now m c d = Some (m1, c1)" "mem_ok m1" "keeps m m1"
    "length m1 = Suc (length m)" "c_parent (m1 ! length m) = parentCancelCtx c"
    "c1 = cancelCtx (length m) c \<or> c1 = timerCtx (length m) c d"
    by (rule WithDeadline_spec [OF ok(1) chain_ok_ctx [OF ok(2)]])
  with run_deadline show ?case using chain_ok_keeps by fastforce
next
  case (run_cancel m C c m')
  then show ?case using cancelFunc_keeps chain_ok_keeps by (metis option.inject)
next
  case (run_expire m C a p d m')
  then have "mem_ok m" "a < length m" by auto
  then show ?case using run_expire cancel_keeps chain_ok_keeps by (metis option.inject)
next
  case (run_value m C c k v)
  then show ?case by (simp add: WithValue_def)
qed simp

section \<open>Properties\<close>


text \<open>Whatever a program does with contexts, a context is done as soon as one of those it was
  derived from is done.\<close>

theorem done_inherited:
  assumes "ctx_run m C" "d \<in> C" "c \<in> ancestors d" "is_done m c"
  shows "is_done m d"
  using chain_done ctx_run_ok [OF assms(1)] assms(2-4) by blast

text \<open>A tree for the witnesses: 0 with the children 1 and 2, and 3 below 1.\<close>

abbreviation root_ctx :: "(nat, nat) ctx" where "root_ctx \<equiv> cancelCtx 0 emptyCtx"
abbreviation left_ctx :: "(nat, nat) ctx" where "left_ctx \<equiv> cancelCtx 1 root_ctx"

lemma small_run:
  "ctx_run [\<lparr>c_err = None, c_children = [1], c_parent = None, c_timer = False\<rparr>,
     \<lparr>c_err = None, c_children = [], c_parent = Some 0, c_timer = False\<rparr>] {left_ctx, root_ctx, emptyCtx}"
proof -
  have "ctx_run [newCell emptyCtx] {root_ctx, emptyCtx}"
    by (rule run_cancelled [OF run_background, of emptyCtx]) (simp_all add: WithCancel_def propagateCancel_def)
  then show ?thesis
    by (rule run_cancelled [of _ _ root_ctx]) (simp_all add: WithCancel_def propagateCancel_def newCell_def)
qed


theorem done_inherited_witness:
  "\<exists>m C. ctx_run m C \<and> left_ctx \<in> C \<and> is_done m root_ctx \<and> is_done m left_ctx"
proof -
  let ?m = "[\<lparr>c_err = Some Canceled, c_children = [], c_parent = None, c_timer = False\<rparr>,
     \<lparr>c_err = Some Canceled, c_children = [], c_parent = Some 0, c_timer = False\<rparr>]"
  have "ctx_run ?m {left_ctx, root_ctx, emptyCtx}"
    by (rule run_cancel [OF small_run, of root_ctx])
      (simp_all add: cancelFunc_def cancel_def removeChild_def)
  moreover from done_inherited [OF this, of left_ctx root_ctx] have "is_done ?m left_ctx"
    by (simp add: is_done_def Err_def)
  moreover have "is_done ?m root_ctx" by (simp add: is_done_def Err_def)
  ultimately show ?thesis by blast
qed

end
