(* ===== verification/Ssh_Keys.thy ===== *)
theory Ssh_Keys
  imports Ssh_Wire "HOL-Library.List_Lexorder"
begin

text \<open>
  Public keys and certificates of the vendored package \<^verbatim>\<open>golang.org/x/crypto/ssh\<close>: \<^verbatim>\<open>keys.go\<close> and
  \<^verbatim>\<open>certs.go\<close>.

  The cryptography is a parameter: a record of the functions of Go's \<^verbatim>\<open>crypto\<close> packages the code
  calls. Strings are byte strings, and a Go map with string keys is the list of its entries.
\<close>

section \<open>Keys\<close>

datatype curve = P256 | P384 | P521

record crypto =
  sha1 :: "bytes \<Rightarrow> bytes"
  ec_hash :: "curve \<Rightarrow> bytes \<Rightarrow> bytes"
  rsa_verify :: "int \<Rightarrow> int \<Rightarrow> bytes \<Rightarrow> bytes \<Rightarrow> bool"
      \<comment> \<open>exponent, modulus, digest, signature\<close>
  dsa_verify :: "int \<times> int \<times> int \<times> int \<Rightarrow> bytes \<Rightarrow> nat \<Rightarrow> nat \<Rightarrow> bool"
  ecdsa_verify :: "curve \<Rightarrow> int \<Rightarrow> int \<Rightarrow> bytes \<Rightarrow> int \<Rightarrow> int \<Rightarrow> bool"
  ec_marshal :: "curve \<Rightarrow> int \<Rightarrow> int \<Rightarrow> bytes"
  ec_unmarshal :: "curve \<Rightarrow> bytes \<Rightarrow> (int \<times> int) option"

record signature =
  sig_Format :: bytes
  sig_Blob :: bytes

type_synonym tuples = "(bytes \<times> bytes) list"

record cert_data =
  Nonce :: bytes
  Serial :: "64 word"
  CertType :: "32 word"
  KeyId :: bytes
  ValidPrincipals :: "bytes list"
  ValidAfter :: "64 word"
  ValidBefore :: "64 word"
  CriticalOptions :: tuples
  Extensions :: tuples
  Reserved :: bytes

text \<open>A certificate holds its key, the key it was signed with and the signature, nil before it is signed.\<close>

datatype public_key =
    rsaPublicKey int int
      \<comment> \<open>E, N\<close>
  | dsaPublicKey int int int int
      \<comment> \<open>P, Q, G, Y\<close>
  | ecdsaPublicKey curve int int
  | Certificate cert_data public_key public_key "signature option"

subsection \<open>Names\<close>

definition KeyAlgoRSA :: bytes where "KeyAlgoRSA = bytes_of ''ssh-rsa''"
definition KeyAlgoDSA :: bytes where "KeyAlgoDSA = bytes_of ''ssh-dss''"
definition KeyAlgoECDSA256 :: bytes where "KeyAlgoECDSA256 = bytes_of ''ecdsa-sha2-nistp256''"
definition KeyAlgoECDSA384 :: bytes where "KeyAlgoECDSA384 = bytes_of ''ecdsa-sha2-nistp384''"
definition KeyAlgoECDSA521 :: bytes where "KeyAlgoECDSA521 = bytes_of ''ecdsa-sha2-nistp521''"
definition CertAlgoRSAv01 :: bytes where "CertAlgoRSAv01 = bytes_of ''ssh-rsa-cert-v01@openssh.com''"
definition CertAlgoDSAv01 :: bytes where "CertAlgoDSAv01 = bytes_of ''ssh-dss-cert-v01@openssh.com''"
definition CertAlgoECDSA256v01 :: bytes where "CertAlgoECDSA256v01 = bytes_of ''ecdsa-sha2-nistp256-cert-v01@openssh.com''"
definition CertAlgoECDSA384v01 :: bytes where "CertAlgoECDSA384v01 = bytes_of ''ecdsa-sha2-nistp384-cert-v01@openssh.com''"
definition CertAlgoECDSA521v01 :: bytes where "CertAlgoECDSA521v01 = bytes_of ''ecdsa-sha2-nistp521-cert-v01@openssh.com''"

lemmas algo_defs = KeyAlgoRSA_def KeyAlgoDSA_def KeyAlgoECDSA256_def KeyAlgoECDSA384_def KeyAlgoECDSA521_def
  CertAlgoRSAv01_def CertAlgoDSAv01_def CertAlgoECDSA256v01_def CertAlgoECDSA384v01_def CertAlgoECDSA521v01_def

definition certAlgoNames :: "(bytes \<times> bytes) list" where
  "certAlgoNames =
     [(KeyAlgoRSA, CertAlgoRSAv01), (KeyAlgoDSA, CertAlgoDSAv01), (KeyAlgoECDSA256, CertAlgoECDSA256v01),
      (KeyAlgoECDSA384, CertAlgoECDSA384v01), (KeyAlgoECDSA521, CertAlgoECDSA521v01)]"

text \<open>The loop of \<open>certToPrivAlgo\<close>; \<^const>\<open>None\<close> is its panic.\<close>

definition certToPrivAlgo :: "bytes \<Rightarrow> bytes option" where
  "certToPrivAlgo algo = map_of (map (\<lambda>(priv, pub). (pub, priv)) certAlgoNames) algo"

primrec nistID :: "curve \<Rightarrow> bytes" where
  "nistID P256 = bytes_of ''nistp256''"
| "nistID P384 = bytes_of ''nistp384''"
| "nistID P521 = bytes_of ''nistp521''"

primrec KeyType :: "public_key \<Rightarrow> panic + bytes" where
  "KeyType (rsaPublicKey e n) = Inr KeyAlgoRSA"
| "KeyType (dsaPublicKey p q g y) = Inr KeyAlgoDSA"
| "KeyType (ecdsaPublicKey c x y) = Inr (bytes_of ''ecdsa-sha2-'' @ nistID c)"
| "KeyType (Certificate d k sk sig) =
     (case KeyType k of
        Inl e \<Rightarrow> Inl e
      | Inr t \<Rightarrow> (case map_of certAlgoNames t of None \<Rightarrow> Inl UnknownCertKeyType | Some a \<Rightarrow> Inr a))"

section \<open>Parsing\<close>

primrec bind_parsed :: "'a parsed \<Rightarrow> ('a \<Rightarrow> 'b parsed) \<Rightarrow> 'b parsed" where
  "bind_parsed (Parsed x) f = f x"
| "bind_parsed (Malformed e) f = Malformed e"
| "bind_parsed (Crash c) f = Crash c"

lemma bind_parsed_cong [fundef_cong]:
  "m = m' \<Longrightarrow> (\<And>x. m' = Parsed x \<Longrightarrow> f x = g x) \<Longrightarrow> bind_parsed m f = bind_parsed m' g"
  by (cases m') auto

lemma bind_parsed_Parsed: "bind_parsed m f = Parsed y \<longleftrightarrow> (\<exists>x. m = Parsed x \<and> f x = Parsed y)"
  by (cases m) auto

text \<open>\<open>parseString\<close> where the caller returns an error if it is not \<open>ok\<close>.\<close>

definition getString :: "wire_error \<Rightarrow> bytes \<Rightarrow> (bytes \<times> bytes) parsed" where
  "getString e inp =
     (case parseString inp of Inl c \<Rightarrow> Crash c | Inr None \<Rightarrow> Malformed e | Inr (Some r) \<Rightarrow> Parsed r)"

definition anonymous :: "(string \<times> kind) list \<Rightarrow> struct_type" where
  "anonymous fs = \<lparr>st_name = '''', st_tag = None, st_fields = fs\<rparr>"

definition int_at :: "fval list \<Rightarrow> nat \<Rightarrow> int" where
  "int_at vs i = (case vs ! i of VInt n \<Rightarrow> n | _ \<Rightarrow> 0)"

definition u64_at :: "fval list \<Rightarrow> nat \<Rightarrow> 64 word" where
  "u64_at vs i = (case vs ! i of VU64 n \<Rightarrow> n | _ \<Rightarrow> 0)"

definition rsaWire :: struct_type where
  "rsaWire = anonymous [(''E'', KBigInt), (''N'', KBigInt), (''Rest'', KRest)]"

text \<open>\<open>BitLen\<close> is that of the absolute value.\<close>

definition parseRSA :: "bytes \<Rightarrow> (public_key \<times> bytes) parsed" where
  "parseRSA inp =
     bind_parsed (Unmarshal inp rsaWire) (\<lambda>w.
       if bitLen (nat \<bar>int_at w 0\<bar>) > 24 then Malformed (OtherError ''ssh: exponent too large'')
       else
         let e = int_at w 0 in
         if e < 3 \<or> even e then Malformed (OtherError ''ssh: incorrect exponent'')
         else Parsed (rsaPublicKey e (int_at w 1), bytes_at w 2))"

definition dsaWire :: struct_type where
  "dsaWire = anonymous [(''P'', KBigInt), (''Q'', KBigInt), (''G'', KBigInt), (''Y'', KBigInt), (''Rest'', KRest)]"

definition parseDSA :: "bytes \<Rightarrow> (public_key \<times> bytes) parsed" where
  "parseDSA inp =
     bind_parsed (Unmarshal inp dsaWire) (\<lambda>w.
       Parsed (dsaPublicKey (int_at w 0) (int_at w 1) (int_at w 2) (int_at w 3), bytes_at w 4))"

definition curveOf :: "bytes \<Rightarrow> curve option" where
  "curveOf identifier =
     (if identifier = nistID P256 then Some P256
      else if identifier = nistID P384 then Some P384
      else if identifier = nistID P521 then Some P521
      else None)"

definition parseECDSA :: "crypto \<Rightarrow> bytes \<Rightarrow> (public_key \<times> bytes) parsed" where
  "parseECDSA cr inp =
     bind_parsed (getString ShortRead inp) (\<lambda>(identifier, inp1).
       (case curveOf identifier of
          None \<Rightarrow> Malformed (OtherError ''ssh: unsupported curve'')
        | Some c \<Rightarrow>
            bind_parsed (getString ShortRead inp1) (\<lambda>(keyBytes, inp2).
              (case ec_unmarshal cr c keyBytes of
                 None \<Rightarrow> Malformed (OtherError ''ssh: invalid curve point'')
               | Some (x, y) \<Rightarrow> Parsed (ecdsaPublicKey c x y, inp2)))))"

text \<open>The cases of \<open>parsePubKey\<close> that are not certificates. The error shows \<open>err\<close>, which is nil.\<close>

definition parsePlainKey :: "crypto \<Rightarrow> bytes \<Rightarrow> bytes \<Rightarrow> (public_key \<times> bytes) parsed" where
  "parsePlainKey cr inp algo =
     (if algo = KeyAlgoRSA then parseRSA inp
      else if algo = KeyAlgoDSA then parseDSA inp
      else if algo \<in> {KeyAlgoECDSA256, KeyAlgoECDSA384, KeyAlgoECDSA521} then parseECDSA cr inp
      else Malformed (OtherError ''ssh: unknown key algorithm: <nil>''))"

subsection \<open>Certificates\<close>

definition parseSignatureBody :: "bytes \<Rightarrow> panic + (signature \<times> bytes) option" where
  "parseSignatureBody inp =
     (case parseString inp of
        Inl c \<Rightarrow> Inl c
      | Inr None \<Rightarrow> Inr None
      | Inr (Some (format, inp1)) \<Rightarrow>
          (case parseString inp1 of
             Inl c \<Rightarrow> Inl c
           | Inr None \<Rightarrow> Inr None
           | Inr (Some (blob, inp2)) \<Rightarrow> Inr (Some (\<lparr>sig_Format = format, sig_Blob = blob\<rparr>, inp2))))"

definition parseSignature :: "bytes \<Rightarrow> panic + (signature \<times> bytes) option" where
  "parseSignature inp =
     (case parseString inp of
        Inl c \<Rightarrow> Inl c
      | Inr None \<Rightarrow> Inr None
      | Inr (Some (sigBytes, rest)) \<Rightarrow>
          (case parseSignatureBody sigBytes of
             Inl c \<Rightarrow> Inl c
           | Inr None \<Rightarrow> Inr None
           | Inr (Some (out, trailing)) \<Rightarrow> if trailing \<noteq> [] then Inr None else Inr (Some (out, rest))))"

lemma parseString_length:
  "parseString inp = Inr (Some (s, rest)) \<Longrightarrow> 4 + length s + length rest = length inp"
  by (auto simp: parseString_def Let_def substr_def split: if_splits)

lemma getString_length: "getString e inp = Parsed (s, rest) \<Longrightarrow> 4 + length s + length rest = length inp"
  using parseString_length by (auto simp: getString_def split: sum.splits option.splits)

text \<open>The loop over the principals, and \<open>parseTuples\<close> with the key before; a key that comes again
  would overwrite its entry, but the order forbids it.\<close>

function parsePrincipals :: "bytes \<Rightarrow> bytes list parsed" where
  "parsePrincipals principals =
     (if principals = [] then Parsed []
      else bind_parsed (getString ShortRead principals) (\<lambda>(principal, rest).
             bind_parsed (parsePrincipals rest) (\<lambda>ps. Parsed (principal # ps))))"
  by pat_completeness auto
termination
  by (relation "measure length") (auto dest: getString_length)

function parseTuples :: "bytes option \<Rightarrow> bytes \<Rightarrow> tuples parsed" where
  "parseTuples lastKey inp =
     (if inp = [] then Parsed []
      else bind_parsed (getString ShortRead inp) (\<lambda>(name, rest).
             bind_parsed (getString ShortRead rest) (\<lambda>(val, rest').
               if (case lastKey of None \<Rightarrow> False | Some k \<Rightarrow> name \<le> k)
               then Malformed (OtherError ''ssh: certificate options are not in lexical order'')
               else bind_parsed (parseTuples (Some name) rest') (\<lambda>ts. Parsed ((name, val) # ts)))))"
  by pat_completeness auto
termination
  by (relation "measure (length \<circ> snd)") (auto dest!: getString_length)

declare parsePrincipals.simps [simp del] parseTuples.simps [simp del]

definition genericCertData :: struct_type where
  "genericCertData = \<lparr>st_name = ''genericCertData'', st_tag = None, st_fields =
     [(''Serial'', KUint64), (''CertType'', KUint32), (''KeyId'', KString), (''ValidPrincipals'', KBytes),
      (''ValidAfter'', KUint64), (''ValidBefore'', KUint64), (''CriticalOptions'', KBytes), (''Extensions'', KBytes),
      (''Reserved'', KBytes), (''SignatureKey'', KBytes), (''Signature'', KBytes)]\<rparr>"

text \<open>\<open>parseCert\<close> up to the signature key: the data, the key and what is left to parse.\<close>

definition parseCertData :: "crypto \<Rightarrow> bytes \<Rightarrow> bytes \<Rightarrow> (cert_data \<times> public_key \<times> bytes \<times> bytes) parsed" where
  "parseCertData cr inp privAlgo =
     bind_parsed (getString ShortRead inp) (\<lambda>(nonce, rest).
     bind_parsed (parsePlainKey cr rest privAlgo) (\<lambda>(key, rest').
     bind_parsed (Unmarshal rest' genericCertData) (\<lambda>g.
     bind_parsed (parsePrincipals (bytes_at g 3)) (\<lambda>principals.
     bind_parsed (parseTuples None (bytes_at g 6)) (\<lambda>critical.
     bind_parsed (parseTuples None (bytes_at g 7)) (\<lambda>extensions.
       Parsed (\<lparr>Nonce = nonce, Serial = u64_at g 0, CertType = u32_at g 1, KeyId = bytes_at g 2,
         ValidPrincipals = principals, ValidAfter = u64_at g 4, ValidBefore = u64_at g 5,
         CriticalOptions = critical, Extensions = extensions, Reserved = bytes_at g 8\<rparr>,
         key, bytes_at g 9, bytes_at g 10)))))))"

text \<open>A parsed byte string is no longer than what it was parsed from.\<close>

lemma parseNameList_length: "parseNameList inp = Inr (Some (ns, rest)) \<Longrightarrow> length rest \<le> length inp"
  by (auto simp: parseNameList_def dest!: parseString_length split: sum.splits option.splits)

lemma parseInt_length: "parseInt inp = Inr (Some (n, rest)) \<Longrightarrow> length rest \<le> length inp"
  by (auto simp: parseInt_def Let_def dest!: parseString_length split: sum.splits option.splits)

lemma unmarshalField_length:
  assumes "unmarshalField t (f, k) inp = Parsed (v, rest)"
  shows "length rest \<le> length inp \<and> (\<forall>b. v = VBytes b \<longrightarrow> length b \<le> length inp)"
  using assms
  by (cases k) (auto simp: from_optional_def parseUint32_def parseUint64_def
    dest!: parseString_length parseNameList_length parseInt_length split: sum.splits option.splits if_splits)

lemma unmarshalFields_length:
  assumes "unmarshalFields t fs inp = Parsed vs" "i < length vs"
  shows "length (bytes_at vs i) \<le> length inp"
  using assms
proof (induction t fs inp arbitrary: vs i rule: unmarshalFields.induct)
  case (2 t f fs inp)
  obtain x k where f: "f = (x, k)" by (cases f)
  from "2.prems"(1) obtain v rest vs' where p: "unmarshalField t f inp = Parsed (v, rest)"
    "unmarshalFields t fs rest = Parsed vs'" "vs = v # vs'" by (auto split: parsed.splits)
  have v: "length rest \<le> length inp" "v = VBytes b \<Longrightarrow> length b \<le> length inp" for b
    using unmarshalField_length [of t x k inp v rest] p(1) f by auto
  show ?case
  proof (cases i)
    case 0
    then show ?thesis using v(2) p(3) by (cases v) (auto simp: bytes_at_def)
  next
    case (Suc j)
    then have "length (bytes_at vs' j) \<le> length rest" using "2.IH" p "2.prems"(2) by simp
    then show ?thesis using Suc v(1) p(3) by (simp add: bytes_at_def)
  qed
qed (auto split: if_splits)

lemma unmarshalFields_count: "unmarshalFields t fs inp = Parsed vs \<Longrightarrow> length vs = length fs"
  by (induction t fs inp arbitrary: vs rule: unmarshalFields.induct) (auto split: parsed.splits if_splits)

lemma Unmarshal_length:
  assumes "Unmarshal inp t = Parsed vs" "st_tag t = None" "i < length (st_fields t)"
  shows "length (bytes_at vs i) \<le> length inp"
proof -
  have "unmarshalFields t (st_fields t) inp = Parsed vs"
    using assms by (simp add: Unmarshal_def typeTag_def Let_def split: if_splits)
  then show ?thesis using unmarshalFields_length unmarshalFields_count assms(3) by metis
qed

lemma parsePlainKey_length: "parsePlainKey cr inp algo = Parsed (k, rest) \<Longrightarrow> length rest \<le> length inp"
  by (auto simp: parsePlainKey_def parseRSA_def parseDSA_def parseECDSA_def bind_parsed_Parsed Let_def rsaWire_def dsaWire_def
    anonymous_def split: if_splits option.splits prod.splits dest!: getString_length intro: Unmarshal_length)

lemma parseCertData_length:
  assumes "parseCertData cr inp privAlgo = Parsed (d, k, sk, sig)"
  shows "length sk < length inp"
proof -
  obtain nonce rest rest' g where "getString ShortRead inp = Parsed (nonce, rest)"
    "parsePlainKey cr rest privAlgo = Parsed (k, rest')" "Unmarshal rest' genericCertData = Parsed g" "sk = bytes_at g 9"
    using assms by (auto simp: parseCertData_def bind_parsed_Parsed)
  then show ?thesis using getString_length parsePlainKey_length Unmarshal_length [of rest' genericCertData g 9]
    by (fastforce simp: genericCertData_def)
qed

subsection \<open>Public keys\<close>

text \<open>\<open>ParsePublicKey\<close>, \<open>parsePubKey\<close> and \<open>parseCert\<close>. A certificate holds the key it was signed with, and that may
  be a certificate again. Its own key is one of the plain keys, since \<open>certToPrivAlgo\<close> gives one of their names.\<close>

function ParsePublicKey :: "crypto \<Rightarrow> bytes \<Rightarrow> public_key parsed"
  and parsePubKey :: "crypto \<Rightarrow> bytes \<Rightarrow> bytes \<Rightarrow> (public_key \<times> bytes) parsed"
  and parseCert :: "crypto \<Rightarrow> bytes \<Rightarrow> bytes \<Rightarrow> public_key parsed" where
  "ParsePublicKey cr inp =
     bind_parsed (getString ShortRead inp) (\<lambda>(algo, inp1).
     bind_parsed (parsePubKey cr inp1 algo) (\<lambda>(out, rest).
       if rest \<noteq> [] then Malformed (OtherError ''ssh: trailing junk in public key'') else Parsed out))"
| "parsePubKey cr inp algo =
     (case certToPrivAlgo algo of
        None \<Rightarrow> parsePlainKey cr inp algo
      | Some privAlgo \<Rightarrow> bind_parsed (parseCert cr inp privAlgo) (\<lambda>cert. Parsed (cert, [])))"
| "parseCert cr inp privAlgo =
     bind_parsed (parseCertData cr inp privAlgo) (\<lambda>(d, key, sigKey, sigBytes).
     bind_parsed (ParsePublicKey cr sigKey) (\<lambda>k.
       (case parseSignatureBody sigBytes of
          Inl c \<Rightarrow> Crash c
        | Inr None \<Rightarrow> Malformed (OtherError ''ssh: signature parse error'')
        | Inr (Some (sig, rest)) \<Rightarrow>
            if rest \<noteq> [] then Malformed (OtherError ''ssh: signature parse error'')
            else Parsed (Certificate d key k (Some sig)))))"
  by pat_completeness auto
termination
  by (relation "measure (\<lambda>x. case x of Inl (cr, inp) \<Rightarrow> 3 * length inp
      | Inr (Inl (cr, inp, algo)) \<Rightarrow> 3 * length inp + 2 | Inr (Inr (cr, inp, algo)) \<Rightarrow> 3 * length inp + 1)")
    (auto dest!: getString_length parseCertData_length)

declare ParsePublicKey.simps [simp del] parsePubKey.simps [simp del] parseCert.simps [simp del]

section \<open>Marshalling\<close>

definition marshal_anonymous :: "(string \<times> kind) list \<Rightarrow> fval list \<Rightarrow> panic + bytes" where
  "marshal_anonymous fs vs = Marshal (anonymous fs) vs"

fun marshalStringList :: "bytes list \<Rightarrow> panic + bytes" where
  "marshalStringList [] = Inr []"
| "marshalStringList (n # ns) =
     (case Marshal (anonymous [(''N'', KString)]) [VBytes n] of
        Inl e \<Rightarrow> Inl e
      | Inr b \<Rightarrow> map_sum id (\<lambda>bs. b @ bs) (marshalStringList ns))"

text \<open>The loop of \<open>marshalTuples\<close>, over the sorted keys.\<close>

fun marshalTupleList :: "tuples \<Rightarrow> panic + bytes" where
  "marshalTupleList [] = Inr []"
| "marshalTupleList ((k, v) # ts) =
     (case Marshal (anonymous [(''K'', KString), (''V'', KString)]) [VBytes k, VBytes v] of
        Inl e \<Rightarrow> Inl e
      | Inr b \<Rightarrow> map_sum id (\<lambda>bs. b @ bs) (marshalTupleList ts))"

definition marshalTuples :: "tuples \<Rightarrow> panic + bytes" where
  "marshalTuples tups = marshalTupleList (sort_key fst tups)"

text \<open>Errors of a panicking part are those of the whole.\<close>

primrec bind_sum :: "'e + 'a \<Rightarrow> ('a \<Rightarrow> 'e + 'b) \<Rightarrow> 'e + 'b" where
  "bind_sum (Inl e) f = Inl e"
| "bind_sum (Inr x) f = f x"

lemma bind_sum_Inr: "bind_sum x f = Inr y \<longleftrightarrow> (\<exists>z. x = Inr z \<and> f z = Inr y)"
  by (cases x) simp_all

definition marshalSignature :: "signature \<Rightarrow> panic + bytes" where
  "marshalSignature sig =
     Marshal \<lparr>st_name = ''Signature'', st_tag = None, st_fields = [(''Format'', KString), (''Blob'', KBytes)]\<rparr>
       [VBytes (sig_Format sig), VBytes (sig_Blob sig)]"

text \<open>The last lines of \<open>Certificate.Marshal\<close>, from the parts that are marshalled on their own. An error of
  \<open>parseString\<close> is not looked at; it leaves no bytes.\<close>

definition marshalCert :: "bytes \<Rightarrow> cert_data \<Rightarrow> bytes \<Rightarrow> bytes \<Rightarrow> bytes \<Rightarrow> panic + bytes" where
  "marshalCert ty d keyBytes sigKey sigBytes =
     bind_sum (marshalStringList (ValidPrincipals d)) (\<lambda>principals.
     bind_sum (marshalTuples (CriticalOptions d)) (\<lambda>critical.
     bind_sum (marshalTuples (Extensions d)) (\<lambda>extensions.
     bind_sum (Marshal genericCertData [VU64 (Serial d), VU32 (CertType d), VBytes (KeyId d), VBytes principals,
       VU64 (ValidAfter d), VU64 (ValidBefore d), VBytes critical, VBytes extensions, VBytes (Reserved d),
       VBytes sigKey, VBytes sigBytes]) (\<lambda>genericBytes.
     bind_sum (parseString keyBytes) (\<lambda>r.
       let keyRest = (case r of None \<Rightarrow> [] | Some (_, rest) \<Rightarrow> rest) in
     bind_sum (marshal_anonymous [(''Name'', KString), (''Nonce'', KBytes), (''Key'', KRest)]
       [VBytes ty, VBytes (Nonce d), VBytes keyRest]) (\<lambda>prefix.
       Inr (prefix @ genericBytes)))))))"

definition rsaMarshal :: "int \<Rightarrow> int \<Rightarrow> panic + bytes" where
  "rsaMarshal e n =
     marshal_anonymous [(''Name'', KString), (''E'', KBigInt), (''N'', KBigInt)] [VBytes KeyAlgoRSA, VInt e, VInt n]"

definition dsaMarshal :: "int \<Rightarrow> int \<Rightarrow> int \<Rightarrow> int \<Rightarrow> panic + bytes" where
  "dsaMarshal p q g y =
     marshal_anonymous [(''Name'', KString), (''P'', KBigInt), (''Q'', KBigInt), (''G'', KBigInt), (''Y'', KBigInt)]
       [VBytes KeyAlgoDSA, VInt p, VInt q, VInt g, VInt y]"

definition ecdsaMarshal :: "crypto \<Rightarrow> curve \<Rightarrow> int \<Rightarrow> int \<Rightarrow> panic + bytes" where
  "ecdsaMarshal cr c x y =
     marshal_anonymous [(''Name'', KString), (''ID'', KString), (''Key'', KBytes)]
       [VBytes (bytes_of ''ecdsa-sha2-'' @ nistID c), VBytes (nistID c), VBytes (ec_marshal cr c x y)]"

declare rsaMarshal_def [simp] dsaMarshal_def [simp] ecdsaMarshal_def [simp]

primrec MarshalKey :: "crypto \<Rightarrow> public_key \<Rightarrow> panic + bytes" where
  "MarshalKey cr (rsaPublicKey e n) = rsaMarshal e n"
| "MarshalKey cr (dsaPublicKey p q g y) = dsaMarshal p q g y"
| "MarshalKey cr (ecdsaPublicKey c x y) = ecdsaMarshal cr c x y"
| "MarshalKey cr (Certificate d k sk sig) =
     bind_sum (MarshalKey cr sk) (\<lambda>sigKey.
     bind_sum (case sig of None \<Rightarrow> Inr [] | Some s \<Rightarrow> marshalSignature s) (\<lambda>sigBytes.
     bind_sum (MarshalKey cr k) (\<lambda>keyBytes.
     bind_sum (KeyType (Certificate d k sk sig)) (\<lambda>ty.
       marshalCert ty d keyBytes sigKey sigBytes))))"

text \<open>\<open>bytesForSigning\<close>: the certificate without its signature, and without the length of the empty one.\<close>

definition bytesForSigning :: "crypto \<Rightarrow> cert_data \<Rightarrow> public_key \<Rightarrow> public_key \<Rightarrow> panic + bytes" where
  "bytesForSigning cr d k sk = map_sum id (\<lambda>out. take (length out - 4) out) (MarshalKey cr (Certificate d k sk None))"

section \<open>Verifying\<close>

datatype verify_error = WrongFormat | DSAParse | BadSignature wire_error | NotVerified

text \<open>\<open>Verify\<close> of a key; \<^const>\<open>None\<close> is the nil error. The digest of an ECDSA key depends on its curve.\<close>

definition wrongFormat :: "public_key \<Rightarrow> signature \<Rightarrow> bool" where
  "wrongFormat k sig \<longleftrightarrow> KeyType k \<noteq> Inr (sig_Format sig)"

definition rsaVerify :: "crypto \<Rightarrow> int \<Rightarrow> int \<Rightarrow> bytes \<Rightarrow> signature \<Rightarrow> verify_error option" where
  "rsaVerify cr e n msg sig =
     (if wrongFormat (rsaPublicKey e n) sig then Some WrongFormat
      else if rsa_verify cr e n (sha1 cr msg) (sig_Blob sig) then None else Some NotVerified)"

definition dsaVerify :: "crypto \<Rightarrow> int \<Rightarrow> int \<Rightarrow> int \<Rightarrow> int \<Rightarrow> bytes \<Rightarrow> signature \<Rightarrow> verify_error option" where
  "dsaVerify cr p q g y msg sig =
     (if wrongFormat (dsaPublicKey p q g y) sig then Some WrongFormat
      else if length (sig_Blob sig) \<noteq> 40 then Some DSAParse
      else if dsa_verify cr (p, q, g, y) (sha1 cr msg) (bigNat (take 20 (sig_Blob sig))) (bigNat (drop 20 (sig_Blob sig)))
      then None else Some NotVerified)"

definition ecdsaVerify :: "crypto \<Rightarrow> curve \<Rightarrow> int \<Rightarrow> int \<Rightarrow> bytes \<Rightarrow> signature \<Rightarrow> panic + verify_error option" where
  "ecdsaVerify cr c x y msg sig =
     (if wrongFormat (ecdsaPublicKey c x y) sig then Inr (Some WrongFormat)
      else
        (case Unmarshal (sig_Blob sig) (anonymous [(''R'', KBigInt), (''S'', KBigInt)]) of
           Crash e \<Rightarrow> Inl e
         | Malformed e \<Rightarrow> Inr (Some (BadSignature e))
         | Parsed vs \<Rightarrow>
             Inr (if ecdsa_verify cr c x y (ec_hash cr c msg) (int_at vs 0) (int_at vs 1) then None else Some NotVerified)))"

primrec VerifyKey :: "crypto \<Rightarrow> public_key \<Rightarrow> bytes \<Rightarrow> signature \<Rightarrow> panic + verify_error option" where
  "VerifyKey cr (rsaPublicKey e n) msg sig = Inr (rsaVerify cr e n msg sig)"
| "VerifyKey cr (dsaPublicKey p q g y) msg sig = Inr (dsaVerify cr p q g y msg sig)"
| "VerifyKey cr (ecdsaPublicKey c x y) msg sig = ecdsaVerify cr c x y msg sig"
| "VerifyKey cr (Certificate d k sk s) msg sig = VerifyKey cr k msg sig"

section \<open>Checking certificates\<close>

definition UserCert :: "32 word" where "UserCert = 1"
definition HostCert :: "32 word" where "HostCert = 2"
definition CertTimeInfinity :: "64 word" where "CertTimeInfinity = 0xFFFFFFFFFFFFFFFF"
definition sourceAddressCriticalOption :: bytes where "sourceAddressCriticalOption = bytes_of ''source-address''"

record permissions =
  p_CriticalOptions :: tuples
  p_Extensions :: tuples

text \<open>The callbacks of a \<open>CertChecker\<close> that the code calls; nil is \<^const>\<open>None\<close>.\<close>

record 'x CertChecker =
  SupportedCriticalOptions :: "bytes list"
  IsAuthority :: "public_key \<Rightarrow> bool"
  UserKeyFallback :: "(public_key \<Rightarrow> 'x + permissions option) option"
  HostKeyFallback :: "(bytes \<Rightarrow> public_key \<Rightarrow> 'x option) option"
  IsRevoked :: "(public_key \<Rightarrow> bool) option"

datatype 'x cert_error =
    Revoked | UnsupportedOption | WrongPrincipal | UnknownAuthority | NotYetValid | Expired | BadCertSignature
  | WrongCertType | NotACertificate | FallbackError 'x

text \<open>Times are compared as signed 64-bit numbers; \<open>now\<close> is \<open>clock().Unix()\<close>.\<close>

definition notYetValid :: "int \<Rightarrow> 64 word \<Rightarrow> bool" where
  "notYetValid now validAfter \<longleftrightarrow> sint validAfter < 0 \<or> now < sint validAfter"

definition hasExpired :: "int \<Rightarrow> 64 word \<Rightarrow> bool" where
  "hasExpired now validBefore \<longleftrightarrow>
     validBefore \<noteq> CertTimeInfinity \<and> (now \<ge> sint validBefore \<or> sint validBefore < 0)"

definition CheckCert :: "crypto \<Rightarrow> 'x CertChecker \<Rightarrow> int \<Rightarrow> bytes \<Rightarrow> cert_data \<Rightarrow> public_key \<Rightarrow> public_key \<Rightarrow>
    signature option \<Rightarrow> panic + 'x cert_error option" where
  "CheckCert cr c now name d k sk sig =
     (if (case IsRevoked c of None \<Rightarrow> False | Some f \<Rightarrow> f (Certificate d k sk sig)) then Inr (Some Revoked)
      else if \<exists>opt \<in> set (map fst (CriticalOptions d)). opt \<noteq> sourceAddressCriticalOption \<and> opt \<notin> set (SupportedCriticalOptions c)
      then Inr (Some UnsupportedOption)
      else if ValidPrincipals d \<noteq> [] \<and> name \<notin> set (ValidPrincipals d) then Inr (Some WrongPrincipal)
      else if \<not> IsAuthority c sk then Inr (Some UnknownAuthority)
      else if notYetValid now (ValidAfter d) then Inr (Some NotYetValid)
      else if hasExpired now (ValidBefore d) then Inr (Some Expired)
      else
        bind_sum (bytesForSigning cr d k sk) (\<lambda>bs.
          (case sig of
             None \<Rightarrow> Inl NilDereference
           | Some s \<Rightarrow> bind_sum (VerifyKey cr sk bs s) (\<lambda>r. Inr (if r = None then None else Some BadCertSignature)))))"

definition CheckHostKey :: "crypto \<Rightarrow> 'x CertChecker \<Rightarrow> int \<Rightarrow> bytes \<Rightarrow> public_key \<Rightarrow> panic + 'x cert_error option" where
  "CheckHostKey cr c now addr key =
     (case key of
        Certificate d k sk sig \<Rightarrow>
          if CertType d \<noteq> HostCert then Inr (Some WrongCertType) else CheckCert cr c now addr d k sk sig
      | _ \<Rightarrow>
          (case HostKeyFallback c of
             None \<Rightarrow> Inr (Some NotACertificate)
           | Some f \<Rightarrow> Inr (map_option FallbackError (f addr key))))"

definition Authenticate :: "crypto \<Rightarrow> 'x CertChecker \<Rightarrow> int \<Rightarrow> bytes \<Rightarrow> public_key \<Rightarrow>
    panic + ('x cert_error + permissions option)" where
  "Authenticate cr c now user key =
     (case key of
        Certificate d k sk sig \<Rightarrow>
          if CertType d \<noteq> UserCert then Inr (Inl WrongCertType)
          else
            bind_sum (CheckCert cr c now user d k sk sig) (\<lambda>r.
              Inr (case r of
                     Some e \<Rightarrow> Inl e
                   | None \<Rightarrow> Inr (Some \<lparr>p_CriticalOptions = CriticalOptions d, p_Extensions = Extensions d\<rparr>)))
      | _ \<Rightarrow>
          (case UserKeyFallback c of
             None \<Rightarrow> Inr (Inl NotACertificate)
           | Some f \<Rightarrow> Inr (map_sum FallbackError id (f key))))"

text \<open>\<open>SignCert\<close>: the random bytes that were read, if they could be read, and the signer of the authority. The
  fields that were set stay set when an error follows.\<close>

definition SignCert :: "crypto \<Rightarrow> bytes option \<Rightarrow> public_key \<Rightarrow> (bytes \<Rightarrow> signature option) \<Rightarrow> cert_data \<Rightarrow> public_key \<Rightarrow>
    public_key \<Rightarrow> signature option \<Rightarrow> panic + (public_key \<times> bool)" where
  "SignCert cr rnd authority sign d k sk sig =
     (case rnd of
        None \<Rightarrow> Inr (Certificate (d\<lparr>Nonce := replicate 32 0\<rparr>) k sk sig, False)
      | Some nonce \<Rightarrow>
          let d1 = d\<lparr>Nonce := nonce\<rparr> in
          bind_sum (bytesForSigning cr d1 k authority) (\<lambda>bs.
            (case sign bs of
               None \<Rightarrow> Inr (Certificate d1 k authority sig, False)
             | Some s \<Rightarrow> Inr (Certificate d1 k authority (Some s), True))))"

text \<open>\<open>NewCertSigner\<close> compares the keys by what they marshal to.\<close>

definition NewCertSigner :: "crypto \<Rightarrow> public_key \<Rightarrow> public_key \<Rightarrow> panic + bool" where
  "NewCertSigner cr certKey signerKey =
     bind_sum (MarshalKey cr certKey) (\<lambda>a. bind_sum (MarshalKey cr signerKey) (\<lambda>b. Inr (a = b)))"

section \<open>Marshalling and parsing again\<close>

definition intField :: "int \<Rightarrow> bytes" where
  "intField n = u32be (word_of_nat (length (intPad n @ intBytes n))) @ intPad n @ intBytes n"

lemma intField_ne [simp]: "intField n \<noteq> []"
  by (metis append_is_Nil_conv intField_def length_u32be list.size(3) zero_neq_numeral)

lemma writeString_ne [simp]: "writeString s \<noteq> []"
  by (metis append_is_Nil_conv writeString_def length_u32be list.size(3) zero_neq_numeral)

lemma length_writeString [simp]: "length (writeString s) = 4 + length s"
  by (simp add: writeString_def)

lemma parseInt_intField:
  "length (intField n @ rest) < 2 ^ 32 \<Longrightarrow> parseInt (intField n @ rest) = Inr (Some (n, rest))"
  using parseInt_append [of n rest] by (simp add: intField_def)

lemma getString_writeString:
  "length (writeString s @ rest) < 2 ^ 32 \<Longrightarrow> getString e (writeString s @ rest) = Parsed (s, rest)"
  by (simp add: getString_def writeString_def)

lemma parseString_writeString:
  "length (writeString s @ rest) < 2 ^ 32 \<Longrightarrow> parseString (writeString s @ rest) = Inr (Some (s, rest))"
  by (simp add: writeString_def)

lemmas marshal_simps = marshal_anonymous_def anonymous_def Marshal_def marshalStruct_def typeTag_def marshalField_def
  appendInt_def appendU32_def appendU64_def writeInt_eq

lemma marshal_string_field: "marshalField i out KString (VBytes s) = Inr (out @ writeString s)"
  "marshalField i out KBytes (VBytes s) = Inr (out @ writeString s)"
  by (simp_all add: marshalField_def appendInt_def appendU32_def writeString_def)

lemma marshal_int_field: "marshalField i out KBigInt (VInt n) = Inr (out @ intField n)"
  by (simp add: marshalField_def writeInt_eq intField_def)

lemma marshal_rest_field: "marshalField i out KRest (VBytes s) = Inr (out @ s)"
  by (simp add: marshalField_def)

lemma marshal_word_field: "marshalField i out KUint64 (VU64 w) = Inr (out @ u64be w)"
  "marshalField i out KUint32 (VU32 u) = Inr (out @ u32be u)"
  by (simp_all add: marshalField_def appendU64_def appendU32_def)

lemmas marshal_fields = marshal_word_field marshal_string_field marshal_int_field marshal_rest_field

lemma marshal_anonymous_eq: "marshal_anonymous fs vs = marshalFields 0 [] (map snd fs) vs"
  by (simp add: marshal_anonymous_def anonymous_def Marshal_def marshalStruct_def typeTag_def)

primrec plain :: "public_key \<Rightarrow> bool" where
  "plain (rsaPublicKey e n) = True"
| "plain (dsaPublicKey p q g y) = True"
| "plain (ecdsaPublicKey c x y) = True"
| "plain (Certificate d k sk sig) = False"

text \<open>The keys that can be parsed: an exponent in range, a point of the curve, sorted options, a signature, and
  a certified key whose length fits into 32 bits.\<close>

primrec key_ok :: "crypto \<Rightarrow> public_key \<Rightarrow> bool" where
  "key_ok cr (rsaPublicKey e n) \<longleftrightarrow> 3 \<le> e \<and> e < 2 ^ 24 \<and> odd e"
| "key_ok cr (dsaPublicKey p q g y) \<longleftrightarrow> True"
| "key_ok cr (ecdsaPublicKey c x y) \<longleftrightarrow> ec_unmarshal cr c (ec_marshal cr c x y) = Some (x, y)"
| "key_ok cr (Certificate d k sk sig) \<longleftrightarrow> plain k \<and> key_ok cr k \<and>
     (case MarshalKey cr k of Inl e \<Rightarrow> False | Inr b \<Rightarrow> length b < 2 ^ 32) \<and> key_ok cr sk \<and> sig \<noteq> None \<and>
     sorted_wrt (<) (map fst (CriticalOptions d)) \<and> sorted_wrt (<) (map fst (Extensions d))"

lemma nistID_simps: "nistID c = nistID c' \<longleftrightarrow> c = c'"
  by (cases c; cases c') (simp_all add: bytes_of_def)

lemma curveOf_nistID [simp]: "curveOf (nistID c) = Some c"
  by (cases c) (simp_all add: curveOf_def nistID_simps del: nistID.simps)

lemma bytes_of_inject: "bytes_of s = bytes_of t \<longleftrightarrow> s = t"
proof -
  have "inj (\<lambda>c. word_of_nat (of_char c) :: 8 word)"
  proof (rule injI)
    fix c d :: char assume "(word_of_nat (of_char c) :: 8 word) = word_of_nat (of_char d)"
    then show "c = d" by (simp add: word_of_nat_eq_iff take_bit_nat_eq_self of_char_eq_iff)
  qed
  then show ?thesis by (simp add: bytes_of_def)
qed

lemma plain_roundtrip:
  assumes "plain k" "key_ok cr k"
  obtains t cn body where "KeyType k = Inr t" "map_of certAlgoNames t = Some cn" "certToPrivAlgo cn = Some t"
    "certToPrivAlgo t = None" "MarshalKey cr k = Inr (writeString t @ body)"
    "\<And>rest. length (body @ rest) < 2 ^ 32 \<Longrightarrow> parsePlainKey cr (body @ rest) t = Parsed (k, rest)"
proof (cases k)
  case (rsaPublicKey e n)
  have e: "3 \<le> e" "e < 2 ^ 24" "odd e" using assms(2) rsaPublicKey by simp_all
  have "\<not> bitLen (nat \<bar>e\<bar>) > 24" using e by (simp add: bitLen_le not_less nat_less_iff)
  then have "parsePlainKey cr ((intField e @ intField n) @ rest) KeyAlgoRSA = Parsed (k, rest)"
    if "length ((intField e @ intField n) @ rest) < 2 ^ 32" for rest
    using that e parseInt_intField [of e "intField n @ rest"] parseInt_intField [of n rest] rsaPublicKey
    by (simp add: parsePlainKey_def parseRSA_def Unmarshal_def typeTag_def rsaWire_def anonymous_def from_optional_def
      int_at_def bytes_at_def)
  moreover have "MarshalKey cr k = Inr (writeString KeyAlgoRSA @ intField e @ intField n)"
    by (simp add: rsaPublicKey marshal_anonymous_eq marshal_fields)
  moreover have "KeyType k = Inr KeyAlgoRSA" by (simp add: rsaPublicKey)
  ultimately show ?thesis
    by (intro that [of KeyAlgoRSA CertAlgoRSAv01 "intField e @ intField n"])
      (simp_all add: certToPrivAlgo_def certAlgoNames_def algo_defs bytes_of_inject)
next
  case (dsaPublicKey p q g y)
  let ?b = "intField p @ intField q @ intField g @ intField y"
  have "parsePlainKey cr (?b @ rest) KeyAlgoDSA = Parsed (k, rest)" if "length (?b @ rest) < 2 ^ 32" for rest
    using that parseInt_intField [of p "intField q @ intField g @ intField y @ rest"]
      parseInt_intField [of q "intField g @ intField y @ rest"] parseInt_intField [of g "intField y @ rest"]
      parseInt_intField [of y rest] dsaPublicKey
    by (simp add: parsePlainKey_def parseDSA_def Unmarshal_def typeTag_def dsaWire_def anonymous_def from_optional_def
      int_at_def bytes_at_def algo_defs bytes_of_inject)
  moreover have "MarshalKey cr k = Inr (writeString KeyAlgoDSA @ ?b)"
    by (simp add: dsaPublicKey marshal_anonymous_eq marshal_fields)
  moreover have "KeyType k = Inr KeyAlgoDSA" by (simp add: dsaPublicKey)
  ultimately show ?thesis
    by (intro that [of KeyAlgoDSA CertAlgoDSAv01 ?b])
      (simp_all add: certToPrivAlgo_def certAlgoNames_def algo_defs bytes_of_inject)
next
  case (ecdsaPublicKey c x y)
  define t where "t = bytes_of ''ecdsa-sha2-'' @ nistID c"
  have t: "t = (case c of P256 \<Rightarrow> KeyAlgoECDSA256 | P384 \<Rightarrow> KeyAlgoECDSA384 | P521 \<Rightarrow> KeyAlgoECDSA521)"
    by (cases c) (simp_all add: t_def algo_defs bytes_of_def)
  let ?b = "writeString (nistID c) @ writeString (ec_marshal cr c x y)"
  have pt: "ec_unmarshal cr c (ec_marshal cr c x y) = Some (x, y)" using assms(2) ecdsaPublicKey by simp
  have "parseECDSA cr (?b @ rest) = Parsed (k, rest)" if "length (?b @ rest) < 2 ^ 32" for rest
    using that getString_writeString [of "nistID c" "writeString (ec_marshal cr c x y) @ rest" ShortRead]
      getString_writeString [of "ec_marshal cr c x y" rest ShortRead] ecdsaPublicKey pt
    by (simp add: parseECDSA_def)
  moreover have "parsePlainKey cr inp t = parseECDSA cr inp" for inp
    by (cases c) (simp_all add: t parsePlainKey_def algo_defs bytes_of_inject)
  moreover have "MarshalKey cr k = Inr (writeString t @ ?b)"
    by (simp add: ecdsaPublicKey marshal_anonymous_eq marshal_fields t_def)
  moreover have "KeyType k = Inr t" by (simp add: ecdsaPublicKey t_def)
  moreover have "\<exists>cn. map_of certAlgoNames t = Some cn \<and> certToPrivAlgo cn = Some t" "certToPrivAlgo t = None"
    by (cases c; simp add: t certToPrivAlgo_def certAlgoNames_def algo_defs bytes_of_inject)+
  ultimately show ?thesis using that by metis
qed (use assms in simp)

lemma plain_key_roundtrip:
  assumes "plain k" "key_ok cr k"
  shows "\<exists>b. MarshalKey cr k = Inr b \<and> (length b < 2 ^ 32 \<longrightarrow> ParsePublicKey cr b = Parsed k)"
proof -
  obtain t body where t: "certToPrivAlgo t = None" "MarshalKey cr k = Inr (writeString t @ body)"
    "\<And>rest. length (body @ rest) < 2 ^ 32 \<Longrightarrow> parsePlainKey cr (body @ rest) t = Parsed (k, rest)"
    by (rule plain_roundtrip [OF assms]) blast
  have "ParsePublicKey cr (writeString t @ body) = Parsed k" if "length (writeString t @ body) < 2 ^ 32"
    using getString_writeString [OF that] t(1) t(3) [of "[]"] that by (simp add: ParsePublicKey.simps parsePubKey.simps)
  then show ?thesis using t(2) by blast
qed

subsection \<open>Certificates\<close>

definition tupleBytes :: "bytes \<times> bytes \<Rightarrow> bytes" where
  "tupleBytes kv = writeString (fst kv) @ writeString (snd kv)"

lemma marshalStringList_eq: "marshalStringList ns = Inr (concat (map writeString ns))"
proof (induction ns)
  case (Cons n ns)
  have "Marshal (anonymous [(''N'', KString)]) [VBytes n] = Inr (writeString n)"
    using marshal_anonymous_eq [of "[(''N'', KString)]" "[VBytes n]"] by (simp add: marshal_anonymous_def marshal_fields)
  then show ?case using Cons by simp
qed simp

lemma marshalTupleList_eq: "marshalTupleList ts = Inr (concat (map tupleBytes ts))"
proof (induction ts rule: marshalTupleList.induct)
  case (2 k v ts)
  have "Marshal (anonymous [(''K'', KString), (''V'', KString)]) [VBytes k, VBytes v] = Inr (tupleBytes (k, v))"
    using marshal_anonymous_eq [of "[(''K'', KString), (''V'', KString)]" "[VBytes k, VBytes v]"]
    by (simp add: marshal_anonymous_def marshal_fields tupleBytes_def)
  then show ?case using 2 by simp
qed simp

lemma parsePrincipals_all: "length (concat (map writeString ns)) < 2 ^ 32 \<Longrightarrow> parsePrincipals (concat (map writeString ns)) = Parsed ns"
proof (induction ns)
  case (Cons n ns)
  then show ?case
    using getString_writeString [of n "concat (map writeString ns)" ShortRead] by (subst parsePrincipals.simps) simp
qed (simp add: parsePrincipals.simps)

lemma parseTuples_all:
  assumes "length (concat (map tupleBytes ts)) < 2 ^ 32" "sorted_wrt (<) (map fst ts)"
    "\<forall>k. before = Some k \<longrightarrow> (\<forall>t \<in> set ts. k < fst t)"
  shows "parseTuples before (concat (map tupleBytes ts)) = Parsed ts"
  using assms
proof (induction ts arbitrary: before)
  case (Cons t ts)
  obtain k v where t: "t = (k, v)" by (cases t)
  let ?r = "concat (map tupleBytes ts)"
  have tb: "tupleBytes (k, v) = writeString k @ writeString v" by (simp add: tupleBytes_def)
  have g: "getString ShortRead (writeString k @ writeString v @ ?r) = Parsed (k, writeString v @ ?r)"
    "getString ShortRead (writeString v @ ?r) = Parsed (v, ?r)"
    by (rule getString_writeString; use Cons.prems(1) tb t in simp)+
  have "parseTuples (Some k) ?r = Parsed ts"
    using Cons.prems t by (intro Cons.IH) auto
  moreover have "\<not> (case before of None \<Rightarrow> False | Some l \<Rightarrow> k \<le> l)"
    using Cons.prems(3) t by (auto split: option.splits)
  ultimately show ?case using g t by (subst parseTuples.simps) (simp add: tb)
qed (simp add: parseTuples.simps)

lemma sort_key_sorted: "sorted_wrt (<) (map fst ts) \<Longrightarrow> sort_key fst (ts :: tuples) = ts"
proof (induction ts)
  case (Cons t ts)
  then show ?case by (cases ts) auto
qed simp

lemma marshalTuples_eq: "sorted_wrt (<) (map fst ts) \<Longrightarrow> marshalTuples ts = Inr (concat (map tupleBytes ts))"
  by (simp add: marshalTuples_def sort_key_sorted marshalTupleList_eq)

lemma generic_inverse:
  obtains g where "Marshal genericCertData [VU64 a, VU32 b, VBytes c, VBytes d, VU64 e, VU64 f, VBytes g1, VBytes h, VBytes i,
       VBytes j, VBytes k] = Inr g"
    "length g < 2 ^ 32 \<Longrightarrow> Unmarshal g genericCertData =
       Parsed [VU64 a, VU32 b, VBytes c, VBytes d, VU64 e, VU64 f, VBytes g1, VBytes h, VBytes i, VBytes j, VBytes k]"
    "length d + length g1 + length h + length j + length k \<le> length g"
proof -
  let ?vs = "[VU64 a, VU32 b, VBytes c, VBytes d, VU64 e, VU64 f, VBytes g1, VBytes h, VBytes i, VBytes j, VBytes k]"
  obtain g where g: "Marshal genericCertData ?vs = Inr g"
    "g \<noteq> [] \<Longrightarrow> length g < 2 ^ 32 \<Longrightarrow> Unmarshal g genericCertData = Parsed ?vs"
    by (rule Marshal_untagged_inverse [of genericCertData ?vs])
      (simp_all add: values_ok_def genericCertData_def typed_def value_ok_def rest_last_def)
  have e: "g = u64be a @ u32be b @ writeString c @ writeString d @ u64be e @ u64be f @ writeString g1 @ writeString h @
      writeString i @ writeString j @ writeString k"
    using g(1) by (simp add: genericCertData_def Marshal_def marshalStruct_def typeTag_def marshal_fields)
  then have "g \<noteq> []" by simp
  then show ?thesis using that [OF g(1)] g(2) e by simp
qed

lemma parseSignatureBody_marshal:
  obtains b where "marshalSignature s = Inr b" "length b < 2 ^ 32 \<Longrightarrow> parseSignatureBody b = Inr (Some (s, []))"
proof -
  have "marshalSignature s = Inr (writeString (sig_Format s) @ writeString (sig_Blob s))"
    by (simp add: marshalSignature_def Marshal_def marshalStruct_def typeTag_def marshal_fields)
  moreover have "parseSignatureBody (writeString (sig_Format s) @ writeString (sig_Blob s)) = Inr (Some (s, []))"
    if "length (writeString (sig_Format s) @ writeString (sig_Blob s)) < 2 ^ 32"
    using that parseString_writeString [of "sig_Format s" "writeString (sig_Blob s)"]
      parseString_writeString [of "sig_Blob s" "[]"]
    by (simp add: parseSignatureBody_def)
  ultimately show ?thesis using that by blast
qed

lemma certificate_step:
  assumes ok: "key_ok cr (Certificate d k sk (Some s))"
    and sk: "MarshalKey cr sk = Inr skb" "length skb < 2 ^ 32 \<Longrightarrow> ParsePublicKey cr skb = Parsed sk"
  shows "\<exists>b. MarshalKey cr (Certificate d k sk (Some s)) = Inr b \<and>
    (length b < 2 ^ 32 \<longrightarrow> ParsePublicKey cr b = Parsed (Certificate d k sk (Some s)))"
proof -
  have k: "plain k" "key_ok cr k" "sorted_wrt (<) (map fst (CriticalOptions d))" "sorted_wrt (<) (map fst (Extensions d))"
    using ok by simp_all
  obtain t cn body where t: "KeyType k = Inr t" "map_of certAlgoNames t = Some cn" "certToPrivAlgo cn = Some t"
    "MarshalKey cr k = Inr (writeString t @ body)"
    "\<And>rest. length (body @ rest) < 2 ^ 32 \<Longrightarrow> parsePlainKey cr (body @ rest) t = Parsed (k, rest)"
    by (rule plain_roundtrip [OF k(1,2)]) blast
  obtain sb where sb: "marshalSignature s = Inr sb" "length sb < 2 ^ 32 \<Longrightarrow> parseSignatureBody sb = Inr (Some (s, []))"
    by (rule parseSignatureBody_marshal [of s]) blast
  let ?ps = "concat (map writeString (ValidPrincipals d))" and ?cs = "concat (map tupleBytes (CriticalOptions d))"
    and ?es = "concat (map tupleBytes (Extensions d))"
  obtain g where g: "Marshal genericCertData [VU64 (Serial d), VU32 (CertType d), VBytes (KeyId d), VBytes ?ps,
      VU64 (ValidAfter d), VU64 (ValidBefore d), VBytes ?cs, VBytes ?es, VBytes (Reserved d), VBytes skb, VBytes sb] = Inr g"
    "length g < 2 ^ 32 \<Longrightarrow> Unmarshal g genericCertData = Parsed [VU64 (Serial d), VU32 (CertType d), VBytes (KeyId d), VBytes ?ps,
      VU64 (ValidAfter d), VU64 (ValidBefore d), VBytes ?cs, VBytes ?es, VBytes (Reserved d), VBytes skb, VBytes sb]"
    "length ?ps + length ?cs + length ?es + length skb + length sb \<le> length g"
    by (rule generic_inverse [of "Serial d" "CertType d" "KeyId d" ?ps "ValidAfter d" "ValidBefore d" ?cs ?es "Reserved d" skb sb]) blast
  have fits: "length (writeString t @ body) < 2 ^ 32" using ok t(4) by simp
    let ?b = "writeString cn @ writeString (Nonce d) @ body @ g"
    have "parseString (writeString t @ body) = Inr (Some (t, body))" by (rule parseString_writeString [OF fits])
    then have m: "MarshalKey cr (Certificate d k sk (Some s)) = Inr ?b"
      using sk(1) sb(1) t(1,2,4) g(1) k
      by (simp add: marshalCert_def marshalStringList_eq marshalTuples_eq marshal_anonymous_eq marshal_fields)
    have "ParsePublicKey cr ?b = Parsed (Certificate d k sk (Some s))" if l: "length ?b < 2 ^ 32"
    proof -
      have p: "getString ShortRead ?b = Parsed (cn, writeString (Nonce d) @ body @ g)"
        "getString ShortRead (writeString (Nonce d) @ body @ g) = Parsed (Nonce d, body @ g)"
        by (rule getString_writeString; use l in simp)+
      have q: "parsePlainKey cr (body @ g) t = Parsed (k, g)" by (rule t(5)) (use l in simp)
      have r: "parsePrincipals ?ps = Parsed (ValidPrincipals d)" by (rule parsePrincipals_all) (use l g(3) in simp)
      have u: "parseTuples None ?cs = Parsed (CriticalOptions d)" "parseTuples None ?es = Parsed (Extensions d)"
        by (rule parseTuples_all; use l g(3) k in simp)+
      have "parseCertData cr (writeString (Nonce d) @ body @ g) t = Parsed (d, k, skb, sb)"
        using p(2) q r u g(2) l by (simp add: parseCertData_def u64_at_def u32_at_def bytes_at_def)
      moreover have "ParsePublicKey cr skb = Parsed sk" "parseSignatureBody sb = Inr (Some (s, []))"
        using sk(2) sb(2) l g(3) by simp_all
      ultimately show ?thesis using p(1) t(3)
        by (simp add: ParsePublicKey.simps [of cr ?b] parsePubKey.simps parseCert.simps)
    qed
    then show ?thesis using m by blast
qed

text \<open>The contract of an encoder and a decoder, for each choice of the cryptography.\<close>

lemma key_roundtrip:
  "key_ok cr k \<Longrightarrow> \<exists>b. MarshalKey cr k = Inr b \<and> (length b < 2 ^ 32 \<longrightarrow> ParsePublicKey cr b = Parsed k)"
proof (induction k)
  case (Certificate d k sk sig)
  then obtain s where s: "sig = Some s" by auto
  obtain skb where "MarshalKey cr sk = Inr skb" "length skb < 2 ^ 32 \<longrightarrow> ParsePublicKey cr skb = Parsed sk"
    using Certificate by auto
  then show ?case using certificate_step Certificate.prems s by blast
qed (use plain_key_roundtrip in \<open>simp_all del: MarshalKey.simps\<close>)

interpretation public_key: codec "MarshalKey cr" "ParsePublicKey cr" "key_ok cr" for cr
  by unfold_locales (use key_roundtrip in fastforce)

section \<open>Properties\<close>

text \<open>C30: marshalling a public key does not panic and parsing the bytes gives the key back: RSA keys with an exponent
  in range, DSA keys, ECDSA keys, and certificates of these, signed by keys that may be certificates
  themselves.\<close>

theorem ParsePublicKey_Marshal:
  assumes "key_ok cr k"
  shows "\<exists>b. MarshalKey cr k = Inr b \<and> (length b < 2 ^ 32 \<longrightarrow> ParsePublicKey cr b = Parsed k)"
  by (rule key_roundtrip [OF assms])

text \<open>A certificate for the witnesses, with the cryptography that accepts everything.\<close>

definition small_crypto :: crypto where
  "small_crypto = \<lparr>sha1 = (\<lambda>b. b), ec_hash = (\<lambda>c b. b), rsa_verify = (\<lambda>e n h s. s = h), dsa_verify = (\<lambda>k h r s. True),
     ecdsa_verify = (\<lambda>c x y h r s. True), ec_marshal = (\<lambda>c x y. []), ec_unmarshal = (\<lambda>c b. None)\<rparr>"

definition small_cert :: cert_data where
  "small_cert = \<lparr>Nonce = [1, 2], Serial = 9, CertType = UserCert, KeyId = [], ValidPrincipals = [[117]], ValidAfter = 10,
     ValidBefore = 20, CriticalOptions = [], Extensions = [([101], []), ([102], [1])], Reserved = []\<rparr>"

theorem ParsePublicKey_Marshal_witness:
  "\<exists>b. MarshalKey small_crypto (Certificate small_cert (rsaPublicKey 3 77) (dsaPublicKey 5 7 (- 2) 0)
     (Some \<lparr>sig_Format = [1], sig_Blob = []\<rparr>)) = Inr b"
proof -
  obtain b where b: "MarshalKey small_crypto (rsaPublicKey 3 77) = Inr b"
    using key_roundtrip [of small_crypto "rsaPublicKey 3 77"] by auto
  then have "length b < 2 ^ 32"
    by (auto simp: marshal_anonymous_eq marshal_fields KeyAlgoRSA_def bytes_of_def intField_def intPad_def intBytes_def
      natBytes.simps Let_def)
  then have "key_ok small_crypto (Certificate small_cert (rsaPublicKey 3 77) (dsaPublicKey 5 7 (- 2) 0)
     (Some \<lparr>sig_Format = [1], sig_Blob = []\<rparr>))"
    using b by (simp add: small_cert_def del: MarshalKey.simps)
  from ParsePublicKey_Marshal [OF this] show ?thesis by blast
qed

text \<open>What \<open>CheckCert\<close> promises, with the times as numbers.\<close>

definition in_force :: "int \<Rightarrow> cert_data \<Rightarrow> bool" where
  "in_force now d \<longleftrightarrow>
     uint (ValidAfter d) < 2 ^ 63 \<and> uint (ValidAfter d) \<le> now \<and>
     (ValidBefore d = CertTimeInfinity \<or> uint (ValidBefore d) < 2 ^ 63 \<and> now < uint (ValidBefore d))"

lemma wrap_signed:
  "0 \<le> (k :: int) \<Longrightarrow> k < 2 ^ 64 \<Longrightarrow> (k + 2 ^ 63) mod 2 ^ 64 - 2 ^ 63 = (if k < 2 ^ 63 then k else k - 2 ^ 64)"
  by (auto simp: mod_pos_pos_trivial mod_add_self2 intro: mod_pos_pos_trivial) (simp add: mod_pos_geq)+

lemma sint_shift: "sint (w :: 64 word) = (uint w + 2 ^ 63) mod 2 ^ 64 - 2 ^ 63"
  by (simp only: sint_uint signed_take_bit_eq_take_bit_shift take_bit_eq_mod) simp

lemma sint_cases: "sint (w :: 64 word) = (if uint w < 2 ^ 63 then uint w else uint w - 2 ^ 64)"
  unfolding sint_shift by (rule wrap_signed) (use unsigned_less [of w, where ?'a = int] in simp_all)

lemma in_force_checks: "in_force now d \<longleftrightarrow> \<not> notYetValid now (ValidAfter d) \<and> \<not> hasExpired now (ValidBefore d)"
proof -
  have "uint w - 2 ^ 64 < 0" "0 \<le> uint w" for w :: "64 word" using unsigned_less [of w, where ?'a = int] by simp_all
  note w = this [of "ValidAfter d"] this [of "ValidBefore d"]
  have "\<not> notYetValid now (ValidAfter d) \<longleftrightarrow> uint (ValidAfter d) < 2 ^ 63 \<and> uint (ValidAfter d) \<le> now"
    using w(1,2) unfolding notYetValid_def sint_cases by (auto split: if_splits)
  moreover have "\<not> hasExpired now (ValidBefore d) \<longleftrightarrow>
      ValidBefore d = CertTimeInfinity \<or> uint (ValidBefore d) < 2 ^ 63 \<and> now < uint (ValidBefore d)"
    using w(3,4) unfolding hasExpired_def sint_cases by (auto split: if_splits)
  ultimately show ?thesis by (simp add: in_force_def)
qed


text \<open>A certificate signed by an RSA key, and a checker that knows the key.\<close>

definition small_checker :: "unit CertChecker" where
  "small_checker = \<lparr>SupportedCriticalOptions = [], IsAuthority = (\<lambda>k. k = rsaPublicKey 3 77), UserKeyFallback = None,
     HostKeyFallback = None, IsRevoked = Some (\<lambda>k. False)\<rparr>"

lemma small_cert_signed:
  "(case bytesForSigning small_crypto small_cert (dsaPublicKey 5 7 (- 2) 0) (rsaPublicKey 3 77) of Inl e \<Rightarrow> False | Inr bs \<Rightarrow> True)"
  by code_simp


end
