(* ===== verification/Ssh_Auth.thy ===== *)
theory Ssh_Auth
  imports Ssh_Keys Ssh_Mux
begin

text \<open>
  The server side of user authentication: \<^verbatim>\<open>server.go\<close> of the vendored package
  \<^verbatim>\<open>golang.org/x/crypto/ssh\<close>.

  The transport below is a list of the packets that arrive, or the error of reading one, and the
  packets that were written; writing fails when \<open>a_writes\<close> is used up. A function that would read
  a packet that is not there yet is \<open>Blocks\<close>. The callbacks are the application's, with a state
  of their own that the model threads through; the callback for keyboard-interactive is a tree of
  the challenges it makes.
\<close>

section \<open>Configuration\<close>

record ('s, 'p, 'q, 'i, 'l) ServerConfig =
  hostKeys :: "'s list"
  NoClientAuth :: bool
  PasswordCallback :: "'p option"
  PublicKeyCallback :: "'q option"
  KeyboardInteractiveCallback :: "'i option"
  AuthLogCallback :: "'l option"
  ServerVersion :: string

text \<open>A key of the type of an older one takes its place; \<open>keyType\<close> is \<open>PublicKey().Type()\<close>.\<close>

fun replaceKey :: "('s \<Rightarrow> string) \<Rightarrow> 's list \<Rightarrow> 's \<Rightarrow> 's list option" where
  "replaceKey keyType [] key = None"
| "replaceKey keyType (k # ks) key =
     (if keyType k = keyType key then Some (key # ks) else map_option (\<lambda>ks'. k # ks') (replaceKey keyType ks key))"

definition AddHostKey :: "('s \<Rightarrow> string) \<Rightarrow> ('s, 'p, 'q, 'i, 'l) ServerConfig \<Rightarrow> 's \<Rightarrow> ('s, 'p, 'q, 'i, 'l) ServerConfig" where
  "AddHostKey keyType sc key =
     (case replaceKey keyType (hostKeys sc) key of
        Some ks \<Rightarrow> sc\<lparr>hostKeys := ks\<rparr>
      | None \<Rightarrow> sc\<lparr>hostKeys := hostKeys sc @ [key]\<rparr>)"

section \<open>The connection during authentication\<close>

datatype 'x denial =
    NoAuthPassed
  | NotConfigured bytes
  | AlgorithmRefused bytes
  | UnknownMethod bytes
  | Denied 'x
      \<comment> \<open>the error of a callback\<close>
  | SourceRefused

datatype 'x auth_error =
    ReadError string
  | WriteError
  | AuthWire wire_error
  | UnknownService bytes
  | KeyNotVerified verify_error
  | NoMethods
  | NoHostKeys
  | KeyExchangeFailed
  | LengthMismatch
  | TrailingAnswers

record cachedPubKey_key =
  c_user :: bytes
  c_pubKeyData :: bytes

record 'x cachedPubKey = cachedPubKey_key +
  c_result :: "'x denial option"
  c_perms :: "permissions option"

record ('x, 'w) auth =
  a_in :: "(string + bytes) list"
  a_out :: "bytes list"
  a_writes :: nat
  a_world :: 'w
  a_user :: bytes
  a_cache :: "'x cachedPubKey list"
  a_log :: "(bytes \<times> 'x denial option) list"

datatype ('x, 'w) dialog =
    Answers 'w "'x + permissions option"
  | Challenges bytes "bytes list" "bool list" "('x auth_error + bytes list) \<Rightarrow> ('x, 'w) dialog"
      \<comment> \<open>instruction, questions, echos, and what follows the answers\<close>

type_synonym ('s, 'x, 'w) auth_config =
  "('s, 'w \<Rightarrow> bytes \<Rightarrow> bytes \<Rightarrow> 'w \<times> ('x + permissions option),
    'w \<Rightarrow> bytes \<Rightarrow> public_key \<Rightarrow> 'w \<times> ('x + permissions option),
    'w \<Rightarrow> bytes \<Rightarrow> ('x, 'w) dialog, unit) ServerConfig"

definition readPacket :: "('x, 'w) auth \<Rightarrow> (('x auth_error + bytes) \<times> ('x, 'w) auth) step" where
  "readPacket a =
     (case a_in a of
        [] \<Rightarrow> Blocks
      | Inl e # xs \<Rightarrow> Ran (Inl (ReadError e), a\<lparr>a_in := xs\<rparr>)
      | Inr p # xs \<Rightarrow> Ran (Inr p, a\<lparr>a_in := xs\<rparr>))"

text \<open>\<open>writePacket(Marshal(\<dots>))\<close>: whether it was written.\<close>

definition writeMessage :: "panic + bytes \<Rightarrow> ('x, 'w) auth \<Rightarrow> (bool \<times> ('x, 'w) auth) step" where
  "writeMessage m a =
     (case m of
        Inl e \<Rightarrow> Panicked e
      | Inr b \<Rightarrow>
          Ran (if a_writes a = 0 then (False, a)
               else (True, a\<lparr>a_out := a_out a @ [b], a_writes := a_writes a - 1\<rparr>)))"

section \<open>The cache of public keys\<close>

definition maxCachedPubKeys :: nat where "maxCachedPubKeys = 16"

fun cache_get :: "'x cachedPubKey list \<Rightarrow> bytes \<Rightarrow> bytes \<Rightarrow> 'x cachedPubKey option" where
  "cache_get [] user pubKeyData = None"
| "cache_get (k # ks) user pubKeyData =
     (if c_user k = user \<and> c_pubKeyData k = pubKeyData then Some k else cache_get ks user pubKeyData)"

definition cache_add :: "'x cachedPubKey list \<Rightarrow> 'x cachedPubKey \<Rightarrow> 'x cachedPubKey list" where
  "cache_add ks candidate = (if length ks < maxCachedPubKeys then ks @ [candidate] else ks)"

section \<open>Checks\<close>

definition isAcceptableAlgo :: "bytes \<Rightarrow> bool" where
  "isAcceptableAlgo algo \<longleftrightarrow>
     algo \<in> {KeyAlgoRSA, KeyAlgoDSA, KeyAlgoECDSA256, KeyAlgoECDSA384, KeyAlgoECDSA521,
       CertAlgoRSAv01, CertAlgoDSAv01, CertAlgoECDSA256v01, CertAlgoECDSA384v01, CertAlgoECDSA521v01}"

text \<open>The remote address, and \<open>net.ParseIP\<close>, \<open>net.ParseCIDR\<close> with \<open>Contains\<close>.\<close>

datatype remote_addr = NoAddr | OtherAddr | TCPAddr bytes

record net_functions =
  ParseIP :: "bytes \<Rightarrow> bytes option"
  ParseCIDR :: "bytes \<Rightarrow> (bytes \<Rightarrow> bool) option"

definition checkSourceAddress :: "net_functions \<Rightarrow> remote_addr \<Rightarrow> bytes \<Rightarrow> bool" where
  "checkSourceAddress net addr sourceAddr =
     (case addr of
        TCPAddr ip \<Rightarrow>
          (case ParseIP net sourceAddr of
             Some allowedIP \<Rightarrow> allowedIP = ip
           | None \<Rightarrow>
               (case ParseCIDR net sourceAddr of None \<Rightarrow> False | Some contains \<Rightarrow> contains ip))
      | _ \<Rightarrow> False)"

definition sourceOption :: "permissions option \<Rightarrow> bytes" where
  "sourceOption perms =
     (case perms of
        None \<Rightarrow> []
      | Some p \<Rightarrow> (case map_of (p_CriticalOptions p) sourceAddressCriticalOption of None \<Rightarrow> [] | Some v \<Rightarrow> v))"

text \<open>\<open>buildDataSignedForAuth\<close>.\<close>

definition authData :: struct_type where
  "authData = anonymous [(''Session'', KBytes), (''Type'', KUint8), (''User'', KString), (''Service'', KString),
     (''Method'', KString), (''Sign'', KBool), (''Algo'', KBytes), (''PubKey'', KBytes)]"

definition buildDataSignedForAuth :: "bytes \<Rightarrow> fval list \<Rightarrow> bytes \<Rightarrow> bytes \<Rightarrow> panic + bytes" where
  "buildDataSignedForAuth sessionId req algo pubKey =
     Marshal authData [VBytes sessionId, VU8 50, VBytes (bytes_at req 0), VBytes (bytes_at req 1), VBytes (bytes_at req 2),
       VBool True, VBytes algo, VBytes pubKey]"

section \<open>Challenges\<close>

fun promptBytes :: "bytes list \<Rightarrow> bool list \<Rightarrow> bytes" where
  "promptBytes (q # qs) (e # es) = appendBool (appendString [] q) e @ promptBytes qs es"
| "promptBytes _ _ = []"

text \<open>The answers in the packet: \<open>n\<close> strings and nothing after them.\<close>

fun parseAnswers :: "nat \<Rightarrow> bytes \<Rightarrow> (bytes list \<times> bytes) parsed" where
  "parseAnswers 0 packet = Parsed ([], packet)"
| "parseAnswers (Suc n) packet =
     bind_parsed (getString (ParseError 61) packet) (\<lambda>(ans, rest).
       bind_parsed (parseAnswers n rest) (\<lambda>(as, rest'). Parsed (ans # as, rest')))"

definition readAnswers :: "nat \<Rightarrow> bytes \<Rightarrow> ('x auth_error + bytes list) step" where
  "readAnswers questions packet =
     (case packet of
        [] \<Rightarrow> Panicked IndexOutOfRange
      | b # packet1 \<Rightarrow>
          if b \<noteq> 61 then Ran (Inl (AuthWire (UnexpectedMessage 61 b)))
          else
            (case parseUint32 packet1 of
               None \<Rightarrow> Ran (Inl (AuthWire (ParseError 61)))
             | Some (n, packet2) \<Rightarrow>
                 if unat n \<noteq> questions then Ran (Inl (AuthWire (ParseError 61)))
                 else
                   (case parseAnswers (unat n) packet2 of
                      Crash e \<Rightarrow> Panicked e
                    | Malformed e \<Rightarrow> Ran (Inl (AuthWire e))
                    | Parsed (answers, rest) \<Rightarrow>
                        Ran (if rest \<noteq> [] then Inl TrailingAnswers else Inr answers))))"

definition Challenge :: "bytes \<Rightarrow> bytes list \<Rightarrow> bool list \<Rightarrow> ('x, 'w) auth \<Rightarrow>
    (('x auth_error + bytes list) \<times> ('x, 'w) auth) step" where
  "Challenge instruction questions echos a =
     (if length questions \<noteq> length echos then Ran (Inl LengthMismatch, a)
      else
        and_then (writeMessage (Marshal userAuthInfoRequestMsg [VBytes [], VBytes instruction, VBytes [],
            VU32 (word_of_nat (length questions)), VBytes (promptBytes questions echos)]) a) (\<lambda>(ok, a1).
          if \<not> ok then Ran (Inl WriteError, a1)
          else
            and_then (readPacket a1) (\<lambda>(r, a2).
              case r of
                Inl e \<Rightarrow> Ran (Inl e, a2)
              | Inr packet \<Rightarrow> and_then (readAnswers (length questions) packet) (\<lambda>res. Ran (res, a2)))))"

primrec run_dialog :: "('x, 'w) dialog \<Rightarrow> ('x, 'w) auth \<Rightarrow> (('x + permissions option) \<times> ('x, 'w) auth) step" where
  "run_dialog (Answers w r) a = Ran (r, a\<lparr>a_world := w\<rparr>)"
| "run_dialog (Challenges instruction questions echos f) a =
     and_then (Challenge instruction questions echos a) (\<lambda>(r, a1). run_dialog (f r) a1)"

section \<open>One request\<close>

text \<open>What a method comes to: \<open>authErr\<close> and \<open>perms\<close>, an error that ends the connection, or the next turn of
  the loop without an answer to this one.\<close>

datatype 'x verdict =
    Verdict "'x denial option" "permissions option"
  | Abort "'x auth_error"
  | NextRequest

definition callback_verdict :: "'x + permissions option \<Rightarrow> 'x verdict" where
  "callback_verdict r = (case r of Inl e \<Rightarrow> Verdict (Some (Denied e)) None | Inr p \<Rightarrow> Verdict None p)"

definition method_password :: "('s, 'x, 'w) auth_config \<Rightarrow> bytes \<Rightarrow> ('x, 'w) auth \<Rightarrow> ('x verdict \<times> ('x, 'w) auth) step" where
  "method_password cfg pl a =
     (case PasswordCallback cfg of
        None \<Rightarrow> Ran (Verdict (Some (NotConfigured (bytes_of ''password''))) None, a)
      | Some cb \<Rightarrow>
          (case pl of
             [] \<Rightarrow> Ran (Abort (AuthWire (ParseError 50)), a)
           | b # pl1 \<Rightarrow>
               if b \<noteq> 0 then Ran (Abort (AuthWire (ParseError 50)), a)
               else
                 (case getString (ParseError 50) pl1 of
                    Crash e \<Rightarrow> Panicked e
                  | Malformed e \<Rightarrow> Ran (Abort (AuthWire e), a)
                  | Parsed (password, rest) \<Rightarrow>
                      if rest \<noteq> [] then Ran (Abort (AuthWire (ParseError 50)), a)
                      else (case cb (a_world a) (a_user a) password of
                              (w, r) \<Rightarrow> Ran (callback_verdict r, a\<lparr>a_world := w\<rparr>)))))"

definition method_keyboard :: "('s, 'x, 'w) auth_config \<Rightarrow> ('x, 'w) auth \<Rightarrow> ('x verdict \<times> ('x, 'w) auth) step" where
  "method_keyboard cfg a =
     (case KeyboardInteractiveCallback cfg of
        None \<Rightarrow> Ran (Verdict (Some (NotConfigured (bytes_of ''keyboard-interactive''))) None, a)
      | Some cb \<Rightarrow> and_then (run_dialog (cb (a_world a) (a_user a)) a) (\<lambda>(r, a1). Ran (callback_verdict r, a1)))"

text \<open>The candidate for a key: from the cache, or of the callback and the source address.\<close>

definition queryKey :: "net_functions \<Rightarrow> remote_addr \<Rightarrow> ('w \<Rightarrow> bytes \<Rightarrow> public_key \<Rightarrow> 'w \<times> ('x + permissions option)) \<Rightarrow>
    bytes \<Rightarrow> public_key \<Rightarrow> ('x, 'w) auth \<Rightarrow> 'x cachedPubKey \<times> ('x, 'w) auth" where
  "queryKey net addr cb pubKeyData pubKey a =
     (case cache_get (a_cache a) (a_user a) pubKeyData of
        Some candidate \<Rightarrow> (candidate, a)
      | None \<Rightarrow>
          (case cb (a_world a) (a_user a) pubKey of
             (w, r) \<Rightarrow>
               let perms = (case r of Inl e \<Rightarrow> None | Inr p \<Rightarrow> p);
                   result = (case r of
                       Inl e \<Rightarrow> Some (Denied e)
                     | Inr p \<Rightarrow>
                         if sourceOption perms \<noteq> [] \<and> \<not> checkSourceAddress net addr (sourceOption perms)
                         then Some SourceRefused else None);
                   candidate = \<lparr>c_user = a_user a, c_pubKeyData = pubKeyData, c_result = result, c_perms = perms\<rparr>
               in (candidate, a\<lparr>a_world := w, a_cache := cache_add (a_cache a) candidate\<rparr>)))"

definition answerQuery :: "bytes \<Rightarrow> bytes \<Rightarrow> bytes \<Rightarrow> 'x cachedPubKey \<Rightarrow> ('x, 'w) auth \<Rightarrow> ('x verdict \<times> ('x, 'w) auth) step" where
  "answerQuery algo pubKeyData rest candidate a =
     (if rest \<noteq> [] then Ran (Abort (AuthWire (ParseError 50)), a)
      else if c_result candidate = None then
        and_then (writeMessage (Marshal userAuthPubKeyOkMsg [VBytes algo, VBytes pubKeyData]) a) (\<lambda>(ok, a1).
          Ran (if ok then NextRequest else Abort WriteError, a1))
      else Ran (Verdict (c_result candidate) None, a))"

definition checkSignature :: "crypto \<Rightarrow> bytes \<Rightarrow> fval list \<Rightarrow> bytes \<Rightarrow> bytes \<Rightarrow> public_key \<Rightarrow> bytes \<Rightarrow> 'x cachedPubKey \<Rightarrow>
    'x verdict step" where
  "checkSignature cr sessionId req algo pubKeyData pubKey rest candidate =
     (case parseSignature rest of
        Inl e \<Rightarrow> Panicked e
      | Inr None \<Rightarrow> Ran (Abort (AuthWire (ParseError 50)))
      | Inr (Some (sig, rest1)) \<Rightarrow>
          if rest1 \<noteq> [] then Ran (Abort (AuthWire (ParseError 50)))
          else if \<not> isAcceptableAlgo (sig_Format sig) then Ran (Verdict (Some NoAuthPassed) None)
          else
            (case bind_sum (buildDataSignedForAuth sessionId req algo pubKeyData) (\<lambda>d. VerifyKey cr pubKey d sig) of
               Inl e \<Rightarrow> Panicked e
             | Inr (Some e) \<Rightarrow> Ran (Abort (KeyNotVerified e))
             | Inr None \<Rightarrow> Ran (Verdict (c_result candidate) (c_perms candidate))))"

definition method_publickey :: "crypto \<Rightarrow> net_functions \<Rightarrow> remote_addr \<Rightarrow> bytes \<Rightarrow> ('s, 'x, 'w) auth_config \<Rightarrow> fval list \<Rightarrow>
    ('x, 'w) auth \<Rightarrow> ('x verdict \<times> ('x, 'w) auth) step" where
  "method_publickey cr net addr sessionId cfg req a =
     (case PublicKeyCallback cfg of
        None \<Rightarrow> Ran (Verdict (Some (NotConfigured (bytes_of ''publickey''))) None, a)
      | Some cb \<Rightarrow>
          (case bytes_at req 3 of
             [] \<Rightarrow> Ran (Abort (AuthWire (ParseError 50)), a)
           | b # pl \<Rightarrow>
               (case getString (ParseError 50) pl of
                  Crash e \<Rightarrow> Panicked e
                | Malformed e \<Rightarrow> Ran (Abort (AuthWire e), a)
                | Parsed (algo, pl1) \<Rightarrow>
                    if \<not> isAcceptableAlgo algo then Ran (Verdict (Some (AlgorithmRefused algo)) None, a)
                    else
                      (case getString (ParseError 50) pl1 of
                         Crash e \<Rightarrow> Panicked e
                       | Malformed e \<Rightarrow> Ran (Abort (AuthWire e), a)
                       | Parsed (pubKeyData, pl2) \<Rightarrow>
                           (case ParsePublicKey cr pubKeyData of
                              Crash e \<Rightarrow> Panicked e
                            | Malformed e \<Rightarrow> Ran (Abort (AuthWire e), a)
                            | Parsed pubKey \<Rightarrow>
                                (case queryKey net addr cb pubKeyData pubKey a of
                                   (candidate, a1) \<Rightarrow>
                                     if b = 0 then answerQuery algo pubKeyData pl2 candidate a1
                                     else and_then (checkSignature cr sessionId req algo pubKeyData pubKey pl2 candidate)
                                            (\<lambda>v. Ran (v, a1)))))))) "

text \<open>The \<open>switch\<close> on the method.\<close>

definition tryMethod :: "crypto \<Rightarrow> net_functions \<Rightarrow> remote_addr \<Rightarrow> bytes \<Rightarrow> ('s, 'x, 'w) auth_config \<Rightarrow> fval list \<Rightarrow>
    ('x, 'w) auth \<Rightarrow> ('x verdict \<times> ('x, 'w) auth) step" where
  "tryMethod cr net addr sessionId cfg req a =
     (let m = bytes_at req 2 in
      if m = bytes_of ''none'' then
        Ran (if NoClientAuth cfg then (Verdict None None, a\<lparr>a_user := []\<rparr>) else (Verdict (Some NoAuthPassed) None, a))
      else if m = bytes_of ''password'' then method_password cfg (bytes_at req 3) a
      else if m = bytes_of ''keyboard-interactive'' then method_keyboard cfg a
      else if m = bytes_of ''publickey'' then method_publickey cr net addr sessionId cfg req a
      else Ran (Verdict (Some (UnknownMethod m)) None, a))"

definition failureMethods :: "('s, 'x, 'w) auth_config \<Rightarrow> bytes list" where
  "failureMethods cfg =
     (if PasswordCallback cfg \<noteq> None then [bytes_of ''password''] else []) @
     (if PublicKeyCallback cfg \<noteq> None then [bytes_of ''publickey''] else []) @
     (if KeyboardInteractiveCallback cfg \<noteq> None then [bytes_of ''keyboard-interactive''] else [])"

text \<open>The end of the loop's body: the log, and the answer to a denied request. \<^const>\<open>None\<close> goes on.\<close>

definition logAttempt :: "('s, 'x, 'w) auth_config \<Rightarrow> bytes \<Rightarrow> 'x denial option \<Rightarrow> ('x, 'w) auth \<Rightarrow> ('x, 'w) auth" where
  "logAttempt cfg m authErr a = (if AuthLogCallback cfg \<noteq> None then a\<lparr>a_log := a_log a @ [(m, authErr)]\<rparr> else a)"

definition denyRequest :: "('s, 'x, 'w) auth_config \<Rightarrow> ('x, 'w) auth \<Rightarrow> ('x auth_error option \<times> ('x, 'w) auth) step" where
  "denyRequest cfg a =
     (if failureMethods cfg = [] then Ran (Some NoMethods, a)
      else
        and_then (writeMessage (Marshal userAuthFailureMsg [VNames (failureMethods cfg), VBool False]) a) (\<lambda>(ok, a1).
          Ran (if ok then None else Some WriteError, a1)))"

text \<open>One turn of \<open>userAuthLoop\<close>: \<^const>\<open>None\<close> goes on, otherwise the error or the permissions.\<close>

definition authRequest :: "crypto \<Rightarrow> net_functions \<Rightarrow> remote_addr \<Rightarrow> bytes \<Rightarrow> ('s, 'x, 'w) auth_config \<Rightarrow>
    ('x, 'w) auth \<Rightarrow> (('x auth_error + permissions option) option \<times> ('x, 'w) auth) step" where
  "authRequest cr net addr sessionId cfg a =
     and_then (readPacket a) (\<lambda>(r, a1).
       case r of
         Inl e \<Rightarrow> Ran (Some (Inl e), a1)
       | Inr packet \<Rightarrow>
           (case Unmarshal packet userAuthRequestMsg of
              Crash e \<Rightarrow> Panicked e
            | Malformed e \<Rightarrow> Ran (Some (Inl (AuthWire e)), a1)
            | Parsed req \<Rightarrow>
                if bytes_at req 1 \<noteq> bytes_of ''ssh-connection'' then Ran (Some (Inl (UnknownService (bytes_at req 1))), a1)
                else
                  and_then (tryMethod cr net addr sessionId cfg req (a1\<lparr>a_user := bytes_at req 0\<rparr>)) (\<lambda>(v, a2).
                    case v of
                      Abort e \<Rightarrow> Ran (Some (Inl e), a2)
                    | NextRequest \<Rightarrow> Ran (None, a2)
                    | Verdict authErr perms \<Rightarrow>
                        let a3 = logAttempt cfg (bytes_at req 2) authErr a2 in
                        if authErr = None then Ran (Some (Inr perms), a3)
                        else and_then (denyRequest cfg a3) (\<lambda>(err, a4). Ran (map_option Inl err, a4)))))"

section \<open>The loop\<close>

text \<open>A turn reads at least one packet.\<close>

lemma readPacket_same:
  "readPacket a = Ran (r, a') \<Longrightarrow> strict_suffix (a_in a') (a_in a) \<and> a_cache a' = a_cache a \<and> a_user a' = a_user a"
  by (auto simp: readPacket_def strict_suffix_def suffix_def split: list.splits sum.splits)

lemma writeMessage_same: "writeMessage m a = Ran (ok, a') \<Longrightarrow> a_in a' = a_in a \<and> a_cache a' = a_cache a \<and> a_user a' = a_user a"
  by (auto simp: writeMessage_def split: sum.splits if_splits)

lemma Challenge_same:
  assumes "Challenge i qs es a = Ran (r, a')"
  shows "suffix (a_in a') (a_in a) \<and> a_cache a' = a_cache a \<and> a_user a' = a_user a"
proof (cases "length qs = length es")
  case True
  then obtain ok a1 where w: "writeMessage (Marshal userAuthInfoRequestMsg [VBytes [], VBytes i, VBytes [],
      VU32 (word_of_nat (length qs)), VBytes (promptBytes qs es)]) a = Ran (ok, a1)"
    using assms by (auto simp: Challenge_def and_then_Ran)
  show ?thesis
  proof (cases ok)
    case ok: True
    then obtain x a2 where x: "readPacket a1 = Ran (x, a2)" using assms True w by (auto simp: Challenge_def and_then_Ran)
    have "a' = a2" using assms True w ok x by (cases x) (auto simp: Challenge_def and_then_Ran)
    then show ?thesis using writeMessage_same [OF w] readPacket_same [OF x] by (simp add: strict_suffix_def)
  next
    case False
    then have "a' = a1" using assms True w by (simp add: Challenge_def)
    then show ?thesis using writeMessage_same [OF w] by simp
  qed
qed (use assms in \<open>simp add: Challenge_def\<close>)

lemma run_dialog_same:
  "run_dialog d a = Ran (r, a') \<Longrightarrow> suffix (a_in a') (a_in a) \<and> a_cache a' = a_cache a \<and> a_user a' = a_user a"
proof (induction d arbitrary: a)
  case (Challenges i qs es f)
  then obtain x a1 where c: "Challenge i qs es a = Ran (x, a1)" "run_dialog (f x) a1 = Ran (r, a')"
    by (auto simp: and_then_Ran)
  from Challenges.IH [OF _ c(2)] Challenge_same [OF c(1)] show ?case by (auto intro: suffix_order.order_trans)
qed auto

lemma queryKey_same: "queryKey net addr cb d k a = (x, a') \<Longrightarrow> a_in a' = a_in a \<and> a_user a' = a_user a"
  by (auto simp: queryKey_def Let_def split: option.splits prod.splits)

lemma answerQuery_same: "answerQuery algo d rest c a = Ran (v, a') \<Longrightarrow> a_in a' = a_in a \<and> a_cache a' = a_cache a \<and> a_user a' = a_user a"
  by (auto simp: answerQuery_def and_then_Ran dest: writeMessage_same split: if_splits)

lemma method_publickey_length:
  assumes "method_publickey cr net addr sid cfg req a = Ran (v, a')"
  shows "a_in a' = a_in a"
  using assms
  by (auto simp: method_publickey_def and_then_Ran dest!: queryKey_same answerQuery_same
    split: option.splits list.splits parsed.splits prod.splits if_splits)

lemma tryMethod_suffix:
  assumes "tryMethod cr net addr sid cfg req a = Ran (v, a')"
  shows "suffix (a_in a') (a_in a)"
  using assms run_dialog_same method_publickey_length
  by (fastforce simp: tryMethod_def Let_def method_password_def method_keyboard_def and_then_Ran
    split: if_splits option.splits list.splits parsed.splits prod.splits)

lemma authRequest_suffix:
  assumes "authRequest cr net addr sid cfg a = Ran (r, a')"
  shows "strict_suffix (a_in a') (a_in a)"
proof -
  obtain x a1 where rp: "readPacket a = Ran (x, a1)" using assms by (auto simp: authRequest_def and_then_Ran)
  have "suffix (a_in a') (a_in a1)"
  proof (cases x)
    case (Inl e)
    then show ?thesis using assms rp by (simp add: authRequest_def)
  next
    case (Inr packet)
    have deny: "a_in a4 = a_in a3" if "denyRequest cfg a3 = Ran (e, a4)" for a3 a4 e
      using that writeMessage_same by (auto simp: denyRequest_def and_then_Ran split: if_splits)
    have log: "a_in (logAttempt cfg m e a2) = a_in a2" for m e a2 by (simp add: logAttempt_def)
    show ?thesis
    proof (cases "Unmarshal packet userAuthRequestMsg")
      case (Parsed req)
      show ?thesis
      proof (cases "bytes_at req 1 = bytes_of ''ssh-connection''")
        case True
        then obtain v a2 where v: "tryMethod cr net addr sid cfg req (a1\<lparr>a_user := bytes_at req 0\<rparr>) = Ran (v, a2)"
          using assms rp Inr Parsed by (auto simp: authRequest_def and_then_Ran)
        have "suffix (a_in a2) (a_in a1)" using tryMethod_suffix [OF v] by simp
        moreover have "a_in a' = a_in a2"
          using assms rp Inr Parsed True v deny log
          by (cases v) (auto simp: authRequest_def Let_def and_then_Ran split: if_splits)
        ultimately show ?thesis by simp
      qed (use assms rp Inr Parsed in \<open>simp add: authRequest_def\<close>)
    qed (use assms rp Inr in \<open>simp_all add: authRequest_def\<close>)
  qed
  then show ?thesis using readPacket_same [OF rp] by (meson suffix_order.le_less_trans)
qed

function auth_loop :: "crypto \<Rightarrow> net_functions \<Rightarrow> remote_addr \<Rightarrow> bytes \<Rightarrow> ('s, 'x, 'w) auth_config \<Rightarrow>
    ('x, 'w) auth \<Rightarrow> (('x auth_error + permissions option) \<times> ('x, 'w) auth) step" where
  "auth_loop cr net addr sessionId cfg a =
     (case authRequest cr net addr sessionId cfg a of
        Panicked e \<Rightarrow> Panicked e
      | Blocks \<Rightarrow> Blocks
      | Ran (r, a1) \<Rightarrow>
          (case r of Some x \<Rightarrow> Ran (x, a1) | None \<Rightarrow> auth_loop cr net addr sessionId cfg a1))"
  by pat_completeness auto
termination
  by (relation "measure (\<lambda>(cr, net, addr, sid, cfg, a). length (a_in a))") (auto dest!: authRequest_suffix suffix_length_less)

declare auth_loop.simps [simp del]

definition serverAuthenticate :: "crypto \<Rightarrow> net_functions \<Rightarrow> remote_addr \<Rightarrow> bytes \<Rightarrow> ('s, 'x, 'w) auth_config \<Rightarrow>
    ('x, 'w) auth \<Rightarrow> (('x auth_error + permissions option) \<times> ('x, 'w) auth) step" where
  "serverAuthenticate cr net addr sessionId cfg a =
     and_then (auth_loop cr net addr sessionId cfg a) (\<lambda>(r, a1).
       case r of
         Inl e \<Rightarrow> Ran (Inl e, a1)
       | Inr perms \<Rightarrow>
           and_then (writeMessage (Inr [52]) a1) (\<lambda>(ok, a2). Ran (if ok then Inr perms else Inl WriteError, a2)))"

section \<open>The handshake\<close>

text \<open>The exchange of versions and the first key exchange are the transport's: \<open>below\<close> is their error, if any.\<close>

definition serverHandshake :: "crypto \<Rightarrow> net_functions \<Rightarrow> remote_addr \<Rightarrow> bytes \<Rightarrow> ('s, 'x, 'w) auth_config \<Rightarrow>
    'x auth_error option \<Rightarrow> ('x, 'w) auth \<Rightarrow> (('x auth_error + permissions option \<times> mux) \<times> ('x, 'w) auth) step" where
  "serverHandshake cr net addr sessionId cfg below a =
     (if hostKeys cfg = [] then Ran (Inl NoHostKeys, a)
      else
        (case below of
           Some e \<Rightarrow> Ran (Inl e, a)
         | None \<Rightarrow>
             and_then (readPacket a) (\<lambda>(r1, a1).
               case r1 of
                 Inl e \<Rightarrow> Ran (Inl e, a1)
               | Inr [] \<Rightarrow> Panicked IndexOutOfRange
               | Inr (b # _) \<Rightarrow>
                   if b \<noteq> 21 then Ran (Inl (AuthWire (UnexpectedMessage 21 b)), a1)
                   else
                     and_then (readPacket a1) (\<lambda>(r2, a2).
                       case r2 of
                         Inl e \<Rightarrow> Ran (Inl e, a2)
                       | Inr packet \<Rightarrow>
                           (case Unmarshal packet serviceRequestMsg of
                              Crash e \<Rightarrow> Panicked e
                            | Malformed e \<Rightarrow> Ran (Inl (AuthWire e), a2)
                            | Parsed vs \<Rightarrow>
                                if bytes_at vs 0 \<noteq> bytes_of ''ssh-userauth'' then Ran (Inl (UnknownService (bytes_at vs 0)), a2)
                                else
                                  and_then (writeMessage (Marshal serviceAcceptMsg [VBytes (bytes_of ''ssh-userauth'')]) a2)
                                    (\<lambda>(ok, a3).
                                      if \<not> ok then Ran (Inl WriteError, a3)
                                      else
                                        and_then (serverAuthenticate cr net addr sessionId cfg a3) (\<lambda>(r, a4).
                                          Ran (map_sum id (\<lambda>perms. (perms, newMux)) r, a4)))))))) "

text \<open>\<open>NewServerConn\<close>: the connection is closed when the handshake returns an error.\<close>

definition NewServerConn :: "crypto \<Rightarrow> net_functions \<Rightarrow> remote_addr \<Rightarrow> bytes \<Rightarrow> ('s, 'x, 'w) auth_config \<Rightarrow>
    'x auth_error option \<Rightarrow> ('x, 'w) auth \<Rightarrow> (('x auth_error + permissions option \<times> mux) \<times> bool) step" where
  "NewServerConn cr net addr sessionId cfg below a =
     and_then (serverHandshake cr net addr sessionId cfg below a) (\<lambda>(r, a1).
       Ran (r, case r of Inl e \<Rightarrow> True | Inr x \<Rightarrow> False))"

section \<open>Who is let in\<close>

text \<open>What the callback for public keys answered at some time, the source address included.\<close>

definition key_answer :: "net_functions \<Rightarrow> remote_addr \<Rightarrow> ('w \<Rightarrow> bytes \<Rightarrow> public_key \<Rightarrow> 'w \<times> ('x + permissions option)) \<Rightarrow>
    bytes \<Rightarrow> public_key \<Rightarrow> permissions option \<Rightarrow> bool" where
  "key_answer net addr cb user k perms \<longleftrightarrow>
     (\<exists>w w'. cb w user k = (w', Inr perms)) \<and> (sourceOption perms = [] \<or> checkSourceAddress net addr (sourceOption perms))"

definition cache_ok :: "crypto \<Rightarrow> net_functions \<Rightarrow> remote_addr \<Rightarrow> ('s, 'x, 'w) auth_config \<Rightarrow> ('x, 'w) auth \<Rightarrow> bool" where
  "cache_ok cr net addr cfg a \<longleftrightarrow> (\<forall>c \<in> set (a_cache a). c_result c = None \<longrightarrow>
     (\<exists>cb k. PublicKeyCallback cfg = Some cb \<and> ParsePublicKey cr (c_pubKeyData c) = Parsed k \<and>
        key_answer net addr cb (c_user c) k (c_perms c)))"

text \<open>A challenge-response dialog that can end with the callback's consent.\<close>

inductive consents :: "('x, 'w) dialog \<Rightarrow> permissions option \<Rightarrow> bool" where
  "consents (Answers w (Inr perms)) perms"
| "consents (f r) perms \<Longrightarrow> consents (Challenges i qs es f) perms"

text \<open>The four ways in.\<close>

definition authorised :: "crypto \<Rightarrow> net_functions \<Rightarrow> remote_addr \<Rightarrow> bytes \<Rightarrow> ('s, 'x, 'w) auth_config \<Rightarrow> bytes \<Rightarrow> fval list \<Rightarrow>
    permissions option \<Rightarrow> bool" where
  "authorised cr net addr sessionId cfg user req perms \<longleftrightarrow>
     (bytes_at req 2 = bytes_of ''none'' \<and> NoClientAuth cfg \<and> perms = None) \<or>
     (bytes_at req 2 = bytes_of ''password'' \<and>
       (\<exists>cb pw w w'. PasswordCallback cfg = Some cb \<and> cb w user pw = (w', Inr perms) \<and>
          getString (ParseError 50) (tl (bytes_at req 3)) = Parsed (pw, []))) \<or>
     (bytes_at req 2 = bytes_of ''keyboard-interactive'' \<and>
       (\<exists>cb w. KeyboardInteractiveCallback cfg = Some cb \<and> consents (cb w user) perms)) \<or>
     (bytes_at req 2 = bytes_of ''publickey'' \<and>
       (\<exists>cb algo key k sig d. PublicKeyCallback cfg = Some cb \<and> ParsePublicKey cr key = Parsed k \<and>
          key_answer net addr cb user k perms \<and> buildDataSignedForAuth sessionId req algo key = Inr d \<and>
          VerifyKey cr k d sig = Inr None))"

lemma run_dialog_consents: "run_dialog d a = Ran (Inr perms, a') \<Longrightarrow> consents d perms"
proof (induction d arbitrary: a)
  case (Challenges i qs es f)
  then obtain x a1 where "run_dialog (f x) a1 = Ran (Inr perms, a')" by (auto simp: and_then_Ran)
  then have "consents (f x) perms" using Challenges.IH by blast
  then show ?case by (rule consents.intros)
qed (auto intro: consents.intros)

lemma cache_get_Some: "cache_get ks user d = Some k \<Longrightarrow> k \<in> set ks \<and> c_user k = user \<and> c_pubKeyData k = d"
  by (induction ks) (auto split: if_splits)

lemma set_cache_add: "set (cache_add ks k) \<subseteq> insert k (set ks)"
  by (auto simp: cache_add_def)

text \<open>A good candidate is an answer of the callback, and the cache stays one of answers.\<close>

lemma queryKey_sound:
  assumes "queryKey net addr cb key k a = (c, a')" "cache_ok cr net addr cfg a" "PublicKeyCallback cfg = Some cb"
    "ParsePublicKey cr key = Parsed k"
  shows "cache_ok cr net addr cfg a' \<and> (c_result c = None \<longrightarrow> key_answer net addr cb (a_user a) k (c_perms c))"
proof (cases "cache_get (a_cache a) (a_user a) key")
  case None
  obtain w r where w: "cb (a_world a) (a_user a) k = (w, r)" by fastforce
  have c: "c_user c = a_user a" "c_pubKeyData c = key" "a_cache a' = cache_add (a_cache a) c"
    using assms(1) None w by (auto simp: queryKey_def Let_def)
  have "c_result c = None \<longrightarrow> key_answer net addr cb (a_user a) k (c_perms c)"
    using assms(1) None w by (cases r) (fastforce simp: queryKey_def Let_def key_answer_def split: if_splits)+
  then show ?thesis using assms(2-4) c set_cache_add [of "a_cache a" c] by (auto simp: cache_ok_def)
next
  case (Some k')
  then have "c = k'" "a' = a" using assms(1) by (auto simp: queryKey_def)
  then show ?thesis using assms(2-4) cache_get_Some [OF Some] by (auto simp: cache_ok_def)
qed

lemma checkSignature_sound:
  assumes "checkSignature cr sid req algo key k rest c = Ran (Verdict None perms)"
  shows "c_result c = None \<and> perms = c_perms c \<and> (\<exists>sig d. buildDataSignedForAuth sid req algo key = Inr d \<and> VerifyKey cr k d sig = Inr None)"
  using assms by (auto simp: checkSignature_def bind_sum_Inr split: sum.splits option.splits prod.splits if_splits)

lemma answerQuery_denies: "answerQuery algo key rest c a \<noteq> Ran (Verdict None perms, a')"
  by (auto simp: answerQuery_def and_then_Ran split: if_splits)

lemma method_publickey_sound:
  assumes m: "method_publickey cr net addr sid cfg req a = Ran (v, a')" and ok: "cache_ok cr net addr cfg a"
  shows "cache_ok cr net addr cfg a' \<and> (\<forall>perms. v = Verdict None perms \<longrightarrow>
    (\<exists>cb algo key k sig d. PublicKeyCallback cfg = Some cb \<and> ParsePublicKey cr key = Parsed k \<and>
       key_answer net addr cb (a_user a) k perms \<and> buildDataSignedForAuth sid req algo key = Inr d \<and> VerifyKey cr k d sig = Inr None))"
proof (cases "\<exists>cb b pl algo pl1 key pl2 k. PublicKeyCallback cfg = Some cb \<and> bytes_at req 3 = b # pl \<and>
    getString (ParseError 50) pl = Parsed (algo, pl1) \<and> isAcceptableAlgo algo \<and>
    getString (ParseError 50) pl1 = Parsed (key, pl2) \<and> ParsePublicKey cr key = Parsed k")
  case True
  then obtain cb b pl algo pl1 key pl2 k where r: "PublicKeyCallback cfg = Some cb" "bytes_at req 3 = b # pl"
    "getString (ParseError 50) pl = Parsed (algo, pl1)" "isAcceptableAlgo algo"
    "getString (ParseError 50) pl1 = Parsed (key, pl2)" "ParsePublicKey cr key = Parsed k" by blast
  obtain c a1 where q: "queryKey net addr cb key k a = (c, a1)" by fastforce
  note s = queryKey_sound [OF q ok r(1,6)]
  show ?thesis
  proof (cases "b = 0")
    case True
    then have "answerQuery algo key pl2 c a1 = Ran (v, a')" using m r q by (simp add: method_publickey_def)
    then show ?thesis using s answerQuery_denies answerQuery_same by (fastforce simp: cache_ok_def)
  next
    case False
    then have v: "checkSignature cr sid req algo key k pl2 c = Ran v" "a' = a1"
      using m r q by (auto simp: method_publickey_def and_then_Ran)
    have "key_answer net addr cb (a_user a) k perms \<and> (\<exists>sig d. buildDataSignedForAuth sid req algo key = Inr d \<and>
        VerifyKey cr k d sig = Inr None)" if "v = Verdict None perms" for perms
      using checkSignature_sound [of cr sid req algo key k pl2 c perms] v(1) that s by auto
    then show ?thesis using s r(1,6) v(2) by metis
  qed
next
  case False
  then have "a' = a \<and> (\<forall>perms. v \<noteq> Verdict None perms)"
    using m by (auto simp: method_publickey_def split: option.splits list.splits parsed.splits prod.splits if_splits)
  then show ?thesis using ok by simp
qed

lemma tryMethod_sound:
  assumes m: "tryMethod cr net addr sid cfg req a = Ran (v, a')" and ok: "cache_ok cr net addr cfg a"
  shows "cache_ok cr net addr cfg a' \<and> (\<forall>perms. v = Verdict None perms \<longrightarrow> authorised cr net addr sid cfg (a_user a) req perms)"
proof -
  consider "bytes_at req 2 = bytes_of ''none''" | "bytes_at req 2 = bytes_of ''password''"
    | "bytes_at req 2 = bytes_of ''keyboard-interactive''" | "bytes_at req 2 = bytes_of ''publickey''"
    | "bytes_at req 2 \<notin> {bytes_of ''none'', bytes_of ''password'', bytes_of ''keyboard-interactive'', bytes_of ''publickey''}" by blast
  then show ?thesis
  proof cases
    case 1
    then show ?thesis using m ok by (auto simp: tryMethod_def authorised_def cache_ok_def split: if_splits)
  next
    case 2
    then have p: "method_password cfg (bytes_at req 3) a = Ran (v, a')" using m by (simp add: tryMethod_def bytes_of_inject)
    have "a_cache a' = a_cache a" using p
      by (auto simp: method_password_def split: option.splits list.splits parsed.splits prod.splits if_splits)
    moreover have "authorised cr net addr sid cfg (a_user a) req perms" if "v = Verdict None perms" for perms
      using p that 2 by (auto simp: method_password_def authorised_def callback_verdict_def
        split: option.splits list.splits parsed.splits prod.splits if_splits sum.splits)
    ultimately show ?thesis using ok by (simp add: cache_ok_def)
  next
    case 3
    then have p: "method_keyboard cfg a = Ran (v, a')" using m by (simp add: tryMethod_def bytes_of_inject)
    have "a_cache a' = a_cache a" using p
      by (auto simp: method_keyboard_def and_then_Ran dest: run_dialog_same split: option.splits)
    moreover have "authorised cr net addr sid cfg (a_user a) req perms" if v: "v = Verdict None perms" for perms
    proof -
      obtain cb r where cb: "KeyboardInteractiveCallback cfg = Some cb" "run_dialog (cb (a_world a) (a_user a)) a = Ran (r, a')"
        "callback_verdict r = Verdict None perms"
        using p v by (auto simp: method_keyboard_def and_then_Ran split: option.splits)
      then have "r = Inr perms" by (auto simp: callback_verdict_def split: sum.splits)
      then have "consents (cb (a_world a) (a_user a)) perms" using cb(2) run_dialog_consents by blast
      then show ?thesis using 3 cb(1) unfolding authorised_def by blast
    qed
    ultimately show ?thesis using ok by (simp add: cache_ok_def)
  next
    case 4
    then have p: "method_publickey cr net addr sid cfg req a = Ran (v, a')" using m by (simp add: tryMethod_def bytes_of_inject)
    show ?thesis using method_publickey_sound [OF p ok] 4 unfolding authorised_def by blast
  next
    case 5
    then show ?thesis using m ok by (auto simp: tryMethod_def)
  qed
qed

text \<open>A request of the client that lets it in.\<close>

definition admits :: "crypto \<Rightarrow> net_functions \<Rightarrow> remote_addr \<Rightarrow> bytes \<Rightarrow> ('s, 'x, 'w) auth_config \<Rightarrow> bytes \<Rightarrow>
    permissions option \<Rightarrow> bool" where
  "admits cr net addr sessionId cfg packet perms \<longleftrightarrow>
     (\<exists>req. Unmarshal packet userAuthRequestMsg = Parsed req \<and> bytes_at req 1 = bytes_of ''ssh-connection'' \<and>
        authorised cr net addr sessionId cfg (bytes_at req 0) req perms)"

lemma authRequest_sound:
  assumes r: "authRequest cr net addr sid cfg a = Ran (r, a')" and ok: "cache_ok cr net addr cfg a"
  shows "cache_ok cr net addr cfg a' \<and>
    (\<forall>perms. r = Some (Inr perms) \<longrightarrow> (\<exists>packet. Inr packet \<in> set (a_in a) \<and> admits cr net addr sid cfg packet perms))"
proof -
  obtain x a1 where rp: "readPacket a = Ran (x, a1)" using r by (auto simp: authRequest_def and_then_Ran)
  have ok1: "cache_ok cr net addr cfg a1" using ok readPacket_same [OF rp] by (simp add: cache_ok_def)
  show ?thesis
  proof (cases "\<exists>packet req. x = Inr packet \<and> Unmarshal packet userAuthRequestMsg = Parsed req \<and>
      bytes_at req 1 = bytes_of ''ssh-connection''")
    case False
    then show ?thesis using r rp ok1
      by (cases x) (auto simp: authRequest_def split: parsed.splits if_splits)
  next
    case True
    then obtain packet req where p: "x = Inr packet" "Unmarshal packet userAuthRequestMsg = Parsed req"
      "bytes_at req 1 = bytes_of ''ssh-connection''" by blast
    let ?a = "a1\<lparr>a_user := bytes_at req 0\<rparr>"
    obtain v a2 where v: "tryMethod cr net addr sid cfg req ?a = Ran (v, a2)"
      using r rp p by (auto simp: authRequest_def and_then_Ran)
    have "cache_ok cr net addr cfg ?a" using ok1 by (simp add: cache_ok_def)
    note s = tryMethod_sound [OF v this]
    have deny: "a_cache a4 = a_cache a3" if "denyRequest cfg a3 = Ran (e, a4)" for a3 a4 e
      using that writeMessage_same by (auto simp: denyRequest_def and_then_Ran split: if_splits)
    have log: "a_cache (logAttempt cfg m e a2) = a_cache a2" for m e a2 by (simp add: logAttempt_def)
    have "a_cache a' = a_cache a2 \<and> (\<forall>perms. r = Some (Inr perms) \<longrightarrow> v = Verdict None perms)"
      using r rp p v deny log by (cases v) (auto simp: authRequest_def Let_def and_then_Ran split: if_splits)
    moreover have "Inr packet \<in> set (a_in a)"
      using rp p(1) by (auto simp: readPacket_def split: list.splits sum.splits)
    ultimately show ?thesis using s p(2,3) by (auto simp: cache_ok_def admits_def)
  qed
qed

lemma auth_loop_sound:
  "auth_loop cr net addr sid cfg a = Ran (Inr perms, a') \<Longrightarrow> cache_ok cr net addr cfg a \<Longrightarrow>
     \<exists>packet. Inr packet \<in> set (a_in a) \<and> admits cr net addr sid cfg packet perms"
proof (induction cr net addr sid cfg a rule: auth_loop.induct)
  case (1 cr net addr sid cfg a)
  obtain r a1 where r: "authRequest cr net addr sid cfg a = Ran (r, a1)"
    using "1.prems"(1) by (subst (asm) auth_loop.simps) (auto split: step.splits)
  note s = authRequest_sound [OF r "1.prems"(2)]
  show ?case
  proof (cases r)
    case None
    then have "auth_loop cr net addr sid cfg a1 = Ran (Inr perms, a')"
      using "1.prems"(1) r by (subst (asm) auth_loop.simps) simp
    then have "\<exists>packet. Inr packet \<in> set (a_in a1) \<and> admits cr net addr sid cfg packet perms"
      using "1.IH" [OF r refl None] s by blast
    moreover have "set (a_in a1) \<subseteq> set (a_in a)"
      using authRequest_suffix [OF r] by (auto simp: strict_suffix_def suffix_def)
    ultimately show ?thesis by blast
  next
    case (Some x)
    then have "x = Inr perms" using "1.prems"(1) r by (subst (asm) auth_loop.simps) simp
    then show ?thesis using s Some by blast
  qed
qed

lemma serverAuthenticate_admits:
  assumes "serverAuthenticate cr net addr sessionId cfg a = Ran (Inr perms, a')" "a_cache a = []"
  shows "\<exists>packet. Inr packet \<in> set (a_in a) \<and> admits cr net addr sessionId cfg packet perms"
proof -
  obtain r a1 where r: "auth_loop cr net addr sessionId cfg a = Ran (r, a1)"
    using assms(1) by (auto simp: serverAuthenticate_def and_then_Ran)
  then have "r = Inr perms"
    using assms(1) by (cases r) (auto simp: serverAuthenticate_def and_then_Ran split: if_splits)
  with r have "auth_loop cr net addr sessionId cfg a = Ran (Inr perms, a1)" by simp
  moreover have "cache_ok cr net addr cfg a" using assms(2) by (simp add: cache_ok_def)
  ultimately show ?thesis by (rule auth_loop_sound)
qed

lemma serverHandshake_admits:
  assumes "serverHandshake cr net addr sessionId cfg below a = Ran (Inr (perms, m), a')" "a_cache a = []"
  shows "\<exists>packet. Inr packet \<in> set (a_in a) \<and> admits cr net addr sessionId cfg packet perms"
proof -
  obtain r1 a1 where 1: "readPacket a = Ran (r1, a1)" and n: "hostKeys cfg \<noteq> []" "below = None"
    using assms(1) by (auto simp: serverHandshake_def and_then_Ran split: if_splits option.splits)
  obtain bs where r1: "r1 = Inr (21 # bs)"
    using assms(1) 1 n by (auto simp: serverHandshake_def split: sum.splits list.splits if_splits)
  obtain r2 a2 where 2: "readPacket a1 = Ran (r2, a2)"
    using assms(1) 1 n r1 by (auto simp: serverHandshake_def and_then_Ran)
  obtain packet vs where 3: "r2 = Inr packet" "Unmarshal packet serviceRequestMsg = Parsed vs"
    "bytes_at vs 0 = bytes_of ''ssh-userauth''"
    using assms(1) 1 n r1 2 by (auto simp: serverHandshake_def and_then_Ran split: sum.splits parsed.splits if_splits)
  obtain ok a3 where 4: "writeMessage (Marshal serviceAcceptMsg [VBytes (bytes_of ''ssh-userauth'')]) a2 = Ran (ok, a3)"
    using assms(1) 1 n r1 2 3 by (auto simp: serverHandshake_def and_then_Ran)
  have ok
    using assms(1) 1 n r1 2 3 4 by (auto simp: serverHandshake_def and_then_Ran split: if_splits)
  then obtain r a4 where 5: "serverAuthenticate cr net addr sessionId cfg a3 = Ran (r, a4)"
    using assms(1) 1 n r1 2 3 4 by (auto simp: serverHandshake_def and_then_Ran)
  then have "r = Inr perms"
    using assms(1) 1 n r1 2 3 4 \<open>ok\<close> by (cases r) (auto simp: serverHandshake_def)
  note r = readPacket_same [OF 1] readPacket_same [OF 2] writeMessage_same [OF 4]
  have "suffix (a_in a3) (a_in a)"
    using r by (metis strict_suffix_def suffix_order.order_trans)
  moreover have "\<exists>packet. Inr packet \<in> set (a_in a3) \<and> admits cr net addr sessionId cfg packet perms"
    using serverAuthenticate_admits [of cr net addr sessionId cfg a3 perms a4] 5 \<open>r = Inr perms\<close> r assms(2) by simp
  ultimately show ?thesis by (meson set_mono_suffix subsetD)
qed

section \<open>Properties\<close>


text \<open>A client that is let in with its second password.\<close>

definition small_net :: net_functions where
  "small_net = \<lparr>ParseIP = (\<lambda>b. None), ParseCIDR = (\<lambda>b. None)\<rparr>"

definition small_auth_config :: "(nat, unit, unit) auth_config" where
  "small_auth_config = \<lparr>hostKeys = [1], NoClientAuth = False,
     PasswordCallback = Some (\<lambda>w user pw. (w, if user = [117] \<and> pw = [112] then Inr None else Inl ())),
     PublicKeyCallback = None, KeyboardInteractiveCallback = None, AuthLogCallback = None, ServerVersion = []\<rparr>"

definition password_packet :: "bytes \<Rightarrow> bytes" where
  "password_packet pw =
     50 # writeString [117] @ writeString (bytes_of ''ssh-connection'') @ writeString (bytes_of ''password'') @ 0 # writeString pw"

definition small_auth :: "(unit, unit) auth" where
  "small_auth = \<lparr>a_in = [Inr (password_packet [113]), Inr (password_packet [112])], a_out = [], a_writes = 9, a_world = (),
     a_user = [], a_cache = [], a_log = []\<rparr>"

lemma small_auth_run:
  "(case serverAuthenticate small_crypto small_net NoAddr [] small_auth_config small_auth of
      Ran (Inr None, a) \<Rightarrow> length (a_out a) = 2 | _ \<Rightarrow> False)"
  by code_simp


text \<open>The data that is signed keeps the contract of an encoder.\<close>

definition auth_values :: "fval list \<Rightarrow> bool" where
  "auth_values vs \<longleftrightarrow> (\<exists>s t u service m b algo key.
     vs = [VBytes s, VU8 t, VBytes u, VBytes service, VBytes m, VBool b, VBytes algo, VBytes key])"

interpretation auth_data: codec "Marshal authData" "\<lambda>b. Unmarshal b authData" auth_values
proof
  fix vs b assume v: "auth_values vs" "Marshal authData vs = Inr b" "length b < 2 ^ 32"
  obtain bs where bs: "Marshal authData vs = Inr bs" "bs \<noteq> [] \<Longrightarrow> length bs < 2 ^ 32 \<Longrightarrow> Unmarshal bs authData = Parsed vs"
    by (rule Marshal_untagged_inverse [of authData vs])
      (use v(1) in \<open>auto simp: auth_values_def values_ok_def authData_def anonymous_def rest_last_def typed_def value_ok_def\<close>)
  have "b \<noteq> []" using v(1,2)
    by (auto simp: auth_values_def authData_def anonymous_def Marshal_def marshalStruct_def typeTag_def marshal_fields marshalField_def
      appendInt_def appendU32_def u32be_def)
  then show "Unmarshal b authData = Parsed vs" using bs v by simp
qed

text \<open>The data that is signed determines the session, the user, the service, the method, the algorithm and the
  key: a signature for one request is not one for another.\<close>

theorem buildDataSignedForAuth_inject:
  assumes "buildDataSignedForAuth s req algo key = Inr d" "buildDataSignedForAuth s' req' algo' key' = Inr d"
    "length d < 2 ^ 32"
  shows "s = s' \<and> bytes_at req 0 = bytes_at req' 0 \<and> bytes_at req 1 = bytes_at req' 1 \<and> bytes_at req 2 = bytes_at req' 2 \<and>
    algo = algo' \<and> key = key'"
proof -
  have "[VBytes s, VU8 50, VBytes (bytes_at req 0), VBytes (bytes_at req 1), VBytes (bytes_at req 2), VBool True, VBytes algo, VBytes key] =
      [VBytes s', VU8 50, VBytes (bytes_at req' 0), VBytes (bytes_at req' 1), VBytes (bytes_at req' 2), VBool True, VBytes algo', VBytes key']"
    by (rule auth_data.enc_inject [OF _ _ assms(1) [unfolded buildDataSignedForAuth_def]
          assms(2) [unfolded buildDataSignedForAuth_def] assms(3)]) (simp_all add: auth_values_def, blast+)
  then show ?thesis by simp
qed

theorem buildDataSignedForAuth_inject_witness:
  "\<exists>d. buildDataSignedForAuth [1] [VBytes [2], VBytes [3], VBytes [4]] [5] [6] = Inr d \<and>
     (\<forall>req. buildDataSignedForAuth [1] req [5] [6] = Inr d \<longrightarrow> bytes_at req 0 = [2])"
proof -
  let ?req = "[VBytes [2], VBytes [3], VBytes [4]]"
  have "\<exists>d. buildDataSignedForAuth [1] ?req [5] [6] = Inr d \<and> length d < 2 ^ 32"
    by (simp add: buildDataSignedForAuth_def bytes_at_def authData_def anonymous_def Marshal_def marshalStruct_def typeTag_def
      marshalField_def appendInt_def appendU32_def)
  then obtain d where d: "buildDataSignedForAuth [1] ?req [5] [6] = Inr d" "length d < 2 ^ 32" by blast
  have "bytes_at req 0 = [2]" if "buildDataSignedForAuth [1] req [5] [6] = Inr d" for req
    using buildDataSignedForAuth_inject [OF d(1) that d(2)] by (simp add: bytes_at_def)
  then show ?thesis using d(1) by blast
qed

end
