(* ===== verification/Server.thy ===== *)
theory Server
  imports Net_Context Ssh_Auth
begin

text \<open>
  The server of \<^verbatim>\<open>server.go\<close> and \<^verbatim>\<open>config.go\<close>, and the task reaper of the vendored package
  \<^verbatim>\<open>github.com/blacklabeldata/grim\<close> that it runs its goroutines on.

  The server is a state machine. Its state holds the memory of the contexts, the reaper, the
  listen loop and one record for each connection that was accepted; an event is one step of a
  goroutine, of the peer or of the application, and goroutines interleave in any order. What is
  outside, the handshake and the multiplexer of a connection, appears by its events: the handshake
  succeeds or fails, a channel request arrives, the connection is lost. Logging is left out.
\<close>

section \<open>The reaper\<close>

record ('k, 'v) reaper =
  wg :: nat
      \<comment> \<open>the counter of the wait group\<close>
  r_ctx :: "('k, 'v) ctx"

definition ReaperWithContext :: "memory \<Rightarrow> ('k, 'v) ctx \<Rightarrow> (memory \<times> ('k, 'v) reaper) step" where
  "ReaperWithContext m c =
     and_then (returns (WithCancel m c)) (\<lambda>(m1, ctx). Ran (m1, \<lparr>wg = 0, r_ctx = ctx\<rparr>))"

definition Reaper :: "memory \<Rightarrow> (memory \<times> ('k, 'v) reaper) step" where
  "Reaper m = ReaperWithContext m emptyCtx"

text \<open>\<open>Spawn\<close> and \<open>SpawnFunc\<close>: the counter, and the context the task runs with.\<close>

definition Spawn :: "memory \<Rightarrow> ('k, 'v) reaper \<Rightarrow> (memory \<times> ('k, 'v) reaper \<times> ('k, 'v) ctx) step" where
  "Spawn m r =
     and_then (returns (WithCancel m (r_ctx r))) (\<lambda>(m1, c). Ran (m1, r\<lparr>wg := Suc (wg r)\<rparr>, c))"

text \<open>The deferred \<open>r.wg.Done()\<close> of a task.\<close>

definition Done :: "('k, 'v) reaper \<Rightarrow> ('k, 'v) reaper step" where
  "Done r = (if wg r = 0 then Panicked NegativeWaitGroup else Ran (r\<lparr>wg := wg r - 1\<rparr>))"

definition Wait :: "('k, 'v) reaper \<Rightarrow> unit step" where
  "Wait r = (if wg r = 0 then Ran () else Blocks)"

definition Kill :: "memory \<Rightarrow> ('k, 'v) reaper \<Rightarrow> memory step" where
  "Kill m r = returns (cancelFunc m (r_ctx r))"

definition New_reaper :: "memory \<Rightarrow> ('k, 'v) reaper \<Rightarrow> (memory \<times> ('k, 'v) reaper) step" where
  "New_reaper m r = ReaperWithContext m (r_ctx r)"

definition Dead :: "memory \<Rightarrow> ('k, 'v) reaper \<Rightarrow> bool" where
  "Dead m r = is_done m (r_ctx r)"

section \<open>Configuration\<close>

text \<open>Callbacks, signers and the dispatcher are values of the application.\<close>

record ('s, 'p, 'q, 'i, 'l, 'k, 'v) Config =
  cfg_Context :: "('k, 'v) ctx option"
  cfg_Bind :: string
  cfg_PrivateKey :: 's
  cfg_PasswordCallback :: "'p option"
  cfg_PublicKeyCallback :: "'q option"
  cfg_AuthLogCallback :: "'l option"
  cfg_sshConfig :: "('s, 'p, 'q, 'i, 'l) ServerConfig option"

definition SSHConfig :: "('s \<Rightarrow> string) \<Rightarrow> ('s, 'p, 'q, 'i, 'l, 'k, 'v) Config \<Rightarrow> ('s, 'p, 'q, 'i, 'l) ServerConfig" where
  "SSHConfig keyType c =
     AddHostKey keyType
       \<lparr>hostKeys = [], NoClientAuth = False, PasswordCallback = cfg_PasswordCallback c,
        PublicKeyCallback = cfg_PublicKeyCallback c, KeyboardInteractiveCallback = None,
        AuthLogCallback = cfg_AuthLogCallback c, ServerVersion = ''''\<rparr>
       (cfg_PrivateKey c)"

section \<open>The state\<close>

datatype conn_state =
    Spawned
      \<comment> \<open>at the first \<open>select\<close> of \<open>Execute\<close>\<close>
  | Handshaking
  | Serving
      \<comment> \<open>at the \<open>select\<close> of the loop \<open>OUTER\<close>\<close>
  | Waiting
      \<comment> \<open>in the deferred \<open>sshConn.Wait()\<close>\<close>
  | Reaping
      \<comment> \<open>in the deferred \<open>g.Wait()\<close>\<close>
  | Finished

record ('k, 'v) conn =
  k_ctx :: "('k, 'v) ctx"
  k_state :: conn_state
  k_open :: bool
      \<comment> \<open>the TCP connection\<close>
  k_lost :: bool
      \<comment> \<open>the loop of the multiplexer has ended\<close>
  k_chans :: nat
      \<comment> \<open>channel requests in the queue \<open>channels\<close>\<close>
  k_reaper :: "('k, 'v) reaper"
  k_handlers :: "('k, 'v) ctx list"
      \<comment> \<open>the goroutines in \<open>Dispatch\<close>\<close>

datatype loop_state = NotStarted | AtSelect | Accepting | Exited
datatype stop_state = NotStopped | Stopping | Stopped

record ('k, 'v) server =
  s_mem :: memory
  s_parent :: "('k, 'v) ctx"
      \<comment> \<open>\<open>config.Context\<close>\<close>
  s_reaper :: "('k, 'v) reaper"
  s_loop :: loop_state
  s_loop_ctx :: "('k, 'v) ctx"
  s_listening :: bool
      \<comment> \<open>the listener is open\<close>
  s_conns :: "('k, 'v) conn list"
  s_stop :: stop_state

datatype 'x new_error = NoContext | EmptyBind | InvalidAddress | ListenError 'x

text \<open>
  \<open>New\<close>. \<open>ResolveTCPAddr\<close> and \<open>ListenTCP\<close> are the operating system's; the first returns no address
  on an error. The configuration is changed even where an error follows.
\<close>

definition New :: "('s \<Rightarrow> string) \<Rightarrow> (string \<Rightarrow> 'a option) \<Rightarrow> ('a \<Rightarrow> 'x option) \<Rightarrow> memory \<Rightarrow> ('s, 'p, 'q, 'i, 'l, 'k, 'v) Config \<Rightarrow>
    (('s, 'p, 'q, 'i, 'l, 'k, 'v) Config \<times> ('x new_error + ('k, 'v) server)) step" where
  "New keyType resolve listenTCP m cfg =
     (case cfg_Context cfg of
        None \<Rightarrow> Ran (cfg, Inl NoContext)
      | Some c \<Rightarrow>
          (let cfg1 = cfg\<lparr>cfg_sshConfig := Some (SSHConfig keyType cfg)\<rparr> in
           if cfg_Bind cfg = '''' then Ran (cfg1, Inl EmptyBind)
           else
             (case resolve (cfg_Bind cfg) of
                None \<Rightarrow> Ran (cfg1, Inl InvalidAddress)
              | Some a \<Rightarrow>
                  (case listenTCP a of
                     Some e \<Rightarrow> Ran (cfg1, Inl (ListenError e))
                   | None \<Rightarrow>
                       and_then (ReaperWithContext m c) (\<lambda>(m1, r).
                         Ran (cfg1, Inr \<lparr>s_mem = m1, s_parent = c, s_reaper = r, s_loop = NotStarted,
                           s_loop_ctx = emptyCtx, s_listening = True, s_conns = [], s_stop = NotStopped\<rparr>))))))"

section \<open>The goroutines\<close>

definition Start :: "('k, 'v) server \<Rightarrow> ('k, 'v) server step" where
  "Start s =
     and_then (Spawn (s_mem s) (s_reaper s)) (\<lambda>(m, r, c).
       Ran (s\<lparr>s_mem := m, s_reaper := r, s_loop := AtSelect, s_loop_ctx := c\<rparr>))"

text \<open>\<open>Stop\<close>, up to \<open>s.reaper.Wait()\<close> and its return.\<close>

definition Stop_kill :: "('k, 'v) server \<Rightarrow> ('k, 'v) server step" where
  "Stop_kill s = and_then (Kill (s_mem s) (s_reaper s)) (\<lambda>m. Ran (s\<lparr>s_mem := m, s_stop := Stopping\<rparr>))"

definition Stop_return :: "('k, 'v) server \<Rightarrow> ('k, 'v) server step" where
  "Stop_return s = and_then (Wait (s_reaper s)) (\<lambda>_. Ran (s\<lparr>s_stop := Stopped\<rparr>))"

text \<open>\<open>listen\<close>: the \<open>select\<close>, with the return and its deferred calls, and the two outcomes of \<open>Accept\<close>.\<close>

definition listen_select :: "('k, 'v) server \<Rightarrow> ('k, 'v) server step" where
  "listen_select s =
     (if is_done (s_mem s) (s_loop_ctx s)
      then and_then (Done (s_reaper s)) (\<lambda>r. Ran (s\<lparr>s_loop := Exited, s_listening := False, s_reaper := r\<rparr>))
      else Ran (s\<lparr>s_loop := Accepting\<rparr>))"

definition listen_error :: "('k, 'v) server \<Rightarrow> ('k, 'v) server step" where
  "listen_error s = Ran (s\<lparr>s_loop := AtSelect\<rparr>)"

definition listen_accept :: "('k, 'v) server \<Rightarrow> ('k, 'v) server step" where
  "listen_accept s =
     and_then (Spawn (s_mem s) (s_reaper s)) (\<lambda>(m, r, c).
       Ran (s\<lparr>s_mem := m, s_reaper := r, s_loop := AtSelect, s_conns := s_conns s @
         [\<lparr>k_ctx = c, k_state = Spawned, k_open = True, k_lost = False, k_chans = 0,
           k_reaper = \<lparr>wg = 0, r_ctx = emptyCtx\<rparr>, k_handlers = []\<rparr>]\<rparr>))"

text \<open>A step of \<open>Execute\<close> changes the memory, the server's reaper and its own connection.\<close>

definition put_conn :: "('k, 'v) server \<Rightarrow> nat \<Rightarrow> memory \<Rightarrow> ('k, 'v) reaper \<Rightarrow> ('k, 'v) conn \<Rightarrow> ('k, 'v) server" where
  "put_conn s i m r k = s\<lparr>s_mem := m, s_reaper := r, s_conns := (s_conns s)[i := k]\<rparr>"

definition Execute_enter :: "('k, 'v) server \<Rightarrow> nat \<Rightarrow> ('k, 'v) server step" where
  "Execute_enter s i =
     (let k = s_conns s ! i in
      if is_done (s_mem s) (k_ctx k)
      then and_then (Done (s_reaper s)) (\<lambda>r. Ran (put_conn s i (s_mem s) r (k\<lparr>k_open := False, k_state := Finished\<rparr>)))
      else and_then (ReaperWithContext (s_mem s) (k_ctx k)) (\<lambda>(m, g).
             Ran (put_conn s i m (s_reaper s) (k\<lparr>k_reaper := g, k_state := Handshaking\<rparr>))))"

definition handshake_failed :: "('k, 'v) server \<Rightarrow> nat \<Rightarrow> ('k, 'v) server step" where
  "handshake_failed s i =
     (let k = s_conns s ! i in
      and_then (Kill (s_mem s) (k_reaper k)) (\<lambda>m.
        Ran (put_conn s i m (s_reaper s) (k\<lparr>k_open := False, k_state := Reaping\<rparr>))))"

definition handshake_done :: "('k, 'v) server \<Rightarrow> nat \<Rightarrow> ('k, 'v) server step" where
  "handshake_done s i = Ran (put_conn s i (s_mem s) (s_reaper s) ((s_conns s ! i)\<lparr>k_state := Serving\<rparr>))"

text \<open>\<open>break OUTER\<close> and the \<open>g.Kill()\<close> after the loop.\<close>

definition serve_break :: "('k, 'v) server \<Rightarrow> nat \<Rightarrow> ('k, 'v) server step" where
  "serve_break s i =
     (let k = s_conns s ! i in
      and_then (Kill (s_mem s) (k_reaper k)) (\<lambda>m.
        Ran (put_conn s i m (s_reaper s) (k\<lparr>k_state := Waiting\<rparr>))))"

text \<open>The cases of the \<open>select\<close>: one of the contexts, or the queue of channels.\<close>

definition serve_done :: "('k, 'v) server \<Rightarrow> nat \<Rightarrow> ('k, 'v) server step" where
  "serve_done s i =
     (let k = s_conns s ! i in
      if is_done (s_mem s) (k_ctx k) \<or> Dead (s_mem s) (k_reaper k) then serve_break s i else Blocks)"

definition serve_channel :: "('k, 'v) server \<Rightarrow> nat \<Rightarrow> ('k, 'v) server step" where
  "serve_channel s i =
     (let k = s_conns s ! i in
      if k_chans k = 0 then (if k_lost k then serve_break s i else Blocks)
      else and_then (Spawn (s_mem s) (k_reaper k)) (\<lambda>(m, g, c).
             Ran (put_conn s i m (s_reaper s)
               (k\<lparr>k_chans := k_chans k - 1, k_reaper := g, k_handlers := k_handlers k @ [c]\<rparr>))))"

definition Dispatch_returns :: "('k, 'v) server \<Rightarrow> nat \<Rightarrow> nat \<Rightarrow> ('k, 'v) server step" where
  "Dispatch_returns s i h =
     (let k = s_conns s ! i in
      and_then (Done (k_reaper k)) (\<lambda>g.
        Ran (put_conn s i (s_mem s) (s_reaper s)
          (k\<lparr>k_reaper := g, k_handlers := take h (k_handlers k) @ drop (Suc h) (k_handlers k)\<rparr>))))"

text \<open>The deferred calls, in their order: \<open>sshConn.Wait()\<close>, \<open>sshConn.Close()\<close>, then \<open>g.Wait()\<close> and the
  reaper's \<open>wg.Done()\<close>.\<close>

definition conn_wait :: "('k, 'v) server \<Rightarrow> nat \<Rightarrow> ('k, 'v) server step" where
  "conn_wait s i =
     (let k = s_conns s ! i in
      if k_lost k then Ran (put_conn s i (s_mem s) (s_reaper s) (k\<lparr>k_open := False, k_state := Reaping\<rparr>)) else Blocks)"

definition conn_reap :: "('k, 'v) server \<Rightarrow> nat \<Rightarrow> ('k, 'v) server step" where
  "conn_reap s i =
     (let k = s_conns s ! i in
      and_then (Wait (k_reaper k)) (\<lambda>_. and_then (Done (s_reaper s)) (\<lambda>r.
        Ran (put_conn s i (s_mem s) r (k\<lparr>k_state := Finished\<rparr>)))))"

section \<open>Runs\<close>

datatype ('k, 'v) event =
    Starts
  | StopKills
  | StopReturns
  | ListenSelects
  | AcceptFails
  | AcceptReturns
  | Executes nat
  | HandshakeFails nat
  | HandshakeSucceeds nat
  | SelectsDone nat
  | SelectsChannel nat
  | DispatchReturns nat nat
  | ConnWaits nat
  | ConnReaps nat
  | PeerOpens nat
      \<comment> \<open>a channel request arrives\<close>
  | ConnLost nat
      \<comment> \<open>the transport fails: the peer is gone, or the handler closed the connection\<close>
  | ContextCancelled "('k, 'v) ctx"
      \<comment> \<open>the application cancels a context above the server\<close>

definition conn_at :: "('k, 'v) server \<Rightarrow> nat \<Rightarrow> conn_state \<Rightarrow> bool" where
  "conn_at s i st \<longleftrightarrow> i < length (s_conns s) \<and> k_state (s_conns s ! i) = st"

text \<open>Where the goroutine of the event must be; \<open>Start\<close> and \<open>Stop\<close> are called once, \<open>Start\<close> not after \<open>Stop\<close>.\<close>

fun enabled :: "('k, 'v) server \<Rightarrow> ('k, 'v) event \<Rightarrow> bool" where
  "enabled s Starts \<longleftrightarrow> s_loop s = NotStarted \<and> s_stop s = NotStopped"
| "enabled s StopKills \<longleftrightarrow> s_stop s = NotStopped"
| "enabled s StopReturns \<longleftrightarrow> s_stop s = Stopping"
| "enabled s ListenSelects \<longleftrightarrow> s_loop s = AtSelect"
| "enabled s AcceptFails \<longleftrightarrow> s_loop s = Accepting"
| "enabled s AcceptReturns \<longleftrightarrow> s_loop s = Accepting"
| "enabled s (Executes i) \<longleftrightarrow> conn_at s i Spawned"
| "enabled s (HandshakeFails i) \<longleftrightarrow> conn_at s i Handshaking"
| "enabled s (HandshakeSucceeds i) \<longleftrightarrow> conn_at s i Handshaking"
| "enabled s (SelectsDone i) \<longleftrightarrow> conn_at s i Serving"
| "enabled s (SelectsChannel i) \<longleftrightarrow> conn_at s i Serving"
| "enabled s (DispatchReturns i h) \<longleftrightarrow> i < length (s_conns s) \<and> h < length (k_handlers (s_conns s ! i))"
| "enabled s (ConnWaits i) \<longleftrightarrow> conn_at s i Waiting"
| "enabled s (ConnReaps i) \<longleftrightarrow> conn_at s i Reaping"
| "enabled s (PeerOpens i) \<longleftrightarrow> (conn_at s i Serving \<or> conn_at s i Waiting) \<and> \<not> k_lost (s_conns s ! i) \<and> k_chans (s_conns s ! i) < 16"
| "enabled s (ConnLost i) \<longleftrightarrow> (conn_at s i Serving \<or> conn_at s i Waiting) \<and> \<not> k_lost (s_conns s ! i)"
| "enabled s (ContextCancelled c) \<longleftrightarrow> c \<in> ancestors (s_parent s)"

fun perform :: "('k, 'v) server \<Rightarrow> ('k, 'v) event \<Rightarrow> ('k, 'v) server step" where
  "perform s Starts = Start s"
| "perform s StopKills = Stop_kill s"
| "perform s StopReturns = Stop_return s"
| "perform s ListenSelects = listen_select s"
| "perform s AcceptFails = listen_error s"
| "perform s AcceptReturns = listen_accept s"
| "perform s (Executes i) = Execute_enter s i"
| "perform s (HandshakeFails i) = handshake_failed s i"
| "perform s (HandshakeSucceeds i) = handshake_done s i"
| "perform s (SelectsDone i) = serve_done s i"
| "perform s (SelectsChannel i) = serve_channel s i"
| "perform s (DispatchReturns i h) = Dispatch_returns s i h"
| "perform s (ConnWaits i) = conn_wait s i"
| "perform s (ConnReaps i) = conn_reap s i"
| "perform s (PeerOpens i) =
     Ran (s\<lparr>s_conns := (s_conns s)[i := (s_conns s ! i)\<lparr>k_chans := Suc (k_chans (s_conns s ! i))\<rparr>]\<rparr>)"
| "perform s (ConnLost i) = Ran (s\<lparr>s_conns := (s_conns s)[i := (s_conns s ! i)\<lparr>k_lost := True\<rparr>]\<rparr>)"
| "perform s (ContextCancelled c) = and_then (returns (cancelFunc (s_mem s) c)) (\<lambda>m. Ran (s\<lparr>s_mem := m\<rparr>))"

text \<open>The events of a run, in their order.\<close>

inductive server_run :: "('k, 'v) server \<Rightarrow> ('k, 'v) event list \<Rightarrow> ('k, 'v) server \<Rightarrow> bool" where
  run_init: "server_run s [] s"
| run_event: "server_run s0 es s \<Longrightarrow> enabled s e \<Longrightarrow> perform s e = Ran s' \<Longrightarrow> server_run s0 (es @ [e]) s'"

section \<open>Host keys\<close>

lemma replaceKey_Some:
  "replaceKey keyType ks key = Some ks' \<Longrightarrow> map keyType ks' = map keyType ks \<and>
     filter (\<lambda>k. keyType k \<noteq> keyType key) ks' = filter (\<lambda>k. keyType k \<noteq> keyType key) ks \<and>
     (distinct (map keyType ks) \<longrightarrow> filter (\<lambda>k. keyType k = keyType key) ks' = [key])"
  by (induction ks arbitrary: ks') (auto simp: filter_empty_conv rev_image_eqI split: if_splits)

lemma replaceKey_None: "replaceKey keyType ks key = None \<longleftrightarrow> keyType key \<notin> keyType ` set ks"
  by (induction ks) auto

text \<open>In a configuration that has at most one host key of each algorithm, \<open>AddHostKey\<close> keeps it so; the new
  key is the only one of its algorithm, and the keys of the other algorithms and their order stay.\<close>

theorem AddHostKey_types:
  assumes "distinct (map keyType (hostKeys sc))"
  shows "distinct (map keyType (hostKeys (AddHostKey keyType sc key))) \<and>
    filter (\<lambda>k. keyType k = keyType key) (hostKeys (AddHostKey keyType sc key)) = [key] \<and>
    filter (\<lambda>k. keyType k \<noteq> keyType key) (hostKeys (AddHostKey keyType sc key)) =
      filter (\<lambda>k. keyType k \<noteq> keyType key) (hostKeys sc)"
proof (cases "replaceKey keyType (hostKeys sc) key")
  case None
  then have new: "keyType key \<notin> keyType ` set (hostKeys sc)" by (simp add: replaceKey_None)
  then have "\<forall>k \<in> set (hostKeys sc). keyType k \<noteq> keyType key" by (metis imageI)
  then show ?thesis using assms None new by (simp add: AddHostKey_def filter_empty_conv filter_id_conv)
next
  case (Some ks)
  then show ?thesis using assms replaceKey_Some [OF Some] by (simp add: AddHostKey_def)
qed

theorem AddHostKey_types_witness:
  "distinct (map (\<lambda>k. if k < 10 then ''rsa'' else ''dsa'')
     (hostKeys (AddHostKey (\<lambda>k. if k < 10 then ''rsa'' else ''dsa'')
       \<lparr>hostKeys = [3, 12], NoClientAuth = False, PasswordCallback = None :: nat option,
        PublicKeyCallback = None :: nat option, KeyboardInteractiveCallback = None :: nat option,
        AuthLogCallback = None :: nat option, ServerVersion = ''''\<rparr> (5 :: nat))))"
  by (rule conjunct1 [OF AddHostKey_types]) simp

end
