(* ===== verification/Server_Invariant.thy ===== *)
theory Server_Invariant
  imports Server
begin

text \<open>
  The invariant of the server: its contexts are in order, the wait groups count the goroutines, and a
  goroutine that has ended has closed its connection. Every event of a run keeps it, and no enabled
  event panics.
\<close>

section \<open>The invariant\<close>

definition conn_ok :: "memory \<Rightarrow> ('k, 'v) ctx \<Rightarrow> ('k, 'v) conn \<Rightarrow> bool" where
  "conn_ok m root k \<longleftrightarrow>
     chain_ok m (k_ctx k) \<and> root \<in> ancestors (k_ctx k) \<and> chain_ok m (r_ctx (k_reaper k)) \<and>
     (k_state k \<notin> {Spawned, Finished} \<longrightarrow> (\<exists>a. r_ctx (k_reaper k) = cancelCtx a (k_ctx k))) \<and>
     (\<forall>h \<in> set (k_handlers k). chain_ok m h \<and> r_ctx (k_reaper k) \<in> ancestors h) \<and>
     wg (k_reaper k) = length (k_handlers k) \<and>
     (k_state k \<in> {Spawned, Handshaking, Finished} \<longrightarrow> k_handlers k = []) \<and>
     (k_state k \<in> {Reaping, Finished} \<longrightarrow> \<not> k_open k) \<and>
     (k_state k \<in> {Waiting, Reaping} \<longrightarrow> Dead m (k_reaper k))"

definition active :: "('k, 'v) conn \<Rightarrow> bool" where
  "active k \<longleftrightarrow> k_state k \<noteq> Finished"

definition loop_tasks :: "loop_state \<Rightarrow> nat" where
  "loop_tasks l = (if l \<in> {AtSelect, Accepting} then 1 else 0)"

definition server_ok :: "('k, 'v) server \<Rightarrow> bool" where
  "server_ok s \<longleftrightarrow>
     mem_ok (s_mem s) \<and> chain_ok (s_mem s) (r_ctx (s_reaper s)) \<and>
     (\<exists>a. r_ctx (s_reaper s) = cancelCtx a (s_parent s)) \<and>
     chain_ok (s_mem s) (s_loop_ctx s) \<and> (s_loop s \<noteq> NotStarted \<longrightarrow> r_ctx (s_reaper s) \<in> ancestors (s_loop_ctx s)) \<and>
     wg (s_reaper s) = loop_tasks (s_loop s) + length (filter active (s_conns s)) \<and>
     (\<forall>k \<in> set (s_conns s). conn_ok (s_mem s) (r_ctx (s_reaper s)) k) \<and>
     (s_listening s \<longleftrightarrow> s_loop s \<noteq> Exited) \<and>
     (s_stop s \<noteq> NotStopped \<longrightarrow> Dead (s_mem s) (s_reaper s)) \<and>
     (s_stop s = Stopped \<longrightarrow> loop_tasks (s_loop s) = 0 \<and> filter active (s_conns s) = [])"

text \<open>A step that waits, or runs into a state with the property; it does not panic.\<close>

definition step_ok :: "('a \<Rightarrow> bool) \<Rightarrow> 'a step \<Rightarrow> bool" where
  "step_ok P st \<longleftrightarrow> (case st of Ran x \<Rightarrow> P x | Blocks \<Rightarrow> True | Panicked e \<Rightarrow> False)"

lemma step_ok_simps [simp]: "step_ok P (Ran x) = P x" "step_ok P Blocks" "\<not> step_ok P (Panicked e)"
  by (simp_all add: step_ok_def)

lemma is_done_keeps: "is_done m c \<Longrightarrow> chain_ok m c \<Longrightarrow> keeps m m' \<Longrightarrow> is_done m' c"
proof (induction c)
  case (valueCtx p k v)
  then show ?case by (simp add: is_done_def Err_def)
qed (auto simp: is_done_def Err_def keeps_def)

lemma conn_ok_keeps: "conn_ok m root k \<Longrightarrow> keeps m m' \<Longrightarrow> conn_ok m' root k"
  unfolding conn_ok_def Dead_def using chain_ok_keeps is_done_keeps by blast

lemma keeps_refl [simp]: "keeps m m"
  by (simp add: keeps_def)

lemma ancestors_self [simp]: "c \<in> ancestors c"
  by (cases c) simp_all

lemma ancestors_trans: "a \<in> ancestors b \<Longrightarrow> b \<in> ancestors c \<Longrightarrow> a \<in> ancestors c"
  by (induction c) auto

lemma chain_ok_ancestor: "chain_ok m c \<Longrightarrow> a \<in> ancestors c \<Longrightarrow> chain_ok m a"
  by (induction c) auto

lemma WithCancel_chain:
  assumes "mem_ok m" "chain_ok m c"
  obtains m' where "WithCancel m c = Some (m', cancelCtx (length m) c)" "mem_ok m'" "keeps m m'"
    "chain_ok m' (cancelCtx (length m) c)"
proof -
  obtain m' where m': "WithCancel m c = Some (m', cancelCtx (length m) c)" "mem_ok m'" "keeps m m'"
    "length m' = Suc (length m)" "c_parent (m' ! length m) = parentCancelCtx c"
    by (rule WithCancel_spec [OF assms(1) chain_ok_ctx [OF assms(2)]])
  moreover have "chain_ok m' (cancelCtx (length m) c)" using m' chain_ok_keeps [OF assms(2)] by simp
  ultimately show ?thesis using that by blast
qed

lemma Spawn_spec:
  assumes "mem_ok m" "chain_ok m (r_ctx r)"
  obtains m' c where "Spawn m r = Ran (m', r\<lparr>wg := Suc (wg r)\<rparr>, c)" "mem_ok m'" "keeps m m'" "chain_ok m' c"
    "r_ctx r \<in> ancestors c"
proof -
  obtain m' where "WithCancel m (r_ctx r) = Some (m', cancelCtx (length m) (r_ctx r))" "mem_ok m'" "keeps m m'"
    "chain_ok m' (cancelCtx (length m) (r_ctx r))" by (rule WithCancel_chain [OF assms])
  then show ?thesis using that by (simp add: Spawn_def returns_def)
qed

lemma ReaperWithContext_spec:
  assumes "mem_ok m" "chain_ok m c"
  obtains m' a where "ReaperWithContext m c = Ran (m', \<lparr>wg = 0, r_ctx = cancelCtx a c\<rparr>)" "mem_ok m'" "keeps m m'"
    "chain_ok m' (cancelCtx a c)"
proof -
  obtain m' where "WithCancel m c = Some (m', cancelCtx (length m) c)" "mem_ok m'" "keeps m m'"
    "chain_ok m' (cancelCtx (length m) c)" by (rule WithCancel_chain [OF assms])
  then show ?thesis using that by (simp add: ReaperWithContext_def returns_def)
qed

lemma Kill_spec:
  assumes "mem_ok m" "chain_ok m (r_ctx r)" "r_ctx r = cancelCtx a c"
  obtains m' where "Kill m r = Ran m'" "mem_ok m'" "keeps m m'" "Dead m' r"
proof -
  obtain m' where "cancel False m a Canceled = Some m'" "mem_ok m'" "keeps m m'" "c_err (m' ! a) \<noteq> None"
    by (rule cancel_keeps [OF assms(1), of a]) (use assms(2,3) in auto)
  then show ?thesis using that assms(3) by (simp add: Kill_def returns_def cancelFunc_def Dead_def is_done_def Err_def)
qed

lemma filter_update_length:
  "i < length xs \<Longrightarrow> length (filter P (xs[i := x])) + (if P (xs ! i) then 1 else 0) = length (filter P xs) + (if P x then 1 else 0)"
proof (induction xs arbitrary: i)
  case (Cons y ys)
  then show ?case by (cases i) auto
qed simp

lemma server_ok_memory:
  assumes "server_ok s" "mem_ok m" "keeps (s_mem s) m"
  shows "server_ok (s\<lparr>s_mem := m\<rparr>)"
proof -
  have c: "chain_ok m c" if "chain_ok (s_mem s) c" for c using that assms(3) by (rule chain_ok_keeps)
  have k: "conn_ok m r k" if "conn_ok (s_mem s) r k" for r k using that assms(3) by (rule conn_ok_keeps)
  have d: "Dead m (s_reaper s)" if "Dead (s_mem s) (s_reaper s)"
    using that assms(1,3) is_done_keeps unfolding Dead_def server_ok_def by blast
  show ?thesis using assms(1,2) unfolding server_ok_def by (simp add: c k d)
qed

text \<open>A step of one connection.\<close>

lemma server_ok_put:
  assumes "server_ok s" "mem_ok m" "keeps (s_mem s) m" "i < length (s_conns s)"
    "conn_ok m (r_ctx (s_reaper s)) k" "r_ctx r = r_ctx (s_reaper s)"
    "wg r + (if active (s_conns s ! i) then 1 else 0) = wg (s_reaper s) + (if active k then 1 else 0)"
    "s_stop s = Stopped \<longrightarrow> wg r = 0"
  shows "server_ok (put_conn s i m r k)"
proof -
  have s1: "server_ok (s\<lparr>s_mem := m\<rparr>)" by (rule server_ok_memory [OF assms(1-3)])
  have "\<forall>k' \<in> set ((s_conns s)[i := k]). conn_ok m (r_ctx (s_reaper s)) k'"
    using s1 assms(5) set_update_subset_insert unfolding server_ok_def by fastforce
  moreover have "wg r = loop_tasks (s_loop s) + length (filter active ((s_conns s)[i := k]))"
    using filter_update_length [OF assms(4), of active k] assms(1,7) unfolding server_ok_def by (auto split: if_splits)
  moreover from this have "s_stop s = Stopped \<longrightarrow> loop_tasks (s_loop s) = 0 \<and> filter active ((s_conns s)[i := k]) = []"
    using assms(8) by simp
  ultimately show ?thesis using s1 assms(6) by (simp add: server_ok_def put_conn_def Dead_def)
qed

lemma active_nth: "i < length xs \<Longrightarrow> active (xs ! i) \<Longrightarrow> 0 < length (filter active xs)"
  by (metis filter_empty_conv length_greater_0_conv nth_mem)

lemma server_ok_parts:
  assumes "server_ok s"
  shows "mem_ok (s_mem s)" "chain_ok (s_mem s) (r_ctx (s_reaper s))"
    "\<exists>a. r_ctx (s_reaper s) = cancelCtx a (s_parent s)"
    "wg (s_reaper s) = loop_tasks (s_loop s) + length (filter active (s_conns s))"
    "i < length (s_conns s) \<Longrightarrow> conn_ok (s_mem s) (r_ctx (s_reaper s)) (s_conns s ! i)"
    "s_stop s = Stopped \<Longrightarrow> wg (s_reaper s) = 0"
    "s_stop s \<noteq> NotStopped \<Longrightarrow> Dead (s_mem s) (s_reaper s)"
    "s_loop s \<noteq> NotStarted \<Longrightarrow> r_ctx (s_reaper s) \<in> ancestors (s_loop_ctx s)" "chain_ok (s_mem s) (s_loop_ctx s)"
  using assms unfolding server_ok_def by simp_all

text \<open>While a connection is active the wait group is above zero, and \<open>Stop\<close> has not returned.\<close>

lemma active_counts:
  assumes "server_ok s" "i < length (s_conns s)" "active (s_conns s ! i)"
  shows "0 < wg (s_reaper s)" "s_stop s \<noteq> Stopped"
proof -
  show "0 < wg (s_reaper s)" using server_ok_parts(4) [OF assms(1)] active_nth [OF assms(2,3)] by simp
  then show "s_stop s \<noteq> Stopped" using server_ok_parts(6) [OF assms(1)] by auto
qed

lemma loop_counts:
  assumes "server_ok s" "s_loop s \<in> {AtSelect, Accepting}"
  shows "0 < wg (s_reaper s)" "s_stop s \<noteq> Stopped"
  using server_ok_parts(4,6) [OF assms(1)] assms(2) by (auto simp: loop_tasks_def)

subsection \<open>The listen loop, starting and stopping\<close>

lemma Start_ok:
  assumes "server_ok s" "enabled s Starts"
  shows "step_ok server_ok (Start s)"
proof -
  obtain m' c where sp: "Spawn (s_mem s) (s_reaper s) = Ran (m', (s_reaper s)\<lparr>wg := Suc (wg (s_reaper s))\<rparr>, c)" "mem_ok m'"
    "keeps (s_mem s) m'" "chain_ok m' c" "r_ctx (s_reaper s) \<in> ancestors c"
    by (rule Spawn_spec [OF server_ok_parts(1,2) [OF assms(1)]])
  then show ?thesis using server_ok_memory [OF assms(1) sp(2,3)] assms(2)
    by (simp add: Start_def server_ok_def loop_tasks_def Dead_def)
qed

lemma listen_accept_ok:
  assumes "server_ok s" "enabled s AcceptReturns"
  shows "step_ok server_ok (listen_accept s)"
proof -
  obtain m' c where sp: "Spawn (s_mem s) (s_reaper s) = Ran (m', (s_reaper s)\<lparr>wg := Suc (wg (s_reaper s))\<rparr>, c)" "mem_ok m'"
    "keeps (s_mem s) m'" "chain_ok m' c" "r_ctx (s_reaper s) \<in> ancestors c"
    by (rule Spawn_spec [OF server_ok_parts(1,2) [OF assms(1)]])
  have "s_stop s \<noteq> Stopped" by (rule loop_counts [OF assms(1)]) (use assms(2) in simp)
  then show ?thesis using sp server_ok_memory [OF assms(1) sp(2,3)] assms(2)
    by (simp add: listen_accept_def server_ok_def loop_tasks_def Dead_def conn_ok_def active_def)
qed

lemma listen_select_ok:
  assumes "server_ok s" "enabled s ListenSelects"
  shows "step_ok server_ok (listen_select s)"
  using assms loop_counts [OF assms(1)] by (auto simp: listen_select_def Done_def server_ok_def loop_tasks_def Dead_def)

lemma Stop_kill_ok:
  assumes "server_ok s"
  shows "step_ok server_ok (Stop_kill s)"
proof -
  obtain a where "r_ctx (s_reaper s) = cancelCtx a (s_parent s)" using server_ok_parts(3) [OF assms] by blast
  then obtain m' where k: "Kill (s_mem s) (s_reaper s) = Ran m'" "mem_ok m'" "keeps (s_mem s) m'" "Dead m' (s_reaper s)"
    by (rule Kill_spec [OF server_ok_parts(1,2) [OF assms]])
  then show ?thesis using server_ok_memory [OF assms k(2,3)] by (simp add: Stop_kill_def server_ok_def)
qed

lemma Stop_return_ok: "server_ok s \<Longrightarrow> s_stop s = Stopping \<Longrightarrow> step_ok server_ok (Stop_return s)"
  by (auto simp: Stop_return_def Wait_def server_ok_def)

lemma cancelled_ok:
  assumes "server_ok s" "c \<in> ancestors (s_parent s)"
  shows "step_ok server_ok (perform s (ContextCancelled c))"
proof -
  obtain a where "r_ctx (s_reaper s) = cancelCtx a (s_parent s)" using server_ok_parts(3) [OF assms(1)] by blast
  then have "chain_ok (s_mem s) c"
    using chain_ok_ancestor [OF _ assms(2)] server_ok_parts(2) [OF assms(1)] by simp
  then obtain m' where m': "cancelFunc (s_mem s) c = Some m'" "mem_ok m'" "keeps (s_mem s) m'"
    using cancelFunc_keeps [OF server_ok_parts(1) [OF assms(1)]] by metis
  then show ?thesis using server_ok_memory [OF assms(1) m'(2,3)] by (simp add: returns_def)
qed

subsection \<open>Connections\<close>

text \<open>A step that leaves the server's reaper as it is, with the connection active before and after.\<close>

lemma conn_step:
  assumes "server_ok s" "i < length (s_conns s)" "mem_ok m" "keeps (s_mem s) m"
    "active k = active (s_conns s ! i)" "conn_ok m (r_ctx (s_reaper s)) k"
  shows "server_ok (put_conn s i m (s_reaper s) k)"
  by (rule server_ok_put [OF assms(1,3,4,2,6)]) (use assms(5) server_ok_parts(6) [OF assms(1)] in auto)

lemma conn_finish:
  assumes "server_ok s" "i < length (s_conns s)" "active (s_conns s ! i)" "k_state k = Finished"
    "conn_ok (s_mem s) (r_ctx (s_reaper s)) k"
  shows "step_ok server_ok (and_then (Done (s_reaper s)) (\<lambda>r. Ran (put_conn s i (s_mem s) r k)))"
proof -
  have w: "0 < wg (s_reaper s)" "s_stop s \<noteq> Stopped" by (rule active_counts [OF assms(1-3)])+
  have "server_ok (put_conn s i (s_mem s) ((s_reaper s)\<lparr>wg := wg (s_reaper s) - 1\<rparr>) k)"
    by (rule server_ok_put [OF assms(1) server_ok_parts(1) [OF assms(1)] _ assms(2,5)])
      (use w assms(3,4) in \<open>simp_all add: active_def\<close>)
  then show ?thesis using w by (simp add: Done_def)
qed

lemma conn_at_ok:
  assumes "server_ok s" "conn_at s i st"
  shows "i < length (s_conns s)" "k_state (s_conns s ! i) = st" "conn_ok (s_mem s) (r_ctx (s_reaper s)) (s_conns s ! i)"
    "active (s_conns s ! i) \<longleftrightarrow> st \<noteq> Finished"
  using assms server_ok_parts(5) [OF assms(1), of i] by (auto simp: conn_at_def active_def)

lemma Execute_enter_ok:
  assumes "server_ok s" "conn_at s i Spawned"
  shows "step_ok server_ok (Execute_enter s i)"
proof (cases "is_done (s_mem s) (k_ctx (s_conns s ! i))")
  case True
  note k = conn_at_ok [OF assms]
  have "step_ok server_ok (and_then (Done (s_reaper s))
      (\<lambda>r. Ran (put_conn s i (s_mem s) r ((s_conns s ! i)\<lparr>k_open := False, k_state := Finished\<rparr>))))"
    by (rule conn_finish [OF assms(1) k(1)]) (use k in \<open>simp_all add: conn_ok_def\<close>)
  then show ?thesis using True by (simp add: Execute_enter_def)
next
  case False
  note k = conn_at_ok [OF assms]
  have ch: "chain_ok (s_mem s) (k_ctx (s_conns s ! i))" using k(3) by (simp add: conn_ok_def)
  obtain m a where m: "ReaperWithContext (s_mem s) (k_ctx (s_conns s ! i)) =
      Ran (m, \<lparr>wg = 0, r_ctx = cancelCtx a (k_ctx (s_conns s ! i))\<rparr>)" "mem_ok m" "keeps (s_mem s) m"
    "chain_ok m (cancelCtx a (k_ctx (s_conns s ! i)))" by (rule ReaperWithContext_spec [OF server_ok_parts(1) [OF assms(1)] ch])
  have "conn_ok m (r_ctx (s_reaper s)) ((s_conns s ! i)
      \<lparr>k_reaper := \<lparr>wg = 0, r_ctx = cancelCtx a (k_ctx (s_conns s ! i))\<rparr>, k_state := Handshaking\<rparr>)"
    using k(2,3) m(4) by (simp add: conn_ok_def)
  then show ?thesis using False m k by (simp add: Execute_enter_def Let_def conn_step assms(1) active_def)
qed

text \<open>\<open>g.Kill()\<close> on the way out of the handshake or of the loop.\<close>

lemma conn_kill:
  assumes "server_ok s" "conn_at s i st" "st \<notin> {Spawned, Finished}"
  obtains m where "Kill (s_mem s) (k_reaper (s_conns s ! i)) = Ran m" "mem_ok m" "keeps (s_mem s) m"
    "Dead m (k_reaper (s_conns s ! i))" "conn_ok m (r_ctx (s_reaper s)) (s_conns s ! i)"
proof -
  note k = conn_at_ok [OF assms(1,2)]
  obtain a where a: "r_ctx (k_reaper (s_conns s ! i)) = cancelCtx a (k_ctx (s_conns s ! i))"
    using k(2,3) assms(3) by (auto simp: conn_ok_def)
  have "chain_ok (s_mem s) (r_ctx (k_reaper (s_conns s ! i)))" using k(3) by (simp add: conn_ok_def)
  from Kill_spec [OF server_ok_parts(1) [OF assms(1)] this a] obtain m where
    m: "Kill (s_mem s) (k_reaper (s_conns s ! i)) = Ran m" "mem_ok m" "keeps (s_mem s) m" "Dead m (k_reaper (s_conns s ! i))" by blast
  with conn_ok_keeps [OF k(3)] show ?thesis using that by blast
qed

lemma handshake_failed_ok:
  assumes "server_ok s" "conn_at s i Handshaking"
  shows "step_ok server_ok (handshake_failed s i)"
proof -
  obtain m where m: "Kill (s_mem s) (k_reaper (s_conns s ! i)) = Ran m" "mem_ok m" "keeps (s_mem s) m"
    "Dead m (k_reaper (s_conns s ! i))" "conn_ok m (r_ctx (s_reaper s)) (s_conns s ! i)"
    by (rule conn_kill [OF assms]) simp_all
  then have "conn_ok m (r_ctx (s_reaper s)) ((s_conns s ! i)\<lparr>k_open := False, k_state := Reaping\<rparr>)"
    using assms(2) by (simp add: conn_ok_def conn_at_def Dead_def)
  then show ?thesis using m conn_at_ok [OF assms] by (simp add: handshake_failed_def conn_step assms(1) active_def)
qed

lemma serve_break_ok:
  assumes "server_ok s" "conn_at s i Serving"
  shows "step_ok server_ok (serve_break s i)"
proof -
  obtain m where m: "Kill (s_mem s) (k_reaper (s_conns s ! i)) = Ran m" "mem_ok m" "keeps (s_mem s) m"
    "Dead m (k_reaper (s_conns s ! i))" "conn_ok m (r_ctx (s_reaper s)) (s_conns s ! i)"
    by (rule conn_kill [OF assms]) simp_all
  then have "conn_ok m (r_ctx (s_reaper s)) ((s_conns s ! i)\<lparr>k_state := Waiting\<rparr>)"
    using assms(2) by (simp add: conn_ok_def conn_at_def Dead_def)
  then show ?thesis using m conn_at_ok [OF assms] by (simp add: serve_break_def conn_step assms(1) active_def)
qed

lemma serve_channel_ok:
  assumes "server_ok s" "conn_at s i Serving"
  shows "step_ok server_ok (serve_channel s i)"
proof (cases "k_chans (s_conns s ! i) = 0")
  case True
  then show ?thesis using serve_break_ok [OF assms] by (simp add: serve_channel_def)
next
  case False
  note k = conn_at_ok [OF assms]
  let ?k = "s_conns s ! i"
  have ch: "chain_ok (s_mem s) (r_ctx (k_reaper ?k))" using k(3) by (simp add: conn_ok_def)
  obtain m' c where sp: "Spawn (s_mem s) (k_reaper ?k) = Ran (m', (k_reaper ?k)\<lparr>wg := Suc (wg (k_reaper ?k))\<rparr>, c)" "mem_ok m'"
    "keeps (s_mem s) m'" "chain_ok m' c" "r_ctx (k_reaper ?k) \<in> ancestors c"
    by (rule Spawn_spec [OF server_ok_parts(1) [OF assms(1)] ch])
  have "conn_ok m' (r_ctx (s_reaper s)) (?k\<lparr>k_chans := k_chans ?k - 1,
      k_reaper := (k_reaper ?k)\<lparr>wg := Suc (wg (k_reaper ?k))\<rparr>, k_handlers := k_handlers ?k @ [c]\<rparr>)"
    using conn_ok_keeps [OF k(3) sp(3)] sp(4,5) k(2) by (auto simp: conn_ok_def)
  then show ?thesis using sp k False by (simp add: serve_channel_def Let_def conn_step assms(1) active_def)
qed

lemma Dispatch_returns_ok:
  assumes "server_ok s" "i < length (s_conns s)" "h < length (k_handlers (s_conns s ! i))"
  shows "step_ok server_ok (Dispatch_returns s i h)"
proof -
  let ?k = "s_conns s ! i"
  let ?hs = "take h (k_handlers ?k) @ drop (Suc h) (k_handlers ?k)"
  have k: "conn_ok (s_mem s) (r_ctx (s_reaper s)) ?k" by (rule server_ok_parts(5) [OF assms(1,2)])
  have "set ?hs \<subseteq> set (k_handlers ?k)" using set_take_subset set_drop_subset by fastforce
  moreover have "length ?hs = length (k_handlers ?k) - 1" using assms(3) by simp
  moreover have "k_handlers ?k \<noteq> []" using assms(3) by auto
  ultimately have "conn_ok (s_mem s) (r_ctx (s_reaper s)) (?k\<lparr>k_reaper := (k_reaper ?k)\<lparr>wg := wg (k_reaper ?k) - 1\<rparr>, k_handlers := ?hs\<rparr>)"
    using k by (auto simp: conn_ok_def Dead_def)
  moreover have "0 < wg (k_reaper ?k)" using k assms(3) by (auto simp: conn_ok_def)
  ultimately show ?thesis using server_ok_parts(1) [OF assms(1)] assms(2)
    by (simp add: Dispatch_returns_def Let_def Done_def conn_step assms(1) active_def)
qed

lemma conn_wait_ok:
  assumes "server_ok s" "conn_at s i Waiting"
  shows "step_ok server_ok (conn_wait s i)"
proof -
  note k = conn_at_ok [OF assms]
  have "conn_ok (s_mem s) (r_ctx (s_reaper s)) ((s_conns s ! i)\<lparr>k_open := False, k_state := Reaping\<rparr>)"
    using k(2,3) by (simp add: conn_ok_def)
  then show ?thesis using k server_ok_parts(1) [OF assms(1)] by (simp add: conn_wait_def Let_def conn_step assms(1) active_def)
qed

lemma conn_reap_ok:
  assumes "server_ok s" "conn_at s i Reaping"
  shows "step_ok server_ok (conn_reap s i)"
proof (cases "wg (k_reaper (s_conns s ! i)) = 0")
  case True
  note k = conn_at_ok [OF assms]
  have "step_ok server_ok (and_then (Done (s_reaper s))
      (\<lambda>r. Ran (put_conn s i (s_mem s) r ((s_conns s ! i)\<lparr>k_state := Finished\<rparr>))))"
    by (rule conn_finish [OF assms(1) k(1)]) (use k True in \<open>simp_all add: conn_ok_def\<close>)
  then show ?thesis using True by (simp add: conn_reap_def Wait_def)
qed (simp add: conn_reap_def Wait_def)

text \<open>Changes to the connection from outside.\<close>

lemma conn_event:
  assumes "server_ok s" "i < length (s_conns s)"
  shows "server_ok (s\<lparr>s_conns := (s_conns s)[i := (s_conns s ! i)\<lparr>k_chans := n\<rparr>]\<rparr>)"
    "server_ok (s\<lparr>s_conns := (s_conns s)[i := (s_conns s ! i)\<lparr>k_lost := b\<rparr>]\<rparr>)"
proof -
  have k: "conn_ok (s_mem s) (r_ctx (s_reaper s)) (s_conns s ! i)" by (rule server_ok_parts(5) [OF assms])
  have put: "s\<lparr>s_conns := (s_conns s)[i := k]\<rparr> = put_conn s i (s_mem s) (s_reaper s) k" for k by (simp add: put_conn_def)
  show "server_ok (s\<lparr>s_conns := (s_conns s)[i := (s_conns s ! i)\<lparr>k_chans := n\<rparr>]\<rparr>)"
    "server_ok (s\<lparr>s_conns := (s_conns s)[i := (s_conns s ! i)\<lparr>k_lost := b\<rparr>]\<rparr>)"
    unfolding put by (rule conn_step [OF assms server_ok_parts(1) [OF assms(1)]]; use k in \<open>simp add: conn_ok_def active_def\<close>)+
qed

lemma perform_ok:
  assumes "server_ok s" "enabled s e"
  shows "step_ok server_ok (perform s e)"
proof (cases e)
  case Starts
  then show ?thesis using Start_ok assms by simp
next
  case AcceptFails
  then show ?thesis using assms by (auto simp: listen_error_def server_ok_def loop_tasks_def Dead_def)
next
  case (HandshakeSucceeds i)
  then have c: "conn_at s i Handshaking" using assms(2) by simp
  note k = conn_at_ok [OF assms(1) c]
  have "conn_ok (s_mem s) (r_ctx (s_reaper s)) ((s_conns s ! i)\<lparr>k_state := Serving\<rparr>)"
    using k(2,3) by (simp add: conn_ok_def)
  then show ?thesis using HandshakeSucceeds k server_ok_parts(1) [OF assms(1)]
    by (simp add: handshake_done_def conn_step assms(1) active_def)
next
  case (SelectsDone i)
  then show ?thesis using serve_break_ok [OF assms(1), of i] assms(2) by (auto simp: serve_done_def Let_def)
next
  case (PeerOpens i)
  then show ?thesis using conn_event(1) [OF assms(1)] assms(2) by (auto simp: conn_at_def)
next
  case (ConnLost i)
  then show ?thesis using conn_event(2) [OF assms(1)] assms(2) by (auto simp: conn_at_def)
next
  case (ContextCancelled c)
  then show ?thesis using cancelled_ok assms by simp
qed (use assms in \<open>simp_all add: Stop_kill_ok Stop_return_ok listen_select_ok listen_accept_ok Execute_enter_ok
  handshake_failed_ok serve_channel_ok Dispatch_returns_ok conn_wait_ok conn_reap_ok\<close>)

section \<open>What holds along a run\<close>

lemma server_run_ok: "server_run s0 es s \<Longrightarrow> server_ok s0 \<Longrightarrow> server_ok s"
proof (induction rule: server_run.induct)
  case (run_event s0 es s e s')
  then show ?case using perform_ok [of s e] by simp
qed simp

lemma server_run_trans: "server_run s1 es' s2 \<Longrightarrow> server_run s0 es s1 \<Longrightarrow> server_run s0 (es @ es') s2"
proof (induction rule: server_run.induct)
  case (run_event s es' s1 e s2)
  have "server_run s0 ((es @ es') @ [e]) s2"
    by (rule server_run.run_event [OF run_event.IH [OF run_event.prems] run_event.hyps(2,3)])
  then show ?case by simp
qed simp

text \<open>A server that \<open>New\<close> has made, in a program that uses contexts as it may.\<close>

definition new_server :: "(nat \<Rightarrow> string) \<Rightarrow> (string \<Rightarrow> nat option) \<Rightarrow> (nat \<Rightarrow> nat option) \<Rightarrow> memory \<Rightarrow>
    (nat, nat, nat, nat, nat, 'k, 'v) Config \<Rightarrow> ('k, 'v) server \<Rightarrow> bool" where
  "new_server keyType resolve listenTCP m cfg s \<longleftrightarrow>
     (\<exists>C c. ctx_run m C \<and> c \<in> C \<and> cfg_Context cfg = Some c) \<and>
     (\<exists>cfg'. New keyType resolve listenTCP m cfg = Ran (cfg', Inr s))"

lemma new_server_ok:
  assumes "new_server keyType resolve listenTCP m cfg s"
  shows "server_ok s"
proof -
  obtain C c cfg' where c: "ctx_run m C" "c \<in> C" "cfg_Context cfg = Some c"
    "New keyType resolve listenTCP m cfg = Ran (cfg', Inr s)" using assms by (auto simp: new_server_def)
  then have ok: "mem_ok m" "chain_ok m c" using ctx_run_ok by blast+
  obtain m' a where "ReaperWithContext m c = Ran (m', \<lparr>wg = 0, r_ctx = cancelCtx a c\<rparr>)" "mem_ok m'"
    "chain_ok m' (cancelCtx a c)" by (rule ReaperWithContext_spec [OF ok])
  with c(3,4) show ?thesis
    by (auto simp: New_def Let_def server_ok_def loop_tasks_def split: if_splits option.splits)
qed

end
