(* ===== verification/Server_Stop.thy ===== *)
theory Server_Stop
  imports Server_Invariant
begin

text \<open>
  \<open>Stop\<close>: a measure of the work that is left bounds the steps after it, something can run until it
  returns, and what is then closed. The last section runs a small server for the witnesses.
\<close>

section \<open>Winding down\<close>

fun conn_rank :: "conn_state \<Rightarrow> nat" where
  "conn_rank Spawned = 5"
| "conn_rank Handshaking = 4"
| "conn_rank Serving = 3"
| "conn_rank Waiting = 2"
| "conn_rank Reaping = 1"
| "conn_rank Finished = 0"

text \<open>The work that is left: an upper bound for the steps of the goroutines after \<open>Stop\<close> has killed them.\<close>

definition conn_work :: "('k, 'v) conn \<Rightarrow> nat" where
  "conn_work k = conn_rank (k_state k) + 2 * k_chans k + length (k_handlers k) + (if k_lost k then 0 else 1)"

fun loop_work :: "loop_state \<Rightarrow> nat" where
  "loop_work NotStarted = 0"
| "loop_work AtSelect = 1"
| "loop_work Accepting = 8"
| "loop_work Exited = 0"

definition work :: "('k, 'v) server \<Rightarrow> nat" where
  "work s = sum_list (map conn_work (s_conns s)) + loop_work (s_loop s) + (if s_stop s = Stopped then 0 else 1)"

lemma sum_list_update_less:
  fixes f :: "'a \<Rightarrow> nat"
  assumes "i < length xs" "f x < f (xs ! i)"
  shows "sum_list (map f (xs[i := x])) < sum_list (map f xs)"
proof -
  have "sum_list (map f (xs[i := x])) + f (xs ! i) = sum_list (map f xs) + f x"
    using assms(1)
  proof (induction xs arbitrary: i)
    case (Cons y ys)
    then show ?case by (cases i) auto
  qed simp
  then show ?thesis using assms(2) by linarith
qed

lemma work_put: "i < length (s_conns s) \<Longrightarrow> conn_work k < conn_work (s_conns s ! i) \<Longrightarrow> work (put_conn s i m r k) < work s"
  using sum_list_update_less [of i "s_conns s" conn_work k] by (simp add: work_def put_conn_def)

lemma and_then_decreases:
  assumes "and_then st f = Ran y" "\<And>x. st = Ran x \<Longrightarrow> f x = Ran y \<Longrightarrow> P"
  shows P
  using assms by (auto simp: and_then_Ran)

text \<open>The events of the server's own goroutines, the loss of a connection and the return of a handler.\<close>

fun winding_down :: "('k, 'v) event \<Rightarrow> bool" where
  "winding_down (PeerOpens i) = False"
| "winding_down (ContextCancelled c) = False"
| "winding_down e = True"

lemma conn_steps_work:
  assumes "i < length (s_conns s)"
  shows "Execute_enter s i = Ran s' \<Longrightarrow> k_state (s_conns s ! i) = Spawned \<Longrightarrow> work s' < work s"
    "handshake_failed s i = Ran s' \<Longrightarrow> k_state (s_conns s ! i) = Handshaking \<Longrightarrow> work s' < work s"
    "handshake_done s i = Ran s' \<Longrightarrow> k_state (s_conns s ! i) = Handshaking \<Longrightarrow> work s' < work s"
    "serve_break s i = Ran s' \<Longrightarrow> k_state (s_conns s ! i) = Serving \<Longrightarrow> work s' < work s"
    "conn_wait s i = Ran s' \<Longrightarrow> k_state (s_conns s ! i) = Waiting \<Longrightarrow> work s' < work s"
    "conn_reap s i = Ran s' \<Longrightarrow> k_state (s_conns s ! i) = Reaping \<Longrightarrow> work s' < work s"
  using assms
  by (auto simp: Execute_enter_def handshake_failed_def handshake_done_def serve_break_def conn_wait_def conn_reap_def
    Let_def and_then_Ran conn_work_def intro!: work_put split: if_splits)

lemma serve_channel_work:
  assumes "serve_channel s i = Ran s'" "i < length (s_conns s)" "k_state (s_conns s ! i) = Serving"
  shows "work s' < work s"
proof (cases "k_chans (s_conns s ! i) = 0")
  case True
  then show ?thesis using assms conn_steps_work(4) by (auto simp: serve_channel_def split: if_splits)
next
  case False
  then show ?thesis using assms by (auto simp: serve_channel_def and_then_Ran Let_def conn_work_def intro!: work_put)
qed

lemma perform_work:
  assumes "server_ok s" "s_stop s \<noteq> NotStopped" "enabled s e" "winding_down e" "perform s e = Ran s'"
  shows "work s' < work s"
proof (cases e)
  case ListenSelects
  have "is_done (s_mem s) (s_loop_ctx s)"
    using chain_done [OF server_ok_parts(1,9) [OF assms(1)]] server_ok_parts(7,8) [OF assms(1)] ListenSelects assms(2,3)
    by (simp add: Dead_def)
  then show ?thesis using ListenSelects assms by (auto simp: listen_select_def and_then_Ran work_def)
next
  case (DispatchReturns i h)
  then show ?thesis using assms
    by (auto simp: Dispatch_returns_def and_then_Ran Let_def conn_work_def intro!: work_put)
next
  case (ConnLost i)
  then have i: "i < length (s_conns s)" "\<not> k_lost (s_conns s ! i)" using assms(3) by (auto simp: conn_at_def)
  have "s' = put_conn s i (s_mem s) (s_reaper s) ((s_conns s ! i)\<lparr>k_lost := True\<rparr>)"
    using ConnLost assms(5) by (simp add: put_conn_def)
  then show ?thesis using work_put [OF i(1)] i(2) by (simp add: conn_work_def)
next
  case (SelectsDone i)
  then show ?thesis using assms conn_steps_work(4) by (auto simp: serve_done_def Let_def conn_at_def split: if_splits)
next
  case AcceptReturns
  have "s_stop s \<noteq> Stopped" by (rule loop_counts [OF assms(1)]) (use AcceptReturns assms(3) in simp)
  then show ?thesis using AcceptReturns assms(3,5)
    by (auto simp: listen_accept_def and_then_Ran work_def conn_work_def)
next
  case StopReturns
  then show ?thesis using assms(3,5) by (auto simp: Stop_return_def and_then_Ran work_def)
next
  case AcceptFails
  then show ?thesis using assms(3,5) by (auto simp: listen_error_def work_def)
next
  case (SelectsChannel i)
  then show ?thesis using assms(3,5) serve_channel_work [of s i s'] by (simp add: conn_at_def)
next
  case (Executes i)
  then show ?thesis using assms(3,5) conn_steps_work(1) [of i s s'] by (simp add: conn_at_def)
next
  case (HandshakeFails i)
  then show ?thesis using assms(3,5) conn_steps_work(2) [of i s s'] by (simp add: conn_at_def)
next
  case (HandshakeSucceeds i)
  then show ?thesis using assms(3,5) conn_steps_work(3) [of i s s'] by (simp add: conn_at_def)
next
  case (ConnWaits i)
  then show ?thesis using assms(3,5) conn_steps_work(5) [of i s s'] by (simp add: conn_at_def)
next
  case (ConnReaps i)
  then show ?thesis using assms(3,5) conn_steps_work(6) [of i s s'] by (simp add: conn_at_def)
qed (use assms(2-4) in simp_all)

lemma stop_stays:
  "perform s e = Ran s' \<Longrightarrow> s_stop s \<noteq> NotStopped \<Longrightarrow> enabled s e \<Longrightarrow> s_stop s' \<noteq> NotStopped \<and> (s_stop s = Stopped \<longrightarrow> s_stop s' = Stopped)"
  by (cases e) (auto simp: Start_def Stop_kill_def Stop_return_def listen_select_def listen_error_def listen_accept_def
    Execute_enter_def handshake_failed_def handshake_done_def serve_done_def serve_channel_def serve_break_def
    Dispatch_returns_def conn_wait_def conn_reap_def put_conn_def Let_def and_then_Ran split: if_splits)

lemma wind_down_bounded:
  assumes "server_run s0 es s" "server_ok s0" "s_stop s0 \<noteq> NotStopped" "\<forall>e \<in> set es. winding_down e"
  shows "s_stop s \<noteq> NotStopped \<and> length es + work s \<le> work s0"
  using assms
proof (induction rule: server_run.induct)
  case (run_event s0 es s e s')
  then have IH: "s_stop s \<noteq> NotStopped" "length es + work s \<le> work s0" by auto
  have "server_ok s" by (rule server_run_ok [OF run_event.hyps(1) run_event.prems(1)])
  moreover have "winding_down e" using run_event.prems(3) by simp
  ultimately have "work s' < work s" using perform_work IH(1) run_event.hyps(2,3) by blast
  moreover have "s_stop s' \<noteq> NotStopped" using stop_stays run_event.hyps IH(1) by blast
  ultimately show ?case using IH(2) by simp
qed simp

text \<open>As long as \<open>Stop\<close> has not returned, something can run, if the peers and the handlers let it.\<close>

lemma conn_can_step:
  assumes "server_ok s" "s_stop s = Stopping" "i < length (s_conns s)" "active (s_conns s ! i)"
  shows "\<exists>e s'. winding_down e \<and> enabled s e \<and> perform s e = Ran s'"
proof -
  let ?k = "s_conns s ! i"
  have ok: "conn_ok (s_mem s) (r_ctx (s_reaper s)) ?k" by (rule server_ok_parts(5) [OF assms(1,3)])
  have run: "\<exists>s'. perform s e = Ran s'" if "enabled s e" "perform s e \<noteq> Blocks" for e
    using perform_ok [OF assms(1) that(1)] that(2) by (cases "perform s e") auto
  have dead: "is_done (s_mem s) (k_ctx ?k)"
    using chain_done [OF server_ok_parts(1) [OF assms(1)], of "k_ctx ?k" "r_ctx (s_reaper s)"] ok
      server_ok_parts(7) [OF assms(1)] assms(2) by (simp add: conn_ok_def Dead_def)
  have at: "conn_at s i (k_state ?k)" using assms(3) by (simp add: conn_at_def)
  have kill: "serve_break s i \<noteq> Blocks" if "k_state ?k = Serving"
  proof -
    obtain m where "Kill (s_mem s) (k_reaper ?k) = Ran m" using conn_kill [OF assms(1) at, of thesis] \<open>k_state ?k = Serving\<close> that by auto
    then show ?thesis by (simp add: serve_break_def Let_def)
  qed
  show ?thesis
  proof (cases "k_state ?k")
    case Spawned
    then have "enabled s (Executes i)" using at by simp
    moreover have "perform s (Executes i) \<noteq> Blocks" using dead by (simp add: Execute_enter_def Let_def Done_def)
    ultimately show ?thesis using run winding_down.simps by blast
  next
    case Handshaking
    then have "enabled s (HandshakeSucceeds i)" using at by simp
    moreover have "perform s (HandshakeSucceeds i) \<noteq> Blocks" by (simp add: handshake_done_def)
    ultimately show ?thesis using run winding_down.simps by blast
  next
    case Serving
    then have "enabled s (SelectsDone i)" using at by simp
    moreover have "perform s (SelectsDone i) \<noteq> Blocks" using dead kill [OF Serving] by (simp add: serve_done_def Let_def)
    ultimately show ?thesis using run winding_down.simps by blast
  next
    case Waiting
    show ?thesis
    proof (cases "k_lost ?k")
      case True
      have "enabled s (ConnWaits i)" using at Waiting by simp
      moreover have "perform s (ConnWaits i) \<noteq> Blocks" using True by (simp add: conn_wait_def Let_def)
      ultimately show ?thesis using run winding_down.simps by blast
    next
      case False
      have "enabled s (ConnLost i)" using at Waiting False by simp
      moreover have "perform s (ConnLost i) \<noteq> Blocks" by simp
      ultimately show ?thesis using run winding_down.simps by blast
    qed
  next
    case Reaping
    show ?thesis
    proof (cases "k_handlers ?k")
      case Nil
      then have "enabled s (ConnReaps i)" using at Reaping by simp
      moreover have "perform s (ConnReaps i) \<noteq> Blocks" using Nil ok
        by (simp add: conn_reap_def Let_def Wait_def Done_def conn_ok_def)
      ultimately show ?thesis using run winding_down.simps by blast
    next
      case (Cons h hs)
      then have "enabled s (DispatchReturns i 0)" using assms(3) by simp
      moreover have "perform s (DispatchReturns i 0) \<noteq> Blocks" by (simp add: Dispatch_returns_def Let_def Done_def)
      ultimately show ?thesis using run winding_down.simps by blast
    qed
  next
    case Finished
    then show ?thesis using assms(4) by (simp add: active_def)
  qed
qed

lemma can_step:
  assumes "server_ok s" "s_stop s = Stopping"
  shows "\<exists>e s'. winding_down e \<and> enabled s e \<and> perform s e = Ran s'"
proof (cases "\<exists>i < length (s_conns s). active (s_conns s ! i)")
  case True
  then show ?thesis using conn_can_step [OF assms] by blast
next
  case False
  then have none: "filter active (s_conns s) = []" by (auto simp: filter_empty_conv in_set_conv_nth)
  show ?thesis
  proof (cases "s_loop s \<in> {AtSelect, Accepting}")
    case True
    then have "enabled s ListenSelects \<and> perform s ListenSelects \<noteq> Blocks \<or> enabled s AcceptFails \<and> perform s AcceptFails \<noteq> Blocks"
      by (auto simp: listen_error_def listen_select_def Done_def)
    then show ?thesis using perform_ok [OF assms(1)] winding_down.simps
      by (metis step.exhaust step_ok_simps(3))
  next
    case no: False
    then have "wg (s_reaper s) = 0" using server_ok_parts(4) [OF assms(1)] none by (simp add: loop_tasks_def)
    then have "perform s StopReturns = Ran (s\<lparr>s_stop := Stopped\<rparr>)" by (simp add: Stop_return_def Wait_def)
    then show ?thesis using assms(2) by (metis enabled.simps(3) winding_down.simps(5))
  qed
qed

lemma stop_can_return:
  assumes "server_ok s" "s_stop s \<noteq> NotStopped"
  shows "\<exists>es s'. server_run s es s' \<and> (\<forall>e \<in> set es. winding_down e) \<and> s_stop s' = Stopped"
  using assms
proof (induction "work s" arbitrary: s rule: less_induct)
  case less
  show ?case
  proof (cases "s_stop s")
    case Stopping
    then obtain e s1 where e: "winding_down e" "enabled s e" "perform s e = Ran s1" using can_step less.prems by blast
    have run: "server_run s [e] s1" using run_event [OF run_init e(2,3)] by simp
    have "work s1 < work s" by (rule perform_work [OF less.prems e(2,1,3)])
    moreover have "server_ok s1" by (rule server_run_ok [OF run less.prems(1)])
    moreover have "s_stop s1 \<noteq> NotStopped" using stop_stays [OF e(3)] less.prems(2) e(2) by blast
    ultimately obtain es s' where "server_run s1 es s'" "\<forall>e \<in> set es. winding_down e" "s_stop s' = Stopped"
      using less.hyps by blast
    then show ?thesis using server_run_trans [OF _ run] e(1) by fastforce
  next
    case Stopped
    then show ?thesis using run_init by fastforce
  qed (use less.prems in simp)
qed

text \<open>A connection in \<open>sshConn.Wait()\<close> stays there until it is lost.\<close>

lemma waiting_stays:
  assumes "perform s e = Ran s'" "enabled s e" "conn_at s i Waiting" "\<not> k_lost (s_conns s ! i)" "e \<noteq> ConnLost i"
  shows "conn_at s' i Waiting \<and> \<not> k_lost (s_conns s' ! i)"
proof -
  have put: "conn_at (put_conn s j m r k) i Waiting \<and> \<not> k_lost (s_conns (put_conn s j m r k) ! i)" if "j \<noteq> i" for j m r k
    using assms(3,4) that by (simp add: conn_at_def put_conn_def)
  show ?thesis
  proof (cases e)
    case (DispatchReturns j h)
    then show ?thesis using assms put [of j]
      by (cases "j = i") (auto simp: Dispatch_returns_def Let_def and_then_Ran conn_at_def put_conn_def)
  next
    case (PeerOpens j)
    then show ?thesis using assms by (cases "j = i") (auto simp: conn_at_def)
  next
    case (ConnLost j)
    then show ?thesis using assms by (cases "j = i") (auto simp: conn_at_def)
  next
    case (Executes j)
    then have "j \<noteq> i" using assms(2,3) by (auto simp: conn_at_def)
    then show ?thesis using Executes assms(1) put by (auto simp: Execute_enter_def Let_def and_then_Ran split: if_splits)
  next
    case (HandshakeFails j)
    then have "j \<noteq> i" using assms(2,3) by (auto simp: conn_at_def)
    then show ?thesis using HandshakeFails assms(1) put by (auto simp: handshake_failed_def Let_def and_then_Ran)
  next
    case (HandshakeSucceeds j)
    then have "j \<noteq> i" using assms(2,3) by (auto simp: conn_at_def)
    then show ?thesis using HandshakeSucceeds assms(1) put by (auto simp: handshake_done_def)
  next
    case (SelectsDone j)
    then have "j \<noteq> i" using assms(2,3) by (auto simp: conn_at_def)
    then show ?thesis using SelectsDone assms(1) put
      by (auto simp: serve_done_def serve_break_def Let_def and_then_Ran split: if_splits)
  next
    case (SelectsChannel j)
    then have "j \<noteq> i" using assms(2,3) by (auto simp: conn_at_def)
    then show ?thesis using SelectsChannel assms(1) put
      by (auto simp: serve_channel_def serve_break_def Let_def and_then_Ran split: if_splits)
  next
    case (ConnWaits j)
    then have "j \<noteq> i" using assms(1,4) by (auto simp: conn_wait_def)
    then show ?thesis using ConnWaits assms(1) put by (auto simp: conn_wait_def Let_def split: if_splits)
  next
    case (ConnReaps j)
    then have "j \<noteq> i" using assms(2,3) by (auto simp: conn_at_def)
    then show ?thesis using ConnReaps assms(1) put by (auto simp: conn_reap_def Let_def and_then_Ran)
  qed (use assms in \<open>auto simp: conn_at_def Start_def Stop_kill_def Stop_return_def listen_select_def listen_error_def
      listen_accept_def and_then_Ran nth_append split: if_splits\<close>)
qed

lemma waiting_blocks_stop:
  assumes "server_run s es s'" "conn_at s i Waiting" "\<not> k_lost (s_conns s ! i)" "ConnLost i \<notin> set es"
  shows "conn_at s' i Waiting \<and> \<not> k_lost (s_conns s' ! i)"
  using assms
proof (induction rule: server_run.induct)
  case (run_event s0 es s e s')
  then show ?case using waiting_stays [of s e s' i] by auto
qed simp

section \<open>Properties\<close>

text \<open>C16: in every state that a server made by \<open>New\<close> can reach, with its goroutines, the peers and the
  application in any order, the wait group of the server counts the listen loop and the connections
  that are not finished, the wait group of each connection counts its running handlers, and no step
  panics: no counter goes below zero.\<close>

theorem server_counts:
  assumes "new_server keyType resolve listenTCP m cfg s0" "server_run s0 es s"
  shows "wg (s_reaper s) = loop_tasks (s_loop s) + length (filter active (s_conns s)) \<and>
    (\<forall>k \<in> set (s_conns s). wg (k_reaper k) = length (k_handlers k)) \<and>
    (\<forall>e. enabled s e \<longrightarrow> (\<forall>x. perform s e \<noteq> Panicked x))"
proof -
  have ok: "server_ok s" by (rule server_run_ok [OF assms(2) new_server_ok [OF assms(1)]])
  have "perform s e \<noteq> Panicked x" if "enabled s e" for e x using perform_ok [OF ok that] by auto
  then show ?thesis using server_ok_parts(4) [OF ok] ok by (auto simp: server_ok_def conn_ok_def)
qed

text \<open>C13: once \<open>Stop\<close> has returned on a server that was started, the listener is closed, every
  connection that was ever accepted is closed and its goroutine has ended, and no handler runs.\<close>

theorem stop_complete:
  assumes "new_server keyType resolve listenTCP m cfg s0" "server_run s0 es s" "s_stop s = Stopped" "s_loop s \<noteq> NotStarted"
  shows "\<not> s_listening s \<and> (\<forall>k \<in> set (s_conns s). k_state k = Finished \<and> \<not> k_open k \<and> k_handlers k = [])"
proof -
  have ok: "server_ok s" by (rule server_run_ok [OF assms(2) new_server_ok [OF assms(1)]])
  then have l: "loop_tasks (s_loop s) = 0" "\<forall>k \<in> set (s_conns s). \<not> active k" "s_listening s \<longleftrightarrow> s_loop s \<noteq> Exited"
    "\<forall>k \<in> set (s_conns s). conn_ok (s_mem s) (r_ctx (s_reaper s)) k"
    using assms(3) by (auto simp: server_ok_def filter_empty_conv)
  have "s_loop s = Exited" using l(1) assms(4) by (cases "s_loop s") (auto simp: loop_tasks_def)
  then show ?thesis using l(2-4) by (auto simp: active_def conn_ok_def)
qed

text \<open>From the moment \<open>Stop\<close> is called, the context of every connection is done, and so is the context of
  every handler, whenever they were started.\<close>

theorem stop_cancels:
  assumes "new_server keyType resolve listenTCP m cfg s0" "server_run s0 es s" "s_stop s \<noteq> NotStopped" "k \<in> set (s_conns s)"
  shows "is_done (s_mem s) (k_ctx k) \<and> (k_state k \<noteq> Finished \<longrightarrow> (\<forall>h \<in> set (k_handlers k). is_done (s_mem s) h))"
proof -
  have ok: "server_ok s" by (rule server_run_ok [OF assms(2) new_server_ok [OF assms(1)]])
  then have k: "conn_ok (s_mem s) (r_ctx (s_reaper s)) k" using assms(4) by (simp add: server_ok_def)
  have d: "is_done (s_mem s) (k_ctx k)"
    using chain_done [OF server_ok_parts(1) [OF ok], of "k_ctx k" "r_ctx (s_reaper s)"] k server_ok_parts(7) [OF ok assms(3)]
    by (simp add: conn_ok_def Dead_def)
  have "is_done (s_mem s) h" if "h \<in> set (k_handlers k)" "k_state k \<noteq> Finished" for h
  proof -
    have st: "k_state k \<notin> {Spawned, Finished}" using k that by (auto simp: conn_ok_def)
    then obtain a where "r_ctx (k_reaper k) = cancelCtx a (k_ctx k)" using k by (auto simp: conn_ok_def)
    then have "k_ctx k \<in> ancestors h" using k that(1) ancestors_trans [of "k_ctx k" "r_ctx (k_reaper k)" h]
      by (simp add: conn_ok_def)
    then show ?thesis using chain_done [OF server_ok_parts(1) [OF ok], of h "k_ctx k"] k that(1) d by (simp add: conn_ok_def)
  qed
  then show ?thesis using d by blast
qed

text \<open>C14: after \<open>Stop\<close> is called, the steps of the server's goroutines are bounded, in whatever order they
  run, as long as the peers open no more channels; and from every such state \<open>Stop\<close> can still return.\<close>

theorem stop_returns:
  assumes "new_server keyType resolve listenTCP m cfg s0" "server_run s0 es s" "s_stop s \<noteq> NotStopped"
  shows "(\<forall>es' s'. server_run s es' s' \<longrightarrow> (\<forall>e \<in> set es'. winding_down e) \<longrightarrow> length es' \<le> work s) \<and>
    (\<exists>es' s'. server_run s es' s' \<and> (\<forall>e \<in> set es'. winding_down e) \<and> s_stop s' = Stopped)"
proof -
  have ok: "server_ok s" by (rule server_run_ok [OF assms(2) new_server_ok [OF assms(1)]])
  have "length es' \<le> work s" if "server_run s es' s'" "\<forall>e \<in> set es'. winding_down e" for es' s'
    using wind_down_bounded [OF that(1) ok assms(3) that(2)] by simp
  then show ?thesis using stop_can_return [OF ok assms(3)] by blast
qed

text \<open>C15: \<open>Stop\<close> does not close a connection whose peer stays: the deferred \<open>sshConn.Wait()\<close> runs before the
  deferred \<open>sshConn.Close()\<close>, so in no continuation without the loss of that connection does \<open>Stop\<close> return.\<close>

theorem stop_waits_for_peer:
  assumes "new_server keyType resolve listenTCP m cfg s0" "server_run s0 es s" "conn_at s i Waiting" "\<not> k_lost (s_conns s ! i)"
    "server_run s es' s'" "ConnLost i \<notin> set es'"
  shows "s_stop s' \<noteq> Stopped"
proof -
  have "server_ok s" by (rule server_run_ok [OF assms(2) new_server_ok [OF assms(1)]])
  then have ok: "server_ok s'" by (rule server_run_ok [OF assms(5)])
  have "conn_at s' i Waiting" using waiting_blocks_stop [OF assms(5,3,4,6)] by blast
  then show ?thesis using active_counts(2) [OF ok, of i] by (simp add: conn_at_def active_def)
qed

section \<open>Runs for the witnesses\<close>

fun run_events :: "('k, 'v) server \<Rightarrow> ('k, 'v) event list \<Rightarrow> ('k, 'v) server step" where
  "run_events s [] = Ran s"
| "run_events s (e # es) = (if enabled s e then and_then (perform s e) (\<lambda>s1. run_events s1 es) else Blocks)"

lemma run_events_run: "run_events s es = Ran s' \<Longrightarrow> server_run s es s'"
proof (induction es arbitrary: s)
  case (Cons e es)
  then obtain s1 where s1: "enabled s e" "perform s e = Ran s1" "run_events s1 es = Ran s'"
    by (auto simp: and_then_Ran split: if_splits)
  have "server_run s [e] s1" using run_event [OF run_init s1(1,2)] by simp
  from server_run_trans [OF Cons.IH [OF s1(3)] this] show ?case by simp
qed (simp add: run_init)

definition small_config :: "(nat, nat, nat, nat, nat, nat, nat) Config" where
  "small_config = \<lparr>cfg_Context = Some emptyCtx, cfg_Bind = '':22'', cfg_PrivateKey = 7, cfg_PasswordCallback = None,
     cfg_PublicKeyCallback = Some 1, cfg_AuthLogCallback = None, cfg_sshConfig = None\<rparr>"

definition small_server :: "(nat, nat) server" where
  "small_server = \<lparr>s_mem = [newCell (emptyCtx :: (nat, nat) ctx)], s_parent = emptyCtx,
     s_reaper = \<lparr>wg = 0, r_ctx = cancelCtx 0 emptyCtx\<rparr>, s_loop = NotStarted, s_loop_ctx = emptyCtx, s_listening = True,
     s_conns = [], s_stop = NotStopped\<rparr>"

lemma small_server_new: "new_server (\<lambda>_. ''ssh-rsa'') (\<lambda>a. Some 22) (\<lambda>_. None) [] small_config small_server"
  unfolding new_server_def
  using run_background by (auto simp: small_config_def small_server_def New_def ReaperWithContext_def returns_def WithCancel_def
    propagateCancel_def)

text \<open>One connection that serves a channel, and is stopped; then its end, once it is lost.\<close>

definition serving_events :: "(nat, nat) event list" where
  "serving_events = [Starts, ListenSelects, AcceptReturns, Executes 0, HandshakeSucceeds 0, PeerOpens 0, SelectsChannel 0,
     StopKills, SelectsDone 0]"

definition ending_events :: "(nat, nat) event list" where
  "ending_events = [ListenSelects, ConnLost 0, ConnWaits 0, DispatchReturns 0 0, ConnReaps 0, StopReturns]"

definition ends_with :: "((nat, nat) server \<Rightarrow> bool) \<Rightarrow> (nat, nat) event list \<Rightarrow> bool" where
  "ends_with P es \<longleftrightarrow> (case run_events small_server es of Ran s \<Rightarrow> P s | _ \<Rightarrow> False)"

lemma ends_with_run:
  assumes "ends_with P es"
  obtains s where "server_run small_server es s" "P s"
  using assms run_events_run by (auto simp: ends_with_def split: step.splits)

lemma serving_end:
  "ends_with (\<lambda>s. conn_at s 0 Waiting \<and> \<not> k_lost (s_conns s ! 0) \<and> s_stop s = Stopping \<and> length (k_handlers (s_conns s ! 0)) = 1 \<and>
     work s = 6) serving_events"
  by code_simp

lemma ending_end:
  "ends_with (\<lambda>s. s_stop s = Stopped \<and> s_loop s \<noteq> NotStarted \<and> length (s_conns s) = 1) (serving_events @ ending_events)"
  by code_simp

lemma serving_run:
  obtains s where "server_run small_server serving_events s" "conn_at s 0 Waiting" "\<not> k_lost (s_conns s ! 0)" "s_stop s = Stopping"
    "length (k_handlers (s_conns s ! 0)) = 1" "work s = 6"
  by (rule ends_with_run [OF serving_end]) blast

lemma ending_run:
  obtains s where "server_run small_server (serving_events @ ending_events) s" "s_stop s = Stopped" "s_loop s \<noteq> NotStarted"
    "length (s_conns s) = 1"
  by (rule ends_with_run [OF ending_end]) blast

theorem server_counts_witness:
  "\<exists>s. server_run small_server serving_events s \<and> conn_at s 0 Waiting \<and> wg (k_reaper (s_conns s ! 0)) = 1"
proof -
  obtain s where s: "server_run small_server serving_events s" "conn_at s 0 Waiting" "length (k_handlers (s_conns s ! 0)) = 1"
    by (rule serving_run)
  then show ?thesis using server_counts [OF small_server_new s(1)] by (auto simp: conn_at_def)
qed

theorem stop_complete_witness:
  "\<exists>s. server_run small_server (serving_events @ ending_events) s \<and> length (s_conns s) = 1 \<and> \<not> s_listening s \<and>
     \<not> k_open (s_conns s ! 0)"
proof -
  obtain s where s: "server_run small_server (serving_events @ ending_events) s" "s_stop s = Stopped" "s_loop s \<noteq> NotStarted"
    "length (s_conns s) = 1" by (rule ending_run)
  then show ?thesis using stop_complete [OF small_server_new s(1-3)] by auto
qed

theorem stop_cancels_witness:
  "\<exists>s. server_run small_server serving_events s \<and> k_handlers (s_conns s ! 0) \<noteq> [] \<and>
     (\<forall>h \<in> set (k_handlers (s_conns s ! 0)). is_done (s_mem s) h)"
proof -
  obtain s where s: "server_run small_server serving_events s" "conn_at s 0 Waiting" "s_stop s = Stopping"
    "length (k_handlers (s_conns s ! 0)) = 1" by (rule serving_run)
  then have "s_conns s ! 0 \<in> set (s_conns s)" "k_state (s_conns s ! 0) \<noteq> Finished" "s_stop s \<noteq> NotStopped"
    by (auto simp: conn_at_def)
  then show ?thesis using stop_cancels [OF small_server_new s(1), of "s_conns s ! 0"] s(1,4) by fastforce
qed

theorem stop_returns_witness:
  "\<exists>s. server_run small_server serving_events s \<and> (\<exists>es s'. server_run s es s' \<and> length es \<le> 6 \<and> s_stop s' = Stopped)"
proof -
  obtain s where s: "server_run small_server serving_events s" "s_stop s = Stopping" "work s = 6" by (rule serving_run)
  then have "s_stop s \<noteq> NotStopped" by simp
  from stop_returns [OF small_server_new s(1) this] s(1,3) show ?thesis by metis
qed

theorem stop_waits_for_peer_witness:
  "\<exists>s. server_run small_server serving_events s \<and> s_stop s \<noteq> Stopped \<and>
     (\<forall>es s'. server_run s es s' \<longrightarrow> ConnLost 0 \<notin> set es \<longrightarrow> s_stop s' \<noteq> Stopped)"
proof -
  obtain s where s: "server_run small_server serving_events s" "conn_at s 0 Waiting" "\<not> k_lost (s_conns s ! 0)"
    "s_stop s = Stopping" by (rule serving_run)
  then show ?thesis using stop_waits_for_peer [OF small_server_new s(1-3)] by auto
qed

end
