(* ===== verification/Ssh_Cipher.thy ===== *)
theory Ssh_Cipher
  imports Ssh_Wire
begin

text \<open>
  Packets on the wire: \<^verbatim>\<open>cipher.go\<close> and \<^verbatim>\<open>mac.go\<close> of the vendored package
  \<^verbatim>\<open>golang.org/x/crypto/ssh\<close>.

  A reader is the list of the bytes it still has, the source of randomness likewise. The ciphers and
  hashes of the standard library are parameters with a state of their own. The buffers that the code
  keeps to avoid allocations are not part of the state, as nothing reads what an earlier packet left
  in them.
\<close>

section \<open>Readers\<close>

text \<open>\<open>io.ReadFull\<close>: the bytes and the rest, \<^const>\<open>None\<close> is an error.\<close>

definition ReadFull :: "nat \<Rightarrow> bytes \<Rightarrow> (bytes \<times> bytes) option" where
  "ReadFull n r = (if length r < n then None else Some (take n r, drop n r))"

lemma ReadFull_append [simp]: "length a = n \<Longrightarrow> ReadFull n (a @ r) = Some (a, r)"
  by (simp add: ReadFull_def)

lemma ReadFull_Some: "ReadFull n r = Some (a, r') \<longleftrightarrow> r = a @ r' \<and> length a = n"
  by (auto simp: ReadFull_def)

section \<open>Message authentication codes\<close>

text \<open>A keyed hash: the sum of all that was written since \<open>Reset\<close>, and the size of a sum.\<close>

record mac =
  Sum :: "bytes \<Rightarrow> bytes"
  Size :: nat

definition truncatingMAC :: "nat \<Rightarrow> mac \<Rightarrow> mac" where
  "truncatingMAC n hmac = \<lparr>Sum = (\<lambda>d. take n (Sum hmac d)), Size = n\<rparr>"

record macMode =
  mm_keySize :: nat
  mm_new :: "bytes \<Rightarrow> mac"

text \<open>The parameter is \<open>hmac.New(sha1.New, key)\<close>.\<close>

definition macModes :: "(bytes \<Rightarrow> mac) \<Rightarrow> bytes \<Rightarrow> macMode option" where
  "macModes hmacSHA1 name =
     (if name = bytes_of ''hmac-sha1'' then Some \<lparr>mm_keySize = 20, mm_new = hmacSHA1\<rparr>
      else if name = bytes_of ''hmac-sha1-96'' then
        Some \<lparr>mm_keySize = 20, mm_new = (\<lambda>key. truncatingMAC 12 (hmacSHA1 key))\<rparr>
      else None)"

definition mac_ok :: "mac \<Rightarrow> bool" where
  "mac_ok m \<longleftrightarrow> (\<forall>d. length (Sum m d) = Size m) \<and> Size m < 2 ^ 16"

lemma mac_ok_truncating: "mac_ok m \<Longrightarrow> n \<le> Size m \<Longrightarrow> mac_ok (truncatingMAC n m)"
  by (auto simp: mac_ok_def truncatingMAC_def)

section \<open>Stream ciphers\<close>

text \<open>
  A stream cipher from outside has states \<open>'s\<close>; its \<open>XORKeyStream\<close> gives the output and the next
  state. \<open>noneCipher\<close> is the code's own.
\<close>

datatype 's stream = noneCipher | Keyed 's

definition XORKeyStream :: "('s \<Rightarrow> bytes \<Rightarrow> bytes \<times> 's) \<Rightarrow> 's stream \<Rightarrow> bytes \<Rightarrow> bytes \<times> 's stream" where
  "XORKeyStream ks c src =
     (case c of
        noneCipher \<Rightarrow> (src, noneCipher)
      | Keyed s \<Rightarrow> (case ks s src of (dst, s') \<Rightarrow> (dst, Keyed s')))"

text \<open>What is relied on: the same key stream decrypts, and a text may be cut anywhere.\<close>

locale stream_cipher =
  fixes ks :: "'s \<Rightarrow> bytes \<Rightarrow> bytes \<times> 's"
  assumes inverse: "ks s a = (b, s') \<Longrightarrow> ks s b = (a, s')"
    and cut: "ks s (a @ b) = (case ks s a of (x, s1) \<Rightarrow> case ks s1 b of (y, s2) \<Rightarrow> (x @ y, s2))"
    and same_length: "length (fst (ks s a)) = length a"
begin

lemma cut2: "ks s a = (x, s1) \<Longrightarrow> ks s1 b = (y, s2) \<Longrightarrow> ks s (x @ y) = (a @ b, s2)"
  by (rule inverse) (simp add: cut)

end

lemma stream_cipher_lift:
  assumes "stream_cipher ks"
  shows "stream_cipher (XORKeyStream ks)"
proof
  show "XORKeyStream ks s b = (a, s')" if "XORKeyStream ks s a = (b, s')" for s a b s'
  proof (cases s)
    case (Keyed t)
    obtain c t' where "ks t a = (c, t')" by (cases "ks t a")
    with that Keyed stream_cipher.inverse [OF assms this] show ?thesis by (simp add: XORKeyStream_def)
  qed (use that in \<open>simp add: XORKeyStream_def\<close>)
  show "XORKeyStream ks s (a @ b) =
      (case XORKeyStream ks s a of (x, s1) \<Rightarrow> case XORKeyStream ks s1 b of (y, s2) \<Rightarrow> (x @ y, s2))" for s a b
    by (cases s) (simp_all add: XORKeyStream_def stream_cipher.cut [OF assms] split: prod.split)
  show "length (fst (XORKeyStream ks s a)) = length a" for s a
    using stream_cipher.same_length [OF assms] by (cases s) (simp_all add: XORKeyStream_def split_beta)
qed

interpretation none: stream_cipher "\<lambda>(s :: unit stream). XORKeyStream (\<lambda>s a. (a, s)) s"
  by (rule stream_cipher_lift) (unfold_locales, auto)

text \<open>
  The modes of \<open>cipherModes\<close>. The functions that make a stream from a key and a nonce are the
  library's: \<open>ctr\<close> is \<open>aes.NewCipher\<close> with \<open>cipher.NewCTR\<close>, \<open>rc4\<close> is \<open>rc4.NewCipher\<close>; they may return an error.
\<close>

definition newRC4 :: "(bytes \<Rightarrow> 's option) \<Rightarrow> bytes \<Rightarrow> bytes \<Rightarrow> 's option" where
  "newRC4 rc4 key iv = rc4 key"

record 's streamCipherMode =
  sm_keySize :: nat
  sm_ivSize :: nat
  sm_skip :: nat
  sm_createFunc :: "(bytes \<Rightarrow> bytes \<Rightarrow> 's option) option"
      \<comment> \<open>nil for a cipher that is no stream cipher\<close>

definition gcmCipherID :: bytes where "gcmCipherID = bytes_of ''aes128-gcm@openssh.com''"
definition aes128cbcID :: bytes where "aes128cbcID = bytes_of ''aes128-cbc''"

definition cipherModes :: "(bytes \<Rightarrow> bytes \<Rightarrow> 's option) \<Rightarrow> (bytes \<Rightarrow> 's option) \<Rightarrow> bytes \<Rightarrow> 's streamCipherMode option" where
  "cipherModes ctr rc4 name =
     (if name = bytes_of ''aes128-ctr'' then Some \<lparr>sm_keySize = 16, sm_ivSize = 16, sm_skip = 0, sm_createFunc = Some ctr\<rparr>
      else if name = bytes_of ''aes192-ctr'' then Some \<lparr>sm_keySize = 24, sm_ivSize = 16, sm_skip = 0, sm_createFunc = Some ctr\<rparr>
      else if name = bytes_of ''aes256-ctr'' then Some \<lparr>sm_keySize = 32, sm_ivSize = 16, sm_skip = 0, sm_createFunc = Some ctr\<rparr>
      else if name = bytes_of ''arcfour128'' then
        Some \<lparr>sm_keySize = 16, sm_ivSize = 0, sm_skip = 1536, sm_createFunc = Some (newRC4 rc4)\<rparr>
      else if name = bytes_of ''arcfour256'' then
        Some \<lparr>sm_keySize = 32, sm_ivSize = 0, sm_skip = 1536, sm_createFunc = Some (newRC4 rc4)\<rparr>
      else if name = bytes_of ''arcfour'' then
        Some \<lparr>sm_keySize = 16, sm_ivSize = 0, sm_skip = 0, sm_createFunc = Some (newRC4 rc4)\<rparr>
      else if name = gcmCipherID then Some \<lparr>sm_keySize = 16, sm_ivSize = 12, sm_skip = 0, sm_createFunc = None\<rparr>
      else None)"

text \<open>The loop that drops the first bytes of a key stream, at most a buffer at a time. The buffer is never empty.\<close>

function dumpStream :: "('s \<Rightarrow> bytes \<Rightarrow> bytes \<times> 's) \<Rightarrow> nat \<Rightarrow> bytes \<Rightarrow> 's \<Rightarrow> 's" where
  "dumpStream ks remainingToDump streamDump s =
     (if remainingToDump = 0 \<or> streamDump = [] then s
      else
        let dumpThisTime = min remainingToDump (length streamDump) in
        (case ks s (take dumpThisTime streamDump) of
           (d, s') \<Rightarrow> dumpStream ks (remainingToDump - dumpThisTime) (d @ drop dumpThisTime streamDump) s'))"
  by pat_completeness auto
termination
  by (relation "measure (\<lambda>(ks, n, d, s). n)") (auto simp: min_def)

declare dumpStream.simps [simp del]

definition createStream :: "('s \<Rightarrow> bytes \<Rightarrow> bytes \<times> 's) \<Rightarrow> 's streamCipherMode \<Rightarrow> bytes \<Rightarrow> bytes \<Rightarrow> panic + 's option" where
  "createStream ks c key iv =
     (if length key < sm_keySize c then Inl (PanicMessage ''ssh: key length too small for cipher'')
      else if length iv < sm_ivSize c then Inl (PanicMessage ''ssh: iv too small for cipher'')
      else
        (case sm_createFunc c of
           None \<Rightarrow> Inl NilDereference
         | Some f \<Rightarrow>
             Inr (case f (take (sm_keySize c) key) (take (sm_ivSize c) iv) of
                 None \<Rightarrow> None
               | Some s \<Rightarrow> Some (dumpStream ks (sm_skip c) (replicate 512 0) s))))"

section \<open>Packets with a stream cipher\<close>

datatype cipher_error =
    EndOfInput
  | NoEntropy
  | PacketTooSmall
  | PacketTooLarge
  | InvalidLengthMultiple
  | InvalidLength
  | MACFailure
  | NotAuthentic
  | IllegalPadding "8 word"
  | PaddingTooLarge "8 word"

definition packetSizeMultiple :: nat where "packetSizeMultiple = 16"
definition maxPacket :: int where "maxPacket = 256 * 1024"

definition prefixLen :: nat where "prefixLen = 5"

record 's streamPacketCipher =
  sp_mac :: "mac option"
  sp_cipher :: "'s stream"

definition stream_readPacket :: "('s \<Rightarrow> bytes \<Rightarrow> bytes \<times> 's) \<Rightarrow> 's streamPacketCipher \<Rightarrow> 32 word \<Rightarrow> bytes \<Rightarrow>
    cipher_error + bytes \<times> 's streamPacketCipher \<times> bytes" where
  "stream_readPacket ks s seqNum r =
     (case ReadFull prefixLen r of
        None \<Rightarrow> Inl EndOfInput
      | Some (enc, r1) \<Rightarrow>
          (case XORKeyStream ks (sp_cipher s) enc of
             (hdr, c1) \<Rightarrow>
               let len = be32 hdr;
                   paddingLength = ucast (hdr ! 4) :: 32 word;
                   macSize = (case sp_mac s of None \<Rightarrow> 0 | Some m \<Rightarrow> word_of_nat (Size m)) :: 32 word in
               if len \<le> paddingLength + 1 then Inl PacketTooSmall
               else if len > word_of_int maxPacket then Inl PacketTooLarge
               else
                 (case ReadFull (unat (len - 1 + macSize)) r1 of
                    None \<Rightarrow> Inl EndOfInput
                  | Some (packetData, r2) \<Rightarrow>
                      (case XORKeyStream ks c1 (take (unat (len - 1)) packetData) of
                         (text, c2) \<Rightarrow>
                           if (case sp_mac s of
                                 None \<Rightarrow> False
                               | Some m \<Rightarrow> Sum m (u32be seqNum @ hdr @ text) \<noteq> drop (unat (len - 1)) packetData)
                           then Inl MACFailure
                           else Inr (take (unat (len - paddingLength - 1)) text, s\<lparr>sp_cipher := c2\<rparr>, r2)))))"

definition streamPadding :: "nat \<Rightarrow> nat" where
  "streamPadding n =
     (let paddingLength = packetSizeMultiple - (prefixLen + n) mod packetSizeMultiple
      in if paddingLength < 4 then paddingLength + packetSizeMultiple else paddingLength)"

text \<open>The bytes that are written, the cipher after it, and the randomness that is left.\<close>

definition stream_writePacket :: "('s \<Rightarrow> bytes \<Rightarrow> bytes \<times> 's) \<Rightarrow> 's streamPacketCipher \<Rightarrow> 32 word \<Rightarrow> bytes \<Rightarrow> bytes \<Rightarrow>
    cipher_error + bytes \<times> 's streamPacketCipher \<times> bytes" where
  "stream_writePacket ks s seqNum rand packet =
     (if int (length packet) > maxPacket then Inl PacketTooLarge
      else
        let paddingLength = streamPadding (length packet);
            len = length packet + 1 + paddingLength;
            hdr = u32be (word_of_nat len) @ [word_of_nat paddingLength] in
        (case ReadFull paddingLength rand of
           None \<Rightarrow> Inl NoEntropy
         | Some (padding, rand1) \<Rightarrow>
             (case XORKeyStream ks (sp_cipher s) hdr of
                (e1, c1) \<Rightarrow>
                  (case XORKeyStream ks c1 packet of
                     (e2, c2) \<Rightarrow>
                       (case XORKeyStream ks c2 padding of
                          (e3, c3) \<Rightarrow>
                            Inr (e1 @ e2 @ e3 @
                                (case sp_mac s of None \<Rightarrow> [] | Some m \<Rightarrow> Sum m (u32be seqNum @ hdr @ packet @ padding)),
                              s\<lparr>sp_cipher := c3\<rparr>, rand1))))))"

text \<open>The header of a packet: its length and the length of the padding.\<close>

lemma header_fields:
  assumes "L < 2 ^ 20" "p < 2 ^ 8"
  defines "w \<equiv> word_of_nat L :: 32 word" and "q \<equiv> ucast (word_of_nat p :: 8 word) :: 32 word"
  shows "unat w = L" "unat q = p" "w \<le> q + 1 \<longleftrightarrow> L \<le> p + 1" "word_of_int maxPacket < w \<longleftrightarrow> nat maxPacket < L"
    "p + 1 < L \<Longrightarrow> unat (w - 1) = L - 1" "p + 1 < L \<Longrightarrow> unat (w - q - 1) = L - p - 1"
    "p + 1 < L \<Longrightarrow> n < 2 ^ 16 \<Longrightarrow> unat (w - 1 + word_of_nat n) = L - 1 + n"
proof -
  show w: "unat w = L" using assms(1) by (simp add: w_def unat_of_nat)
  show q: "unat q = p" using assms(2) by (simp add: q_def unsigned_ucast_eq unat_of_nat take_bit_eq_mod)
  have "unat (q + 1) = p + 1" using q assms(2) by (simp add: unat_word_ariths)
  then show "w \<le> q + 1 \<longleftrightarrow> L \<le> p + 1" using w by (simp add: word_le_nat_alt)
  show "word_of_int maxPacket < w \<longleftrightarrow> nat maxPacket < L" using w by (simp add: word_less_nat_alt maxPacket_def)
  assume g: "p + 1 < L"
  then have 1: "(1 :: 32 word) \<le> w" using w by (simp add: word_le_nat_alt)
  then show l: "unat (w - 1) = L - 1" using w by (simp add: unat_sub)
  have "q \<le> w" "1 \<le> w - q" using g w q by (simp_all add: word_le_nat_alt unat_sub)
  then show "unat (w - q - 1) = L - p - 1" using w q by (simp add: unat_sub)
  assume n: "n < 2 ^ 16"
  have "unat (w - 1 + word_of_nat n) = (unat (w - 1) + unat (word_of_nat n :: 32 word)) mod 2 ^ 32"
    by (simp add: unat_word_ariths)
  then show "unat (w - 1 + word_of_nat n) = L - 1 + n" using n assms(1) unfolding l by (simp add: unat_of_nat)
qed

lemma padding_fits:
  assumes "m < 16"
  shows "(m + (if 16 - m < (4 :: nat) then 32 - m else 16 - m)) mod 16 = 0"
  using assms by auto

lemma streamPadding_bounds: "4 \<le> streamPadding n" "streamPadding n \<le> 19" "(prefixLen + n + streamPadding n) mod 16 = 0"
proof -
  let ?m = "(prefixLen + n) mod 16"
  have m: "?m < 16" by simp
  have p: "streamPadding n = (if 16 - ?m < 4 then 32 - ?m else 16 - ?m)"
    using m by (auto simp: streamPadding_def packetSizeMultiple_def Let_def)
  show "4 \<le> streamPadding n" "streamPadding n \<le> 19" using m unfolding p by auto
  have "(prefixLen + n + streamPadding n) mod 16 = (?m + streamPadding n) mod 16" by (simp add: mod_add_left_eq)
  then show "(prefixLen + n + streamPadding n) mod 16 = 0" unfolding p using padding_fits [OF m] by simp
qed

text \<open>What is written is read back, if the packet is not empty and fits with its padding.\<close>

context stream_cipher
begin

lemma read_write:
  assumes w: "stream_writePacket ks s seqNum rand packet = Inr (out, s', rand')"
    and m: "\<And>m. sp_mac s = Some m \<Longrightarrow> mac_ok m"
  shows "stream_readPacket ks s seqNum (out @ rest) =
    (if packet = [] then Inl PacketTooSmall
     else if nat maxPacket < length packet + 1 + streamPadding (length packet) then Inl PacketTooLarge
     else Inr (packet, s', rest))"
proof -
  define p where "p = streamPadding (length packet)"
  define L where "L = length packet + 1 + p"
  define hdr :: bytes where "hdr = u32be (word_of_nat L) @ [word_of_nat p]"
  let ?X = "XORKeyStream ks"
  note x = stream_cipher_lift [OF stream_cipher_axioms]
  have len0: "\<not> maxPacket < int (length packet)" using w by (auto simp: stream_writePacket_def split: if_splits)
  then have len: "length packet \<le> nat maxPacket" by simp
  obtain padding e1 c1 e2 c2 e3 c3 where
    r: "ReadFull p rand = Some (padding, rand')" and e1: "?X (sp_cipher s) hdr = (e1, c1)" and e2: "?X c1 packet = (e2, c2)"
    and e3: "?X c2 padding = (e3, c3)" and s': "s' = s\<lparr>sp_cipher := c3\<rparr>"
    and out: "out = e1 @ e2 @ e3 @
      (case sp_mac s of None \<Rightarrow> [] | Some m \<Rightarrow> Sum m (u32be seqNum @ hdr @ packet @ padding))"
    using w len0 by (auto simp: stream_writePacket_def Let_def p_def L_def hdr_def split: option.splits prod.splits)
  have lp: "length padding = p" using r by (simp add: ReadFull_Some)
  have l1: "length e1 = prefixLen" using stream_cipher.same_length [OF x, of "sp_cipher s" hdr] e1 by (simp add: prefixLen_def hdr_def)
  have l2: "length e2 = length packet" using stream_cipher.same_length [OF x, of c1 packet] e2 by simp
  have l3: "length e3 = p" using stream_cipher.same_length [OF x, of c2 padding] e3 lp by simp
  have d1: "?X (sp_cipher s) e1 = (hdr, c1)" using stream_cipher.inverse [OF x e1] .
  have d2: "?X c1 (e2 @ e3) = (packet @ padding, c3)" using stream_cipher.cut2 [OF x e2 e3] .
  have small: "L < 2 ^ 20" "p < 2 ^ 8" using len streamPadding_bounds(2) [of "length packet"] by (simp_all add: maxPacket_def p_def L_def)
  note h = header_fields [OF small]
  have be: "be32 hdr = word_of_nat L" "hdr ! 4 = word_of_nat p" by (simp_all add: nth_append hdr_def)
  have e: "packet = [] \<longleftrightarrow> L \<le> p + 1" by (simp add: L_def)
  let ?goal = "stream_readPacket ks s seqNum (out @ rest) =
    (if packet = [] then Inl PacketTooSmall else if nat maxPacket < L then Inl PacketTooLarge else Inr (packet, s', rest))"
  have ?goal
  proof (cases "packet = [] \<or> nat maxPacket < L")
    case True
    then show ?goal using h(3,4) l1 d1 e
      unfolding stream_readPacket_def out append_assoc ReadFull_append [OF l1] by (auto simp: Let_def be)
  next
    case False
    then have g: "p + 1 < L" using e by auto
    have L: "unat (word_of_nat L - 1 :: 32 word) = length packet + p" using h(5) [OF g] by (simp add: L_def)
    have P: "unat (word_of_nat L - ucast (word_of_nat p :: 8 word) - 1 :: 32 word) = length packet" using h(6) [OF g] by (simp add: L_def)
    show ?goal
    proof (cases "sp_mac s")
      case None
      have "ReadFull (length packet + p) (e2 @ e3 @ rest) = Some (e2 @ e3, rest)" using l2 l3 by (simp add: ReadFull_Some)
      then show ?goal using False h(3,4) d1 d2 None s' g l2 l3
        unfolding stream_readPacket_def out append_assoc ReadFull_append [OF l1] by (simp add: Let_def be L P)
    next
      case (Some k)
      let ?t = "Sum k (u32be seqNum @ hdr @ packet @ padding)"
      have k: "length ?t = Size k" "Size k < 2 ^ 16" using m [OF Some] by (auto simp: mac_ok_def)
      have "ReadFull (length packet + p + Size k) ((e2 @ e3 @ ?t) @ rest) = Some (e2 @ e3 @ ?t, rest)"
        using l2 l3 k by (simp add: ReadFull_Some)
      moreover have "unat (word_of_nat L - 1 + word_of_nat (Size k) :: 32 word) = length packet + p + Size k"
        using h(7) [OF g k(2)] by (simp add: L_def)
      ultimately show ?goal using False h(3,4) d1 d2 Some s' g l2 l3
        unfolding stream_readPacket_def out append_assoc ReadFull_append [OF l1] by (simp add: Let_def be L P)
    qed
  qed
  then show ?thesis by (simp only: p_def L_def)
qed

end

text \<open>C29: with a stream cipher, a packet is only returned if the code over its number, its header and its body is the one
  that was received; it is part of that body, and no other bytes were read.\<close>

theorem stream_read_authentic:
  assumes "stream_readPacket ks s seqNum r = Inr (packet, s', r')" "sp_mac s = Some m"
  shows "\<exists>enc hdr c1 cbody body. r = enc @ cbody @ Sum m (u32be seqNum @ hdr @ body) @ r' \<and>
    XORKeyStream ks (sp_cipher s) enc = (hdr, c1) \<and> XORKeyStream ks c1 cbody = (body, sp_cipher s') \<and>
    packet = take (length packet) body"
proof -
  obtain enc r1 hdr c1 where 1: "ReadFull prefixLen r = Some (enc, r1)" "XORKeyStream ks (sp_cipher s) enc = (hdr, c1)"
    using assms(1) by (auto simp: stream_readPacket_def split: option.splits prod.splits)
  let ?n = "unat (be32 hdr - 1)"
  obtain d body c2 where 2: "ReadFull (unat (be32 hdr - 1 + word_of_nat (Size m))) r1 = Some (d, r')"
    "XORKeyStream ks c1 (take ?n d) = (body, c2)" "Sum m (u32be seqNum @ hdr @ body) = drop ?n d"
    "s' = s\<lparr>sp_cipher := c2\<rparr>" "packet = take (unat (be32 hdr - ucast (hdr ! 4) - 1)) body"
    using assms 1 by (auto simp: stream_readPacket_def Let_def split: option.splits prod.splits if_splits)
  have "r = enc @ take ?n d @ Sum m (u32be seqNum @ hdr @ body) @ r'" using 1(1) 2(1,3) by (simp add: ReadFull_Some)
  moreover have "XORKeyStream ks c1 (take ?n d) = (body, sp_cipher s')" "packet = take (length packet) body"
    using 2(2,4,5) by (simp_all add: min_def)
  ultimately show ?thesis using 1(2) by blast
qed

section \<open>Packets with AES-GCM\<close>

text \<open>\<open>cipher.AEAD\<close> with its key: nonce, text, additional data.\<close>

record aead =
  Seal :: "bytes \<Rightarrow> bytes \<Rightarrow> bytes \<Rightarrow> bytes"
  Open :: "bytes \<Rightarrow> bytes \<Rightarrow> bytes \<Rightarrow> bytes option"

definition gcmTagSize :: "32 word" where "gcmTagSize = 16"

record gcmCipher =
  gc_aead :: aead
  gc_iv :: bytes

text \<open>The loop over the bytes 11 to 4 of the nonce; \<open>k\<close> is \<open>i - 3\<close>.\<close>

fun incIV_loop :: "nat \<Rightarrow> bytes \<Rightarrow> panic + bytes" where
  "incIV_loop 0 iv = Inr iv"
| "incIV_loop (Suc k) iv =
     (if length iv \<le> k + 4 then Inl IndexOutOfRange
      else
        let iv1 = iv[k + 4 := iv ! (k + 4) + 1]
        in if iv1 ! (k + 4) \<noteq> 0 then Inr iv1 else incIV_loop k iv1)"

definition incIV :: "bytes \<Rightarrow> panic + bytes" where
  "incIV iv = incIV_loop 8 iv"

definition gcmPadding :: "nat \<Rightarrow> 8 word" where
  "gcmPadding n =
     (let padding = word_of_nat (packetSizeMultiple - (1 + n) mod packetSizeMultiple)
      in if padding < 4 then padding + word_of_nat packetSizeMultiple else padding)"

definition gcm_writePacket :: "gcmCipher \<Rightarrow> bytes \<Rightarrow> bytes \<Rightarrow> (cipher_error + bytes \<times> gcmCipher \<times> bytes) step" where
  "gcm_writePacket c rand packet =
     (let padding = gcmPadding (length packet);
          len = word_of_nat (length packet + unat padding + 1) :: 32 word;
          hdr = u32be len in
      case ReadFull (unat padding) rand of
        None \<Rightarrow> Ran (Inl NoEntropy)
      | Some (random, rand1) \<Rightarrow>
          let buf = Seal (gc_aead c) (gc_iv c) (padding # packet @ random) hdr in
          (case incIV (gc_iv c) of
             Inl e \<Rightarrow> Panicked e
           | Inr iv \<Rightarrow> Ran (Inr (hdr @ buf, c\<lparr>gc_iv := iv\<rparr>, rand1))))"

definition gcm_readPacket :: "gcmCipher \<Rightarrow> bytes \<Rightarrow> (cipher_error + bytes \<times> gcmCipher \<times> bytes) step" where
  "gcm_readPacket c r =
     (case ReadFull 4 r of
        None \<Rightarrow> Ran (Inl EndOfInput)
      | Some (hdr, r1) \<Rightarrow>
          let len = be32 hdr in
          if len > word_of_int maxPacket then Ran (Inl PacketTooLarge)
          else
            (case ReadFull (unat (len + gcmTagSize)) r1 of
               None \<Rightarrow> Ran (Inl EndOfInput)
             | Some (buf, r2) \<Rightarrow>
                 (case Open (gc_aead c) (gc_iv c) buf hdr of
                    None \<Rightarrow> Ran (Inl NotAuthentic)
                  | Some plain \<Rightarrow>
                      (case incIV (gc_iv c) of
                         Inl e \<Rightarrow> Panicked e
                       | Inr iv \<Rightarrow>
                           (case plain of
                              [] \<Rightarrow> Panicked IndexOutOfRange
                            | padding # _ \<Rightarrow>
                                if padding < 4 \<or> padding \<ge> 20 then Ran (Inl (IllegalPadding padding))
                                else if unat (padding + 1) \<ge> length plain then Ran (Inl (PaddingTooLarge padding))
                                else
                                  let upto = unat (len - ucast padding) in
                                  if upto < 1 \<or> length plain < upto then Panicked SliceBounds
                                  else Ran (Inr (substr plain 1 upto, c\<lparr>gc_iv := iv\<rparr>, r2)))))))"

section \<open>Packets with AES-CBC\<close>

text \<open>\<open>cipher.BlockMode\<close> has states \<open>'b\<close>; \<open>CryptBlocks\<close> gives the output and the next state.\<close>

record 'b cbcCipher =
  cb_mac :: mac
  cb_decrypter :: 'b
  cb_encrypter :: 'b

definition maxUInt32 :: "nat \<Rightarrow> nat \<Rightarrow> 32 word" where
  "maxUInt32 a b = (if a > b then word_of_nat a else word_of_nat b)"

text \<open>\<open>blockSize\<close> is \<open>aes.BlockSize\<close>.\<close>

definition blockSize :: nat where "blockSize = 16"
definition cbcMinPacketSizeMultiple :: nat where "cbcMinPacketSizeMultiple = 8"
definition cbcMinPacketSize :: nat where "cbcMinPacketSize = 16"
definition cbcMinPaddingSize :: nat where "cbcMinPaddingSize = 4"
definition firstBlockLength :: nat where "firstBlockLength = (prefixLen + blockSize - 1) div blockSize * blockSize"

definition cbc_readPacket :: "('b \<Rightarrow> bytes \<Rightarrow> bytes \<times> 'b) \<Rightarrow> 'b cbcCipher \<Rightarrow> 32 word \<Rightarrow> bytes \<Rightarrow>
    cipher_error + bytes \<times> 'b cbcCipher \<times> bytes" where
  "cbc_readPacket dec c seqNum r =
     (case ReadFull firstBlockLength r of
        None \<Rightarrow> Inl EndOfInput
      | Some (enc1, r1) \<Rightarrow>
          (case dec (cb_decrypter c) enc1 of
             (firstBlock, d1) \<Rightarrow>
               let len = be32 firstBlock; paddingLength = ucast (firstBlock ! 4) :: 32 word in
               if len > word_of_int maxPacket then Inl PacketTooLarge
               else if len + 4 < maxUInt32 cbcMinPacketSize blockSize then Inl PacketTooSmall
               else if (len + 4) mod maxUInt32 cbcMinPacketSizeMultiple blockSize \<noteq> 0 then Inl InvalidLengthMultiple
               else if paddingLength < word_of_nat cbcMinPaddingSize \<or> len \<le> paddingLength + 1 then Inl InvalidLength
               else
                 let macStart = 4 + len;
                     paddingStart = macStart - paddingLength;
                     entirePacketSize = macStart + word_of_nat (Size (cb_mac c)) in
                 (case ReadFull (unat entirePacketSize - firstBlockLength) r1 of
                    None \<Rightarrow> Inl EndOfInput
                  | Some (rest, r2) \<Rightarrow>
                      (case dec d1 (take (unat macStart - firstBlockLength) rest) of
                         (remaining, d2) \<Rightarrow>
                           let packetData = firstBlock @ remaining in
                           if Sum (cb_mac c) (u32be seqNum @ packetData) \<noteq> drop (unat macStart - firstBlockLength) rest
                           then Inl MACFailure
                           else Inr (substr packetData prefixLen (unat paddingStart), c\<lparr>cb_decrypter := d2\<rparr>, r2)))))"

definition encLength :: "nat \<Rightarrow> 32 word" where
  "encLength n =
     (let effectiveBlockSize = maxUInt32 cbcMinPacketSizeMultiple blockSize;
          len = maxUInt32 (prefixLen + n + cbcMinPaddingSize) cbcMinPaddingSize
      in (len + effectiveBlockSize - 1) div effectiveBlockSize * effectiveBlockSize)"

definition cbc_writePacket :: "('b \<Rightarrow> bytes \<Rightarrow> bytes \<times> 'b) \<Rightarrow> 'b cbcCipher \<Rightarrow> 32 word \<Rightarrow> bytes \<Rightarrow> bytes \<Rightarrow>
    (cipher_error + bytes \<times> 'b cbcCipher \<times> bytes) step" where
  "cbc_writePacket enc c seqNum rand packet =
     (let total = encLength (length packet);
          len = total - 4;
          paddingLength = int (unat len) - (1 + int (length packet)) in
      if unat total < prefixLen then Panicked IndexOutOfRange
      else if unat total < prefixLen + length packet then Panicked SliceBounds
      else
        (case ReadFull (unat total - prefixLen - length packet) rand of
           None \<Rightarrow> Ran (Inl NoEntropy)
         | Some (padding, rand1) \<Rightarrow>
             let packetData = u32be len @ [word_of_int paddingLength] @ packet @ padding in
             (case enc (cb_encrypter c) packetData of
                (e, s) \<Rightarrow>
                  Ran (Inr (e @ Sum (cb_mac c) (u32be seqNum @ packetData), c\<lparr>cb_encrypter := s\<rparr>, rand1)))))"

text \<open>What is relied on: decryption undoes encryption block by block.\<close>

definition cbc_ok :: "('b \<Rightarrow> bytes \<Rightarrow> bytes \<times> 'b) \<Rightarrow> ('b \<Rightarrow> bytes \<Rightarrow> bytes \<times> 'b) \<Rightarrow> bool" where
  "cbc_ok enc dec \<longleftrightarrow>
     (\<forall>s a. length a mod blockSize = 0 \<longrightarrow>
        length (fst (enc s a)) = length a \<and> dec s (fst (enc s a)) = (a, snd (enc s a))) \<and>
     (\<forall>s a b. length a mod blockSize = 0 \<longrightarrow>
        dec s (a @ b) = (case dec s a of (x, s1) \<Rightarrow> case dec s1 b of (y, s2) \<Rightarrow> (x @ y, s2)) \<and>
        length (fst (dec s a)) = length a)"

lemma unat_plus32: "unat a + unat b < 2 ^ 32 \<Longrightarrow> unat (a + b :: 32 word) = unat a + unat b"
  by (simp add: unat_word_ariths)

lemma cbc_cut:
  assumes "cbc_ok enc dec" "length a mod blockSize = 0" "dec s a = (x, s1)" "dec s1 b = (y, s2)"
  shows "dec s (a @ b) = (x @ y, s2) \<and> length x = length a"
  using assms(1) [unfolded cbc_ok_def, THEN conjunct2, rule_format, OF assms(2), of s b] assms(3,4) by simp

lemma encLength_nat:
  assumes "n < 2 ^ 31"
  shows "unat (encLength n) = (n + 24) div 16 * 16"
proof -
  have u: "unat (word_of_nat k :: 32 word) = k" if "k < 2 ^ 32" for k using that by (simp only: unat_of_nat) simp
  have e: "encLength n = word_of_nat (n + 24) div 16 * 16"
    by (simp add: encLength_def maxUInt32_def cbcMinPacketSizeMultiple_def blockSize_def prefixLen_def cbcMinPaddingSize_def
        Let_def algebra_simps)
  have "unat (word_of_nat (n + 24) div 16 :: 32 word) = (n + 24) div 16" using u [of "n + 24"] assms by (simp add: unat_div)
  moreover have "(n + 24) div 16 * 16 < 2 ^ 32" using assms by simp
  ultimately show ?thesis unfolding e by (simp add: unat_word_ariths)
qed

lemma cbc_read_write:
  assumes w: "cbc_writePacket enc c seqNum rand packet = Ran (Inr (out, c', rand'))"
    and ok: "cbc_ok enc dec" and m: "mac_ok (cb_mac c)" and len: "length packet < 2 ^ 31"
    and d: "cb_mac d = cb_mac c" "cb_decrypter d = cb_encrypter c"
  shows "cbc_readPacket dec d seqNum (out @ rest) =
    (if nat maxPacket < (length packet + 24) div 16 * 16 - 4 then Inl PacketTooLarge
     else if packet = [] then Inl InvalidLength
     else Inr (packet, d\<lparr>cb_decrypter := cb_encrypter c'\<rparr>, rest))"
proof -
  define E where "E = (length packet + 24) div 16 * 16"
  define L where "L = E - 4" define p where "p = E - 5 - length packet"
  have E: "length packet + 9 \<le> E" "E \<le> length packet + 24" "E mod 16 = 0" by (auto simp: E_def)
  then have E16: "16 \<le> E" by presburger
  have pL: "4 \<le> p" "p \<le> 19" "L = length packet + 1 + p" "E = L + 4" using E(1,2) by (simp_all add: p_def L_def)
  have uE: "unat (encLength (length packet)) = E" using encLength_nat [OF len] by (simp add: E_def)
  have "(4 :: 32 word) \<le> encLength (length packet)" using uE pL(4) by (simp add: word_le_nat_alt)
  then have uL: "unat (encLength (length packet) - 4) = L" using uE pL(4) by (simp add: unat_sub)
  then have wL: "encLength (length packet) - 4 = word_of_nat L" unfolding uL [symmetric] by simp
  have uL': "unat (word_of_nat L :: 32 word) = L" using uL wL by simp
  have ip: "int L - (1 + int (length packet)) = int p" using pL(3) by simp
  have pp: "E - prefixLen - length packet = p" by (simp add: p_def prefixLen_def)
  obtain padding where r: "ReadFull p rand = Some (padding, rand')"
    and out: "out = fst (enc (cb_encrypter c) (u32be (word_of_nat L) @ word_of_nat p # packet @ padding)) @
      Sum (cb_mac c) (u32be seqNum @ u32be (word_of_nat L) @ word_of_nat p # packet @ padding)"
    and c': "c' = c\<lparr>cb_encrypter := snd (enc (cb_encrypter c) (u32be (word_of_nat L) @ word_of_nat p # packet @ padding))\<rparr>"
    using w E(1) unfolding cbc_writePacket_def Let_def uE wL uL' ip pp
    by (auto simp: prefixLen_def split: option.splits prod.splits)
  define body :: bytes where "body = u32be (word_of_nat L) @ word_of_nat p # packet @ padding"
  define mac where "mac = Sum (cb_mac c) (u32be seqNum @ body)"
  let ?s = "cb_encrypter c"
  have lp: "length padding = p" using r by (simp add: ReadFull_Some)
  have lt: "length body = E" using lp pL by (simp add: body_def)
  obtain e t where e: "enc ?s body = (e, t)" "length e = E" "dec ?s e = (body, t)"
    using ok lt E(3) unfolding cbc_ok_def blockSize_def by (metis prod.collapse fst_conv snd_conv)
  have out': "out = take 16 e @ drop 16 e @ mac" and t: "t = cb_encrypter c'"
    using out c' e(1) by (simp_all add: body_def mac_def)
  obtain x t1 where x: "dec ?s (take 16 e) = (x, t1)" by fastforce
  obtain y t2 where y: "dec t1 (drop 16 e) = (y, t2)" by fastforce
  have l16: "length (take 16 e) mod blockSize = 0" using e(2) E16 by (simp add: blockSize_def)
  have "dec ?s (take 16 e @ drop 16 e) = (x @ y, t2)" "length x = 16"
    using cbc_cut [OF ok l16 x y] e(2) E16 by simp_all
  then have xy: "x @ y = body" "t2 = t" "length x = 16" "length y = E - 16" using e(3) lt by auto
  have x4: "take 4 x = u32be (word_of_nat L)" "x ! 4 = word_of_nat p"
    using arg_cong [OF xy(1), of "take 4"] arg_cong [OF xy(1), of "\<lambda>l. l ! 4"] xy(3) by (simp_all add: body_def nth_append)
  then have bx: "be32 x = word_of_nat L" by (simp add: be32_def)
  have f: "firstBlockLength = 16" "maxUInt32 cbcMinPacketSize blockSize = 16" "maxUInt32 cbcMinPacketSizeMultiple blockSize = 16"
    by (simp_all add: firstBlockLength_def prefixLen_def blockSize_def maxUInt32_def cbcMinPacketSize_def cbcMinPacketSizeMultiple_def)
  have rd: "ReadFull 16 (out @ rest) = Some (take 16 e, drop 16 e @ mac @ rest)"
    using e(2) E16 by (simp add: out' ReadFull_Some)
  have big: "word_of_int maxPacket < (word_of_nat L :: 32 word) \<longleftrightarrow> nat maxPacket < L"
    using uL' by (simp add: word_less_nat_alt maxPacket_def)
  have "cbc_readPacket dec d seqNum (out @ rest) =
    (if nat maxPacket < L then Inl PacketTooLarge else if packet = [] then Inl InvalidLength
     else Inr (packet, d\<lparr>cb_decrypter := t\<rparr>, rest))"
  proof (cases "nat maxPacket < L")
    case True
    then show ?thesis by (simp add: cbc_readPacket_def f rd x d bx big Let_def)
  next
    case False
    let ?q = "ucast (word_of_nat p :: 8 word) :: 32 word"
    have small: "L < 2 ^ 20" "p < 2 ^ 8" using False pL(2) by (simp_all add: maxPacket_def)
    note h = header_fields [OF small]
    have l4: "unat (word_of_nat L + 4 :: 32 word) = E" using uL' small(1) pL(4) by (simp add: unat_word_ariths)
    then have l4': "unat (4 + word_of_nat L :: 32 word) = E" by (subst add.commute)
    have ge: "\<not> word_of_nat L + 4 < (16 :: 32 word)" using l4 E16 by (simp add: word_less_nat_alt)
    have "unat ((word_of_nat L + 4) mod 16 :: 32 word) = 0" using l4 E(3) by (simp add: unat_mod)
    then have mul: "(word_of_nat L + 4) mod 16 = (0 :: 32 word)" by (simp only: unat_eq_0)
    have pd: "\<not> ?q < word_of_nat cbcMinPaddingSize" using h(2) pL(1) by (simp add: word_less_nat_alt cbcMinPaddingSize_def)
    show ?thesis
    proof (cases "packet = []")
      case True
      then have le: "word_of_nat L \<le> ?q + 1" using h(3) pL(3) by simp
      show ?thesis using False True unfolding cbc_readPacket_def Let_def f rd
        by (simp only: option.case prod.case x d bx x4(2) big ge mul pd le if_False if_True simp_thms)
    next
      case ne: False
      then have g: "\<not> word_of_nat L \<le> ?q + 1" using h(3) pL(3) by simp
      have k: "length mac = Size (cb_mac c)" "Size (cb_mac c) < 2 ^ 16" using m by (simp_all add: mac_ok_def mac_def)
      have sz: "unat (word_of_nat (Size (cb_mac c)) :: 32 word) = Size (cb_mac c)" using k(2) by (simp add: unat_of_nat)
      have "unat (4 + word_of_nat L + word_of_nat (Size (cb_mac c)) :: 32 word) = E + Size (cb_mac c)"
        using unat_plus32 [of "4 + word_of_nat L" "word_of_nat (Size (cb_mac c))"] l4' sz k(2) small(1) pL(4) by simp
      moreover note l4'
      moreover have "unat (4 + word_of_nat L - ?q :: 32 word) = E - p"
      proof -
        have "?q \<le> 4 + word_of_nat L" using calculation(2) h(2) pL by (simp add: word_le_nat_alt)
        then show ?thesis using calculation(2) h(2) by (simp add: unat_sub)
      qed
      moreover have "ReadFull (E + Size (cb_mac c) - 16) (drop 16 e @ mac @ rest) = Some (drop 16 e @ mac, rest)"
        using e(2) E16 k(1) by (simp add: ReadFull_Some)
      moreover have "take (E - 16) (drop 16 e @ mac) = drop 16 e" "drop (E - 16) (drop 16 e @ mac) = mac"
        using e(2) by simp_all
      moreover have "Sum (cb_mac c) (u32be seqNum @ x @ y) = mac" using xy(1) by (simp add: mac_def)
      moreover have "substr (x @ y) prefixLen (E - p) = packet" using pL lp
        unfolding xy(1) by (simp add: substr_def body_def prefixLen_def)
      ultimately show ?thesis using False ne
        by (simp add: cbc_readPacket_def f rd x y d bx x4(2) big ge mul pd g xy(2) Let_def)
    qed
  qed
  then show ?thesis by (simp only: L_def E_def t)
qed

text \<open>What is relied on: a sealed text opens to itself, and what opens is shorter by the tag.\<close>

definition aead_ok :: "aead \<Rightarrow> bool" where
  "aead_ok a \<longleftrightarrow>
     (\<forall>iv p ad. Open a iv (Seal a iv p ad) ad = Some p) \<and>
     (\<forall>iv p ad. length (Seal a iv p ad) = length p + 16) \<and>
     (\<forall>iv c ad p. Open a iv c ad = Some p \<longrightarrow> length c = length p + 16)"

text \<open>The nonce counts packets: four fixed bytes and a big-endian counter of eight.\<close>

lemma bigNat_append: "bigNat (a @ b) = bigNat a * 256 ^ length b + bigNat b"
  by (induction a) (simp_all add: bigNat_Cons power_add algebra_simps)

lemma bigNat_less: "bigNat bs < 256 ^ length bs"
proof (induction bs rule: rev_induct)
  case (snoc x xs)
  have "unat x < 256" using unsigned_less [of x, where ?'a = nat] by simp
  then show ?case using snoc by simp
qed simp

lemma incIV_loop_counts:
  assumes "4 + k \<le> length iv"
  shows "\<exists>iv'. incIV_loop k iv = Inr iv' \<and> length iv' = length iv \<and> take 4 iv' = take 4 iv \<and> drop (4 + k) iv' = drop (4 + k) iv \<and>
    bigNat (take k (drop 4 iv')) = (bigNat (take k (drop 4 iv)) + 1) mod 256 ^ k"
  using assms
proof (induction k arbitrary: iv)
  case (Suc k)
  define b where "b = iv ! (k + 4)"
  define iv1 where "iv1 = iv[k + 4 := b + 1]"
  let ?B = "bigNat (take k (drop 4 iv))"
  have l: "4 + k < length iv" using Suc.prems by simp
  have snoc: "bigNat (take (Suc k) (drop 4 v)) = bigNat (take k (drop 4 v)) * 256 + unat (v ! (4 + k))" if "4 + k < length v" for v
    using that by (simp add: take_Suc_conv_app_nth)
  have B: "?B < 256 ^ k" using bigNat_less [of "take k (drop 4 iv)"] l by simp
  have old: "bigNat (take (Suc k) (drop 4 iv)) = ?B * 256 + unat b" using snoc [OF l] by (simp add: b_def add.commute)
  have b: "unat b < 256" using unsigned_less [of b, where ?'a = nat] by simp
  have same: "length iv1 = length iv" "take 4 iv1 = take 4 iv" "drop (4 + Suc k) iv1 = drop (4 + Suc k) iv"
    "take k (drop 4 iv1) = take k (drop 4 iv)" "iv1 ! (4 + k) = b + 1"
    using l by (simp_all add: iv1_def take_update_cancel drop_update_swap add.commute)
  show ?case
  proof (cases "b + 1 = 0")
    case False
    then have u: "unat (b + 1) = unat b + 1" by (simp add: unatSuc add.commute)
    then have "unat b + 1 < 256" using unsigned_less [of "b + 1", where ?'a = nat] by simp
    then have "?B * 256 + unat b + 1 < 256 ^ Suc k" using B by simp
    moreover have "incIV_loop (Suc k) iv = Inr iv1" using l False same(5) by (simp add: iv1_def b_def Let_def add.commute)
    ultimately show ?thesis using same snoc [of iv1] l old u by auto
  next
    case True
    have "b = - 1" using True by (simp add: eq_neg_iff_add_eq_0)
    then have u: "unat b = 255" by (simp add: unsigned_minus_1_eq_mask mask_eq_exp_minus_1)
    obtain iv2 where 2: "incIV_loop k iv1 = Inr iv2" "length iv2 = length iv1" "take 4 iv2 = take 4 iv1"
      "drop (4 + k) iv2 = drop (4 + k) iv1" "bigNat (take k (drop 4 iv2)) = (?B + 1) mod 256 ^ k"
      using Suc.IH [of iv1] l same by auto
    have "incIV_loop (Suc k) iv = Inr iv2" using l True 2(1) same(5) by (simp add: iv1_def b_def Let_def add.commute)
    moreover have "iv2 ! (4 + k) = 0"
      using arg_cong [OF 2(4), of "\<lambda>xs. xs ! 0"] same(1,5) 2(2) l True by simp
    moreover have "drop (4 + Suc k) iv2 = drop (4 + Suc k) iv"
      using arg_cong [OF 2(4), of "drop 1"] same(3) by simp
    moreover have "(?B * 256 + unat b + 1) mod 256 ^ Suc k = ((?B + 1) mod 256 ^ k) * 256"
      using u mult_mod_right [of 256 "?B + 1" "256 ^ k"] by (simp add: algebra_simps)
    ultimately show ?thesis using 2 same snoc [of iv2] l old by auto
  qed
qed simp

lemma incIV_counts:
  assumes "length iv = 12"
  obtains iv' where "incIV iv = Inr iv'" "length iv' = 12" "take 4 iv' = take 4 iv"
    "bigNat (drop 4 iv') = (bigNat (drop 4 iv) + 1) mod 2 ^ 64"
proof -
  obtain iv' where "incIV_loop 8 iv = Inr iv'" "length iv' = 12" "take 4 iv' = take 4 iv"
    "bigNat (take 8 (drop 4 iv')) = (bigNat (take 8 (drop 4 iv)) + 1) mod 256 ^ 8"
    using incIV_loop_counts [of 8 iv] assms by auto
  then show ?thesis using that assms by (simp add: incIV_def)
qed

lemma padding_byte:
  assumes "k \<le> 16"
  shows "unat (if word_of_nat k < (4 :: 8 word) then word_of_nat k + word_of_nat 16 else word_of_nat k :: 8 word) =
    (if k < 4 then k + 16 else k)"
proof -
  have u: "unat (word_of_nat k :: 8 word) = k" using assms by (simp add: unat_of_nat)
  then have "unat (word_of_nat k + 16 :: 8 word) = k + 16" if "k < 4" using that by (simp add: unat_word_ariths)
  then show ?thesis using u by (simp add: word_less_nat_alt)
qed

lemma gcmPadding_bounds:
  "4 \<le> unat (gcmPadding n)" "unat (gcmPadding n) \<le> 19" "(1 + n + unat (gcmPadding n)) mod 16 = 0"
proof -
  define m where "m = (1 + n) mod 16"
  have m: "m < 16" by (simp add: m_def)
  have p: "unat (gcmPadding n) = (if 16 - m < 4 then 16 - m + 16 else 16 - m)"
    unfolding gcmPadding_def packetSizeMultiple_def Let_def m_def by (rule padding_byte) simp
  show "4 \<le> unat (gcmPadding n)" "unat (gcmPadding n) \<le> 19" using m unfolding p by auto
  have "(1 + n + unat (gcmPadding n)) mod 16 = (m + unat (gcmPadding n)) mod 16" unfolding m_def by (rule mod_add_left_eq [symmetric])
  then show "(1 + n + unat (gcmPadding n)) mod 16 = 0" unfolding p using padding_fits [OF m] m by (simp split: if_splits)
qed

lemma gcm_read_write:
  assumes w: "gcm_writePacket c rand packet = Ran (Inr (out, c', rand'))"
    and a: "aead_ok (gc_aead c)" and iv: "length (gc_iv c) = 12" and len: "length packet < 2 ^ 31"
  shows "gcm_readPacket c (out @ rest) =
    (if nat maxPacket < length packet + 1 + unat (gcmPadding (length packet)) then Ran (Inl PacketTooLarge)
     else if packet = [] then Ran (Inl (PaddingTooLarge 15))
     else Ran (Inr (packet, c', rest)))"
proof -
  define q where "q = gcmPadding (length packet)"
  define L where "L = length packet + 1 + unat q"
  define hdr :: bytes where "hdr = u32be (word_of_nat L)"
  note pb = gcmPadding_bounds [of "length packet", folded q_def]
  obtain iv' where iv': "incIV (gc_iv c) = Inr iv'" by (rule incIV_counts [OF iv]) blast
  obtain random where r: "ReadFull (unat q) rand = Some (random, rand')" and c': "c' = c\<lparr>gc_iv := iv'\<rparr>"
    and out: "out = hdr @ Seal (gc_aead c) (gc_iv c) (q # packet @ random) hdr"
    using w iv' by (auto simp: gcm_writePacket_def Let_def q_def L_def hdr_def add.commute add.left_commute split: option.splits)
  define buf where "buf = Seal (gc_aead c) (gc_iv c) (q # packet @ random) hdr"
  have lr: "length random = unat q" using r by (simp add: ReadFull_Some)
  have lb: "length buf = L + 16" and op: "Open (gc_aead c) (gc_iv c) buf hdr = Some (q # packet @ random)"
    using a lr by (simp_all add: aead_ok_def buf_def L_def)
  have uL: "unat (word_of_nat L :: 32 word) = L" 
  proof -
    have "L < 2 ^ 32" using len pb(2) by (simp add: L_def)
    then show ?thesis by (simp only: unat_of_nat) simp
  qed
  have big: "word_of_int maxPacket < (word_of_nat L :: 32 word) \<longleftrightarrow> nat maxPacket < L"
    using uL by (simp add: word_less_nat_alt maxPacket_def)
  have h: "ReadFull 4 (out @ rest) = Some (hdr, buf @ rest)" "be32 hdr = word_of_nat L"
    using be32_u32be [of "word_of_nat L" "[]"] by (simp_all add: out hdr_def buf_def ReadFull_Some)
  have legal: "\<not> (q < 4 \<or> 20 \<le> q)" using pb(1,2) by (simp add: word_less_nat_alt word_le_nat_alt)
  have u1: "unat (q + 1) = unat q + 1" using pb(2) by (simp add: unat_word_ariths)
  let ?goal = "gcm_readPacket c (out @ rest) =
    (if nat maxPacket < L then Ran (Inl PacketTooLarge)
     else if packet = [] then Ran (Inl (PaddingTooLarge 15)) else Ran (Inr (packet, c', rest)))"
  have ?goal
  proof (cases "nat maxPacket < L")
    case True
    then show ?thesis using big h by (simp add: gcm_readPacket_def Let_def)
  next
    case False
    then have "unat (word_of_nat L + gcmTagSize :: 32 word) = L + 16"
      using uL by (simp add: unat_word_ariths gcmTagSize_def maxPacket_def)
    then have b: "ReadFull (unat (be32 hdr + gcmTagSize)) (buf @ rest) = Some (buf, rest)" using lb h(2) by simp
    have q15: "q = 15" if "packet = []" using that by (simp add: q_def gcmPadding_def packetSizeMultiple_def)
    have uq: "unat (ucast q :: 32 word) = unat q"
      by (simp add: unsigned_ucast_eq take_bit_nat_eq_self_iff order_less_trans [OF unsigned_less])
    have "unat q \<le> L" by (simp add: L_def)
    then have "ucast q \<le> (word_of_nat L :: 32 word)" using uq uL by (simp only: word_le_nat_alt)
    then have "unat (word_of_nat L - ucast q :: 32 word) = L - unat q" using uq uL by (simp only: unat_sub)
    then have up: "unat (word_of_nat L - ucast q :: 32 word) = length packet + 1" by (simp add: L_def)
    have "packet = [] \<longleftrightarrow> unat q + 1 \<ge> length (q # packet @ random)" using lr by simp
    then show ?thesis using False big h b op iv' legal u1 up q15 c' lr
      by (auto simp: gcm_readPacket_def Let_def substr_def)
  qed
  then show ?thesis by (simp only: L_def q_def)
qed

text \<open>With AES-GCM, reading panics on one kind of packet only, whose length is zero and which is sealed with the
  key.\<close>

theorem gcm_read_panics:
  assumes a: "aead_ok (gc_aead c)" and iv: "length (gc_iv c) = 12"
  shows "gcm_readPacket c r = Panicked e \<longleftrightarrow>
    e = IndexOutOfRange \<and> 20 \<le> length r \<and> be32 (take 4 r) = 0 \<and>
    Open (gc_aead c) (gc_iv c) (take 16 (drop 4 r)) (take 4 r) = Some []"
proof -
  obtain iv' where iv': "incIV (gc_iv c) = Inr iv'" by (rule incIV_counts [OF iv]) blast
  let ?len = "be32 (take 4 r)" let ?n = "unat ?len + 16"
  have n: "unat (?len + gcmTagSize) = ?n" if "\<not> word_of_int maxPacket < ?len"
  proof -
    have "unat ?len \<le> nat maxPacket" using that by (simp add: word_less_nat_alt maxPacket_def)
    then show ?thesis by (subst unat_plus32) (simp_all add: gcmTagSize_def maxPacket_def)
  qed
  have safe: "\<not> (unat (?len - ucast q) < 1 \<or> length plain < unat (?len - ucast q))"
    if "\<not> (q < 4 \<or> 20 \<le> q)" "\<not> length plain \<le> unat (q + 1)" "length plain = unat ?len" for q :: "8 word" and plain :: bytes
  proof -
    have q: "unat q < 20" using that(1) by (simp add: word_less_nat_alt word_le_nat_alt)
    then have "unat (q + 1) = unat q + 1" by (simp add: unat_word_ariths)
    moreover have uq: "unat (ucast q :: 32 word) = unat q"
      by (simp add: unsigned_ucast_eq take_bit_nat_eq_self_iff order_less_trans [OF unsigned_less])
    ultimately have "ucast q \<le> ?len" using that(2,3) by (simp add: word_le_nat_alt)
    then have "unat (?len - ucast q) = unat ?len - unat q" using uq by (simp only: unat_sub)
    then show ?thesis using that(2,3) \<open>unat (q + 1) = unat q + 1\<close> by simp
  qed
  show ?thesis
  proof (cases "4 \<le> length r \<and> \<not> word_of_int maxPacket < ?len \<and> ?n \<le> length r - 4 \<and>
      (\<exists>plain. Open (gc_aead c) (gc_iv c) (take ?n (drop 4 r)) (take 4 r) = Some plain)")
    case False
    have "gcm_readPacket c r \<noteq> Panicked e"
      using False n by (auto simp: gcm_readPacket_def ReadFull_def Let_def split: option.splits)
    moreover have "\<not> (20 \<le> length r \<and> ?len = 0 \<and> Open (gc_aead c) (gc_iv c) (take 16 (drop 4 r)) (take 4 r) = Some [])"
      using False by auto
    ultimately show ?thesis by blast
  next
    case True
    then obtain plain where o: "Open (gc_aead c) (gc_iv c) (take ?n (drop 4 r)) (take 4 r) = Some plain" by blast
    then have lp: "length plain = unat ?len" using a True unfolding aead_ok_def by fastforce
    show ?thesis
    proof (cases plain)
      case Nil
      then have z: "?len = 0" using lp by (simp add: unat_eq_0)
      then show ?thesis using True o Nil n iv' by (auto simp: gcm_readPacket_def ReadFull_def Let_def)
    next
      case (Cons q bs)
      then have "?len \<noteq> 0" using lp by auto
      moreover have "gcm_readPacket c r \<noteq> Panicked e"
        using True o n iv' Cons safe [of q plain] lp by (auto simp: gcm_readPacket_def ReadFull_def Let_def)
      ultimately show ?thesis by blast
    qed
  qed
qed

text \<open>An AES-GCM that encrypts nothing, and a code that is always zero.\<close>

definition small_aead :: aead where
  "small_aead = \<lparr>Seal = (\<lambda>iv p ad. p @ replicate 16 9),
     Open = (\<lambda>iv c ad. if length c < 16 \<or> drop (length c - 16) c \<noteq> replicate 16 9 then None
       else Some (take (length c - 16) c))\<rparr>"

lemma small_aead_ok: "aead_ok small_aead"
  by (simp add: aead_ok_def small_aead_def)

lemma small_sealed:
  "be32 (replicate 4 0) = 0" "Open small_aead iv (replicate 16 9) ad = Some []"
  by code_simp (simp add: small_aead_def)

theorem gcm_read_panics_witness:
  "gcm_readPacket \<lparr>gc_aead = small_aead, gc_iv = replicate 12 0\<rparr> (replicate 4 0 @ replicate 16 9) = Panicked IndexOutOfRange"
proof -
  have "aead_ok (gc_aead \<lparr>gc_aead = small_aead, gc_iv = replicate 12 0\<rparr>)" by (simp add: small_aead_ok)
  from gcm_read_panics [OF this, of "replicate 4 0 @ replicate 16 9" IndexOutOfRange] show ?thesis
    by (simp add: small_sealed)
qed

definition small_stream :: "unit streamPacketCipher" where
  "small_stream = \<lparr>sp_mac = Some \<lparr>Sum = (\<lambda>d. replicate 20 0), Size = 20\<rparr>, sp_cipher = noneCipher\<rparr>"

definition small_input :: bytes where
  "small_input = [0, 0, 0, 12, 4] @ [94, 1, 2, 3, 4, 5, 6, 9, 9, 9, 9] @ replicate 20 0 @ [77]"

lemma small_stream_read:
  "(case stream_readPacket (\<lambda>s a. (a, s)) small_stream 3 small_input of
      Inr (packet, s, r) \<Rightarrow> packet = [94, 1, 2, 3, 4, 5, 6] \<and> r = [77] | _ \<Rightarrow> False)"
  by code_simp

theorem stream_read_authentic_witness:
  "\<exists>s enc cbody. stream_readPacket (\<lambda>s a. (a, s)) small_stream 3 small_input = Inr ([94, 1, 2, 3, 4, 5, 6], s, [77]) \<and>
    small_input = enc @ cbody @ replicate 20 0 @ [77]"
proof -
  obtain s where s: "stream_readPacket (\<lambda>s a. (a, s)) small_stream 3 small_input = Inr ([94, 1, 2, 3, 4, 5, 6], s, [77])"
    using small_stream_read by (auto split: sum.splits)
  have "sp_mac small_stream = Some \<lparr>Sum = (\<lambda>d. replicate 20 0), Size = 20\<rparr>" by (simp add: small_stream_def)
  from stream_read_authentic [OF s this] show ?thesis using s by fastforce
qed

end
