(* ===== verification/Ssh_Transport.thy ===== *)
theory Ssh_Transport
  imports Ssh_Cipher
begin

text \<open>
  The packet transport: \<^verbatim>\<open>transport.go\<close> of the vendored package \<^verbatim>\<open>golang.org/x/crypto/ssh\<close>, with the
  choice of algorithms and the defaults of \<^verbatim>\<open>common.go\<close>.

  The primitives of the standard library are fields of a record. What arrives on the connection is the
  list of its bytes; what is written is returned as bytes.
\<close>

section \<open>Choosing algorithms\<close>

definition compressionNone :: bytes where "compressionNone = bytes_of ''none''"

definition supportedCiphers :: "bytes list" where
  "supportedCiphers =
     [bytes_of ''aes128-ctr'', bytes_of ''aes192-ctr'', bytes_of ''aes256-ctr'',
      bytes_of ''aes128-gcm@openssh.com'',
      bytes_of ''arcfour256'', bytes_of ''arcfour128'']"

definition kexAlgoDH1SHA1 :: bytes where "kexAlgoDH1SHA1 = bytes_of ''diffie-hellman-group1-sha1''"
definition kexAlgoDH14SHA1 :: bytes where "kexAlgoDH14SHA1 = bytes_of ''diffie-hellman-group14-sha1''"
definition kexAlgoECDH256 :: bytes where "kexAlgoECDH256 = bytes_of ''ecdh-sha2-nistp256''"
definition kexAlgoECDH384 :: bytes where "kexAlgoECDH384 = bytes_of ''ecdh-sha2-nistp384''"
definition kexAlgoECDH521 :: bytes where "kexAlgoECDH521 = bytes_of ''ecdh-sha2-nistp521''"

definition supportedKexAlgos :: "bytes list" where
  "supportedKexAlgos = [kexAlgoECDH256, kexAlgoECDH384, kexAlgoECDH521, kexAlgoDH14SHA1, kexAlgoDH1SHA1]"

definition supportedMACs :: "bytes list" where
  "supportedMACs = [bytes_of ''hmac-sha1'', bytes_of ''hmac-sha1-96'']"

definition supportedCompressions :: "bytes list" where
  "supportedCompressions = [compressionNone]"

text \<open>The loops over the names of the client and those of the server.\<close>

fun findCommonAlgorithm :: "bytes list \<Rightarrow> bytes list \<Rightarrow> bytes option" where
  "findCommonAlgorithm [] serverAlgos = None"
| "findCommonAlgorithm (c # cs) serverAlgos =
     (if c \<in> set serverAlgos then Some c else findCommonAlgorithm cs serverAlgos)"

fun findCommonCipher :: "(bytes \<Rightarrow> 'm option) \<Rightarrow> bytes list \<Rightarrow> bytes list \<Rightarrow> bytes option" where
  "findCommonCipher modes [] serverCiphers = None"
| "findCommonCipher modes (c # cs) serverCiphers =
     (if c \<in> set serverCiphers \<and> modes c \<noteq> None then Some c else findCommonCipher modes cs serverCiphers)"

record directionAlgorithms =
  da_Cipher :: bytes
  da_MAC :: bytes
  da_Compression :: bytes

record algorithms =
  al_kex :: bytes
  al_hostKey :: bytes
  al_w :: directionAlgorithms
  al_r :: directionAlgorithms

text \<open>The name lists of a \<open>kexInitMsg\<close>, by the place of the field.\<close>

definition names_at :: "fval list \<Rightarrow> nat \<Rightarrow> bytes list" where
  "names_at vs i = (case vs ! i of VNames ns \<Rightarrow> ns | _ \<Rightarrow> [])"

abbreviation "KexAlgos m \<equiv> names_at m 1"
abbreviation "ServerHostKeyAlgos m \<equiv> names_at m 2"
abbreviation "CiphersClientServer m \<equiv> names_at m 3"
abbreviation "CiphersServerClient m \<equiv> names_at m 4"
abbreviation "MACsClientServer m \<equiv> names_at m 5"
abbreviation "MACsServerClient m \<equiv> names_at m 6"
abbreviation "CompressionClientServer m \<equiv> names_at m 7"
abbreviation "CompressionServerClient m \<equiv> names_at m 8"

definition findAgreedAlgorithms :: "(bytes \<Rightarrow> 'm option) \<Rightarrow> fval list \<Rightarrow> fval list \<Rightarrow> algorithms option" where
  "findAgreedAlgorithms modes clientKexInit serverKexInit =
     Option.bind (findCommonAlgorithm (KexAlgos clientKexInit) (KexAlgos serverKexInit)) (\<lambda>kex.
     Option.bind (findCommonAlgorithm (ServerHostKeyAlgos clientKexInit) (ServerHostKeyAlgos serverKexInit)) (\<lambda>hostKey.
     Option.bind (findCommonCipher modes (CiphersClientServer clientKexInit) (CiphersClientServer serverKexInit)) (\<lambda>wCipher.
     Option.bind (findCommonCipher modes (CiphersServerClient clientKexInit) (CiphersServerClient serverKexInit)) (\<lambda>rCipher.
     Option.bind (findCommonAlgorithm (MACsClientServer clientKexInit) (MACsClientServer serverKexInit)) (\<lambda>wMAC.
     Option.bind (findCommonAlgorithm (MACsServerClient clientKexInit) (MACsServerClient serverKexInit)) (\<lambda>rMAC.
     Option.bind (findCommonAlgorithm (CompressionClientServer clientKexInit) (CompressionClientServer serverKexInit)) (\<lambda>wComp.
     Option.bind (findCommonAlgorithm (CompressionServerClient clientKexInit) (CompressionServerClient serverKexInit)) (\<lambda>rComp.
       Some \<lparr>al_kex = kex, al_hostKey = hostKey,
         al_w = \<lparr>da_Cipher = wCipher, da_MAC = wMAC, da_Compression = wComp\<rparr>,
         al_r = \<lparr>da_Cipher = rCipher, da_MAC = rMAC, da_Compression = rComp\<rparr>\<rparr>))))))))"

text \<open>The choice is the first of the client's names that the server has.\<close>

lemma findCommonAlgorithm_find: "findCommonAlgorithm cs ss = List.find (\<lambda>c. c \<in> set ss) cs"
  by (induction cs) auto

lemma findCommonCipher_find: "findCommonCipher modes cs ss = List.find (\<lambda>c. c \<in> set ss \<and> modes c \<noteq> None) cs"
  by (induction cs) auto

section \<open>Configuration\<close>

record 'r transport_config =
  tc_Rand :: "'r option"
  tc_RekeyThreshold :: "64 word"
  tc_KeyExchanges :: "bytes list option"
  tc_Ciphers :: "bytes list option"
  tc_MACs :: "bytes list option"

definition minRekeyThreshold :: "64 word" where "minRekeyThreshold = 256"

text \<open>An empty list of ciphers that are left is nil.\<close>

definition SetDefaults :: "(bytes \<Rightarrow> 'm option) \<Rightarrow> 'r \<Rightarrow> 'r transport_config \<Rightarrow> 'r transport_config" where
  "SetDefaults modes reader c =
     (let ciphers = filter (\<lambda>x. modes x \<noteq> None) (case tc_Ciphers c of None \<Rightarrow> supportedCiphers | Some cs \<Rightarrow> cs);
          threshold = (if tc_RekeyThreshold c = 0 then push_bit 30 1 else tc_RekeyThreshold c)
      in c\<lparr>tc_Rand := Some (case tc_Rand c of None \<Rightarrow> reader | Some r \<Rightarrow> r),
           tc_Ciphers := (if ciphers = [] then None else Some ciphers),
           tc_KeyExchanges := Some (case tc_KeyExchanges c of None \<Rightarrow> supportedKexAlgos | Some ks \<Rightarrow> ks),
           tc_MACs := Some (case tc_MACs c of None \<Rightarrow> supportedMACs | Some ms \<Rightarrow> ms),
           tc_RekeyThreshold := (if threshold < minRekeyThreshold then minRekeyThreshold else threshold)\<rparr>)"

lemma SetDefaults_bounds:
  "minRekeyThreshold \<le> tc_RekeyThreshold (SetDefaults modes reader c)" "tc_Rand (SetDefaults modes reader c) \<noteq> None"
  "tc_KeyExchanges (SetDefaults modes reader c) \<noteq> None" "tc_MACs (SetDefaults modes reader c) \<noteq> None"
  "tc_Ciphers (SetDefaults modes reader c) = Some cs \<Longrightarrow> x \<in> set cs \<Longrightarrow> modes x \<noteq> None"
  unfolding SetDefaults_def Let_def by (auto simp: minRekeyThreshold_def split: if_splits)

section \<open>Keys\<close>

record direction =
  ivTag :: bytes
  keyTag :: bytes
  macKeyTag :: bytes

definition serverKeys :: direction where
  "serverKeys = \<lparr>ivTag = bytes_of ''B'', keyTag = bytes_of ''D'', macKeyTag = bytes_of ''F''\<rparr>"

definition clientKeys :: direction where
  "clientKeys = \<lparr>ivTag = bytes_of ''A'', keyTag = bytes_of ''C'', macKeyTag = bytes_of ''E''\<rparr>"

text \<open>\<open>crypto.Hash\<close>, as far as the package uses it.\<close>

datatype hash = SHA1 | SHA256 | SHA384 | SHA512

record kexResult =
  kr_H :: bytes
  kr_K :: bytes
  kr_HostKey :: bytes
  kr_Signature :: bytes
  kr_Hash :: hash
  kr_SessionID :: bytes

text \<open>
  The primitives: key streams, the block mode of AES-CBC (encryption and decryption start from the same state),
  AES-GCM, HMAC-SHA1, and digests. Making a cipher may return an error.
\<close>

record 's primitives =
  pr_keystream :: "'s \<Rightarrow> bytes \<Rightarrow> bytes \<times> 's"
  pr_ctr :: "bytes \<Rightarrow> bytes \<Rightarrow> 's option"
  pr_rc4 :: "bytes \<Rightarrow> 's option"
  pr_cbc :: "bytes \<Rightarrow> bytes \<Rightarrow> 's option"
  pr_encrypt :: "'s \<Rightarrow> bytes \<Rightarrow> bytes \<times> 's"
  pr_decrypt :: "'s \<Rightarrow> bytes \<Rightarrow> bytes \<times> 's"
  pr_gcm :: "bytes \<Rightarrow> aead option"
  pr_hmacSHA1 :: "bytes \<Rightarrow> mac"
  pr_digest :: "hash \<Rightarrow> bytes \<Rightarrow> bytes"

text \<open>
  The loop of \<open>generateKeyMaterial\<close> for the \<open>n\<close> bytes of \<open>out\<close> that are left. A hash whose digests are empty
  would make it run for ever, which is \<^const>\<open>None\<close>.
\<close>

function materialLoop :: "(bytes \<Rightarrow> bytes) \<Rightarrow> bytes \<Rightarrow> kexResult \<Rightarrow> nat \<Rightarrow> bytes \<Rightarrow> bytes option" where
  "materialLoop h tag r n digestsSoFar =
     (if n = 0 then Some []
      else
        let digest = h (kr_K r @ kr_H r @ (if digestsSoFar = [] then tag @ kr_SessionID r else digestsSoFar)) in
        if digest = [] then None
        else if n \<le> length digest then Some (take n digest)
        else map_option (append digest) (materialLoop h tag r (n - length digest) (digestsSoFar @ digest)))"
  by pat_completeness auto
termination
  by (relation "measure (\<lambda>(h, tag, r, n, d). n)") auto

declare materialLoop.simps [simp del]

definition generateKeyMaterial :: "'s primitives \<Rightarrow> nat \<Rightarrow> bytes \<Rightarrow> kexResult \<Rightarrow> bytes option" where
  "generateKeyMaterial pr n tag r = materialLoop (pr_digest pr (kr_Hash r)) tag r n []"

abbreviation modes_of :: "'s primitives \<Rightarrow> bytes \<Rightarrow> 's streamCipherMode option" where
  "modes_of pr \<equiv> cipherModes (pr_ctr pr) (pr_rc4 pr)"

text \<open>A cipher or MAC that is not in its table is a nil pointer.\<close>

definition generateKeys :: "'s primitives \<Rightarrow> direction \<Rightarrow> directionAlgorithms \<Rightarrow> kexResult \<Rightarrow> (bytes \<times> bytes \<times> bytes) step" where
  "generateKeys pr d algs kex =
     (case (modes_of pr (da_Cipher algs), macModes (pr_hmacSHA1 pr) (da_MAC algs)) of
        (Some cipherMode, Some macMode) \<Rightarrow>
          and_then (returns (generateKeyMaterial pr (sm_ivSize cipherMode) (ivTag d) kex)) (\<lambda>iv.
          and_then (returns (generateKeyMaterial pr (sm_keySize cipherMode) (keyTag d) kex)) (\<lambda>key.
          and_then (returns (generateKeyMaterial pr (mm_keySize macMode) (macKeyTag d) kex)) (\<lambda>macKey.
            Ran (iv, key, macKey))))
      | _ \<Rightarrow> Panicked NilDereference)"

section \<open>Packet ciphers\<close>

datatype 's packetCipher =
    StreamPacketCipher "'s streamPacketCipher"
  | GCMCipher gcmCipher
  | CBCCipher "'s cbcCipher"

definition newGCMCipher :: "'s primitives \<Rightarrow> bytes \<Rightarrow> bytes \<Rightarrow> bytes \<Rightarrow> 's packetCipher option" where
  "newGCMCipher pr iv key macKey = map_option (\<lambda>a. GCMCipher \<lparr>gc_aead = a, gc_iv = iv\<rparr>) (pr_gcm pr key)"

definition newAESCBCCipher :: "'s primitives \<Rightarrow> bytes \<Rightarrow> bytes \<Rightarrow> bytes \<Rightarrow> directionAlgorithms \<Rightarrow> 's packetCipher option step" where
  "newAESCBCCipher pr iv key macKey algs =
     (case pr_cbc pr key iv of
        None \<Rightarrow> Ran None
      | Some s \<Rightarrow>
          (case macModes (pr_hmacSHA1 pr) (da_MAC algs) of
             None \<Rightarrow> Panicked NilDereference
           | Some m \<Rightarrow> Ran (Some (CBCCipher \<lparr>cb_mac = mm_new m macKey, cb_decrypter = s, cb_encrypter = s\<rparr>))))"

text \<open>\<^const>\<open>None\<close> is the error of a cipher that could not be made.\<close>

definition newPacketCipher :: "'s primitives \<Rightarrow> direction \<Rightarrow> directionAlgorithms \<Rightarrow> kexResult \<Rightarrow> 's packetCipher option step" where
  "newPacketCipher pr d algs kex =
     and_then (generateKeys pr d algs kex) (\<lambda>(iv, key, macKey).
       if da_Cipher algs = gcmCipherID then Ran (newGCMCipher pr iv key macKey)
       else if da_Cipher algs = aes128cbcID then newAESCBCCipher pr iv key macKey algs
       else
         (case (macModes (pr_hmacSHA1 pr) (da_MAC algs), modes_of pr (da_Cipher algs)) of
            (Some mm, Some cm) \<Rightarrow>
              (case createStream (pr_keystream pr) cm key iv of
                 Inl e \<Rightarrow> Panicked e
               | Inr s \<Rightarrow>
                   Ran (map_option (\<lambda>x. StreamPacketCipher \<lparr>sp_mac = Some (mm_new mm macKey), sp_cipher = Keyed x\<rparr>) s))
          | _ \<Rightarrow> Panicked NilDereference))"

text \<open>The result of a method of a cipher, with the cipher it changed.\<close>

definition method_of :: "('c \<Rightarrow> 's packetCipher) \<Rightarrow> cipher_error + bytes \<times> 'c \<times> bytes \<Rightarrow>
    (cipher_error + bytes \<times> 's packetCipher \<times> bytes) step" where
  "method_of C x = Ran (case x of Inl e \<Rightarrow> Inl e | Inr (b, c, r) \<Rightarrow> Inr (b, C c, r))"

lemma method_of_Inr: "method_of C x = Ran (Inr (b, c, r)) \<longleftrightarrow> (\<exists>c'. x = Inr (b, c', r) \<and> c = C c')"
  by (auto simp: method_of_def split: sum.splits)

definition cipher_readPacket :: "'s primitives \<Rightarrow> 's packetCipher \<Rightarrow> 32 word \<Rightarrow> bytes \<Rightarrow>
    (cipher_error + bytes \<times> 's packetCipher \<times> bytes) step" where
  "cipher_readPacket pr c seqNum r =
     (case c of
        StreamPacketCipher s \<Rightarrow> method_of StreamPacketCipher (stream_readPacket (pr_keystream pr) s seqNum r)
      | GCMCipher g \<Rightarrow> and_then (gcm_readPacket g r) (method_of GCMCipher)
      | CBCCipher b \<Rightarrow> method_of CBCCipher (cbc_readPacket (pr_decrypt pr) b seqNum r))"

definition cipher_writePacket :: "'s primitives \<Rightarrow> 's packetCipher \<Rightarrow> 32 word \<Rightarrow> bytes \<Rightarrow> bytes \<Rightarrow>
    (cipher_error + bytes \<times> 's packetCipher \<times> bytes) step" where
  "cipher_writePacket pr c seqNum rand packet =
     (case c of
        StreamPacketCipher s \<Rightarrow> method_of StreamPacketCipher (stream_writePacket (pr_keystream pr) s seqNum rand packet)
      | GCMCipher g \<Rightarrow> and_then (gcm_writePacket g rand packet) (method_of GCMCipher)
      | CBCCipher b \<Rightarrow> and_then (cbc_writePacket (pr_encrypt pr) b seqNum rand packet) (method_of CBCCipher))"

section \<open>The transport\<close>

datatype transport_error =
    CipherError cipher_error
  | ZeroLengthPacket
  | BogusNewKeys
  | FlushError
  | NoCipher

text \<open>One side of the connection; the channel \<open>pendingKeyChange\<close> holds one cipher at most.\<close>

record 's connectionState =
  cs_cipher :: "'s packetCipher"
  cs_seqNum :: "32 word"
  cs_dir :: direction
  cs_pending :: "'s packetCipher option"

record 's transport =
  t_reader :: "'s connectionState"
  t_writer :: "'s connectionState"
  t_sessionID :: "bytes option"

definition newTransport :: "bool \<Rightarrow> 's transport" where
  "newTransport isClient =
     (let side = (\<lambda>d. \<lparr>cs_cipher = StreamPacketCipher \<lparr>sp_mac = None, sp_cipher = noneCipher\<rparr>, cs_seqNum = 0, cs_dir = d,
            cs_pending = None\<rparr>)
      in \<lparr>t_reader = side (if isClient then serverKeys else clientKeys),
          t_writer = side (if isClient then clientKeys else serverKeys), t_sessionID = None\<rparr>)"

definition getSessionID :: "'s transport \<Rightarrow> bytes step" where
  "getSessionID t = (case t_sessionID t of None \<Rightarrow> Panicked (PanicMessage ''session ID not set yet'') | Some i \<Rightarrow> Ran i)"

text \<open>A cipher for one side, and sending it on the channel of the side.\<close>

definition prepareSide :: "'s primitives \<Rightarrow> 's connectionState \<Rightarrow> directionAlgorithms \<Rightarrow> kexResult \<Rightarrow> 's connectionState option step" where
  "prepareSide pr s algs kex =
     and_then (newPacketCipher pr (cs_dir s) algs kex) (\<lambda>c.
       case c of
         None \<Rightarrow> Ran None
       | Some ciph \<Rightarrow> if cs_pending s = None then Ran (Some (s\<lparr>cs_pending := Some ciph\<rparr>)) else Blocks)"

definition prepareKeyChange :: "'s primitives \<Rightarrow> 's transport \<Rightarrow> algorithms \<Rightarrow> kexResult \<Rightarrow>
    (transport_error option \<times> 's transport \<times> kexResult) step" where
  "prepareKeyChange pr t algs kex =
     (let sid = (case t_sessionID t of None \<Rightarrow> kr_H kex | Some i \<Rightarrow> i);
          t1 = t\<lparr>t_sessionID := Some sid\<rparr>;
          kex1 = kex\<lparr>kr_SessionID := sid\<rparr> in
      and_then (prepareSide pr (t_reader t1) (al_r algs) kex1) (\<lambda>r.
        case r of
          None \<Rightarrow> Ran (Some NoCipher, t1, kex1)
        | Some rd \<Rightarrow>
            let t2 = t1\<lparr>t_reader := rd\<rparr> in
            and_then (prepareSide pr (t_writer t2) (al_w algs) kex1) (\<lambda>w.
              case w of
                None \<Rightarrow> Ran (Some NoCipher, t2, kex1)
              | Some wr \<Rightarrow> Ran (None, t2\<lparr>t_writer := wr\<rparr>, kex1))))"

definition msgNewKeys :: "8 word" where "msgNewKeys = 21"

text \<open>After an error the state is not used again.\<close>

definition side_readPacket :: "'s primitives \<Rightarrow> 's connectionState \<Rightarrow> bytes \<Rightarrow>
    (transport_error + bytes \<times> 's connectionState \<times> bytes) step" where
  "side_readPacket pr s r =
     and_then (cipher_readPacket pr (cs_cipher s) (cs_seqNum s) r) (\<lambda>x.
       case x of
         Inl e \<Rightarrow> Ran (Inl (CipherError e))
       | Inr (packet, c, r1) \<Rightarrow>
           let s1 = s\<lparr>cs_cipher := c, cs_seqNum := cs_seqNum s + 1\<rparr> in
           (case packet of
              [] \<Rightarrow> Ran (Inl ZeroLengthPacket)
            | b # _ \<Rightarrow>
                if b = msgNewKeys then
                  (case cs_pending s1 of
                     None \<Rightarrow> Ran (Inl BogusNewKeys)
                   | Some ciph \<Rightarrow> Ran (Inr (packet, s1\<lparr>cs_cipher := ciph, cs_pending := None\<rparr>, r1)))
                else Ran (Inr (packet, s1, r1))))"

text \<open>\<open>flushed\<close> is whether \<open>Flush\<close> succeeds.\<close>

definition side_writePacket :: "'s primitives \<Rightarrow> 's connectionState \<Rightarrow> bytes \<Rightarrow> bool \<Rightarrow> bytes \<Rightarrow>
    (transport_error + bytes \<times> 's connectionState \<times> bytes) step" where
  "side_writePacket pr s rand flushed packet =
     (let changeKeys = (packet \<noteq> [] \<and> hd packet = msgNewKeys) in
      and_then (cipher_writePacket pr (cs_cipher s) (cs_seqNum s) rand packet) (\<lambda>x.
        case x of
          Inl e \<Rightarrow> Ran (Inl (CipherError e))
        | Inr (out, c, rand1) \<Rightarrow>
            if \<not> flushed then Ran (Inl FlushError)
            else
              let s1 = s\<lparr>cs_cipher := c, cs_seqNum := cs_seqNum s + 1\<rparr> in
              if changeKeys then
                (case cs_pending s1 of
                   None \<Rightarrow> Panicked (PanicMessage ''ssh: no key material for msgNewKeys'')
                 | Some ciph \<Rightarrow> Ran (Inr (out, s1\<lparr>cs_cipher := ciph, cs_pending := None\<rparr>, rand1)))
              else Ran (Inr (out, s1, rand1))))"

definition transport_readPacket :: "'s primitives \<Rightarrow> 's transport \<Rightarrow> bytes \<Rightarrow> (transport_error + bytes \<times> 's transport \<times> bytes) step" where
  "transport_readPacket pr t r =
     and_then (side_readPacket pr (t_reader t) r) (\<lambda>x.
       Ran (map_sum id (map_prod id (map_prod (\<lambda>s. t\<lparr>t_reader := s\<rparr>) id)) x))"

definition transport_writePacket :: "'s primitives \<Rightarrow> 's transport \<Rightarrow> bytes \<Rightarrow> bool \<Rightarrow> bytes \<Rightarrow>
    (transport_error + bytes \<times> 's transport \<times> bytes) step" where
  "transport_writePacket pr t rand flushed packet =
     and_then (side_writePacket pr (t_writer t) rand flushed packet) (\<lambda>x.
       Ran (map_sum id (map_prod id (map_prod (\<lambda>s. t\<lparr>t_writer := s\<rparr>) id)) x))"

section \<open>Versions\<close>

definition packageVersion :: bytes where "packageVersion = bytes_of ''SSH-2.0-Go''"
definition maxVersionStringBytes :: nat where "maxVersionStringBytes = 255"

datatype version_error = JunkCharacter | VersionOverflow | VersionEOF | VersionWriteError

text \<open>The loop over the bytes that are read; \<^const>\<open>None\<close> for \<open>ok\<close> unset at its end.\<close>

fun versionLoop :: "bytes \<Rightarrow> bytes \<Rightarrow> version_error + bytes \<times> bytes" where
  "versionLoop versionString r =
     (if length versionString < maxVersionStringBytes then
        (case r of
           [] \<Rightarrow> Inl VersionEOF
         | b # r1 \<Rightarrow> if b = 10 then Inr (versionString, r1) else versionLoop (versionString @ [b]) r1)
      else Inl VersionOverflow)"

declare versionLoop.simps [simp del]

definition readVersion :: "bytes \<Rightarrow> version_error + bytes \<times> bytes" where
  "readVersion r =
     map_sum id (map_prod (\<lambda>v. if v \<noteq> [] \<and> last v = 13 then butlast v else v) id) (versionLoop [] r)"

text \<open>What is written, and the result; \<open>writes\<close> is whether writing succeeds.\<close>

definition exchangeVersions :: "bool \<Rightarrow> bytes \<Rightarrow> bytes \<Rightarrow> bytes \<times> (version_error + bytes \<times> bytes)" where
  "exchangeVersions writes versionLine r =
     (if \<exists>c \<in> set versionLine. c < 32 then ([], Inl JunkCharacter)
      else if \<not> writes then ([], Inl VersionWriteError)
      else (versionLine @ [13, 10], readVersion r))"

section \<open>Key material as RFC 4253 describes it\<close>

text \<open>K1 = HASH(K, H, X, id), and K(i+1) = HASH(K, H, K1, ..., Ki): the first \<open>i\<close> of them.\<close>

primrec rfc_keys :: "(bytes \<Rightarrow> bytes) \<Rightarrow> bytes \<Rightarrow> kexResult \<Rightarrow> nat \<Rightarrow> bytes" where
  "rfc_keys h tag r 0 = []"
| "rfc_keys h tag r (Suc i) =
     rfc_keys h tag r i @ h (kr_K r @ kr_H r @ (if i = 0 then tag @ kr_SessionID r else rfc_keys h tag r i))"

lemma rfc_keys_prefix: "\<exists>z. rfc_keys h tag r (i + k) = rfc_keys h tag r i @ z"
  by (induction k) auto

lemma rfc_keys_grow:
  assumes "\<And>x. h x \<noteq> []"
  shows "length (rfc_keys h tag r i) + k \<le> length (rfc_keys h tag r (i + k))"
proof (induction k)
  case (Suc k)
  obtain d where "rfc_keys h tag r (i + Suc k) = rfc_keys h tag r (i + k) @ d" "d \<noteq> []" using assms by auto
  then show ?case using Suc by (cases d) auto
qed simp

lemma materialLoop_rfc:
  assumes ne: "\<And>x. h x \<noteq> []"
  shows "materialLoop h tag r n (rfc_keys h tag r i) = Some (take n (drop (length (rfc_keys h tag r i)) (rfc_keys h tag r (i + n))))"
proof (induction n arbitrary: i rule: less_induct)
  case (less n)
  define A where "A = rfc_keys h tag r i"
  have e: "A = [] \<longleftrightarrow> i = 0" using rfc_keys_grow [where h = h and i = 0 and k = i, OF ne, of tag r] by (auto simp: A_def)
  define d where "d = h (kr_K r @ kr_H r @ (if A = [] then tag @ kr_SessionID r else A))"
  have S: "rfc_keys h tag r (Suc i) = A @ d" and d: "d \<noteq> []" using e ne by (simp_all add: d_def A_def)
  note loop = materialLoop.simps [of h tag r n A, folded d_def]
  show ?case unfolding A_def [symmetric]
  proof (cases "n = 0")
    case False
    then obtain z where z: "rfc_keys h tag r (i + n) = A @ d @ z"
      using rfc_keys_prefix [of h tag r "Suc i" "n - 1", unfolded S] by (auto simp del: rfc_keys.simps)
    show "materialLoop h tag r n A = Some (take n (drop (length A) (rfc_keys h tag r (i + n))))"
    proof (cases "n \<le> length d")
      case True
      then show ?thesis using False d z by (simp add: loop)
    next
      case more: False
      define m where "m = n - length d"
      have m: "m < n" "Suc i + m + (length d - 1) = i + n" using more d by (cases d; simp add: m_def)+
      obtain w where w: "rfc_keys h tag r (Suc i + m) = A @ d @ w" using rfc_keys_prefix [of h tag r "Suc i" m, unfolded S] by auto
      have lw: "m \<le> length w" using rfc_keys_grow [where h = h and i = "Suc i" and k = m, OF ne, of tag r] unfolding w S by simp
      obtain y where "rfc_keys h tag r (Suc i + m + (length d - 1)) = A @ d @ w @ y"
        using rfc_keys_prefix [of h tag r "Suc i + m" "length d - 1", unfolded w] by (auto simp del: rfc_keys.simps)
      then have "take n (drop (length A) (rfc_keys h tag r (i + n))) = d @ take m w"
        using lw more unfolding m(2) by (simp add: m_def)
      moreover have "materialLoop h tag r m (A @ d) = Some (take m w)" using less.IH [OF m(1), of "Suc i"] unfolding S w by simp
      ultimately show ?thesis using False more d by (simp add: loop m_def)
    qed
  qed (simp add: materialLoop.simps)
qed

lemma materialLoop_length: "materialLoop h tag r n d = Some x \<Longrightarrow> length x = n"
proof (induction n arbitrary: d x rule: less_induct)
  case (less n)
  define e where "e = h (kr_K r @ kr_H r @ (if d = [] then tag @ kr_SessionID r else d))"
  note loop = materialLoop.simps [of h tag r n d, folded e_def]
  show ?case
  proof (cases "n = 0 \<or> e = [] \<or> n \<le> length e")
    case False
    then have "n - length e < n" by simp
    then have IH: "materialLoop h tag r (n - length e) (d @ e) = Some y \<Longrightarrow> length y = n - length e" for y by (rule less.IH)
    obtain y where y: "materialLoop h tag r (n - length e) (d @ e) = Some y" "x = e @ y"
      using less.prems False unfolding loop by auto
    show ?thesis using IH [OF y(1)] y(2) False by simp
  qed (use less.prems in \<open>auto simp: loop split: if_splits\<close>)
qed

section \<open>Reading a version line\<close>

lemma versionLoop_line:
  assumes "10 \<notin> set v" "length a \<le> maxVersionStringBytes"
  shows "versionLoop a (v @ 10 # rest) =
    (if length a + length v < maxVersionStringBytes then Inr (a @ v, rest) else Inl VersionOverflow)"
  using assms
proof (induction v arbitrary: a)
  case Nil
  then show ?case by (subst versionLoop.simps) simp
next
  case (Cons b v)
  show ?case
  proof (cases "length a < maxVersionStringBytes")
    case True
    then show ?thesis using Cons.prems Cons.IH [of "a @ [b]"] by (subst versionLoop.simps) simp
  next
    case False
    then show ?thesis by (subst versionLoop.simps) simp
  qed
qed

lemma readVersion_line:
  assumes "\<forall>c \<in> set v. \<not> c < 32"
  shows "readVersion (v @ [13, 10] @ rest) = (if length v + 1 < maxVersionStringBytes then Inr (v, rest) else Inl VersionOverflow)"
proof -
  have "10 \<notin> set (v @ [13])" using assms by force
  from versionLoop_line [OF this, of "[]" rest] show ?thesis by (simp add: readVersion_def)
qed

section \<open>Both ends of a connection\<close>

text \<open>What the primitives are relied on for.\<close>

definition prims_ok :: "'s primitives \<Rightarrow> bool" where
  "prims_ok pr \<longleftrightarrow> stream_cipher (pr_keystream pr) \<and> cbc_ok (pr_encrypt pr) (pr_decrypt pr) \<and>
     (\<forall>key. mac_ok (pr_hmacSHA1 pr key) \<and> Size (pr_hmacSHA1 pr key) = 20) \<and>
     (\<forall>key a. pr_gcm pr key = Some a \<longrightarrow> aead_ok a)"

text \<open>A cipher to write with and one to read with that have the same keys and are at the same place.\<close>

definition same_keys :: "'s packetCipher \<Rightarrow> 's packetCipher \<Rightarrow> bool" where
  "same_keys w r =
     (case (w, r) of
        (StreamPacketCipher a, StreamPacketCipher b) \<Rightarrow> a = b \<and> (case sp_mac a of None \<Rightarrow> True | Some m \<Rightarrow> mac_ok m)
      | (GCMCipher a, GCMCipher b) \<Rightarrow> a = b \<and> aead_ok (gc_aead a) \<and> length (gc_iv a) = 12
      | (CBCCipher a, CBCCipher b) \<Rightarrow> cb_mac a = cb_mac b \<and> cb_encrypter a = cb_decrypter b \<and> mac_ok (cb_mac a)
      | _ \<Rightarrow> False)"

definition in_step :: "'s connectionState \<Rightarrow> 's connectionState \<Rightarrow> bool" where
  "in_step w r \<longleftrightarrow> cs_seqNum w = cs_seqNum r \<and> same_keys (cs_cipher w) (cs_cipher r) \<and>
     rel_option same_keys (cs_pending w) (cs_pending r)"

text \<open>A packet that every cipher carries.\<close>

definition fits :: "bytes \<Rightarrow> bool" where
  "fits packet \<longleftrightarrow> packet \<noteq> [] \<and> length packet + 24 \<le> nat maxPacket"

lemma cipher_step:
  assumes pr: "prims_ok pr" and k: "same_keys w r" and p: "fits packet"
    and wr: "cipher_writePacket pr w n rand packet = Ran (Inr (out, w', rand'))"
  shows "\<exists>r'. cipher_readPacket pr r n (out @ rest) = Ran (Inr (packet, r', rest)) \<and> same_keys w' r'"
proof (cases w)
  case (StreamPacketCipher a)
  then obtain a' where r: "r = StreamPacketCipher a" and m: "\<And>m. sp_mac a = Some m \<Longrightarrow> mac_ok m"
    and wa: "stream_writePacket (pr_keystream pr) a n rand packet = Inr (out, a', rand')" and w': "w' = StreamPacketCipher a'"
    using k wr by (auto simp: same_keys_def cipher_writePacket_def method_of_Inr split: packetCipher.splits option.splits)
  have ks: "stream_cipher (pr_keystream pr)" using pr by (simp add: prims_ok_def)
  have "stream_readPacket (pr_keystream pr) a n (out @ rest) = Inr (packet, a', rest)"
    using stream_cipher.read_write [OF ks wa m, of rest] p streamPadding_bounds(2) [of "length packet"] by (auto simp: fits_def)
  moreover have "sp_mac a' = sp_mac a"
    using wa by (auto simp: stream_writePacket_def Let_def split: if_splits option.splits prod.splits)
  ultimately show ?thesis using StreamPacketCipher r w' m
    by (auto simp: cipher_readPacket_def same_keys_def method_of_def split: option.splits)
next
  case (GCMCipher a)
  then obtain a' where r: "r = GCMCipher a" and a: "aead_ok (gc_aead a)" "length (gc_iv a) = 12"
    and wa: "gcm_writePacket a rand packet = Ran (Inr (out, a', rand'))" and w': "w' = GCMCipher a'"
    using k wr by (auto simp: same_keys_def cipher_writePacket_def and_then_Ran method_of_Inr split: packetCipher.splits option.splits)
  have "gcm_readPacket a (out @ rest) = Ran (Inr (packet, a', rest))"
    using gcm_read_write [OF wa a, of rest] p gcmPadding_bounds(2) [of "length packet"] by (auto simp: fits_def maxPacket_def)
  moreover obtain iv where "incIV (gc_iv a) = Inr iv" "length iv = 12" by (rule incIV_counts [OF a(2)])
  then have "gc_aead a' = gc_aead a \<and> length (gc_iv a') = 12"
    using wa by (auto simp: gcm_writePacket_def Let_def split: option.splits)
  ultimately show ?thesis using GCMCipher r w' a by (auto simp: cipher_readPacket_def same_keys_def method_of_def)
next
  case (CBCCipher a)
  then obtain b a' where r: "r = CBCCipher b" and ab: "cb_mac b = cb_mac a" "cb_decrypter b = cb_encrypter a" "mac_ok (cb_mac a)"
    and wa: "cbc_writePacket (pr_encrypt pr) a n rand packet = Ran (Inr (out, a', rand'))" and w': "w' = CBCCipher a'"
    using k wr by (auto simp: same_keys_def cipher_writePacket_def and_then_Ran method_of_Inr split: packetCipher.splits option.splits)
  have ok: "cbc_ok (pr_encrypt pr) (pr_decrypt pr)" using pr by (simp add: prims_ok_def)
  have "length packet < 2 ^ 31" "\<not> nat maxPacket < (length packet + 24) div 16 * 16 - 4" using p by (auto simp: fits_def maxPacket_def)
  then have "cbc_readPacket (pr_decrypt pr) b n (out @ rest) = Inr (packet, b\<lparr>cb_decrypter := cb_encrypter a'\<rparr>, rest)"
    using cbc_read_write [OF wa ok ab(3) _ ab(1,2), of rest] p by (auto simp: fits_def)
  moreover have "cb_mac a' = cb_mac a"
    using wa by (auto simp: cbc_writePacket_def Let_def split: if_splits option.splits prod.splits)
  ultimately show ?thesis using CBCCipher r w' ab by (auto simp: cipher_readPacket_def same_keys_def method_of_def)
qed

text \<open>What one side writes the other reads, and they stay in step, through changes of the keys.\<close>

lemma side_step:
  assumes pr: "prims_ok pr" and k: "in_step w r" and p: "fits packet"
    and wr: "side_writePacket pr w rand flushed packet = Ran (Inr (out, w', rand'))"
  shows "\<exists>r'. side_readPacket pr r (out @ rest) = Ran (Inr (packet, r', rest)) \<and> in_step w' r'"
proof -
  obtain x where x: "cipher_writePacket pr (cs_cipher w) (cs_seqNum w) rand packet = Ran x"
    using wr by (auto simp: side_writePacket_def Let_def and_then_Ran)
  obtain o' c rand1 where xi: "x = Inr (o', c, rand1)"
  proof (cases x)
    case (Inl e)
    then show ?thesis using wr x by (simp add: side_writePacket_def)
  qed (metis prod_cases3 that)
  note sw = wr [unfolded side_writePacket_def Let_def x xi and_then.simps sum.case prod.case]
  have c: "cipher_writePacket pr (cs_cipher w) (cs_seqNum w) rand packet = Ran (Inr (out, c, rand'))"
    using sw x xi by (auto split: if_splits option.splits)
  have w': "if packet \<noteq> [] \<and> hd packet = msgNewKeys
      then \<exists>ciph. cs_pending w = Some ciph \<and> w' = w\<lparr>cs_cipher := ciph, cs_seqNum := cs_seqNum w + 1, cs_pending := None\<rparr>
      else w' = w\<lparr>cs_cipher := c, cs_seqNum := cs_seqNum w + 1\<rparr>"
    using sw by (auto split: if_splits option.splits)
  obtain r' where r': "cipher_readPacket pr (cs_cipher r) (cs_seqNum r) (out @ rest) = Ran (Inr (packet, r', rest))" "same_keys c r'"
    using cipher_step [OF pr _ p c, of "cs_cipher r" rest] k by (auto simp: in_step_def)
  obtain b bs where b: "packet = b # bs" using p by (cases packet) (auto simp: fits_def)
  show ?thesis
  proof (cases "b = msgNewKeys")
    case False
    then show ?thesis using w' r' k b by (auto simp: side_readPacket_def Let_def in_step_def)
  next
    case True
    then obtain x where x: "cs_pending w = Some x" using w' b by auto
    then obtain y where "cs_pending r = Some y" "same_keys x y" using k by (auto simp: in_step_def option_rel_Some1)
    then show ?thesis using w' r' k b True x by (auto simp: side_readPacket_def Let_def in_step_def)
  qed
qed

text \<open>Any number of packets, one after the other.\<close>

fun side_writeAll :: "'s primitives \<Rightarrow> 's connectionState \<Rightarrow> bytes \<Rightarrow> bytes list \<Rightarrow>
    (transport_error + bytes \<times> 's connectionState \<times> bytes) step" where
  "side_writeAll pr w rand [] = Ran (Inr ([], w, rand))"
| "side_writeAll pr w rand (p # ps) =
     and_then (side_writePacket pr w rand True p) (\<lambda>x.
       case x of
         Inl e \<Rightarrow> Ran (Inl e)
       | Inr (out, w1, rand1) \<Rightarrow>
           and_then (side_writeAll pr w1 rand1 ps) (\<lambda>y.
             Ran (case y of Inl e \<Rightarrow> Inl e | Inr (out', w2, rand2) \<Rightarrow> Inr (out @ out', w2, rand2))))"

fun side_readAll :: "'s primitives \<Rightarrow> 's connectionState \<Rightarrow> bytes \<Rightarrow> nat \<Rightarrow>
    (transport_error + bytes list \<times> 's connectionState \<times> bytes) step" where
  "side_readAll pr r inp 0 = Ran (Inr ([], r, inp))"
| "side_readAll pr r inp (Suc n) =
     and_then (side_readPacket pr r inp) (\<lambda>x.
       case x of
         Inl e \<Rightarrow> Ran (Inl e)
       | Inr (p, r1, inp1) \<Rightarrow>
           and_then (side_readAll pr r1 inp1 n) (\<lambda>y.
             Ran (case y of Inl e \<Rightarrow> Inl e | Inr (ps, r2, inp2) \<Rightarrow> Inr (p # ps, r2, inp2))))"

lemma side_writeAll_Cons:
  assumes "side_writeAll pr w rand (p # ps) = Ran (Inr (out, w', rand'))"
  obtains out1 w1 rand1 out2 where "side_writePacket pr w rand True p = Ran (Inr (out1, w1, rand1))"
    "side_writeAll pr w1 rand1 ps = Ran (Inr (out2, w', rand'))" "out = out1 @ out2"
proof -
  obtain x where x: "side_writePacket pr w rand True p = Ran x" using assms by (auto simp: and_then_Ran)
  obtain out1 w1 rand1 where xi: "x = Inr (out1, w1, rand1)" using assms x by (cases x) auto
  obtain y where y: "side_writeAll pr w1 rand1 ps = Ran y" using assms x xi by (auto simp: and_then_Ran)
  then show ?thesis using that [OF x [unfolded xi]] assms x xi by (cases y) auto
qed

lemma transport_sequence:
  assumes pr: "prims_ok pr"
  shows "in_step w r \<Longrightarrow> \<forall>p \<in> set ps. fits p \<Longrightarrow> side_writeAll pr w rand ps = Ran (Inr (out, w', rand')) \<Longrightarrow>
    \<exists>r'. side_readAll pr r (out @ rest) (length ps) = Ran (Inr (ps, r', rest)) \<and> in_step w' r'"
proof (induction ps arbitrary: w r rand out)
  case (Cons p ps)
  obtain out1 w1 rand1 out2 where 1: "side_writePacket pr w rand True p = Ran (Inr (out1, w1, rand1))"
    and 2: "side_writeAll pr w1 rand1 ps = Ran (Inr (out2, w', rand'))" and out: "out = out1 @ out2"
    by (rule side_writeAll_Cons [OF Cons.prems(3)]) blast
  have p: "fits p" using Cons.prems(2) by simp
  obtain r1 where r1: "side_readPacket pr r (out1 @ out2 @ rest) = Ran (Inr (p, r1, out2 @ rest))" "in_step w1 r1"
    using side_step [OF pr Cons.prems(1) p 1, of "out2 @ rest"] by blast
  obtain r' where "side_readAll pr r1 (out2 @ rest) (length ps) = Ran (Inr (ps, r', rest))" "in_step w' r'"
    using Cons.IH [OF r1(2) _ 2] Cons.prems(2) by auto
  then show ?case using r1 out by auto
qed auto

lemma new_in_step: "in_step (t_writer (newTransport c)) (t_reader (newTransport (\<not> c)))"
  by (simp add: newTransport_def in_step_def same_keys_def Let_def)

text \<open>A cipher that was made works with itself, so both ends have the same cipher if they make it for the same algorithms.\<close>

lemma macModes_ok: "macModes h name = Some m \<Longrightarrow> mac_ok (h key) \<Longrightarrow> Size (h key) = 20 \<Longrightarrow> mac_ok (mm_new m key)"
  by (auto simp: macModes_def mac_ok_truncating split: if_splits)

lemma returns_Ran: "returns x = Ran y \<longleftrightarrow> x = Some y"
  by (cases x) (simp_all add: returns_def)

lemma newPacketCipher_same:
  assumes pr: "prims_ok pr" and c: "newPacketCipher pr d algs kex = Ran (Some c)"
  shows "same_keys c c"
proof -
  obtain iv key macKey where g: "generateKeys pr d algs kex = Ran (iv, key, macKey)"
    using c by (auto simp: newPacketCipher_def and_then_Ran)
  obtain cm mm where m: "modes_of pr (da_Cipher algs) = Some cm" "macModes (pr_hmacSHA1 pr) (da_MAC algs) = Some mm"
    "generateKeyMaterial pr (sm_ivSize cm) (ivTag d) kex = Some iv"
    using g by (auto simp: generateKeys_def and_then_Ran returns_Ran split: option.splits)
  have mac: "mac_ok (mm_new mm macKey)" using pr m(2) by (simp add: prims_ok_def macModes_ok)
  have iv: "length iv = sm_ivSize cm" using m(3) unfolding generateKeyMaterial_def by (rule materialLoop_length)
  note cc = c [unfolded newPacketCipher_def g and_then.simps prod.case m(1,2) option.case]
  show ?thesis
  proof (cases "da_Cipher algs = gcmCipherID")
    case True
    then have "length iv = 12" using iv m(1) by (auto simp: cipherModes_def gcmCipherID_def bytes_of_def)
    then show ?thesis using cc True pr by (auto simp: newGCMCipher_def same_keys_def prims_ok_def)
  next
    case False
    then show ?thesis using cc mac m(2)
      by (auto simp: newAESCBCCipher_def same_keys_def split: if_splits option.splits sum.splits)
  qed
qed

lemma prepareSide_Ran:
  "prepareSide pr s algs kex = Ran (Some s') \<longleftrightarrow>
    (\<exists>c. newPacketCipher pr (cs_dir s) algs kex = Ran (Some c) \<and> cs_pending s = None \<and> s' = s\<lparr>cs_pending := Some c\<rparr>)"
  by (auto simp: prepareSide_def and_then_Ran split: option.splits if_splits)

lemma prepareKeyChange_Ran:
  assumes "prepareKeyChange pr t algs kex = Ran (None, t', kex')"
  shows "\<exists>rd wr. kr_SessionID kex' = (case t_sessionID t of None \<Rightarrow> kr_H kex | Some i \<Rightarrow> i) \<and>
    kex' = kex\<lparr>kr_SessionID := kr_SessionID kex'\<rparr> \<and>
    prepareSide pr (t_reader t) (al_r algs) kex' = Ran (Some rd) \<and> prepareSide pr (t_writer t) (al_w algs) kex' = Ran (Some wr) \<and>
    t' = \<lparr>t_reader = rd, t_writer = wr, t_sessionID = Some (kr_SessionID kex')\<rparr>"
proof -
  let ?sid = "case t_sessionID t of None \<Rightarrow> kr_H kex | Some i \<Rightarrow> i"
  let ?kex = "kex\<lparr>kr_SessionID := ?sid\<rparr>"
  obtain x where x: "prepareSide pr (t_reader t) (al_r algs) ?kex = Ran x"
    using assms by (auto simp: prepareKeyChange_def Let_def and_then_Ran)
  then obtain rd where rd: "x = Some rd" using assms by (cases x) (auto simp: prepareKeyChange_def Let_def)
  obtain y where y: "prepareSide pr (t_writer t) (al_w algs) ?kex = Ran y"
    using assms x rd by (auto simp: prepareKeyChange_def Let_def and_then_Ran)
  then obtain wr where wr: "y = Some wr" using assms x rd by (cases y) (auto simp: prepareKeyChange_def Let_def)
  have "kex' = ?kex" "t' = \<lparr>t_reader = rd, t_writer = wr, t_sessionID = Some ?sid\<rparr>"
    using assms x rd y wr by (auto simp: prepareKeyChange_def Let_def)
  then show ?thesis using x rd y wr by auto
qed

lemma prepared_in_step:
  assumes pr: "prims_ok pr" and k: "in_step (t_writer c) (t_reader s)" and d: "cs_dir (t_writer c) = cs_dir (t_reader s)"
    and i: "t_sessionID c = t_sessionID s" and a: "al_w algs = al_r algs'"
    and pc: "prepareKeyChange pr c algs kex = Ran (None, c', kc)" and ps: "prepareKeyChange pr s algs' kex = Ran (None, s', ks)"
  shows "in_step (t_writer c') (t_reader s') \<and> kc = ks \<and> t_sessionID c' = t_sessionID s'"
proof -
  from prepareKeyChange_Ran [OF pc] obtain wr where 1:
    "kr_SessionID kc = (case t_sessionID c of None \<Rightarrow> kr_H kex | Some i \<Rightarrow> i)" "kc = kex\<lparr>kr_SessionID := kr_SessionID kc\<rparr>"
    "prepareSide pr (t_writer c) (al_w algs) kc = Ran (Some wr)" "t_writer c' = wr" "t_sessionID c' = Some (kr_SessionID kc)" by auto
  from prepareKeyChange_Ran [OF ps] obtain rd where 2:
    "kr_SessionID ks = (case t_sessionID s of None \<Rightarrow> kr_H kex | Some i \<Rightarrow> i)" "ks = kex\<lparr>kr_SessionID := kr_SessionID ks\<rparr>"
    "prepareSide pr (t_reader s) (al_r algs') ks = Ran (Some rd)" "t_reader s' = rd" "t_sessionID s' = Some (kr_SessionID ks)" by auto
  have e: "kc = ks" using 1(1,2) 2(1,2) i by metis
  obtain x where x: "newPacketCipher pr (cs_dir (t_writer c)) (al_w algs) kc = Ran (Some x)" "wr = t_writer c\<lparr>cs_pending := Some x\<rparr>"
    using 1(3) by (auto simp: prepareSide_Ran)
  have "rd = t_reader s\<lparr>cs_pending := Some x\<rparr>" using 2(3) x(1) d a e by (auto simp: prepareSide_Ran)
  then have "in_step wr rd" using newPacketCipher_same [OF pr x(1)] k x(2) by (simp add: in_step_def)
  then show ?thesis using 1(4,5) 2(4,5) e by simp
qed

lemma prepared_both:
  assumes pr: "prims_ok pr" and a: "al_w algs = al_r algs"
    and step: "in_step (t_writer c) (t_reader s)" "in_step (t_writer s) (t_reader c)"
    and dirs: "cs_dir (t_writer c) = cs_dir (t_reader s)" "cs_dir (t_writer s) = cs_dir (t_reader c)"
    and i: "t_sessionID c = t_sessionID s"
    and p: "prepareKeyChange pr c algs kex = Ran (None, c', kc)" "prepareKeyChange pr s algs kex = Ran (None, s', ks)"
  shows "in_step (t_writer c') (t_reader s') \<and> in_step (t_writer s') (t_reader c') \<and> kc = ks \<and> t_sessionID c' = t_sessionID s'"
  using prepared_in_step [OF pr step(1) dirs(1) i a p] prepared_in_step [OF pr step(2) dirs(2) i [symmetric] a p(2,1)] by simp

lemma new_keys_agree:
  assumes "prims_ok pr" "al_w algs = al_r algs" "prepareKeyChange pr (newTransport True) algs kex = Ran (None, c', kc)"
    and "prepareKeyChange pr (newTransport False) algs kex = Ran (None, s', ks)"
  shows "in_step (t_writer c') (t_reader s') \<and> in_step (t_writer s') (t_reader c')"
proof -
  have "in_step (t_writer (newTransport True)) (t_reader (newTransport False))"
    "in_step (t_writer (newTransport False)) (t_reader (newTransport True))"
    using new_in_step [of True] new_in_step [of False] by simp_all
  from prepared_both [OF assms(1,2) this _ _ _ assms(3,4)] show ?thesis by (simp add: newTransport_def Let_def)
qed

section \<open>Concrete ends\<close>

text \<open>Primitives that encrypt nothing, with constant codes and digests.\<close>

definition small_prims :: "unit primitives" where
  "small_prims = \<lparr>pr_keystream = (\<lambda>s a. (a, s)), pr_ctr = (\<lambda>k iv. Some ()), pr_rc4 = (\<lambda>k. Some ()), pr_cbc = (\<lambda>k iv. Some ()),
     pr_encrypt = (\<lambda>s a. (a, s)), pr_decrypt = (\<lambda>s a. (a, s)), pr_gcm = (\<lambda>k. Some small_aead),
     pr_hmacSHA1 = (\<lambda>k. \<lparr>Sum = (\<lambda>d. replicate 20 0), Size = 20\<rparr>), pr_digest = (\<lambda>h d. replicate 20 0)\<rparr>"

lemma small_prims_ok: "prims_ok small_prims"
proof -
  have "stream_cipher (\<lambda>(s :: unit) a. (a, s))" by unfold_locales auto
  then show ?thesis
    by (simp add: prims_ok_def small_prims_def cbc_ok_def mac_ok_def aead_ok_def small_aead_def)
qed

definition small_kexInit :: "bytes \<Rightarrow> bytes \<Rightarrow> fval list" where
  "small_kexInit ctos stoc =
     [VBytes (replicate 16 0), VNames supportedKexAlgos, VNames [bytes_of ''ssh-rsa''], VNames [ctos], VNames [stoc],
      VNames supportedMACs, VNames supportedMACs, VNames supportedCompressions, VNames supportedCompressions, VNames [], VNames [],
      VBool False, VU32 0]"

definition small_kexResult :: kexResult where
  "small_kexResult = \<lparr>kr_H = [1], kr_K = [2], kr_HostKey = [], kr_Signature = [], kr_Hash = SHA1, kr_SessionID = []\<rparr>"

text \<open>A key change of new transports, and what the server reads of a packet that follows it.\<close>

definition small_exchange :: "bytes \<Rightarrow> bytes \<Rightarrow> (transport_error + bytes list) option" where
  "small_exchange ctos stoc =
     (case findAgreedAlgorithms (modes_of small_prims) (small_kexInit ctos stoc) (small_kexInit ctos stoc) of
        None \<Rightarrow> None
      | Some algs \<Rightarrow>
          (case (prepareKeyChange small_prims (newTransport True) algs small_kexResult,
              prepareKeyChange small_prims (newTransport False) algs small_kexResult) of
             (Ran (None, c, _), Ran (None, s, _)) \<Rightarrow>
               (case side_writeAll small_prims (t_writer c) (replicate 60 0) [[21], [5, 1, 2]] of
                  Ran (Inr (out, _, _)) \<Rightarrow>
                    (case side_readAll small_prims (t_reader s) out 2 of
                       Ran (Inl e) \<Rightarrow> Some (Inl e)
                     | Ran (Inr (ps, _, _)) \<Rightarrow> Some (Inr ps)
                     | _ \<Rightarrow> None)
                | _ \<Rightarrow> None)
           | _ \<Rightarrow> None))"

lemma small_exchange_same: "small_exchange (bytes_of ''aes128-ctr'') (bytes_of ''aes128-ctr'') = Some (Inr [[21], [5, 1, 2]])"
  by code_simp

lemma small_exchange_swapped: "small_exchange (bytes_of ''aes128-ctr'') gcmCipherID = Some (Inl (CipherError NotAuthentic))"
  by code_simp

section \<open>Properties\<close>


text \<open>A key change with the same result leaves both ends in step, in both directions, and with the same session
  identifier, if the agreed algorithms of the two directions are the same.\<close>

theorem key_change_agrees:
  assumes pr: "prims_ok pr" and a: "al_w algs = al_r algs"
    and step: "in_step (t_writer c) (t_reader s)" "in_step (t_writer s) (t_reader c)"
    and dirs: "cs_dir (t_writer c) = cs_dir (t_reader s)" "cs_dir (t_writer s) = cs_dir (t_reader c)"
    and i: "t_sessionID c = t_sessionID s"
    and "prepareKeyChange pr c algs kex = Ran (None, c', kc)" "prepareKeyChange pr s algs kex = Ran (None, s', ks)"
  shows "in_step (t_writer c') (t_reader s') \<and> in_step (t_writer s') (t_reader c') \<and> kc = ks \<and> t_sessionID c' = t_sessionID s'"
  by (rule prepared_both [OF assms])

text \<open>The key material is that of RFC 4253, 7.2: the first bytes of K1, K2, and so on. The loop ends for every
  hash whose digests are not empty.\<close>

theorem generateKeyMaterial_rfc:
  assumes "\<And>x. pr_digest pr (kr_Hash r) x \<noteq> []"
  shows "generateKeyMaterial pr n tag r = Some (take n (rfc_keys (pr_digest pr (kr_Hash r)) tag r n))"
  using materialLoop_rfc [of "pr_digest pr (kr_Hash r)" tag r n 0] assms by (simp add: generateKeyMaterial_def)

text \<open>Witnesses.\<close>

lemma small_sequence:
  "(case side_writeAll small_prims (t_writer (newTransport True)) (replicate 60 0) [[5, 1, 2], [6]] of
      Ran (Inr x) \<Rightarrow> True | _ \<Rightarrow> False)"
  by code_simp


definition small_algs :: algorithms where
  "small_algs = (let d = \<lparr>da_Cipher = bytes_of ''aes128-ctr'', da_MAC = bytes_of ''hmac-sha1'', da_Compression = compressionNone\<rparr>
     in \<lparr>al_kex = [], al_hostKey = [], al_w = d, al_r = d\<rparr>)"

lemma small_prepared:
  "(case prepareKeyChange small_prims (newTransport b) small_algs small_kexResult of Ran (None, x) \<Rightarrow> True | _ \<Rightarrow> False)"
  by (cases b; simp only:; code_simp)

theorem key_change_agrees_witness:
  "\<exists>c s kc ks. prepareKeyChange small_prims (newTransport True) small_algs small_kexResult = Ran (None, c, kc) \<and>
    prepareKeyChange small_prims (newTransport False) small_algs small_kexResult = Ran (None, s, ks) \<and>
    in_step (t_writer c) (t_reader s) \<and> cs_pending (t_writer c) \<noteq> None"
proof -
  obtain c kc where c: "prepareKeyChange small_prims (newTransport True) small_algs small_kexResult = Ran (None, c, kc)"
    using small_prepared [of True] by (auto split: step.splits prod.splits option.splits)
  obtain s ks where s: "prepareKeyChange small_prims (newTransport False) small_algs small_kexResult = Ran (None, s, ks)"
    using small_prepared [of False] by (auto split: step.splits prod.splits option.splits)
  have "cs_pending (t_writer c) \<noteq> None" using prepareKeyChange_Ran [OF c] by (auto simp: prepareSide_Ran)
  moreover have a: "al_w small_algs = al_r small_algs" by (simp add: small_algs_def Let_def)
  have n: "in_step (t_writer (newTransport True :: unit transport)) (t_reader (newTransport False))"
    "in_step (t_writer (newTransport False :: unit transport)) (t_reader (newTransport True))"
    using new_in_step [of True] new_in_step [of False] by simp_all
  have "in_step (t_writer c) (t_reader s)"
    using key_change_agrees [OF small_prims_ok a n _ _ _ c s] by (simp add: newTransport_def Let_def)
  ultimately show ?thesis using c s by blast
qed

theorem generateKeyMaterial_rfc_witness:
  "generateKeyMaterial small_prims 30 [65] small_kexResult = Some (replicate 30 0)"
proof -
  have "\<And>x. pr_digest small_prims (kr_Hash small_kexResult) x \<noteq> []" by (simp add: small_prims_def)
  from generateKeyMaterial_rfc [OF this, of 30 "[65]"] show ?thesis
    by (simp add: small_prims_def eval_nat_numeral del: append_eq_conv_conj)
qed

end
