(* ===== verification/Ssh_Kex.thy ===== *)
theory Ssh_Kex
  imports Ssh_Transport Ssh_Keys
begin

text \<open>
  Key exchange: \<^verbatim>\<open>kex.go\<close> of the vendored package \<^verbatim>\<open>golang.org/x/crypto/ssh\<close>, and the
  check of the host key's signature of \<^verbatim>\<open>client.go\<close>.

  A function that talks to the peer through a \<open>packetConn\<close> is a program: a tree of the packets it
  writes, with a branch for each outcome, and of the packets it reads, with what follows each of them.
  Elliptic curves are parameters, big integers are integers.
\<close>

section \<open>Programs over a packet connection\<close>

datatype 'a prog =
    Return 'a
  | WritePacket bytes "bool \<Rightarrow> 'a prog"
      \<comment> \<open>whether it was written\<close>
  | ReadPacket "(string + bytes) \<Rightarrow> 'a prog"
  | PrepareKeyChange algorithms kexResult "'a prog"
  | Crashed panic

primrec bind_prog :: "'a prog \<Rightarrow> ('a \<Rightarrow> 'b prog) \<Rightarrow> 'b prog" where
  "bind_prog (Return x) f = f x"
| "bind_prog (WritePacket p k) f = WritePacket p (\<lambda>ok. bind_prog (k ok) f)"
| "bind_prog (ReadPacket k) f = ReadPacket (\<lambda>r. bind_prog (k r) f)"
| "bind_prog (PrepareKeyChange a r k) f = PrepareKeyChange a r (bind_prog k f)"
| "bind_prog (Crashed e) f = Crashed e"

text \<open>A connection: what arrives, what was written, how many writes still succeed, and the key changes prepared.\<close>

record packet_io =
  io_in :: "(string + bytes) list"
  io_out :: "bytes list"
  io_writes :: nat
  io_prepared :: "(algorithms \<times> kexResult) list"

primrec run_prog :: "'a prog \<Rightarrow> packet_io \<Rightarrow> ('a \<times> packet_io) step" where
  "run_prog (Return x) c = Ran (x, c)"
| "run_prog (WritePacket p k) c =
     (if io_writes c = 0 then run_prog (k False) c
      else run_prog (k True) (c\<lparr>io_out := io_out c @ [p], io_writes := io_writes c - 1\<rparr>))"
| "run_prog (ReadPacket k) c =
     (case io_in c of [] \<Rightarrow> Blocks | r # rs \<Rightarrow> run_prog (k r) (c\<lparr>io_in := rs\<rparr>))"
| "run_prog (PrepareKeyChange a r k) c = run_prog k (c\<lparr>io_prepared := io_prepared c @ [(a, r)]\<rparr>)"
| "run_prog (Crashed e) c = Panicked e"

lemma run_prog_bind: "run_prog (bind_prog m f) c = and_then (run_prog m c) (\<lambda>(x, c'). run_prog (f x) c')"
  by (induction m arbitrary: c) (auto split: list.split)

datatype kex_error =
    ReadFailed string
  | WriteFailed
  | KexWire wire_error
  | NoRandomness
  | ParameterOutOfBounds
  | SigningFailed
  | ECUnmarshalFailure
  | NotOnCurve
  | SignatureParseError
  | HostKeyNotVerified verify_error
  | HostKeyRefused string
  | NoCommonAlgorithms
  | UnexpectedKex bytes

text \<open>A value that may have panicked, and \<open>Unmarshal\<close> of a packet that is read.\<close>

definition computed :: "panic + 'a \<Rightarrow> ('a \<Rightarrow> 'b prog) \<Rightarrow> 'b prog" where
  "computed x f = (case x of Inl e \<Rightarrow> Crashed e | Inr y \<Rightarrow> f y)"

definition readMessage :: "struct_type \<Rightarrow> (fval list \<Rightarrow> (kex_error + 'a) prog) \<Rightarrow> (kex_error + 'a) prog" where
  "readMessage t f =
     ReadPacket (\<lambda>r.
       case r of
         Inl e \<Rightarrow> Return (Inl (ReadFailed e))
       | Inr packet \<Rightarrow>
           (case Unmarshal packet t of
              Crash e \<Rightarrow> Crashed e
            | Malformed e \<Rightarrow> Return (Inl (KexWire e))
            | Parsed vs \<Rightarrow> f vs))"

section \<open>The session hash\<close>

record handshakeMagics =
  hm_clientVersion :: bytes
  hm_serverVersion :: bytes
  hm_clientKexInit :: bytes
  hm_serverKexInit :: bytes

text \<open>What \<open>write\<close> writes.\<close>

definition magicsBytes :: "handshakeMagics \<Rightarrow> bytes" where
  "magicsBytes m =
     writeString (hm_clientVersion m) @ writeString (hm_serverVersion m) @
     writeString (hm_clientKexInit m) @ writeString (hm_serverKexInit m)"

section \<open>Signers\<close>

record signer =
  sg_PublicKey :: public_key
  sg_Sign :: "bytes \<Rightarrow> signature option"

definition signAndMarshal :: "signer \<Rightarrow> bytes \<Rightarrow> (bytes \<Rightarrow> (kex_error + 'a) prog) \<Rightarrow> (kex_error + 'a) prog" where
  "signAndMarshal k body f =
     (case sg_Sign k body of
        None \<Rightarrow> Return (Inl SigningFailed)
      | Some sig \<Rightarrow> computed (marshalSignature sig) f)"

text \<open>The key of a nil \<open>Signer\<close>.\<close>

definition hostKeyOf :: "crypto \<Rightarrow> signer option \<Rightarrow> panic + signer \<times> bytes" where
  "hostKeyOf cr priv =
     (case priv of None \<Rightarrow> Inl NilDereference | Some s \<Rightarrow> map_sum id (\<lambda>b. (s, b)) (MarshalKey cr (sg_PublicKey s)))"

section \<open>Diffie-Hellman over a group of integers\<close>

record dhGroup =
  dh_g :: int
  dh_p :: int

text \<open>\<open>big.Int.Exp\<close> with a modulus.\<close>

definition Exp :: "int \<Rightarrow> int \<Rightarrow> int \<Rightarrow> int" where
  "Exp x y m = (x ^ nat y) mod m"

definition diffieHellman :: "dhGroup \<Rightarrow> int \<Rightarrow> int \<Rightarrow> int option" where
  "diffieHellman grp theirPublic myPrivate =
     (if theirPublic \<le> 0 \<or> theirPublic \<ge> dh_p grp then None else Some (Exp theirPublic myPrivate (dh_p grp)))"

text \<open>The end of both sides: the hash of the magics, the host key, both public values and the secret.\<close>

definition dh_result :: "'s primitives \<Rightarrow> handshakeMagics \<Rightarrow> bytes \<Rightarrow> int \<Rightarrow> int \<Rightarrow> int \<Rightarrow> (bytes \<Rightarrow> bytes \<Rightarrow> (kex_error + 'a) prog) \<Rightarrow>
    (kex_error + 'a) prog" where
  "dh_result pr magics hostKey X Y kInt f =
     computed (writeInt X) (\<lambda>xb. computed (writeInt Y) (\<lambda>yb. computed (writeInt kInt) (\<lambda>K.
       f K (pr_digest pr SHA1 (magicsBytes magics @ writeString hostKey @ xb @ yb @ K)))))"

text \<open>\<open>rnd\<close> is the result of \<open>rand.Int\<close>, \<^const>\<open>None\<close> its error.\<close>

definition dh_Client :: "dhGroup \<Rightarrow> 's primitives \<Rightarrow> int option \<Rightarrow> handshakeMagics \<Rightarrow> (kex_error + kexResult) prog" where
  "dh_Client grp pr rnd magics =
     (case rnd of
        None \<Rightarrow> Return (Inl NoRandomness)
      | Some x \<Rightarrow>
          let X = Exp (dh_g grp) x (dh_p grp) in
          computed (Marshal kexDHInitMsg [VInt X]) (\<lambda>kexDHInit.
            WritePacket kexDHInit (\<lambda>ok.
              if \<not> ok then Return (Inl WriteFailed)
              else
                readMessage kexDHReplyMsg (\<lambda>reply.
                  let Y = int_at reply 1 in
                  (case diffieHellman grp Y x of
                     None \<Rightarrow> Return (Inl ParameterOutOfBounds)
                   | Some kInt \<Rightarrow>
                       dh_result pr magics (bytes_at reply 0) X Y kInt (\<lambda>K H.
                         Return (Inr \<lparr>kr_H = H, kr_K = K, kr_HostKey = bytes_at reply 0, kr_Signature = bytes_at reply 2,
                           kr_Hash = SHA1, kr_SessionID = []\<rparr>)))))))"

text \<open>The error of writing the reply is assigned, but not returned.\<close>

definition dh_Server :: "dhGroup \<Rightarrow> 's primitives \<Rightarrow> int option \<Rightarrow> handshakeMagics \<Rightarrow> crypto \<Rightarrow> signer option \<Rightarrow>
    (kex_error + kexResult) prog" where
  "dh_Server grp pr rnd magics cr priv =
     readMessage kexDHInitMsg (\<lambda>kexDHInit.
       case rnd of
         None \<Rightarrow> Return (Inl NoRandomness)
       | Some y \<Rightarrow>
           let X = int_at kexDHInit 0; Y = Exp (dh_g grp) y (dh_p grp) in
           (case diffieHellman grp X y of
              None \<Rightarrow> Return (Inl ParameterOutOfBounds)
            | Some kInt \<Rightarrow>
                computed (hostKeyOf cr priv) (\<lambda>(signer, hostKeyBytes).
                  dh_result pr magics hostKeyBytes X Y kInt (\<lambda>K H.
                    signAndMarshal signer H (\<lambda>sig.
                      computed (Marshal kexDHReplyMsg [VBytes hostKeyBytes, VInt Y, VBytes sig]) (\<lambda>reply.
                        WritePacket reply (\<lambda>ok.
                          Return (Inr \<lparr>kr_H = H, kr_K = K, kr_HostKey = hostKeyBytes, kr_Signature = sig,
                            kr_Hash = SHA1, kr_SessionID = []\<rparr>))))))))"

section \<open>Diffie-Hellman over an elliptic curve\<close>

text \<open>\<open>ec_ScalarMult\<close> gives the first coordinate of the product.\<close>

record ecdh =
  ec_BitSize :: nat
  ec_P :: int
  ec_Marshal :: "int \<Rightarrow> int \<Rightarrow> bytes"
  ec_Unmarshal :: "bytes \<Rightarrow> (int \<times> int) option"
  ec_IsOnCurve :: "int \<Rightarrow> int \<Rightarrow> bool"
  ec_ScalarMult :: "int \<Rightarrow> int \<Rightarrow> bytes \<Rightarrow> int"

definition ecHash :: "nat \<Rightarrow> hash" where
  "ecHash bitSize = (if bitSize \<le> 256 then SHA256 else if bitSize \<le> 384 then SHA384 else SHA512)"

definition validateECPublicKey :: "ecdh \<Rightarrow> int \<Rightarrow> int \<Rightarrow> bool" where
  "validateECPublicKey curve x y =
     (if x = 0 \<and> y = 0 then False
      else if x \<ge> ec_P curve then False
      else if y \<ge> ec_P curve then False
      else if \<not> ec_IsOnCurve curve x y then False
      else True)"

definition unmarshalECKey :: "ecdh \<Rightarrow> bytes \<Rightarrow> kex_error + int \<times> int" where
  "unmarshalECKey curve pubkey =
     (case ec_Unmarshal curve pubkey of
        None \<Rightarrow> Inl ECUnmarshalFailure
      | Some (x, y) \<Rightarrow> if \<not> validateECPublicKey curve x y then Inl NotOnCurve else Inr (x, y))"

definition ecdh_result :: "ecdh \<Rightarrow> 's primitives \<Rightarrow> handshakeMagics \<Rightarrow> bytes \<Rightarrow> bytes \<Rightarrow> bytes \<Rightarrow> int \<Rightarrow>
    (bytes \<Rightarrow> bytes \<Rightarrow> (kex_error + 'a) prog) \<Rightarrow> (kex_error + 'a) prog" where
  "ecdh_result curve pr magics hostKey clientPub serverPub secret f =
     computed (writeInt secret) (\<lambda>K.
       f K (pr_digest pr (ecHash (ec_BitSize curve))
         (magicsBytes magics @ writeString hostKey @ writeString clientPub @ writeString serverPub @ K)))"

text \<open>\<open>ephKey\<close> is the result of \<open>ecdsa.GenerateKey\<close>: the private bytes and the public point.\<close>

definition ecdh_Client :: "ecdh \<Rightarrow> 's primitives \<Rightarrow> (bytes \<times> int \<times> int) option \<Rightarrow> handshakeMagics \<Rightarrow>
    (kex_error + kexResult) prog" where
  "ecdh_Client curve pr ephKey magics =
     (case ephKey of
        None \<Rightarrow> Return (Inl NoRandomness)
      | Some (D, X, Y) \<Rightarrow>
          let clientPubKey = ec_Marshal curve X Y in
          computed (Marshal kexECDHInitMsg [VBytes clientPubKey]) (\<lambda>serialized.
            WritePacket serialized (\<lambda>ok.
              if \<not> ok then Return (Inl WriteFailed)
              else
                readMessage kexECDHReplyMsg (\<lambda>reply.
                  (case unmarshalECKey curve (bytes_at reply 1) of
                     Inl e \<Rightarrow> Return (Inl e)
                   | Inr (x, y) \<Rightarrow>
                       ecdh_result curve pr magics (bytes_at reply 0) clientPubKey (bytes_at reply 1)
                         (ec_ScalarMult curve x y D) (\<lambda>K H.
                           Return (Inr \<lparr>kr_H = H, kr_K = K, kr_HostKey = bytes_at reply 0, kr_Signature = bytes_at reply 2,
                             kr_Hash = ecHash (ec_BitSize curve), kr_SessionID = []\<rparr>)))))))"

definition ecdh_Server :: "ecdh \<Rightarrow> 's primitives \<Rightarrow> (bytes \<times> int \<times> int) option \<Rightarrow> handshakeMagics \<Rightarrow> crypto \<Rightarrow> signer option \<Rightarrow>
    (kex_error + kexResult) prog" where
  "ecdh_Server curve pr ephKey magics cr priv =
     readMessage kexECDHInitMsg (\<lambda>kexECDHInit.
       case unmarshalECKey curve (bytes_at kexECDHInit 0) of
         Inl e \<Rightarrow> Return (Inl e)
       | Inr (clientX, clientY) \<Rightarrow>
           (case ephKey of
              None \<Rightarrow> Return (Inl NoRandomness)
            | Some (D, X, Y) \<Rightarrow>
                computed (hostKeyOf cr priv) (\<lambda>(signer, hostKeyBytes).
                  let serializedEphKey = ec_Marshal curve X Y in
                  ecdh_result curve pr magics hostKeyBytes (bytes_at kexECDHInit 0) serializedEphKey
                    (ec_ScalarMult curve clientX clientY D) (\<lambda>K H.
                      signAndMarshal signer H (\<lambda>sig.
                        computed (Marshal kexECDHReplyMsg [VBytes hostKeyBytes, VBytes serializedEphKey, VBytes sig]) (\<lambda>serialized.
                          WritePacket serialized (\<lambda>ok.
                            Return (if \<not> ok then Inl WriteFailed
                              else Inr \<lparr>kr_H = H, kr_K = K, kr_HostKey = hostKeyBytes, kr_Signature = sig,
                                kr_Hash = ecHash (ec_BitSize curve), kr_SessionID = []\<rparr>))))))))"

section \<open>The algorithms of the package\<close>

datatype kexAlgorithm = DH dhGroup | ECDH ecdh

definition group1_p :: int where
  "group1_p = 0xFFFFFFFFFFFFFFFFC90FDAA22168C234C4C6628B80DC1CD129024E088A67CC74020BBEA63B139B22514A08798E3404DDEF9519B3CD3A431B302B0A6DF25F14374FE1356D6D51C245E485B576625E7EC6F44C42E9A637ED6B0BFF5CB6F406B7EDEE386BFB5A899FA5AE9F24117C4B1FE649286651ECE65381FFFFFFFFFFFFFFFF"

definition group14_p :: int where
  "group14_p = 0xFFFFFFFFFFFFFFFFC90FDAA22168C234C4C6628B80DC1CD129024E088A67CC74020BBEA63B139B22514A08798E3404DDEF9519B3CD3A431B302B0A6DF25F14374FE1356D6D51C245E485B576625E7EC6F44C42E9A637ED6B0BFF5CB6F406B7EDEE386BFB5A899FA5AE9F24117C4B1FE649286651ECE45B3DC2007CB8A163BF0598DA48361C55D39A69163FA8FD24CF5F83655D23DCA3AD961C62F356208552BB9ED529077096966D670C354E4ABC9804F1746C08CA18217C32905E462E36CE3BE39E772C180E86039B2783A2EC07A28FB5C55DF06F4C52C9DE2BCBF6955817183995497CEA956AE515D2261898FA051015728E5A8AACAA68FFFFFFFFFFFFFFFF"

definition kexAlgoMap :: "(curve \<Rightarrow> ecdh) \<Rightarrow> bytes \<Rightarrow> kexAlgorithm option" where
  "kexAlgoMap curves name =
     (if name = kexAlgoDH1SHA1 then Some (DH \<lparr>dh_g = 2, dh_p = group1_p\<rparr>)
      else if name = kexAlgoDH14SHA1 then Some (DH \<lparr>dh_g = 2, dh_p = group14_p\<rparr>)
      else if name = kexAlgoECDH521 then Some (ECDH (curves P521))
      else if name = kexAlgoECDH384 then Some (ECDH (curves P384))
      else if name = kexAlgoECDH256 then Some (ECDH (curves P256))
      else None)"

text \<open>What an exchange draws from the source of randomness.\<close>

record kex_random =
  rnd_Int :: "int \<Rightarrow> int option"
  rnd_Key :: "ecdh \<Rightarrow> (bytes \<times> int \<times> int) option"

definition kex_Client :: "kexAlgorithm \<Rightarrow> 's primitives \<Rightarrow> kex_random \<Rightarrow> handshakeMagics \<Rightarrow> (kex_error + kexResult) prog" where
  "kex_Client kex pr rnd magics =
     (case kex of
        DH grp \<Rightarrow> dh_Client grp pr (rnd_Int rnd (dh_p grp)) magics
      | ECDH curve \<Rightarrow> ecdh_Client curve pr (rnd_Key rnd curve) magics)"

definition kex_Server :: "kexAlgorithm \<Rightarrow> 's primitives \<Rightarrow> kex_random \<Rightarrow> handshakeMagics \<Rightarrow> crypto \<Rightarrow> signer option \<Rightarrow>
    (kex_error + kexResult) prog" where
  "kex_Server kex pr rnd magics cr priv =
     (case kex of
        DH grp \<Rightarrow> dh_Server grp pr (rnd_Int rnd (dh_p grp)) magics cr priv
      | ECDH curve \<Rightarrow> ecdh_Server curve pr (rnd_Key rnd curve) magics cr priv)"

section \<open>The two sides of an exchange\<close>

text \<open>\<open>verifyHostKeySignature\<close> of \<^verbatim>\<open>client.go\<close>.\<close>

definition verifyHostKeySignature :: "crypto \<Rightarrow> public_key \<Rightarrow> kexResult \<Rightarrow> panic + kex_error option" where
  "verifyHostKeySignature cr hostKey result =
     (case parseSignatureBody (kr_Signature result) of
        Inl e \<Rightarrow> Inl e
      | Inr None \<Rightarrow> Inr (Some SignatureParseError)
      | Inr (Some (sig, rest)) \<Rightarrow>
          if rest \<noteq> [] then Inr (Some SignatureParseError)
          else map_sum id (map_option HostKeyNotVerified) (VerifyKey cr hostKey (kr_H result) sig))"

text \<open>
  \<open>server\<close> and \<open>client\<close> of \<^verbatim>\<open>handshake.go\<close>. The loop over the host keys goes on after a key of the
  algorithm. The callback has its first two arguments.
\<close>

fun pickHostKey :: "bytes \<Rightarrow> signer option \<Rightarrow> signer list \<Rightarrow> panic + signer option" where
  "pickHostKey algo hostKey [] = Inr hostKey"
| "pickHostKey algo hostKey (k # ks) =
     bind_sum (KeyType (sg_PublicKey k)) (\<lambda>t. pickHostKey algo (if algo = t then Some k else hostKey) ks)"

definition server :: "'s primitives \<Rightarrow> kex_random \<Rightarrow> crypto \<Rightarrow> signer list \<Rightarrow> kexAlgorithm \<Rightarrow> algorithms \<Rightarrow> handshakeMagics \<Rightarrow>
    (kex_error + kexResult) prog" where
  "server pr rnd cr hostKeys kex algs magics =
     computed (pickHostKey (al_hostKey algs) None hostKeys) (kex_Server kex pr rnd magics cr)"

definition checkHostKey :: "crypto \<Rightarrow> (public_key \<Rightarrow> string option) option \<Rightarrow> kex_error + kexResult \<Rightarrow>
    (kex_error + kexResult) prog" where
  "checkHostKey cr hostKeyCallback r =
     (case r of
        Inl e \<Rightarrow> Return (Inl e)
      | Inr result \<Rightarrow>
          (case ParsePublicKey cr (kr_HostKey result) of
             Crash e \<Rightarrow> Crashed e
           | Malformed e \<Rightarrow> Return (Inl (KexWire e))
           | Parsed hostKey \<Rightarrow>
               computed (verifyHostKeySignature cr hostKey result) (\<lambda>v.
                 case v of
                   Some e \<Rightarrow> Return (Inl e)
                 | None \<Rightarrow>
                     (case hostKeyCallback of
                        None \<Rightarrow> Return (Inr result)
                      | Some cb \<Rightarrow>
                          (case cb hostKey of
                             Some e \<Rightarrow> Return (Inl (HostKeyRefused e))
                           | None \<Rightarrow> Return (Inr result))))))"

definition client :: "'s primitives \<Rightarrow> kex_random \<Rightarrow> crypto \<Rightarrow> (public_key \<Rightarrow> string option) option \<Rightarrow> kexAlgorithm \<Rightarrow>
    handshakeMagics \<Rightarrow> (kex_error + kexResult) prog" where
  "client pr rnd cr hostKeyCallback kex magics =
     bind_prog (kex_Client kex pr rnd magics) (checkHostKey cr hostKeyCallback)"

section \<open>Two programs that talk to each other\<close>

text \<open>
  The first goes on until it waits or has returned, then the second takes a step. \<open>fuel\<close> bounds the steps;
  the packets that are under way come last. What each of them returns, and the key changes it prepared.
\<close>

fun talk :: "nat \<Rightarrow> 'a prog \<Rightarrow> 'b prog \<Rightarrow> bytes list \<Rightarrow> bytes list \<Rightarrow>
    (('a \<times> (algorithms \<times> kexResult) list) \<times> ('b \<times> (algorithms \<times> kexResult) list)) option" where
  "talk 0 a b toA toB = None"
| "talk (Suc fuel) a b toA toB =
     (let turn =
        (case b of
           WritePacket p k \<Rightarrow> talk fuel a (k True) (toA @ [p]) toB
         | PrepareKeyChange al r k \<Rightarrow> map_option (\<lambda>(x, (y, ps)). (x, (y, (al, r) # ps))) (talk fuel a k toA toB)
         | ReadPacket k \<Rightarrow> (case toB of [] \<Rightarrow> None | p # ps \<Rightarrow> talk fuel a (k (Inr p)) toA ps)
         | _ \<Rightarrow> None)
      in
      case a of
        WritePacket p k \<Rightarrow> talk fuel (k True) b toA (toB @ [p])
      | PrepareKeyChange al r k \<Rightarrow> map_option (\<lambda>((x, ps), y). ((x, (al, r) # ps), y)) (talk fuel k b toA toB)
      | ReadPacket k \<Rightarrow> (case toA of [] \<Rightarrow> turn | p # ps \<Rightarrow> talk fuel (k (Inr p)) b ps toB)
      | Return x \<Rightarrow> (case b of Return y \<Rightarrow> Some ((x, []), (y, [])) | _ \<Rightarrow> turn)
      | Crashed e \<Rightarrow> None)"

text \<open>The steps of a dialogue.\<close>

lemma talk_steps:
  "talk (Suc n) (WritePacket p j) b toA toB = talk n (j True) b toA (toB @ [p])"
  "talk (Suc n) (ReadPacket k) b (p # ps) toB = talk n (k (Inr p)) b ps toB"
  "talk (Suc n) (PrepareKeyChange al r c) b toA toB = map_option (\<lambda>((x, ps), y). ((x, (al, r) # ps), y)) (talk n c b toA toB)"
  "talk (Suc n) (ReadPacket k) (WritePacket p m) [] toB = talk n (ReadPacket k) (m True) [p] toB"
  "talk (Suc n) (ReadPacket k) (ReadPacket l) [] (p # ps) = talk n (ReadPacket k) (l (Inr p)) [] ps"
  "talk (Suc n) (ReadPacket k) (PrepareKeyChange al r d) [] toB =
    map_option (\<lambda>(x, (y, ps)). (x, (y, (al, r) # ps))) (talk n (ReadPacket k) d [] toB)"
  "talk (Suc n) (Return x) (ReadPacket l) toA (p # ps) = talk n (Return x) (l (Inr p)) toA ps"
  "talk (Suc n) (Return x) (Return y) toA toB = Some ((x, []), (y, []))"
  by simp_all

declare talk.simps [simp del]

text \<open>One packet in each direction, and the same result.\<close>

definition dialogue :: "('e + 'a) prog \<Rightarrow> ('e + 'a) prog \<Rightarrow> 'a \<Rightarrow> bool" where
  "dialogue c s res \<longleftrightarrow> (\<exists>p1 p2 j kc ks m.
     c = WritePacket p1 j \<and> j True = ReadPacket kc \<and> kc (Inr p2) = Return (Inr res) \<and>
     s = ReadPacket ks \<and> ks (Inr p1) = WritePacket p2 m \<and> m True = Return (Inr res))"

abbreviation "five \<equiv> Suc (Suc (Suc (Suc (Suc 0))))"

lemma dialogue_talk: "dialogue c s res \<Longrightarrow> talk five c s [] [] = Some ((Inr res, []), (Inr res, []))"
  by (auto simp: dialogue_def talk_steps)

lemma dialogue_bind: "dialogue c s res \<Longrightarrow> f (Inr res) = Return (Inr res) \<Longrightarrow> dialogue (bind_prog c f) s res"
  by (auto simp: dialogue_def)

section \<open>Agreement\<close>

lemma intLength_small: "0 \<le> n \<Longrightarrow> n < 2 ^ k \<Longrightarrow> intLength n \<le> k + 12"
proof -
  assume n: "0 \<le> n" "n < 2 ^ k"
  then have "nat n < 2 ^ k" by (simp add: nat_less_iff)
  then have "bitLen (nat n) \<le> k" by (simp only: bitLen_le)
  then show ?thesis using n by (auto simp: intLength_def Let_def)
qed

lemma message_inverse:
  assumes "values_ok t vs" "rest_last t" "typeTag t > 0"
  obtains packet where "Marshal t vs = Inr packet" "length packet \<le> 2 ^ 32 \<Longrightarrow> Unmarshal packet t = Parsed vs"
proof -
  obtain bs where "Marshal t vs = Inr (typeTag t # bs)" "length bs < 2 ^ 32 \<Longrightarrow> Unmarshal (typeTag t # bs) t = Parsed vs"
    by (rule Marshal_inverse [OF assms]) blast
  then show ?thesis by (intro that [of "typeTag t # bs"]) auto
qed

lemmas kex_messages = kexDHInitMsg_def kexDHReplyMsg_def kexECDHInitMsg_def kexECDHReplyMsg_def values_ok_def rest_last_def
  typeTag_def typed_def value_ok_def

lemma length_intField: "length (intField n) = intLength n"
  by (simp add: intField_def length_int)

lemma dhInit_inverse:
  assumes "intLength X < 2 ^ 31"
  obtains packet where "Marshal kexDHInitMsg [VInt X] = Inr packet" "Unmarshal packet kexDHInitMsg = Parsed [VInt X]"
proof (rule message_inverse [of kexDHInitMsg "[VInt X]"])
  fix packet assume p: "Marshal kexDHInitMsg [VInt X] = Inr packet"
    "length packet \<le> 2 ^ 32 \<Longrightarrow> Unmarshal packet kexDHInitMsg = Parsed [VInt X]"
  have "length packet = 1 + intLength X"
    using p(1) by (auto simp: kexDHInitMsg_def Marshal_def marshalStruct_def typeTag_def marshal_fields length_intField)
  then show thesis using p that assms by simp
qed (simp_all add: kex_messages)

lemma dhReply_inverse:
  assumes "length hk + intLength Y + length sig < 2 ^ 31"
  obtains packet where "Marshal kexDHReplyMsg [VBytes hk, VInt Y, VBytes sig] = Inr packet"
    "Unmarshal packet kexDHReplyMsg = Parsed [VBytes hk, VInt Y, VBytes sig]"
proof (rule message_inverse [of kexDHReplyMsg "[VBytes hk, VInt Y, VBytes sig]"])
  fix packet assume p: "Marshal kexDHReplyMsg [VBytes hk, VInt Y, VBytes sig] = Inr packet"
    "length packet \<le> 2 ^ 32 \<Longrightarrow> Unmarshal packet kexDHReplyMsg = Parsed [VBytes hk, VInt Y, VBytes sig]"
  have "length packet = 9 + length hk + intLength Y + length sig"
    using p(1) by (auto simp: kexDHReplyMsg_def Marshal_def marshalStruct_def typeTag_def marshal_fields length_intField
      length_writeString)
  then show thesis using p that assms by simp
qed (simp_all add: kex_messages)

lemma ecdhInit_inverse:
  assumes "length pub < 2 ^ 31"
  obtains packet where "Marshal kexECDHInitMsg [VBytes pub] = Inr packet" "Unmarshal packet kexECDHInitMsg = Parsed [VBytes pub]"
proof (rule message_inverse [of kexECDHInitMsg "[VBytes pub]"])
  fix packet assume p: "Marshal kexECDHInitMsg [VBytes pub] = Inr packet"
    "length packet \<le> 2 ^ 32 \<Longrightarrow> Unmarshal packet kexECDHInitMsg = Parsed [VBytes pub]"
  have "length packet = 5 + length pub"
    using p(1) by (auto simp: kexECDHInitMsg_def Marshal_def marshalStruct_def typeTag_def marshal_fields length_writeString)
  then show thesis using p that assms by simp
qed (simp_all add: kex_messages)

lemma ecdhReply_inverse:
  assumes "length hk + length pub + length sig < 2 ^ 31"
  obtains packet where "Marshal kexECDHReplyMsg [VBytes hk, VBytes pub, VBytes sig] = Inr packet"
    "Unmarshal packet kexECDHReplyMsg = Parsed [VBytes hk, VBytes pub, VBytes sig]"
proof (rule message_inverse [of kexECDHReplyMsg "[VBytes hk, VBytes pub, VBytes sig]"])
  fix packet assume p: "Marshal kexECDHReplyMsg [VBytes hk, VBytes pub, VBytes sig] = Inr packet"
    "length packet \<le> 2 ^ 32 \<Longrightarrow> Unmarshal packet kexECDHReplyMsg = Parsed [VBytes hk, VBytes pub, VBytes sig]"
  have "length packet = 13 + length hk + length pub + length sig"
    using p(1) by (auto simp: kexECDHReplyMsg_def Marshal_def marshalStruct_def typeTag_def marshal_fields length_writeString)
  then show thesis using p that assms by simp
qed (simp_all add: kex_messages)

text \<open>A signer whose key can be marshalled and whose signatures verify.\<close>

definition signer_ok :: "crypto \<Rightarrow> signer \<Rightarrow> bool" where
  "signer_ok cr s \<longleftrightarrow> key_ok cr (sg_PublicKey s) \<and>
     (\<exists>hk. MarshalKey cr (sg_PublicKey s) = Inr hk \<and> length hk < 2 ^ 29) \<and>
     (\<forall>m. \<exists>sig. sg_Sign s m = Some sig \<and> VerifyKey cr (sg_PublicKey s) m sig = Inr None \<and>
        length (sig_Format sig) + length (sig_Blob sig) < 2 ^ 29)"

text \<open>What both sides end with.\<close>

definition signed_result :: "crypto \<Rightarrow> signer \<Rightarrow> kexResult \<Rightarrow> bool" where
  "signed_result cr s res \<longleftrightarrow> MarshalKey cr (sg_PublicKey s) = Inr (kr_HostKey res) \<and>
     (\<exists>sig. sg_Sign s (kr_H res) = Some sig \<and> marshalSignature sig = Inr (kr_Signature res))"

lemma signs:
  assumes "signer_ok cr s"
  obtains sig sb where "sg_Sign s m = Some sig" "marshalSignature sig = Inr sb" "length sb < 2 ^ 30"
    "VerifyKey cr (sg_PublicKey s) m sig = Inr None" "parseSignatureBody sb = Inr (Some (sig, []))"
proof -
  obtain sig where sig: "sg_Sign s m = Some sig" "VerifyKey cr (sg_PublicKey s) m sig = Inr None"
    "length (sig_Format sig) + length (sig_Blob sig) < 2 ^ 29"
    using assms unfolding signer_ok_def by meson
  obtain sb where sb: "marshalSignature sig = Inr sb" "length sb < 2 ^ 32 \<Longrightarrow> parseSignatureBody sb = Inr (Some (sig, []))"
    by (rule parseSignatureBody_marshal [of sig]) blast
  have "length sb = 8 + length (sig_Format sig) + length (sig_Blob sig)"
    using sb(1) by (auto simp: marshalSignature_def Marshal_def marshalStruct_def typeTag_def marshal_fields length_writeString)
  then show ?thesis using that [OF sig(1) sb(1) _ sig(2) sb(2)] sig(3) by simp
qed

lemma Exp_Exp: "Exp (Exp g x p) y p = g ^ (nat x * nat y) mod p"
  by (simp add: Exp_def power_mod power_mult)

lemma Exp_bounds:
  assumes "1 < p" "coprime g p"
  shows "0 < Exp g x p" "Exp g x p < p"
proof -
  have "coprime (g ^ nat x mod p) p" using assms by (simp add: coprime_mod_left_iff)
  then have "\<not> p dvd g ^ nat x" using assms(1) coprime_common_divisor [of "g ^ nat x" p p] assms(2) by auto
  then have "g ^ nat x mod p \<noteq> 0" by (simp add: dvd_eq_mod_eq_0)
  then show "0 < Exp g x p" using assms(1) by (simp add: Exp_def order_less_le)
  show "Exp g x p < p" using assms(1) by (simp add: Exp_def)
qed

lemma writeInt_intField: "writeInt n = Inr (intField n)"
  by (simp add: writeInt_eq intField_def)

lemma dh_talk:
  assumes p: "1 < dh_p grp" "coprime (dh_g grp) (dh_p grp)" "dh_p grp < 2 ^ k" "k < 2 ^ 20" and s: "signer_ok cr s"
  shows "\<exists>res. dialogue (dh_Client grp pr (Some x) magics) (dh_Server grp pr (Some y) magics cr (Some s)) res \<and>
    signed_result cr s res"
proof -
  define X Y where X: "X = Exp (dh_g grp) x (dh_p grp)" and Y: "Y = Exp (dh_g grp) y (dh_p grp)"
  note b = Exp_bounds [OF p(1,2), of x, folded X] Exp_bounds [OF p(1,2), of y, folded Y]
  have l: "intLength X < 2 ^ 28" "intLength Y < 2 ^ 28"
    using intLength_small [of X k] intLength_small [of Y k] b p(3,4) by simp_all
  define K where "K = Exp X y (dh_p grp)"
  have K: "diffieHellman grp Y x = Some K" "diffieHellman grp X y = Some K"
    using b by (simp_all add: K_def diffieHellman_def X Y Exp_Exp mult.commute)
  obtain hk where hk: "MarshalKey cr (sg_PublicKey s) = Inr hk" "length hk < 2 ^ 29" using s by (auto simp: signer_ok_def)
  define H where "H = pr_digest pr SHA1 (magicsBytes magics @ writeString hk @ intField X @ intField Y @ intField K)"
  obtain sig sb where sig: "sg_Sign s H = Some sig" "marshalSignature sig = Inr sb" "length sb < 2 ^ 30" by (rule signs [OF s])
  obtain p1 where p1: "Marshal kexDHInitMsg [VInt X] = Inr p1" "Unmarshal p1 kexDHInitMsg = Parsed [VInt X]"
    by (rule dhInit_inverse [of X]) (use l in simp)
  obtain p2 where p2: "Marshal kexDHReplyMsg [VBytes hk, VInt Y, VBytes sb] = Inr p2"
    "Unmarshal p2 kexDHReplyMsg = Parsed [VBytes hk, VInt Y, VBytes sb]"
    by (rule dhReply_inverse [of hk Y sb]) (use l hk sig in simp)
  have "dialogue (dh_Client grp pr (Some x) magics) (dh_Server grp pr (Some y) magics cr (Some s))
    \<lparr>kr_H = H, kr_K = intField K, kr_HostKey = hk, kr_Signature = sb, kr_Hash = SHA1, kr_SessionID = []\<rparr>"
    unfolding dh_Client_def dh_Server_def X [symmetric] Y [symmetric] option.case Let_def computed_def p1(1) sum.case readMessage_def
      dialogue_def
    using p1(2) p2 K hk(1) sig(1,2)
    by (simp add: int_at_def bytes_at_def dh_result_def writeInt_intField computed_def hostKeyOf_def signAndMarshal_def H_def
        Y [symmetric])
  then show ?thesis using hk(1) sig(1,2) by (auto simp: signed_result_def)
qed

text \<open>The laws of a curve for two key pairs: points that were marshalled are read back and are good, and the products agree.\<close>

definition ecdh_ok :: "ecdh \<Rightarrow> bytes \<times> int \<times> int \<Rightarrow> bytes \<times> int \<times> int \<Rightarrow> bool" where
  "ecdh_ok curve a b \<longleftrightarrow>
     (\<forall>(D, X, Y) \<in> {a, b}. ec_Unmarshal curve (ec_Marshal curve X Y) = Some (X, Y) \<and> validateECPublicKey curve X Y \<and>
        length (ec_Marshal curve X Y) < 2 ^ 28) \<and>
     (case (a, b) of ((D, X, Y), (D', X', Y')) \<Rightarrow> ec_ScalarMult curve X Y D' = ec_ScalarMult curve X' Y' D)"

lemma ecdh_talk:
  assumes p: "ecdh_ok curve a b" and s: "signer_ok cr s"
  shows "\<exists>res. dialogue (ecdh_Client curve pr (Some a) magics) (ecdh_Server curve pr (Some b) magics cr (Some s)) res \<and>
    signed_result cr s res"
proof -
  obtain D X Y D' X' Y' where ab: "a = (D, X, Y)" "b = (D', X', Y')" by (metis prod_cases3)
  define A B where A: "A = ec_Marshal curve X Y" and B: "B = ec_Marshal curve X' Y'"
  have u: "unmarshalECKey curve A = Inr (X, Y)" "unmarshalECKey curve B = Inr (X', Y')" "length A < 2 ^ 28" "length B < 2 ^ 28"
    using p by (simp_all add: ecdh_ok_def unmarshalECKey_def A B ab)
  define K where "K = ec_ScalarMult curve X Y D'"
  have K: "ec_ScalarMult curve X' Y' D = K" "ec_ScalarMult curve X Y D' = K" using p by (simp_all add: K_def ecdh_ok_def ab)
  obtain hk where hk: "MarshalKey cr (sg_PublicKey s) = Inr hk" "length hk < 2 ^ 29" using s by (auto simp: signer_ok_def)
  define h where "h = ecHash (ec_BitSize curve)"
  define H where "H = pr_digest pr h (magicsBytes magics @ writeString hk @ writeString A @ writeString B @ intField K)"
  obtain sig sb where sig: "sg_Sign s H = Some sig" "marshalSignature sig = Inr sb" "length sb < 2 ^ 30" by (rule signs [OF s])
  obtain p1 where p1: "Marshal kexECDHInitMsg [VBytes A] = Inr p1" "Unmarshal p1 kexECDHInitMsg = Parsed [VBytes A]"
    by (rule ecdhInit_inverse [of A]) (use u in simp)
  obtain p2 where p2: "Marshal kexECDHReplyMsg [VBytes hk, VBytes B, VBytes sb] = Inr p2"
    "Unmarshal p2 kexECDHReplyMsg = Parsed [VBytes hk, VBytes B, VBytes sb]"
    by (rule ecdhReply_inverse [of hk B sb]) (use u hk sig in simp)
  have "dialogue (ecdh_Client curve pr (Some a) magics) (ecdh_Server curve pr (Some b) magics cr (Some s))
    \<lparr>kr_H = H, kr_K = intField K, kr_HostKey = hk, kr_Signature = sb, kr_Hash = h, kr_SessionID = []\<rparr>"
    unfolding ecdh_Client_def ecdh_Server_def ab A [symmetric] B [symmetric] option.case prod.case Let_def computed_def p1(1) sum.case
      readMessage_def dialogue_def
    using p1(2) p2 u(1,2) K hk(1) sig(1,2)
    by (simp add: bytes_at_def ecdh_result_def writeInt_intField computed_def hostKeyOf_def signAndMarshal_def H_def h_def
        B [symmetric])
  then show ?thesis using hk(1) sig(1,2) by (auto simp: signed_result_def)
qed

text \<open>Every algorithm of the package.\<close>

lemma primes: "1 < group1_p" "odd group1_p" "1 < group14_p" "odd group14_p"
  by (simp_all add: group1_p_def group14_p_def)

lemma primes_bits: "\<exists>n < 2 ^ 20. group1_p < 2 ^ n" "\<exists>n < 2 ^ 20. group14_p < 2 ^ n"
  by (intro exI [of _ 1024], simp add: group1_p_def, intro exI [of _ 2048], simp add: group14_p_def)

definition random_ok :: "kexAlgorithm \<Rightarrow> kex_random \<Rightarrow> kex_random \<Rightarrow> bool" where
  "random_ok kex a b \<longleftrightarrow>
     (case kex of
        DH grp \<Rightarrow> rnd_Int a (dh_p grp) \<noteq> None \<and> rnd_Int b (dh_p grp) \<noteq> None
      | ECDH curve \<Rightarrow> \<exists>x y. rnd_Key a curve = Some x \<and> rnd_Key b curve = Some y \<and> ecdh_ok curve x y)"

lemma kex_talk:
  assumes k: "kexAlgoMap curves name = Some kex" and r: "random_ok kex a b" and s: "signer_ok cr s"
  shows "\<exists>res. dialogue (kex_Client kex pr a magics) (kex_Server kex pr b magics cr (Some s)) res \<and> signed_result cr s res"
proof (cases kex)
  case (DH grp)
  obtain x y where xy: "rnd_Int a (dh_p grp) = Some x" "rnd_Int b (dh_p grp) = Some y" using r DH by (auto simp: random_ok_def)
  have "dh_g grp = 2 \<and> (dh_p grp = group1_p \<or> dh_p grp = group14_p)"
    using k DH by (auto simp: kexAlgoMap_def split: if_splits)
  then have p: "dh_g grp = 2" "1 < dh_p grp" "odd (dh_p grp)" "\<exists>n < 2 ^ 20. dh_p grp < 2 ^ n"
    using primes primes_bits by metis+
  then obtain n where n: "n < 2 ^ 20" "dh_p grp < 2 ^ n" by blast
  have c: "coprime (dh_g grp) (dh_p grp)" using p(1,3) by (simp only: coprime_left_2_iff_odd not_False_eq_True)
  have "\<exists>res. dialogue (dh_Client grp pr (Some x) magics) (dh_Server grp pr (Some y) magics cr (Some s)) res \<and>
      signed_result cr s res"
    by (rule dh_talk [OF p(2) c n(2,1) s])
  then show ?thesis by (simp only: kex_Client_def kex_Server_def DH xy kexAlgorithm.case)
next
  case (ECDH curve)
  then obtain x y where "rnd_Key a curve = Some x" "rnd_Key b curve = Some y" "ecdh_ok curve x y"
    using r by (auto simp: random_ok_def)
  then show ?thesis using ecdh_talk [of curve x y cr s pr magics] s ECDH by (simp add: kex_Client_def kex_Server_def)
qed

lemma exchange_talk:
  assumes k: "kexAlgoMap curves name = Some kex" and r: "random_ok kex a b" and s: "signer_ok cr s"
    and h: "pickHostKey (al_hostKey algs) None hostKeys = Inr (Some s)"
    and cb: "case callback of None \<Rightarrow> True | Some f \<Rightarrow> f (sg_PublicKey s) = None"
  shows "\<exists>res. dialogue (client pr a cr callback kex magics) (server pr b cr hostKeys kex algs magics) res \<and>
    signed_result cr s res"
proof -
  obtain res where t: "dialogue (kex_Client kex pr a magics) (kex_Server kex pr b magics cr (Some s)) res" and res: "signed_result cr s res" using kex_talk [OF k r s] by blast
  obtain sig sb where sig: "sg_Sign s (kr_H res) = Some sig" "marshalSignature sig = Inr sb"
    "VerifyKey cr (sg_PublicKey s) (kr_H res) sig = Inr None" "parseSignatureBody sb = Inr (Some (sig, []))"
    by (rule signs [OF s, of "kr_H res"]) blast
  then have v: "parseSignatureBody (kr_Signature res) = Inr (Some (sig, []))" using res by (auto simp: signed_result_def)
  have "length (kr_HostKey res) < 2 ^ 32" "key_ok cr (sg_PublicKey s)"
    using s res by (auto simp: signer_ok_def signed_result_def)
  then have "ParsePublicKey cr (kr_HostKey res) = Parsed (sg_PublicKey s)"
    using key_roundtrip [of cr "sg_PublicKey s"] res by (auto simp: signed_result_def)
  then have "checkHostKey cr callback (Inr res) = Return (Inr res)"
    using v sig(3) cb by (auto simp: checkHostKey_def verifyHostKeySignature_def computed_def split: option.splits)
  from dialogue_bind [OF t, where f = "checkHostKey cr callback", OF this] show ?thesis using res unfolding client_def server_def h by (auto simp: computed_def)
qed

section \<open>What the client has checked\<close>

text \<open>The result is that of the client's own secret, of a public value in range and of the magics it was given.\<close>

definition client_result :: "kexAlgorithm \<Rightarrow> 's primitives \<Rightarrow> kex_random \<Rightarrow> handshakeMagics \<Rightarrow> kexResult \<Rightarrow> bool" where
  "client_result kex pr rnd magics res \<longleftrightarrow>
     (case kex of
        DH grp \<Rightarrow>
          \<exists>x Y. rnd_Int rnd (dh_p grp) = Some x \<and> 0 < Y \<and> Y < dh_p grp \<and> kr_K res = intField (Exp Y x (dh_p grp)) \<and>
            kr_H res = pr_digest pr (kr_Hash res) (magicsBytes magics @ writeString (kr_HostKey res) @
              intField (Exp (dh_g grp) x (dh_p grp)) @ intField Y @ kr_K res)
      | ECDH curve \<Rightarrow>
          \<exists>D X Y pub x y. rnd_Key rnd curve = Some (D, X, Y) \<and> unmarshalECKey curve pub = Inr (x, y) \<and>
            kr_K res = intField (ec_ScalarMult curve x y D) \<and>
            kr_H res = pr_digest pr (kr_Hash res) (magicsBytes magics @ writeString (kr_HostKey res) @
              writeString (ec_Marshal curve X Y) @ writeString pub @ kr_K res))"

lemma run_readMessage:
  "run_prog (readMessage t f) c = Ran (Inr res, c') \<longleftrightarrow>
    (\<exists>p ps vs. io_in c = Inr p # ps \<and> Unmarshal p t = Parsed vs \<and> run_prog (f vs) (c\<lparr>io_in := ps\<rparr>) = Ran (Inr res, c'))"
  by (auto simp: readMessage_def split: list.splits sum.splits parsed.splits)

lemma run_computed: "run_prog (computed x f) c = Ran y \<longleftrightarrow> (\<exists>z. x = Inr z \<and> run_prog (f z) c = Ran y)"
  by (auto simp: computed_def split: sum.splits)

lemma run_kex_Client:
  assumes "run_prog (kex_Client kex pr rnd magics) c = Ran (Inr res, c')"
  shows "client_result kex pr rnd magics res"
proof (cases kex)
  case (DH grp)
  with assms show ?thesis
    by (auto simp: kex_Client_def dh_Client_def client_result_def run_readMessage run_computed Let_def dh_result_def diffieHellman_def
      writeInt_intField split: option.splits if_splits) (metis not_le_imp_less)
next
  case (ECDH curve)
  obtain D X Y where k: "rnd_Key rnd curve = Some (D, X, Y)"
    using assms ECDH by (auto simp: kex_Client_def ecdh_Client_def split: option.splits)
  obtain vs c2 where "run_prog (case unmarshalECKey curve (bytes_at vs 1) of Inl e \<Rightarrow> Return (Inl e) | Inr (x, y) \<Rightarrow>
      ecdh_result curve pr magics (bytes_at vs 0) (ec_Marshal curve X Y) (bytes_at vs 1) (ec_ScalarMult curve x y D)
      (\<lambda>K H. Return (Inr \<lparr>kr_H = H, kr_K = K, kr_HostKey = bytes_at vs 0, kr_Signature = bytes_at vs 2,
        kr_Hash = ecHash (ec_BitSize curve), kr_SessionID = []\<rparr>))) c2 = Ran (Inr res, c')"
    using assms ECDH k by (auto simp: kex_Client_def ecdh_Client_def run_readMessage run_computed Let_def split: if_splits)
  then obtain x y where u: "unmarshalECKey curve (bytes_at vs 1) = Inr (x, y)" and res: "run_prog
      (ecdh_result curve pr magics (bytes_at vs 0) (ec_Marshal curve X Y) (bytes_at vs 1) (ec_ScalarMult curve x y D)
      (\<lambda>K H. Return (Inr \<lparr>kr_H = H, kr_K = K, kr_HostKey = bytes_at vs 0, kr_Signature = bytes_at vs 2,
        kr_Hash = ecHash (ec_BitSize curve), kr_SessionID = []\<rparr>))) c2 = Ran (Inr res, c')"
    by (auto split: sum.splits)
  have "kr_K res = intField (ec_ScalarMult curve x y D) \<and> kr_H res = pr_digest pr (kr_Hash res)
      (magicsBytes magics @ writeString (kr_HostKey res) @ writeString (ec_Marshal curve X Y) @ writeString (bytes_at vs 1) @ kr_K res)"
    using res by (auto simp: ecdh_result_def run_computed writeInt_intField)
  then show ?thesis using k u ECDH unfolding client_result_def by fastforce
qed

lemma map_sum_None: "map_sum id (map_option f) x = Inr None \<longleftrightarrow> x = Inr None"
  by (cases x) auto

lemma run_checkHostKey:
  assumes "run_prog (checkHostKey cr callback r) c = Ran (Inr res, c')"
  shows "r = Inr res \<and> (\<exists>k sig. ParsePublicKey cr (kr_HostKey res) = Parsed k \<and>
    parseSignatureBody (kr_Signature res) = Inr (Some (sig, [])) \<and> VerifyKey cr k (kr_H res) sig = Inr None \<and>
    (\<forall>f. callback = Some f \<longrightarrow> f k = None))"
  using assms
  by (auto simp: checkHostKey_def verifyHostKeySignature_def run_computed map_sum_None split: sum.splits parsed.splits option.splits if_splits)

lemma client_checked:
  assumes "run_prog (client pr rnd cr callback kex magics) c = Ran (Inr res, c')"
  shows "client_result kex pr rnd magics res \<and> (\<exists>k sig. ParsePublicKey cr (kr_HostKey res) = Parsed k \<and>
    parseSignatureBody (kr_Signature res) = Inr (Some (sig, [])) \<and> VerifyKey cr k (kr_H res) sig = Inr None \<and>
    (\<forall>f. callback = Some f \<longrightarrow> f k = None))"
proof -
  obtain r c1 where r: "run_prog (kex_Client kex pr rnd magics) c = Ran (r, c1)"
    "run_prog (checkHostKey cr callback r) c1 = Ran (Inr res, c')"
    using assms by (auto simp: client_def run_prog_bind and_then_Ran)
  note ok = run_checkHostKey [OF r(2)]
  have "client_result kex pr rnd magics res" by (rule run_kex_Client) (use r(1) ok in simp)
  then show ?thesis using ok by simp
qed

text \<open>The server comes to a result even if its reply was not written.\<close>

lemma dh_Server_unwritten:
  assumes p: "1 < dh_p grp" "coprime (dh_g grp) (dh_p grp)" "0 < X" "X < dh_p grp" and s: "signer_ok cr s"
    and m: "Unmarshal packet kexDHInitMsg = Parsed [VInt X]"
  shows "\<exists>res. run_prog (dh_Server grp pr (Some y) magics cr (Some s)) \<lparr>io_in = [Inr packet], io_out = [], io_writes = 0, io_prepared = []\<rparr> =
    Ran (Inr res, \<lparr>io_in = [], io_out = [], io_writes = 0, io_prepared = []\<rparr>)"
proof -
  define Y where Y: "Y = Exp (dh_g grp) y (dh_p grp)"
  obtain K where K: "diffieHellman grp X y = Some K" using p by (simp add: diffieHellman_def)
  obtain hk where hk: "MarshalKey cr (sg_PublicKey s) = Inr hk" using s by (auto simp: signer_ok_def)
  define H where "H = pr_digest pr SHA1 (magicsBytes magics @ writeString hk @ intField X @ intField Y @ intField K)"
  obtain sig sb where sig: "sg_Sign s H = Some sig" "marshalSignature sig = Inr sb" by (rule signs [OF s])
  obtain p2 where "Marshal kexDHReplyMsg [VBytes hk, VInt Y, VBytes sb] = Inr p2"
    by (rule message_inverse [of kexDHReplyMsg "[VBytes hk, VInt Y, VBytes sb]"]) (simp_all add: kex_messages)
  then show ?thesis unfolding dh_Server_def Y [symmetric]
    using m K hk sig
    by (simp add: readMessage_def int_at_def dh_result_def writeInt_intField computed_def hostKeyOf_def signAndMarshal_def H_def
      Y [symmetric])
qed

section \<open>Properties\<close>

text \<open>For every key exchange algorithm of the package, a client and a server that run the exchange with each other
  both end, without an error, with the same result: hash, secret, host key and signature. The client has accepted the
  server's host key and its signature. The random numbers can be drawn, the curves obey the law of Diffie-Hellman, and
  the signer's signatures verify.\<close>

theorem key_exchange_agrees:
  assumes "kexAlgoMap curves (al_kex algs) = Some kex" "random_ok kex rc rs" "signer_ok cr s"
    and "pickHostKey (al_hostKey algs) None hostKeys = Inr (Some s)"
    and "case callback of None \<Rightarrow> True | Some f \<Rightarrow> f (sg_PublicKey s) = None"
  shows "\<exists>res. talk 5 (client pr rc cr callback kex magics) (server pr rs cr hostKeys kex algs magics) [] [] =
      Some ((Inr res, []), (Inr res, [])) \<and>
    MarshalKey cr (sg_PublicKey s) = Inr (kr_HostKey res) \<and>
    (\<exists>sig. sg_Sign s (kr_H res) = Some sig \<and> marshalSignature sig = Inr (kr_Signature res))"
  using exchange_talk [OF assms, of pr magics] dialogue_talk by (fastforce simp: signed_result_def eval_nat_numeral)

definition kex_crypto :: crypto where
  "kex_crypto = small_crypto\<lparr>sha1 := \<lambda>b. [7]\<rparr>"

definition small_signer :: signer where
  "small_signer = \<lparr>sg_PublicKey = rsaPublicKey 3 77, sg_Sign = \<lambda>m. Some \<lparr>sig_Format = KeyAlgoRSA, sig_Blob = [7]\<rparr>\<rparr>"

definition small_random :: "int \<Rightarrow> kex_random" where
  "small_random n = \<lparr>rnd_Int = \<lambda>p. Some n, rnd_Key = \<lambda>c. None\<rparr>"

definition small_magics :: handshakeMagics where
  "small_magics = \<lparr>hm_clientVersion = [67], hm_serverVersion = [83], hm_clientKexInit = [20], hm_serverKexInit = [20, 1]\<rparr>"

lemma small_signer_ok: "signer_ok kex_crypto small_signer"
proof -
  obtain b where b: "MarshalKey kex_crypto (rsaPublicKey 3 77) = Inr b"
    using key_roundtrip [of kex_crypto "rsaPublicKey 3 77"] by auto
  then have "length b < 2 ^ 29"
    by (auto simp: marshal_anonymous_eq marshal_fields KeyAlgoRSA_def bytes_of_def intField_def intPad_def intBytes_def
      natBytes.simps Let_def)
  then show ?thesis using b
    by (simp add: signer_ok_def small_signer_def rsaVerify_def wrongFormat_def kex_crypto_def small_crypto_def KeyAlgoRSA_def
      bytes_of_def del: rsaMarshal_def)
qed

theorem key_exchange_agrees_witness:
  "\<exists>kex res. kexAlgoMap (\<lambda>c. undefined) kexAlgoDH1SHA1 = Some kex \<and>
    talk 5 (client small_prims (small_random 5) kex_crypto (Some (\<lambda>k. None)) kex small_magics)
      (server small_prims (small_random 9) kex_crypto [small_signer] kex
        \<lparr>al_kex = kexAlgoDH1SHA1, al_hostKey = KeyAlgoRSA, al_w = undefined, al_r = undefined\<rparr> small_magics) [] [] =
    Some ((Inr res, []), (Inr res, []))"
proof -
  let ?algs = "\<lparr>al_kex = kexAlgoDH1SHA1, al_hostKey = KeyAlgoRSA, al_w = undefined, al_r = undefined\<rparr>"
  have k: "kexAlgoMap (\<lambda>c. undefined) (al_kex ?algs) = Some (DH \<lparr>dh_g = 2, dh_p = group1_p\<rparr>)" by (simp add: kexAlgoMap_def)
  have "random_ok (DH \<lparr>dh_g = 2, dh_p = group1_p\<rparr>) (small_random 5) (small_random 9)"
    by (simp add: random_ok_def small_random_def)
  moreover have "pickHostKey (al_hostKey ?algs) None [small_signer] = Inr (Some small_signer)"
    by (simp add: small_signer_def)
  ultimately show ?thesis
    using key_exchange_agrees [OF k, of "small_random 5" "small_random 9" kex_crypto small_signer "[small_signer]" "Some (\<lambda>k. None)"
      small_prims small_magics] k small_signer_ok by auto
qed


definition group23 :: kexAlgorithm where "group23 = DH \<lparr>dh_g = 5, dh_p = 23\<rparr>"

definition small_reply :: bytes where
  "small_reply =
     (case (MarshalKey kex_crypto (rsaPublicKey 3 77), marshalSignature \<lparr>sig_Format = KeyAlgoRSA, sig_Blob = [7]\<rparr>) of
        (Inr hk, Inr sb) \<Rightarrow> (case Marshal kexDHReplyMsg [VBytes hk, VInt 8, VBytes sb] of Inr b \<Rightarrow> b | _ \<Rightarrow> [])
      | _ \<Rightarrow> [])"

lemma small_client_run:
  "(case run_prog (client small_prims (small_random 6) kex_crypto None group23 small_magics)
      \<lparr>io_in = [Inr small_reply], io_out = [], io_writes = 1, io_prepared = []\<rparr> of
     Ran (Inr res, c') \<Rightarrow> True | _ \<Rightarrow> False)"
  by code_simp


end
