(* ===== verification/Ssh_Handshake.thy ===== *)
theory Ssh_Handshake
  imports Ssh_Kex
begin

text \<open>
  The handshake transport, which exchanges keys whenever it has to and holds back the packets of the application while it
  does: \<^verbatim>\<open>handshake.go\<close> of the vendored package \<^verbatim>\<open>golang.org/x/crypto/ssh\<close>.

  One goroutine runs the loop that reads; any number of goroutines write. A step of one of them is what it does
  without letting another run that could notice: a section under the mutex, a packet read, or one instruction of the
  key exchange.
\<close>

section \<open>State\<close>

definition supportedHostKeyAlgos :: "bytes list" where
  "supportedHostKeyAlgos =
     [CertAlgoRSAv01, CertAlgoDSAv01, CertAlgoECDSA256v01, CertAlgoECDSA384v01, CertAlgoECDSA521v01,
      KeyAlgoECDSA256, KeyAlgoECDSA384, KeyAlgoECDSA521, KeyAlgoRSA, KeyAlgoDSA]"

text \<open>
  The packets written to the \<open>keyingTransport\<close>, by who wrote them: \<open>writePacket\<close>, \<open>sendKexInitLocked\<close> or the
  exchange. Writes fail when the connection is closed, and after a number of them.
\<close>

datatype written = AppPacket bytes | InitPacket bytes | KexPacket bytes

record keyingTransport =
  kt_in :: "(string + bytes) list"
  kt_log :: "written list"
  kt_writes :: nat
  kt_closed :: bool
  kt_prepared :: "(algorithms \<times> kexResult) list"

definition kt_write :: "written \<Rightarrow> keyingTransport \<Rightarrow> bool \<times> keyingTransport" where
  "kt_write w c =
     (if kt_closed c \<or> kt_writes c = 0 then (False, c)
      else (True, c\<lparr>kt_log := kt_log c @ [w], kt_writes := kt_writes c - 1\<rparr>))"

text \<open>What does not change after a transport is made; the configuration has its defaults set.\<close>

record 's handshakeConfig =
  hs_prims :: "'s primitives"
  hs_crypto :: crypto
  hs_curves :: "curve \<Rightarrow> ecdh"
  hs_config :: "unit transport_config"
  hs_serverVersion :: bytes
  hs_clientVersion :: bytes
  hs_hostKeys :: "signer list"
  hs_hostKeyCallback :: "(public_key \<Rightarrow> string option) option"

text \<open>Where the reading goroutine is, and where a call of \<open>writePacket\<close> is.\<close>

datatype reader =
    AtTop
  | Reading
  | Entering bytes
      \<comment> \<open>the peer's \<open>KEXINIT\<close>\<close>
  | Exchanging "(kex_error + unit) prog"
  | Leaving "kex_error + unit"
  | Delivering bytes
  | Stopped

datatype write_result = Written | NotWritten | OnlyTransport | WriteError kex_error

datatype writer =
    Entered bytes
  | Waiting bytes
  | Woken bytes
  | Finished write_result

record handshakeTransport =
  conn :: keyingTransport
  incoming :: "bytes list"
  readError :: "kex_error option"
      \<comment> \<open>set when \<open>incoming\<close> is closed\<close>
  readSinceKex :: "64 word"
  mu_locked :: bool
      \<comment> \<open>between two steps\<close>
  sentInit :: "(fval list \<times> bytes) option"
      \<comment> \<open>message and packet\<close>
  writtenSinceKex :: "64 word"
  writeError :: "kex_error option"
  reader_at :: reader
  writers :: "nat \<Rightarrow> writer option"

definition newHandshakeTransport :: "keyingTransport \<Rightarrow> handshakeTransport" where
  "newHandshakeTransport c = \<lparr>conn = c, incoming = [], readError = None, readSinceKex = 0, mu_locked = False, sentInit = None,
     writtenSinceKex = 0, writeError = None, reader_at = AtTop, writers = (\<lambda>i. None)\<rparr>"

section \<open>\<open>KEXINIT\<close>\<close>

text \<open>A nil slice has no names.\<close>

definition names_of :: "bytes list option \<Rightarrow> bytes list" where
  "names_of ns = (case ns of None \<Rightarrow> [] | Some l \<Rightarrow> l)"

fun keyTypes :: "signer list \<Rightarrow> panic + bytes list" where
  "keyTypes [] = Inr []"
| "keyTypes (k # ks) = bind_sum (KeyType (sg_PublicKey k)) (\<lambda>t. map_sum id (\<lambda>ts. t # ts) (keyTypes ks))"

definition kexInit_values :: "'s handshakeConfig \<Rightarrow> bytes \<Rightarrow> panic + fval list" where
  "kexInit_values hs cookie =
     map_sum id
       (\<lambda>hostAlgos. [VBytes cookie, VNames (names_of (tc_KeyExchanges (hs_config hs))), VNames hostAlgos,
          VNames (names_of (tc_Ciphers (hs_config hs))), VNames (names_of (tc_Ciphers (hs_config hs))),
          VNames (names_of (tc_MACs (hs_config hs))), VNames (names_of (tc_MACs (hs_config hs))),
          VNames supportedCompressions, VNames supportedCompressions, VNames [], VNames [], VBool False, VU32 0])
       (if hs_hostKeys hs \<noteq> [] then keyTypes (hs_hostKeys hs) else Inr supportedHostKeyAlgos)"

text \<open>With the mutex held; \<^const>\<open>None\<close> is an error of writing.\<close>

definition sendKexInitLocked :: "'s handshakeConfig \<Rightarrow> bytes \<Rightarrow> handshakeTransport \<Rightarrow>
    ((fval list \<times> bytes) option \<times> handshakeTransport) step" where
  "sendKexInitLocked hs cookie t =
     (case sentInit t of
        Some m \<Rightarrow> Ran (Some m, t)
      | None \<Rightarrow>
          (case kexInit_values hs cookie of
             Inl e \<Rightarrow> Panicked e
           | Inr msg \<Rightarrow>
               (case Marshal kexInitMsg msg of
                  Inl e \<Rightarrow> Panicked e
                | Inr packet \<Rightarrow>
                    let (ok, c) = kt_write (InitPacket packet) (conn t) in
                    Ran (if ok then (Some (msg, packet), t\<lparr>conn := c, sentInit := Some (msg, packet)\<rparr>)
                      else (None, t\<lparr>conn := c\<rparr>)))))"

text \<open>\<open>sendKexInit\<close>, which takes the mutex, and \<open>requestKeyChange\<close>.\<close>

definition sendKexInit :: "'s handshakeConfig \<Rightarrow> bytes \<Rightarrow> handshakeTransport \<Rightarrow>
    ((fval list \<times> bytes) option \<times> handshakeTransport) step" where
  "sendKexInit hs cookie t = (if mu_locked t then Blocks else sendKexInitLocked hs cookie t)"

definition requestKeyChange :: "'s handshakeConfig \<Rightarrow> bytes \<Rightarrow> handshakeTransport \<Rightarrow> (bool \<times> handshakeTransport) step" where
  "requestKeyChange hs cookie t = and_then (sendKexInit hs cookie t) (\<lambda>(m, t'). Ran (m \<noteq> None, t'))"

section \<open>The exchange\<close>

definition bool_at :: "fval list \<Rightarrow> nat \<Rightarrow> bool" where
  "bool_at vs i = (case vs ! i of VBool b \<Rightarrow> b | _ \<Rightarrow> False)"

text \<open>
  \<open>enterKeyExchange\<close> after \<open>sendKexInit\<close>. An error of \<open>prepareKeyChange\<close> is not looked at. The last part of
  it is \<open>finishExchange\<close>. The agreed algorithm is one of the peer's, so \<open>KexAlgos[0]\<close> is there.
\<close>

definition finishExchange :: "algorithms \<Rightarrow> kex_error + kexResult \<Rightarrow> (kex_error + unit) prog" where
  "finishExchange algs r =
     (case r of
        Inl e \<Rightarrow> Return (Inl e)
      | Inr result \<Rightarrow>
          PrepareKeyChange algs result
            (WritePacket [msgNewKeys] (\<lambda>ok.
               if \<not> ok then Return (Inl WriteFailed)
               else
                 ReadPacket (\<lambda>x.
                   case x of
                     Inl e \<Rightarrow> Return (Inl (ReadFailed e))
                   | Inr packet \<Rightarrow>
                       (case packet of
                          [] \<Rightarrow> Crashed IndexOutOfRange
                        | b # _ \<Rightarrow>
                            if b \<noteq> msgNewKeys then Return (Inl (KexWire (UnexpectedMessage msgNewKeys b)))
                            else Return (Inr ()))))))"

definition runKex :: "'s handshakeConfig \<Rightarrow> kex_random \<Rightarrow> algorithms \<Rightarrow> handshakeMagics \<Rightarrow> (kex_error + unit) prog" where
  "runKex hs rnd algs magics =
     (case kexAlgoMap (hs_curves hs) (al_kex algs) of
        None \<Rightarrow> Return (Inl (UnexpectedKex (al_kex algs)))
      | Some kex \<Rightarrow>
          bind_prog
            (if hs_hostKeys hs \<noteq> [] then server (hs_prims hs) rnd (hs_crypto hs) (hs_hostKeys hs) kex algs magics
             else client (hs_prims hs) rnd (hs_crypto hs) (hs_hostKeyCallback hs) kex magics)
            (finishExchange algs))"

definition enterKeyExchange :: "'s handshakeConfig \<Rightarrow> kex_random \<Rightarrow> fval list \<Rightarrow> bytes \<Rightarrow> bytes \<Rightarrow> (kex_error + unit) prog" where
  "enterKeyExchange hs rnd myInit myInitPacket otherInitPacket =
     (case Unmarshal otherInitPacket kexInitMsg of
        Crash e \<Rightarrow> Crashed e
      | Malformed e \<Rightarrow> Return (Inl (KexWire e))
      | Parsed otherInit \<Rightarrow>
          let isClient = (hs_hostKeys hs = []);
              magics = \<lparr>hm_clientVersion = hs_clientVersion hs, hm_serverVersion = hs_serverVersion hs,
                hm_clientKexInit = (if isClient then myInitPacket else otherInitPacket),
                hm_serverKexInit = (if isClient then otherInitPacket else myInitPacket)\<rparr>;
              clientInit = (if isClient then myInit else otherInit);
              serverInit = (if isClient then otherInit else myInit) in
          (case findAgreedAlgorithms (modes_of (hs_prims hs)) clientInit serverInit of
             None \<Rightarrow> Return (Inl NoCommonAlgorithms)
           | Some algs \<Rightarrow>
               if bool_at otherInit 11 \<and> al_kex algs \<noteq> hd (KexAlgos otherInit) then
                 ReadPacket (\<lambda>x. case x of Inl e \<Rightarrow> Return (Inl (ReadFailed e)) | Inr _ \<Rightarrow> runKex hs rnd algs magics)
               else runKex hs rnd algs magics))"

section \<open>The reading goroutine\<close>

definition stop_reading :: "kex_error \<Rightarrow> handshakeTransport \<Rightarrow> handshakeTransport" where
  "stop_reading e t = t\<lparr>readError := Some e, reader_at := Stopped\<rparr>"

text \<open>The section of \<open>readOnePacket\<close> after an exchange, with the mutex, and what follows it.\<close>

definition wake :: "writer option \<Rightarrow> writer option" where
  "wake w = (case w of Some (Waiting p) \<Rightarrow> Some (Woken p) | _ \<Rightarrow> w)"

definition leaveExchange :: "kex_error + unit \<Rightarrow> handshakeTransport \<Rightarrow> handshakeTransport" where
  "leaveExchange r t =
     (let t1 = (case r of Inl e \<Rightarrow> t\<lparr>conn := (conn t)\<lparr>kt_closed := True\<rparr>, writeError := Some e\<rparr> | Inr _ \<Rightarrow> t);
          t2 = t1\<lparr>sentInit := None, writers := wake \<circ> writers t1, writtenSinceKex := 0\<rparr> in
      case r of
        Inl e \<Rightarrow> stop_reading e t2
      | Inr _ \<Rightarrow> t2\<lparr>readSinceKex := 0, reader_at := Delivering [msgNewKeys]\<rparr>)"

definition chanCapacity :: nat where "chanCapacity = 16"

text \<open>A packet from the connection, or the error of reading; it waits for one.\<close>

definition receive :: "handshakeTransport \<Rightarrow> ((string + bytes) \<times> handshakeTransport) step" where
  "receive t = (case kt_in (conn t) of [] \<Rightarrow> Blocks | r # rs \<Rightarrow> Ran (r, t\<lparr>conn := (conn t)\<lparr>kt_in := rs\<rparr>\<rparr>))"

text \<open>One instruction of an exchange.\<close>

definition exchange_step :: "(kex_error + unit) prog \<Rightarrow> handshakeTransport \<Rightarrow> handshakeTransport step" where
  "exchange_step m t =
     (case m of
        Return r \<Rightarrow> Ran (t\<lparr>reader_at := Leaving r\<rparr>)
      | WritePacket p k \<Rightarrow>
          let (ok, c) = kt_write (KexPacket p) (conn t) in Ran (t\<lparr>conn := c, reader_at := Exchanging (k ok)\<rparr>)
      | ReadPacket k \<Rightarrow> and_then (receive t) (\<lambda>(r, t1). Ran (t1\<lparr>reader_at := Exchanging (k r)\<rparr>))
      | PrepareKeyChange a r k \<Rightarrow>
          Ran (t\<lparr>conn := (conn t)\<lparr>kt_prepared := kt_prepared (conn t) @ [(a, r)]\<rparr>, reader_at := Exchanging k\<rparr>)
      | Crashed e \<Rightarrow> Panicked e)"

text \<open>The loop of \<open>readLoop\<close> with \<open>readOnePacket\<close>.\<close>

definition reader_step :: "'s handshakeConfig \<Rightarrow> bytes \<Rightarrow> kex_random \<Rightarrow> handshakeTransport \<Rightarrow> handshakeTransport step" where
  "reader_step hs cookie rnd t =
     (case reader_at t of
        AtTop \<Rightarrow>
          if readSinceKex t > tc_RekeyThreshold (hs_config hs) then
            and_then (requestKeyChange hs cookie t) (\<lambda>(ok, t1).
              Ran (if ok then t1\<lparr>reader_at := Reading\<rparr> else stop_reading WriteFailed t1))
          else Ran (t\<lparr>reader_at := Reading\<rparr>)
      | Reading \<Rightarrow>
          and_then (receive t) (\<lambda>(r, t1).
            case r of
              Inl e \<Rightarrow> Ran (stop_reading (ReadFailed e) t1)
            | Inr p \<Rightarrow>
                let t2 = t1\<lparr>readSinceKex := readSinceKex t1 + word_of_nat (length p)\<rparr> in
                (case p of
                   [] \<Rightarrow> Panicked IndexOutOfRange
                 | b # _ \<Rightarrow> Ran (t2\<lparr>reader_at := (if b \<noteq> 20 then Delivering p else Entering p)\<rparr>)))
      | Entering p \<Rightarrow>
          and_then (sendKexInit hs cookie t) (\<lambda>(m, t1).
            Ran (case m of
                None \<Rightarrow> t1\<lparr>reader_at := Leaving (Inl WriteFailed)\<rparr>
              | Some (msg, packet) \<Rightarrow> t1\<lparr>reader_at := Exchanging (enterKeyExchange hs rnd msg packet p)\<rparr>))
      | Exchanging m \<Rightarrow> exchange_step m t
      | Leaving r \<Rightarrow> if mu_locked t then Blocks else Ran (leaveExchange r t)
      | Delivering p \<Rightarrow>
          (case p of
             [] \<Rightarrow> Panicked IndexOutOfRange
           | b # _ \<Rightarrow>
               if b = 2 \<or> b = 4 then Ran (t\<lparr>reader_at := AtTop\<rparr>)
               else if length (incoming t) < chanCapacity then Ran (t\<lparr>incoming := incoming t @ [p], reader_at := AtTop\<rparr>)
               else Blocks)
      | Stopped \<Rightarrow> Blocks)"

text \<open>\<open>readPacket\<close>.\<close>

definition hs_readPacket :: "handshakeTransport \<Rightarrow> ((kex_error option + bytes) \<times> handshakeTransport) step" where
  "hs_readPacket t =
     (case incoming t of
        p # ps \<Rightarrow> Ran (Inr p, t\<lparr>incoming := ps\<rparr>)
      | [] \<Rightarrow> if reader_at t = Stopped then Ran (Inl (readError t), t) else Blocks)"

section \<open>Writing\<close>

text \<open>
  The loop of \<open>writePacket\<close>, with the mutex held: \<open>Wait\<close> gives it back. After an error of an earlier
  exchange the function returns without giving it back.
\<close>

definition writeLocked :: "nat \<Rightarrow> bytes \<Rightarrow> handshakeTransport \<Rightarrow> handshakeTransport step" where
  "writeLocked i p t =
     (let become = (\<lambda>w t. t\<lparr>writers := (writers t)(i \<mapsto> w)\<rparr>) in
      if sentInit t \<noteq> None then Ran (become (Waiting p) t)
      else
        (case writeError t of
           Some e \<Rightarrow> Ran (become (Finished (WriteError e)) (t\<lparr>mu_locked := True\<rparr>))
         | None \<Rightarrow>
             let t1 = t\<lparr>writtenSinceKex := writtenSinceKex t + word_of_nat (length p)\<rparr> in
             (case p of
                [] \<Rightarrow> Panicked IndexOutOfRange
              | b # _ \<Rightarrow>
                  if b = 20 \<or> b = msgNewKeys then Ran (become (Finished OnlyTransport) t1)
                  else
                    let (ok, c) = kt_write (AppPacket p) (conn t1) in
                    Ran (become (Finished (if ok then Written else NotWritten)) (t1\<lparr>conn := c\<rparr>)))))"

text \<open>A step of the call \<open>i\<close> of \<open>writePacket\<close>: its start, or going on after a broadcast.\<close>

definition writer_step :: "'s handshakeConfig \<Rightarrow> bytes \<Rightarrow> nat \<Rightarrow> handshakeTransport \<Rightarrow> handshakeTransport step" where
  "writer_step hs cookie i t =
     (case writers t i of
        Some (Entered p) \<Rightarrow>
          if mu_locked t then Blocks
          else if writtenSinceKex t > tc_RekeyThreshold (hs_config hs) then
            and_then (sendKexInitLocked hs cookie t) (\<lambda>(m, t1). writeLocked i p t1)
          else writeLocked i p t
      | Some (Woken p) \<Rightarrow> if mu_locked t then Blocks else writeLocked i p t
      | _ \<Rightarrow> Blocks)"

definition close_transport :: "handshakeTransport \<Rightarrow> handshakeTransport" where
  "close_transport t = t\<lparr>conn := (conn t)\<lparr>kt_closed := True\<rparr>\<rparr>"

section \<open>Steps\<close>

inductive hs_step :: "'s handshakeConfig \<Rightarrow> handshakeTransport \<Rightarrow> handshakeTransport \<Rightarrow> bool" for hs where
  read_step: "reader_step hs cookie rnd t = Ran t' \<Longrightarrow> hs_step hs t t'"
| write_step: "writer_step hs cookie i t = Ran t' \<Longrightarrow> hs_step hs t t'"
| call_write: "writers t i = None \<Longrightarrow> hs_step hs t (t\<lparr>writers := (writers t)(i \<mapsto> Entered p)\<rparr>)"
| call_request: "requestKeyChange hs cookie t = Ran (ok, t') \<Longrightarrow> hs_step hs t t'"
| call_read: "hs_readPacket t = Ran (r, t') \<Longrightarrow> hs_step hs t t'"
| call_close: "hs_step hs t (close_transport t)"
| peer_sends: "hs_step hs t (t\<lparr>conn := (conn t)\<lparr>kt_in := kt_in (conn t) @ [r]\<rparr>\<rparr>)"

abbreviation hs_reachable :: "'s handshakeConfig \<Rightarrow> handshakeTransport \<Rightarrow> handshakeTransport \<Rightarrow> bool" where
  "hs_reachable hs \<equiv> (hs_step hs)\<^sup>*\<^sup>*"

section \<open>What may be written when\<close>

text \<open>
  RFC 4253, 7.1: from its \<open>KEXINIT\<close> to its \<open>NEWKEYS\<close> a side writes nothing but messages of the exchange, and no
  second \<open>KEXINIT\<close>. \<open>k\<close> is whether an exchange is under way.
\<close>

definition changes :: "bool \<Rightarrow> written \<Rightarrow> bool" where
  "changes k w = (case w of AppPacket p \<Rightarrow> k | InitPacket p \<Rightarrow> True | KexPacket p \<Rightarrow> k \<and> p \<noteq> [msgNewKeys])"

definition allowed :: "bool \<Rightarrow> written \<Rightarrow> bool" where
  "allowed k w =
     (case w of
        AppPacket p \<Rightarrow> \<not> k \<and> p \<noteq> [] \<and> hd p \<notin> {20, 21}
      | InitPacket p \<Rightarrow> \<not> k \<and> p \<noteq> [] \<and> hd p = 20
      | KexPacket p \<Rightarrow> k \<and> (p = [msgNewKeys] \<or> p \<noteq> [] \<and> hd p \<in> {30, 31}))"

fun disciplined :: "bool \<Rightarrow> written list \<Rightarrow> bool" where
  "disciplined k [] = True"
| "disciplined k (w # ws) = (allowed k w \<and> disciplined (changes k w) ws)"

definition under_way :: "written list \<Rightarrow> bool" where
  "under_way ws = foldl changes False ws"

lemma disciplined_snoc: "disciplined k (ws @ [w]) \<longleftrightarrow> disciplined k ws \<and> allowed (foldl changes k ws) w"
  by (induction ws arbitrary: k) auto

lemma disciplined_step [simp]: "disciplined False (ws @ [w]) \<longleftrightarrow> disciplined False ws \<and> allowed (under_way ws) w"
  by (simp add: disciplined_snoc under_way_def)

lemma under_way_snoc [simp]: "under_way (ws @ [w]) = changes (under_way ws) w"
  by (simp add: under_way_def)

text \<open>
  A program that writes nothing; one that writes nothing but messages of key exchange methods; and one that writes such
  messages and then, before it comes to an end without an error, \<open>NEWKEYS\<close> and nothing more.
\<close>

primrec silent :: "'a prog \<Rightarrow> bool" where
  "silent (Return r) \<longleftrightarrow> True"
| "silent (WritePacket p k) \<longleftrightarrow> False"
| "silent (ReadPacket k) \<longleftrightarrow> (\<forall>r. silent (k r))"
| "silent (PrepareKeyChange a r m) \<longleftrightarrow> silent m"
| "silent (Crashed e) \<longleftrightarrow> True"

primrec method_writes :: "'a prog \<Rightarrow> bool" where
  "method_writes (Return r) \<longleftrightarrow> True"
| "method_writes (WritePacket p k) \<longleftrightarrow> p \<noteq> [] \<and> hd p \<in> {30, 31} \<and> (\<forall>ok. method_writes (k ok))"
| "method_writes (ReadPacket k) \<longleftrightarrow> (\<forall>r. method_writes (k r))"
| "method_writes (PrepareKeyChange a r m) \<longleftrightarrow> method_writes m"
| "method_writes (Crashed e) \<longleftrightarrow> True"

primrec closing :: "('e + 'a) prog \<Rightarrow> bool" where
  "closing (Return r) \<longleftrightarrow> isl r"
| "closing (WritePacket p k) \<longleftrightarrow> closing (k False) \<and>
     (if p = [msgNewKeys] then silent (k True) else p \<noteq> [] \<and> hd p \<in> {30, 31} \<and> closing (k True))"
| "closing (ReadPacket k) \<longleftrightarrow> (\<forall>r. closing (k r))"
| "closing (PrepareKeyChange a r m) \<longleftrightarrow> closing m"
| "closing (Crashed e) \<longleftrightarrow> True"

lemma closing_bind: "method_writes m \<Longrightarrow> (\<And>x. closing (f x)) \<Longrightarrow> closing (bind_prog m f)"
proof (induction m)
  case (WritePacket p k)
  then show ?case by (auto simp: msgNewKeys_def)
qed auto

lemma method_writes_bind: "method_writes m \<Longrightarrow> (\<And>x. method_writes (f x)) \<Longrightarrow> method_writes (bind_prog m f)"
  by (induction m) auto

lemma method_writes_computed: "(\<And>y. x = Inr y \<Longrightarrow> method_writes (f y)) \<Longrightarrow> method_writes (computed x f)"
  by (auto simp: computed_def split: sum.split)

lemma method_writes_readMessage: "(\<And>vs. method_writes (f vs)) \<Longrightarrow> method_writes (readMessage t f)"
  by (auto simp: readMessage_def split: sum.split parsed.split)

lemma marshalField_grows: "marshalField i out k v = Inr b \<Longrightarrow> out \<noteq> [] \<Longrightarrow> b \<noteq> [] \<and> hd b = hd out"
  by (cases out) (auto simp: marshalField_def appendU32_def appendU64_def appendInt_def marshalNames_eq writeInt_intField split: fval.splits kind.splits
    if_splits sum.splits)

lemma marshalFields_grows: "marshalFields i out ks vs = Inr b \<Longrightarrow> out \<noteq> [] \<Longrightarrow> b \<noteq> [] \<and> hd b = hd out"
  by (induction i out ks vs rule: marshalFields.induct) (fastforce dest: marshalField_grows split: sum.splits)+

lemma Marshal_tag: "Marshal t vs = Inr b \<Longrightarrow> typeTag t > 0 \<Longrightarrow> b \<noteq> [] \<and> hd b = typeTag t"
  by (auto simp: Marshal_def marshalStruct_def Let_def dest: marshalFields_grows)

lemmas writes_simps = method_writes_computed method_writes_readMessage

lemma kex_tags: "typeTag kexDHInitMsg = 30" "typeTag kexDHReplyMsg = 31" "typeTag kexECDHInitMsg = 30" "typeTag kexECDHReplyMsg = 31"
  by (simp_all add: message_types typeTag_def)

lemma method_writes_signAndMarshal: "(\<And>b. method_writes (f b)) \<Longrightarrow> method_writes (signAndMarshal s m f)"
  by (auto simp: signAndMarshal_def intro: writes_simps split: option.split)

lemma method_writes_Client: "method_writes (kex_Client kex pr rnd magics)"
proof (cases kex)
  case (DH grp)
  then show ?thesis
    by (auto simp: kex_Client_def dh_Client_def dh_result_def Let_def kex_tags intro!: writes_simps dest!: Marshal_tag
      split: option.split)
next
  case (ECDH curve)
  then show ?thesis
    by (auto simp: kex_Client_def ecdh_Client_def ecdh_result_def Let_def kex_tags intro!: writes_simps dest!: Marshal_tag
      split: option.split sum.split)
qed

lemma method_writes_Server: "method_writes (kex_Server kex pr rnd magics cr priv)"
proof (cases kex)
  case (DH grp)
  then show ?thesis
    by (auto simp: kex_Server_def dh_Server_def dh_result_def Let_def kex_tags intro!: writes_simps method_writes_signAndMarshal
      dest!: Marshal_tag split: option.split)
next
  case (ECDH curve)
  then show ?thesis
    by (auto simp: kex_Server_def ecdh_Server_def ecdh_result_def Let_def kex_tags intro!: writes_simps method_writes_signAndMarshal
      dest!: Marshal_tag split: option.split sum.split)
qed

lemma method_writes_client: "method_writes (client pr rnd cr callback kex magics)"
  unfolding client_def
  by (rule method_writes_bind [OF method_writes_Client])
    (auto simp: checkHostKey_def intro!: writes_simps split: sum.split parsed.split option.split)

lemma method_writes_server: "method_writes (server pr rnd cr hostKeys kex algs magics)"
  unfolding server_def by (intro writes_simps method_writes_Server)

lemma closing_finish: "closing (finishExchange algs r)"
  by (auto simp: finishExchange_def split: sum.split list.split)

lemma closing_runKex: "closing (runKex hs rnd algs magics)"
  by (auto simp: runKex_def intro!: closing_bind closing_finish method_writes_client method_writes_server split: option.split)

lemma closing_enterKeyExchange: "closing (enterKeyExchange hs rnd myInit myInitPacket otherInitPacket)"
  by (auto simp: enterKeyExchange_def Let_def closing_runKex split: parsed.split option.split sum.split)

section \<open>The invariant\<close>

definition reader_ok :: "bool \<Rightarrow> bool \<Rightarrow> reader \<Rightarrow> bool" where
  "reader_ok k sent r =
     (case r of
        Exchanging m \<Rightarrow> sent \<and> (if k then closing m else silent m)
      | Leaving x \<Rightarrow> isl x \<or> \<not> k \<and> sent
      | _ \<Rightarrow> sent \<longrightarrow> k)"

definition hs_inv :: "handshakeTransport \<Rightarrow> bool" where
  "hs_inv t \<longleftrightarrow> disciplined False (kt_log (conn t)) \<and>
     (sentInit t = None \<longrightarrow> \<not> kt_closed (conn t) \<longrightarrow> \<not> under_way (kt_log (conn t))) \<and>
     reader_ok (under_way (kt_log (conn t))) (sentInit t \<noteq> None) (reader_at t) \<and>
     (sentInit t = None \<longrightarrow> (\<forall>i p. writers t i \<noteq> Some (Waiting p))) \<and>
     (writeError t = None \<longrightarrow> \<not> mu_locked t) \<and>
     (reader_at t \<noteq> Stopped \<longrightarrow> writeError t = None \<and> readError t = None) \<and>
     (\<not> kt_closed (conn t) \<longrightarrow> writeError t = None) \<and>
     (reader_at t = Stopped \<longrightarrow> readError t \<noteq> None) \<and> length (incoming t) \<le> chanCapacity"

lemma kt_write_cases:
  assumes "kt_write w c = (ok, c')"
  obtains "\<not> ok" "c' = c" | "ok" "\<not> kt_closed c" "c' = c\<lparr>kt_log := kt_log c @ [w], kt_writes := kt_writes c - 1\<rparr>"
proof (cases "kt_closed c \<or> kt_writes c = 0")
  case True
  then show ?thesis using assms that(1) by (simp add: kt_write_def)
next
  case False
  then show ?thesis using assms that(2) by (simp add: kt_write_def)
qed

lemma sendKexInitLocked_cases:
  assumes "sendKexInitLocked hs cookie t = Ran (m, t')"
  obtains "t' = t" "m = sentInit t"
  | msg packet c where "sentInit t = None" "\<not> kt_closed (conn t)" "packet \<noteq> []" "hd packet = 20"
      "c = (conn t)\<lparr>kt_log := kt_log (conn t) @ [InitPacket packet], kt_writes := kt_writes (conn t) - 1\<rparr>"
      "m = Some (msg, packet)" "t' = t\<lparr>conn := c, sentInit := m\<rparr>"
proof (cases "sentInit t")
  case (Some x)
  then show ?thesis using assms that(1) by (simp add: sendKexInitLocked_def)
next
  case None
  note s = assms [unfolded sendKexInitLocked_def None option.case]
  obtain msg where msg: "kexInit_values hs cookie = Inr msg" using s by (cases "kexInit_values hs cookie") simp_all
  obtain packet where packet: "Marshal kexInitMsg msg = Inr packet" using s msg by (cases "Marshal kexInitMsg msg") simp_all
  have mp: "Marshal kexInitMsg msg = Inr packet" "Ran (m, t') = (let (ok, c) = kt_write (InitPacket packet) (conn t) in
       Ran (if ok then (Some (msg, packet), t\<lparr>conn := c, sentInit := Some (msg, packet)\<rparr>) else (None, t\<lparr>conn := c\<rparr>)))"
    using s msg packet by simp_all
  have p: "packet \<noteq> []" "hd packet = 20" using Marshal_tag [OF mp(1)] by (simp_all add: kexInitMsg_def typeTag_def)
  obtain ok c where w: "kt_write (InitPacket packet) (conn t) = (ok, c)" by fastforce
  then show ?thesis
  proof (cases rule: kt_write_cases)
    case 1
    then show ?thesis using mp(2) w None that(1) by simp
  next
    case 2
    then show ?thesis using mp(2) w None p that(2) [of packet c msg] by simp
  qed
qed

lemma reader_ok_starts: "reader_ok False False r \<Longrightarrow> reader_ok True True r"
  by (auto simp: reader_ok_def split: reader.splits)

lemma inv_sendKexInitLocked:
  assumes inv: "hs_inv t" and s: "sendKexInitLocked hs cookie t = Ran (m, t')"
  shows "hs_inv t'"
  using s
proof (cases rule: sendKexInitLocked_cases)
  case 1
  then show ?thesis using inv by simp
next
  case (2 msg packet c)
  then have "\<not> under_way (kt_log (conn t))" using inv by (auto simp: hs_inv_def)
  moreover from this have "reader_ok True True (reader_at t)" using inv 2(1) by (intro reader_ok_starts) (simp add: hs_inv_def)
  ultimately show ?thesis using inv 2 by (simp add: hs_inv_def allowed_def changes_def)
qed

lemma sendKexInit_locked: "sendKexInit hs cookie t = Ran (m, t') \<longleftrightarrow> \<not> mu_locked t \<and> sendKexInitLocked hs cookie t = Ran (m, t')"
  by (simp add: sendKexInit_def)

lemma requestKeyChange_Ran:
  "requestKeyChange hs cookie t = Ran (ok, t') \<longleftrightarrow>
    \<not> mu_locked t \<and> (\<exists>m. sendKexInitLocked hs cookie t = Ran (m, t') \<and> ok = (m \<noteq> None))"
  by (auto simp: requestKeyChange_def and_then_Ran sendKexInit_locked)

lemma sendKexInitLocked_frame:
  "sendKexInitLocked hs cookie t = Ran (m, t') \<Longrightarrow> reader_at t' = reader_at t \<and> writers t' = writers t \<and>
    mu_locked t' = mu_locked t \<and> writeError t' = writeError t \<and> readError t' = readError t \<and> m = sentInit t'"
  by (erule sendKexInitLocked_cases) auto

lemma receive_Ran: "receive t = Ran (r, t') \<longleftrightarrow> (\<exists>rs. kt_in (conn t) = r # rs \<and> t' = t\<lparr>conn := (conn t)\<lparr>kt_in := rs\<rparr>\<rparr>)"
  by (auto simp: receive_def split: list.splits)

lemma inv_exchange:
  assumes inv: "hs_inv t" and r: "reader_at t = Exchanging m" and s: "exchange_step m t = Ran t'"
  shows "hs_inv t'"
proof (cases m)
  case (WritePacket p k)
  obtain ok c where w: "kt_write (KexPacket p) (conn t) = (ok, c)" by fastforce
  then have t': "t' = t\<lparr>conn := c, reader_at := Exchanging (k ok)\<rparr>" using s WritePacket by (simp add: exchange_step_def)
  have u: "under_way (kt_log (conn t))" "closing m" using inv r WritePacket by (auto simp: hs_inv_def reader_ok_def split: if_splits)
  from w show ?thesis
  proof (cases rule: kt_write_cases)
    case 1
    then show ?thesis using inv r t' u WritePacket by (simp add: hs_inv_def reader_ok_def)
  next
    case 2
    then show ?thesis using inv r t' u WritePacket
      by (simp add: hs_inv_def reader_ok_def allowed_def changes_def split: if_splits)
  qed
next
  case (Return r')
  then show ?thesis using inv r s by (auto simp: exchange_step_def hs_inv_def reader_ok_def split: if_splits)
next
  case (ReadPacket k)
  then obtain r' rs where "t' = t\<lparr>conn := (conn t)\<lparr>kt_in := rs\<rparr>, reader_at := Exchanging (k r')\<rparr>"
    using s by (auto simp: exchange_step_def and_then_Ran receive_Ran)
  then show ?thesis using inv r ReadPacket by (simp add: hs_inv_def reader_ok_def split: if_splits)
next
  case (PrepareKeyChange a x k)
  then have "t' = t\<lparr>conn := (conn t)\<lparr>kt_prepared := kt_prepared (conn t) @ [(a, x)]\<rparr>, reader_at := Exchanging k\<rparr>"
    using s by (simp add: exchange_step_def)
  then show ?thesis using inv r PrepareKeyChange by (simp add: hs_inv_def reader_ok_def split: if_splits)
qed (use s in \<open>simp add: exchange_step_def\<close>)

lemma inv_leave:
  assumes "hs_inv t" "reader_at t = Leaving r"
  shows "hs_inv (leaveExchange r t)"
  using assms
  by (cases r) (auto simp: leaveExchange_def Let_def hs_inv_def reader_ok_def stop_reading_def wake_def split: option.splits writer.splits)

lemma reading_cases:
  assumes "reader_step hs cookie rnd t = Ran t'" "reader_at t = Reading"
  obtains e t1 rs where "t1 = t\<lparr>conn := (conn t)\<lparr>kt_in := rs\<rparr>\<rparr>" "t' = stop_reading e t1"
  | p t1 rs n where "t1 = t\<lparr>conn := (conn t)\<lparr>kt_in := rs\<rparr>\<rparr>"
      "t' = t1\<lparr>readSinceKex := n, reader_at := (if hd p \<noteq> 20 then Delivering p else Entering p)\<rparr>"
proof (cases "kt_in (conn t)")
  case Nil
  then show ?thesis using assms by (simp add: reader_step_def receive_def)
next
  case (Cons r rs)
  note s = assms(1) [unfolded reader_step_def assms(2) reader.case receive_def Cons list.case and_then.simps prod.case]
  show ?thesis
  proof (cases r)
    case (Inl e)
    then show ?thesis using s that(1) [OF refl] by simp metis
  next
    case (Inr p)
    then show ?thesis using s that(2) [OF refl, where rs = rs and p = p] by (cases p) (auto simp: Let_def)
  qed
qed

lemma inv_reader:
  assumes inv: "hs_inv t" and s: "reader_step hs cookie rnd t = Ran t'"
  shows "hs_inv t'"
proof (cases "reader_at t")
  case AtTop
  show ?thesis
  proof (cases "readSinceKex t > tc_RekeyThreshold (hs_config hs)")
    case True
    then obtain m t1 where t1: "sendKexInitLocked hs cookie t = Ran (m, t1)"
      "t' = (if m \<noteq> None then t1\<lparr>reader_at := Reading\<rparr> else stop_reading WriteFailed t1)"
      using s AtTop by (auto simp: reader_step_def and_then_Ran requestKeyChange_Ran)
    show ?thesis using inv_sendKexInitLocked [OF inv t1(1)] sendKexInitLocked_frame [OF t1(1)] AtTop t1(2)
      by (auto simp: hs_inv_def reader_ok_def stop_reading_def)
  next
    case False
    then show ?thesis using s AtTop inv by (auto simp: reader_step_def hs_inv_def reader_ok_def)
  qed
next
  case Reading
  have inv1: "hs_inv (t\<lparr>conn := (conn t)\<lparr>kt_in := rs\<rparr>\<rparr>)" for rs using inv by (simp add: hs_inv_def)
  from s Reading show ?thesis
  proof (cases rule: reading_cases)
    case (1 e t1 rs)
    then show ?thesis using inv1 [of rs] Reading by (auto simp: hs_inv_def reader_ok_def stop_reading_def)
  next
    case (2 p t1 rs n)
    then show ?thesis using inv1 [of rs] Reading by (auto simp: hs_inv_def reader_ok_def)
  qed
next
  case (Entering p)
  then obtain m t1 where t1: "sendKexInitLocked hs cookie t = Ran (m, t1)"
    "t' = (case m of None \<Rightarrow> t1\<lparr>reader_at := Leaving (Inl WriteFailed)\<rparr>
       | Some (msg, packet) \<Rightarrow> t1\<lparr>reader_at := Exchanging (enterKeyExchange hs rnd msg packet p)\<rparr>)"
    using s by (auto simp: reader_step_def and_then_Ran sendKexInit_locked)
  show ?thesis using inv_sendKexInitLocked [OF inv t1(1)] sendKexInitLocked_frame [OF t1(1)] Entering t1(2)
    by (auto simp: hs_inv_def reader_ok_def closing_enterKeyExchange split: option.splits)
next
  case (Exchanging m)
  then show ?thesis using s inv_exchange [OF inv] by (simp add: reader_step_def)
next
  case (Leaving r)
  then show ?thesis using s inv_leave [OF inv Leaving] by (auto simp: reader_step_def split: if_splits)
next
  case (Delivering p)
  then show ?thesis using s inv by (auto simp: reader_step_def hs_inv_def reader_ok_def split: list.splits if_splits)
next
  case Stopped
  then show ?thesis using s by (simp add: reader_step_def)
qed

text \<open>What a call of \<open>writePacket\<close> does in its loop.\<close>

lemma writeLocked_cases:
  assumes "writeLocked i p t = Ran t'"
  obtains "sentInit t \<noteq> None" "t' = t\<lparr>writers := (writers t)(i \<mapsto> Waiting p)\<rparr>"
  | e where "sentInit t = None" "writeError t = Some e"
      "t' = t\<lparr>mu_locked := True, writers := (writers t)(i \<mapsto> Finished (WriteError e))\<rparr>"
  | c n r where "sentInit t = None" "writeError t = None" "c = conn t \<or> \<not> kt_closed (conn t) \<and> p \<noteq> [] \<and> hd p \<notin> {20, 21} \<and>
        c = (conn t)\<lparr>kt_log := kt_log (conn t) @ [AppPacket p], kt_writes := kt_writes (conn t) - 1\<rparr>"
      "t' = t\<lparr>writtenSinceKex := n, conn := c, writers := (writers t)(i \<mapsto> Finished r)\<rparr>"
proof (cases "sentInit t")
  case (Some x)
  then show ?thesis using assms that(1) by (simp add: writeLocked_def)
next
  case None
  note s = assms [unfolded writeLocked_def Let_def None]
  show ?thesis
  proof (cases "writeError t")
    case (Some e)
    then show ?thesis using s None that(2) by simp
  next
    case W: None
    then obtain b bs where p: "p = b # bs" using s by (cases p) simp_all
    show ?thesis
    proof (cases "b = 20 \<or> b = msgNewKeys")
      case True
      then show ?thesis using s None W p that(3) [of "conn t" OnlyTransport] by auto
    next
      case False
      obtain ok c where w: "kt_write (AppPacket p) (conn t) = (ok, c)" by fastforce
      from w show ?thesis
        by (cases rule: kt_write_cases) (use s None W p w False that(3) [of c] in \<open>auto simp: msgNewKeys_def\<close>)
    qed
  qed
qed

lemma inv_writeLocked:
  assumes inv: "hs_inv t" and s: "writeLocked i p t = Ran t'"
  shows "hs_inv t'"
  using s
proof (cases rule: writeLocked_cases)
  case 1
  then show ?thesis using inv by (simp add: hs_inv_def)
next
  case (2 e)
  then show ?thesis using inv by (auto simp: hs_inv_def)
next
  case (3 c n r)
  then consider "c = conn t" | "\<not> under_way (kt_log (conn t))" "\<not> kt_closed (conn t)" "p \<noteq> []" "hd p \<notin> {20, 21}"
      "c = (conn t)\<lparr>kt_log := kt_log (conn t) @ [AppPacket p], kt_writes := kt_writes (conn t) - 1\<rparr>"
    using inv by (auto simp: hs_inv_def)
  then show ?thesis
    by cases (use inv 3 in \<open>simp_all add: hs_inv_def allowed_def changes_def\<close>)
qed

lemma inv_writer:
  assumes inv: "hs_inv t" and s: "writer_step hs cookie i t = Ran t'"
  shows "hs_inv t'"
proof -
  obtain p t1 where "hs_inv t1" "writeLocked i p t1 = Ran t'"
    using s inv that by (auto simp: writer_step_def and_then_Ran split: option.splits writer.splits if_splits
      dest: inv_sendKexInitLocked)
  then show ?thesis by (rule inv_writeLocked)
qed

lemma inv_step: "hs_step hs t t' \<Longrightarrow> hs_inv t \<Longrightarrow> hs_inv t'"
proof (induction rule: hs_step.induct)
  case (read_step cookie rnd t t')
  then show ?case by (simp add: inv_reader)
next
  case (write_step cookie i t t')
  then show ?case by (simp add: inv_writer)
next
  case (call_write t i p)
  then show ?case by (simp add: hs_inv_def)
next
  case (call_request cookie t ok t')
  then show ?case by (auto simp: requestKeyChange_Ran dest: inv_sendKexInitLocked)
next
  case (call_read t r t')
  then have "t' = t \<or> (\<exists>p ps. incoming t = p # ps \<and> t' = t\<lparr>incoming := ps\<rparr>)"
    by (cases "incoming t") (simp_all add: hs_readPacket_def split: if_splits)
  then show ?case using call_read by (elim disjE exE conjE) (simp_all add: hs_inv_def)
next
  case (call_close t)
  then show ?case by (simp add: close_transport_def hs_inv_def)
next
  case (peer_sends t r)
  then show ?case by (simp add: hs_inv_def)
qed

lemma inv_new: "kt_log c = [] \<Longrightarrow> hs_inv (newHandshakeTransport c)"
  by (simp add: newHandshakeTransport_def hs_inv_def reader_ok_def under_way_def)

lemma inv_reachable:
  assumes "hs_reachable hs (newHandshakeTransport c) t" "kt_log c = []"
  shows "hs_inv t"
  using assms by (induction rule: rtranclp_induct) (auto intro: inv_new inv_step)

section \<open>Calls that never return\<close>

text \<open>With the mutex held for good nothing that takes it goes on.\<close>

lemma locked_writer: "mu_locked t \<Longrightarrow> writer_step hs cookie i t = Blocks"
  by (auto simp: writer_step_def split: option.split writer.split)

lemma exchange_step_frame: "exchange_step m t = Ran t' \<Longrightarrow> mu_locked t' = mu_locked t \<and> writers t' = writers t"
  by (cases m) (auto simp: exchange_step_def and_then_Ran receive_Ran Let_def split: prod.splits)

lemma locked_reader:
  assumes "reader_step hs cookie rnd t = Ran t'" "mu_locked t"
  shows "mu_locked t' \<and> writers t' = writers t"
proof (cases "reader_at t")
  case AtTop
  then show ?thesis using assms
    by (simp add: reader_step_def requestKeyChange_def sendKexInit_def split: if_splits) auto
next
  case Reading
  from assms(1) Reading show ?thesis by (cases rule: reading_cases) (use assms(2) in \<open>simp_all add: stop_reading_def\<close>)
next
  case (Exchanging m)
  then show ?thesis using assms exchange_step_frame [of m t t'] by (simp add: reader_step_def)
next
  case (Delivering p)
  then show ?thesis using assms by (auto simp: reader_step_def split: list.splits if_splits)
qed (use assms in \<open>simp_all add: reader_step_def sendKexInit_def\<close>)

lemma locked_step:
  assumes "hs_step hs t t'" "mu_locked t"
  shows "mu_locked t' \<and> (\<forall>i r. writers t' i = Some (Finished r) \<longrightarrow> writers t i = Some (Finished r))"
  using assms
proof (induction rule: hs_step.induct)
  case (read_step cookie rnd t t')
  then show ?case by (simp add: locked_reader)
next
  case (write_step cookie i t t')
  then show ?case by (simp add: locked_writer)
next
  case (call_request cookie t ok t')
  then show ?case by (simp add: requestKeyChange_Ran)
next
  case (call_read t r t')
  then show ?case by (auto simp: hs_readPacket_def split: list.splits if_splits)
qed (auto simp: close_transport_def)

lemma locked_reachable:
  assumes "hs_reachable hs t t'" "mu_locked t"
  shows "mu_locked t' \<and> (\<forall>i r. writers t' i = Some (Finished r) \<longrightarrow> writers t i = Some (Finished r))"
  using assms
proof (induction rule: rtranclp_induct)
  case (step t1 t2)
  then show ?case using locked_step [OF step.hyps(2)] by blast
qed simp

text \<open>With the reader gone, nobody ends the exchange that was announced.\<close>

definition stranded :: "handshakeTransport \<Rightarrow> bool" where
  "stranded t \<longleftrightarrow> reader_at t = Stopped \<and> sentInit t \<noteq> None"

lemma stranded_write: "stranded t \<Longrightarrow> writeLocked i p t = Ran (t\<lparr>writers := (writers t)(i \<mapsto> Waiting p)\<rparr>)"
  by (auto simp: stranded_def writeLocked_def)

lemma stranded_request: "stranded t \<Longrightarrow> sendKexInitLocked hs cookie t = Ran (sentInit t, t)"
  by (auto simp: stranded_def sendKexInitLocked_def)

lemma stranded_step:
  assumes "hs_step hs t t'" "stranded t"
  shows "stranded t' \<and> (\<forall>i r. writers t' i = Some (Finished r) \<longrightarrow> writers t i = Some (Finished r))"
  using assms
proof (induction rule: hs_step.induct)
  case (read_step cookie rnd t t')
  then show ?case by (simp add: reader_step_def stranded_def)
next
  case (write_step cookie i t t')
  then obtain p where "t' = t\<lparr>writers := (writers t)(i \<mapsto> Waiting p)\<rparr>"
    by (auto simp: writer_step_def and_then_Ran stranded_write stranded_request split: option.splits writer.splits if_splits)
  then show ?case using write_step by (auto simp: stranded_def)
next
  case (call_request cookie t ok t')
  then show ?case by (auto simp: requestKeyChange_Ran stranded_request)
next
  case (call_read t r t')
  then show ?case by (auto simp: hs_readPacket_def stranded_def split: list.splits if_splits)
qed (auto simp: close_transport_def stranded_def)

lemma stranded_reachable:
  assumes "hs_reachable hs t t'" "stranded t"
  shows "stranded t' \<and> (\<forall>i r. writers t' i = Some (Finished r) \<longrightarrow> writers t i = Some (Finished r))"
  using assms
proof (induction rule: rtranclp_induct)
  case (step t1 t2)
  then show ?case using stranded_step [OF step.hyps(2)] by blast
qed simp

section \<open>Two ends that agree\<close>

lemma map_sum_id_Inr: "map_sum id f x = Inr y \<longleftrightarrow> (\<exists>z. x = Inr z \<and> y = f z)"
  by (cases x) auto

text \<open>A server finds a host key of every algorithm it has announced.\<close>

lemma pickHostKey_announced:
  "keyTypes ks = Inr ts \<Longrightarrow> algo \<in> set ts \<or> h \<noteq> None \<Longrightarrow>
    \<exists>k. pickHostKey algo h ks = Inr (Some k) \<and> (k \<in> set ks \<or> h = Some k)"
proof (induction ks arbitrary: ts h)
  case (Cons a ks)
  then obtain t ts' where t: "KeyType (sg_PublicKey a) = Inr t" "keyTypes ks = Inr ts'" "ts = t # ts'"
    by (auto simp: bind_sum_Inr map_sum_id_Inr)
  define h1 where "h1 = (if algo = t then Some a else h)"
  have "algo \<in> set ts' \<or> h1 \<noteq> None" using Cons.prems(2) t(3) by (auto simp: h1_def)
  from Cons.IH [OF t(2) this] obtain k where "pickHostKey algo h1 ks = Inr (Some k)" "k \<in> set ks \<or> h1 = Some k" by blast
  then show ?case using t(1) by (auto simp: h1_def split: if_splits)
qed auto

lemma findCommonAlgorithm_in: "findCommonAlgorithm cs ss = Some a \<Longrightarrow> a \<in> set cs \<and> a \<in> set ss"
  by (induction cs) (auto split: if_splits)

lemma agreed_in:
  assumes "findAgreedAlgorithms modes c s = Some algs"
  shows "al_kex algs \<in> set (KexAlgos c)" "al_hostKey algs \<in> set (ServerHostKeyAlgos s)"
  using assms by (auto simp: findAgreedAlgorithms_def bind_eq_Some_conv dest!: findCommonAlgorithm_in)

lemma kexAlgoMap_supported: "name \<in> set supportedKexAlgos \<Longrightarrow> \<exists>kex. kexAlgoMap curves name = Some kex"
  by (auto simp: supportedKexAlgos_def kexAlgoMap_def)

text \<open>What a \<open>KEXINIT\<close> holds.\<close>

lemma kexInit_shape:
  assumes "kexInit_values hs cookie = Inr vs"
  obtains ts where "KexAlgos vs = names_of (tc_KeyExchanges (hs_config hs))" "ServerHostKeyAlgos vs = ts" "\<not> bool_at vs 11"
    "(if hs_hostKeys hs \<noteq> [] then keyTypes (hs_hostKeys hs) else Inr supportedHostKeyAlgos) = Inr ts"
proof -
  obtain ts where ts: "(if hs_hostKeys hs \<noteq> [] then keyTypes (hs_hostKeys hs) else Inr supportedHostKeyAlgos) = Inr ts"
    using assms unfolding kexInit_values_def by (cases "if hs_hostKeys hs \<noteq> [] then keyTypes (hs_hostKeys hs) else Inr supportedHostKeyAlgos") simp_all
  then show ?thesis using assms that [of ts] by (auto simp: kexInit_values_def names_at_def bool_at_def)
qed

lemma kexInit_inverse:
  assumes "values_ok kexInitMsg vs" "Marshal kexInitMsg vs = Inr packet" "length packet \<le> 2 ^ 32"
  shows "Unmarshal packet kexInitMsg = Parsed vs"
  by (rule message_inverse [of kexInitMsg vs]) (use assms in \<open>simp_all add: rest_last_def kexInitMsg_def typeTag_def\<close>)

abbreviation "eleven \<equiv> Suc (Suc (Suc (Suc (Suc (Suc five)))))"

lemma dialogue_finish:
  assumes "dialogue c s res"
  shows "talk eleven (bind_prog c (finishExchange algs)) (bind_prog s (finishExchange algs)) [] [] =
    Some ((Inr (), [(algs, res)]), (Inr (), [(algs, res)]))"
  using assms by (auto simp: dialogue_def talk_steps finishExchange_def msgNewKeys_def)

text \<open>Two ends that were made for each other: the same cryptography and version lines, one a client and one a server.\<close>

definition opposite :: "'s handshakeConfig \<Rightarrow> 's handshakeConfig \<Rightarrow> bool" where
  "opposite c s \<longleftrightarrow> hs_hostKeys c = [] \<and> hs_hostKeys s \<noteq> [] \<and> hs_prims c = hs_prims s \<and> hs_crypto c = hs_crypto s \<and>
     hs_curves c = hs_curves s \<and> hs_clientVersion c = hs_clientVersion s \<and> hs_serverVersion c = hs_serverVersion s"

text \<open>A \<open>KEXINIT\<close> message and its packet, which the other end can read.\<close>

definition init_of :: "'s handshakeConfig \<Rightarrow> bytes \<Rightarrow> fval list \<Rightarrow> bytes \<Rightarrow> bool" where
  "init_of hs cookie vs packet \<longleftrightarrow> kexInit_values hs cookie = Inr vs \<and> values_ok kexInitMsg vs \<and>
     Marshal kexInitMsg vs = Inr packet \<and> length packet \<le> 2 ^ 32"

text \<open>A \<open>KEXINIT\<close> whose lists are not too long can be written and read.\<close>

definition names_fit :: "bytes list \<Rightarrow> bool" where
  "names_fit ns \<longleftrightarrow> names_ok ns \<and> length (joinNames ns) < 2 ^ 16"

lemma length_marshalNames: "length (marshalNames out ns) = length out + 4 + length (joinNames ns)"
  by (simp add: marshalNames_eq)

lemma init_of_fits:
  assumes "(if hs_hostKeys hs \<noteq> [] then keyTypes (hs_hostKeys hs) else Inr supportedHostKeyAlgos) = Inr ts"
    and "length cookie = 16" "names_fit (names_of (tc_KeyExchanges (hs_config hs)))" "names_fit ts"
    "names_fit (names_of (tc_Ciphers (hs_config hs)))" "names_fit (names_of (tc_MACs (hs_config hs)))"
    and vs: "kexInit_values hs cookie = Inr vs"
  shows "\<exists>packet. init_of hs cookie vs packet"
proof -
  have e: "vs = [VBytes cookie, VNames (names_of (tc_KeyExchanges (hs_config hs))), VNames ts,
      VNames (names_of (tc_Ciphers (hs_config hs))), VNames (names_of (tc_Ciphers (hs_config hs))),
      VNames (names_of (tc_MACs (hs_config hs))), VNames (names_of (tc_MACs (hs_config hs))),
      VNames supportedCompressions, VNames supportedCompressions, VNames [], VNames [], VBool False, VU32 0]"
    using assms(1) vs by (auto simp: kexInit_values_def)
  have c: "names_fit supportedCompressions" by (simp add: names_fit_def names_ok_def supportedCompressions_def compressionNone_def bytes_of_def)
  have ok: "values_ok kexInitMsg vs"
    using assms c by (simp add: e values_ok_def kexInitMsg_def typed_def value_ok_def names_fit_def names_ok_def)
  obtain packet where p: "Marshal kexInitMsg vs = Inr packet"
    by (rule message_inverse [OF ok]) (simp_all add: kexInitMsg_def rest_last_def typeTag_def)
  have "length packet = 62 + length (joinNames (names_of (tc_KeyExchanges (hs_config hs)))) + length (joinNames ts) +
      2 * length (joinNames (names_of (tc_Ciphers (hs_config hs)))) + 2 * length (joinNames (names_of (tc_MACs (hs_config hs)))) +
      2 * length (joinNames supportedCompressions)"
    using p assms(2) by (auto simp: e kexInitMsg_def Marshal_def marshalStruct_def typeTag_def length_marshalNames marshalField_def appendU32_def)
  then have "length packet \<le> 2 ^ 32" using assms(3-6) c by (simp add: names_fit_def)
  with vs ok p show ?thesis by (auto simp: init_of_def)
qed

lemma both_ends:
  assumes o: "opposite c s" and ic: "init_of c cookie1 mc pc" and js: "init_of s cookie2 ms ps"
    and algs: "findAgreedAlgorithms (modes_of (hs_prims s)) mc ms = Some algs"
    and kexes: "set (names_of (tc_KeyExchanges (hs_config c))) \<subseteq> set supportedKexAlgos"
    and rnd: "\<And>name kex. kexAlgoMap (hs_curves s) name = Some kex \<Longrightarrow> random_ok kex rc rs"
    and keys: "\<forall>k \<in> set (hs_hostKeys s). signer_ok (hs_crypto s) k \<and>
        (case hs_hostKeyCallback c of None \<Rightarrow> True | Some f \<Rightarrow> f (sg_PublicKey k) = None)"
  shows "\<exists>res. talk eleven (enterKeyExchange c rc mc pc ps) (enterKeyExchange s rs ms ps pc) [] [] =
    Some ((Inr (), [(algs, res)]), (Inr (), [(algs, res)]))"
proof -
  obtain ts where mc: "KexAlgos mc = names_of (tc_KeyExchanges (hs_config c))" "\<not> bool_at mc 11"
    using ic kexInit_shape [of c cookie1 mc] by (auto simp: init_of_def)
  obtain ts where ms: "ServerHostKeyAlgos ms = ts" "\<not> bool_at ms 11" "keyTypes (hs_hostKeys s) = Inr ts"
    using js kexInit_shape [of s cookie2 ms] o by (auto simp: init_of_def opposite_def split: if_splits)
  obtain kex where kex: "kexAlgoMap (hs_curves s) (al_kex algs) = Some kex"
    using agreed_in(1) [OF algs] mc(1) kexes kexAlgoMap_supported by (metis subsetD)
  obtain k where k: "pickHostKey (al_hostKey algs) None (hs_hostKeys s) = Inr (Some k)" "k \<in> set (hs_hostKeys s)"
    using pickHostKey_announced [OF ms(3), of "al_hostKey algs" None] agreed_in(2) [OF algs] ms(1) by auto
  define magics where "magics = \<lparr>hm_clientVersion = hs_clientVersion s, hm_serverVersion = hs_serverVersion s,
    hm_clientKexInit = pc, hm_serverKexInit = ps\<rparr>"
  obtain res where d: "dialogue (client (hs_prims s) rc (hs_crypto s) (hs_hostKeyCallback c) kex magics)
      (server (hs_prims s) rs (hs_crypto s) (hs_hostKeys s) kex algs magics) res"
    using exchange_talk [OF kex rnd [OF kex] _ k(1), of "hs_crypto s" "hs_hostKeyCallback c"] keys k(2) by blast
  have u: "Unmarshal pc kexInitMsg = Parsed mc" "Unmarshal ps kexInitMsg = Parsed ms"
    using ic js kexInit_inverse by (auto simp: init_of_def)
  have "enterKeyExchange c rc mc pc ps = bind_prog (client (hs_prims s) rc (hs_crypto s) (hs_hostKeyCallback c) kex magics)
      (finishExchange algs)"
    using u(2) o algs kex ms(2) by (simp add: enterKeyExchange_def Let_def opposite_def runKex_def magics_def)
  moreover have "enterKeyExchange s rs ms ps pc = bind_prog (server (hs_prims s) rs (hs_crypto s) (hs_hostKeys s) kex algs magics)
      (finishExchange algs)"
    using u(1) o algs kex mc(2) by (simp add: enterKeyExchange_def Let_def opposite_def runKex_def magics_def)
  ultimately show ?thesis using dialogue_finish [OF d] by auto
qed

section \<open>Concrete runs\<close>

text \<open>A server, and the packets of a client that exchanges keys.\<close>

definition small_curve :: ecdh where
  "small_curve = \<lparr>ec_BitSize = 256, ec_P = 9, ec_Marshal = (\<lambda>x y. [4]),
     ec_Unmarshal = (\<lambda>b. if b = [4] then Some (2, 3) else None), ec_IsOnCurve = (\<lambda>x y. True), ec_ScalarMult = (\<lambda>x y d. 5)\<rparr>"

definition curve_random :: kex_random where
  "curve_random = \<lparr>rnd_Int = (\<lambda>p. None), rnd_Key = (\<lambda>c. Some ([1], 2, 3))\<rparr>"

definition small_hs :: "unit handshakeConfig" where
  "small_hs = \<lparr>hs_prims = small_prims, hs_crypto = kex_crypto, hs_curves = (\<lambda>c. small_curve),
     hs_config = \<lparr>tc_Rand = Some (), tc_RekeyThreshold = 256, tc_KeyExchanges = Some [kexAlgoECDH256],
       tc_Ciphers = Some [bytes_of ''aes128-ctr''], tc_MACs = Some [bytes_of ''hmac-sha1'']\<rparr>,
     hs_serverVersion = [83], hs_clientVersion = [67], hs_hostKeys = [small_signer], hs_hostKeyCallback = None\<rparr>"

text \<open>A client for this server.\<close>

definition small_client :: "unit handshakeConfig" where
  "small_client = small_hs\<lparr>hs_hostKeys := []\<rparr>"

definition both_random :: kex_random where
  "both_random = \<lparr>rnd_Int = (\<lambda>p. Some 5), rnd_Key = (\<lambda>c. Some ([1], 2, 3))\<rparr>"

lemma names_fit_small: "names_fit [KeyAlgoRSA]" "names_fit [kexAlgoECDH256]" "names_fit [bytes_of ''aes128-ctr'']"
  "names_fit [bytes_of ''hmac-sha1'']" "names_fit supportedCompressions"
  by (simp_all add: names_fit_def names_ok_def bytes_of_def supportedCompressions_def compressionNone_def algo_defs kexAlgoECDH256_def)

lemma names_fit_hostKeys: "names_fit supportedHostKeyAlgos"
  by (simp add: names_fit_def names_ok_def bytes_of_def supportedHostKeyAlgos_def algo_defs kexAlgoECDH256_def)

lemma small_init: "\<exists>mc pc ms ps. init_of small_client (replicate 16 0) mc pc \<and> init_of small_hs (replicate 16 1) ms ps \<and>
   (\<exists>algs. findAgreedAlgorithms (modes_of small_prims) mc ms = Some algs \<and> al_w algs = al_r algs)"
proof -
  have s: "keyTypes [small_signer] = Inr [KeyAlgoRSA]" by code_simp
  obtain mc where mc: "kexInit_values small_client (replicate 16 0) = Inr mc" by (simp add: kexInit_values_def small_client_def)
  obtain ms where ms: "kexInit_values small_hs (replicate 16 1) = Inr ms" using s by (simp add: kexInit_values_def small_hs_def)
  obtain pc where pc: "init_of small_client (replicate 16 0) mc pc"
    using init_of_fits [OF _ _ _ _ _ _ mc, of supportedHostKeyAlgos] by (auto simp: small_client_def small_hs_def names_of_def names_fit_small names_fit_hostKeys)
  obtain ps where ps: "init_of small_hs (replicate 16 1) ms ps"
    using init_of_fits [OF _ _ _ _ _ _ ms, of "[KeyAlgoRSA]"] s by (auto simp: small_hs_def names_of_def names_fit_small)
  have "case (kexInit_values small_client (replicate 16 0), kexInit_values small_hs (replicate 16 1)) of (Inr mc, Inr ms) \<Rightarrow>
     (case findAgreedAlgorithms (modes_of small_prims) mc ms of Some a \<Rightarrow> al_w a = al_r a | None \<Rightarrow> False) | _ \<Rightarrow> False"
    by code_simp
  with mc ms pc ps show ?thesis by (auto split: option.splits)
qed

lemma both_random_ok: "kexAlgoMap (\<lambda>c. small_curve) name = Some kex \<Longrightarrow> random_ok kex both_random both_random"
  by (auto simp: kexAlgoMap_def random_ok_def both_random_def ecdh_ok_def validateECPublicKey_def small_curve_def split: if_splits)

definition packet_of :: "struct_type \<Rightarrow> fval list \<Rightarrow> bytes" where
  "packet_of t vs = (case Marshal t vs of Inr b \<Rightarrow> b | _ \<Rightarrow> [])"

definition client_packets :: "(string + bytes) list" where
  "client_packets =
     [Inr (packet_of kexInitMsg
        [VBytes (replicate 16 0), VNames [kexAlgoECDH256], VNames [KeyAlgoRSA], VNames [bytes_of ''aes128-ctr''],
         VNames [bytes_of ''aes128-ctr''], VNames [bytes_of ''hmac-sha1''], VNames [bytes_of ''hmac-sha1''],
         VNames supportedCompressions, VNames supportedCompressions, VNames [], VNames [], VBool False, VU32 0]),
      Inr (packet_of kexECDHInitMsg [VBytes [4]]), Inr [21]]"

definition small_kt :: "(string + bytes) list \<Rightarrow> keyingTransport" where
  "small_kt rs = \<lparr>kt_in = rs, kt_log = [], kt_writes = 9, kt_closed = False, kt_prepared = []\<rparr>"

fun read_run :: "nat \<Rightarrow> handshakeTransport \<Rightarrow> handshakeTransport step" where
  "read_run 0 t = Ran t"
| "read_run (Suc n) t = and_then (reader_step small_hs (replicate 16 0) curve_random t) (read_run n)"

text \<open>Steps of the reader, a key change that is asked for, a call of \<open>writePacket\<close>, and more steps of the reader.\<close>

definition small_run :: "nat \<Rightarrow> nat \<Rightarrow> (string + bytes) list \<Rightarrow> handshakeTransport step" where
  "small_run m n rs =
     and_then (read_run m (newHandshakeTransport (small_kt rs))) (\<lambda>t.
     and_then (requestKeyChange small_hs (replicate 16 0) t) (\<lambda>(ok, t).
     and_then (if writers t 1 = None then Ran (t\<lparr>writers := (writers t)(1 \<mapsto> Entered [5, 5])\<rparr>) else Blocks) (\<lambda>t.
     and_then (writer_step small_hs [] 1 t) (read_run n))))"

lemma read_run_reachable: "read_run n t = Ran t' \<Longrightarrow> hs_reachable small_hs t t'"
proof (induction n arbitrary: t)
  case (Suc n)
  then obtain t1 where "reader_step small_hs (replicate 16 0) curve_random t = Ran t1" "read_run n t1 = Ran t'"
    by (auto simp: and_then_Ran)
  then show ?case using Suc.IH [of t1] by (meson converse_rtranclp_into_rtranclp hs_step.read_step)
qed simp

lemma small_run_reachable:
  assumes "small_run m n rs = Ran t'"
  shows "hs_reachable small_hs (newHandshakeTransport (small_kt rs)) t'"
proof -
  let ?call = "\<lambda>t. t\<lparr>writers := (writers t)(1 \<mapsto> Entered [5, 5])\<rparr>"
  obtain t1 ok t2 t3 where r: "read_run m (newHandshakeTransport (small_kt rs)) = Ran t1"
    "requestKeyChange small_hs (replicate 16 0) t1 = Ran (ok, t2)" "writers t2 1 = None"
    "writer_step small_hs [] 1 (?call t2) = Ran t3" "read_run n t3 = Ran t'"
    using assms by (auto simp: small_run_def and_then_Ran split: if_splits)
  have "hs_reachable small_hs (newHandshakeTransport (small_kt rs)) t2"
    using read_run_reachable [OF r(1)] hs_step.call_request [OF r(2)] by (rule rtranclp.rtrancl_into_rtrancl)
  then have "hs_reachable small_hs (newHandshakeTransport (small_kt rs)) (?call t2)"
    using hs_step.call_write [where hs = small_hs and p = "[5, 5]", OF r(3)] by (rule rtranclp.rtrancl_into_rtrancl)
  then have "hs_reachable small_hs (newHandshakeTransport (small_kt rs)) t3"
    using hs_step.write_step [OF r(4)] by (rule rtranclp.rtrancl_into_rtrancl)
  then show ?thesis using read_run_reachable [OF r(5)] by (rule rtranclp_trans)
qed

text \<open>An exchange, a \<open>KEXINIT\<close> that is cut off, and an error of reading.\<close>

lemma small_exchanged:
  "(case small_run 3 6 client_packets of
      Ran t \<Rightarrow> (case reader_at t of Leaving (Inr u) \<Rightarrow> True | _ \<Rightarrow> False) \<and>
        (case writers t 1 of Some (Waiting p) \<Rightarrow> p = [5, 5] | _ \<Rightarrow> False) \<and> \<not> kt_closed (conn t) \<and> 0 < kt_writes (conn t)
    | _ \<Rightarrow> False)"
  by code_simp

lemma small_failed:
  "(case small_run 3 2 [Inr [20]] of
      Ran t \<Rightarrow> writeError t \<noteq> None \<and> sentInit t = None \<and> \<not> mu_locked t \<and>
        (case writers t 1 of Some (Woken p) \<Rightarrow> True | _ \<Rightarrow> False)
    | _ \<Rightarrow> False)"
  by code_simp

lemma small_waiting:
  "(case small_run 1 0 [Inl []] of
      Ran t \<Rightarrow> sentInit t \<noteq> None \<and> (case reader_at t of Reading \<Rightarrow> True | _ \<Rightarrow> False) \<and>
        (case kt_in (conn t) of Inl e # rs \<Rightarrow> e = [] | _ \<Rightarrow> False) \<and> (case writers t 1 of Some (Waiting p) \<Rightarrow> True | _ \<Rightarrow> False)
    | _ \<Rightarrow> False)"
  by code_simp

section \<open>Properties\<close>

text \<open>C27: in every state that the goroutines of a new transport can reach, whatever the peer sends and however they are
  interleaved: between a \<open>KEXINIT\<close> and the \<open>NEWKEYS\<close> that ends the exchange nothing is written but messages of the
  exchange, and no packet of the application is a \<open>KEXINIT\<close> or \<open>NEWKEYS\<close>; and a writer that waits for the condition
  waits while the \<open>KEXINIT\<close> is outstanding, so no wake-up is lost.\<close>

theorem handshake_discipline:
  assumes "hs_reachable hs (newHandshakeTransport c) t" "kt_log c = []"
  shows "disciplined False (kt_log (conn t)) \<and> (\<forall>i p. writers t i = Some (Waiting p) \<longrightarrow> sentInit t \<noteq> None)"
  using inv_reachable [OF assms] by (auto simp: hs_inv_def)

theorem handshake_discipline_witness:
  "\<exists>t. hs_reachable small_hs (newHandshakeTransport (small_kt client_packets)) t \<and> disciplined False (kt_log (conn t)) \<and>
    reader_at t = Leaving (Inr ()) \<and> sentInit t \<noteq> None"
proof -
  obtain t where t: "small_run 3 6 client_packets = Ran t" "reader_at t = Leaving (Inr ())" "writers t 1 = Some (Waiting [5, 5])"
    using small_exchanged by (auto split: step.splits reader.splits sum.splits option.splits writer.splits)
  note r = small_run_reachable [OF t(1)]
  show ?thesis using handshake_discipline [OF r] r t by (auto simp: small_kt_def)
qed

text \<open>When an exchange has ended without an error, in a state that the goroutines can reach, the section that ends
  it can run, and after it every call of \<open>writePacket\<close> that was waiting can go on and write its packet.\<close>

theorem exchange_releases_writers:
  assumes "hs_reachable hs (newHandshakeTransport c) t" "kt_log c = []"
    and "reader_at t = Leaving (Inr ())" "writers t i = Some (Waiting p)"
    and "p \<noteq> []" "hd p \<notin> {20, 21}" "\<not> kt_closed (conn t)" "0 < kt_writes (conn t)"
  shows "\<exists>t1 t2. reader_step hs cookie rnd t = Ran t1 \<and> writer_step hs cookie i t1 = Ran t2 \<and>
    writers t2 i = Some (Finished Written) \<and> kt_log (conn t2) = kt_log (conn t) @ [AppPacket p]"
proof -
  have inv: "writeError t = None" "\<not> mu_locked t" using inv_reachable [OF assms(1,2)] assms(3) by (simp_all add: hs_inv_def)
  obtain b bs where p: "p = b # bs" using assms(5) by (cases p) simp_all
  show ?thesis using assms inv p
    by (simp add: reader_step_def leaveExchange_def Let_def wake_def writer_step_def writeLocked_def kt_write_def msgNewKeys_def)
qed

theorem exchange_releases_writers_witness:
  "\<exists>t t1 t2. hs_reachable small_hs (newHandshakeTransport (small_kt client_packets)) t \<and>
    reader_step small_hs [] curve_random t = Ran t1 \<and> writer_step small_hs [] 1 t1 = Ran t2 \<and>
    writers t2 1 = Some (Finished Written)"
proof -
  obtain t where t: "small_run 3 6 client_packets = Ran t" "reader_at t = Leaving (Inr ())" "writers t 1 = Some (Waiting [5, 5])"
    "\<not> kt_closed (conn t)" "0 < kt_writes (conn t)"
    using small_exchanged by (auto split: step.splits reader.splits sum.splits option.splits writer.splits)
  note r = small_run_reachable [OF t(1)]
  have "kt_log (small_kt client_packets) = []" by (simp add: small_kt_def)
  from exchange_releases_writers [OF r this t(2,3) _ _ t(4,5), of "[]" curve_random] show ?thesis using r by fastforce
qed

text \<open>After an exchange has failed, the first call of \<open>writePacket\<close> that goes on returns the error and leaves the
  mutex locked: in every later state no other call of \<open>writePacket\<close> has returned, and \<open>requestKeyChange\<close> waits for
  ever.\<close>

theorem write_error_keeps_mutex:
  assumes "writeError t = Some e" "sentInit t = None" "\<not> mu_locked t" "writers t i = Some (Woken p)"
  shows "\<exists>t1. writer_step hs cookie i t = Ran t1 \<and> writers t1 i = Some (Finished (WriteError e)) \<and>
    (\<forall>t2 j r cookie'. hs_reachable hs t1 t2 \<longrightarrow> (j \<noteq> i \<longrightarrow> writers t2 j = Some (Finished r) \<longrightarrow> writers t j = Some (Finished r)) \<and>
      requestKeyChange hs cookie' t2 = Blocks)"
proof -
  let ?t1 = "t\<lparr>mu_locked := True, writers := (writers t)(i \<mapsto> Finished (WriteError e))\<rparr>"
  have "writer_step hs cookie i t = Ran ?t1" using assms by (simp add: writer_step_def writeLocked_def)
  moreover have "mu_locked t2 \<and> (\<forall>j r. writers t2 j = Some (Finished r) \<longrightarrow> writers ?t1 j = Some (Finished r))"
    if "hs_reachable hs ?t1 t2" for t2
    by (rule locked_reachable [OF that]) simp
  ultimately show ?thesis by (fastforce simp: requestKeyChange_def sendKexInit_def)
qed

theorem write_error_keeps_mutex_witness:
  "\<exists>t t1 e. hs_reachable small_hs (newHandshakeTransport (small_kt [Inr [20]])) t \<and> writer_step small_hs [] 1 t = Ran t1 \<and>
    writers t1 1 = Some (Finished (WriteError e)) \<and> requestKeyChange small_hs [] t1 = Blocks"
proof -
  obtain t e p where t: "small_run 3 2 [Inr [20]] = Ran t" "writeError t = Some e" "sentInit t = None" "\<not> mu_locked t"
    "writers t 1 = Some (Woken p)"
    using small_failed by (auto split: step.splits option.splits writer.splits)
  from write_error_keeps_mutex [OF t(2-5), of small_hs "[]"] show ?thesis using small_run_reachable [OF t(1)] by blast
qed

text \<open>If reading fails while a \<open>KEXINIT\<close> is outstanding, the loop that reads ends, and from then on no call of
  \<open>writePacket\<close> returns.\<close>

theorem read_error_strands_writers:
  assumes "reader_at t = Reading" "kt_in (conn t) = Inl e # rs" "sentInit t \<noteq> None"
  shows "\<exists>t1. reader_step hs cookie rnd t = Ran t1 \<and> readError t1 = Some (ReadFailed e) \<and>
    (\<forall>t2 i r. hs_reachable hs t1 t2 \<longrightarrow> writers t2 i = Some (Finished r) \<longrightarrow> writers t i = Some (Finished r))"
proof -
  let ?t1 = "stop_reading (ReadFailed e) (t\<lparr>conn := (conn t)\<lparr>kt_in := rs\<rparr>\<rparr>)"
  have s: "stranded ?t1" using assms by (simp add: stranded_def stop_reading_def)
  have "reader_step hs cookie rnd t = Ran ?t1" using assms by (simp add: reader_step_def receive_def)
  moreover have "writers ?t1 = writers t" "readError ?t1 = Some (ReadFailed e)" by (simp_all add: stop_reading_def)
  ultimately show ?thesis using stranded_reachable [OF _ s] by metis
qed

theorem read_error_strands_writers_witness:
  "\<exists>t t1. hs_reachable small_hs (newHandshakeTransport (small_kt [Inl []])) t \<and> reader_step small_hs [] curve_random t = Ran t1 \<and>
    readError t1 = Some (ReadFailed []) \<and> writers t1 1 \<noteq> Some (Finished Written)"
proof -
  obtain t p rs where t: "small_run 1 0 [Inl []] = Ran t" "sentInit t \<noteq> None" "reader_at t = Reading" "kt_in (conn t) = Inl [] # rs"
    "writers t 1 = Some (Waiting p)"
    using small_waiting by (auto split: step.splits option.splits writer.splits reader.splits list.splits sum.splits)
  from read_error_strands_writers [OF t(3,4,2), of small_hs "[]" curve_random] show ?thesis
    using small_run_reachable [OF t(1)] t(5) by fastforce
qed

end
