(* ===== verification/Ssh_ClientAuth.thy ===== *)
theory Ssh_ClientAuth
  imports Ssh_Auth
begin

text \<open>
  The client side of user authentication: \<^verbatim>\<open>client_auth.go\<close> of the vendored package
  \<^verbatim>\<open>golang.org/x/crypto/ssh\<close>, and the handshake of \<^verbatim>\<open>client.go\<close> that runs it.

  The transport below is as in the server's theory: the packets that arrive, or the error of reading one, and those
  written, as many as \<open>q_writes\<close> allows. The callbacks and the signers are the application's; their state is threaded
  through.
\<close>

section \<open>The connection\<close>

datatype 'x client_error =
    ClientRead string
  | ClientWrite
  | ClientWire wire_error
  | CallbackError 'x
  | ServerLeft
      \<comment> \<open>\<open>io.EOF\<close>, on a disconnect message\<close>
  | PromptFormat
  | TrailingPrompts
  | NotEnoughAnswers
  | NoMethodsRemain "bytes list"
      \<comment> \<open>the keys of \<open>tried\<close>; the code prints them in no particular order\<close>

record 'w link =
  q_in :: "(string + bytes) list"
  q_out :: "bytes list"
  q_writes :: nat
  q_world :: 'w

type_synonym ('x, 'w, 'a) attempt = "(('x client_error + 'a) \<times> 'w link) step"

text \<open>What follows when there was no error.\<close>

definition if_ok :: "(('e + 'a) \<times> 's) step \<Rightarrow> ('a \<Rightarrow> 's \<Rightarrow> (('e + 'b) \<times> 's) step) \<Rightarrow> (('e + 'b) \<times> 's) step" where
  "if_ok m f = and_then m (\<lambda>(r, s). case r of Inl e \<Rightarrow> Ran (Inl e, s) | Inr x \<Rightarrow> f x s)"

lemma if_ok_simps [simp]:
  "if_ok (Ran (Inl e, s)) f = Ran (Inl e, s)"
  "if_ok (Ran (Inr x, s)) f = f x s"
  "if_ok Blocks f = Blocks"
  "if_ok (Panicked p) f = Panicked p"
  by (simp_all add: if_ok_def)

lemma if_ok_Ran:
  "if_ok m f = Ran (r, s') \<longleftrightarrow>
     (\<exists>e. m = Ran (Inl e, s') \<and> r = Inl e) \<or> (\<exists>x s. m = Ran (Inr x, s) \<and> f x s = Ran (r, s'))"
  by (cases m) (auto simp: if_ok_def split: sum.splits prod.splits)

lemma if_ok_cong [fundef_cong]:
  "m = m' \<Longrightarrow> (\<And>x s. m' = Ran (Inr x, s) \<Longrightarrow> f x s = g x s) \<Longrightarrow> if_ok m f = if_ok m' g"
  by (cases m') (auto simp: if_ok_def split: sum.splits prod.splits)

definition getPacket :: "'w link \<Rightarrow> ('x, 'w, bytes) attempt" where
  "getPacket c =
     (case q_in c of
        [] \<Rightarrow> Blocks
      | Inl e # xs \<Rightarrow> Ran (Inl (ClientRead e), c\<lparr>q_in := xs\<rparr>)
      | Inr p # xs \<Rightarrow> Ran (Inr p, c\<lparr>q_in := xs\<rparr>))"

definition send :: "panic + bytes \<Rightarrow> 'w link \<Rightarrow> ('x, 'w, unit) attempt" where
  "send m c =
     (case m of
        Inl p \<Rightarrow> Panicked p
      | Inr b \<Rightarrow>
          Ran (if q_writes c = 0 then (Inl ClientWrite, c)
               else (Inr (), c\<lparr>q_out := q_out c @ [b], q_writes := q_writes c - 1\<rparr>)))"

definition unmarshalled :: "'a parsed \<Rightarrow> 'w link \<Rightarrow> ('x, 'w, 'a) attempt" where
  "unmarshalled r c =
     (case r of Crash p \<Rightarrow> Panicked p | Malformed e \<Rightarrow> Ran (Inl (ClientWire e), c) | Parsed x \<Rightarrow> Ran (Inr x, c))"

definition made :: "panic + 'a \<Rightarrow> 'w link \<Rightarrow> ('x, 'w, 'a) attempt" where
  "made r c = (case r of Inl p \<Rightarrow> Panicked p | Inr x \<Rightarrow> Ran (Inr x, c))"

text \<open>The result of a callback, and the state it leaves.\<close>

definition called :: "'w \<times> ('x + 'a) \<Rightarrow> 'w link \<Rightarrow> ('x, 'w, 'a) attempt" where
  "called r c = Ran (map_sum CallbackError id (snd r), c\<lparr>q_world := fst r\<rparr>)"

lemma step_simps [simp]:
  "unmarshalled (Parsed x) c = Ran (Inr x, c)" "made (Inr x) c = Ran (Inr x, c)"
  "called (w, Inr x) c = Ran (Inr x, c\<lparr>q_world := w\<rparr>)"
  "unmarshalled (Malformed e) c = Ran (Inl (ClientWire e), c)" "called (w, Inl e) c = Ran (Inl (CallbackError e), c\<lparr>q_world := w\<rparr>)"
  by (simp_all add: unmarshalled_def made_def called_def)

lemma getPacket_same: "getPacket c = Ran (r, c') \<Longrightarrow> strict_suffix (q_in c') (q_in c)"
  by (auto simp: getPacket_def strict_suffix_def suffix_def split: list.splits sum.splits)

text \<open>The head of the loops that wait for an answer: the next packet that is not a banner.\<close>

function nextReply :: "'w link \<Rightarrow> ('x, 'w, bytes) attempt" where
  "nextReply c =
     if_ok (getPacket c) (\<lambda>packet c1.
       case packet of
         [] \<Rightarrow> Panicked IndexOutOfRange
       | b # _ \<Rightarrow> if b = 53 then nextReply c1 else Ran (Inr packet, c1))"
  by pat_completeness auto
termination
  by (relation "measure (length \<circ> q_in)") (auto dest!: getPacket_same suffix_length_less)

declare nextReply.simps [simp del]

lemma nextReply_same: "nextReply c = Ran (r :: 'x client_error + bytes, c') \<Longrightarrow> strict_suffix (q_in c') (q_in c)"
proof (induction "length (q_in c)" arbitrary: c rule: less_induct)
  case less
  obtain x :: "'x client_error + bytes" and c1 where r: "getPacket c = Ran (x, c1)"
    using less.prems by (subst (asm) nextReply.simps) (auto simp: if_ok_Ran)
  note s = getPacket_same [OF r]
  show ?case
  proof (cases x)
    case (Inl e)
    then show ?thesis using less.prems r s by (simp add: nextReply.simps [of c])
  next
    case (Inr packet)
    then show ?thesis using less.prems r s less.hyps [of c1] suffix_length_less [OF s]
      by (auto simp: nextReply.simps [of c] split: list.splits if_splits intro: suffix_order.less_trans)
  qed
qed

section \<open>Methods\<close>

record ('x, 'w) Signer =
  PublicKey :: public_key
  Sign :: "'w \<Rightarrow> bytes \<Rightarrow> 'w \<times> ('x + signature)"

datatype ('x, 'w) auth_method =
    noneAuth
  | passwordCallback "'w \<Rightarrow> 'w \<times> ('x + bytes)"
  | publicKeyCallback "'w \<Rightarrow> 'w \<times> ('x + ('x, 'w) Signer list)"
  | KeyboardInteractiveChallenge "'w \<Rightarrow> bytes \<Rightarrow> bytes \<Rightarrow> bytes list \<Rightarrow> bool list \<Rightarrow> 'w \<times> ('x + bytes list)"
      \<comment> \<open>user, instruction, questions, echos\<close>

primrec method_name :: "('x, 'w) auth_method \<Rightarrow> bytes" where
  "method_name noneAuth = bytes_of ''none''"
| "method_name (passwordCallback cb) = bytes_of ''password''"
| "method_name (publicKeyCallback cb) = bytes_of ''publickey''"
| "method_name (KeyboardInteractiveChallenge cb) = bytes_of ''keyboard-interactive''"

definition Password :: "bytes \<Rightarrow> ('x, 'w) auth_method" where
  "Password secret = passwordCallback (\<lambda>w. (w, Inr secret))"

definition PublicKeys :: "('x, 'w) Signer list \<Rightarrow> ('x, 'w) auth_method" where
  "PublicKeys signers = publicKeyCallback (\<lambda>w. (w, Inr signers))"

definition serviceSSH :: bytes where "serviceSSH = bytes_of ''ssh-connection''"
definition serviceUserAuth :: bytes where "serviceUserAuth = bytes_of ''ssh-userauth''"

definition passwordAuthMsg :: struct_type where
  "passwordAuthMsg = \<lparr>st_name = ''passwordAuthMsg'', st_tag = Some 50, st_fields =
     [(''User'', KString), (''Service'', KString), (''Method'', KString), (''Reply'', KBool), (''Password'', KString)]\<rparr>"

definition publickeyAuthMsg :: struct_type where
  "publickeyAuthMsg = \<lparr>st_name = ''publickeyAuthMsg'', st_tag = Some 50, st_fields =
     [(''User'', KString), (''Service'', KString), (''Method'', KString), (''HasSig'', KBool), (''Algoname'', KString),
      (''PubKey'', KBytes), (''Sig'', KRest)]\<rparr>"

definition initiateMsg :: struct_type where
  "initiateMsg = \<lparr>st_name = ''initiateMsg'', st_tag = Some 50, st_fields =
     [(''User'', KString), (''Service'', KString), (''Method'', KString), (''Language'', KString), (''Submethods'', KString)]\<rparr>"

definition methods_at :: "fval list \<Rightarrow> nat \<Rightarrow> bytes list" where
  "methods_at vs i = (case vs ! i of VNames ns \<Rightarrow> ns | _ \<Rightarrow> [])"

text \<open>What an attempt comes to: whether it succeeded, and the methods the server names; \<^const>\<open>None\<close> is the nil slice.\<close>

type_synonym answer = "bool \<times> bytes list option"

definition failureAnswer :: "bytes \<Rightarrow> 'w link \<Rightarrow> ('x, 'w, answer) attempt" where
  "failureAnswer packet c =
     if_ok (unmarshalled (Unmarshal packet userAuthFailureMsg) c) (\<lambda>msg c1. Ran (Inr (False, Some (methods_at msg 0)), c1))"

definition unexpected :: "8 word \<Rightarrow> bytes \<Rightarrow> 'w link \<Rightarrow> ('x, 'w, 'a) attempt" where
  "unexpected expected packet c = Ran (Inl (ClientWire (UnexpectedMessage expected (hd packet))), c)"

definition handleAuthResponse :: "'w link \<Rightarrow> ('x, 'w, answer) attempt" where
  "handleAuthResponse c =
     if_ok (nextReply c) (\<lambda>packet c1.
       if hd packet = 51 then failureAnswer packet c1
       else if hd packet = 52 then Ran (Inr (True, None), c1)
       else if hd packet = 1 then Ran (Inl ServerLeft, c1)
       else unexpected 52 packet c1)"

definition auth_none :: "bytes \<Rightarrow> 'w link \<Rightarrow> ('x, 'w, answer) attempt" where
  "auth_none user c =
     if_ok (send (Marshal userAuthRequestMsg [VBytes user, VBytes serviceSSH, VBytes (bytes_of ''none''), VBytes []]) c)
       (\<lambda>_. handleAuthResponse)"

definition auth_password :: "bytes \<Rightarrow> ('w \<Rightarrow> 'w \<times> ('x + bytes)) \<Rightarrow> 'w link \<Rightarrow> ('x, 'w, answer) attempt" where
  "auth_password user cb c =
     if_ok (called (cb (q_world c)) c) (\<lambda>pw c1.
       if_ok (send (Marshal passwordAuthMsg [VBytes user, VBytes serviceSSH, VBytes (bytes_of ''password''), VBool False, VBytes pw]) c1)
         (\<lambda>_. handleAuthResponse))"

subsection \<open>Public keys\<close>

text \<open>The server's answer to the query for a key.\<close>

definition confirmKeyAck :: "crypto \<Rightarrow> public_key \<Rightarrow> 'w link \<Rightarrow> ('x, 'w, bool) attempt" where
  "confirmKeyAck cr key c =
     if_ok (made (MarshalKey cr key) c) (\<lambda>pubKey c1.
     if_ok (made (KeyType key) c1) (\<lambda>algoname c2.
     if_ok (nextReply c2) (\<lambda>packet c3.
       if hd packet = 60 then
         if_ok (unmarshalled (Unmarshal packet userAuthPubKeyOkMsg) c3) (\<lambda>msg c4.
           Ran (Inr (bytes_at msg 0 = algoname \<and> bytes_at msg 1 = pubKey), c4))
       else if hd packet = 51 then Ran (Inr False, c3)
       else unexpected 52 packet c3)))"

definition validateKey :: "crypto \<Rightarrow> public_key \<Rightarrow> bytes \<Rightarrow> 'w link \<Rightarrow> ('x, 'w, bool) attempt" where
  "validateKey cr key user c =
     if_ok (made (MarshalKey cr key) c) (\<lambda>pubKey c1.
     if_ok (made (KeyType key) c1) (\<lambda>algoname c2.
     if_ok (send (Marshal publickeyAuthMsg [VBytes user, VBytes serviceSSH, VBytes (bytes_of ''publickey''), VBool False,
         VBytes algoname, VBytes pubKey, VBytes []]) c2) (\<lambda>_.
       confirmKeyAck cr key)))"

text \<open>The first loop: the keys the server would accept.\<close>

primrec validKeys :: "crypto \<Rightarrow> bytes \<Rightarrow> ('x, 'w) Signer list \<Rightarrow> 'w link \<Rightarrow> ('x, 'w, ('x, 'w) Signer list) attempt" where
  "validKeys cr user [] c = Ran (Inr [], c)"
| "validKeys cr user (s # ss) c =
     if_ok (validateKey cr (PublicKey s) user c) (\<lambda>ok c1.
     if_ok (validKeys cr user ss c1) (\<lambda>valid c2.
       Ran (Inr (if ok then s # valid else valid), c2)))"

text \<open>The body of the second loop.\<close>

definition signedRequest :: "crypto \<Rightarrow> bytes \<Rightarrow> bytes \<Rightarrow> ('x, 'w) Signer \<Rightarrow> 'w link \<Rightarrow> ('x, 'w, answer) attempt" where
  "signedRequest cr session user s c =
     if_ok (made (MarshalKey cr (PublicKey s)) c) (\<lambda>pubKey c1.
     if_ok (made (KeyType (PublicKey s)) c1) (\<lambda>algo c2.
     if_ok (made (buildDataSignedForAuth session [VBytes user, VBytes serviceSSH, VBytes (bytes_of ''publickey'')] algo pubKey) c2)
       (\<lambda>data c3.
     if_ok (called (Sign s (q_world c3) data) c3) (\<lambda>sign c4.
     if_ok (made (marshalSignature sign) c4) (\<lambda>sig c5.
     if_ok (send (Marshal publickeyAuthMsg [VBytes user, VBytes serviceSSH, VBytes (bytes_of ''publickey''), VBool True,
         VBytes algo, VBytes pubKey, VBytes (writeString sig)]) c5) (\<lambda>_.
       handleAuthResponse))))))"

primrec signWith :: "crypto \<Rightarrow> bytes \<Rightarrow> bytes \<Rightarrow> ('x, 'w) Signer list \<Rightarrow> bytes list option \<Rightarrow> 'w link \<Rightarrow> ('x, 'w, answer) attempt" where
  "signWith cr session user [] methods c = Ran (Inr (False, methods), c)"
| "signWith cr session user (s # ss) methods c =
     if_ok (signedRequest cr session user s c) (\<lambda>(success, methods') c1.
       if success then Ran (Inr (success, methods'), c1) else signWith cr session user ss methods' c1)"

definition auth_publickey :: "crypto \<Rightarrow> bytes \<Rightarrow> bytes \<Rightarrow> ('w \<Rightarrow> 'w \<times> ('x + ('x, 'w) Signer list)) \<Rightarrow> 'w link \<Rightarrow>
    ('x, 'w, answer) attempt" where
  "auth_publickey cr session user cb c =
     if_ok (called (cb (q_world c)) c) (\<lambda>signers c1.
     if_ok (validKeys cr user signers c1) (\<lambda>valid.
       signWith cr session user valid None))"

subsection \<open>Keyboard-interactive\<close>

text \<open>The pairs of a prompt and its echo flag; \<^const>\<open>None\<close> is the format error.\<close>

primrec parsePrompts :: "nat \<Rightarrow> bytes \<Rightarrow> panic + ((bytes \<times> bool) list \<times> bytes) option" where
  "parsePrompts 0 rest = Inr (Some ([], rest))"
| "parsePrompts (Suc n) rest =
     bind_sum (parseString rest) (\<lambda>r.
       case r of
         None \<Rightarrow> Inr None
       | Some (prompt, r) \<Rightarrow>
           (case r of
              [] \<Rightarrow> Inr None
            | b # rest' \<Rightarrow>
                map_sum id (map_option (\<lambda>(ps, end'). ((prompt, b \<noteq> 0) # ps, end'))) (parsePrompts n rest')))"

definition answersPacket :: "bytes list \<Rightarrow> bytes" where
  "answersPacket answers = 61 # u32be (word_of_nat (length answers)) @ concat (map writeString answers)"

text \<open>One challenge, from the packet to the answers that are sent.\<close>

definition answerChallenge :: "('w \<Rightarrow> bytes \<Rightarrow> bytes \<Rightarrow> bytes list \<Rightarrow> bool list \<Rightarrow> 'w \<times> ('x + bytes list)) \<Rightarrow> bytes \<Rightarrow>
    'w link \<Rightarrow> ('x, 'w, unit) attempt" where
  "answerChallenge cb packet c =
     if_ok (unmarshalled (Unmarshal packet userAuthInfoRequestMsg) c) (\<lambda>msg c1.
     if_ok (made (parsePrompts (unat (u32_at msg 3)) (bytes_at msg 4)) c1) (\<lambda>r c2.
       case r of
         None \<Rightarrow> Ran (Inl PromptFormat, c2)
       | Some (prompts, rest) \<Rightarrow>
           if rest \<noteq> [] then Ran (Inl TrailingPrompts, c2)
           else
             if_ok (called (cb (q_world c2) (bytes_at msg 0) (bytes_at msg 1) (map fst prompts) (map snd prompts)) c2)
               (\<lambda>answers c3.
                  if length answers \<noteq> length prompts then Ran (Inl NotEnoughAnswers, c3)
                  else send (Inr (answersPacket answers)) c3)))"

lemma send_same: "send m c = Ran (r, c') \<Longrightarrow> q_in c' = q_in c \<and> q_world c' = q_world c"
  by (auto simp: send_def split: sum.splits if_splits)

lemma answerChallenge_same: "answerChallenge cb packet c = Ran (r, c') \<Longrightarrow> q_in c' = q_in c"
  by (auto simp: answerChallenge_def if_ok_Ran unmarshalled_def made_def called_def dest!: send_same
      split: parsed.splits sum.splits option.splits prod.splits if_splits)

function keyboardLoop :: "('w \<Rightarrow> bytes \<Rightarrow> bytes \<Rightarrow> bytes list \<Rightarrow> bool list \<Rightarrow> 'w \<times> ('x + bytes list)) \<Rightarrow> 'w link \<Rightarrow>
    ('x, 'w, answer) attempt" where
  "keyboardLoop cb c =
     if_ok (nextReply c) (\<lambda>packet c1.
       if hd packet = 60 then if_ok (answerChallenge cb packet c1) (\<lambda>_ c2. keyboardLoop cb c2)
       else if hd packet = 51 then failureAnswer packet c1
       else if hd packet = 52 then Ran (Inr (True, None), c1)
       else unexpected 60 packet c1)"
  by pat_completeness auto
termination
  by (relation "measure (length \<circ> q_in \<circ> snd)") (auto dest!: nextReply_same answerChallenge_same suffix_length_less)

declare keyboardLoop.simps [simp del]

definition auth_keyboard :: "bytes \<Rightarrow> ('w \<Rightarrow> bytes \<Rightarrow> bytes \<Rightarrow> bytes list \<Rightarrow> bool list \<Rightarrow> 'w \<times> ('x + bytes list)) \<Rightarrow> 'w link \<Rightarrow>
    ('x, 'w, answer) attempt" where
  "auth_keyboard user cb c =
     if_ok (send (Marshal initiateMsg [VBytes user, VBytes serviceSSH, VBytes (bytes_of ''keyboard-interactive''), VBytes [], VBytes []]) c)
       (\<lambda>_. keyboardLoop cb)"

section \<open>The loop over the methods\<close>

record ('x, 'w) ClientConfig =
  User :: bytes
  Auth :: "('x, 'w) auth_method list"

definition try_auth :: "crypto \<Rightarrow> bytes \<Rightarrow> bytes \<Rightarrow> ('x, 'w) auth_method \<Rightarrow> 'w link \<Rightarrow> ('x, 'w, answer) attempt" where
  "try_auth cr session user a =
     (case a of
        noneAuth \<Rightarrow> auth_none user
      | passwordCallback cb \<Rightarrow> auth_password user cb
      | publicKeyCallback cb \<Rightarrow> auth_publickey cr session user cb
      | KeyboardInteractiveChallenge cb \<Rightarrow> auth_keyboard user cb)"

text \<open>The loops at \<open>findNext\<close>: the first configured method that was not tried and that the server names.\<close>

definition findNext :: "bytes list \<Rightarrow> bytes list \<Rightarrow> ('x, 'w) auth_method list \<Rightarrow> ('x, 'w) auth_method option" where
  "findNext tried methods = find (\<lambda>a. method_name a \<notin> set tried \<and> method_name a \<in> set methods)"

lemma findNext_Some:
  "findNext tried methods as = Some a \<Longrightarrow> a \<in> set as \<and> method_name a \<notin> set tried \<and> method_name a \<in> set methods"
  by (auto simp: findNext_def find_Some_iff)

lemma findNext_None:
  "findNext tried methods as = None \<longleftrightarrow> (\<forall>a \<in> set as. method_name a \<in> set methods \<longrightarrow> method_name a \<in> set tried)"
  by (auto simp: findNext_def find_None_iff)

text \<open>\<open>tried\<close> is the list of the keys of the map, the last one first. It ends since each turn but the first tries a
  configured method that was not tried.\<close>

function client_loop :: "crypto \<Rightarrow> bytes \<Rightarrow> ('x, 'w) ClientConfig \<Rightarrow> bytes list \<Rightarrow> bytes list \<Rightarrow> ('x, 'w) auth_method \<Rightarrow>
    'w link \<Rightarrow> ('x, 'w, unit) attempt" where
  "client_loop cr session cfg tried lastMethods a c =
     if_ok (try_auth cr session (User cfg) a c) (\<lambda>(ok, methods) c1.
       if ok then Ran (Inr (), c1)
       else
         let tried' = method_name a # tried;
             methods' = (case methods of None \<Rightarrow> lastMethods | Some ms \<Rightarrow> ms)
         in (case findNext tried' methods' (Auth cfg) of
               None \<Rightarrow> Ran (Inl (NoMethodsRemain tried'), c1)
             | Some a' \<Rightarrow> client_loop cr session cfg tried' methods' a' c1))"
  by pat_completeness auto

definition untried :: "('x, 'w) ClientConfig \<Rightarrow> bytes list \<Rightarrow> bytes set" where
  "untried cfg tried = method_name ` set (Auth cfg) - set tried"

lemma untried_smaller: "m \<in> untried cfg tried \<Longrightarrow> card (untried cfg (m # tried)) < card (untried cfg tried)"
  by (rule psubset_card_mono) (auto simp: untried_def)

lemma untried_mono: "card (untried cfg (m # tried)) \<le> card (untried cfg tried)"
  by (rule card_mono) (auto simp: untried_def)

definition turns_left :: "('x, 'w) ClientConfig \<Rightarrow> bytes list \<Rightarrow> ('x, 'w) auth_method \<Rightarrow> nat" where
  "turns_left cfg tried a = 2 * card (untried cfg tried) + (if method_name a \<in> untried cfg tried then 0 else 1)"

lemma turn_smaller:
  assumes "findNext (method_name a # tried) methods (Auth cfg) = Some a'"
  shows "turns_left cfg (method_name a # tried) a' < turns_left cfg tried a"
proof -
  have "method_name a' \<in> untried cfg (method_name a # tried)"
    using findNext_Some [OF assms] by (auto simp: untried_def)
  then show ?thesis
    using untried_smaller [of "method_name a" cfg tried] untried_mono [of cfg "method_name a" tried] by (auto simp: turns_left_def)
qed

termination client_loop
  by (relation "measure (\<lambda>(cr, session, cfg, tried, lastMethods, a, c). turns_left cfg tried a)") (auto intro: turn_smaller)

declare client_loop.simps [simp del]

text \<open>The user and the methods of \<open>config\<close>; the service that is accepted is not looked at.\<close>

definition clientAuthenticate :: "crypto \<Rightarrow> bytes \<Rightarrow> ('x, 'w) ClientConfig \<Rightarrow> 'w link \<Rightarrow> ('x, 'w, unit) attempt" where
  "clientAuthenticate cr session cfg c =
     if_ok (send (Marshal serviceRequestMsg [VBytes serviceUserAuth]) c) (\<lambda>_ c1.
     if_ok (getPacket c1) (\<lambda>packet c2.
     if_ok (unmarshalled (Unmarshal packet serviceAcceptMsg) c2) (\<lambda>_ c3.
       client_loop cr session cfg [] [] noneAuth c3)))"

section \<open>The handshake\<close>

text \<open>As on the server's side, the exchange of versions and the first key exchange are the transport's: \<open>below\<close> is
  their error, if any.\<close>

definition clientHandshake :: "crypto \<Rightarrow> bytes \<Rightarrow> ('x, 'w) ClientConfig \<Rightarrow> 'x client_error option \<Rightarrow> 'w link \<Rightarrow>
    ('x, 'w, unit) attempt" where
  "clientHandshake cr session cfg below c =
     (case below of
        Some e \<Rightarrow> Ran (Inl e, c)
      | None \<Rightarrow>
          if_ok (getPacket c) (\<lambda>packet c1.
            case packet of
              [] \<Rightarrow> Panicked IndexOutOfRange
            | b # _ \<Rightarrow> if b \<noteq> 21 then unexpected 21 packet c1 else clientAuthenticate cr session cfg c1))"

text \<open>\<open>NewClientConn\<close>: the mux, or the error and the connection closed.\<close>

definition NewClientConn :: "crypto \<Rightarrow> bytes \<Rightarrow> ('x, 'w) ClientConfig \<Rightarrow> 'x client_error option \<Rightarrow> 'w link \<Rightarrow>
    (('x client_error + mux) \<times> bool) step" where
  "NewClientConn cr session cfg below c =
     and_then (clientHandshake cr session cfg below c) (\<lambda>(r, c1).
       Ran (case r of Inl e \<Rightarrow> (Inl e, True) | Inr _ \<Rightarrow> (Inr newMux, False)))"

section \<open>What the client was told\<close>

text \<open>The last packet that was read says that the client is in; and the methods a failure message names.\<close>

definition told :: "'w link \<Rightarrow> 'w link \<Rightarrow> bool" where
  "told c c' \<longleftrightarrow> (\<exists>pre bs. q_in c = pre @ Inr (52 # bs) # q_in c')"

definition named :: "'w link \<Rightarrow> bytes list \<Rightarrow> bool" where
  "named c ms \<longleftrightarrow> (\<exists>p vs. Inr p \<in> set (q_in c) \<and> Unmarshal p userAuthFailureMsg = Parsed vs \<and> ms = methods_at vs 0)"

text \<open>Steps that read on, and do not give up; and attempts, whose answer is the server's.\<close>

definition quiet :: "'w link \<Rightarrow> ('x, 'w, 'a) attempt \<Rightarrow> bool" where
  "quiet c m \<longleftrightarrow> (\<forall>r c'. m = Ran (r, c') \<longrightarrow> suffix (q_in c') (q_in c) \<and> (\<forall>t. r \<noteq> Inl (NoMethodsRemain t)))"

definition fair :: "'w link \<Rightarrow> ('x, 'w, answer) attempt \<Rightarrow> bool" where
  "fair c m \<longleftrightarrow> quiet c m \<and> (\<forall>ms c'. m = Ran (Inr (True, ms), c') \<longrightarrow> told c c') \<and>
     (\<forall>ms c'. m = Ran (Inr (False, Some ms), c') \<longrightarrow> named c ms)"

lemma told_before: "told s c' \<Longrightarrow> suffix (q_in s) (q_in c) \<Longrightarrow> told c c'"
  unfolding told_def suffix_def by (metis append.assoc)

lemma named_before: "named s ms \<Longrightarrow> suffix (q_in s) (q_in c) \<Longrightarrow> named c ms"
  unfolding named_def using set_mono_suffix by fastforce

lemma quietD: "quiet c m \<Longrightarrow> m = Ran (r, c') \<Longrightarrow> suffix (q_in c') (q_in c)"
  by (simp add: quiet_def)

lemma quiet_before: "quiet s m \<Longrightarrow> suffix (q_in s) (q_in c) \<Longrightarrow> quiet c m"
  by (auto simp: quiet_def intro: suffix_order.order_trans)

lemma fair_before: "fair s m \<Longrightarrow> suffix (q_in s) (q_in c) \<Longrightarrow> fair c m"
  by (auto simp: fair_def intro: quiet_before told_before named_before)

lemma quiet_bind:
  assumes "quiet c m" "\<And>x s. m = Ran (Inr x, s) \<Longrightarrow> quiet c (f x s)"
  shows "quiet c (if_ok m f)"
  unfolding quiet_def
proof (intro allI impI)
  fix r c' assume "if_ok m f = Ran (r, c')"
  then consider e where "m = Ran (Inl e, c')" "r = Inl e" | x s where "m = Ran (Inr x, s)" "f x s = Ran (r, c')"
    by (auto simp: if_ok_Ran)
  then show "suffix (q_in c') (q_in c) \<and> (\<forall>t. r \<noteq> Inl (NoMethodsRemain t))"
  proof cases
    case 1
    then show ?thesis using assms(1) by (auto simp: quiet_def)
  next
    case 2
    then show ?thesis using assms(2) [OF 2(1)] unfolding quiet_def by blast
  qed
qed

lemma fair_bind:
  assumes "quiet c m" "\<And>x s. m = Ran (Inr x, s) \<Longrightarrow> fair c (f x s)"
  shows "fair c (if_ok m f)"
proof -
  have "quiet c (if_ok m f)" using assms by (intro quiet_bind) (auto simp: fair_def)
  moreover have "\<exists>x s. m = Ran (Inr x, s) \<and> f x s = Ran (Inr y, c')" if "if_ok m f = Ran (Inr y, c')" for y c'
    using that by (auto simp: if_ok_Ran)
  ultimately show ?thesis using assms(2) unfolding fair_def by metis
qed

lemma quiet_if_ok:
  "quiet c m \<Longrightarrow> (\<And>x s. m = Ran (Inr x, s) \<Longrightarrow> quiet s (f x s)) \<Longrightarrow> quiet c (if_ok m f)"
  by (rule quiet_bind) (auto intro: quiet_before quietD)

lemma fair_if_ok:
  "quiet c m \<Longrightarrow> (\<And>x s. m = Ran (Inr x, s) \<Longrightarrow> fair s (f x s)) \<Longrightarrow> fair c (if_ok m f)"
  by (rule fair_bind) (auto intro: fair_before quietD)

lemma quiet_Inr [simp]: "quiet c (Ran (Inr x, c))" by (simp add: quiet_def)

lemma quiet_Inl [simp]: "(\<And>t. e \<noteq> NoMethodsRemain t) \<Longrightarrow> quiet c (Ran (Inl e, c))" by (simp add: quiet_def)

lemma quiet_called [simp]: "quiet c (called r c)"
  by (cases "snd r") (auto simp: quiet_def called_def)

lemma quiet_steps [simp]:
  "quiet c (send m c)" "quiet c (getPacket c)" "quiet c (unmarshalled p c)" "quiet c (made v c)"
  "quiet c (unexpected e packet c)"
  by (auto simp: quiet_def send_def getPacket_def unmarshalled_def made_def unexpected_def suffix_ConsI
      split: sum.splits list.splits parsed.splits if_splits)

lemma fair_refused [simp]: "fair c (Ran (Inl ServerLeft, c))" "fair c (unexpected e packet c)" "fair c (Ran (Inr (False, None), c))"
  by (auto simp: fair_def quiet_def unexpected_def)

lemma nextReply_packet:
  "nextReply c = Ran (r :: 'x client_error + bytes, c') \<Longrightarrow>
     (case r of Inl e \<Rightarrow> \<forall>t. e \<noteq> NoMethodsRemain t | Inr p \<Rightarrow> p \<noteq> [] \<and> (\<exists>pre. q_in c = pre @ Inr p # q_in c'))"
proof (induction "length (q_in c)" arbitrary: c rule: less_induct)
  case less
  obtain x :: "'x client_error + bytes" and c1 where r: "getPacket c = Ran (x, c1)"
    using less.prems by (subst (asm) nextReply.simps) (auto simp: if_ok_Ran)
  show ?case
  proof (cases x)
    case (Inl e)
    then show ?thesis using less.prems r by (auto simp: nextReply.simps [of c] getPacket_def split: list.splits sum.splits)
  next
    case (Inr packet)
    then have q: "q_in c = Inr packet # q_in c1" using r by (auto simp: getPacket_def split: list.splits sum.splits)
    then have l: "length (q_in c1) < length (q_in c)" by simp
    obtain b bs where p: "packet = b # bs"
      using less.prems r Inr by (cases packet) (simp_all add: nextReply.simps [of c])
    show ?thesis
    proof (cases "b = 53")
      case True
      then have "nextReply c1 = Ran (r, c')" using less.prems r Inr p by (simp add: nextReply.simps [of c])
      from less.hyps [OF l this] show ?thesis using q by (auto split: sum.splits)
    next
      case False
      then have "r = Inr packet" "c' = c1" using less.prems r Inr p by (simp_all add: nextReply.simps [of c])
      then show ?thesis using q p by auto
    qed
  qed
qed

lemma quiet_nextReply [simp]: "quiet c (nextReply c)"
  unfolding quiet_def using nextReply_same nextReply_packet by (fastforce simp: strict_suffix_def)

lemma replied:
  assumes "nextReply c = Ran (Inr p :: 'x client_error + bytes, s)"
  shows "Inr p \<in> set (q_in c)" "suffix (q_in s) (q_in c)" "hd p = 52 \<Longrightarrow> told c s"
proof -
  obtain pre where p: "p \<noteq> []" "q_in c = pre @ Inr p # q_in s" using nextReply_packet [OF assms] by auto
  then show "Inr p \<in> set (q_in c)" by simp
  show "suffix (q_in s) (q_in c)" using p(2) by (metis append.assoc append_Cons append_Nil suffixI)
  show "told c s" if "hd p = 52" using p that by (cases p) (auto simp: told_def)
qed

text \<open>An answer is fair when it is what the packet says.\<close>

lemma fair_failure:
  assumes "Inr p \<in> set (q_in c)" "suffix (q_in s) (q_in c)"
  shows "fair c (failureAnswer p s)"
  using assms by (auto simp: fair_def quiet_def named_def failureAnswer_def if_ok_Ran unmarshalled_def split: parsed.splits)

lemma fair_success: "told c s \<Longrightarrow> suffix (q_in s) (q_in c) \<Longrightarrow> fair c (Ran (Inr (True, ms), s))"
  by (simp add: fair_def quiet_def)

lemma fair_response [simp]: "fair c (handleAuthResponse c)"
  unfolding handleAuthResponse_def
proof (rule fair_bind)
  fix p s assume "nextReply c = Ran (Inr p :: 'x client_error + bytes, s)"
  note r = replied [OF this]
  show "fair c (if hd p = 51 then failureAnswer p s else if hd p = 52 then Ran (Inr (True, None), s)
      else if hd p = 1 then Ran (Inl ServerLeft, s) else unexpected 52 p s)"
    using r by (auto intro: fair_failure fair_success fair_before [OF fair_refused(1)] fair_before [OF fair_refused(2)])
qed simp

lemma fair_none [simp]: "fair c (auth_none user c)"
  unfolding auth_none_def by (intro fair_if_ok) simp_all

lemma fair_password [simp]: "fair c (auth_password user cb c)"
  unfolding auth_password_def by (intro fair_if_ok) simp_all

lemma quiet_validate [simp]: "quiet c (validateKey cr key user c)"
  unfolding validateKey_def confirmKeyAck_def by (intro quiet_if_ok) (auto intro: quiet_if_ok)

lemma quiet_valid [simp]: "quiet c (validKeys cr user ss c)"
  by (induction ss arbitrary: c) (auto intro!: quiet_if_ok)

lemma fair_signed [simp]: "fair c (signedRequest cr session user s c)"
  unfolding signedRequest_def by (intro fair_if_ok) simp_all

text \<open>After a refused signature the methods are those of the answer to it.\<close>

lemma fair_quiet: "fair c m \<Longrightarrow> quiet c m"
  by (simp add: fair_def)

lemma fair_sign:
  "suffix (q_in c) (q_in b) \<Longrightarrow> (\<And>ms. methods = Some ms \<Longrightarrow> named b ms) \<Longrightarrow> fair b (signWith cr session user ss methods c)"
proof (induction ss arbitrary: methods c)
  case Nil
  then show ?case by (auto simp: fair_def quiet_def)
next
  case (Cons s ss)
  note f = fair_before [OF fair_signed Cons.prems(1), of cr session user s]
  have "fair b ((\<lambda>(success, methods') c1.
       if success then Ran (Inr (success, methods'), c1) else signWith cr session user ss methods' c1) x c1)"
    if m: "signedRequest cr session user s c = Ran (Inr x, c1)" for x c1
  proof -
    obtain success methods' where x: "x = (success, methods')" by (cases x)
    have c1: "suffix (q_in c1) (q_in b)" using f m by (auto simp: fair_def quiet_def)
    show ?thesis
    proof (cases success)
      case True
      then show ?thesis using f m x c1 by (auto simp: fair_def quiet_def)
    next
      case False
      have "named b ms" if "methods' = Some ms" for ms using f m x that False by (auto simp: fair_def)
      then have "fair b (signWith cr session user ss methods' c1)" by (rule Cons.IH [OF c1])
      then show ?thesis using x False by simp
    qed
  qed
  then show ?case by (simp add: fair_bind fair_quiet [OF f])
qed

lemma fair_sign_start [simp]: "fair c (signWith cr session user ss None c)"
  by (rule fair_sign) simp_all

lemma fair_publickey [simp]: "fair c (auth_publickey cr session user cb c)"
  unfolding auth_publickey_def by (intro fair_if_ok) simp_all

lemma quiet_challenge [simp]: "quiet c (answerChallenge cb packet c)"
  unfolding answerChallenge_def
  by (intro quiet_if_ok) (auto split: option.splits intro!: quiet_if_ok)

lemma fair_keyboard_loop [simp]:
  fixes cb :: "'w \<Rightarrow> bytes \<Rightarrow> bytes \<Rightarrow> bytes list \<Rightarrow> bool list \<Rightarrow> 'w \<times> ('x + bytes list)"
  shows "fair c (keyboardLoop cb c)"
proof (induction "length (q_in c)" arbitrary: c rule: less_induct)
  case less
  show ?case
  proof (subst keyboardLoop.simps, rule fair_bind)
    fix p s assume n: "nextReply c = Ran (Inr p :: 'x client_error + bytes, s)"
    note r = replied [OF n]
    have l: "length (q_in s) < length (q_in c)" using suffix_length_less [OF nextReply_same [OF n]] .
    have "fair s (if_ok (answerChallenge cb p s) (\<lambda>_ c2. keyboardLoop cb c2))"
    proof (rule fair_if_ok)
      fix x c2 assume "answerChallenge cb p s = Ran (Inr x, c2)"
      then have "q_in c2 = q_in s" by (rule answerChallenge_same)
      then show "fair c2 (keyboardLoop cb c2)" using l less.hyps by simp
    qed simp
    then show "fair c (if hd p = 60 then if_ok (answerChallenge cb p s) (\<lambda>_ c2. keyboardLoop cb c2)
        else if hd p = 51 then failureAnswer p s else if hd p = 52 then Ran (Inr (True, None), s) else unexpected 60 p s)"
      using r by (auto intro: fair_failure fair_success fair_before [OF fair_refused(2)] fair_before)
  qed simp
qed

lemma fair_auth: "fair c (try_auth cr session user a c)"
  by (cases a) (simp_all add: try_auth_def auth_keyboard_def fair_if_ok)

section \<open>The end of the loop\<close>

text \<open>What the client has tried when it gives up: no method twice, only configured ones after the first, and of the
  methods that it has all the ones the server named last.\<close>

definition exhausted :: "('x, 'w) ClientConfig \<Rightarrow> bytes list \<Rightarrow> bytes list \<Rightarrow> bool" where
  "exhausted cfg ms tried \<longleftrightarrow> (\<forall>a \<in> set (Auth cfg). method_name a \<in> set ms \<longrightarrow> method_name a \<in> set tried)"

lemma client_loop_end:
  "client_loop cr session cfg tried lastMethods a c = Ran (r, c') \<Longrightarrow> suffix (q_in c) (q_in b) \<Longrightarrow> lastMethods = [] \<or> named b lastMethods \<Longrightarrow>
     distinct (method_name a # tried) \<Longrightarrow>
     (r = Inr () \<longrightarrow> told b c') \<and>
     (\<forall>t. r = Inl (NoMethodsRemain t) \<longrightarrow>
        suffix (method_name a # tried) t \<and> distinct t \<and> set t \<subseteq> set (method_name a # tried) \<union> method_name ` set (Auth cfg) \<and>
        (\<exists>ms. (ms = [] \<or> named b ms) \<and> exhausted cfg ms t))"
proof (induction cr session cfg tried lastMethods a c rule: client_loop.induct)
  case (1 cr session cfg tried lastMethods a c)
  note f = fair_before [OF fair_auth "1.prems"(2), of cr session "User cfg" a]
  from "1.prems"(1) consider
      (error) e where "try_auth cr session (User cfg) a c = Ran (Inl e, c')" "r = Inl e"
    | (answer) ok methods c1 where "try_auth cr session (User cfg) a c = Ran (Inr (ok, methods), c1)"
    by (subst (asm) client_loop.simps) (auto simp: if_ok_Ran)
  then show ?case
  proof cases
    case error
    then show ?thesis using f by (auto simp: fair_def quiet_def)
  next
    case answer
    let ?tried = "method_name a # tried" and ?ms = "case methods of None \<Rightarrow> lastMethods | Some ms \<Rightarrow> ms"
    have c1: "suffix (q_in c1) (q_in b)" using f answer by (auto simp: fair_def quiet_def)
    show ?thesis
    proof (cases ok)
      case True
      then have "r = Inr ()" "c' = c1" using "1.prems"(1) answer by (simp_all add: client_loop.simps [of cr session cfg tried])
      then show ?thesis using f answer True by (auto simp: fair_def)
    next
      case False
      have ms: "?ms = [] \<or> named b ?ms" using f answer False "1.prems"(3) by (auto simp: fair_def split: option.splits)
      show ?thesis
      proof (cases "findNext ?tried ?ms (Auth cfg)")
        case None
        then have "r = Inl (NoMethodsRemain ?tried)" using "1.prems"(1) answer False by (simp add: client_loop.simps [of cr session cfg tried])
        moreover have "exhausted cfg ?ms ?tried" using None unfolding exhausted_def findNext_None .
        ultimately show ?thesis using ms "1.prems"(4) by auto
      next
        case (Some a')
        then have "client_loop cr session cfg ?tried ?ms a' c1 = Ran (r, c')"
          using "1.prems"(1) answer False by (simp add: client_loop.simps [of cr session cfg tried])
        moreover have "method_name a' \<notin> set ?tried" "a' \<in> set (Auth cfg)" using findNext_Some [OF Some] by simp_all
        ultimately have "(r = Inr () \<longrightarrow> told b c') \<and>
           (\<forall>t. r = Inl (NoMethodsRemain t) \<longrightarrow>
              suffix (method_name a' # ?tried) t \<and> distinct t \<and> set t \<subseteq> set (method_name a' # ?tried) \<union> method_name ` set (Auth cfg) \<and>
              (\<exists>ms. (ms = [] \<or> named b ms) \<and> exhausted cfg ms t))"
          using "1.IH" [OF answer refl False refl refl Some _ c1 ms] "1.prems"(4) by simp
        then show ?thesis using \<open>a' \<in> set (Auth cfg)\<close> by (auto dest: suffix_ConsD)
      qed
    qed
  qed
qed

text \<open>The loop starts without a method that was tried.\<close>

definition ending :: "('x, 'w) ClientConfig \<Rightarrow> 'w link \<Rightarrow> 'x client_error + unit \<Rightarrow> 'w link \<Rightarrow> bool" where
  "ending cfg b r c' \<longleftrightarrow> (r = Inr () \<longrightarrow> told b c') \<and>
    (\<forall>t. r = Inl (NoMethodsRemain t) \<longrightarrow> suffix [bytes_of ''none''] t \<and> distinct t \<and>
       set t \<subseteq> {bytes_of ''none''} \<union> method_name ` set (Auth cfg) \<and> (\<exists>ms. (ms = [] \<or> named b ms) \<and> exhausted cfg ms t))"

lemma ending_if_ok:
  assumes "if_ok m f = Ran (r, c')" "quiet c m" "suffix (q_in c) (q_in b)"
    "\<And>x s. suffix (q_in s) (q_in b) \<Longrightarrow> f x s = Ran (r, c') \<Longrightarrow> ending cfg b r c'"
  shows "ending cfg b r c'"
proof -
  from assms(1) consider e where "m = Ran (Inl e, c')" "r = Inl e" | x s where "m = Ran (Inr x, s)" "f x s = Ran (r, c')"
    by (auto simp: if_ok_Ran)
  then show ?thesis
  proof cases
    case 1
    then show ?thesis using assms(2) by (auto simp: quiet_def ending_def)
  next
    case 2
    have "suffix (q_in s) (q_in b)" using quietD [OF assms(2) 2(1)] assms(3) by (rule suffix_order.order_trans)
    then show ?thesis using assms(4) 2(2) by blast
  qed
qed

lemma clientAuthenticate_ends:
  assumes "clientAuthenticate cr session cfg c = Ran (r, c')" "suffix (q_in c) (q_in b)"
  shows "ending cfg b r c'"
  using assms(1) [unfolded clientAuthenticate_def]
proof (rule ending_if_ok [OF _ _ assms(2)])
  fix x s assume s: "suffix (q_in s) (q_in b)"
    "if_ok (getPacket s) (\<lambda>packet c2. if_ok (unmarshalled (Unmarshal packet serviceAcceptMsg) c2) (\<lambda>_. client_loop cr session cfg [] [] noneAuth))
       = Ran (r, c')"
  from s(2) show "ending cfg b r c'"
  proof (rule ending_if_ok [OF _ _ s(1)])
    fix packet c2 assume c2: "suffix (q_in c2) (q_in b)"
      "if_ok (unmarshalled (Unmarshal packet serviceAcceptMsg) c2) (\<lambda>_. client_loop cr session cfg [] [] noneAuth) = Ran (r, c')"
    from c2(2) show "ending cfg b r c'"
    proof (rule ending_if_ok [OF _ _ c2(1)])
      fix x c3 assume c3: "suffix (q_in c3) (q_in b)" "client_loop cr session cfg [] [] noneAuth c3 = Ran (r, c')"
      show "ending cfg b r c'" using client_loop_end [OF c3(2,1)] by (auto simp: ending_def)
    qed simp
  qed simp
qed simp

lemma clientHandshake_ends:
  assumes "clientHandshake cr session cfg None c = Ran (r, c')"
  shows "ending cfg c r c'"
  using assms [unfolded clientHandshake_def option.case]
proof (rule ending_if_ok [OF _ _ suffix_order.order_refl])
  fix packet s assume s: "suffix (q_in s) (q_in c)"
    "(case packet of [] \<Rightarrow> Panicked IndexOutOfRange
      | b # _ \<Rightarrow> if b \<noteq> 21 then unexpected 21 packet s else clientAuthenticate cr session cfg s) = Ran (r, c')"
  show "ending cfg c r c'"
  proof (cases "clientAuthenticate cr session cfg s = Ran (r, c')")
    case True
    then show ?thesis using s(1) by (rule clientAuthenticate_ends)
  next
    case False
    then show ?thesis using s(2) by (auto simp: unexpected_def ending_def split: list.splits if_splits)
  qed
qed simp

end
