(* ===== verification/Ssh_Login.thy ===== *)
theory Ssh_Login
  imports Ssh_ClientAuth
begin

text \<open>
  The client and the server authenticating to each other: every packet one side writes is read by the other.
\<close>

section \<open>Packets\<close>

lemma marshal_bool_field: "marshalField i out KBool (VBool b) = Inr (out @ [if b then 1 else 0])"
  by (simp add: marshalField_def)

lemmas marshal_struct = Marshal_def marshalStruct_def typeTag_def marshal_fields marshal_bool_field

lemma request_marshalled:
  "Marshal userAuthRequestMsg [VBytes u, VBytes s, VBytes m, VBytes pl] = Inr (50 # writeString u @ writeString s @ writeString m @ pl)"
  by (simp add: marshal_struct userAuthRequestMsg_def)

lemma password_marshalled:
  "Marshal passwordAuthMsg [VBytes u, VBytes s, VBytes m, VBool b, VBytes pw] =
     Inr (50 # writeString u @ writeString s @ writeString m @ (if b then 1 else 0) # writeString pw)"
  by (simp add: marshal_struct passwordAuthMsg_def)

lemma publickey_marshalled:
  "Marshal publickeyAuthMsg [VBytes u, VBytes s, VBytes m, VBool b, VBytes a, VBytes k, VBytes sig] =
     Inr (50 # writeString u @ writeString s @ writeString m @ (if b then 1 else 0) # writeString a @ writeString k @ sig)"
  by (simp add: marshal_struct publickeyAuthMsg_def)

lemma initiate_marshalled:
  "Marshal initiateMsg [VBytes u, VBytes s, VBytes m, VBytes l, VBytes sub] =
     Inr (50 # writeString u @ writeString s @ writeString m @ writeString l @ writeString sub)"
  by (simp add: marshal_struct initiateMsg_def)

text \<open>A packet of a message type is read back when it is short enough.\<close>

lemma read_back:
  assumes "Marshal t vs = Inr p" "values_ok t vs" "rest_last t" "typeTag t > 0" "length p < 2 ^ 32"
  shows "Unmarshal p t = Parsed vs \<and> p \<noteq> [] \<and> hd p = typeTag t"
proof -
  note t = assms(3,4)
  obtain bs where "Marshal t vs = Inr (typeTag t # bs)" "length bs < 2 ^ 32 \<Longrightarrow> Unmarshal (typeTag t # bs) t = Parsed vs"
    by (rule Marshal_inverse [OF assms(2) t]) blast
  then show ?thesis using assms(1,5) by auto
qed

lemmas sound_values = values_ok_def typed_def value_ok_def

lemma request_parsed:
  assumes "length u + length s + length m + length pl + 13 < 2 ^ 32"
  shows "Unmarshal (50 # writeString u @ writeString s @ writeString m @ pl) userAuthRequestMsg =
    Parsed [VBytes u, VBytes s, VBytes m, VBytes pl]"
  using read_back [OF request_marshalled [of u s m pl]] assms
  by (simp add: sound_values rest_last_def typeTag_def userAuthRequestMsg_def)

lemma bytes_at_simps [simp]: "bytes_at (VBytes b # vs) 0 = b" "bytes_at (v # vs) (Suc i) = bytes_at vs i"
  "bytes_at (v # vs) (numeral k) = bytes_at vs (pred_numeral k)"
  by (simp_all add: bytes_at_def)

lemma length_bytes_of [simp]: "length (bytes_of s) = length s"
  by (simp add: bytes_of_def)

text \<open>The failure message of a server names methods that can be carried, in a few bytes.\<close>

lemma failure_parsed:
  assumes "failureMethods cfg \<noteq> []"
  obtains p where "Marshal userAuthFailureMsg [VNames (failureMethods cfg), VBool False] = Inr p" "p \<noteq> []" "hd p = 51"
    "Unmarshal p userAuthFailureMsg = Parsed [VNames (failureMethods cfg), VBool False]"
proof -
  let ?ms = "failureMethods cfg"
  obtain p where p: "Marshal userAuthFailureMsg [VNames ?ms, VBool False] = Inr p"
    by (simp add: marshal_struct userAuthFailureMsg_def marshalField_def)
  have l: "length (joinNames ?ms) \<le> 100" by (auto simp: failureMethods_def)
  have n: "names_ok ?ms" by (auto simp: failureMethods_def names_ok_def bytes_of_def)
  have "p = 51 # u32be (word_of_nat (length (joinNames ?ms))) @ joinNames ?ms @ [0]"
    using p by (simp add: marshal_struct userAuthFailureMsg_def marshalField_def marshalNames_eq)
  then have "length p < 2 ^ 32" using l by simp
  moreover have "values_ok userAuthFailureMsg [VNames ?ms, VBool False]"
    using n by (simp add: sound_values userAuthFailureMsg_def)
  ultimately have "Unmarshal p userAuthFailureMsg = Parsed [VNames ?ms, VBool False] \<and> p \<noteq> [] \<and> hd p = typeTag userAuthFailureMsg"
    using read_back [OF p] by (simp add: rest_last_def typeTag_def userAuthFailureMsg_def)
  then show ?thesis using that [OF p] by (simp add: typeTag_def userAuthFailureMsg_def)
qed

section \<open>Steps of the client\<close>

abbreviation link_of :: "(string + bytes) list \<Rightarrow> bytes list \<Rightarrow> nat \<Rightarrow> 'w \<Rightarrow> 'w link" where
  "link_of ps out n w \<equiv> \<lparr>q_in = ps, q_out = out, q_writes = n, q_world = w\<rparr>"

lemma send_packet [simp]: "send (Inr p) (link_of ps out (Suc n) w) = Ran (Inr (), link_of ps (out @ [p]) n w)"
  by (simp add: send_def)

lemma get_packet [simp]: "getPacket (link_of (Inr p # ps) out n w) = Ran (Inr p, link_of ps out n w)"
  by (simp add: getPacket_def)

lemma next_reply [simp]: "b \<noteq> 53 \<Longrightarrow> nextReply (link_of (Inr (b # bs) # ps) out n w) = Ran (Inr (b # bs), link_of ps out n w)"
  by (subst nextReply.simps) (simp add: getPacket_def)

lemma success_answer [simp]: "handleAuthResponse (link_of (Inr [52] # ps) out n w) = Ran (Inr (True, None), link_of ps out n w)"
  by (simp add: handleAuthResponse_def)

lemma failure_answer:
  assumes "p \<noteq> []" "hd p = 51" "Unmarshal p userAuthFailureMsg = Parsed [VNames ms, VBool b]"
  shows "handleAuthResponse (link_of (Inr p # ps) out n w) = Ran (Inr (False, Some ms), link_of ps out n w)"
proof -
  obtain bs where p: "p = 51 # bs" using assms by (cases p) auto
  show ?thesis using assms
    by (simp add: p handleAuthResponse_def failureAnswer_def methods_at_def)
qed

section \<open>Steps of the server\<close>

lemma readPacket_Inr [simp]: "a_in s = Inr p # xs \<Longrightarrow> readPacket s = Ran (Inr p, s\<lparr>a_in := xs\<rparr>)"
  by (simp add: readPacket_def)

lemma writeMessage_Inr [simp]:
  "0 < a_writes s \<Longrightarrow> writeMessage (Inr p) s = Ran (True, s\<lparr>a_out := a_out s @ [p], a_writes := a_writes s - 1\<rparr>)"
  by (simp add: writeMessage_def)

lemma logAttempt_same [simp]:
  "a_in (logAttempt cfg m e s) = a_in s" "a_out (logAttempt cfg m e s) = a_out s" "a_writes (logAttempt cfg m e s) = a_writes s"
  "a_world (logAttempt cfg m e s) = a_world s" "a_cache (logAttempt cfg m e s) = a_cache s"
  by (simp_all add: logAttempt_def)

text \<open>The requests of the three kinds as the server reads them.\<close>

definition user_request :: "bytes \<Rightarrow> bytes \<Rightarrow> bytes \<Rightarrow> bytes" where
  "user_request user m pl = 50 # writeString user @ writeString serviceSSH @ writeString m @ pl"

lemma authRequest_request:
  assumes "a_in s = Inr (user_request user m pl) # xs" "length user + length m + length pl + 27 < 2 ^ 32"
  shows "authRequest cr net addr session cfg s =
    and_then (tryMethod cr net addr session cfg [VBytes user, VBytes serviceSSH, VBytes m, VBytes pl] (s\<lparr>a_in := xs, a_user := user\<rparr>))
      (\<lambda>(v, s2).
        case v of
          Abort e \<Rightarrow> Ran (Some (Inl e), s2)
        | NextRequest \<Rightarrow> Ran (None, s2)
        | Verdict authErr perms \<Rightarrow>
            let s3 = logAttempt cfg m authErr s2 in
            if authErr = None then Ran (Some (Inr perms), s3)
            else and_then (denyRequest cfg s3) (\<lambda>(err, s4). Ran (map_option Inl err, s4)))"
  using assms request_parsed [of user serviceSSH m pl]
  by (simp add: authRequest_def user_request_def serviceSSH_def Let_def cong: if_cong verdict.case_cong)

text \<open>The client's first request, without credentials, is answered by the methods there are.\<close>

lemma none_denied:
  assumes "a_in s = Inr (user_request user (bytes_of ''none'') []) # xs" "length user + 100 < 2 ^ 32" "\<not> NoClientAuth cfg"
    "0 < a_writes s" "Marshal userAuthFailureMsg [VNames (failureMethods cfg), VBool False] = Inr p" "failureMethods cfg \<noteq> []"
  obtains s' where "authRequest cr net addr session cfg s = Ran (None, s')" "a_in s' = xs" "a_out s' = a_out s @ [p]"
    "a_writes s' = a_writes s - 1" "a_world s' = a_world s" "a_cache s' = a_cache s"
  using assms by (simp add: authRequest_request tryMethod_def denyRequest_def Let_def)

section \<open>Logging in\<close>

text \<open>A client and a server that let each other in: what one writes is what the other reads, to the last packet. Both
  transports deliver the packet of the first key exchange first.\<close>

definition client_start :: "'w \<Rightarrow> nat \<Rightarrow> bytes list \<Rightarrow> 'w link" where
  "client_start w n ps = \<lparr>q_in = map Inr ([21] # ps), q_out = [], q_writes = n, q_world = w\<rparr>"

definition server_start :: "'w \<Rightarrow> nat \<Rightarrow> bytes list \<Rightarrow> ('x, 'w) auth" where
  "server_start w n ps = \<lparr>a_in = map Inr ([21] # ps), a_out = [], a_writes = n, a_world = w, a_user = [], a_cache = [], a_log = []\<rparr>"

definition logs_in :: "crypto \<Rightarrow> net_functions \<Rightarrow> remote_addr \<Rightarrow> bytes \<Rightarrow> ('y, 'v) ClientConfig \<Rightarrow> 'v \<Rightarrow>
    ('s, 'x, 'w) auth_config \<Rightarrow> 'w \<Rightarrow> permissions option \<Rightarrow> bool" where
  "logs_in cr net addr session ccfg cw cfg sw perms \<longleftrightarrow>
     (\<exists>to_server to_client c s.
        clientHandshake cr session ccfg None (client_start cw (length to_server) to_client) = Ran (Inr (), c) \<and>
        q_out c = to_server \<and> q_in c = [] \<and>
        serverHandshake cr net addr session cfg None (server_start sw (length to_client) to_server) = Ran (Inr (perms, newMux), s) \<and>
        a_out s = to_client \<and> a_in s = [])"

text \<open>What is left to show for a method: that its attempt succeeds, and that the server lets its requests in.\<close>

lemma logs_in_by:
  fixes cfg :: "('s, 'x, 'w) auth_config" and ccfg :: "('y, 'v) ClientConfig"
  assumes server: "hostKeys cfg \<noteq> []" "\<not> NoClientAuth cfg" "method_name a \<in> set (failureMethods cfg)"
    and client: "Auth ccfg = a # as" "method_name a \<noteq> bytes_of ''none''" and user: "length (User ccfg) + 100 < 2 ^ 32"
    and attempt: "\<And>out. try_auth cr session (User ccfg) a (link_of (map Inr tc @ [Inr [52]]) out (length ts) cw) =
      Ran (Inr (True, None), link_of [] (out @ ts) 0 cw')"
    and admit: "\<And>s. a_in s = map Inr ts \<Longrightarrow> a_writes s = Suc (length tc) \<Longrightarrow> a_world s = sw \<Longrightarrow> a_cache s = [] \<Longrightarrow>
      \<exists>s'. auth_loop cr net addr session cfg s = Ran (Inr perms, s') \<and> a_out s' = a_out s @ tc \<and> a_in s' = [] \<and> 0 < a_writes s'"
  shows "logs_in cr net addr session ccfg cw cfg sw perms"
proof -
  let ?u = "User ccfg"
  let ?none = "user_request ?u (bytes_of ''none'') []"
  have ms: "failureMethods cfg \<noteq> []" using server(3) by auto
  obtain p where p: "Marshal userAuthFailureMsg [VNames (failureMethods cfg), VBool False] = Inr p" "p \<noteq> []" "hd p = 51"
    "Unmarshal p userAuthFailureMsg = Parsed [VNames (failureMethods cfg), VBool False]"
    by (rule failure_parsed [OF ms])
  define sr where "sr = 5 # writeString serviceUserAuth"
  define sa where "sa = 6 # writeString serviceUserAuth"
  have sr: "Marshal serviceRequestMsg [VBytes serviceUserAuth] = Inr sr" "Unmarshal sr serviceRequestMsg = Parsed [VBytes serviceUserAuth]"
    using read_back [of serviceRequestMsg "[VBytes serviceUserAuth]" sr]
    by (simp_all add: sr_def marshal_struct sound_values rest_last_def serviceRequestMsg_def serviceUserAuth_def)
  have sa: "Marshal serviceAcceptMsg [VBytes serviceUserAuth] = Inr sa" "Unmarshal sa serviceAcceptMsg = Parsed [VBytes serviceUserAuth]"
    using read_back [of serviceAcceptMsg "[VBytes serviceUserAuth]" sa]
    by (simp_all add: sa_def marshal_struct sound_values rest_last_def serviceAcceptMsg_def serviceUserAuth_def)
  define to_server where "to_server = sr # ?none # ts"
  define to_client where "to_client = sa # p # tc @ [[52]]"
  let ?c = "client_start cw (length to_server) to_client"
  let ?s = "server_start sw (length to_client) to_server :: ('x, 'w) auth"
  have "\<exists>c. clientHandshake cr session ccfg None ?c = Ran (Inr (), c) \<and> q_out c = to_server \<and> q_in c = []"
  proof -
    have f: "findNext [bytes_of ''none''] (failureMethods cfg) (Auth ccfg) = Some a"
      using client server(3) by (simp add: findNext_def)
    let ?after_accept = "link_of (Inr p # map Inr tc @ [Inr [52]]) [sr] (Suc (length ts)) cw" and ?after_none = "link_of (map Inr tc @ [Inr [52]]) [sr, ?none] (length ts) cw"
    have "try_auth cr session ?u (noneAuth :: ('y, 'v) auth_method) ?after_accept = Ran (Inr (False, Some (failureMethods cfg)), ?after_none)"
      using failure_answer [OF p(2-4)]
      by (simp add: try_auth_def auth_none_def request_marshalled user_request_def)
    then have "client_loop cr session ccfg [] [] noneAuth ?after_accept = client_loop cr session ccfg [bytes_of ''none''] (failureMethods cfg) a ?after_none"
      using f by (subst client_loop.simps) (simp)
    also have "\<dots> = Ran (Inr (), link_of [] to_server 0 cw')"
      using attempt by (subst client_loop.simps) (simp add: to_server_def)
    finally have "clientHandshake cr session ccfg None ?c = Ran (Inr (), link_of [] to_server 0 cw')"
      using sr(1) sa
      by (simp add: clientHandshake_def client_start_def clientAuthenticate_def to_server_def to_client_def)
    then show ?thesis by simp
  qed
  moreover have "\<exists>s. serverHandshake cr net addr session cfg None ?s = Ran (Inr (perms, newMux), s) \<and> a_out s = to_client \<and> a_in s = []"
  proof -
    let ?serving = "\<lparr>a_in = map Inr (?none # ts), a_out = [sa], a_writes = Suc (Suc (length tc)), a_world = sw, a_user = [], a_cache = [], a_log = []\<rparr>
      :: ('x, 'w) auth"
    obtain s1 where s1: "authRequest cr net addr session cfg ?serving = Ran (None, s1)" "a_in s1 = map Inr ts" "a_out s1 = [sa, p]"
      "a_writes s1 = Suc (length tc)" "a_world s1 = sw" "a_cache s1 = []"
      by (rule none_denied [of ?serving ?u "map Inr ts" cfg p cr net addr session]) (use user server(2) p(1) ms in simp_all)
    obtain s2 where s2: "auth_loop cr net addr session cfg s1 = Ran (Inr perms, s2)" "a_out s2 = [sa, p] @ tc" "a_in s2 = []" "0 < a_writes s2"
      using admit [of s1] s1 by auto
    have "auth_loop cr net addr session cfg ?serving = Ran (Inr perms, s2)"
      using s1(1) s2(1) by (subst auth_loop.simps) simp
    then have "serverAuthenticate cr net addr session cfg ?serving = Ran (Inr perms, s2\<lparr>a_out := to_client, a_writes := a_writes s2 - 1\<rparr>)"
      using s2 by (simp add: serverAuthenticate_def to_client_def)
    then have "serverHandshake cr net addr session cfg None ?s =
        Ran (Inr (perms, newMux), s2\<lparr>a_out := to_client, a_writes := a_writes s2 - 1\<rparr>)"
      using sr sa(1) server(1)
      by (simp add: serverHandshake_def server_start_def to_server_def to_client_def serviceUserAuth_def)
    then show ?thesis using s2(3) by auto
  qed
  ultimately show ?thesis unfolding logs_in_def by blast
qed

lemma getString_whole: "length s + 4 < 2 ^ 32 \<Longrightarrow> getString e (writeString s) = Parsed (s, [])"
  using getString_writeString [of s "[]" e] by simp

lemma method_of_bytes [simp]: "bytes_of s = bytes_of t \<longleftrightarrow> s = t"
  by (rule bytes_of_inject)

subsection \<open>With a password\<close>

lemma password_logs_in:
  fixes cfg :: "('s, 'x, 'w) auth_config"
  assumes "hostKeys cfg \<noteq> []" "\<not> NoClientAuth cfg" "PasswordCallback cfg = Some cb" "cb sw (User ccfg) pw = (sw', Inr perms)"
    "Auth ccfg = Password pw # as" "length (User ccfg) + length pw + 100 < 2 ^ 32"
  shows "logs_in cr net addr session ccfg cw cfg sw perms"
proof (rule logs_in_by [where a = "Password pw" and ts = "[user_request (User ccfg) (bytes_of ''password'') (0 # writeString pw)]" and tc = "[]"])
  fix out
  show "try_auth cr session (User ccfg) (Password pw) (link_of (map Inr [] @ [Inr [52]]) out
      (length [user_request (User ccfg) (bytes_of ''password'') (0 # writeString pw)]) cw) =
    Ran (Inr (True, None), link_of [] (out @ [user_request (User ccfg) (bytes_of ''password'') (0 # writeString pw)]) 0 cw)"
    by (simp add: try_auth_def Password_def auth_password_def password_marshalled user_request_def)
next
  fix s :: "('x, 'w) auth" assume "a_in s = map Inr [user_request (User ccfg) (bytes_of ''password'') (0 # writeString pw)]" "a_writes s = Suc (length [])"
    "a_world s = sw"
  then have "\<exists>s'. authRequest cr net addr session cfg s = Ran (Some (Inr perms), s') \<and> a_out s' = a_out s \<and> a_in s' = [] \<and> 0 < a_writes s'"
    using assms by (simp add: authRequest_request tryMethod_def method_password_def getString_whole callback_verdict_def Let_def)
  then show "\<exists>s'. auth_loop cr net addr session cfg s = Ran (Inr perms, s') \<and> a_out s' = a_out s @ [] \<and> a_in s' = [] \<and> 0 < a_writes s'"
    by (subst auth_loop.simps) auto
qed (use assms in \<open>auto simp: failureMethods_def Password_def\<close>)

subsection \<open>With a key\<close>

lemma acceptable_short: "isAcceptableAlgo algo \<Longrightarrow> length algo \<le> 50"
  by (auto simp: isAcceptableAlgo_def algo_defs)

lemma signature_inverse:
  assumes "length (sig_Format sig) + length (sig_Blob sig) < 2 ^ 30"
  shows "marshalSignature sig = Inr (writeString (sig_Format sig) @ writeString (sig_Blob sig))"
    "parseSignature (writeString (writeString (sig_Format sig) @ writeString (sig_Blob sig))) = Inr (Some (sig, []))"
proof -
  let ?s = "writeString (sig_Format sig) @ writeString (sig_Blob sig)"
  show "marshalSignature sig = Inr ?s" by (simp add: marshalSignature_def marshal_struct)
  have "parseString (writeString ?s) = Inr (Some (?s, []))"
    "parseString ?s = Inr (Some (sig_Format sig, writeString (sig_Blob sig)))"
    "parseString (writeString (sig_Blob sig)) = Inr (Some (sig_Blob sig, []))"
    using assms parseString_writeString [of ?s "[]"] parseString_writeString [of "sig_Format sig" "writeString (sig_Blob sig)"]
      parseString_writeString [of "sig_Blob sig" "[]"] by simp_all
  then show "parseSignature (writeString ?s) = Inr (Some (sig, []))"
    by (simp add: parseSignature_def parseSignatureBody_def)
qed

lemma signed_data: obtains d where "buildDataSignedForAuth session (VBytes u # VBytes s # VBytes m # vs) algo key = Inr d"
    "\<And>vs'. buildDataSignedForAuth session (VBytes u # VBytes s # VBytes m # vs') algo key = Inr d"
  by (simp add: buildDataSignedForAuth_def authData_def anonymous_def marshal_struct marshalField_def)

text \<open>The server's answer to the query, and what the client makes of it.\<close>

lemma ok_parsed:
  assumes "length algo + length key + 9 < 2 ^ 32"
  obtains bs where "Marshal userAuthPubKeyOkMsg [VBytes algo, VBytes key] = Inr (60 # bs)"
    "Unmarshal (60 # bs) userAuthPubKeyOkMsg = Parsed [VBytes algo, VBytes key]"
proof
  let ?bs = "writeString algo @ writeString key"
  show m: "Marshal userAuthPubKeyOkMsg [VBytes algo, VBytes key] = Inr (60 # ?bs)"
    by (simp add: marshal_struct userAuthPubKeyOkMsg_def)
  show "Unmarshal (60 # ?bs) userAuthPubKeyOkMsg = Parsed [VBytes algo, VBytes key]"
    using read_back [OF m] assms by (simp add: sound_values rest_last_def typeTag_def userAuthPubKeyOkMsg_def)
qed

text \<open>A signer whose signatures its key verifies.\<close>

definition good_signer :: "crypto \<Rightarrow> 'w \<Rightarrow> ('x, 'w) Signer \<Rightarrow> bool" where
  "good_signer cr w sg \<longleftrightarrow>
     (\<forall>d. \<exists>w' sig. Sign sg w d = (w', Inr sig) \<and> VerifyKey cr (PublicKey sg) d sig = Inr None \<and>
        isAcceptableAlgo (sig_Format sig) \<and> length (sig_Format sig) + length (sig_Blob sig) < 2 ^ 30)"

lemma publickey_logs_in:
  fixes cfg :: "('s, 'x, 'w) auth_config"
  assumes server: "hostKeys cfg \<noteq> []" "\<not> NoClientAuth cfg" "PublicKeyCallback cfg = Some cb"
      "cb sw (User ccfg) (PublicKey sg) = (sw', Inr perms)" "sourceOption perms = [] \<or> checkSourceAddress net addr (sourceOption perms)"
    and client: "Auth ccfg = PublicKeys [sg] # as" "length (User ccfg) < 2 ^ 30" "good_signer cr cw sg"
    and key: "KeyType (PublicKey sg) = Inr algo" "isAcceptableAlgo algo" "MarshalKey cr (PublicKey sg) = Inr kb"
      "key_ok cr (PublicKey sg)" "length kb < 2 ^ 30"
  shows "logs_in cr net addr session ccfg cw cfg sw perms"
proof -
  let ?u = "User ccfg" and ?pk = "bytes_of ''publickey''"
  let ?vs = "[VBytes ?u, VBytes serviceSSH, VBytes ?pk]"
  obtain d where d: "buildDataSignedForAuth session ?vs algo kb = Inr d"
    "\<And>pl. buildDataSignedForAuth session [VBytes ?u, VBytes serviceSSH, VBytes ?pk, pl] algo kb = Inr d"
    by (rule signed_data [of session ?u serviceSSH ?pk "[]" algo kb]) blast
  obtain cw' sig where sig: "Sign sg cw d = (cw', Inr sig)" "VerifyKey cr (PublicKey sg) d sig = Inr None"
    "isAcceptableAlgo (sig_Format sig)" "length (sig_Format sig) + length (sig_Blob sig) < 2 ^ 30"
    using client(3) unfolding good_signer_def by blast
  define sb where "sb = writeString (sig_Format sig) @ writeString (sig_Blob sig)"
  have sb: "marshalSignature sig = Inr sb" "parseSignature (writeString sb) = Inr (Some (sig, []))" "length sb < 2 ^ 30 + 8"
    using signature_inverse [OF sig(4)] sig(4) by (simp_all add: sb_def)
  have parse: "ParsePublicKey cr kb = Parsed (PublicKey sg)"
    using key_roundtrip [OF key(4)] key(3,5) by auto
  note al = acceptable_short [OF key(2)]
  obtain ok where ok: "Marshal userAuthPubKeyOkMsg [VBytes algo, VBytes kb] = Inr (60 # ok)"
    "Unmarshal (60 # ok) userAuthPubKeyOkMsg = Parsed [VBytes algo, VBytes kb]"
    by (rule ok_parsed [of algo kb]) (use al key(5) in simp)
  define query where "query = user_request ?u ?pk (0 # writeString algo @ writeString kb)"
  define signed where "signed = user_request ?u ?pk (1 # writeString algo @ writeString kb @ writeString sb)"
  have gs: "getString e (writeString algo @ writeString kb) = Parsed (algo, writeString kb)"
    "getString e (writeString algo @ writeString kb @ writeString sb) = Parsed (algo, writeString kb @ writeString sb)"
    "getString e (writeString kb @ writeString sb) = Parsed (kb, writeString sb)" "getString e (writeString kb) = Parsed (kb, [])" for e
    using al key(5) sb(3) by (simp_all add: getString_writeString getString_whole)
  show ?thesis
  proof (rule logs_in_by [where a = "PublicKeys [sg]" and ts = "[query, signed]" and tc = "[60 # ok]"])
    fix out
    show "try_auth cr session ?u (PublicKeys [sg]) (link_of (map Inr [60 # ok] @ [Inr [52]]) out (length [query, signed]) cw) =
      Ran (Inr (True, None), link_of [] (out @ [query, signed]) 0 cw')"
      using key(1,3) ok(2) d(1) sig(1) sb(1)
      by (simp add: try_auth_def PublicKeys_def auth_publickey_def validateKey_def confirmKeyAck_def signedRequest_def
        publickey_marshalled query_def signed_def user_request_def)
  next
    fix s :: "('x, 'w) auth"
    assume s: "a_in s = map Inr [query, signed]" "a_writes s = Suc (length [60 # ok])" "a_world s = sw" "a_cache s = []"
    obtain s1 where s1: "authRequest cr net addr session cfg s = Ran (None, s1)" "a_in s1 = [Inr signed]" "a_out s1 = a_out s @ [60 # ok]"
      "a_writes s1 = 1" "a_cache s1 = [\<lparr>c_user = ?u, c_pubKeyData = kb, c_result = None, c_perms = perms\<rparr>]"
      using s server(3-5) client(2) key(2,5) al parse ok(1) gs
      by (auto simp: authRequest_request tryMethod_def method_publickey_def queryKey_def answerQuery_def query_def Let_def cache_add_def
        maxCachedPubKeys_def)
    have "\<exists>s2. authRequest cr net addr session cfg s1 = Ran (Some (Inr perms), s2) \<and> a_out s2 = a_out s1 \<and> a_in s2 = [] \<and> 0 < a_writes s2"
      using s1(2-5) server(3) client(2) key(2,5) al parse gs sb(2,3) sig(2,3) d(2)
      by (auto simp: authRequest_request tryMethod_def method_publickey_def queryKey_def checkSignature_def signed_def Let_def)
    then show "\<exists>s'. auth_loop cr net addr session cfg s = Ran (Inr perms, s') \<and> a_out s' = a_out s @ [60 # ok] \<and> a_in s' = [] \<and> 0 < a_writes s'"
      using s1(1,3) by (subst auth_loop.simps) (auto simp: auth_loop.simps [of cr net addr session cfg s1])
  qed (use assms in \<open>auto simp: failureMethods_def PublicKeys_def\<close>)
qed

subsection \<open>With a dialog\<close>

text \<open>The length of strings in a packet, each with its length, and with room for a flag.\<close>

definition packed :: "bytes list \<Rightarrow> nat" where
  "packed bs = sum_list (map (\<lambda>b. length b + 5) bs)"

lemma packed_simps [simp]: "packed [] = 0" "packed (b # bs) = length b + 5 + packed bs"
  by (simp_all add: packed_def)

lemma prompts_inverse:
  "length qs = length es \<Longrightarrow> packed qs < 2 ^ 32 \<Longrightarrow>
     length (promptBytes qs es) = packed qs \<and> parsePrompts (length qs) (promptBytes qs es) = Inr (Some (zip qs es, []))"
proof (induction qs es rule: promptBytes.induct)
  case (1 q qs e es)
  have b: "promptBytes (q # qs) (e # es) = writeString q @ (if e then 1 else 0) # promptBytes qs es"
    by (simp add: appendString_def appendInt_def appendU32_def appendBool_def writeString_def)
  have "parseString (writeString q @ (if e then 1 else 0) # promptBytes qs es) =
      Inr (Some (q, (if e then 1 else 0) # promptBytes qs es))"
    using 1 by (simp add: parseString_writeString)
  then show ?case unfolding b using 1 by simp
qed simp_all

lemma answers_inverse: "packed as < 2 ^ 32 \<Longrightarrow>
    length (concat (map writeString as)) \<le> packed as \<and> parseAnswers (length as) (concat (map writeString as)) = Parsed (as, [])"
proof (induction as)
  case (Cons a as)
  then have "getString (ParseError 61) (writeString a @ concat (map writeString as)) = Parsed (a, concat (map writeString as))"
    by (intro getString_writeString) simp
  then show ?case using Cons by simp
qed simp

lemma answers_read:
  assumes "packed as + 5 < 2 ^ 32"
  shows "readAnswers (length as) (answersPacket as) = Ran (Inr as)"
proof -
  have "length as \<le> packed as" by (induction as) auto
  then have "unat (word_of_nat (length as) :: 32 word) = length as" using assms by (simp add: unat_of_nat)
  then show ?thesis using answers_inverse [of as] assms
    by (simp add: readAnswers_def answersPacket_def parseUint32_def)
qed

text \<open>A challenge of the server as the client reads it.\<close>

lemma challenge_marshalled:
  "Marshal userAuthInfoRequestMsg [VBytes [], VBytes i, VBytes [], VU32 n, VBytes p] =
     Inr (60 # writeString [] @ writeString i @ writeString [] @ u32be n @ p)"
  by (simp add: marshal_struct userAuthInfoRequestMsg_def)

definition challengePacket :: "bytes \<Rightarrow> bytes list \<Rightarrow> bool list \<Rightarrow> bytes" where
  "challengePacket i qs es =
     60 # writeString [] @ writeString i @ writeString [] @ u32be (word_of_nat (length qs)) @ promptBytes qs es"

lemma challenge_read:
  assumes "length qs = length es" "length i + packed qs + 20 < 2 ^ 32"
  shows "Unmarshal (challengePacket i qs es) userAuthInfoRequestMsg =
      Parsed [VBytes [], VBytes i, VBytes [], VU32 (word_of_nat (length qs)), VBytes (promptBytes qs es)] \<and>
    parsePrompts (unat (word_of_nat (length qs) :: 32 word)) (promptBytes qs es) = Inr (Some (zip qs es, []))"
proof -
  have "length qs \<le> packed qs" by (induction qs) auto
  then have "unat (word_of_nat (length qs) :: 32 word) = length qs" using assms by (simp add: unat_of_nat)
  then show ?thesis using prompts_inverse [OF assms(1)] assms(2) read_back [OF challenge_marshalled, of i "word_of_nat (length qs)" "promptBytes qs es"]
    by (simp add: sound_values rest_last_def typeTag_def userAuthInfoRequestMsg_def challengePacket_def)
qed

text \<open>The dialog the two callbacks have when nothing is between them: the client's answers are given to the server's
  callback. It has a result when each challenge has as many answers as questions, and as echo flags, and they fit.\<close>

primrec converse :: "('v \<Rightarrow> bytes \<Rightarrow> bytes \<Rightarrow> bytes list \<Rightarrow> bool list \<Rightarrow> 'v \<times> ('y + bytes list)) \<Rightarrow> 'v \<Rightarrow> ('x, 'w) dialog \<Rightarrow>
    ('v \<times> 'w \<times> ('x + permissions option)) option" where
  "converse cb v (Answers w r) = Some (v, w, r)"
| "converse cb v (Challenges i qs es f) =
     (if length qs = length es \<and> length i + packed qs + 20 < 2 ^ 32
      then
        (case cb v [] i qs es of
           (v', Inr as) \<Rightarrow> if length as = length qs \<and> packed as + 5 < 2 ^ 32 then converse cb v' (f (Inr as)) else None
         | (v', Inl e) \<Rightarrow> None)
      else None)"

lemma answerChallenge_runs:
  assumes "length qs = length es" "length i + packed qs + 20 < 2 ^ 32" "cb v [] i qs es = (v', Inr as)" "length as = length qs"
  shows "answerChallenge cb (challengePacket i qs es) (link_of xs out (Suc n) v) =
    Ran (Inr (), link_of xs (out @ [answersPacket as]) n v')"
  using challenge_read [OF assms(1,2)] assms(1,3,4) by (simp add: answerChallenge_def u32_at_def)

lemma dialog_runs:
  "converse cb v d = Some (v', w', r) \<Longrightarrow> \<exists>ts tc.
     (\<forall>out. keyboardLoop cb (link_of (map Inr tc @ [Inr [52]]) out (length ts) v) = Ran (Inr (True, None), link_of [] (out @ ts) 0 v')) \<and>
     (\<forall>s m. a_in s = map Inr ts \<longrightarrow> a_writes s = length tc + m \<longrightarrow>
        run_dialog d s = Ran (r, s\<lparr>a_in := [], a_out := a_out s @ tc, a_writes := m, a_world := w'\<rparr>))"
proof (induction d arbitrary: v)
  case (Answers w r')
  have "keyboardLoop cb (link_of [Inr [52]] out 0 v) = Ran (Inr (True, None), link_of [] out 0 v)" for out
    by (subst keyboardLoop.simps) simp
  with Answers show ?case by (intro exI [of _ "[]"]) auto
next
  case (Challenges i qs es f)
  then obtain v1 as where t: "length qs = length es" "length i + packed qs + 20 < 2 ^ 32" "cb v [] i qs es = (v1, Inr as)"
    "length as = length qs" "packed as + 5 < 2 ^ 32" "converse cb v1 (f (Inr as)) = Some (v', w', r)"
    by (auto split: if_splits prod.splits sum.splits)
  obtain ts tc where c: "\<forall>out. keyboardLoop cb (link_of (map Inr tc @ [Inr [52]]) out (length ts) v1) = Ran (Inr (True, None), link_of [] (out @ ts) 0 v')"
    and s: "\<forall>s m. a_in s = map Inr ts \<longrightarrow> a_writes s = length tc + m \<longrightarrow>
        run_dialog (f (Inr as)) s = Ran (r, s\<lparr>a_in := [], a_out := a_out s @ tc, a_writes := m, a_world := w'\<rparr>)"
    using Challenges.IH [OF rangeI t(6)] by blast
  let ?q = "challengePacket i qs es"
  have "keyboardLoop cb (link_of (map Inr (?q # tc) @ [Inr [52]]) out (length (answersPacket as # ts)) v) =
      Ran (Inr (True, None), link_of [] (out @ answersPacket as # ts) 0 v')" for out
  proof -
    have "answerChallenge cb ?q (link_of (map Inr tc @ [Inr [52]]) out (Suc (length ts)) v) =
        Ran (Inr (), link_of (map Inr tc @ [Inr [52]]) (out @ [answersPacket as]) (length ts) v1)"
      using t(1-4) by (rule answerChallenge_runs)
    then show ?thesis using c by (subst keyboardLoop.simps) (simp add: challengePacket_def)
  qed
  moreover have "run_dialog (Challenges i qs es f) s =
      Ran (r, s\<lparr>a_in := [], a_out := a_out s @ ?q # tc, a_writes := m, a_world := w'\<rparr>)"
    if "a_in s = map Inr (answersPacket as # ts)" "a_writes s = length (?q # tc) + m" for s m
    using that t(1,4) s
    by (simp add: Challenge_def challenge_marshalled challengePacket_def answers_read [OF t(5), unfolded t(4) t(1)])
  ultimately show ?case by (intro exI [of _ "answersPacket as # ts"] exI [of _ "?q # tc"]) auto
qed

lemma keyboard_logs_in:
  fixes cfg :: "('s, 'x, 'w) auth_config"
  assumes server: "hostKeys cfg \<noteq> []" "\<not> NoClientAuth cfg" "KeyboardInteractiveCallback cfg = Some scb"
    and client: "Auth ccfg = KeyboardInteractiveChallenge ccb # as" "length (User ccfg) + 100 < 2 ^ 32"
    and converse: "converse ccb cw (scb sw (User ccfg)) = Some (cw', sw', Inr perms)"
  shows "logs_in cr net addr session ccfg cw cfg sw perms"
proof -
  let ?u = "User ccfg" and ?m = "bytes_of ''keyboard-interactive''"
  obtain ts tc where c: "\<And>out. keyboardLoop ccb (link_of (map Inr tc @ [Inr [52]]) out (length ts) cw) = Ran (Inr (True, None), link_of [] (out @ ts) 0 cw')"
    and s: "\<And>(s :: ('x, 'w) auth) m. a_in s = map Inr ts \<Longrightarrow> a_writes s = length tc + m \<Longrightarrow>
        run_dialog (scb sw ?u) s = Ran (Inr perms, s\<lparr>a_in := [], a_out := a_out s @ tc, a_writes := m, a_world := sw'\<rparr>)"
    using dialog_runs [OF converse] by blast
  define first where "first = user_request ?u ?m (writeString [] @ writeString [])"
  show ?thesis
  proof (rule logs_in_by [where a = "KeyboardInteractiveChallenge ccb" and ts = "first # ts" and tc = tc])
    fix out
    show "try_auth cr session ?u (KeyboardInteractiveChallenge ccb) (link_of (map Inr tc @ [Inr [52]]) out (length (first # ts)) cw) =
      Ran (Inr (True, None), link_of [] (out @ first # ts) 0 cw')"
      using c by (simp add: try_auth_def auth_keyboard_def initiate_marshalled first_def user_request_def)
  next
    fix s :: "('x, 'w) auth"
    assume a: "a_in s = map Inr (first # ts)" "a_writes s = Suc (length tc)" "a_world s = sw" "a_cache s = []"
    then have "\<exists>s'. authRequest cr net addr session cfg s = Ran (Some (Inr perms), s') \<and> a_out s' = a_out s @ tc \<and> a_in s' = [] \<and>
        0 < a_writes s'"
      using server client(2) s [of "s\<lparr>a_in := map Inr ts, a_user := ?u\<rparr>" 1]
      by (simp add: authRequest_request first_def tryMethod_def method_keyboard_def callback_verdict_def Let_def)
    then show "\<exists>s'. auth_loop cr net addr session cfg s = Ran (Inr perms, s') \<and> a_out s' = a_out s @ tc \<and> a_in s' = [] \<and> 0 < a_writes s'"
      by (subst auth_loop.simps) auto
  qed (use assms in \<open>auto simp: failureMethods_def\<close>)
qed

section \<open>Properties\<close>

text \<open>C19: a client whose first method is a key and a server with a callback for public keys let each other in: the server
  answers the query for the key, the client signs the data of the session and the request, and what it signs is what the
  server verifies. The client ends without an error, the server with the permissions of the callback, and every packet
  that one side wrote was read by the other. The key can be marshalled, its signer makes signatures it verifies, and the
  user, the key and the signatures are shorter than a gigabyte.\<close>

theorem publickey_login:
  assumes "hostKeys cfg \<noteq> []" "\<not> NoClientAuth cfg" "PublicKeyCallback cfg = Some cb"
    "cb sw (User ccfg) (PublicKey sg) = (sw', Inr perms)" "sourceOption perms = [] \<or> checkSourceAddress net addr (sourceOption perms)"
    "Auth ccfg = PublicKeys [sg] # as" "length (User ccfg) < 2 ^ 30" "good_signer cr cw sg"
    "KeyType (PublicKey sg) = Inr algo" "isAcceptableAlgo algo" "MarshalKey cr (PublicKey sg) = Inr kb"
    "key_ok cr (PublicKey sg)" "length kb < 2 ^ 30"
  shows "logs_in cr net addr session ccfg cw cfg sw perms"
  using assms by (rule publickey_logs_in)

definition small_signing :: crypto where
  "small_signing = small_crypto\<lparr>sha1 := take 20\<rparr>"

definition small_key_signer :: "(unit, unit) Signer" where
  "small_key_signer = \<lparr>PublicKey = rsaPublicKey 3 77, Sign = (\<lambda>w d. (w, Inr \<lparr>sig_Format = KeyAlgoRSA, sig_Blob = take 20 d\<rparr>))\<rparr>"

definition small_key_config :: "(nat, unit, unit) auth_config" where
  "small_key_config = \<lparr>hostKeys = [1], NoClientAuth = False, PasswordCallback = None,
     PublicKeyCallback = Some (\<lambda>w user key. (w, if key = rsaPublicKey 3 77 then Inr None else Inl ())),
     KeyboardInteractiveCallback = None, AuthLogCallback = None, ServerVersion = []\<rparr>"

theorem publickey_login_witness:
  "logs_in small_signing small_net NoAddr [9] \<lparr>User = [117], Auth = [PublicKeys [small_key_signer]]\<rparr> () small_key_config () None"
proof -
  obtain kb where kb: "MarshalKey small_signing (rsaPublicKey 3 77) = Inr kb"
    using key_roundtrip [of small_signing "rsaPublicKey 3 77"] by auto
  then have l: "length kb < 2 ^ 30"
    by (auto simp: marshal_anonymous_eq marshal_fields KeyAlgoRSA_def bytes_of_def intField_def intPad_def intBytes_def
      natBytes.simps Let_def)
  have g: "good_signer small_signing () small_key_signer"
    by (simp add: good_signer_def small_key_signer_def rsaVerify_def wrongFormat_def small_signing_def small_crypto_def isAcceptableAlgo_def
      KeyAlgoRSA_def min_def)
  show ?thesis
    by (rule publickey_login [where sg = small_key_signer and as = "[]" and algo = KeyAlgoRSA and kb = kb and sw' = "()" and
          cb = "\<lambda>w user key. (w, if key = rsaPublicKey 3 77 then Inr None else Inl ())", OF _ _ _ _ _ _ _ g])
      (use kb l in \<open>simp_all add: small_key_config_def small_key_signer_def sourceOption_def isAcceptableAlgo_def del: MarshalKey.simps\<close>)
qed

text \<open>The same with a password: the client first asks without credentials, is told the methods there are, and
  gets in with the password the callback accepts.\<close>

theorem password_login:
  assumes "hostKeys cfg \<noteq> []" "\<not> NoClientAuth cfg" "PasswordCallback cfg = Some cb" "cb sw (User ccfg) pw = (sw', Inr perms)"
    "Auth ccfg = Password pw # as" "length (User ccfg) + length pw + 100 < 2 ^ 32"
  shows "logs_in cr net addr session ccfg cw cfg sw perms"
  using assms by (rule password_logs_in)

theorem password_login_witness:
  "logs_in small_crypto small_net NoAddr [9] \<lparr>User = [117], Auth = [Password [112], noneAuth]\<rparr> () small_auth_config () None"
  by (rule password_login [where pw = "[112]" and as = "[noneAuth]" and sw' = "()"
        and cb = "\<lambda>w user pw. (w, if user = [117] \<and> pw = [112] then Inr None else Inl ())"])
    (simp_all add: small_auth_config_def)

text \<open>C20: keyboard-interactive authentication carries a dialog of the two callbacks, of any number of rounds, unchanged:
  when the client's callback answering the server's callback directly ends with its consent, then the client and the
  server that have them let each other in. The client's callback is not shown the user the server names.\<close>

theorem keyboard_login:
  assumes "hostKeys cfg \<noteq> []" "\<not> NoClientAuth cfg" "KeyboardInteractiveCallback cfg = Some scb"
    "Auth ccfg = KeyboardInteractiveChallenge ccb # as" "length (User ccfg) + 100 < 2 ^ 32"
    "converse ccb cw (scb sw (User ccfg)) = Some (cw', sw', Inr perms)"
  shows "logs_in cr net addr session ccfg cw cfg sw perms"
  using assms by (rule keyboard_logs_in)

text \<open>Two rounds: the second question shows the answer to the first, the client counts the questions.\<close>

definition small_dialog :: "nat \<Rightarrow> bytes \<Rightarrow> (unit, nat) dialog" where
  "small_dialog w user = Challenges [105] [[113], [114]] [True, False] (\<lambda>r. case r of
       Inl e \<Rightarrow> Answers w (Inl ())
     | Inr as \<Rightarrow> Challenges [] [hd as] [False] (\<lambda>r'. Answers (w + 1) (if r' = Inr [user] then Inr None else Inl ())))"

definition small_answers :: "nat \<Rightarrow> bytes \<Rightarrow> bytes \<Rightarrow> bytes list \<Rightarrow> bool list \<Rightarrow> nat \<times> (unit + bytes list)" where
  "small_answers n user i qs es = (n + length qs, Inr (map (\<lambda>q. [117]) qs))"

definition small_dialog_config :: "(nat, unit, nat) auth_config" where
  "small_dialog_config = \<lparr>hostKeys = [1], NoClientAuth = False, PasswordCallback = None, PublicKeyCallback = None,
     KeyboardInteractiveCallback = Some small_dialog, AuthLogCallback = None, ServerVersion = []\<rparr>"

theorem keyboard_login_witness:
  "logs_in small_crypto small_net NoAddr [9]
     \<lparr>User = [117], Auth = [KeyboardInteractiveChallenge small_answers]\<rparr> 0 small_dialog_config 4 None"
  by (rule keyboard_login [where scb = small_dialog and as = "[]" and cw' = 3 and sw' = 5 and ccb = small_answers])
    (simp_all add: small_dialog_config_def small_dialog_def small_answers_def)


definition small_link :: "unit link" where
  "small_link = \<lparr>q_in = map Inr [[21], 6 # writeString serviceUserAuth, [53, 0], 51 # writeString (bytes_of ''password'') @ [0],
     51 # writeString (bytes_of ''password,publickey'') @ [0]], q_out = [], q_writes = 9, q_world = ()\<rparr>"

definition small_client_config :: "(unit, unit) ClientConfig" where
  "small_client_config = \<lparr>User = [117], Auth = [Password [1], Password [2]]\<rparr>"

lemma small_client_gives_up:
  "(case clientHandshake small_crypto [] small_client_config None small_link of
      Ran (Inl (NoMethodsRemain t), c) \<Rightarrow> t = [bytes_of ''password'', bytes_of ''none''] | _ \<Rightarrow> False)"
  by code_simp


end
