(* ===== verification/Ssh_Session.thy ===== *)
theory Ssh_Session
  imports Ssh_Channel Ssh_Keys
begin

text \<open>
  Sessions of the client: \<^verbatim>\<open>session.go\<close> of the vendored package \<^verbatim>\<open>golang.org/x/crypto/ssh\<close>.

  The channel below is what \<open>SendRequest\<close> returns, with a state that is threaded through, and the requests that
  arrive on it. What is copied between the streams and the channel appears by the errors the copying ends with.
\<close>

section \<open>The session\<close>

datatype 'x session_error =
    RequestFailed 'x
      \<comment> \<open>the error of \<open>SendRequest\<close>\<close>
  | RequestRefused string
  | AlreadyStarted
  | NotStarted
  | AlreadySet string
  | PipeAfterStart string

text \<open>Where output goes: nowhere, to a writer of the application, or to the buffer of \<open>Output\<close>.\<close>

datatype sink = Discard | Writer nat | Buffer

datatype copyFunc =
    CopyStdin bool
      \<comment> \<open>from the pipe that is fed by \<open>Stdin\<close>, otherwise from an empty buffer\<close>
  | CopyStdout sink
  | CopyStderr sink

record Session =
  Stdin :: bool
      \<comment> \<open>not nil\<close>
  Stdout :: "sink option"
  Stderr :: "sink option"
  started :: bool
  copyFuncs :: "copyFunc list"
  stdinpipe :: bool
  stdoutpipe :: bool
  stderrpipe :: bool
  stdinPipeWriter :: bool
      \<comment> \<open>not nil\<close>

text \<open>\<open>SendRequest\<close> of the channel.\<close>

type_synonym ('w, 'x) requests = "'w \<Rightarrow> string \<Rightarrow> bool \<Rightarrow> bytes \<Rightarrow> 'w \<times> ('x + bool)"

text \<open>A request that wants a reply: the error, also when the peer refuses.\<close>

definition askPeer :: "('w, 'x) requests \<Rightarrow> string \<Rightarrow> panic + bytes \<Rightarrow> string \<Rightarrow> 'w \<Rightarrow> ('x session_error option \<times> 'w) step" where
  "askPeer SendRequest name body failure w =
     (case body of
        Inl p \<Rightarrow> Panicked p
      | Inr b \<Rightarrow>
          (case SendRequest w name True b of
             (w', Inl e) \<Rightarrow> Ran (Some (RequestFailed e), w')
           | (w', Inr ok) \<Rightarrow> Ran (if ok then None else Some (RequestRefused failure), w')))"

definition Setenv :: "('w, 'x) requests \<Rightarrow> bytes \<Rightarrow> bytes \<Rightarrow> 'w \<Rightarrow> ('x session_error option \<times> 'w) step" where
  "Setenv SendRequest name val w =
     askPeer SendRequest ''env'' (Marshal (anonymous [(''Name'', KString), (''Value'', KString)]) [VBytes name, VBytes val])
       ''ssh: setenv failed'' w"

text \<open>The loop over the modes, in the order the map gives them.\<close>

fun modeList :: "(8 word \<times> 32 word) list \<Rightarrow> panic + bytes" where
  "modeList [] = Inr [0]"
| "modeList ((k, v) # ms) =
     bind_sum (Marshal (anonymous [(''Key'', KUint8), (''Val'', KUint32)]) [VU8 k, VU32 v]) (\<lambda>kv.
       map_sum id (\<lambda>tm. kv @ tm) (modeList ms))"

definition ptyRequestMsg :: struct_type where
  "ptyRequestMsg = \<lparr>st_name = ''ptyRequestMsg'', st_tag = None, st_fields =
     [(''Term'', KString), (''Columns'', KUint32), (''Rows'', KUint32), (''Width'', KUint32), (''Height'', KUint32), (''Modelist'', KString)]\<rparr>"

text \<open>\<open>h\<close> and \<open>w\<close> are 64-bit integers, converted to 32 bits.\<close>

definition RequestPty :: "('w, 'x) requests \<Rightarrow> bytes \<Rightarrow> 64 word \<Rightarrow> 64 word \<Rightarrow> (8 word \<times> 32 word) list \<Rightarrow> 'w \<Rightarrow>
    ('x session_error option \<times> 'w) step" where
  "RequestPty SendRequest term h wd termmodes w =
     askPeer SendRequest ''pty-req''
       (bind_sum (modeList termmodes) (\<lambda>tm.
          Marshal ptyRequestMsg [VBytes term, VU32 (ucast wd), VU32 (ucast h), VU32 (ucast (wd * 8)), VU32 (ucast (h * 8)), VBytes tm]))
       ''ssh: pty-req failed'' w"

definition RequestSubsystem :: "('w, 'x) requests \<Rightarrow> bytes \<Rightarrow> 'w \<Rightarrow> ('x session_error option \<times> 'w) step" where
  "RequestSubsystem SendRequest subsystem w =
     askPeer SendRequest ''subsystem'' (Marshal (anonymous [(''Subsystem'', KString)]) [VBytes subsystem]) ''ssh: subsystem request failed'' w"

text \<open>\<open>Signal\<close> wants no reply.\<close>

definition SendSignal :: "('w, 'x) requests \<Rightarrow> bytes \<Rightarrow> 'w \<Rightarrow> ('x session_error option \<times> 'w) step" where
  "SendSignal SendRequest sig w =
     (case Marshal (anonymous [(''Signal'', KString)]) [VBytes sig] of
        Inl p \<Rightarrow> Panicked p
      | Inr b \<Rightarrow>
          (case SendRequest w ''signal'' False b of
             (w', Inl e) \<Rightarrow> Ran (Some (RequestFailed e), w')
           | (w', Inr ok) \<Rightarrow> Ran (None, w')))"

section \<open>Starting\<close>

definition stdin :: "Session \<Rightarrow> Session" where
  "stdin s =
     (if stdinpipe s then s
      else
        s\<lparr>stdinPipeWriter := stdinPipeWriter s \<or> Stdin s, copyFuncs := copyFuncs s @ [CopyStdin (Stdin s)]\<rparr>)"

definition given :: "sink option \<Rightarrow> sink" where
  "given out = (case out of None \<Rightarrow> Discard | Some k \<Rightarrow> k)"

definition stdout :: "Session \<Rightarrow> Session" where
  "stdout s =
     (if stdoutpipe s then s
      else s\<lparr>Stdout := Some (given (Stdout s)), copyFuncs := copyFuncs s @ [CopyStdout (given (Stdout s))]\<rparr>)"

definition stderr :: "Session \<Rightarrow> Session" where
  "stderr s =
     (if stderrpipe s then s
      else s\<lparr>Stderr := Some (given (Stderr s)), copyFuncs := copyFuncs s @ [CopyStderr (given (Stderr s))]\<rparr>)"

text \<open>\<open>start\<close>; a goroutine for each of \<open>copyFuncs\<close> runs from now on.\<close>

definition start :: "Session \<Rightarrow> Session" where
  "start s = stderr (stdout (stdin (s\<lparr>started := True\<rparr>)))"

definition startWith :: "('w, 'x) requests \<Rightarrow> string \<Rightarrow> panic + bytes \<Rightarrow> string \<Rightarrow> Session \<Rightarrow> 'w \<Rightarrow>
    ('x session_error option \<times> Session \<times> 'w) step" where
  "startWith SendRequest name body failure s w =
     (if started s then Ran (Some AlreadyStarted, s, w)
      else and_then (askPeer SendRequest name body failure w) (\<lambda>(err, w').
             Ran (err, if err = None then start s else s, w')))"

definition Start_session :: "('w, 'x) requests \<Rightarrow> bytes \<Rightarrow> Session \<Rightarrow> 'w \<Rightarrow> ('x session_error option \<times> Session \<times> 'w) step" where
  "Start_session SendRequest cmd =
     startWith SendRequest ''exec'' (Marshal (anonymous [(''Command'', KString)]) [VBytes cmd]) (''ssh: command '' @ str cmd @ '' failed'')"

definition Shell :: "('w, 'x) requests \<Rightarrow> Session \<Rightarrow> 'w \<Rightarrow> ('x session_error option \<times> Session \<times> 'w) step" where
  "Shell SendRequest = startWith SendRequest ''shell'' (Inr []) ''ssh: cound not start shell''"

definition StdinPipe :: "Session \<Rightarrow> 'x session_error option \<times> Session" where
  "StdinPipe s =
     (if Stdin s then (Some (AlreadySet ''Stdin''), s)
      else if started s then (Some (PipeAfterStart ''StdinPipe''), s)
      else (None, s\<lparr>stdinpipe := True\<rparr>))"

definition StdoutPipe :: "Session \<Rightarrow> 'x session_error option \<times> Session" where
  "StdoutPipe s =
     (if Stdout s \<noteq> None then (Some (AlreadySet ''Stdout''), s)
      else if started s then (Some (PipeAfterStart ''StdoutPipe''), s)
      else (None, s\<lparr>stdoutpipe := True\<rparr>))"

definition StderrPipe :: "Session \<Rightarrow> 'x session_error option \<times> Session" where
  "StderrPipe s =
     (if Stderr s \<noteq> None then (Some (AlreadySet ''Stderr''), s)
      else if started s then (Some (PipeAfterStart ''StderrPipe''), s)
      else (None, s\<lparr>stderrpipe := True\<rparr>))"

section \<open>The end of the command\<close>

record Waitmsg =
  status :: int
  sig_name :: bytes
  sig_msg :: bytes
  sig_lang :: bytes

datatype exit_error =
    ExitError Waitmsg
  | NoExitStatus
  | BadSignal wire_error

definition signals :: "(bytes \<times> int) list" where
  "signals = [(bytes_of ''ABRT'', 6), (bytes_of ''ALRM'', 14), (bytes_of ''FPE'', 8), (bytes_of ''HUP'', 1), (bytes_of ''ILL'', 4),
     (bytes_of ''INT'', 2), (bytes_of ''KILL'', 9), (bytes_of ''PIPE'', 13), (bytes_of ''QUIT'', 3), (bytes_of ''SEGV'', 11),
     (bytes_of ''TERM'', 15)]"

definition sigval :: struct_type where
  "sigval = anonymous [(''Signal'', KString), (''CoreDumped'', KBool), (''Error'', KString), (''Lang'', KString)]"

text \<open>After the channel of requests was closed.\<close>

definition exitError :: "Waitmsg \<Rightarrow> exit_error option" where
  "exitError wm =
     (if status wm = 0 then None
      else if status wm = - 1 then
        (if sig_name wm = [] then Some NoExitStatus
         else Some (ExitError (wm\<lparr>status := (case map_of signals (sig_name wm) of None \<Rightarrow> 128 | Some n \<Rightarrow> 128 + n)\<rparr>)))
      else Some (ExitError wm))"

text \<open>One request of the peer. Requests of other types are refused if the peer wants a reply.\<close>

definition exitStatusType :: bytes where "exitStatusType = bytes_of ''exit-status''"
definition exitSignalType :: bytes where "exitSignalType = bytes_of ''exit-signal''"

definition waitRequest :: "request \<Rightarrow> Waitmsg \<Rightarrow> (wire_error + Waitmsg) step" where
  "waitRequest r wm =
     (if r_Type r = exitStatusType then
        (if length (r_Payload r) < 4 then Panicked IndexOutOfRange else Ran (Inr (wm\<lparr>status := uint (be32 (r_Payload r))\<rparr>)))
      else if r_Type r = exitSignalType then
        (case Unmarshal (r_Payload r) sigval of
           Crash p \<Rightarrow> Panicked p
         | Malformed e \<Rightarrow> Ran (Inl e)
         | Parsed vs \<Rightarrow> Ran (Inr (wm\<lparr>sig_name := bytes_at vs 0, sig_msg := bytes_at vs 2, sig_lang := bytes_at vs 3\<rparr>)))
      else Ran (Inr wm))"

definition wantsRefusal :: "request \<Rightarrow> bool" where
  "wantsRefusal r \<longleftrightarrow> r_Type r \<notin> {exitStatusType, exitSignalType} \<and> r_WantReply r"

text \<open>The loop, over all requests until their channel is closed: the error, and the requests that were refused. An error
  leaves the rest of the requests where they are.\<close>

primrec waitLoop :: "Waitmsg \<Rightarrow> request list \<Rightarrow> (exit_error option \<times> request list) step" where
  "waitLoop wm [] = Ran (exitError wm, [])"
| "waitLoop wm (r # rs) =
     and_then (waitRequest r wm) (\<lambda>x.
       case x of
         Inl e \<Rightarrow> Ran (Some (BadSignal e), [])
       | Inr wm' \<Rightarrow>
           and_then (waitLoop wm' rs) (\<lambda>(e, refused). Ran (e, if wantsRefusal r then r # refused else refused)))"

definition wait :: "request list \<Rightarrow> (exit_error option \<times> request list) step" where
  "wait reqs = waitLoop \<lparr>status = - 1, sig_name = [], sig_msg = [], sig_lang = []\<rparr> reqs"

section \<open>Waiting for the end\<close>

datatype 'x wait_error =
    Exited exit_error
  | CopyError 'x
  | NotYetStarted

text \<open>What the goroutines of a session have sent: the end of the command, until \<open>Wait\<close> takes it, and the results of
  the copying in the order they came. \<open>pipeClosed\<close> tells that the pipe that feeds the input was closed.\<close>

record 'x running =
  exitStatus :: "exit_error option option"
  errors :: "'x option list"
  pipeClosed :: bool

definition Wait_exit :: "Session \<Rightarrow> 'x running \<Rightarrow> (exit_error option \<times> 'x running) step" where
  "Wait_exit s run =
     (case exitStatus run of
        None \<Rightarrow> Blocks
      | Some e \<Rightarrow> Ran (e, run\<lparr>exitStatus := None, pipeClosed := pipeClosed run \<or> stdinPipeWriter s\<rparr>))"

text \<open>The loop over \<open>copyFuncs\<close>: the first error is kept.\<close>

primrec Wait_copies :: "nat \<Rightarrow> 'x option \<Rightarrow> 'x running \<Rightarrow> ('x option \<times> 'x running) step" where
  "Wait_copies 0 copyError run = Ran (copyError, run)"
| "Wait_copies (Suc n) copyError run =
     (case errors run of
        [] \<Rightarrow> Blocks
      | e # es \<Rightarrow> Wait_copies n (if copyError = None then e else copyError) (run\<lparr>errors := es\<rparr>))"

definition waitError :: "exit_error option \<Rightarrow> 'x option \<Rightarrow> 'x wait_error option" where
  "waitError waitErr copyError = (case waitErr of Some e \<Rightarrow> Some (Exited e) | None \<Rightarrow> map_option CopyError copyError)"

definition Wait_session :: "Session \<Rightarrow> 'x running \<Rightarrow> ('x wait_error option \<times> 'x running) step" where
  "Wait_session s run =
     (if \<not> started s then Ran (Some NotYetStarted, run)
      else and_then (Wait_exit s run) (\<lambda>(waitErr, run1).
             and_then (Wait_copies (length (copyFuncs s)) None run1) (\<lambda>(copyError, run2).
               Ran (waitError waitErr copyError, run2))))"

text \<open>\<open>Run\<close>, where \<open>run\<close> is what the goroutines have sent when \<open>Wait\<close> looks.\<close>

definition Run :: "('w, 'x) requests \<Rightarrow> bytes \<Rightarrow> Session \<Rightarrow> 'w \<Rightarrow> 'x running \<Rightarrow>
    (('x session_error + 'x wait_error) option \<times> Session \<times> 'w) step" where
  "Run SendRequest cmd s w run =
     and_then (Start_session SendRequest cmd s w) (\<lambda>(err, s1, w1).
       case err of
         Some e \<Rightarrow> Ran (Some (Inl e), s1, w1)
       | None \<Rightarrow> and_then (Wait_session s1 run) (\<lambda>(e, run1). Ran (map_option Inr e, s1, w1)))"

definition Output :: "('w, 'x) requests \<Rightarrow> bytes \<Rightarrow> Session \<Rightarrow> 'w \<Rightarrow> 'x running \<Rightarrow>
    (('x session_error + 'x wait_error) option \<times> Session \<times> 'w) step" where
  "Output SendRequest cmd s w run =
     (if Stdout s \<noteq> None then Ran (Some (Inl (AlreadySet ''Stdout'')), s, w)
      else Run SendRequest cmd (s\<lparr>Stdout := Some Buffer\<rparr>) w run)"

definition CombinedOutput :: "('w, 'x) requests \<Rightarrow> bytes \<Rightarrow> Session \<Rightarrow> 'w \<Rightarrow> 'x running \<Rightarrow>
    (('x session_error + 'x wait_error) option \<times> Session \<times> 'w) step" where
  "CombinedOutput SendRequest cmd s w run =
     (if Stdout s \<noteq> None then Ran (Some (Inl (AlreadySet ''Stdout'')), s, w)
      else if Stderr s \<noteq> None then Ran (Some (Inl (AlreadySet ''Stderr'')), s, w)
      else Run SendRequest cmd (s\<lparr>Stdout := Some Buffer, Stderr := Some Buffer\<rparr>) w run)"

definition newSession :: Session where
  "newSession = \<lparr>Stdin = False, Stdout = None, Stderr = None, started = False, copyFuncs = [], stdinpipe = False,
     stdoutpipe = False, stderrpipe = False, stdinPipeWriter = False\<rparr>"

section \<open>What the end of the command is\<close>

text \<open>The last status and the last signal of a list of requests, and the error they come to.\<close>

definition short_status :: "request \<Rightarrow> bool" where
  "short_status r \<longleftrightarrow> r_Type r = exitStatusType \<and> length (r_Payload r) < 4"

definition signal_ok :: "request \<Rightarrow> bool" where
  "signal_ok r \<longleftrightarrow> (r_Type r = exitSignalType \<longrightarrow> (\<exists>vs. Unmarshal (r_Payload r) sigval = Parsed vs))"

definition last_status :: "request list \<Rightarrow> int option" where
  "last_status reqs =
     (case filter (\<lambda>r. r_Type r = exitStatusType) reqs of [] \<Rightarrow> None | rs \<Rightarrow> Some (uint (be32 (r_Payload (last rs)))))"

definition parsed_signal :: "request \<Rightarrow> bytes \<times> bytes \<times> bytes" where
  "parsed_signal r =
     (case Unmarshal (r_Payload r) sigval of Parsed vs \<Rightarrow> (bytes_at vs 0, bytes_at vs 2, bytes_at vs 3) | _ \<Rightarrow> ([], [], []))"

definition last_signal :: "request list \<Rightarrow> (bytes \<times> bytes \<times> bytes) option" where
  "last_signal reqs =
     (case filter (\<lambda>r. r_Type r = exitSignalType) reqs of [] \<Rightarrow> None | rs \<Rightarrow> Some (parsed_signal (last rs)))"

definition exit_outcome :: "int option \<Rightarrow> (bytes \<times> bytes \<times> bytes) option \<Rightarrow> exit_error option" where
  "exit_outcome st sg =
     (case (case sg of None \<Rightarrow> ([], [], []) | Some x \<Rightarrow> x) of (name, msg, lang) \<Rightarrow>
        (case st of
           Some n \<Rightarrow> if n = 0 then None else Some (ExitError \<lparr>status = n, sig_name = name, sig_msg = msg, sig_lang = lang\<rparr>)
         | None \<Rightarrow>
             if name = [] then Some NoExitStatus
             else Some (ExitError \<lparr>status = 128 + (case map_of signals name of None \<Rightarrow> 0 | Some k \<Rightarrow> k),
               sig_name = name, sig_msg = msg, sig_lang = lang\<rparr>)))"

text \<open>The loop started in the middle: what was seen before counts when nothing follows.\<close>

definition put_status :: "int option \<Rightarrow> Waitmsg \<Rightarrow> Waitmsg" where
  "put_status st wm = (case st of None \<Rightarrow> wm | Some n \<Rightarrow> wm\<lparr>status := n\<rparr>)"

definition put_signal :: "(bytes \<times> bytes \<times> bytes) option \<Rightarrow> Waitmsg \<Rightarrow> Waitmsg" where
  "put_signal sg wm = (case sg of None \<Rightarrow> wm | Some (name, msg, lang) \<Rightarrow> wm\<lparr>sig_name := name, sig_msg := msg, sig_lang := lang\<rparr>)"

definition seen :: "Waitmsg \<Rightarrow> request list \<Rightarrow> Waitmsg" where
  "seen wm reqs = put_signal (last_signal reqs) (put_status (last_status reqs) wm)"

lemmas puts = seen_def put_status_def put_signal_def

lemma types_differ [simp]: "exitStatusType \<noteq> exitSignalType" "exitSignalType \<noteq> exitStatusType"
  by (simp_all add: exitStatusType_def exitSignalType_def bytes_of_def)

lemma last_status_Cons:
  "last_status (r # rs) = (case last_status rs of Some n \<Rightarrow> Some n
     | None \<Rightarrow> if r_Type r = exitStatusType then Some (uint (be32 (r_Payload r))) else None)"
  by (auto simp: last_status_def split: list.splits)

lemma last_signal_Cons:
  "last_signal (r # rs) = (case last_signal rs of Some x \<Rightarrow> Some x
     | None \<Rightarrow> if r_Type r = exitSignalType then Some (parsed_signal r) else None)"
  by (auto simp: last_signal_def split: list.splits)

lemma seen_status:
  "r_Type r = exitStatusType \<Longrightarrow> seen wm (r # rs) = seen (wm\<lparr>status := uint (be32 (r_Payload r))\<rparr>) rs"
  by (cases "last_status rs"; cases "last_signal rs") (simp_all add: puts last_status_Cons last_signal_Cons)

lemma seen_signal:
  assumes "r_Type r = exitSignalType" "Unmarshal (r_Payload r) sigval = Parsed vs"
  shows "seen wm (r # rs) = seen (wm\<lparr>sig_name := bytes_at vs 0, sig_msg := bytes_at vs 2, sig_lang := bytes_at vs 3\<rparr>) rs"
  using assms
  by (cases "last_status rs"; cases "last_signal rs") (auto simp: puts last_status_Cons last_signal_Cons parsed_signal_def)

lemma seen_other:
  "r_Type r \<noteq> exitStatusType \<Longrightarrow> r_Type r \<noteq> exitSignalType \<Longrightarrow> seen wm (r # rs) = seen wm rs"
  by (cases "last_status rs"; cases "last_signal rs") (simp_all add: puts last_status_Cons last_signal_Cons)

lemma waitLoop_seen:
  "\<forall>r \<in> set reqs. signal_ok r \<Longrightarrow> waitLoop wm reqs =
     (if \<exists>r \<in> set reqs. short_status r then Panicked IndexOutOfRange
      else Ran (exitError (seen wm reqs), filter wantsRefusal reqs))"
proof (induction reqs arbitrary: wm)
  case Nil
  then show ?case by (simp add: puts last_status_def last_signal_def)
next
  case (Cons r rs)
  then have IH: "waitLoop wm' rs = (if \<exists>r \<in> set rs. short_status r then Panicked IndexOutOfRange
      else Ran (exitError (seen wm' rs), filter wantsRefusal rs))" for wm' by simp
  consider (status) "r_Type r = exitStatusType" | (signal) "r_Type r = exitSignalType"
    | (other) "r_Type r \<noteq> exitStatusType" "r_Type r \<noteq> exitSignalType" by blast
  then show ?case
  proof cases
    case status
    then have "\<not> wantsRefusal r" by (simp add: wantsRefusal_def)
    then show ?thesis using IH status by (simp add: waitRequest_def short_status_def seen_status)
  next
    case signal
    then obtain vs where "Unmarshal (r_Payload r) sigval = Parsed vs" using Cons.prems by (auto simp: signal_ok_def)
    moreover have "\<not> wantsRefusal r" using signal by (simp add: wantsRefusal_def)
    ultimately show ?thesis using signal IH by (simp add: waitRequest_def short_status_def seen_signal)
  next
    case other
    then show ?thesis using IH by (simp add: waitRequest_def short_status_def seen_other)
  qed
qed

lemma exitError_seen:
  "exitError (seen \<lparr>status = - 1, sig_name = [], sig_msg = [], sig_lang = []\<rparr> reqs) = exit_outcome (last_status reqs) (last_signal reqs)"
proof -
  have n: "last_status reqs = Some n \<Longrightarrow> 0 \<le> n" for n by (auto simp: last_status_def split: list.splits)
  show ?thesis
    by (cases "last_status reqs"; cases "last_signal reqs") (use n in \<open>auto simp: puts exitError_def exit_outcome_def split: option.splits\<close>)
qed

section \<open>Streams\<close>

text \<open>A session that was started copies each stream that has no pipe, once.\<close>

definition copies :: "Session \<Rightarrow> copyFunc list" where
  "copies s = (if stdinpipe s then [] else [CopyStdin (Stdin s)]) @ (if stdoutpipe s then [] else [CopyStdout (given (Stdout s))]) @
     (if stderrpipe s then [] else [CopyStderr (given (Stderr s))])"

definition streams_ok :: "Session \<Rightarrow> bool" where
  "streams_ok s \<longleftrightarrow> copyFuncs s = (if started s then copies s else []) \<and>
     (stdinPipeWriter s \<longleftrightarrow> started s \<and> Stdin s \<and> \<not> stdinpipe s)"

lemma newSession_ok: "streams_ok newSession"
  by (simp add: streams_ok_def newSession_def)

lemma start_ok: "streams_ok s \<Longrightarrow> \<not> started s \<Longrightarrow> streams_ok (start s) \<and> started (start s) \<and> length (copyFuncs (start s)) \<le> 3"
  by (auto simp: streams_ok_def start_def stdin_def stdout_def stderr_def copies_def given_def)

lemma startWith_ok: "streams_ok s \<Longrightarrow> startWith SendRequest name body failure s w = Ran (err, s', w') \<Longrightarrow> streams_ok s'"
  using start_ok by (auto simp: startWith_def and_then_Ran split: if_splits)

lemma pipes_ok:
  "streams_ok s \<Longrightarrow> streams_ok (snd (StdinPipe s))" "streams_ok s \<Longrightarrow> streams_ok (snd (StdoutPipe s))"
  "streams_ok s \<Longrightarrow> streams_ok (snd (StderrPipe s))"
  by (auto simp: streams_ok_def StdinPipe_def StdoutPipe_def StderrPipe_def)

text \<open>\<open>Wait\<close> returns once the command has ended and all copying has, and then with the first error of these.\<close>

definition firstError :: "'x option list \<Rightarrow> 'x option" where
  "firstError es = (case dropWhile (\<lambda>e. e = None) es of [] \<Rightarrow> None | e # _ \<Rightarrow> e)"

lemma Wait_copies_first:
  "Wait_copies n copyError run =
     (if n \<le> length (errors run)
      then Ran (if copyError = None then firstError (take n (errors run)) else copyError, run\<lparr>errors := drop n (errors run)\<rparr>)
      else Blocks)"
proof (induction n arbitrary: copyError run)
  case 0
  then show ?case by (simp add: firstError_def)
next
  case (Suc n)
  then show ?case by (cases "errors run") (auto simp: firstError_def)
qed

lemma Wait_session_returns:
  assumes "started s" "exitStatus run = Some e" "length (copyFuncs s) \<le> length (errors run)"
  shows "\<exists>run'. Wait_session s run = Ran (waitError e (firstError (take (length (copyFuncs s)) (errors run))), run')"
  using assms by (simp add: Wait_session_def Wait_exit_def Wait_copies_first)

text \<open>A second \<open>Wait\<close> waits for ever, unless the channel of the end is filled again, which nobody does.\<close>

lemma Wait_session_twice:
  assumes "Wait_session s run = Ran (e, run')" "started s"
  shows "Wait_session s run' = Blocks"
  using assms by (auto simp: Wait_session_def Wait_exit_def Wait_copies_first and_then_Ran split: option.splits if_splits)

section \<open>Properties\<close>

text \<open>C24: what \<open>Wait\<close> is told of the end of a command, for any requests of the peer whose exit signals are well formed:
  the last exit status counts, and is an error unless it is zero; without a status the last exit signal counts, as 128
  and the number of the signal, and a signal without a name is none. Requests of other kinds change nothing and are refused if they
  want a reply. But an exit status of less than four bytes makes the goroutine panic, and with it the program.\<close>

theorem wait_outcome:
  assumes "\<forall>r \<in> set reqs. signal_ok r"
  shows "wait reqs =
    (if \<exists>r \<in> set reqs. short_status r then Panicked IndexOutOfRange
     else Ran (exit_outcome (last_status reqs) (last_signal reqs), filter wantsRefusal reqs))"
  unfolding wait_def waitLoop_seen [OF assms] exitError_seen ..

definition small_exit :: "request list" where
  "small_exit =
     [\<lparr>r_Type = exitSignalType, r_WantReply = False, r_Payload = writeString (bytes_of ''TERM'') @ 0 # writeString [] @ writeString []\<rparr>,
      \<lparr>r_Type = bytes_of ''keepalive'', r_WantReply = True, r_Payload = []\<rparr>,
      \<lparr>r_Type = exitStatusType, r_WantReply = False, r_Payload = [1, 2]\<rparr>]"

lemma small_exit_ok: "list_all (\<lambda>r. case Unmarshal (r_Payload r) sigval of Parsed vs \<Rightarrow> True | _ \<Rightarrow> r_Type r \<noteq> exitSignalType) small_exit"
  by code_simp

lemma small_exit_short: "list_ex short_status small_exit"
  by code_simp

theorem wait_outcome_witness:
  "wait small_exit = Panicked IndexOutOfRange \<and> (\<exists>e refused. wait (take 2 small_exit) = Ran (e, refused) \<and> length refused = 1)"
proof -
  have ok: "\<forall>r \<in> set small_exit. signal_ok r"
  proof
    fix r assume "r \<in> set small_exit"
    then have "case Unmarshal (r_Payload r) sigval of Parsed vs \<Rightarrow> True | _ \<Rightarrow> r_Type r \<noteq> exitSignalType"
      using small_exit_ok by (simp add: list_all_iff)
    then show "signal_ok r" by (cases "Unmarshal (r_Payload r) sigval") (auto simp: signal_ok_def)
  qed
  then have ok2: "\<forall>r \<in> set (take 2 small_exit). signal_ok r" using set_take_subset by fastforce
  have "\<exists>r \<in> set small_exit. short_status r" using small_exit_short by (simp add: list_ex_iff)
  moreover have "\<not> (\<exists>r \<in> set (take 2 small_exit). short_status r)" "length (filter wantsRefusal (take 2 small_exit)) = 1"
    by (simp_all add: small_exit_def short_status_def wantsRefusal_def exitStatusType_def exitSignalType_def bytes_of_def)
  ultimately show ?thesis using wait_outcome [OF ok] wait_outcome [OF ok2] by simp
qed

end
