(* ===== verification/Ssh_Forward.thy ===== *)
theory Ssh_Forward
  imports Ssh_Auth
begin

text \<open>
  Forwarded TCP connections of the client: \<^verbatim>\<open>tcpip.go\<close> of the vendored package \<^verbatim>\<open>golang.org/x/crypto/ssh\<close>.

  The list of forwards is shared by the goroutine that hands out the channels the server opens, by the listeners and by
  the goroutine that ends the connection. All of them lock its mutex; only \<open>forward\<close> can wait while it holds it, for
  room in the channel of a listener. So the state says whom it waits for, and the mutex is free when it does not.
\<close>

section \<open>Addresses\<close>

record TCPAddr =
  IP :: bytes
  Port :: "64 word"

text \<open>\<open>net.IP.Equal\<close>: an IPv4 address equals its form as an IPv6 address.\<close>

definition v4InV6Prefix :: bytes where
  "v4InV6Prefix = replicate 10 0 @ [0xff, 0xff]"

definition ip_Equal :: "bytes \<Rightarrow> bytes \<Rightarrow> bool" where
  "ip_Equal ip x =
     (if length ip = length x then ip = x
      else if length ip = 4 \<and> length x = 16 then take 12 x = v4InV6Prefix \<and> ip = drop 12 x
      else if length ip = 16 \<and> length x = 4 then take 12 ip = v4InV6Prefix \<and> drop 12 ip = x
      else False)"

datatype address_error = PortOutOfRange "32 word" | CannotParseIP bytes

definition parseTCPAddr :: "net_functions \<Rightarrow> bytes \<Rightarrow> 32 word \<Rightarrow> address_error + TCPAddr" where
  "parseTCPAddr net addr port =
     (if port = 0 \<or> port > 65535 then Inl (PortOutOfRange port)
      else (case ParseIP net addr of None \<Rightarrow> Inl (CannotParseIP addr) | Some ip \<Rightarrow> Inr \<lparr>IP = ip, Port = ucast port\<rparr>))"

section \<open>The list of forwards\<close>

text \<open>A forwarded connection: the channel the server asks for, by its number, and where it comes from.\<close>

record forward =
  newCh :: nat
  raddr :: TCPAddr

text \<open>A Go channel of forwards, of capacity one.\<close>

record forward_chan =
  waiting :: "forward list"
  closed :: bool

text \<open>Channels are numbered in the order they are made; \<open>sending\<close> is the send that holds the mutex.\<close>

record forwardList =
  entries :: "(TCPAddr \<times> nat) list"
  fchans :: "forward_chan list"
  sending :: "(nat \<times> forward) option"

definition no_forwards :: forwardList where
  "no_forwards = \<lparr>entries = [], fchans = [], sending = None\<rparr>"

definition locked :: "forwardList \<Rightarrow> bool" where
  "locked l \<longleftrightarrow> sending l \<noteq> None"

definition forwards_add :: "TCPAddr \<Rightarrow> forwardList \<Rightarrow> (nat \<times> forwardList) step" where
  "forwards_add addr l =
     (if locked l then Blocks
      else Ran (length (fchans l), l\<lparr>entries := entries l @ [(addr, length (fchans l))],
             fchans := fchans l @ [\<lparr>waiting = [], closed = False\<rparr>]\<rparr>))"

definition same_addr :: "TCPAddr \<Rightarrow> TCPAddr \<Rightarrow> bool" where
  "same_addr a b \<longleftrightarrow> ip_Equal (IP a) (IP b) \<and> Port a = Port b"

definition findEntry :: "TCPAddr \<Rightarrow> forwardList \<Rightarrow> (TCPAddr \<times> nat) option" where
  "findEntry laddr l = find (\<lambda>(a, c). same_addr laddr a) (entries l)"

text \<open>The send on channel \<open>c\<close>, when there is room.\<close>

definition push_forward :: "nat \<Rightarrow> forward \<Rightarrow> forwardList \<Rightarrow> forwardList" where
  "push_forward c f l = l\<lparr>fchans := (fchans l)[c := (fchans l ! c)\<lparr>waiting := waiting (fchans l ! c) @ [f]\<rparr>]\<rparr>"

definition forwards_forward :: "TCPAddr \<Rightarrow> forward \<Rightarrow> forwardList \<Rightarrow> (bool \<times> forwardList) step" where
  "forwards_forward laddr f l =
     (if locked l then Blocks
      else
        (case findEntry laddr l of
           None \<Rightarrow> Ran (False, l)
         | Some (_, c) \<Rightarrow>
             if closed (fchans l ! c) then Panicked SendOnClosed
             else if waiting (fchans l ! c) = [] then Ran (True, push_forward c f l)
             else Ran (True, l\<lparr>sending := Some (c, f)\<rparr>)))"

text \<open>The end of a send that had to wait; the mutex is free again.\<close>

definition forward_sent :: "forwardList \<Rightarrow> forwardList step" where
  "forward_sent l =
     (case sending l of
        None \<Rightarrow> Blocks
      | Some (c, f) \<Rightarrow>
          if closed (fchans l ! c) then Panicked SendOnClosed
          else if waiting (fchans l ! c) = [] then Ran ((push_forward c f l)\<lparr>sending := None\<rparr>)
          else Blocks)"

definition close_chan :: "nat \<Rightarrow> forwardList \<Rightarrow> forwardList step" where
  "close_chan c l =
     (if closed (fchans l ! c) then Panicked CloseOfClosed
      else Ran (l\<lparr>fchans := (fchans l)[c := (fchans l ! c)\<lparr>closed := True\<rparr>]\<rparr>))"

fun remove_first :: "('a \<Rightarrow> bool) \<Rightarrow> 'a list \<Rightarrow> 'a list" where
  "remove_first P [] = []"
| "remove_first P (x # xs) = (if P x then xs else x # remove_first P xs)"

definition forwards_remove :: "TCPAddr \<Rightarrow> forwardList \<Rightarrow> forwardList step" where
  "forwards_remove addr l =
     (if locked l then Blocks
      else
        (case findEntry addr l of
           None \<Rightarrow> Ran l
         | Some (_, c) \<Rightarrow> close_chan c (l\<lparr>entries := remove_first (\<lambda>(a, c). same_addr addr a) (entries l)\<rparr>)))"

fun close_chans :: "(TCPAddr \<times> nat) list \<Rightarrow> forwardList \<Rightarrow> forwardList step" where
  "close_chans [] l = Ran l"
| "close_chans ((a, c) # es) l = and_then (close_chan c l) (close_chans es)"

definition forwards_closeAll :: "forwardList \<Rightarrow> forwardList step" where
  "forwards_closeAll l =
     (if locked l then Blocks else and_then (close_chans (entries l) l) (\<lambda>l1. Ran (l1\<lparr>entries := []\<rparr>)))"

text \<open>Receiving from the channel of a listener: \<^const>\<open>None\<close> when it is closed and empty.\<close>

definition next_forward :: "nat \<Rightarrow> forwardList \<Rightarrow> (forward option \<times> forwardList) step" where
  "next_forward c l =
     (case waiting (fchans l ! c) of
        f # fs \<Rightarrow> Ran (Some f, l\<lparr>fchans := (fchans l)[c := (fchans l ! c)\<lparr>waiting := fs\<rparr>]\<rparr>)
      | [] \<Rightarrow> if closed (fchans l ! c) then Ran (None, l) else Blocks)"

section \<open>Channels the server opens\<close>

definition forwardedTCPPayload :: struct_type where
  "forwardedTCPPayload = \<lparr>st_name = ''forwardedTCPPayload'', st_tag = None, st_fields =
     [(''Addr'', KString), (''Port'', KUint32), (''OriginAddr'', KString), (''OriginPort'', KUint32)]\<rparr>"

datatype open_verdict =
    Forwarded
  | BadPayload wire_error
      \<comment> \<open>rejected with \<open>ConnectionFailed\<close>, as the next one\<close>
  | BadAddress address_error
  | NoForward
      \<comment> \<open>rejected with \<open>Prohibited\<close>\<close>

text \<open>The addresses of a payload: where the connection came in, and where it is from.\<close>

definition forwardedAddrs :: "net_functions \<Rightarrow> bytes \<Rightarrow> (open_verdict + TCPAddr \<times> TCPAddr) step" where
  "forwardedAddrs net extra =
     (case Unmarshal extra forwardedTCPPayload of
        Crash p \<Rightarrow> Panicked p
      | Malformed e \<Rightarrow> Ran (Inl (BadPayload e))
      | Parsed vs \<Rightarrow>
          (case parseTCPAddr net (bytes_at vs 0) (u32_at vs 1) of
             Inl e \<Rightarrow> Ran (Inl (BadAddress e))
           | Inr laddr \<Rightarrow>
               (case parseTCPAddr net (bytes_at vs 2) (u32_at vs 3) of
                  Inl e \<Rightarrow> Ran (Inl (BadAddress e))
                | Inr ra \<Rightarrow> Ran (Inr (laddr, ra)))))"

text \<open>One turn of \<open>handleChannels\<close>, up to the send: what becomes of the channel \<open>ch\<close> with its extra data. There is one
  goroutine that runs it, so it waits as long as the send of the turn before.\<close>

definition handleForward :: "net_functions \<Rightarrow> bytes \<Rightarrow> nat \<Rightarrow> forwardList \<Rightarrow> (open_verdict \<times> forwardList) step" where
  "handleForward net extra ch l =
     (if locked l then Blocks
      else
        and_then (forwardedAddrs net extra) (\<lambda>r.
          case r of
            Inl v \<Rightarrow> Ran (v, l)
          | Inr (laddr, ra) \<Rightarrow>
              and_then (forwards_forward laddr \<lparr>newCh = ch, raddr = ra\<rparr> l) (\<lambda>(ok, l1).
                Ran (if ok then Forwarded else NoForward, l1))))"

section \<open>Listeners\<close>

text \<open>\<open>SendRequest\<close> of the connection, with its answer; and the text of an address.\<close>

type_synonym ('w, 'x) global_requests = "'w \<Rightarrow> string \<Rightarrow> bool \<Rightarrow> bytes \<Rightarrow> 'w \<times> ('x + bool \<times> bytes)"

datatype 'x tcp_error =
    SendFailed 'x
  | DeniedByPeer
  | BadAnswer wire_error
  | NoRandomPort "'x tcp_error"
  | CancelFailed
  | ListenerClosed
      \<comment> \<open>\<open>io.EOF\<close>\<close>
  | AcceptFailed 'x

record tcpListener =
  l_addr :: TCPAddr
  l_in :: nat

definition channelForwardMsg :: struct_type where
  "channelForwardMsg = \<lparr>st_name = ''channelForwardMsg'', st_tag = None, st_fields = [(''addr'', KString), (''rport'', KUint32)]\<rparr>"

definition forwardMsg :: "(bytes \<Rightarrow> bytes) \<Rightarrow> TCPAddr \<Rightarrow> panic + bytes" where
  "forwardMsg ip_String a = Marshal channelForwardMsg [VBytes (ip_String (IP a)), VU32 (ucast (Port a))]"

text \<open>\<open>isBrokenOpenSSHVersion\<close>; digits that are missing give version 0.\<close>

definition openSSHPrefix :: string where "openSSHPrefix = ''OpenSSH_''"

fun afterPrefix :: "string \<Rightarrow> string \<Rightarrow> string option" where
  "afterPrefix p s =
     (if take (length p) s = p then Some (drop (length p) s) else case s of [] \<Rightarrow> None | _ # s' \<Rightarrow> afterPrefix p s')"

definition is_digit :: "char \<Rightarrow> bool" where
  "is_digit c \<longleftrightarrow> 48 \<le> (of_char c :: nat) \<and> (of_char c :: nat) \<le> 57"

definition isBrokenOpenSSHVersion :: "string \<Rightarrow> bool" where
  "isBrokenOpenSSHVersion versionStr =
     (case afterPrefix openSSHPrefix versionStr of
        None \<Rightarrow> False
      | Some rest \<Rightarrow> foldl (\<lambda>n c. n * 10 + (of_char c - 48)) 0 (takeWhile is_digit rest) < (6 :: nat))"

text \<open>\<open>ListenTCP\<close> after its first check.\<close>

definition listenOn :: "('w, 'x) global_requests \<Rightarrow> (bytes \<Rightarrow> bytes) \<Rightarrow> TCPAddr \<Rightarrow> 'w \<Rightarrow> forwardList \<Rightarrow>
    (('x tcp_error + tcpListener) \<times> 'w \<times> forwardList) step" where
  "listenOn SendRequest ip_String laddr w l =
     (case forwardMsg ip_String laddr of
        Inl p \<Rightarrow> Panicked p
      | Inr m \<Rightarrow>
          (case SendRequest w ''tcpip-forward'' True m of
             (w', Inl e) \<Rightarrow> Ran (Inl (SendFailed e), w', l)
           | (w', Inr (ok, resp)) \<Rightarrow>
               if \<not> ok then Ran (Inl DeniedByPeer, w', l)
               else
                 (case (if Port laddr = 0
                        then bind_parsed (Unmarshal resp (anonymous [(''Port'', KUint32)])) (\<lambda>p. Parsed (laddr\<lparr>Port := ucast (u32_at p 0)\<rparr>))
                        else Parsed laddr) of
                    Crash p \<Rightarrow> Panicked p
                  | Malformed e \<Rightarrow> Ran (Inl (BadAnswer e), w', l)
                  | Parsed laddr' \<Rightarrow>
                      and_then (forwards_add laddr' l) (\<lambda>(ch, l1). Ran (Inr \<lparr>l_addr = laddr', l_in = ch\<rparr>, w', l1)))))"

text \<open>The workaround tries the ports that are drawn, ten of them; \<open>err\<close> is the last error.\<close>

fun tryPorts :: "('w, 'x) global_requests \<Rightarrow> (bytes \<Rightarrow> bytes) \<Rightarrow> TCPAddr \<Rightarrow> nat list \<Rightarrow> 'x tcp_error \<Rightarrow> 'w \<Rightarrow> forwardList \<Rightarrow>
    (('x tcp_error + tcpListener) \<times> 'w \<times> forwardList) step" where
  "tryPorts SendRequest ip_String laddr [] err w l = Ran (Inl (NoRandomPort err), w, l)"
| "tryPorts SendRequest ip_String laddr (n # ns) err w l =
     and_then (listenOn SendRequest ip_String (laddr\<lparr>Port := 1024 + word_of_nat n\<rparr>) w l) (\<lambda>(r, w1, l1).
       case r of
         Inl e \<Rightarrow> tryPorts SendRequest ip_String laddr ns e w1 l1
       | Inr li \<Rightarrow> Ran (Inr li, w1, l1))"

definition ListenTCP :: "('w, 'x) global_requests \<Rightarrow> (bytes \<Rightarrow> bytes) \<Rightarrow> string \<Rightarrow> nat list \<Rightarrow> TCPAddr \<Rightarrow> 'w \<Rightarrow> forwardList \<Rightarrow>
    (('x tcp_error + tcpListener) \<times> 'w \<times> forwardList) step" where
  "ListenTCP SendRequest ip_String serverVersion draws laddr w l =
     (if Port laddr = 0 \<and> isBrokenOpenSSHVersion serverVersion
      then tryPorts SendRequest ip_String laddr (take 10 draws) DeniedByPeer w l
      else listenOn SendRequest ip_String laddr w l)"

text \<open>\<open>Accept\<close> of a listener, where \<open>accept\<close> is that of the channel; \<open>Close\<close>.\<close>

record 'c tcpChanConn =
  t_chan :: 'c
  t_laddr :: TCPAddr
  t_raddr :: TCPAddr

definition listener_Accept :: "(nat \<Rightarrow> 'x + 'c) \<Rightarrow> tcpListener \<Rightarrow> forwardList \<Rightarrow>
    (('x tcp_error + 'c tcpChanConn) \<times> forwardList) step" where
  "listener_Accept accept li l =
     and_then (next_forward (l_in li) l) (\<lambda>(r, l1).
       case r of
         None \<Rightarrow> Ran (Inl ListenerClosed, l1)
       | Some s \<Rightarrow>
           (case accept (newCh s) of
              Inl e \<Rightarrow> Ran (Inl (AcceptFailed e), l1)
            | Inr ch \<Rightarrow> Ran (Inr \<lparr>t_chan = ch, t_laddr = l_addr li, t_raddr = raddr s\<rparr>, l1)))"

definition listener_Close :: "('w, 'x) global_requests \<Rightarrow> (bytes \<Rightarrow> bytes) \<Rightarrow> tcpListener \<Rightarrow> 'w \<Rightarrow> forwardList \<Rightarrow>
    ('x tcp_error option \<times> 'w \<times> forwardList) step" where
  "listener_Close SendRequest ip_String li w l =
     and_then (forwards_remove (l_addr li) l) (\<lambda>l1.
       case forwardMsg ip_String (l_addr li) of
         Inl p \<Rightarrow> Panicked p
       | Inr m \<Rightarrow>
           (case SendRequest w ''cancel-tcpip-forward'' True m of
              (w', Inl e) \<Rightarrow> Ran (Some (SendFailed e), w', l1)
            | (w', Inr (ok, resp)) \<Rightarrow> Ran (if ok then None else Some CancelFailed, w', l1)))"

section \<open>Connections to the other side\<close>

definition channelOpenDirectMsg :: struct_type where
  "channelOpenDirectMsg = \<lparr>st_name = ''channelOpenDirectMsg'', st_tag = None, st_fields =
     [(''raddr'', KString), (''rport'', KUint32), (''laddr'', KString), (''lport'', KUint32)]\<rparr>"

definition IPv4zero :: bytes where
  "IPv4zero = v4InV6Prefix @ [0, 0, 0, 0]"

definition dial :: "('w \<Rightarrow> string \<Rightarrow> bytes \<Rightarrow> 'w \<times> ('x + 'c)) \<Rightarrow> bytes \<Rightarrow> 64 word \<Rightarrow> bytes \<Rightarrow> 64 word \<Rightarrow> 'w \<Rightarrow> (('x + 'c) \<times> 'w) step" where
  "dial OpenChannel la lport ra rport w =
     (case Marshal channelOpenDirectMsg [VBytes ra, VU32 (ucast rport), VBytes la, VU32 (ucast lport)] of
        Inl p \<Rightarrow> Panicked p
      | Inr m \<Rightarrow> (case OpenChannel w ''direct-tcpip'' m of (w', r) \<Rightarrow> Ran (r, w')))"

definition DialTCP :: "('w \<Rightarrow> string \<Rightarrow> bytes \<Rightarrow> 'w \<times> ('x + 'c)) \<Rightarrow> (bytes \<Rightarrow> bytes) \<Rightarrow> TCPAddr option \<Rightarrow> TCPAddr \<Rightarrow> 'w \<Rightarrow>
    (('x + 'c tcpChanConn) \<times> 'w) step" where
  "DialTCP OpenChannel ip_String la ra w =
     (let laddr = (case la of None \<Rightarrow> \<lparr>IP = IPv4zero, Port = 0\<rparr> | Some a \<Rightarrow> a)
      in and_then (dial OpenChannel (ip_String (IP laddr)) (Port laddr) (ip_String (IP ra)) (Port ra) w) (\<lambda>(r, w').
           Ran (map_sum id (\<lambda>ch. \<lparr>t_chan = ch, t_laddr = laddr, t_raddr = ra\<rparr>) r, w')))"

section \<open>The goroutines together\<close>

datatype forward_event =
    AddForward TCPAddr
  | OpenForward bytes nat
  | SentForward
  | RemoveForward TCPAddr
  | CloseForwards
  | AcceptForward nat

definition forward_step :: "net_functions \<Rightarrow> forward_event \<Rightarrow> forwardList \<Rightarrow> forwardList step" where
  "forward_step net ev l =
     (case ev of
        AddForward a \<Rightarrow> and_then (forwards_add a l) (\<lambda>(c, l1). Ran l1)
      | OpenForward extra ch \<Rightarrow> and_then (handleForward net extra ch l) (\<lambda>(v, l1). Ran l1)
      | SentForward \<Rightarrow> forward_sent l
      | RemoveForward a \<Rightarrow> forwards_remove a l
      | CloseForwards \<Rightarrow> forwards_closeAll l
      | AcceptForward c \<Rightarrow> and_then (next_forward c l) (\<lambda>(r, l1). Ran l1))"

text \<open>Runs: the events in the order they happen. A listener only receives from a channel that was made.\<close>

inductive forward_run :: "net_functions \<Rightarrow> forwardList \<Rightarrow> forward_event list \<Rightarrow> forwardList \<Rightarrow> bool" for net where
  forward_start: "forward_run net l [] l"
| forward_next: "forward_run net l es l1 \<Longrightarrow> forward_step net ev l1 = Ran l2 \<Longrightarrow>
     (\<forall>c. ev = AcceptForward c \<longrightarrow> c < length (fchans l1)) \<Longrightarrow> forward_run net l (es @ [ev]) l2"

section \<open>The invariant\<close>

text \<open>The channels of the entries are different ones and open, and a waiting send is to one of them.\<close>

definition forwards_ok :: "forwardList \<Rightarrow> bool" where
  "forwards_ok l \<longleftrightarrow>
     distinct (map snd (entries l)) \<and>
     (\<forall>c \<in> snd ` set (entries l). c < length (fchans l) \<and> \<not> closed (fchans l ! c)) \<and>
     (\<forall>c < length (fchans l). length (waiting (fchans l ! c)) \<le> 1) \<and>
     (\<forall>c f. sending l = Some (c, f) \<longrightarrow> c \<in> snd ` set (entries l))"

lemma no_forwards_ok: "forwards_ok no_forwards"
  by (simp add: forwards_ok_def no_forwards_def)

lemma findEntry_Some: "findEntry a l = Some (b, c) \<Longrightarrow> (b, c) \<in> set (entries l) \<and> same_addr a b"
  using nth_mem by (fastforce simp: findEntry_def find_Some_iff)

lemma remove_first_find:
  "find P xs = Some x \<Longrightarrow> \<exists>ys zs. xs = ys @ x # zs \<and> remove_first P xs = ys @ zs"
proof (induction xs)
  case (Cons y ys)
  show ?case
  proof (cases "P y")
    case True
    then show ?thesis using Cons.prems by (intro exI [of _ "[]"] exI [of _ ys]) simp
  next
    case False
    then obtain us zs where "ys = us @ x # zs" "remove_first P ys = us @ zs" using Cons by auto
    then show ?thesis using False by (intro exI [of _ "y # us"] exI [of _ zs]) simp
  qed
qed simp

lemma remove_entry:
  assumes "findEntry a l = Some (b, c)"
  obtains ys zs where "entries l = ys @ (b, c) # zs" "remove_first (\<lambda>(b, c). same_addr a b) (entries l) = ys @ zs"
  using remove_first_find [OF assms [unfolded findEntry_def]] by blast

lemma close_chans_ok:
  "distinct (map snd es) \<Longrightarrow> \<forall>c \<in> snd ` set es. c < length (fchans l) \<and> \<not> closed (fchans l ! c) \<Longrightarrow>
     \<exists>l'. close_chans es l = Ran l' \<and> length (fchans l') = length (fchans l) \<and>
       (\<forall>c < length (fchans l). waiting (fchans l' ! c) = waiting (fchans l ! c)) \<and> sending l' = sending l"
proof (induction es arbitrary: l)
  case (Cons e es)
  obtain a c where e: "e = (a, c)" by (cases e)
  let ?l = "l\<lparr>fchans := (fchans l)[c := (fchans l ! c)\<lparr>closed := True\<rparr>]\<rparr>"
  have c: "c < length (fchans l)" "close_chan c l = Ran ?l" using Cons.prems e by (simp_all add: close_chan_def)
  have d: "distinct (map snd es)" "\<forall>c \<in> snd ` set es. c < length (fchans ?l) \<and> \<not> closed (fchans ?l ! c)"
    using Cons.prems e by (auto simp: nth_list_update)
  obtain l' where "close_chans es ?l = Ran l'" "length (fchans l') = length (fchans l)"
    "\<forall>c < length (fchans l). waiting (fchans l' ! c) = waiting (fchans ?l ! c)" "sending l' = sending l"
    using Cons.IH [OF d] by auto
  then show ?case using c e by (auto simp: nth_list_update)
qed simp

text \<open>No step panics but for a payload that crashes \<open>Unmarshal\<close>, and the invariant is kept.\<close>

lemma forwards_okD:
  assumes "forwards_ok l" "c \<in> snd ` set (entries l)"
  shows "c < length (fchans l)" "\<not> closed (fchans l ! c)"
  using assms by (auto simp: forwards_ok_def)

lemma push_ok:
  assumes "forwards_ok l" "c \<in> snd ` set (entries l)" "waiting (fchans l ! c) = []"
  shows "forwards_ok (push_forward c f l)" "forwards_ok ((push_forward c f l)\<lparr>sending := None\<rparr>)"
  using assms forwards_okD [OF assms(1,2)] unfolding forwards_ok_def push_forward_def
  by (simp_all add: nth_list_update)

lemma forward_ok:
  assumes "forwards_ok l" "\<not> locked l"
  shows "\<exists>ok l'. forwards_forward a f l = Ran (ok, l') \<and> forwards_ok l'"
proof (cases "findEntry a l")
  case None
  then show ?thesis using assms by (auto simp: forwards_forward_def)
next
  case (Some e)
  obtain b c where e: "e = (b, c)" by (cases e)
  then have c: "c \<in> snd ` set (entries l)" using findEntry_Some Some by force
  have "forwards_ok (l\<lparr>sending := Some (c, f)\<rparr>)" using assms(1) c by (simp add: forwards_ok_def)
  then show ?thesis using Some e forwards_okD [OF assms(1) c] push_ok(1) [OF assms(1) c] assms(2)
    by (auto simp: forwards_forward_def)
qed

lemma sent_ok: "forwards_ok l \<Longrightarrow> forward_sent l = Blocks \<or> (\<exists>l'. forward_sent l = Ran l' \<and> forwards_ok l')"
proof (cases "sending l")
  case (Some x)
  moreover assume ok: "forwards_ok l"
  moreover obtain c f where "x = (c, f)" by (cases x)
  ultimately have c: "c \<in> snd ` set (entries l)" "sending l = Some (c, f)" by (simp_all add: forwards_ok_def)
  then show ?thesis using forwards_okD [OF ok c(1)] push_ok(2) [OF ok c(1)] by (simp add: forward_sent_def)
qed (simp add: forward_sent_def)

lemma remove_ok:
  assumes "forwards_ok l" "\<not> locked l"
  shows "\<exists>l'. forwards_remove a l = Ran l' \<and> forwards_ok l'"
proof (cases "findEntry a l")
  case None
  then show ?thesis using assms by (simp add: forwards_remove_def)
next
  case (Some e)
  obtain b c where e: "e = (b, c)" by (cases e)
  obtain ys zs where es: "entries l = ys @ (b, c) # zs" "remove_first (\<lambda>(b, c). same_addr a b) (entries l) = ys @ zs"
    using remove_entry Some e by blast
  then have c: "c \<in> snd ` set (entries l)" by force
  have "forwards_ok (l\<lparr>entries := ys @ zs, fchans := (fchans l)[c := (fchans l ! c)\<lparr>closed := True\<rparr>]\<rparr>)"
    using assms es forwards_okD [OF assms(1) c] unfolding forwards_ok_def locked_def
    by (auto simp: nth_list_update image_iff)
  then show ?thesis using Some e es forwards_okD [OF assms(1) c] assms(2)
    by (simp add: forwards_remove_def close_chan_def)
qed

lemma closeAll_ok:
  assumes "forwards_ok l" "\<not> locked l"
  shows "\<exists>l'. forwards_closeAll l = Ran l' \<and> forwards_ok l'"
proof -
  obtain l' where "close_chans (entries l) l = Ran l'" "length (fchans l') = length (fchans l)"
    "\<forall>c < length (fchans l). waiting (fchans l' ! c) = waiting (fchans l ! c)" "sending l' = sending l"
    using close_chans_ok [of "entries l" l] assms(1) unfolding forwards_ok_def by blast
  then show ?thesis using assms by (simp add: forwards_closeAll_def forwards_ok_def locked_def)
qed

lemma add_ok:
  assumes "forwards_ok l" "\<not> locked l"
  shows "\<exists>c l'. forwards_add a l = Ran (c, l') \<and> forwards_ok l'"
proof -
  have "length (fchans l) \<notin> snd ` set (entries l)" using forwards_okD [OF assms(1)] by blast
  then show ?thesis using assms unfolding forwards_ok_def locked_def
    by (auto simp: forwards_add_def locked_def nth_append less_Suc_eq)
qed

lemma next_ok:
  assumes "forwards_ok l" "c < length (fchans l)"
  shows "next_forward c l = Blocks \<or> (\<exists>r l'. next_forward c l = Ran (r, l') \<and> forwards_ok l')"
proof (cases "waiting (fchans l ! c)")
  case Nil
  then show ?thesis using assms by (simp add: next_forward_def)
next
  case (Cons f fs)
  then have "fs = []" using assms unfolding forwards_ok_def by (metis One_nat_def Suc_le_mono le_zero_eq length_0_conv length_Cons)
  then have "forwards_ok (l\<lparr>fchans := (fchans l)[c := (fchans l ! c)\<lparr>waiting := fs\<rparr>]\<rparr>)"
    using assms unfolding forwards_ok_def by (auto simp: nth_list_update)
  then show ?thesis using Cons by (simp add: next_forward_def)
qed

lemma forwardedAddrs_panics: "forwardedAddrs net extra = Panicked p \<Longrightarrow> Unmarshal extra forwardedTCPPayload = Crash p"
  by (auto simp: forwardedAddrs_def split: parsed.splits sum.splits)

lemma handle_ok:
  assumes "forwards_ok l"
  shows "case handleForward net extra ch l of
      Ran (v, l') \<Rightarrow> forwards_ok l' | Panicked p \<Rightarrow> Unmarshal extra forwardedTCPPayload = Crash p | Blocks \<Rightarrow> True"
proof (cases "locked l \<or> forwardedAddrs net extra = Blocks")
  case True
  then show ?thesis by (auto simp: handleForward_def)
next
  case False
  then consider (panic) p where "forwardedAddrs net extra = Panicked p" | (rejected) v where "forwardedAddrs net extra = Ran (Inl v)"
    | (addrs) la ra where "forwardedAddrs net extra = Ran (Inr (la, ra))"
    by (cases "forwardedAddrs net extra") (auto, metis old.prod.exhaust sum.exhaust)
  then show ?thesis
  proof cases
    case panic
    then show ?thesis using forwardedAddrs_panics False by (simp add: handleForward_def)
  next
    case rejected
    then show ?thesis using False assms by (simp add: handleForward_def)
  next
    case addrs
    then obtain ok l' where "forwards_forward la \<lparr>newCh = ch, raddr = ra\<rparr> l = Ran (ok, l')" "forwards_ok l'"
      using forward_ok assms False by blast
    then show ?thesis using addrs False by (simp add: handleForward_def)
  qed
qed

lemma forward_step_ok:
  assumes "forwards_ok l" "\<And>c. ev = AcceptForward c \<Longrightarrow> c < length (fchans l)"
  shows "case forward_step net ev l of
      Ran l' \<Rightarrow> forwards_ok l'
    | Panicked p \<Rightarrow> \<exists>extra ch. ev = OpenForward extra ch \<and> Unmarshal extra forwardedTCPPayload = Crash p
    | Blocks \<Rightarrow> True"
proof (cases ev)
  case (AddForward a)
  then show ?thesis using add_ok [OF assms(1), of a] by (cases "locked l") (auto simp: forward_step_def forwards_add_def)
next
  case (OpenForward extra ch)
  then show ?thesis using handle_ok [OF assms(1), where net = net and extra = extra and ch = ch]
    by (cases "handleForward net extra ch l") (auto simp: forward_step_def)
next
  case SentForward
  then show ?thesis using sent_ok [OF assms(1)] by (auto simp: forward_step_def)
next
  case (RemoveForward a)
  then show ?thesis using remove_ok [OF assms(1), of a] by (cases "locked l") (auto simp: forward_step_def forwards_remove_def)
next
  case CloseForwards
  then show ?thesis using closeAll_ok [OF assms(1)] by (cases "locked l") (auto simp: forward_step_def forwards_closeAll_def)
next
  case (AcceptForward c)
  then show ?thesis using next_ok [OF assms(1) assms(2)] by (auto simp: forward_step_def)
qed

lemma forward_run_ok: "forward_run net l es l' \<Longrightarrow> forwards_ok l \<Longrightarrow> forwards_ok l'"
proof (induction rule: forward_run.induct)
  case (forward_next l es l1 ev l2)
  then show ?case using forward_step_ok [of l1 ev net] by simp
qed

section \<open>Who gets which connection\<close>

text \<open>The addresses of the channels in the order they were made, and a connection that the server opened_for for one.\<close>

fun added :: "forward_event list \<Rightarrow> TCPAddr list" where
  "added [] = []"
| "added (AddForward a # es) = a # added es"
| "added (ev # es) = added es"

definition opened_for :: "net_functions \<Rightarrow> forward_event list \<Rightarrow> TCPAddr \<Rightarrow> forward \<Rightarrow> bool" where
  "opened_for net es a f \<longleftrightarrow>
     (\<exists>extra la. OpenForward extra (newCh f) \<in> set es \<and> forwardedAddrs net extra = Ran (Inr (la, raddr f)) \<and> same_addr la a)"

definition backed :: "net_functions \<Rightarrow> forward_event list \<Rightarrow> forwardList \<Rightarrow> bool" where
  "backed net es l \<longleftrightarrow>
     length (fchans l) = length (added es) \<and>
     (\<forall>a c. (a, c) \<in> set (entries l) \<longrightarrow> c < length (added es) \<and> a = added es ! c) \<and>
     (\<forall>c < length (added es). \<forall>f \<in> set (waiting (fchans l ! c)). opened_for net es (added es ! c) f) \<and>
     (\<forall>c f. sending l = Some (c, f) \<longrightarrow> c < length (added es) \<and> opened_for net es (added es ! c) f)"

lemma added_append: "added (es @ es') = added es @ added es'"
  by (induction es rule: added.induct) simp_all

lemma opened_for_mono: "opened_for net es a f \<Longrightarrow> opened_for net (es @ es') a f"
  by (auto simp: opened_for_def)

text \<open>A step that makes no channel keeps the addresses.\<close>

lemma backed_later: "backed net es l \<Longrightarrow> added [ev] = [] \<Longrightarrow> backed net (es @ [ev]) l"
  unfolding backed_def by (auto simp: added_append intro: opened_for_mono)

lemma backed_push:
  assumes "backed net es l" "c < length (fchans l)" "opened_for net es (added es ! c) f"
  shows "backed net es (push_forward c f l)" "backed net es ((push_forward c f l)\<lparr>sending := None\<rparr>)"
  using assms unfolding backed_def push_forward_def by (auto simp: nth_list_update)

lemma backed_same:
  assumes "backed net es l" "set (entries l') \<subseteq> set (entries l)" "length (fchans l') = length (fchans l)" "sending l' = sending l"
    "\<And>c. c < length (fchans l) \<Longrightarrow> set (waiting (fchans l' ! c)) \<subseteq> set (waiting (fchans l ! c))"
  shows "backed net es l'"
  using assms unfolding backed_def by (metis (no_types, lifting) subsetD)

lemma close_chan_same:
  assumes "close_chan c l = Ran l'" "c < length (fchans l)"
  shows "entries l' = entries l \<and> length (fchans l') = length (fchans l) \<and> sending l' = sending l \<and>
    (\<forall>d < length (fchans l). waiting (fchans l' ! d) = waiting (fchans l ! d))"
  using assms by (auto simp: close_chan_def nth_list_update split: if_splits)

lemma backed_handle:
  assumes b: "backed net es l" and ok: "forwards_ok l" and h: "handleForward net extra ch l = Ran (v, l')"
  shows "backed net (es @ [OpenForward extra ch]) l'"
proof -
  let ?es = "es @ [OpenForward extra ch]"
  have b': "backed net ?es l" using b by (rule backed_later) simp
  have u: "\<not> locked l" using h by (auto simp: handleForward_def split: if_splits)
  obtain r where r: "forwardedAddrs net extra = Ran r" using h u by (auto simp: handleForward_def and_then_Ran)
  show ?thesis
  proof (cases r)
    case (Inl e)
    then show ?thesis using h u r b' by (simp add: handleForward_def)
  next
    case (Inr x)
    obtain la ra where x: "x = (la, ra)" by (cases x)
    let ?f = "\<lparr>newCh = ch, raddr = ra\<rparr>"
    obtain k where k: "forwards_forward la ?f l = Ran (k, l')"
      using h u r Inr x by (auto simp: handleForward_def and_then_Ran)
    show ?thesis
    proof (cases "findEntry la l")
      case None
      then show ?thesis using k u b' by (simp add: forwards_forward_def)
    next
      case (Some e)
      obtain a c where e: "e = (a, c)" by (cases e)
      then have ac: "(a, c) \<in> set (entries l)" "same_addr la a" using findEntry_Some Some by blast+
      then have c: "c < length (added ?es)" "a = added ?es ! c" using b' unfolding backed_def by blast+
      have "opened_for net ?es (added ?es ! c) ?f"
        using r Inr x ac(2) c(2) unfolding opened_for_def by auto
      then show ?thesis using k u Some e b' c(1) backed_push(1) [of net ?es l c ?f]
        by (auto simp: forwards_forward_def backed_def split: if_splits)
    qed
  qed
qed

lemma backed_step:
  assumes "backed net es l" "forwards_ok l" "forward_step net ev l = Ran l'" "\<And>c. ev = AcceptForward c \<Longrightarrow> c < length (fchans l)"
  shows "backed net (es @ [ev]) l'"
proof (cases ev)
  case (AddForward a)
  then have "\<not> locked l" "l' = l\<lparr>entries := entries l @ [(a, length (fchans l))], fchans := fchans l @ [\<lparr>waiting = [], closed = False\<rparr>]\<rparr>"
    using assms(3) by (auto simp: forward_step_def forwards_add_def split: if_splits)
  then show ?thesis using assms(1) AddForward unfolding backed_def
    by (auto simp: added_append nth_append less_Suc_eq intro: opened_for_mono)
next
  case (OpenForward extra ch)
  then show ?thesis using assms(3) backed_handle [OF assms(1,2)] by (auto simp: forward_step_def and_then_Ran)
next
  case SentForward
  then have b: "backed net (es @ [ev]) l" using assms(1) backed_later by simp
  obtain c f where s: "sending l = Some (c, f)" "l' = (push_forward c f l)\<lparr>sending := None\<rparr>"
    using SentForward assms(3) by (auto simp: forward_step_def forward_sent_def split: option.splits if_splits)
  then have "c < length (fchans l)" "opened_for net (es @ [ev]) (added (es @ [ev]) ! c) f" using b unfolding backed_def by auto
  then show ?thesis using backed_push(2) [OF b] s(2) by simp
next
  case (RemoveForward a)
  then have b: "backed net (es @ [ev]) l" using assms(1) backed_later by simp
  have u: "\<not> locked l" using RemoveForward assms(3) by (auto simp: forward_step_def forwards_remove_def split: if_splits)
  show ?thesis
  proof (cases "findEntry a l")
    case None
    then show ?thesis using RemoveForward assms(3) u b by (simp add: forward_step_def forwards_remove_def)
  next
    case (Some e)
    obtain d c where e: "e = (d, c)" by (cases e)
    obtain ys zs where es: "entries l = ys @ (d, c) # zs" "remove_first (\<lambda>(b, c). same_addr a b) (entries l) = ys @ zs"
      using remove_entry Some e by blast
    then have "c \<in> snd ` set (entries l)" by force
    then have "c < length (fchans l)" by (rule forwards_okD [OF assms(2)])
    moreover have "close_chan c (l\<lparr>entries := ys @ zs\<rparr>) = Ran l'"
      using RemoveForward assms(3) u Some e es by (simp add: forward_step_def forwards_remove_def)
    ultimately show ?thesis using close_chan_same [of c "l\<lparr>entries := ys @ zs\<rparr>" l'] es(1)
      by (intro backed_same [OF b]) auto
  qed
next
  case CloseForwards
  then have b: "backed net (es @ [ev]) l" using assms(1) backed_later by simp
  obtain l1 where l1: "close_chans (entries l) l = Ran l1" "length (fchans l1) = length (fchans l)"
    "\<forall>c < length (fchans l). waiting (fchans l1 ! c) = waiting (fchans l ! c)" "sending l1 = sending l"
    using close_chans_ok [of "entries l" l] assms(2) unfolding forwards_ok_def by blast
  then have "l' = l1\<lparr>entries := []\<rparr>"
    using CloseForwards assms(3) by (auto simp: forward_step_def forwards_closeAll_def split: if_splits)
  then show ?thesis using l1 by (intro backed_same [OF b]) auto
next
  case (AcceptForward c)
  then have b: "backed net (es @ [ev]) l" using assms(1) backed_later by simp
  show ?thesis using AcceptForward assms(3,4)
    by (intro backed_same [OF b]) (auto simp: forward_step_def next_forward_def nth_list_update split: list.splits if_splits)
qed

lemma forward_run_backed: "forward_run net no_forwards es l \<Longrightarrow> backed net es l \<and> forwards_ok l"
proof (induction no_forwards es l rule: forward_run.induct)
  case forward_start
  then show ?case using no_forwards_ok by (simp add: backed_def no_forwards_def)
next
  case (forward_next es l1 ev l2)
  then show ?case using backed_step [of net es l1 ev l2] forward_step_ok [of l1 ev net] by simp
qed

section \<open>A listener that is not served\<close>

definition stuck_on :: "nat \<Rightarrow> forward \<Rightarrow> forwardList \<Rightarrow> bool" where
  "stuck_on c f l \<longleftrightarrow> sending l = Some (c, f) \<and> c < length (fchans l) \<and> waiting (fchans l ! c) \<noteq> []"

lemma stuck_on_step:
  assumes "stuck_on c f l" "forward_step net ev l = Ran l'" "ev \<noteq> AcceptForward c"
  shows "stuck_on c f l'"
  using assms
  by (cases ev) (auto simp: forward_step_def stuck_on_def forwards_add_def handleForward_def forward_sent_def forwards_remove_def
      forwards_closeAll_def locked_def next_forward_def nth_list_update split: list.splits if_splits)

lemma stuck_on_run: "forward_run net l es l' \<Longrightarrow> stuck_on c f l \<Longrightarrow> AcceptForward c \<notin> set es \<Longrightarrow> stuck_on c f l'"
  by (induction rule: forward_run.induct) (auto intro: stuck_on_step)

lemma stuck_on_blocks:
  "stuck_on c f l \<Longrightarrow> listener_Close SendRequest ip_String li w l = Blocks \<and> forwards_closeAll l = Blocks \<and>
     forwards_add a l = Blocks \<and> handleForward net extra ch l = Blocks"
  by (simp add: stuck_on_def listener_Close_def forwards_remove_def forwards_closeAll_def forwards_add_def handleForward_def locked_def)

section \<open>Properties\<close>

text \<open>C22: however the goroutines that use the list of forwards interleave, nothing panics but for a payload that crashes
  \<open>Unmarshal\<close> (no send on a closed channel, no second close), and a listener only gets connections that the server
  opened_for for its address, with the address they come from: the channel of a listener belongs to the address it was made for.\<close>

theorem forwards_delivered:
  assumes "forward_run net no_forwards es l"
  shows "(\<forall>ev p. forward_step net ev l = Panicked p \<longrightarrow> (\<forall>c. ev = AcceptForward c \<longrightarrow> c < length (fchans l)) \<longrightarrow>
      (\<exists>extra ch. ev = OpenForward extra ch \<and> Unmarshal extra forwardedTCPPayload = Crash p)) \<and>
    (\<forall>c f l'. c < length (fchans l) \<longrightarrow> next_forward c l = Ran (Some f, l') \<longrightarrow>
      (\<exists>extra la. OpenForward extra (newCh f) \<in> set es \<and> forwardedAddrs net extra = Ran (Inr (la, raddr f)) \<and>
         same_addr la (added es ! c)))"
proof -
  have l: "backed net es l" "forwards_ok l" using forward_run_backed [OF assms] by simp_all
  have "\<exists>extra ch. ev = OpenForward extra ch \<and> Unmarshal extra forwardedTCPPayload = Crash p"
    if "forward_step net ev l = Panicked p" "\<forall>c. ev = AcceptForward c \<longrightarrow> c < length (fchans l)" for ev p
    using forward_step_ok [OF l(2), of ev net] that by simp
  moreover have "opened_for net es (added es ! c) f" if "c < length (fchans l)" "next_forward c l = Ran (Some f, l')" for c f l'
  proof -
    have "f \<in> set (waiting (fchans l ! c))" using that(2) by (auto simp: next_forward_def split: list.splits if_splits)
    then show ?thesis using l(1) that(1) unfolding backed_def by simp
  qed
  ultimately show ?thesis unfolding opened_for_def by blast
qed

text \<open>Two connections for a listener that accepts none of them.\<close>

definition small_forward_net :: net_functions where
  "small_forward_net = \<lparr>ParseIP = Some, ParseCIDR = (\<lambda>b. None)\<rparr>"

definition small_addr :: TCPAddr where "small_addr = \<lparr>IP = [127, 0, 0, 1], Port = 80\<rparr>"

definition small_payload :: bytes where
  "small_payload = writeString [127, 0, 0, 1] @ u32be 80 @ writeString [10, 0, 0, 9] @ u32be 4711"

definition small_forward :: "nat \<Rightarrow> forward" where
  "small_forward n = \<lparr>newCh = n, raddr = \<lparr>IP = [10, 0, 0, 9], Port = 4711\<rparr>\<rparr>"

lemma small_payload_addrs: "forwardedAddrs small_forward_net small_payload = Ran (Inr (small_addr, raddr (small_forward n)))"
proof -
  have "case forwardedAddrs small_forward_net small_payload of Ran (Inr (a, b)) \<Rightarrow> a = small_addr \<and> b = raddr (small_forward 0) | _ \<Rightarrow> False"
    by code_simp
  then show ?thesis by (auto simp: small_forward_def split: step.splits sum.splits prod.splits)
qed

lemma small_forward_run:
  "forward_run small_forward_net no_forwards [AddForward small_addr, OpenForward small_payload 5, OpenForward small_payload 6]
     \<lparr>entries = [(small_addr, 0)], fchans = [\<lparr>waiting = [small_forward 5], closed = False\<rparr>], sending = Some (0, small_forward 6)\<rparr>"
proof -
  let ?l1 = "\<lparr>entries = [(small_addr, 0)], fchans = [\<lparr>waiting = [], closed = False\<rparr>], sending = None\<rparr>"
  let ?l2 = "\<lparr>entries = [(small_addr, 0)], fchans = [\<lparr>waiting = [small_forward 5], closed = False\<rparr>], sending = None\<rparr>"
  have f: "same_addr small_addr small_addr" by (simp add: same_addr_def ip_Equal_def)
  have n: "\<lparr>newCh = n, raddr = raddr (small_forward n)\<rparr> = small_forward n" for n by (simp add: small_forward_def)
  have 1: "forward_run small_forward_net no_forwards ([] @ [AddForward small_addr]) ?l1"
    by (rule forward_run.forward_next [OF forward_run.forward_start])
      (simp_all add: forward_step_def forwards_add_def no_forwards_def locked_def)
  have 2: "forward_run small_forward_net no_forwards (([] @ [AddForward small_addr]) @ [OpenForward small_payload 5]) ?l2"
    by (rule forward_run.forward_next [OF 1])
      (simp_all add: forward_step_def handleForward_def small_payload_addrs [of 5] n forwards_forward_def findEntry_def f locked_def push_forward_def)
  have "forward_run small_forward_net no_forwards ((([] @ [AddForward small_addr]) @ [OpenForward small_payload 5]) @ [OpenForward small_payload 6])
     (?l2\<lparr>sending := Some (0, small_forward 6)\<rparr>)"
    by (rule forward_run.forward_next [OF 2])
      (simp_all add: forward_step_def handleForward_def small_payload_addrs [of 6] n forwards_forward_def findEntry_def f locked_def)
  then show ?thesis by simp
qed

theorem forwards_delivered_witness:
  "\<exists>l. forward_run small_forward_net no_forwards [AddForward small_addr, OpenForward small_payload 5, OpenForward small_payload 6] l \<and>
     (\<forall>f l'. next_forward 0 l = Ran (Some f, l') \<longrightarrow> (\<exists>la. same_addr la small_addr))"
  using small_forward_run forwards_delivered [OF small_forward_run] by fastforce

text \<open>C23: when two connections wait for a listener, the goroutine that hands them out waits for room in its channel and
  holds the mutex of the list. As long as nobody accepts from this listener, and whatever else happens, no listener can
  be closed: \<open>Close\<close> waits for ever, and so do \<open>closeAll\<close> at the end of the connection, new listeners and the
  connections for all other listeners.\<close>

theorem listener_Close_waits:
  assumes "sending l = Some (c, f)" "c < length (fchans l)" "waiting (fchans l ! c) \<noteq> []"
    "forward_run net l es l'" "AcceptForward c \<notin> set es"
  shows "listener_Close SendRequest ip_String li w l' = Blocks \<and> forwards_closeAll l' = Blocks \<and>
    forwards_add a l' = Blocks \<and> handleForward net extra ch l' = Blocks"
proof -
  have "stuck_on c f l" using assms(1-3) by (simp add: stuck_on_def)
  then have "stuck_on c f l'" using stuck_on_run assms(4,5) by blast
  then show ?thesis by (rule stuck_on_blocks)
qed

theorem listener_Close_waits_witness:
  "\<exists>l. forward_run small_forward_net no_forwards [AddForward small_addr, OpenForward small_payload 5, OpenForward small_payload 6] l \<and>
     listener_Close (\<lambda>w name reply m. (w, (Inr (True, []) :: unit + _))) id \<lparr>l_addr = small_addr, l_in = 0\<rparr> () l = Blocks"
proof -
  let ?l = "\<lparr>entries = [(small_addr, 0)], fchans = [\<lparr>waiting = [small_forward 5], closed = False\<rparr>], sending = Some (0, small_forward 6)\<rparr>"
  have "listener_Close (\<lambda>w name reply m. (w, (Inr (True, []) :: unit + _))) id \<lparr>l_addr = small_addr, l_in = 0\<rparr> () ?l = Blocks"
    by (rule conjunct1 [OF listener_Close_waits [where c = 0 and f = "small_forward 6" and net = small_forward_net and es = "[]" and l = ?l]])
      (simp_all add: forward_run.forward_start)
  then show ?thesis using small_forward_run by blast
qed

end
