(* ===== verification/Term_History.thy ===== *)
theory Term_History
  imports Prelude
begin

text \<open>
  The history of a terminal (\<open>stRingBuffer\<close> of
  \<open>Godeps/_workspace/src/golang.org/x/crypto/ssh/terminal/terminal.go\<close>): a ring of the lines that were
  entered. The locale \<open>line_history\<close> is what the terminal relies on, the most recent lines as a list; the ring
  provides it.
\<close>

section \<open>The ring\<close>

text \<open>A slice that is nil is \<^const>\<open>None\<close>.\<close>

record stRingBuffer =
  rb_entries :: "string list option"
  rb_max :: nat
  rb_head :: nat
  rb_size :: nat

definition empty_ring :: stRingBuffer where
  "empty_ring = \<lparr>rb_entries = None, rb_max = 0, rb_head = 0, rb_size = 0\<rparr>"

definition defaultNumEntries :: nat where "defaultNumEntries = 100"

definition ring_init :: "stRingBuffer \<Rightarrow> stRingBuffer" where
  "ring_init s =
     (if rb_entries s = None
      then s\<lparr>rb_entries := Some (replicate defaultNumEntries []), rb_max := defaultNumEntries\<rparr> else s)"

definition ring_Add :: "string \<Rightarrow> stRingBuffer \<Rightarrow> stRingBuffer step" where
  "ring_Add a s0 =
     (let s = ring_init s0; es = (case rb_entries s of None \<Rightarrow> [] | Some es \<Rightarrow> es) in
      if rb_max s = 0 then Panicked DivideByZero
      else
        let head = (rb_head s + 1) mod rb_max s in
        if length es \<le> head then Panicked IndexOutOfRange
        else Ran (s\<lparr>rb_head := head, rb_entries := Some (es[head := a]),
          rb_size := (if rb_size s < rb_max s then rb_size s + 1 else rb_size s)\<rparr>))"

definition NthPreviousEntry :: "stRingBuffer \<Rightarrow> int \<Rightarrow> string option step" where
  "NthPreviousEntry s n =
     (if int (rb_size s) \<le> n then Ran None
      else
        let index = int (rb_head s) - n;
            index = (if index < 0 then index + int (rb_max s) else index);
            es = (case rb_entries s of None \<Rightarrow> [] | Some es \<Rightarrow> es) in
        if index < 0 \<or> int (length es) \<le> index then Panicked IndexOutOfRange
        else Ran (Some (es ! nat index)))"

section \<open>What the terminal relies on\<close>

locale line_history =
  fixes ok :: "'h \<Rightarrow> bool"
    and entries :: "'h \<Rightarrow> string list"
    and capacity :: nat
    and add :: "string \<Rightarrow> 'h \<Rightarrow> 'h step"
    and nth_back :: "'h \<Rightarrow> int \<Rightarrow> string option step"
  assumes add_law: "ok h \<Longrightarrow> \<exists>h'. add a h = Ran h' \<and> ok h' \<and> entries h' = take capacity (a # entries h)"
    and nth_law: "ok h \<Longrightarrow> 0 \<le> n \<Longrightarrow>
      nth_back h n = Ran (if nat n < length (entries h) then Some (entries h ! nat n) else None)"
begin

primrec add_all :: "string list \<Rightarrow> 'h \<Rightarrow> 'h step" where
  "add_all [] h = Ran h"
| "add_all (a # as) h = and_then (add a h) (add_all as)"

lemma add_all_entries:
  "ok h \<Longrightarrow> length (entries h) \<le> capacity \<Longrightarrow>
    \<exists>h'. add_all as h = Ran h' \<and> ok h' \<and> entries h' = take capacity (rev as @ entries h)"
proof (induction as arbitrary: h)
  case (Cons a as)
  obtain h1 where h1: "add a h = Ran h1" "ok h1" "entries h1 = take capacity (a # entries h)"
    using add_law [OF Cons.prems(1), of a] by blast
  have "length (entries h1) \<le> capacity" using h1(3) by simp
  with Cons.IH [OF h1(2)] obtain h' where "add_all as h1 = Ran h'" "ok h'"
    "entries h' = take capacity (rev as @ entries h1)" by blast
  then show ?case using h1 by (simp add: min_def take_Cons')
qed simp

text \<open>The \<open>n\<close>th previous entry is what the \<open>n\<close>th previous call of \<open>add\<close> was given.\<close>

lemma nth_of_calls:
  assumes "ok h" "entries h = []" "add_all as h = Ran h'" "n < length as" "n < capacity"
  shows "nth_back h' (int n) = Ran (Some (rev as ! n))"
proof -
  have h': "ok h'" "entries h' = take capacity (rev as)" using add_all_entries [OF assms(1), of as] assms(2,3) by auto
  show ?thesis using nth_law [OF h'(1), of "int n"] h'(2) assms(4,5) by simp
qed

end

section \<open>The ring provides it\<close>

definition ring_ok :: "stRingBuffer \<Rightarrow> bool" where
  "ring_ok s \<longleftrightarrow>
     (case rb_entries s of
        None \<Rightarrow> rb_size s = 0 \<and> rb_head s = 0
      | Some es \<Rightarrow> rb_max s = defaultNumEntries \<and> length es = rb_max s \<and> rb_head s < rb_max s \<and> rb_size s \<le> rb_max s)"

text \<open>The place of the \<open>i\<close>th previous entry, and the entries from the most recent one on.\<close>

definition ring_place :: "stRingBuffer \<Rightarrow> nat \<Rightarrow> nat" where
  "ring_place s i = (rb_head s + rb_max s - i) mod rb_max s"

definition ring_lines :: "stRingBuffer \<Rightarrow> string list" where
  "ring_lines s =
     (case rb_entries s of None \<Rightarrow> [] | Some es \<Rightarrow> map (\<lambda>i. es ! ring_place s i) [0..<rb_size s])"

lemma ring_init_ok:
  assumes "ring_ok s"
  obtains es where "rb_entries (ring_init s) = Some es" "length es = defaultNumEntries" "rb_max (ring_init s) = defaultNumEntries"
    "rb_head (ring_init s) < defaultNumEntries" "rb_size (ring_init s) \<le> defaultNumEntries" "ring_lines (ring_init s) = ring_lines s"
  using assms by (cases "rb_entries s") (auto simp: ring_ok_def ring_init_def ring_lines_def defaultNumEntries_def)

text \<open>After an addition the place of an entry is one further back.\<close>

lemma place_step:
  assumes "h < m" "Suc i < m"
  shows "((h + 1) mod m + m - Suc i) mod m = (h + m - i) mod m" "((h + 1) mod m + m - Suc i) mod m \<noteq> (h + 1) mod (m :: nat)"
proof -
  have "(h + 1) mod m = (if h + 1 = m then 0 else h + 1)" using assms by simp
  then show e: "((h + 1) mod m + m - Suc i) mod m = (h + m - i) mod m"
    using assms by (cases "h + 1 = m") (simp_all add: le_mod_geq)
  have "(h + m - i) mod m = (if i \<le> h then h - i else h + m - i)"
    using assms by (auto simp: mod_if)
  then show "((h + 1) mod m + m - Suc i) mod m \<noteq> (h + 1) mod m"
    using assms e by (cases "h + 1 = m") (auto split: if_splits)
qed

lemma ring_add_law:
  assumes "ring_ok s"
  shows "\<exists>s'. ring_Add a s = Ran s' \<and> ring_ok s' \<and> ring_lines s' = take defaultNumEntries (a # ring_lines s)"
proof -
  define m where "m = defaultNumEntries"
  have m: "0 < m" by (simp add: m_def defaultNumEntries_def)
  obtain es where es: "rb_entries (ring_init s) = Some es" "length es = m" "rb_max (ring_init s) = m"
    "rb_head (ring_init s) < m" "rb_size (ring_init s) \<le> m" "ring_lines (ring_init s) = ring_lines s"
    using ring_init_ok [OF assms] unfolding m_def by metis
  define h n where "h = rb_head (ring_init s)" and "n = rb_size (ring_init s)"
  define s' where "s' = (ring_init s)\<lparr>rb_head := (h + 1) mod m, rb_entries := Some (es[(h + 1) mod m := a]),
    rb_size := (if n < m then n + 1 else n)\<rparr>"
  have run: "ring_Add a s = Ran s'" using es m by (simp add: ring_Add_def Let_def s'_def h_def n_def not_le)
  have ok: "ring_ok s'" using es m by (simp add: ring_ok_def s'_def h_def n_def m_def)
  have old: "ring_lines s = map (\<lambda>i. es ! ((h + m - i) mod m)) [0..<n]"
    using es by (simp add: ring_lines_def ring_place_def h_def n_def flip: es(6))
  have len: "length (ring_lines s') = (if n < m then n + 1 else n)" by (simp add: ring_lines_def s'_def)
  have len': "length (ring_lines s) = n" by (simp add: old)
  have "n \<le> m" using es by (simp add: n_def)
  have "ring_lines s' = take m (a # ring_lines s)"
  proof (rule nth_equalityI)
    show "length (ring_lines s') = length (take m (a # ring_lines s))"
      using len len' m \<open>n \<le> m\<close> by simp
    fix i assume "i < length (ring_lines s')"
    then have i: "i < m" "i < Suc n" using es by (auto simp: ring_lines_def s'_def n_def split: if_splits)
    show "ring_lines s' ! i = take m (a # ring_lines s) ! i"
    proof (cases i)
      case 0
      then show ?thesis using es m by (simp add: ring_lines_def ring_place_def s'_def h_def)
    next
      case (Suc j)
      have h: "h < m" using es by (simp add: h_def)
      have "ring_lines s' ! i = es ! ((h + m - j) mod m)"
        using es i place_step [OF h, of j] Suc by (auto simp: ring_lines_def ring_place_def s'_def simp del: upt_Suc)
      then show ?thesis using i Suc by (simp add: old)
    qed
  qed
  with run ok show ?thesis by (auto simp: m_def)
qed

lemma ring_nth_law:
  assumes "ring_ok s" "0 \<le> n"
  shows "NthPreviousEntry s n = Ran (if nat n < length (ring_lines s) then Some (ring_lines s ! nat n) else None)"
proof (cases "nat n < rb_size s")
  case True
  then obtain es where es: "rb_entries s = Some es" "length es = rb_max s" "rb_head s < rb_max s" "rb_size s \<le> rb_max s"
    using assms by (auto simp: ring_ok_def split: option.splits)
  have n: "nat n < rb_max s" using True es by simp
  have "ring_place s (nat n) = (if nat n \<le> rb_head s then rb_head s - nat n else rb_head s + rb_max s - nat n)"
    using n es(3) by (auto simp: ring_place_def mod_if)
  then show ?thesis using True assms(2) es n by (auto simp: NthPreviousEntry_def ring_lines_def Let_def nat_diff_distrib nat_add_distrib
    intro!: arg_cong [where f = "(!) es"])
next
  case False
  have "length (ring_lines s) = rb_size s" using assms(1) by (auto simp: ring_lines_def ring_ok_def split: option.splits)
  then show ?thesis using False assms by (auto simp: NthPreviousEntry_def)
qed

interpretation ring: line_history ring_ok ring_lines defaultNumEntries ring_Add NthPreviousEntry
  by unfold_locales (use ring_add_law ring_nth_law in auto)

lemma ring_empty [simp]: "ring_ok empty_ring" "ring_lines empty_ring = []"
  by (simp_all add: ring_ok_def ring_lines_def empty_ring_def)

end
