(* ===== verification/Terminal.thy ===== *)
theory Terminal
  imports Go_Strings Term_History
begin

text \<open>
  The line editor of the terminal (\<open>Godeps/_workspace/src/golang.org/x/crypto/ssh/terminal/terminal.go\<close>): the keys
  in the input (\<open>bytesToKey\<close>), the bytes that move the cursor and draw the line, and \<open>handleKey\<close>. A line is a list of
  runes; what goes over the connection is bytes. Positions, lengths and the size of the window are natural numbers;
  a slice or index out of range panics, as does a division by a width of zero. The callback that completes a line is a
  parameter; it may keep a state of its own.
\<close>

section \<open>Runes\<close>

text \<open>The conversions between strings and slices of runes, and \<open>utf8.FullRune\<close>.\<close>

definition runes_of :: "string \<Rightarrow> nat list" where
  "runes_of s = map snd (rangeRunes 0 s)"

definition string_of :: "nat list \<Rightarrow> string" where
  "string_of rs = concat (map encodeRune rs)"

definition fullRune :: "string \<Rightarrow> bool" where
  "fullRune s \<longleftrightarrow>
     (let bs = map of_char s; n = length bs; c0 = bs ! 0 in
      n \<noteq> 0 \<and>
      (c0 < (0xC0 :: nat) \<or> 2 \<le> n \<and>
        (\<not> continuation (bs ! 1) \<or> c0 < 0xE0 \<or> 3 \<le> n \<and>
          (\<not> continuation (bs ! 2) \<or> c0 < 0xF0 \<or> 4 \<le> n))))"

section \<open>Keys\<close>

definition keyCtrlD :: nat where "keyCtrlD = 4"
definition keyCtrlU :: nat where "keyCtrlU = 21"
definition keyEnter :: nat where "keyEnter = 13"
definition keyEscape :: nat where "keyEscape = 27"
definition keyBackspace :: nat where "keyBackspace = 127"
definition keyUnknown :: nat where "keyUnknown = 0xD800 + 5"
definition keyUp :: nat where "keyUp = 0xD800 + 6"
definition keyDown :: nat where "keyDown = 0xD800 + 7"
definition keyLeft :: nat where "keyLeft = 0xD800 + 8"
definition keyRight :: nat where "keyRight = 0xD800 + 9"
definition keyAltLeft :: nat where "keyAltLeft = 0xD800 + 10"
definition keyAltRight :: nat where "keyAltRight = 0xD800 + 11"
definition keyHome :: nat where "keyHome = 0xD800 + 12"
definition keyEnd :: nat where "keyEnd = 0xD800 + 13"
definition keyDeleteWord :: nat where "keyDeleteWord = 0xD800 + 14"
definition keyDeleteLine :: nat where "keyDeleteLine = 0xD800 + 15"
definition keyClearScreen :: nat where "keyClearScreen = 0xD800 + 16"
definition keyPasteStart :: nat where "keyPasteStart = 0xD800 + 17"
definition keyPasteEnd :: nat where "keyPasteEnd = 0xD800 + 18"

lemmas key_defs = keyCtrlD_def keyCtrlU_def keyEnter_def keyEscape_def keyBackspace_def keyUnknown_def keyUp_def
  keyDown_def keyLeft_def keyRight_def keyAltLeft_def keyAltRight_def keyHome_def keyEnd_def keyDeleteWord_def
  keyDeleteLine_def keyClearScreen_def keyPasteStart_def keyPasteEnd_def

abbreviation esc :: char where "esc \<equiv> CHR 0x1B"

definition pasteStart :: string where "pasteStart = esc # ''[200~''"
definition pasteEnd :: string where "pasteEnd = esc # ''[201~''"

text \<open>The branches of \<open>bytesToKey\<close>: control characters, arrows, and arrows with the Alt key.\<close>

definition controlKey :: "char \<Rightarrow> nat option" where
  "controlKey c =
     (let b = (of_char c :: nat) in
      if b = 1 then Some keyHome
      else if b = 5 then Some keyEnd
      else if b = 8 then Some keyBackspace
      else if b = 11 then Some keyDeleteLine
      else if b = 12 then Some keyClearScreen
      else if b = 23 then Some keyDeleteWord
      else None)"

definition arrowKey :: "char \<Rightarrow> nat option" where
  "arrowKey c =
     (if c = CHR ''A'' then Some keyUp
      else if c = CHR ''B'' then Some keyDown
      else if c = CHR ''C'' then Some keyRight
      else if c = CHR ''D'' then Some keyLeft
      else if c = CHR ''H'' then Some keyHome
      else if c = CHR ''F'' then Some keyEnd
      else None)"

definition altKey :: "char \<Rightarrow> nat option" where
  "altKey c = (if c = CHR ''C'' then Some keyAltRight else if c = CHR ''D'' then Some keyAltLeft else None)"

text \<open>The bytes after the first that can end a sequence.\<close>

fun afterSequence :: "string \<Rightarrow> string option" where
  "afterSequence [] = None"
| "afterSequence (c # cs) =
     (let b = (of_char c :: nat) in
      if 97 \<le> b \<and> b \<le> 122 \<or> 65 \<le> b \<and> b \<le> 90 \<or> b = 126 then Some cs else afterSequence cs)"

definition bytesToKey :: "string \<Rightarrow> bool \<Rightarrow> nat \<times> string" where
  "bytesToKey b pasteActive =
     (if b = [] then (RuneError, [])
      else case if pasteActive then None else controlKey (b ! 0) of
        Some k \<Rightarrow> (k, drop 1 b)
      | None \<Rightarrow>
          if of_char (b ! 0) \<noteq> keyEscape then
            if \<not> fullRune b then (RuneError, b) else (fst (decodeRune b), drop (snd (decodeRune b)) b)
          else case if \<not> pasteActive \<and> 3 \<le> length b \<and> b ! 1 = CHR ''['' then arrowKey (b ! 2) else None of
            Some k \<Rightarrow> (k, drop 3 b)
          | None \<Rightarrow>
              case if \<not> pasteActive \<and> 6 \<le> length b \<and> take 5 b = esc # ''[1;3'' then altKey (b ! 5) else None of
                Some k \<Rightarrow> (k, drop 6 b)
              | None \<Rightarrow>
                  if \<not> pasteActive \<and> 6 \<le> length b \<and> take 6 b = pasteStart then (keyPasteStart, drop 6 b)
                  else if pasteActive \<and> 6 \<le> length b \<and> take 6 b = pasteEnd then (keyPasteEnd, drop 6 b)
                  else (case afterSequence b of Some r \<Rightarrow> (keyUnknown, r) | None \<Rightarrow> (RuneError, b)))"

section \<open>The terminal\<close>

text \<open>
  The connection: what is still to be read, in the pieces and with the errors the reads give; what has been written; and
  how many writes do not fail. The callback is given the line, the position in bytes and the key.
\<close>

record 'w Terminal =
  tm_AutoComplete :: "('w \<Rightarrow> string \<Rightarrow> nat \<Rightarrow> nat \<Rightarrow> 'w \<times> (string \<times> int) option) option"
  tm_world :: 'w
  tm_in :: "(string \<times> string option) list"
  tm_out :: string
  tm_writes :: nat
  tm_prompt :: "nat list"
  tm_line :: "nat list"
  tm_pos :: nat
  tm_echo :: bool
  tm_pasteActive :: bool
  tm_cursorX :: nat
  tm_cursorY :: nat
  tm_maxLine :: nat
  tm_termWidth :: nat
  tm_termHeight :: nat
  tm_outBuf :: string
  tm_remainder :: string
  tm_history :: stRingBuffer
  tm_historyIndex :: int
  tm_historyPending :: string

definition NewTerminal :: "'w \<Rightarrow> (string \<times> string option) list \<Rightarrow> nat \<Rightarrow> string \<Rightarrow> 'w Terminal" where
  "NewTerminal w input writes prompt =
     \<lparr>tm_AutoComplete = None, tm_world = w, tm_in = input, tm_out = [], tm_writes = writes,
      tm_prompt = runes_of prompt, tm_line = [], tm_pos = 0, tm_echo = True, tm_pasteActive = False,
      tm_cursorX = 0, tm_cursorY = 0, tm_maxLine = 0, tm_termWidth = 80, tm_termHeight = 24, tm_outBuf = [],
      tm_remainder = [], tm_history = empty_ring, tm_historyIndex = -1, tm_historyPending = []\<rparr>"

text \<open>A write to the connection, and whether it succeeds.\<close>

definition conn_write :: "string \<Rightarrow> 'w Terminal \<Rightarrow> bool \<times> 'w Terminal" where
  "conn_write b t =
     (if tm_writes t = 0 then (False, t) else (True, t\<lparr>tm_out := tm_out t @ b, tm_writes := tm_writes t - 1\<rparr>))"

section \<open>Drawing\<close>

definition queue :: "nat list \<Rightarrow> 'w Terminal \<Rightarrow> 'w Terminal" where
  "queue data t = t\<lparr>tm_outBuf := tm_outBuf t @ string_of data\<rparr>"

definition space :: "nat list" where "space = [32]"

definition isPrintable :: "nat \<Rightarrow> bool" where
  "isPrintable key \<longleftrightarrow> 32 \<le> key \<and> \<not> (0xD800 \<le> key \<and> key \<le> 0xDBFF)"

fun visibleRunes :: "bool \<Rightarrow> nat list \<Rightarrow> nat" where
  "visibleRunes inEscapeSeq [] = 0"
| "visibleRunes inEscapeSeq (r # rs) =
     (if inEscapeSeq then visibleRunes (\<not> (97 \<le> r \<and> r \<le> 122 \<or> 65 \<le> r \<and> r \<le> 90)) rs
      else if r = 27 then visibleRunes True rs
      else Suc (visibleRunes False rs))"

definition visualLength :: "nat list \<Rightarrow> nat" where
  "visualLength rs = visibleRunes False rs"

definition move :: "nat \<Rightarrow> nat \<Rightarrow> nat \<Rightarrow> nat \<Rightarrow> 'w Terminal \<Rightarrow> 'w Terminal" where
  "move up down left right =
     queue (concat (replicate up [27, 91, 65]) @ concat (replicate down [27, 91, 66]) @
       concat (replicate left [27, 91, 68]) @ concat (replicate right [27, 91, 67]))"

definition moveCursorToPos :: "nat \<Rightarrow> 'w Terminal \<Rightarrow> 'w Terminal step" where
  "moveCursorToPos pos t =
     (if \<not> tm_echo t then Ran t
      else if tm_termWidth t = 0 then Panicked DivideByZero
      else
        let x = visualLength (tm_prompt t) + pos;
            y = x div tm_termWidth t;
            x = x mod tm_termWidth t;
            up = (if y < tm_cursorY t then tm_cursorY t - y else 0);
            down = (if tm_cursorY t < y then y - tm_cursorY t else 0);
            left = (if x < tm_cursorX t then tm_cursorX t - x else 0);
            right = (if tm_cursorX t < x then x - tm_cursorX t else 0)
        in Ran (move up down left right (t\<lparr>tm_cursorX := x, tm_cursorY := y\<rparr>)))"

definition clearLineToRight :: "'w Terminal \<Rightarrow> 'w Terminal" where
  "clearLineToRight = queue [27, 91, 75]"

definition maxLineLength :: nat where "maxLineLength = 4096"

definition advanceCursor :: "nat \<Rightarrow> 'w Terminal \<Rightarrow> 'w Terminal step" where
  "advanceCursor places t =
     (if tm_termWidth t = 0 then Panicked DivideByZero
      else
        let x = tm_cursorX t + places; y = tm_cursorY t + x div tm_termWidth t; x' = x mod tm_termWidth t in
        Ran (t\<lparr>tm_cursorX := x', tm_cursorY := y, tm_maxLine := (if tm_maxLine t < y then y else tm_maxLine t),
          tm_outBuf := tm_outBuf t @ (if 0 < places \<and> x' = 0 then [CHR 0x0A] else [])\<rparr>))"

lemma advanceCursor_cursor: "advanceCursor n t = Ran t' \<Longrightarrow> tm_cursorX t' < tm_termWidth t'"
  by (auto simp: advanceCursor_def Let_def split: if_splits)

text \<open>The loop of \<open>writeLine\<close> draws up to the right edge of the window each time.\<close>

function writeLine :: "nat list \<Rightarrow> 'w Terminal \<Rightarrow> 'w Terminal step" where
  "writeLine l t =
     (if l = [] then Ran t
      else if tm_termWidth t < tm_cursorX t then Panicked SliceBounds
      else
        let todo = min (length l) (tm_termWidth t - tm_cursorX t) in
        case advanceCursor (visualLength (take todo l)) (queue (take todo l) t) of
          Ran t' \<Rightarrow> writeLine (drop todo l) t'
        | Blocks \<Rightarrow> Blocks
        | Panicked e \<Rightarrow> Panicked e)"
  by pat_completeness auto
termination
  by (relation "measure (\<lambda>(l, t). 2 * length l + (if tm_cursorX t < tm_termWidth t then 0 else 1))")
    (auto dest!: advanceCursor_cursor)

declare writeLine.simps [simp del]

primrec writeSpaces :: "nat \<Rightarrow> 'w Terminal \<Rightarrow> 'w Terminal step" where
  "writeSpaces 0 t = Ran t"
| "writeSpaces (Suc n) t = and_then (writeLine space t) (writeSpaces n)"

definition setLine :: "nat list \<Rightarrow> nat \<Rightarrow> 'w Terminal \<Rightarrow> 'w Terminal step" where
  "setLine newLine newPos t =
     and_then
       (if tm_echo t then
          and_then (moveCursorToPos 0 t) (\<lambda>t1.
          and_then (writeLine newLine t1) (\<lambda>t2.
          and_then (writeSpaces (length (tm_line t2) - length newLine) t2) (moveCursorToPos newPos)))
        else Ran t)
       (\<lambda>t'. Ran (t'\<lparr>tm_line := newLine, tm_pos := newPos\<rparr>))"

section \<open>Editing\<close>

definition eraseNPreviousChars :: "nat \<Rightarrow> 'w Terminal \<Rightarrow> 'w Terminal step" where
  "eraseNPreviousChars n0 t =
     (if n0 = 0 then Ran t
      else
        let n = (if tm_pos t < n0 then tm_pos t else n0) in
        and_then (moveCursorToPos (tm_pos t - n) (t\<lparr>tm_pos := tm_pos t - n\<rparr>)) (\<lambda>t1.
          let pos = tm_pos t1; l = take pos (tm_line t1) @ drop (n + pos) (tm_line t1); t2 = t1\<lparr>tm_line := l\<rparr> in
          if length (tm_line t1) < n + pos then Panicked SliceBounds
          else if tm_echo t2 then
            and_then (writeLine (drop pos l) t2) (\<lambda>t3.
            and_then (advanceCursor n (queue (concat (replicate n space)) t3)) (\<lambda>t4. moveCursorToPos (tm_pos t4) t4))
          else Ran t2))"

text \<open>The two loops of \<open>countToLeftWord\<close>, which stop at the start of the line without looking at what is there.\<close>

primrec leftOfSpaces :: "nat list \<Rightarrow> nat \<Rightarrow> nat" where
  "leftOfSpaces l 0 = 0"
| "leftOfSpaces l (Suc p) = (if l ! Suc p \<noteq> 32 then Suc p else leftOfSpaces l p)"

primrec leftOfWord :: "nat list \<Rightarrow> nat \<Rightarrow> nat" where
  "leftOfWord l 0 = 0"
| "leftOfWord l (Suc p) = (if l ! Suc p = 32 then Suc (Suc p) else leftOfWord l p)"

definition countToLeftWord :: "'w Terminal \<Rightarrow> nat step" where
  "countToLeftWord t =
     (if tm_pos t = 0 then Ran 0
      else if length (tm_line t) < tm_pos t then Panicked IndexOutOfRange
      else Ran (tm_pos t - leftOfWord (tm_line t) (leftOfSpaces (tm_line t) (tm_pos t - 1))))"

definition countToRightWord :: "'w Terminal \<Rightarrow> nat" where
  "countToRightWord t =
     (let rest = drop (tm_pos t) (tm_line t) in
      length (takeWhile (\<lambda>r. r \<noteq> 32) rest) + length (takeWhile (\<lambda>r. r = 32) (dropWhile (\<lambda>r. r \<noteq> 32) rest)))"

definition addKeyToLine :: "nat \<Rightarrow> 'w Terminal \<Rightarrow> 'w Terminal step" where
  "addKeyToLine key t =
     (if length (tm_line t) < tm_pos t then Panicked SliceBounds
      else
        let l = take (tm_pos t) (tm_line t) @ key # drop (tm_pos t) (tm_line t); t1 = t\<lparr>tm_line := l\<rparr> in
        and_then (if tm_echo t1 then writeLine (drop (tm_pos t1) l) t1 else Ran t1) (\<lambda>t2.
          moveCursorToPos (tm_pos t2 + 1) (t2\<lparr>tm_pos := tm_pos t2 + 1\<rparr>)))"

text \<open>The loop of the key that deletes the rest of the line.\<close>

primrec blankRest :: "nat \<Rightarrow> 'w Terminal \<Rightarrow> 'w Terminal step" where
  "blankRest 0 t = Ran t"
| "blankRest (Suc n) t = and_then (advanceCursor 1 (queue space t)) (blankRest n)"

text \<open>A key moves the cursor to a position of the line.\<close>

definition goto :: "nat \<Rightarrow> 'w Terminal \<Rightarrow> 'w Terminal step" where
  "goto pos t = moveCursorToPos pos (t\<lparr>tm_pos := pos\<rparr>)"

text \<open>The last branch of \<open>handleKey\<close>: the callback, and a key of the text.\<close>

definition typedKey :: "nat \<Rightarrow> 'w Terminal \<Rightarrow> 'w Terminal step" where
  "typedKey key t =
     (if \<not> isPrintable key then Ran t
      else if length (tm_line t) = maxLineLength then Ran t
      else addKeyToLine key t)"

definition otherKey :: "nat \<Rightarrow> 'w Terminal \<Rightarrow> 'w Terminal step" where
  "otherKey key t =
     (case tm_AutoComplete t of
        None \<Rightarrow> typedKey key t
      | Some complete \<Rightarrow>
          if length (tm_line t) < tm_pos t then Panicked SliceBounds
          else
            let before = string_of (take (tm_pos t) (tm_line t)); after = string_of (drop (tm_pos t) (tm_line t));
                (w, answer) = complete (tm_world t) (before @ after) (length before) key; t1 = t\<lparr>tm_world := w\<rparr> in
            case answer of
              None \<Rightarrow> typedKey key t1
            | Some (newLine, newPos) \<Rightarrow>
                if newPos < 0 \<or> int (length newLine) < newPos then Panicked SliceBounds
                else setLine (runes_of newLine) (length (runes_of (take (nat newPos) newLine))) t1)"

definition previousLine :: "'w Terminal \<Rightarrow> 'w Terminal step" where
  "previousLine t =
     and_then (NthPreviousEntry (tm_history t) (tm_historyIndex t + 1)) (\<lambda>entry.
       case entry of
         None \<Rightarrow> Ran t
       | Some e \<Rightarrow>
           let t1 = (if tm_historyIndex t = -1 then t\<lparr>tm_historyPending := string_of (tm_line t)\<rparr> else t);
               runes = runes_of e in
           setLine runes (length runes) (t1\<lparr>tm_historyIndex := tm_historyIndex t1 + 1\<rparr>))"

definition nextLine :: "'w Terminal \<Rightarrow> 'w Terminal step" where
  "nextLine t =
     (if tm_historyIndex t = -1 then Ran t
      else if tm_historyIndex t = 0 then
        let runes = runes_of (tm_historyPending t) in
        and_then (setLine runes (length runes) t) (\<lambda>t'. Ran (t'\<lparr>tm_historyIndex := tm_historyIndex t' - 1\<rparr>))
      else
        and_then (NthPreviousEntry (tm_history t) (tm_historyIndex t - 1)) (\<lambda>entry.
          case entry of
            None \<Rightarrow> Ran t
          | Some e \<Rightarrow>
              let runes = runes_of e in
              setLine runes (length runes) (t\<lparr>tm_historyIndex := tm_historyIndex t - 1\<rparr>)))"

definition enterLine :: "'w Terminal \<Rightarrow> ('w Terminal \<times> string) step" where
  "enterLine t =
     and_then (moveCursorToPos (length (tm_line t)) t) (\<lambda>t1.
       let t2 = queue [13, 10] t1 in
       Ran (t2\<lparr>tm_line := [], tm_pos := 0, tm_cursorX := 0, tm_cursorY := 0, tm_maxLine := 0\<rparr>, string_of (tm_line t2)))"

definition clearScreen :: "'w Terminal \<Rightarrow> 'w Terminal step" where
  "clearScreen t =
     (let t1 = queue (tm_prompt t) (queue [27, 91, 50, 74, 27, 91, 72] t) in
      and_then (advanceCursor (visualLength (tm_prompt t1)) (t1\<lparr>tm_cursorX := 0, tm_cursorY := 0\<rparr>)) (\<lambda>t2.
        setLine (tm_line t2) (tm_pos t2) t2))"

definition deleteLine :: "'w Terminal \<Rightarrow> 'w Terminal step" where
  "deleteLine t =
     and_then (blankRest (length (tm_line t) - tm_pos t) t) (\<lambda>t1.
       if length (tm_line t1) < tm_pos t1 then Panicked SliceBounds
       else goto (tm_pos t1) (t1\<lparr>tm_line := take (tm_pos t1) (tm_line t1)\<rparr>))"

definition editKey :: "nat \<Rightarrow> 'w Terminal \<Rightarrow> 'w Terminal step" where
  "editKey key t =
     (if key = keyBackspace then (if tm_pos t = 0 then Ran t else eraseNPreviousChars 1 t)
      else if key = keyAltLeft then and_then (countToLeftWord t) (\<lambda>n. goto (tm_pos t - n) t)
      else if key = keyAltRight then goto (tm_pos t + countToRightWord t) t
      else if key = keyLeft then (if tm_pos t = 0 then Ran t else goto (tm_pos t - 1) t)
      else if key = keyRight then (if tm_pos t = length (tm_line t) then Ran t else goto (tm_pos t + 1) t)
      else if key = keyHome then (if tm_pos t = 0 then Ran t else goto 0 t)
      else if key = keyEnd then (if tm_pos t = length (tm_line t) then Ran t else goto (length (tm_line t)) t)
      else if key = keyUp then previousLine t
      else if key = keyDown then nextLine t
      else if key = keyDeleteWord then and_then (countToLeftWord t) (\<lambda>n. eraseNPreviousChars n t)
      else if key = keyDeleteLine then deleteLine t
      else if key = keyCtrlD then
        (if tm_pos t < length (tm_line t) then eraseNPreviousChars 1 (t\<lparr>tm_pos := tm_pos t + 1\<rparr>) else Ran t)
      else if key = keyCtrlU then eraseNPreviousChars (tm_pos t) t
      else if key = keyClearScreen then clearScreen t
      else otherKey key t)"

text \<open>A line that has been entered is the second part.\<close>

definition handleKey :: "nat \<Rightarrow> 'w Terminal \<Rightarrow> ('w Terminal \<times> string option) step" where
  "handleKey key t =
     (if tm_pasteActive t \<and> key \<noteq> keyEnter then and_then (addKeyToLine key t) (\<lambda>t'. Ran (t', None))
      else if key = keyEnter then and_then (enterLine t) (\<lambda>(t', l). Ran (t', Some l))
      else and_then (editKey key t) (\<lambda>t'. Ran (t', None)))"

end
