(* ===== verification/Terminal_Edit.thy ===== *)
theory Terminal_Edit
  imports Terminal
begin

text \<open>
  What the keys do: the line and the cursor as two lists of runes with the cursor between them, and an editor on those
  lists with the history as a list of lines. \<open>handleKey\<close> refines it: whatever the width of the window and the echo,
  it never panics in a state that is well formed, leaves a state that is well formed, and the state it leaves is the one
  the editor gives. Drawing is kept apart by the relation \<open>drawn\<close>: it changes the cursor and what is queued, nothing else.
\<close>

section \<open>Drawing\<close>

text \<open>What is left of a terminal when the cursor and the queue are forgotten.\<close>

definition undrawn :: "'w Terminal \<Rightarrow> 'w Terminal" where
  "undrawn t = t\<lparr>tm_cursorX := 0, tm_cursorY := 0, tm_maxLine := 0, tm_outBuf := []\<rparr>"

definition drawn :: "'w Terminal \<Rightarrow> 'w Terminal \<Rightarrow> bool" where
  "drawn t t' \<longleftrightarrow> tm_cursorX t' < tm_termWidth t' \<and> undrawn t' = undrawn t"

lemma drawn_refl: "tm_cursorX t < tm_termWidth t \<Longrightarrow> drawn t t"
  by (simp add: drawn_def)

lemma drawn_trans: "drawn t t' \<Longrightarrow> drawn t' t'' \<Longrightarrow> drawn t t''"
  by (simp add: drawn_def)

lemma drawn_fits: "drawn t t' \<Longrightarrow> tm_cursorX t' < tm_termWidth t'"
  by (simp add: drawn_def)

lemma drawn_same:
  assumes "drawn t t'"
  shows "tm_AutoComplete t' = tm_AutoComplete t" "tm_world t' = tm_world t" "tm_in t' = tm_in t" "tm_out t' = tm_out t"
    "tm_writes t' = tm_writes t" "tm_prompt t' = tm_prompt t" "tm_line t' = tm_line t" "tm_pos t' = tm_pos t"
    "tm_echo t' = tm_echo t" "tm_pasteActive t' = tm_pasteActive t" "tm_termWidth t' = tm_termWidth t"
    "tm_remainder t' = tm_remainder t" "tm_history t' = tm_history t" "tm_historyIndex t' = tm_historyIndex t"
    "tm_historyPending t' = tm_historyPending t"
  using assms by (cases t; cases t'; simp add: drawn_def undrawn_def)+

lemma undrawn_queue [simp]: "undrawn (queue d t) = undrawn t"
  by (simp add: undrawn_def queue_def)

lemma queue_fields [simp]:
  "tm_cursorX (queue d t) = tm_cursorX t" "tm_termWidth (queue d t) = tm_termWidth t" "tm_line (queue d t) = tm_line t"
  "tm_pos (queue d t) = tm_pos t" "tm_echo (queue d t) = tm_echo t" "tm_prompt (queue d t) = tm_prompt t"
  by (simp_all add: queue_def)

lemma queue_drawn: "tm_cursorX t < tm_termWidth t \<Longrightarrow> drawn t (queue d t)"
  by (simp add: drawn_def)

lemma advanceCursor_runs: "0 < tm_termWidth t \<Longrightarrow> \<exists>t'. advanceCursor n t = Ran t' \<and> drawn t t'"
  by (simp add: advanceCursor_def Let_def drawn_def undrawn_def)

text \<open>Where the cursor is when it has been moved to a position of the line.\<close>

definition cursor_at :: "nat \<Rightarrow> 'w Terminal \<Rightarrow> bool" where
  "cursor_at pos t \<longleftrightarrow> tm_echo t \<longrightarrow>
     tm_cursorX t = (visualLength (tm_prompt t) + pos) mod tm_termWidth t \<and>
     tm_cursorY t = (visualLength (tm_prompt t) + pos) div tm_termWidth t"

lemma moveCursorToPos_runs:
  assumes "tm_cursorX t < tm_termWidth t"
  shows "\<exists>t'. moveCursorToPos pos t = Ran t' \<and> drawn t t' \<and> cursor_at pos t'"
proof (cases "tm_echo t")
  case True
  then show ?thesis using assms by (simp add: moveCursorToPos_def Let_def move_def drawn_def cursor_at_def) (simp add: queue_def undrawn_def)
next
  case False
  then show ?thesis using assms by (simp add: moveCursorToPos_def cursor_at_def drawn_refl)
qed

lemma writeLine_runs:
  "tm_cursorX t < tm_termWidth t \<Longrightarrow> \<exists>t'. writeLine l t = Ran t' \<and> drawn t t'"
proof (induction l t rule: writeLine.induct)
  case (1 l t)
  show ?case
  proof (cases "l = []")
    case True
    then show ?thesis using 1 by (simp add: writeLine.simps drawn_refl)
  next
    case False
    define todo where "todo = min (length l) (tm_termWidth t - tm_cursorX t)"
    have q: "drawn t (queue (take todo l) t)" by (rule queue_drawn) (rule 1(2))
    then obtain t1 where t1: "advanceCursor (visualLength (take todo l)) (queue (take todo l) t) = Ran t1"
      "drawn (queue (take todo l) t) t1"
      using advanceCursor_runs [of "queue (take todo l) t" "visualLength (take todo l)"] 1(2) drawn_same [OF q] by auto
    obtain t2 where "writeLine (drop todo l) t1 = Ran t2" "drawn t1 t2"
      using 1(1) [OF False _ todo_def t1(1)] 1(2) drawn_fits [OF t1(2)] by auto
    then show ?thesis using False 1(2) t1 drawn_trans [OF drawn_trans [OF q t1(2)]]
      by (subst writeLine.simps) (simp add: Let_def flip: todo_def)
  qed
qed

text \<open>One after the other.\<close>

definition draws :: "('w Terminal \<Rightarrow> 'w Terminal step) \<Rightarrow> bool" where
  "draws f \<longleftrightarrow> (\<forall>t. tm_cursorX t < tm_termWidth t \<longrightarrow> (\<exists>t'. f t = Ran t' \<and> drawn t t'))"

lemma draws_then: "draws f \<Longrightarrow> draws g \<Longrightarrow> draws (\<lambda>t. and_then (f t) g)"
  unfolding draws_def using drawn_fits drawn_trans by (metis and_then.simps(1))

lemma draws_write: "draws (writeLine l)"
  and draws_move: "draws (moveCursorToPos pos)"
  and draws_skip: "draws Ran"
  using writeLine_runs moveCursorToPos_runs by (auto simp: draws_def drawn_refl) blast+

lemma draws_advance: "draws (\<lambda>t. advanceCursor n (queue d t))"
  unfolding draws_def
proof (intro allI impI)
  fix t :: "'w Terminal" assume t: "tm_cursorX t < tm_termWidth t"
  have q: "drawn t (queue d t)" by (rule queue_drawn [OF t])
  then show "\<exists>t'. advanceCursor n (queue d t) = Ran t' \<and> drawn t t'"
    using advanceCursor_runs [of "queue d t" n] t drawn_same(11) [OF q] drawn_trans [OF q] by auto
qed

lemma draws_writeSpaces: "draws (writeSpaces n)"
  by (induction n) (use draws_skip draws_then [OF draws_write] in auto)

lemma draws_blankRest: "draws (blankRest n)"
  by (induction n) (use draws_skip draws_then [OF draws_advance] in auto)

lemma draws_run: "draws f \<Longrightarrow> tm_cursorX t < tm_termWidth t \<Longrightarrow> \<exists>t'. f t = Ran t' \<and> drawn t t'"
  by (simp add: draws_def)

section \<open>The operations\<close>

definition term_ok :: "'w Terminal \<Rightarrow> bool" where
  "term_ok t \<longleftrightarrow> tm_cursorX t < tm_termWidth t \<and> tm_pos t \<le> length (tm_line t) \<and> ring_ok (tm_history t) \<and>
     -1 \<le> tm_historyIndex t \<and> tm_historyIndex t < int (length (ring_lines (tm_history t)))"

lemma drawn_updates:
  assumes "drawn t t'"
  shows "drawn (t\<lparr>tm_line := l\<rparr>) (t'\<lparr>tm_line := l\<rparr>)" "drawn (t\<lparr>tm_pos := p\<rparr>) (t'\<lparr>tm_pos := p\<rparr>)"
    "drawn (t\<lparr>tm_historyIndex := i\<rparr>) (t'\<lparr>tm_historyIndex := i\<rparr>)"
  using assms by (cases t; cases t'; simp add: drawn_def undrawn_def)+

lemma pos_line: "(t :: 'w Terminal)\<lparr>tm_pos := p, tm_line := l\<rparr> = t\<lparr>tm_line := l, tm_pos := p\<rparr>"
  by simp

lemma cursor_at_updates [simp]:
  "cursor_at p (t\<lparr>tm_line := l\<rparr>) = cursor_at p t" "cursor_at p (t\<lparr>tm_pos := q\<rparr>) = cursor_at p t"
  "cursor_at p (t\<lparr>tm_historyIndex := i\<rparr>) = cursor_at p t"
  by (simp_all add: cursor_at_def)

lemma goto_runs:
  "tm_cursorX t < tm_termWidth t \<Longrightarrow> \<exists>t'. goto p t = Ran t' \<and> drawn (t\<lparr>tm_pos := p\<rparr>) t' \<and> cursor_at p t'"
  using moveCursorToPos_runs [of "t\<lparr>tm_pos := p\<rparr>" p] by (simp add: goto_def)

lemma setLine_runs:
  assumes "tm_cursorX t < tm_termWidth t"
  shows "\<exists>t'. setLine l p t = Ran t' \<and> drawn (t\<lparr>tm_line := l, tm_pos := p\<rparr>) t' \<and> cursor_at p t'"
proof (cases "tm_echo t")
  case True
  obtain t1 where t1: "moveCursorToPos 0 t = Ran t1" "drawn t t1" using moveCursorToPos_runs [OF assms] by blast
  obtain t2 where t2: "writeLine l t1 = Ran t2" "drawn t1 t2" using writeLine_runs [OF drawn_fits [OF t1(2)]] by blast
  obtain t3 where t3: "writeSpaces (length (tm_line t2) - length l) t2 = Ran t3" "drawn t2 t3"
    using draws_run [OF draws_writeSpaces drawn_fits [OF t2(2)]] by blast
  obtain t4 where t4: "moveCursorToPos p t3 = Ran t4" "drawn t3 t4" "cursor_at p t4"
    using moveCursorToPos_runs [OF drawn_fits [OF t3(2)]] by blast
  have "drawn t t4" using t1(2) t2(2) t3(2) t4(2) drawn_trans by blast
  then have "drawn (t\<lparr>tm_line := l, tm_pos := p\<rparr>) (t4\<lparr>tm_line := l, tm_pos := p\<rparr>)" by (intro drawn_updates)
  then show ?thesis using True t1(1) t2(1) t3(1) t4(1,3) by (simp add: setLine_def)
next
  case False
  then show ?thesis using assms by (simp add: setLine_def drawn_def cursor_at_def)
qed

lemma erase_runs:
  assumes "tm_cursorX t < tm_termWidth t" "tm_pos t \<le> length (tm_line t)" "n \<noteq> 0"
  defines "p \<equiv> tm_pos t - n" and "l \<equiv> take (tm_pos t - n) (tm_line t) @ drop (tm_pos t) (tm_line t)"
  shows "\<exists>t'. eraseNPreviousChars n t = Ran t' \<and> drawn (t\<lparr>tm_line := l, tm_pos := p\<rparr>) t' \<and> cursor_at p t'"
proof -
  define m where "m = (if tm_pos t < n then tm_pos t else n)"
  have m: "m + p = tm_pos t" "tm_pos t - m = p" by (auto simp: m_def p_def)
  let ?t = "t\<lparr>tm_pos := p\<rparr>"
  obtain t1 where t1: "moveCursorToPos p ?t = Ran t1" "drawn ?t t1" "cursor_at p t1"
    using moveCursorToPos_runs [of ?t p] assms(1) by auto
  define t2 where "t2 = t1\<lparr>tm_line := l\<rparr>"
  have d2: "drawn (t\<lparr>tm_line := l, tm_pos := p\<rparr>) t2"
    using drawn_updates(1) [OF t1(2), of l] by (simp add: t2_def pos_line)
  have r: "eraseNPreviousChars n t = (if tm_echo t2 then
      and_then (writeLine (drop p l) t2) (\<lambda>t3. and_then (advanceCursor m (queue (concat (replicate m space)) t3))
        (\<lambda>t4. moveCursorToPos (tm_pos t4) t4)) else Ran t2)"
    using assms(2,3) t1(1) m drawn_same [OF t1(2)]
    by (simp add: eraseNPreviousChars_def Let_def t2_def l_def p_def flip: m_def)
  show ?thesis
  proof (cases "tm_echo t2")
    case True
    obtain t3 where t3: "writeLine (drop p l) t2 = Ran t3" "drawn t2 t3" using writeLine_runs [OF drawn_fits [OF d2]] by blast
    obtain t4 where t4: "advanceCursor m (queue (concat (replicate m space)) t3) = Ran t4" "drawn t3 t4"
      using draws_run [OF draws_advance drawn_fits [OF t3(2)]] by blast
    obtain t5 where t5: "moveCursorToPos (tm_pos t4) t4 = Ran t5" "drawn t4 t5" "cursor_at (tm_pos t4) t5"
      using moveCursorToPos_runs [OF drawn_fits [OF t4(2)]] by blast
    have "drawn (t\<lparr>tm_line := l, tm_pos := p\<rparr>) t4" using d2 t3(2) t4(2) drawn_trans by blast
    moreover from this have "tm_pos t4 = p" by (simp add: drawn_same)
    ultimately show ?thesis using r True t3(1) t4(1) t5 drawn_trans by fastforce
  next
    case False
    then show ?thesis using r d2 t1(3) by (simp add: t2_def)
  qed
qed

lemma addKey_runs:
  assumes "tm_cursorX t < tm_termWidth t" "tm_pos t \<le> length (tm_line t)"
    and l_def: "l = take (tm_pos t) (tm_line t) @ key # drop (tm_pos t) (tm_line t)"
  shows "\<exists>t'. addKeyToLine key t = Ran t' \<and> drawn (t\<lparr>tm_line := l, tm_pos := tm_pos t + 1\<rparr>) t' \<and> cursor_at (tm_pos t + 1) t'"
proof -
  let ?t = "t\<lparr>tm_line := l\<rparr>"
  obtain t1 where t1: "(if tm_echo ?t then writeLine (drop (tm_pos ?t) l) ?t else Ran ?t) = Ran t1" "drawn ?t t1"
    using writeLine_runs [of ?t "drop (tm_pos ?t) l"] drawn_refl [of ?t] assms(1) by (cases "tm_echo ?t") auto
  have d: "drawn (t\<lparr>tm_line := l, tm_pos := tm_pos t + 1\<rparr>) (t1\<lparr>tm_pos := tm_pos t1 + 1\<rparr>)"
    using drawn_updates(2) [OF t1(2), of "tm_pos t + 1"] drawn_same(8) [OF t1(2)] by simp
  obtain t2 where t2: "moveCursorToPos (tm_pos t1 + 1) (t1\<lparr>tm_pos := tm_pos t1 + 1\<rparr>) = Ran t2"
    "drawn (t1\<lparr>tm_pos := tm_pos t1 + 1\<rparr>) t2" "cursor_at (tm_pos t1 + 1) t2"
    using moveCursorToPos_runs [OF drawn_fits [OF d]] by blast
  have "addKeyToLine key t = Ran t2" using assms(2) t1(1) t2(1) by (simp add: addKeyToLine_def Let_def flip: l_def)
  moreover have "tm_pos t1 = tm_pos t" using drawn_same(8) [OF t1(2)] by simp
  ultimately show ?thesis using t2 drawn_trans [OF d t2(2)] by simp
qed

lemma enterLine_runs:
  assumes "tm_cursorX t < tm_termWidth t"
  shows "\<exists>t'. enterLine t = Ran (t', string_of (tm_line t)) \<and> drawn (t\<lparr>tm_line := [], tm_pos := 0\<rparr>) t' \<and>
    tm_cursorX t' = 0 \<and> tm_cursorY t' = 0"
proof -
  obtain t1 where t1: "moveCursorToPos (length (tm_line t)) t = Ran t1" "drawn t t1"
    using moveCursorToPos_runs [OF assms] by blast
  have "drawn (t\<lparr>tm_line := [], tm_pos := 0\<rparr>) ((queue [13, 10] t1)\<lparr>tm_line := [], tm_pos := 0, tm_cursorX := 0,
      tm_cursorY := 0, tm_maxLine := 0\<rparr>)"
    using drawn_updates(2) [OF drawn_updates(1) [OF t1(2), of "[]"], of 0] drawn_fits [OF t1(2)]
    by (simp add: drawn_def undrawn_def queue_def)
  then show ?thesis using t1(1) drawn_same(7) [OF t1(2)] by (simp add: enterLine_def Let_def)
qed

lemma deleteLine_runs:
  assumes "tm_cursorX t < tm_termWidth t" "tm_pos t \<le> length (tm_line t)"
  shows "\<exists>t'. deleteLine t = Ran t' \<and> drawn (t\<lparr>tm_line := take (tm_pos t) (tm_line t)\<rparr>) t' \<and> cursor_at (tm_pos t) t'"
proof -
  obtain t1 where t1: "blankRest (length (tm_line t) - tm_pos t) t = Ran t1" "drawn t t1"
    using draws_run [OF draws_blankRest assms(1)] by blast
  note s = drawn_same(7,8) [OF t1(2)]
  have d: "drawn (t\<lparr>tm_line := take (tm_pos t) (tm_line t)\<rparr>) (t1\<lparr>tm_line := take (tm_pos t) (tm_line t)\<rparr>)"
    by (rule drawn_updates(1) [OF t1(2)])
  have e: "t1\<lparr>tm_line := take (tm_pos t) (tm_line t), tm_pos := tm_pos t\<rparr> = t1\<lparr>tm_line := take (tm_pos t) (tm_line t)\<rparr>"
    using s(2) by (cases t1) simp
  obtain t2 where "goto (tm_pos t) (t1\<lparr>tm_line := take (tm_pos t) (tm_line t)\<rparr>) = Ran t2"
    "drawn (t1\<lparr>tm_line := take (tm_pos t) (tm_line t)\<rparr>) t2" "cursor_at (tm_pos t) t2"
    using goto_runs [OF drawn_fits [OF d], of "tm_pos t"] e by auto
  then show ?thesis using t1(1) s assms(2) drawn_trans [OF d] by (auto simp: deleteLine_def)
qed

lemma clearScreen_runs:
  assumes "tm_cursorX t < tm_termWidth t"
  shows "\<exists>t'. clearScreen t = Ran t' \<and> drawn t t' \<and> cursor_at (tm_pos t) t'"
proof -
  define t1 where "t1 = (queue (tm_prompt t) (queue [27, 91, 50, 74, 27, 91, 72] t))\<lparr>tm_cursorX := 0, tm_cursorY := 0\<rparr>"
  have d1: "drawn t t1" using assms by (simp add: t1_def drawn_def undrawn_def queue_def)
  obtain t2 where t2: "advanceCursor (visualLength (tm_prompt t)) t1 = Ran t2" "drawn t1 t2"
    using advanceCursor_runs [of t1] drawn_fits [OF d1] by fastforce
  note d2 = drawn_trans [OF d1 t2(2)]
  have e: "t2\<lparr>tm_line := tm_line t2, tm_pos := tm_pos t2\<rparr> = t2" by simp
  obtain t3 where "setLine (tm_line t2) (tm_pos t2) t2 = Ran t3" "drawn t2 t3" "cursor_at (tm_pos t2) t3"
    using setLine_runs [OF drawn_fits [OF d2], of "tm_line t2" "tm_pos t2"] e by auto
  then show ?thesis using t2(1) drawn_trans [OF d2] drawn_same(8) [OF d2] by (auto simp: clearScreen_def Let_def t1_def)
qed

end
