(* ===== verification/Terminal_Spec.thy ===== *)
theory Terminal_Spec
  imports Terminal_Edit
begin

text \<open>
  The specification of the line editor: an editor on two lists of runes with the cursor between them and the history as a
  list of lines, and the proof that \<open>handleKey\<close> refines it. The words of the line are counted from the cursor outwards.
\<close>

section \<open>Words\<close>

text \<open>How far back a word starts, from the runes before the cursor, the nearest first: the spaces and then the word. When one
  rune is left it is passed as well, a space or not.\<close>

definition wordBack :: "nat list \<Rightarrow> nat" where
  "wordBack r =
     (let n = length (takeWhile (\<lambda>c. c = 32) r) + length (takeWhile (\<lambda>c. c \<noteq> 32) (dropWhile (\<lambda>c. c = 32) r))
      in if Suc n = length r then Suc n else n)"

lemma rev_take_Suc: "p < length l \<Longrightarrow> rev (take (Suc p) l) = l ! p # rev (take p l)"
  by (simp add: take_Suc_conv_app_nth)

lemma leftOfWord_le: "leftOfWord l p \<le> Suc p"
  by (induction p) auto

lemma leftOfWord_eq:
  assumes "p < length l"
  defines "w \<equiv> length (takeWhile (\<lambda>c. c \<noteq> 32) (rev (take (Suc p) l)))"
  shows "Suc p - leftOfWord l p = (if w = p then Suc p else w)"
  using assms(1) unfolding w_def
proof (induction p)
  case 0
  then show ?case by (cases l) simp_all
next
  case (Suc p)
  then show ?case using leftOfWord_le [of l p] by (auto simp: rev_take_Suc [of "Suc p"] Suc_diff_le split: if_splits)
qed

lemma leftOfSpaces_eq:
  assumes "p < length l"
  defines "s \<equiv> length (takeWhile (\<lambda>c. c = 32) (rev (take (Suc p) l)))"
  shows "leftOfSpaces l p = p - s"
  using assms(1) unfolding s_def
proof (induction p)
  case (Suc p)
  then show ?case by (auto simp: rev_take_Suc [of "Suc p"])
qed simp

lemma countToLeftWord_eq:
  assumes "tm_pos t \<le> length (tm_line t)"
  shows "countToLeftWord t = Ran (wordBack (rev (take (tm_pos t) (tm_line t))))"
proof (cases "tm_pos t")
  case (Suc p)
  let ?l = "tm_line t"
  define r where "r = rev (take (Suc p) ?l)"
  define s where "s = length (takeWhile (\<lambda>c. c = 32) r)"
  define w where "w = length (takeWhile (\<lambda>c. c \<noteq> 32) (drop s r))"
  define q where "q = p - s"
  have p: "p < length ?l" "length r = Suc p" using assms Suc by (simp_all add: r_def)
  have q: "leftOfSpaces ?l p = q" using leftOfSpaces_eq [OF p(1)] by (simp add: q_def s_def r_def)
  have d: "dropWhile (\<lambda>c. c = 32) r = drop s r" by (simp add: s_def dropWhile_eq_drop)
  have s: "s \<le> Suc p" using length_takeWhile_le [of _ r] p(2) unfolding s_def by metis
  have "Suc p - leftOfWord ?l q = wordBack r"
  proof (cases "s = Suc p")
    case True
    have "dropWhile (\<lambda>c. c = 32) r = []" unfolding d using True p by simp
    then have "takeWhile (\<lambda>c. c \<noteq> 32) (dropWhile (\<lambda>c. c = 32) r) = []" by (simp only: takeWhile.simps)
    then show ?thesis using True p by (simp only: q_def wordBack_def Let_def flip: s_def) simp
  next
    case False
    then have "Suc q = Suc p - s" using s by (simp add: q_def)
    moreover have "length (take (Suc p) ?l) = Suc p" using p(1) by simp
    ultimately have "rev (take (Suc q) ?l) = drop s r" by (simp only: r_def drop_rev take_take) simp
    then have w: "Suc q - leftOfWord ?l q = (if w = q then Suc q else w)"
      using leftOfWord_eq [of q ?l] p(1) by (simp add: q_def w_def)
    have "wordBack r = (if s + w = p then Suc p else s + w)"
      by (simp add: wordBack_def Let_def d p(2) flip: s_def w_def)
    then show ?thesis using w False s leftOfWord_le [of ?l q] by (auto simp: q_def split: if_splits)
  qed
  then show ?thesis using Suc assms q by (simp add: countToLeftWord_def r_def)
qed (simp add: countToLeftWord_def wordBack_def)

lemma wordBack_le: "wordBack r \<le> length r"
proof -
  have "length (takeWhile (\<lambda>c. c = 32) r) + length (dropWhile (\<lambda>c. c = 32) r) = length r"
    by (metis length_append takeWhile_dropWhile_id)
  moreover have "length (takeWhile (\<lambda>c. c \<noteq> 32) (dropWhile (\<lambda>c. c = 32) r)) \<le> length (dropWhile (\<lambda>c. c = 32) r)"
    by (rule length_takeWhile_le)
  ultimately show ?thesis by (simp add: wordBack_def Let_def)
qed

section \<open>The editor\<close>

text \<open>The runes before the cursor, the nearest first; those after it; the lines entered before, the last first; how many
  lines back the line shown is; and the line that was left for the history.\<close>

record editor =
  ed_left :: "nat list"
  ed_right :: "nat list"
  ed_lines :: "string list"
  ed_back :: nat
  ed_pending :: string

definition ed_text :: "editor \<Rightarrow> nat list" where
  "ed_text e = rev (ed_left e) @ ed_right e"

definition show_line :: "string \<Rightarrow> editor \<Rightarrow> editor" where
  "show_line s e = e\<lparr>ed_left := rev (runes_of s), ed_right := []\<rparr>"

definition wordForward :: "nat list \<Rightarrow> nat" where
  "wordForward r = length (takeWhile (\<lambda>c. c \<noteq> 32) r) + length (takeWhile (\<lambda>c. c = 32) (dropWhile (\<lambda>c. c \<noteq> 32) r))"

definition back_by :: "nat \<Rightarrow> editor \<Rightarrow> editor" where
  "back_by n e = e\<lparr>ed_left := drop n (ed_left e), ed_right := rev (take n (ed_left e)) @ ed_right e\<rparr>"

definition forward_by :: "nat \<Rightarrow> editor \<Rightarrow> editor" where
  "forward_by n e = e\<lparr>ed_left := rev (take n (ed_right e)) @ ed_left e, ed_right := drop n (ed_right e)\<rparr>"

definition insert_rune :: "nat \<Rightarrow> editor \<Rightarrow> editor" where
  "insert_rune k e = e\<lparr>ed_left := k # ed_left e\<rparr>"

definition older_line :: "editor \<Rightarrow> editor" where
  "older_line e =
     (if ed_back e < length (ed_lines e)
      then show_line (ed_lines e ! ed_back e)
        (e\<lparr>ed_pending := (if ed_back e = 0 then string_of (ed_text e) else ed_pending e), ed_back := Suc (ed_back e)\<rparr>)
      else e)"

definition newer_line :: "editor \<Rightarrow> editor" where
  "newer_line e =
     (case ed_back e of
        0 \<Rightarrow> e
      | Suc 0 \<Rightarrow> show_line (ed_pending e) (e\<lparr>ed_back := 0\<rparr>)
      | Suc (Suc n) \<Rightarrow> show_line (ed_lines e ! n) (e\<lparr>ed_back := Suc n\<rparr>))"

definition edit :: "nat \<Rightarrow> editor \<Rightarrow> editor" where
  "edit key e =
     (if key = keyBackspace then e\<lparr>ed_left := drop 1 (ed_left e)\<rparr>
      else if key = keyAltLeft then back_by (wordBack (ed_left e)) e
      else if key = keyAltRight then forward_by (wordForward (ed_right e)) e
      else if key = keyLeft then back_by 1 e
      else if key = keyRight then forward_by 1 e
      else if key = keyHome then back_by (length (ed_left e)) e
      else if key = keyEnd then forward_by (length (ed_right e)) e
      else if key = keyUp then older_line e
      else if key = keyDown then newer_line e
      else if key = keyDeleteWord then e\<lparr>ed_left := drop (wordBack (ed_left e)) (ed_left e)\<rparr>
      else if key = keyDeleteLine then e\<lparr>ed_right := []\<rparr>
      else if key = keyCtrlD then e\<lparr>ed_right := drop 1 (ed_right e)\<rparr>
      else if key = keyCtrlU then e\<lparr>ed_left := []\<rparr>
      else if key = keyClearScreen then e
      else if isPrintable key \<and> length (ed_text e) \<noteq> maxLineLength then insert_rune key e
      else e)"

text \<open>The state a terminal is in, as a state of the editor.\<close>

definition editor_of :: "'w Terminal \<Rightarrow> editor" where
  "editor_of t =
     \<lparr>ed_left = rev (take (tm_pos t) (tm_line t)), ed_right = drop (tm_pos t) (tm_line t),
      ed_lines = ring_lines (tm_history t), ed_back = nat (tm_historyIndex t + 1), ed_pending = tm_historyPending t\<rparr>"

text \<open>What no key changes.\<close>

definition kept :: "'w Terminal \<Rightarrow> 'w Terminal \<Rightarrow> bool" where
  "kept t t' \<longleftrightarrow> tm_AutoComplete t' = tm_AutoComplete t \<and> tm_in t' = tm_in t \<and> tm_out t' = tm_out t \<and>
     tm_writes t' = tm_writes t \<and> tm_prompt t' = tm_prompt t \<and> tm_echo t' = tm_echo t \<and>
     tm_pasteActive t' = tm_pasteActive t \<and> tm_termWidth t' = tm_termWidth t \<and> tm_remainder t' = tm_remainder t \<and>
     tm_history t' = tm_history t"

text \<open>A key that has been handled: the state is well formed, and the cursor is where the position is, if it was before.\<close>

definition handled :: "'w Terminal \<Rightarrow> 'w Terminal \<Rightarrow> bool" where
  "handled t t' \<longleftrightarrow> term_ok t' \<and> kept t t' \<and> (cursor_at (tm_pos t) t \<longrightarrow> cursor_at (tm_pos t') t')"

lemma handled_refl: "term_ok t \<Longrightarrow> handled t t"
  by (simp add: handled_def kept_def)

lemma handled_drawn:
  assumes "drawn (t\<lparr>tm_line := l, tm_pos := p\<rparr>) t'" "cursor_at p t'" "term_ok t" "p \<le> length l"
  shows "handled t t' \<and> tm_world t' = tm_world t \<and> editor_of t' = (editor_of t)\<lparr>ed_left := rev (take p l), ed_right := drop p l\<rparr>"
  using assms(2-4) drawn_fits [OF assms(1)] by (simp add: handled_def kept_def term_ok_def editor_of_def drawn_same [OF assms(1)])

definition refines :: "('w Terminal \<Rightarrow> 'w Terminal step) \<Rightarrow> (editor \<Rightarrow> editor) \<Rightarrow> 'w Terminal \<Rightarrow> bool" where
  "refines f g t \<longleftrightarrow> (\<exists>t'. f t = Ran t' \<and> handled t t' \<and> tm_world t' = tm_world t \<and> editor_of t' = g (editor_of t))"

lemma refines_drawn:
  "\<lbrakk>\<exists>t'. f t = Ran t' \<and> drawn (t\<lparr>tm_line := l, tm_pos := p\<rparr>) t' \<and> cursor_at p t'; term_ok t; p \<le> length l;
    (editor_of t)\<lparr>ed_left := rev (take p l), ed_right := drop p l\<rparr> = g (editor_of t)\<rbrakk> \<Longrightarrow> refines f g t"
  unfolding refines_def using handled_drawn by metis

lemma refines_skip: "term_ok t \<Longrightarrow> g (editor_of t) = editor_of t \<Longrightarrow> f t = Ran t \<Longrightarrow> refines f g t"
  by (simp add: refines_def handled_refl)

lemma goto_line: "(t :: 'w Terminal)\<lparr>tm_line := tm_line t, tm_pos := p\<rparr> = t\<lparr>tm_pos := p\<rparr>"
  by simp

lemma refines_goto:
  assumes "term_ok t" "p \<le> length (tm_line t)" "f t = goto p t"
    and "(editor_of t)\<lparr>ed_left := rev (take p (tm_line t)), ed_right := drop p (tm_line t)\<rparr> = g (editor_of t)"
  shows "refines f g t"
proof (rule refines_drawn [where p = p and l = "tm_line t"])
  show "\<exists>t'. f t = Ran t' \<and> drawn (t\<lparr>tm_line := tm_line t, tm_pos := p\<rparr>) t' \<and> cursor_at p t'"
    using goto_runs [of t p] assms(1,3) by (simp add: term_ok_def)
qed (use assms in auto)

lemma drop_take_drop: "k \<le> p \<Longrightarrow> drop k (take p l) @ drop p l = drop k l"
  by (metis append_take_drop_id drop_take le_add_diff_inverse take_drop append.assoc drop_drop add.commute)

lemma refines_back:
  assumes "term_ok t" "n \<le> tm_pos t" "f t = goto (tm_pos t - n) t"
  shows "refines f (back_by n) t"
  by (rule refines_goto [where f = f, OF assms(1) _ assms(3)])
    (use assms in \<open>auto simp: term_ok_def editor_of_def back_by_def drop_rev take_rev min_def drop_take_drop\<close>)

lemma refines_forward:
  assumes "term_ok t" "tm_pos t + n \<le> length (tm_line t)" "f t = goto (tm_pos t + n) t"
  shows "refines f (forward_by n) t"
  by (rule refines_goto [where f = f, OF assms(1) _ assms(3)])
    (use assms in \<open>auto simp: term_ok_def editor_of_def forward_by_def take_add add.commute [of n]\<close>)

lemma refines_erase:
  assumes "term_ok t"
  shows "refines (eraseNPreviousChars n) (\<lambda>e. e\<lparr>ed_left := drop n (ed_left e)\<rparr>) t"
proof (cases "n = 0")
  case True
  then show ?thesis using assms by (intro refines_skip) (simp_all add: eraseNPreviousChars_def)
next
  case False
  show ?thesis
    by (rule refines_drawn [OF erase_runs [OF _ _ False]])
      (use assms in \<open>auto simp: term_ok_def editor_of_def drop_rev min_def\<close>)
qed

lemma refines_eraseNext:
  assumes "term_ok t" "tm_pos t < length (tm_line t)"
  shows "refines (\<lambda>t. eraseNPreviousChars 1 (t\<lparr>tm_pos := tm_pos t + 1\<rparr>)) (\<lambda>e. e\<lparr>ed_right := drop 1 (ed_right e)\<rparr>) t"
proof (rule refines_drawn [where p = "tm_pos t" and l = "take (tm_pos t) (tm_line t) @ drop (tm_pos t + 1) (tm_line t)"])
  show "\<exists>t'. eraseNPreviousChars 1 (t\<lparr>tm_pos := tm_pos t + 1\<rparr>) = Ran t' \<and>
      drawn (t\<lparr>tm_line := take (tm_pos t) (tm_line t) @ drop (tm_pos t + 1) (tm_line t), tm_pos := tm_pos t\<rparr>) t' \<and>
      cursor_at (tm_pos t) t'"
    using erase_runs [of "t\<lparr>tm_pos := tm_pos t + 1\<rparr>" 1] assms by (simp add: term_ok_def pos_line)
qed (use assms in \<open>auto simp: term_ok_def editor_of_def\<close>)

lemma refines_addKey:
  assumes "term_ok t"
  shows "refines (addKeyToLine key) (insert_rune key) t"
  by (rule refines_drawn [OF addKey_runs [OF _ _ refl]])
    (use assms in \<open>auto simp: term_ok_def editor_of_def insert_rune_def min_def\<close>)

lemma refines_deleteLine:
  assumes "term_ok t"
  shows "refines deleteLine (\<lambda>e. e\<lparr>ed_right := []\<rparr>) t"
proof (rule refines_drawn [where p = "tm_pos t" and l = "take (tm_pos t) (tm_line t)"])
  have "t\<lparr>tm_line := take (tm_pos t) (tm_line t), tm_pos := tm_pos t\<rparr> = t\<lparr>tm_line := take (tm_pos t) (tm_line t)\<rparr>"
    by (cases t) simp
  then show "\<exists>t'. deleteLine t = Ran t' \<and> drawn (t\<lparr>tm_line := take (tm_pos t) (tm_line t), tm_pos := tm_pos t\<rparr>) t' \<and>
      cursor_at (tm_pos t) t'"
    using deleteLine_runs [of t] assms by (simp add: term_ok_def)
qed (use assms in \<open>auto simp: term_ok_def editor_of_def\<close>)

lemma refines_clearScreen:
  assumes "term_ok t"
  shows "refines clearScreen (\<lambda>e. e) t"
proof (rule refines_drawn [where p = "tm_pos t" and l = "tm_line t"])
  have "t\<lparr>tm_line := tm_line t, tm_pos := tm_pos t\<rparr> = t" by (cases t) simp
  then show "\<exists>t'. clearScreen t = Ran t' \<and> drawn (t\<lparr>tm_line := tm_line t, tm_pos := tm_pos t\<rparr>) t' \<and> cursor_at (tm_pos t) t'"
    using clearScreen_runs [of t] assms by (simp add: term_ok_def)
qed (use assms in \<open>auto simp: term_ok_def editor_of_def\<close>)

text \<open>A line of the history is shown.\<close>

lemma show_runs:
  assumes "term_ok t" "-1 \<le> i" "i < int (length (ring_lines (tm_history t)))"
    and u_def: "u = t\<lparr>tm_historyIndex := i, tm_historyPending := h\<rparr>"
  shows "\<exists>t'. setLine (runes_of s) (length (runes_of s)) u = Ran t' \<and> handled t t' \<and> tm_world t' = tm_world t \<and>
    editor_of t' = show_line s ((editor_of t)\<lparr>ed_back := nat (i + 1), ed_pending := h\<rparr>)"
proof -
  let ?l = "runes_of s"
  obtain t' where t': "setLine ?l (length ?l) u = Ran t'" "drawn (u\<lparr>tm_line := ?l, tm_pos := length ?l\<rparr>) t'"
    "cursor_at (length ?l) t'"
    using setLine_runs [of u ?l "length ?l"] assms(1) by (auto simp: u_def term_ok_def)
  have "handled t t'"
    using assms drawn_fits [OF t'(2)] t'(3) by (simp add: handled_def kept_def term_ok_def drawn_same [OF t'(2)] u_def)
  moreover have "editor_of t' = show_line s ((editor_of t)\<lparr>ed_back := nat (i + 1), ed_pending := h\<rparr>)"
    by (simp add: editor_of_def drawn_same [OF t'(2)] u_def show_line_def)
  ultimately show ?thesis using t'(1) drawn_same(2) [OF t'(2)] by (simp add: u_def)
qed

lemma pending_index: "(t :: 'w Terminal)\<lparr>tm_historyPending := h, tm_historyIndex := i\<rparr> =
    t\<lparr>tm_historyIndex := i, tm_historyPending := h\<rparr>"
  by simp

lemma refines_previous:
  assumes ok: "term_ok t"
  shows "refines previousLine older_line t"
proof (cases "ed_back (editor_of t) < length (ed_lines (editor_of t))")
  case True
  let ?i = "tm_historyIndex t" and ?h = "tm_history t"
  have i: "0 \<le> ?i + 1" "nat (?i + 1) < length (ring_lines ?h)" using True ok by (auto simp: editor_of_def term_ok_def)
  have n: "NthPreviousEntry ?h (?i + 1) = Ran (Some (ring_lines ?h ! nat (?i + 1)))"
    using ring.nth_law [of ?h "?i + 1"] ok i by (simp add: term_ok_def)
  define h where "h = (if ?i = -1 then string_of (tm_line t) else tm_historyPending t)"
  obtain t' where "setLine (runes_of (ring_lines ?h ! nat (?i + 1))) (length (runes_of (ring_lines ?h ! nat (?i + 1))))
      (t\<lparr>tm_historyIndex := ?i + 1, tm_historyPending := h\<rparr>) = Ran t'" "handled t t'" "tm_world t' = tm_world t"
    "editor_of t' = show_line (ring_lines ?h ! nat (?i + 1)) ((editor_of t)\<lparr>ed_back := nat (?i + 1 + 1), ed_pending := h\<rparr>)"
    using show_runs [OF ok, of "?i + 1"] i by fastforce
  moreover have "(let t1 = (if ?i = -1 then t\<lparr>tm_historyPending := string_of (tm_line t)\<rparr> else t)
       in t1\<lparr>tm_historyIndex := tm_historyIndex t1 + 1\<rparr>) = t\<lparr>tm_historyIndex := ?i + 1, tm_historyPending := h\<rparr>"
    by (cases t) (simp add: h_def Let_def)
  moreover have "nat (?i + 1 + 1) = Suc (nat (?i + 1))" "ed_text (editor_of t) = tm_line t"
    using i(1) by (simp_all add: editor_of_def ed_text_def)
  ultimately show ?thesis using n True i ok
    by (auto simp: refines_def previousLine_def older_line_def Let_def editor_of_def h_def term_ok_def pending_index)
next
  case False
  have "NthPreviousEntry (tm_history t) (tm_historyIndex t + 1) = Ran None"
    using ring.nth_law [of "tm_history t" "tm_historyIndex t + 1"] ok False by (auto simp: term_ok_def editor_of_def)
  then show ?thesis using ok False by (intro refines_skip) (simp_all add: previousLine_def older_line_def)
qed

lemma refines_next:
  assumes ok: "term_ok t"
  shows "refines nextLine newer_line t"
proof -
  let ?i = "tm_historyIndex t" and ?h = "tm_history t"
  have "-1 \<le> ?i" using ok by (simp add: term_ok_def)
  then consider "?i = -1" | "?i = 0" | "0 < ?i" by linarith
  then show ?thesis
  proof cases
    case 1
    then show ?thesis using ok by (intro refines_skip) (simp_all add: nextLine_def newer_line_def editor_of_def)
  next
    case 2
    have "t = t\<lparr>tm_historyIndex := 0, tm_historyPending := tm_historyPending t\<rparr>" using 2 by (cases t) simp
    then obtain t' where t': "setLine (runes_of (tm_historyPending t)) (length (runes_of (tm_historyPending t))) t = Ran t'"
      "handled t t'" "tm_world t' = tm_world t"
      "editor_of t' = show_line (tm_historyPending t) ((editor_of t)\<lparr>ed_back := 1, ed_pending := tm_historyPending t\<rparr>)"
      using show_runs [OF ok, of 0 t "tm_historyPending t" "tm_historyPending t"] ok 2 by (auto simp: term_ok_def)
    have i': "ed_back (editor_of t') = 1" using t'(4) by (simp add: show_line_def)
    then have "tm_historyIndex t' = 0" using t'(2) by (simp add: editor_of_def handled_def term_ok_def)
    moreover have "handled t (t'\<lparr>tm_historyIndex := -1\<rparr>)" using t'(2) ok by (simp add: handled_def term_ok_def kept_def)
    moreover have "editor_of (t'\<lparr>tm_historyIndex := -1\<rparr>) = (editor_of t')\<lparr>ed_back := 0\<rparr>" by (simp add: editor_of_def)
    ultimately show ?thesis using 2 t' by (simp add: refines_def nextLine_def newer_line_def Let_def editor_of_def show_line_def)
  next
    case 3
    have n: "NthPreviousEntry ?h (?i - 1) = Ran (Some (ring_lines ?h ! nat (?i - 1)))"
      using ring.nth_law [of ?h "?i - 1"] ok 3 by (auto simp: term_ok_def)
    have u: "t\<lparr>tm_historyIndex := ?i - 1, tm_historyPending := tm_historyPending t\<rparr> = t\<lparr>tm_historyIndex := ?i - 1\<rparr>"
      by (cases t) simp
    obtain t' where "setLine (runes_of (ring_lines ?h ! nat (?i - 1))) (length (runes_of (ring_lines ?h ! nat (?i - 1))))
        (t\<lparr>tm_historyIndex := ?i - 1\<rparr>) = Ran t'" "handled t t'" "tm_world t' = tm_world t"
      "editor_of t' = show_line (ring_lines ?h ! nat (?i - 1))
        ((editor_of t)\<lparr>ed_back := nat (?i - 1 + 1), ed_pending := tm_historyPending t\<rparr>)"
      using show_runs [OF ok, of "?i - 1" _ "tm_historyPending t" "ring_lines ?h ! nat (?i - 1)"] ok 3
      unfolding u by (auto simp: term_ok_def)
    moreover have "nat (?i + 1) = Suc (Suc (nat (?i - 1)))" "nat ?i = Suc (nat (?i - 1))" using 3 by simp_all
    ultimately show ?thesis using n 3
      by (auto simp: refines_def nextLine_def newer_line_def Let_def editor_of_def show_line_def)
  qed
qed

lemma refines_typed: "term_ok t \<Longrightarrow> refines (typedKey key)
    (\<lambda>e. if isPrintable key \<and> length (ed_text e) \<noteq> maxLineLength then insert_rune key e else e) t"
proof -
  assume ok: "term_ok t"
  have "length (ed_text (editor_of t)) = length (tm_line t)" by (simp add: ed_text_def editor_of_def)
  then show ?thesis using refines_addKey [OF ok, of key] handled_refl [OF ok] by (auto simp: refines_def typedKey_def)
qed

section \<open>Keys\<close>

lemma refines_word:
  assumes "term_ok t" "\<And>n. n \<le> tm_pos t \<Longrightarrow> refines (f n) (g n) t"
  shows "refines (\<lambda>t. and_then (countToLeftWord t) (\<lambda>n. f n t)) (\<lambda>e. g (wordBack (ed_left (editor_of t))) e) t"
proof -
  have p: "tm_pos t \<le> length (tm_line t)" using assms(1) by (simp add: term_ok_def)
  have "wordBack (ed_left (editor_of t)) \<le> tm_pos t"
    using wordBack_le [of "ed_left (editor_of t)"] p by (simp add: editor_of_def)
  then show ?thesis using assms(2) countToLeftWord_eq [OF p] by (simp add: refines_def editor_of_def)
qed

lemma refines_cong: "refines f g t \<Longrightarrow> f t = f' t \<Longrightarrow> g (editor_of t) = g' (editor_of t) \<Longrightarrow> refines f' g' t"
  by (simp add: refines_def)

lemma editor_ends:
  assumes "term_ok t"
  shows "ed_left (editor_of t) = [] \<longleftrightarrow> tm_pos t = 0" "ed_right (editor_of t) = [] \<longleftrightarrow> tm_pos t = length (tm_line t)"
    "length (ed_left (editor_of t)) = tm_pos t" "length (ed_right (editor_of t)) = length (tm_line t) - tm_pos t"
    "tm_pos t \<noteq> length (tm_line t) \<longleftrightarrow> tm_pos t < length (tm_line t)"
  using assms by (auto simp: term_ok_def editor_of_def)

lemma wordForward_eq: "countToRightWord t = wordForward (ed_right (editor_of t))"
  by (simp add: countToRightWord_def wordForward_def editor_of_def Let_def)

lemma wordForward_le: "wordForward r \<le> length r"
proof -
  have "length (takeWhile (\<lambda>c. c \<noteq> 32) r) + length (dropWhile (\<lambda>c. c \<noteq> 32) r) = length r"
    by (metis length_append takeWhile_dropWhile_id)
  moreover have "length (takeWhile (\<lambda>c. c = 32) (dropWhile (\<lambda>c. c \<noteq> 32) r)) \<le> length (dropWhile (\<lambda>c. c \<noteq> 32) r)"
    by (rule length_takeWhile_le)
  ultimately show ?thesis by (simp add: wordForward_def)
qed

text \<open>The moves and deletions, one by one.\<close>

lemma refines_keys:
  assumes ok: "term_ok t"
  shows "refines (\<lambda>t. if tm_pos t = 0 then Ran t else eraseNPreviousChars 1 t) (\<lambda>e. e\<lparr>ed_left := drop 1 (ed_left e)\<rparr>) t"
    and "refines (\<lambda>t. and_then (countToLeftWord t) (\<lambda>n. goto (tm_pos t - n) t)) (\<lambda>e. back_by (wordBack (ed_left e)) e) t"
    and "refines (\<lambda>t. goto (tm_pos t + countToRightWord t) t) (\<lambda>e. forward_by (wordForward (ed_right e)) e) t"
    and "refines (\<lambda>t. if tm_pos t = 0 then Ran t else goto (tm_pos t - 1) t) (back_by 1) t"
    and "refines (\<lambda>t. if tm_pos t = length (tm_line t) then Ran t else goto (tm_pos t + 1) t) (forward_by 1) t"
    and "refines (\<lambda>t. if tm_pos t = 0 then Ran t else goto 0 t) (\<lambda>e. back_by (length (ed_left e)) e) t"
    and "refines (\<lambda>t. if tm_pos t = length (tm_line t) then Ran t else goto (length (tm_line t)) t)
           (\<lambda>e. forward_by (length (ed_right e)) e) t"
    and "refines (\<lambda>t. and_then (countToLeftWord t) (\<lambda>n. eraseNPreviousChars n t))
           (\<lambda>e. e\<lparr>ed_left := drop (wordBack (ed_left e)) (ed_left e)\<rparr>) t"
    and "refines (\<lambda>t. if tm_pos t < length (tm_line t) then eraseNPreviousChars 1 (t\<lparr>tm_pos := tm_pos t + 1\<rparr>) else Ran t)
           (\<lambda>e. e\<lparr>ed_right := drop 1 (ed_right e)\<rparr>) t"
    and "refines (\<lambda>t. eraseNPreviousChars (tm_pos t) t) (\<lambda>e. e\<lparr>ed_left := []\<rparr>) t"
proof -
  have p: "tm_pos t \<le> length (tm_line t)" using ok by (simp add: term_ok_def)
  note e = editor_ends [OF ok]
  have left: "tm_pos t = 0 \<Longrightarrow> (editor_of t)\<lparr>ed_left := []\<rparr> = editor_of t" by (simp add: editor_of_def)
  have right: "tm_pos t = length (tm_line t) \<Longrightarrow> (editor_of t)\<lparr>ed_right := []\<rparr> = editor_of t" by (simp add: editor_of_def)
  have stuck: "tm_pos t = 0 \<Longrightarrow> back_by n (editor_of t) = editor_of t"
    "tm_pos t = length (tm_line t) \<Longrightarrow> forward_by n (editor_of t) = editor_of t" for n
    by (simp_all add: back_by_def forward_by_def editor_of_def)
  show "refines (\<lambda>t. if tm_pos t = 0 then Ran t else eraseNPreviousChars 1 t) (\<lambda>e. e\<lparr>ed_left := drop 1 (ed_left e)\<rparr>) t"
    using refines_erase [OF ok, of 1] handled_refl [OF ok] e(1) left by (auto simp: refines_def)
  show "refines (\<lambda>t. and_then (countToLeftWord t) (\<lambda>n. goto (tm_pos t - n) t)) (\<lambda>e. back_by (wordBack (ed_left e)) e) t"
    by (rule refines_cong [OF refines_word [OF ok refines_back [OF ok]]]) auto
  show "refines (\<lambda>t. goto (tm_pos t + countToRightWord t) t) (\<lambda>e. forward_by (wordForward (ed_right e)) e) t"
    using refines_forward [OF ok, of "wordForward (ed_right (editor_of t))" "\<lambda>t. goto (tm_pos t + countToRightWord t) t"]
      wordForward_le [of "ed_right (editor_of t)"] p e(4) by (simp add: refines_def wordForward_eq)
  show "refines (\<lambda>t. if tm_pos t = 0 then Ran t else goto (tm_pos t - 1) t) (back_by 1) t"
    using refines_back [OF ok, of 1 "\<lambda>t. goto (tm_pos t - 1) t"] handled_refl [OF ok] stuck(1)
    by (cases "tm_pos t = 0") (auto simp: refines_def)
  show "refines (\<lambda>t. if tm_pos t = length (tm_line t) then Ran t else goto (tm_pos t + 1) t) (forward_by 1) t"
    using refines_forward [OF ok, of 1 "\<lambda>t. goto (tm_pos t + 1) t"] handled_refl [OF ok] stuck(2) e(5)
    by (cases "tm_pos t = length (tm_line t)") (auto simp: refines_def)
  show "refines (\<lambda>t. if tm_pos t = 0 then Ran t else goto 0 t) (\<lambda>e. back_by (length (ed_left e)) e) t"
    using refines_back [OF ok, of "tm_pos t" "goto 0"] handled_refl [OF ok] stuck(1) e(3)
    by (cases "tm_pos t = 0") (auto simp: refines_def)
  show "refines (\<lambda>t. if tm_pos t = length (tm_line t) then Ran t else goto (length (tm_line t)) t)
      (\<lambda>e. forward_by (length (ed_right e)) e) t"
    using refines_forward [OF ok, of "length (tm_line t) - tm_pos t" "goto (length (tm_line t))"] handled_refl [OF ok] stuck(2) e(4) p
    by (cases "tm_pos t = length (tm_line t)") (auto simp: refines_def)
  show "refines (\<lambda>t. and_then (countToLeftWord t) (\<lambda>n. eraseNPreviousChars n t))
      (\<lambda>e. e\<lparr>ed_left := drop (wordBack (ed_left e)) (ed_left e)\<rparr>) t"
    by (rule refines_cong [OF refines_word [OF ok refines_erase [OF ok]]]) auto
  show "refines (\<lambda>t. if tm_pos t < length (tm_line t) then eraseNPreviousChars 1 (t\<lparr>tm_pos := tm_pos t + 1\<rparr>) else Ran t)
      (\<lambda>e. e\<lparr>ed_right := drop 1 (ed_right e)\<rparr>) t"
    using refines_eraseNext [OF ok] handled_refl [OF ok] e(2) right p
    by (cases "tm_pos t < length (tm_line t)") (auto simp: refines_def)
  show "refines (\<lambda>t. eraseNPreviousChars (tm_pos t) t) (\<lambda>e. e\<lparr>ed_left := []\<rparr>) t"
    using refines_erase [OF ok, of "tm_pos t"] e(3) by (simp add: refines_def)
qed

lemma refines_if:
  "\<lbrakk>c \<Longrightarrow> refines f g t; \<not> c \<Longrightarrow> refines f' g' t\<rbrakk> \<Longrightarrow>
    refines (\<lambda>t. if c then f t else f' t) (\<lambda>e. if c then g e else g' e) t"
  by (cases c) simp_all

lemma editKey_split:
  assumes "term_ok t" "refines (otherKey key)
    (\<lambda>e. if isPrintable key \<and> length (ed_text e) \<noteq> maxLineLength then insert_rune key e else e) t"
  shows "refines (editKey key) (edit key) t"
  unfolding editKey_def [abs_def] edit_def [abs_def]
  by (intro refines_if refines_keys [OF assms(1)] refines_previous [OF assms(1)] refines_next [OF assms(1)]
    refines_deleteLine [OF assms(1)] refines_clearScreen [OF assms(1)] assms(2))

lemma editKey_refines:
  assumes "term_ok t" "tm_AutoComplete t = None"
  shows "refines (editKey key) (edit key) t"
  by (rule editKey_split [OF assms(1)], rule refines_cong [OF refines_typed [OF assms(1)]])
    (simp_all add: otherKey_def assms(2))

definition press :: "bool \<Rightarrow> nat \<Rightarrow> editor \<Rightarrow> editor \<times> string option" where
  "press pasting key e =
     (if pasting \<and> key \<noteq> keyEnter then (insert_rune key e, None)
      else if key = keyEnter then (e\<lparr>ed_left := [], ed_right := []\<rparr>, Some (string_of (ed_text e)))
      else (edit key e, None))"

lemma enterLine_ok:
  assumes "term_ok t"
  shows "\<exists>t'. enterLine t = Ran (t', string_of (tm_line t)) \<and> term_ok t' \<and> kept t t' \<and>
    editor_of t' = (editor_of t)\<lparr>ed_left := [], ed_right := []\<rparr>"
proof -
  obtain t' where t': "enterLine t = Ran (t', string_of (tm_line t))" "drawn (t\<lparr>tm_line := [], tm_pos := 0\<rparr>) t'"
    using enterLine_runs [of t] assms by (auto simp: term_ok_def)
  then show ?thesis using drawn_fits [OF t'(2)] assms by (simp add: term_ok_def kept_def editor_of_def drawn_same [OF t'(2)])
qed

lemma handleKey_press:
  assumes ok: "term_ok t" and none: "tm_AutoComplete t = None"
  shows "\<exists>t' out. handleKey key t = Ran (t', out) \<and> term_ok t' \<and> kept t t' \<and>
    press (tm_pasteActive t) key (editor_of t) = (editor_of t', out) \<and>
    (key \<noteq> keyEnter \<longrightarrow> cursor_at (tm_pos t) t \<longrightarrow> cursor_at (tm_pos t') t')"
proof -
  have whole: "ed_text (editor_of t) = tm_line t" by (simp add: ed_text_def editor_of_def)
  obtain t1 where "addKeyToLine key t = Ran t1" "handled t t1" "editor_of t1 = insert_rune key (editor_of t)"
    using refines_addKey [OF ok] by (auto simp: refines_def)
  moreover obtain t2 where "enterLine t = Ran (t2, string_of (tm_line t))" "term_ok t2" "kept t t2"
    "editor_of t2 = (editor_of t)\<lparr>ed_left := [], ed_right := []\<rparr>"
    using enterLine_ok [OF ok] by blast
  moreover obtain t3 where "editKey key t = Ran t3" "handled t t3" "editor_of t3 = edit key (editor_of t)"
    using editKey_refines [OF ok none, of key] by (auto simp: refines_def)
  ultimately show ?thesis by (simp add: handleKey_def press_def handled_def whole)
qed

text \<open>With a callback that answers with a position of its line where a rune starts, or its end: a position within a rune
  may count as more runes than the line has.\<close>

definition callback_ok :: "'w Terminal \<Rightarrow> bool" where
  "callback_ok t \<longleftrightarrow> (\<forall>f. tm_AutoComplete t = Some f \<longrightarrow>
     (\<forall>w s p k w' l q. p \<le> length s \<longrightarrow> f w s p k = (w', Some (l, q)) \<longrightarrow>
        0 \<le> q \<and> q \<le> int (length l) \<and> length (runes_of (take (nat q) l)) \<le> length (runes_of l)))"

text \<open>Keys run, whatever the callback does.\<close>

definition runs :: "('w Terminal \<Rightarrow> 'w Terminal step) \<Rightarrow> 'w Terminal \<Rightarrow> bool" where
  "runs f t \<longleftrightarrow> (\<exists>t'. f t = Ran t' \<and> handled t t')"

lemma refines_runs: "refines f g t \<Longrightarrow> runs f t"
  by (auto simp: refines_def runs_def)

lemma runs_if: "\<lbrakk>c \<Longrightarrow> runs f t; \<not> c \<Longrightarrow> runs f' t\<rbrakk> \<Longrightarrow> runs (\<lambda>t. if c then f t else f' t) t"
  by (cases c) simp_all

lemma handled_world: "handled (t\<lparr>tm_world := w\<rparr>) t' \<Longrightarrow> handled t t'"
  by (simp add: handled_def kept_def cursor_at_def)

lemma runs_otherKey:
  assumes ok: "term_ok t" and cb: "callback_ok t"
  shows "runs (otherKey key) t"
proof (cases "tm_AutoComplete t")
  case None
  then show ?thesis using refines_runs [OF refines_typed [OF ok, of key]] by (simp add: runs_def otherKey_def)
next
  case (Some f)
  have p: "tm_pos t \<le> length (tm_line t)" using ok by (simp add: term_ok_def)
  let ?before = "string_of (take (tm_pos t) (tm_line t))" and ?after = "string_of (drop (tm_pos t) (tm_line t))"
  obtain w answer where f: "f (tm_world t) (?before @ ?after) (length ?before) key = (w, answer)" by fastforce
  let ?t = "t\<lparr>tm_world := w\<rparr>"
  have ok': "term_ok ?t" using ok by (simp add: term_ok_def)
  show ?thesis
  proof (cases answer)
    case None
    obtain t' where "typedKey key ?t = Ran t'" "handled ?t t'"
      using refines_runs [OF refines_typed [OF ok', of key]] by (auto simp: runs_def)
    then show ?thesis using Some None f p handled_world by (auto simp: runs_def otherKey_def Let_def)
  next
    case (Some a)
    obtain l q where a: "a = (l, q)" by fastforce
    have f': "f (tm_world t) (?before @ ?after) (length ?before) key = (w, Some (l, q))" using f Some a by simp
    have le: "length ?before \<le> length (?before @ ?after)" by simp
    have q: "0 \<le> q" "q \<le> int (length l)" "length (runes_of (take (nat q) l)) \<le> length (runes_of l)"
      using cb \<open>tm_AutoComplete t = Some f\<close> f' le unfolding callback_ok_def by blast+
    obtain t' where t': "setLine (runes_of l) (length (runes_of (take (nat q) l))) ?t = Ran t'"
      "drawn (?t\<lparr>tm_line := runes_of l, tm_pos := length (runes_of (take (nat q) l))\<rparr>) t'"
      "cursor_at (length (runes_of (take (nat q) l))) t'"
      using setLine_runs [of ?t "runes_of l" "length (runes_of (take (nat q) l))"] ok' by (auto simp: term_ok_def)
    have "handled t t'" by (rule handled_world [OF conjunct1 [OF handled_drawn [OF t'(2,3) ok' q(3)]]])
    moreover have "otherKey key t = Ran t'" using \<open>tm_AutoComplete t = Some f\<close> f' p q(1,2) t'(1)
      by (simp add: otherKey_def Let_def not_less del: append_assoc)
    ultimately show ?thesis by (auto simp: runs_def)
  qed
qed

lemma runs_editKey:
  assumes "term_ok t" "callback_ok t"
  shows "runs (editKey key) t"
  unfolding editKey_def [abs_def]
  by (intro runs_if runs_otherKey [OF assms] refines_keys [OF assms(1), THEN refines_runs] refines_runs [OF refines_previous [OF assms(1)]]
    refines_runs [OF refines_next [OF assms(1)]] refines_runs [OF refines_deleteLine [OF assms(1)]]
    refines_runs [OF refines_clearScreen [OF assms(1)]])

lemma handleKey_runs:
  assumes "term_ok t" "callback_ok t"
  shows "\<exists>t' out. handleKey key t = Ran (t', out) \<and> term_ok t' \<and> kept t t'"
proof -
  obtain t1 where "addKeyToLine key t = Ran t1" "handled t t1"
    using refines_runs [OF refines_addKey [OF assms(1)]] by (auto simp: runs_def)
  moreover obtain t2 where "enterLine t = Ran (t2, string_of (tm_line t))" "term_ok t2" "kept t t2"
    using enterLine_ok [OF assms(1)] by blast
  moreover obtain t3 where "editKey key t = Ran t3" "handled t t3"
    using runs_editKey [OF assms] by (auto simp: runs_def)
  ultimately show ?thesis by (simp add: handleKey_def handled_def)
qed

end
