(* ===== verification/Terminal_Lines.thy ===== *)
theory Terminal_Lines
  imports Terminal_Spec
begin

text \<open>
  Reading lines from a terminal, and the calls that other goroutines make meanwhile. \<open>readLine\<close> releases the lock while it
  waits for input, so a call of it is a sequence of steps, each of which has the lock: the prompt and the input at hand,
  and then one for each \<open>Read\<close>. Between the steps \<open>Write\<close>, \<open>SetSize\<close> and \<open>SetPrompt\<close> may run. The states that can be reached are those of an
  inductive relation.
\<close>

section \<open>Writing and the size of the window\<close>

definition flush :: "'w Terminal \<Rightarrow> 'w Terminal" where
  "flush t = (snd (conn_write (tm_outBuf t) t))\<lparr>tm_outBuf := []\<rparr>"

primrec clearRows :: "nat \<Rightarrow> 'w Terminal \<Rightarrow> 'w Terminal" where
  "clearRows 0 t = t"
| "clearRows (Suc n) t = clearRows n (clearLineToRight ((move 1 0 0 0 t)\<lparr>tm_cursorY := n\<rparr>))"

text \<open>\<open>Write\<close>, and whether it succeeds. When the connection fails the rest is not done.\<close>

definition term_Write :: "string \<Rightarrow> 'w Terminal \<Rightarrow> (bool \<times> 'w Terminal) step" where
  "term_Write buf t =
     (if tm_cursorX t = 0 \<and> tm_cursorY t = 0 then Ran (conn_write buf t)
      else
        let t1 = clearLineToRight ((move 0 0 (tm_cursorX t) 0 t)\<lparr>tm_cursorX := 0\<rparr>);
            t2 = clearRows (tm_cursorY t1) t1;
            (ok1, t3) = conn_write (tm_outBuf t2) t2 in
        if \<not> ok1 then Ran (False, t3)
        else
          let (ok2, t4) = conn_write buf (t3\<lparr>tm_outBuf := []\<rparr>) in
          if \<not> ok2 then Ran (False, t4)
          else
            and_then (writeLine (tm_prompt t4) t4) (\<lambda>t5.
            and_then (if tm_echo t5 then writeLine (tm_line t5) t5 else Ran t5) (\<lambda>t6.
            and_then (moveCursorToPos (tm_pos t6) t6) (\<lambda>t7.
              let (ok3, t8) = conn_write (tm_outBuf t7) t7 in
              Ran (if ok3 then (True, t8\<lparr>tm_outBuf := []\<rparr>) else (False, t8))))))"

primrec clearDown :: "nat \<Rightarrow> 'w Terminal \<Rightarrow> 'w Terminal" where
  "clearDown 0 t = t"
| "clearDown (Suc n) t =
     clearDown n (clearLineToRight ((move 0 1 0 0 t)\<lparr>tm_cursorY := tm_cursorY t + 1\<rparr>))"

definition clearAndRepaint :: "nat \<Rightarrow> 'w Terminal \<Rightarrow> 'w Terminal step" where
  "clearAndRepaint numPrevLines t =
     (let t1 = clearLineToRight ((move (tm_cursorY t) 0 (tm_cursorX t) 0 t)\<lparr>tm_cursorX := 0, tm_cursorY := 0\<rparr>);
          t2 = clearDown numPrevLines t1;
          t3 = (move (tm_cursorY t2) 0 0 0 t2)\<lparr>tm_cursorX := 0, tm_cursorY := 0\<rparr>;
          t4 = queue (tm_prompt t3) t3 in
      and_then (advanceCursor (visualLength (tm_prompt t4)) t4) (\<lambda>t5.
      and_then (writeLine (tm_line t5) t5) (\<lambda>t6. moveCursorToPos (tm_pos t6) t6)))"

definition SetSize :: "nat \<Rightarrow> nat \<Rightarrow> 'w Terminal \<Rightarrow> (bool \<times> 'w Terminal) step" where
  "SetSize width0 height t0 =
     (let width = (if width0 = 0 then 1 else width0); oldWidth = tm_termWidth t0;
          t = t0\<lparr>tm_termWidth := width, tm_termHeight := height\<rparr>;
          written = (\<lambda>t1. let (ok, t2) = conn_write (tm_outBuf t1) t1 in Ran (ok, t2\<lparr>tm_outBuf := []\<rparr>)) in
      if width = oldWidth then Ran (True, t)
      else if tm_line t = [] \<and> tm_cursorX t = 0 \<and> tm_cursorY t = 0 then Ran (True, t)
      else if width < oldWidth then
        let t1 = (if tm_termWidth t \<le> tm_cursorX t then t\<lparr>tm_cursorX := tm_termWidth t - 1\<rparr> else t);
            t2 = t1\<lparr>tm_cursorY := tm_cursorY t1 * 2\<rparr> in
        and_then (clearAndRepaint (tm_maxLine t2 * 2) t2) written
      else and_then (clearAndRepaint (tm_maxLine t) t) written)"

definition SetPrompt :: "string \<Rightarrow> 'w Terminal \<Rightarrow> 'w Terminal" where
  "SetPrompt prompt t = t\<lparr>tm_prompt := runes_of prompt\<rparr>"

definition SetBracketedPasteMode :: "bool \<Rightarrow> 'w Terminal \<Rightarrow> 'w Terminal" where
  "SetBracketedPasteMode on t = snd (conn_write (if on then esc # ''[?2004h'' else esc # ''[?2004l'') t)"

section \<open>Reading\<close>

datatype term_error = EOF | ErrPasteIndicator | ReadFailed string

text \<open>How the loop over the keys ends.\<close>

datatype loop_end = NeedInput | GotLine string | AtEOF

lemma afterSequence_shorter: "afterSequence b = Some r \<Longrightarrow> length r < length b"
  by (induction b) (auto simp: Let_def split: if_splits)

lemma bytesToKey_shorter:
  assumes "fst (bytesToKey b p) \<noteq> RuneError"
  shows "length (snd (bytesToKey b p)) < length b"
proof -
  have "b \<noteq> [] \<Longrightarrow> length (drop (snd (decodeRune b)) b) < length b" using decodeRune_width [of b] by auto
  then show ?thesis using assms
    by (auto simp: bytesToKey_def dest: afterSequence_shorter split: if_splits option.splits)
qed

text \<open>The loop over the keys: the terminal, the bytes that are left, whether the line is pasted, and how it ended.\<close>

function keysLoop :: "bool \<Rightarrow> string \<Rightarrow> 'w Terminal \<Rightarrow> ('w Terminal \<times> string \<times> bool \<times> loop_end) step" where
  "keysLoop lineIsPasted rest0 t =
     (let key = fst (bytesToKey rest0 (tm_pasteActive t)); rest = snd (bytesToKey rest0 (tm_pasteActive t)) in
      if key = RuneError then Ran (t, rest, lineIsPasted, NeedInput)
      else if \<not> tm_pasteActive t \<and> key = keyCtrlD \<and> tm_line t = [] then Ran (t, rest, lineIsPasted, AtEOF)
      else if \<not> tm_pasteActive t \<and> key = keyPasteStart then
        keysLoop (if tm_line t = [] then True else lineIsPasted) rest (t\<lparr>tm_pasteActive := True\<rparr>)
      else if tm_pasteActive t \<and> key = keyPasteEnd then keysLoop lineIsPasted rest (t\<lparr>tm_pasteActive := False\<rparr>)
      else
        let pasted = (if \<not> tm_pasteActive t then False else lineIsPasted) in
        case handleKey key t of
          Ran (t', Some l) \<Rightarrow> Ran (t', rest, pasted, GotLine l)
        | Ran (t', None) \<Rightarrow> keysLoop pasted rest t'
        | Blocks \<Rightarrow> Blocks
        | Panicked e \<Rightarrow> Panicked e)"
  by pat_completeness auto
termination
  by (relation "measure (\<lambda>(p, r, t). length r)") (use bytesToKey_shorter in auto)

declare keysLoop.simps [simp del]

text \<open>A round of \<open>readLine\<close>, from the input at hand up to the next \<open>Read\<close>: the line and the error, when it returns.\<close>

definition inBufLength :: nat where "inBufLength = 256"

definition readRound :: "bool \<Rightarrow> 'w Terminal \<Rightarrow> ('w Terminal \<times> bool \<times> (string \<times> term_error option) option) step" where
  "readRound lineIsPasted t0 =
     and_then (keysLoop lineIsPasted (tm_remainder t0) t0) (\<lambda>(t, rest, pasted, e).
       case e of
         AtEOF \<Rightarrow> Ran (t, pasted, Some ([], Some EOF))
       | NeedInput \<Rightarrow> Ran (flush (t\<lparr>tm_remainder := take inBufLength rest\<rparr>), pasted, None)
       | GotLine l \<Rightarrow>
           let t1 = flush (t\<lparr>tm_remainder := take inBufLength rest\<rparr>); err = (if pasted then Some ErrPasteIndicator else None) in
           if tm_echo t1 then
             and_then (ring_Add l (tm_history t1)) (\<lambda>h.
               Ran (t1\<lparr>tm_historyIndex := -1, tm_history := h\<rparr>, pasted, Some (l, err)))
           else Ran (t1, pasted, Some (l, err)))"

text \<open>
  A \<open>Read\<close> into what is free of the buffer; it waits when there is no input. An empty buffer is read at once, with
  nothing. Of a read that fails the bytes are dropped.
\<close>

definition readInput :: "'w Terminal \<Rightarrow> ('w Terminal \<times> term_error option) step" where
  "readInput t =
     (let free = inBufLength - length (tm_remainder t) in
      if free = 0 then Ran (t, None)
      else
        case tm_in t of
          [] \<Rightarrow> Blocks
        | (data, err) # rest \<Rightarrow>
            if free < length data then
              Ran (t\<lparr>tm_in := (drop free data, err) # rest, tm_remainder := tm_remainder t @ take free data\<rparr>, None)
            else
              case err of
                Some e \<Rightarrow> Ran (t\<lparr>tm_in := rest\<rparr>, Some (ReadFailed e))
              | None \<Rightarrow> Ran (t\<lparr>tm_in := rest, tm_remainder := tm_remainder t @ data\<rparr>, None))"

section \<open>Steps\<close>

text \<open>A call of \<open>ReadLine\<close> or \<open>ReadPassword\<close> waits for input, with the prompt that \<open>ReadPassword\<close> restores, or has returned.\<close>

datatype reading = Idle | is_Waits: Waits bool "nat list option" | Returned string "term_error option"

record 'w console =
  con_term :: "'w Terminal"
  con_reading :: reading

definition leave :: "nat list option \<Rightarrow> 'w Terminal \<Rightarrow> 'w Terminal" where
  "leave oldPrompt t = (case oldPrompt of None \<Rightarrow> t | Some p \<Rightarrow> t\<lparr>tm_prompt := p, tm_echo := True\<rparr>)"

definition roundStep :: "bool \<Rightarrow> nat list option \<Rightarrow> 'w Terminal \<Rightarrow> 'w console step" where
  "roundStep lineIsPasted oldPrompt t =
     and_then (readRound lineIsPasted t) (\<lambda>(t', pasted, r).
       Ran (case r of
              None \<Rightarrow> \<lparr>con_term = t', con_reading = Waits pasted oldPrompt\<rparr>
            | Some (l, e) \<Rightarrow> \<lparr>con_term = leave oldPrompt t', con_reading = Returned l e\<rparr>))"

definition startReading :: "nat list option \<Rightarrow> 'w Terminal \<Rightarrow> 'w console step" where
  "startReading oldPrompt t =
     and_then
       (if tm_cursorX t = 0 \<and> tm_cursorY t = 0 then and_then (writeLine (tm_prompt t) t) (\<lambda>t'. Ran (flush t')) else Ran t)
       (\<lambda>t1. roundStep (tm_pasteActive t1) oldPrompt t1)"

definition ReadLine :: "'w Terminal \<Rightarrow> 'w console step" where
  "ReadLine t = startReading None t"

definition ReadPassword :: "string \<Rightarrow> 'w Terminal \<Rightarrow> 'w console step" where
  "ReadPassword prompt t = startReading (Some (tm_prompt t)) (t\<lparr>tm_prompt := runes_of prompt, tm_echo := False\<rparr>)"

text \<open>The step of a call that waits: the \<open>Read\<close> and the next round.\<close>

definition readStep :: "'w console \<Rightarrow> 'w console step" where
  "readStep c =
     (case con_reading c of
        Waits lineIsPasted oldPrompt \<Rightarrow>
          and_then (readInput (con_term c)) (\<lambda>(t, err).
            case err of
              Some e \<Rightarrow> Ran \<lparr>con_term = leave oldPrompt t, con_reading = Returned [] (Some e)\<rparr>
            | None \<Rightarrow> roundStep lineIsPasted oldPrompt t)
      | _ \<Rightarrow> Blocks)"

inductive console_step :: "'w console \<Rightarrow> 'w console \<Rightarrow> bool" where
  call_ReadLine: "\<lbrakk>\<not> is_Waits (con_reading c); ReadLine (con_term c) = Ran c'\<rbrakk> \<Longrightarrow> console_step c c'"
| call_ReadPassword: "\<lbrakk>\<not> is_Waits (con_reading c); ReadPassword prompt (con_term c) = Ran c'\<rbrakk> \<Longrightarrow> console_step c c'"
| reads: "readStep c = Ran c' \<Longrightarrow> console_step c c'"
| call_Write: "term_Write buf (con_term c) = Ran (ok, t) \<Longrightarrow> console_step c (c\<lparr>con_term := t\<rparr>)"
| call_SetSize: "SetSize w h (con_term c) = Ran (ok, t) \<Longrightarrow> console_step c (c\<lparr>con_term := t\<rparr>)"
| call_SetPrompt: "console_step c (c\<lparr>con_term := SetPrompt prompt (con_term c)\<rparr>)"
| call_SetBracketedPasteMode: "console_step c (c\<lparr>con_term := SetBracketedPasteMode on (con_term c)\<rparr>)"

abbreviation console_reachable :: "'w console \<Rightarrow> 'w console \<Rightarrow> bool" where
  "console_reachable \<equiv> console_step\<^sup>*\<^sup>*"

definition new_console :: "('w \<Rightarrow> string \<Rightarrow> nat \<Rightarrow> nat \<Rightarrow> 'w \<times> (string \<times> int) option) option \<Rightarrow> 'w \<Rightarrow>
    (string \<times> string option) list \<Rightarrow> nat \<Rightarrow> string \<Rightarrow> 'w console" where
  "new_console complete w input writes prompt =
     \<lparr>con_term = (NewTerminal w input writes prompt)\<lparr>tm_AutoComplete := complete\<rparr>, con_reading = Idle\<rparr>"

section \<open>The invariant\<close>

definition session_ok :: "'w Terminal \<Rightarrow> bool" where
  "session_ok t \<longleftrightarrow> term_ok t \<and> callback_ok t \<and> length (tm_remainder t) \<le> inBufLength"

lemma session_fits: "session_ok t \<Longrightarrow> tm_cursorX t < tm_termWidth t"
  by (simp add: session_ok_def term_ok_def)

lemma session_drawn: "session_ok t \<Longrightarrow> drawn t t' \<Longrightarrow> session_ok t'"
  using drawn_fits [of t t'] drawn_same [of t t'] by (simp add: session_ok_def term_ok_def callback_ok_def)

lemma conn_write_fields [simp]:
  "session_ok (snd (conn_write b t)) = session_ok t" "tm_outBuf (snd (conn_write b t)) = tm_outBuf t"
  "tm_remainder (snd (conn_write b t)) = tm_remainder t" "tm_echo (snd (conn_write b t)) = tm_echo t"
  "tm_history (snd (conn_write b t)) = tm_history t"
  by (simp_all add: conn_write_def session_ok_def term_ok_def callback_ok_def)

lemma session_fields [simp]:
  "session_ok (t\<lparr>tm_outBuf := b\<rparr>) = session_ok t" "session_ok (t\<lparr>tm_prompt := p\<rparr>) = session_ok t"
  "session_ok (t\<lparr>tm_echo := e\<rparr>) = session_ok t" "session_ok (t\<lparr>tm_pasteActive := a\<rparr>) = session_ok t"
  "session_ok (t\<lparr>tm_in := i\<rparr>) = session_ok t" "session_ok (t\<lparr>tm_termHeight := h\<rparr>) = session_ok t"
  "session_ok (t\<lparr>tm_cursorY := y\<rparr>) = session_ok t" "session_ok (t\<lparr>tm_maxLine := m\<rparr>) = session_ok t"
  "session_ok (queue d t) = session_ok t"
  by (simp_all add: session_ok_def term_ok_def callback_ok_def queue_def)

lemma session_flush [simp]: "session_ok (flush t) = session_ok t"
  by (simp add: flush_def)

lemma session_draws: "draws f \<Longrightarrow> session_ok t \<Longrightarrow> \<exists>t'. f t = Ran t' \<and> session_ok t'"
  using draws_run [of f t] session_fits session_drawn by blast

lemma session_move [simp]: "session_ok (move u d l r t) = session_ok t" "session_ok (clearLineToRight t) = session_ok t"
  by (simp_all add: move_def clearLineToRight_def)

lemma session_column: "session_ok t \<Longrightarrow> x < tm_termWidth t \<Longrightarrow> session_ok (t\<lparr>tm_cursorX := x\<rparr>)"
  by (simp add: session_ok_def term_ok_def callback_ok_def)

lemma clearRows_session [simp]: "session_ok (clearRows n t) = session_ok t"
  by (induction n arbitrary: t) simp_all

lemma clearDown_session [simp]: "session_ok (clearDown n t) = session_ok t"
  by (induction n arbitrary: t) simp_all

lemma move_width [simp]: "tm_termWidth (move u d l r t) = tm_termWidth t"
  by (simp add: move_def)

lemma clearDown_width [simp]: "tm_termWidth (clearDown n t) = tm_termWidth t"
  by (induction n arbitrary: t) (simp_all add: clearLineToRight_def)

lemma repaint_runs:
  assumes "session_ok t"
  shows "\<exists>t'. and_then (writeLine (tm_prompt t) t) (\<lambda>t5. and_then (if tm_echo t5 then writeLine (tm_line t5) t5 else Ran t5)
    (\<lambda>t6. and_then (moveCursorToPos (tm_pos t6) t6) f)) = f t' \<and> session_ok t'"
proof -
  obtain t5 where t5: "writeLine (tm_prompt t) t = Ran t5" "session_ok t5" using session_draws [OF draws_write assms] by blast
  obtain t6 where t6: "(if tm_echo t5 then writeLine (tm_line t5) t5 else Ran t5) = Ran t6" "session_ok t6"
    using session_draws [OF draws_write t5(2), of "tm_line t5"] t5(2) by (cases "tm_echo t5") auto
  obtain t7 where "moveCursorToPos (tm_pos t6) t6 = Ran t7" "session_ok t7" using session_draws [OF draws_move t6(2)] by blast
  then show ?thesis using t5(1) t6(1) by auto
qed

lemma Write_runs:
  assumes "session_ok t"
  shows "\<exists>ok t'. term_Write buf t = Ran (ok, t') \<and> session_ok t'"
proof (cases "tm_cursorX t = 0 \<and> tm_cursorY t = 0")
  case True
  then show ?thesis using assms conn_write_fields(1) [of buf t] by (cases "conn_write buf t") (simp add: term_Write_def)
next
  case False
  define t2 where "t2 = (let t1 = clearLineToRight ((move 0 0 (tm_cursorX t) 0 t)\<lparr>tm_cursorX := 0\<rparr>) in clearRows (tm_cursorY t1) t1)"
  have t2: "session_ok t2" using assms session_fits [OF assms] by (simp add: t2_def Let_def session_column)
  obtain ok1 t3 where t3: "conn_write (tm_outBuf t2) t2 = (ok1, t3)" "session_ok t3"
    using t2 conn_write_fields(1) [of "tm_outBuf t2" t2] by (cases "conn_write (tm_outBuf t2) t2") simp
  obtain ok2 t4 where t4: "conn_write buf (t3\<lparr>tm_outBuf := []\<rparr>) = (ok2, t4)" "session_ok t4"
    using t3(2) conn_write_fields(1) [of buf "t3\<lparr>tm_outBuf := []\<rparr>"] by (cases "conn_write buf (t3\<lparr>tm_outBuf := []\<rparr>)") simp
  let ?fin = "\<lambda>t7. let (ok3, t8) = conn_write (tm_outBuf t7) t7 in Ran (if ok3 then (True, t8\<lparr>tm_outBuf := []\<rparr>) else (False, t8))"
  have run: "term_Write buf t = (if \<not> ok1 then Ran (False, t3) else if \<not> ok2 then Ran (False, t4) else
      and_then (writeLine (tm_prompt t4) t4) (\<lambda>t5. and_then (if tm_echo t5 then writeLine (tm_line t5) t5 else Ran t5)
        (\<lambda>t6. and_then (moveCursorToPos (tm_pos t6) t6) ?fin)))"
    by (subst term_Write_def, subst if_not_P [OF False]) (use t3(1) t4(1) in \<open>simp add: Let_def t2_def\<close>)
  obtain t7 where "and_then (writeLine (tm_prompt t4) t4) (\<lambda>t5. and_then (if tm_echo t5 then writeLine (tm_line t5) t5 else Ran t5)
        (\<lambda>t6. and_then (moveCursorToPos (tm_pos t6) t6) ?fin)) = ?fin t7" "session_ok t7"
    using repaint_runs [OF t4(2), of ?fin] by blast
  moreover from this obtain ok3 t8 where "conn_write (tm_outBuf t7) t7 = (ok3, t8)" "session_ok t8"
    using conn_write_fields(1) [of "tm_outBuf t7" t7] by (cases "conn_write (tm_outBuf t7) t7") simp
  ultimately show ?thesis using run t3(2) t4(2) by (cases ok1; cases ok2; cases ok3) auto
qed

lemma clearAndRepaint_runs:
  assumes "session_ok t"
  shows "\<exists>t'. clearAndRepaint n t = Ran t' \<and> session_ok t'"
proof -
  define t4 where "t4 = (let t1 = clearLineToRight ((move (tm_cursorY t) 0 (tm_cursorX t) 0 t)\<lparr>tm_cursorX := 0, tm_cursorY := 0\<rparr>);
      t2 = clearDown n t1; t3 = (move (tm_cursorY t2) 0 0 0 t2)\<lparr>tm_cursorX := 0, tm_cursorY := 0\<rparr> in queue (tm_prompt t3) t3)"
  have "0 < tm_termWidth t" using session_fits [OF assms] by simp
  then have t4: "session_ok t4" using assms
    by (simp add: t4_def Let_def session_column clearLineToRight_def)
  obtain t5 where t5: "advanceCursor (visualLength (tm_prompt t4)) t4 = Ran t5" "session_ok t5"
    using advanceCursor_runs [of t4] session_fits [OF t4] session_drawn [OF t4] by fastforce
  obtain t6 where t6: "writeLine (tm_line t5) t5 = Ran t6" "session_ok t6" using session_draws [OF draws_write t5(2)] by blast
  obtain t7 where "moveCursorToPos (tm_pos t6) t6 = Ran t7" "session_ok t7" using session_draws [OF draws_move t6(2)] by blast
  then show ?thesis using t5(1) t6(1) by (simp add: clearAndRepaint_def Let_def t4_def)
qed

lemma SetSize_runs:
  assumes "session_ok t"
  shows "\<exists>ok t'. SetSize w h t = Ran (ok, t') \<and> session_ok t'"
proof -
  define width where "width = (if w = 0 then 1 else w)"
  have w: "0 < width" by (simp add: width_def)
  define u where "u = t\<lparr>tm_termWidth := width, tm_termHeight := h\<rparr>"
  have written: "\<exists>ok t'. (let (ok, t2) = conn_write (tm_outBuf t1) t1 in Ran (ok, t2\<lparr>tm_outBuf := []\<rparr>)) = Ran (ok, t') \<and>
      session_ok t'" if "session_ok t1" for t1 :: "'w Terminal"
    using that conn_write_fields(1) [of "tm_outBuf t1" t1] by (cases "conn_write (tm_outBuf t1) t1") simp
  have u: "session_ok u" if "tm_cursorX t < width"
    using assms that by (simp add: session_ok_def term_ok_def callback_ok_def u_def)
  consider "width = tm_termWidth t" | "width \<noteq> tm_termWidth t" "tm_line t = [] \<and> tm_cursorX t = 0 \<and> tm_cursorY t = 0"
    | "width < tm_termWidth t" "\<not> (tm_line t = [] \<and> tm_cursorX t = 0 \<and> tm_cursorY t = 0)"
    | "tm_termWidth t < width" "\<not> (tm_line t = [] \<and> tm_cursorX t = 0 \<and> tm_cursorY t = 0)"
    by linarith
  then show ?thesis
  proof cases
    case 1
    have "SetSize w h t = Ran (True, u)" unfolding SetSize_def Let_def width_def [symmetric] u_def [symmetric] using 1 by simp
    moreover have "session_ok u" using u session_fits [OF assms] 1 by simp
    ultimately show ?thesis by blast
  next
    case 2
    then have "SetSize w h t = Ran (True, u)" by (auto simp: SetSize_def Let_def u_def width_def)
    moreover have "session_ok u" using u w 2 by simp
    ultimately show ?thesis by blast
  next
    case 3
    define t2 where "t2 = (let t1 = (if width \<le> tm_cursorX u then u\<lparr>tm_cursorX := width - 1\<rparr> else u) in
      t1\<lparr>tm_cursorY := tm_cursorY t1 * 2\<rparr>)"
    have "session_ok t2" using assms w by (simp add: session_ok_def term_ok_def callback_ok_def u_def t2_def Let_def)
    then obtain t3 where t3: "clearAndRepaint (tm_maxLine t2 * 2) t2 = Ran t3" "session_ok t3" using clearAndRepaint_runs by blast
    have "SetSize w h t = and_then (clearAndRepaint (tm_maxLine t2 * 2) t2)
        (\<lambda>t1. let (ok, t2) = conn_write (tm_outBuf t1) t1 in Ran (ok, t2\<lparr>tm_outBuf := []\<rparr>))"
      using 3 by (auto simp: SetSize_def Let_def t2_def u_def width_def)
    then show ?thesis using t3(1) written [OF t3(2)] by simp
  next
    case 4
    then have "session_ok u" using u session_fits [OF assms] by simp
    then obtain t3 where t3: "clearAndRepaint (tm_maxLine u) u = Ran t3" "session_ok t3" using clearAndRepaint_runs by blast
    have "SetSize w h t = and_then (clearAndRepaint (tm_maxLine u) u)
        (\<lambda>t1. let (ok, t2) = conn_write (tm_outBuf t1) t1 in Ran (ok, t2\<lparr>tm_outBuf := []\<rparr>))"
      using 4 by (auto simp: SetSize_def Let_def u_def width_def)
    then show ?thesis using t3(1) written [OF t3(2)] by simp
  qed
qed

lemma handleKey_session:
  assumes "session_ok t"
  shows "\<exists>t' out. handleKey key t = Ran (t', out) \<and> session_ok t'"
proof -
  obtain t' out where "handleKey key t = Ran (t', out)" "term_ok t'" "kept t t'"
    using handleKey_runs [of t key] assms by (auto simp: session_ok_def)
  then show ?thesis using assms by (auto simp: session_ok_def kept_def callback_ok_def)
qed

lemma keysLoop_runs:
  "session_ok t \<Longrightarrow> \<exists>t' r p e. keysLoop pasted rest t = Ran (t', r, p, e) \<and> session_ok t'"
proof (induction pasted rest t rule: keysLoop.induct)
  case (1 pasted rest0 t)
  obtain t1 out where "handleKey (fst (bytesToKey rest0 (tm_pasteActive t))) t = Ran (t1, out)" "session_ok t1"
    using handleKey_session [OF 1(4)] by blast
  then show ?case using 1 by (subst keysLoop.simps) (auto simp: Let_def split: option.splits)
qed

lemma ring_Add_runs: "session_ok t \<Longrightarrow> \<exists>h. ring_Add l (tm_history t) = Ran h \<and> session_ok (t\<lparr>tm_historyIndex := -1, tm_history := h\<rparr>)"
  using ring.add_law [of "tm_history t" l] by (fastforce simp: session_ok_def term_ok_def callback_ok_def)

lemma session_remainder: "session_ok t \<Longrightarrow> length b \<le> inBufLength \<Longrightarrow> session_ok (t\<lparr>tm_remainder := b\<rparr>)"
  by (simp add: session_ok_def term_ok_def callback_ok_def)

lemma readRound_runs:
  assumes "session_ok t"
  shows "\<exists>t' p r. readRound pasted t = Ran (t', p, r) \<and> session_ok t'"
proof -
  obtain t1 rest p e where k: "keysLoop pasted (tm_remainder t) t = Ran (t1, rest, p, e)" "session_ok t1"
    using keysLoop_runs [OF assms] by blast
  define t2 where "t2 = flush (t1\<lparr>tm_remainder := take inBufLength rest\<rparr>)"
  have t2: "session_ok t2" using session_remainder [OF k(2), of "take inBufLength rest"] by (simp add: t2_def)
  show ?thesis
  proof (cases e)
    case (GotLine l)
    obtain h where "ring_Add l (tm_history t2) = Ran h" "session_ok (t2\<lparr>tm_historyIndex := -1, tm_history := h\<rparr>)"
      using ring_Add_runs [OF t2] by blast
    then show ?thesis using k(1) t2 GotLine by (auto simp: readRound_def Let_def simp flip: t2_def)
  qed (use k t2 in \<open>simp_all add: readRound_def flip: t2_def\<close>)
qed

definition console_ok :: "'w console \<Rightarrow> bool" where
  "console_ok c \<longleftrightarrow> session_ok (con_term c)"

lemma session_leave [simp]: "session_ok (leave old t) = session_ok t"
  by (simp add: leave_def split: option.split)

lemma roundStep_runs:
  assumes "session_ok t"
  shows "\<exists>c. roundStep pasted old t = Ran c \<and> console_ok c"
proof -
  obtain t' p r where "readRound pasted t = Ran (t', p, r)" "session_ok t'" using readRound_runs [OF assms] by blast
  then show ?thesis by (auto simp: roundStep_def console_ok_def split: option.splits)
qed

lemma startReading_runs:
  assumes "session_ok t"
  shows "\<exists>c. startReading old t = Ran c \<and> console_ok c"
proof -
  obtain t1 where t1: "writeLine (tm_prompt t) t = Ran t1" "session_ok t1" using session_draws [OF draws_write assms] by blast
  have "session_ok (flush t1)" using t1(2) by simp
  then show ?thesis using t1(1) roundStep_runs [OF assms] roundStep_runs [of "flush t1"] by (simp add: startReading_def)
qed

lemma readInput_runs:
  assumes "session_ok t"
  shows "readInput t = Blocks \<or> (\<exists>t' err. readInput t = Ran (t', err) \<and> session_ok t')"
proof -
  have "length (tm_remainder t) \<le> inBufLength" using assms by (simp add: session_ok_def)
  then show ?thesis using assms
    by (auto simp: readInput_def Let_def intro!: session_remainder split: list.splits prod.splits option.splits)
qed

lemma readStep_runs:
  assumes "console_ok c"
  shows "readStep c = Blocks \<or> (\<exists>c'. readStep c = Ran c' \<and> console_ok c')"
proof (cases "con_reading c")
  case (Waits pasted old)
  show ?thesis
  proof (cases "readInput (con_term c) = Blocks")
    case False
    then obtain t err where "readInput (con_term c) = Ran (t, err)" "session_ok t"
      using readInput_runs [of "con_term c"] assms by (auto simp: console_ok_def)
    then show ?thesis using roundStep_runs [of t pasted old] Waits
      by (auto simp: readStep_def console_ok_def split: option.splits)
  qed (simp add: readStep_def Waits)
qed (simp_all add: readStep_def)

lemma console_step_ok: "console_step c c' \<Longrightarrow> console_ok c \<Longrightarrow> console_ok c'"
proof (induction rule: console_step.induct)
  case (call_ReadLine c c')
  then show ?case using startReading_runs [of "con_term c" None] by (auto simp: ReadLine_def console_ok_def)
next
  case (call_ReadPassword c prompt c')
  then show ?case using startReading_runs [of "(con_term c)\<lparr>tm_prompt := runes_of prompt, tm_echo := False\<rparr>"
      "Some (tm_prompt (con_term c))"] by (auto simp: ReadPassword_def console_ok_def)
next
  case (reads c c')
  then show ?case using readStep_runs by fastforce
next
  case (call_Write buf c ok t)
  then show ?case using Write_runs [of "con_term c" buf] by (auto simp: console_ok_def)
next
  case (call_SetSize w h c ok t)
  then show ?case using SetSize_runs [of "con_term c" w h] by (auto simp: console_ok_def)
qed (simp_all add: console_ok_def SetPrompt_def SetBracketedPasteMode_def)

lemma console_reachable_ok: "console_reachable c c' \<Longrightarrow> console_ok c \<Longrightarrow> console_ok c'"
  by (induction rule: rtranclp_induct) (auto dest: console_step_ok)

lemma new_console_ok: "callback_ok (con_term (new_console f w input writes prompt)) \<Longrightarrow>
    console_ok (new_console f w input writes prompt)"
  by (simp add: console_ok_def session_ok_def term_ok_def new_console_def NewTerminal_def)

end
