(* ===== verification/Terminal_Properties.thy ===== *)
theory Terminal_Properties
  imports Terminal_Lines "HOL-Library.Code_Target_Nat"
begin

text \<open>
  Properties of the terminal: keys and lines that are typed, what is shown while the echo is off, and the states in which
  a call of \<open>ReadLine\<close> does not come to an end.
\<close>

section \<open>Runes and their bytes\<close>

definition scalar :: "nat \<Rightarrow> bool" where
  "scalar r \<longleftrightarrow> r \<le> 0x10FFFF \<and> \<not> surrogate r"

lemma byte_char [simp]: "n < 256 \<Longrightarrow> of_char (char_of n :: char) = (n :: nat)"
  by simp

lemma encode_cases:
  assumes "scalar r"
  obtains "r < 0x80" "encodeRune r = [char_of r]"
  | "0x80 \<le> r" "r < 0x800" "encodeRune r = [char_of (192 + r div 64), char_of (128 + r mod 64)]"
  | "0x800 \<le> r" "r < 0x10000" "\<not> surrogate r"
    "encodeRune r = [char_of (224 + r div 4096), char_of (128 + r div 64 mod 64), char_of (128 + r mod 64)]"
  | "0x10000 \<le> r" "r \<le> 0x10FFFF" "encodeRune r = [char_of (240 + r div 262144), char_of (128 + r div 4096 mod 64),
      char_of (128 + r div 64 mod 64), char_of (128 + r mod 64)]"
proof -
  consider "r < 0x80" | "0x80 \<le> r" "r < 0x800" | "0x800 \<le> r" "r < 0x10000" | "0x10000 \<le> r" by linarith
  then show ?thesis using that assms by cases (simp_all add: scalar_def encodeRune_def Let_def)
qed

lemma digits2: "(r :: nat) = r div 64 * 64 + r mod 64"
  by simp

lemma digits3: "(r :: nat) = r div 4096 * 4096 + r div 64 mod 64 * 64 + r mod 64"
proof -
  have "r div 64 = r div 64 div 64 * 64 + r div 64 mod 64" by (rule digits2)
  moreover have "r div 64 div 64 = r div 4096" by (simp add: div_mult2_eq [symmetric])
  ultimately have "r div 64 = r div 4096 * 64 + r div 64 mod 64" by simp
  then show ?thesis using digits2 [of r] by linarith
qed

lemma digits4: "(r :: nat) = r div 262144 * 262144 + r div 4096 mod 64 * 4096 + r div 64 mod 64 * 64 + r mod 64"
proof -
  have "r div 4096 = r div 4096 div 64 * 64 + r div 4096 mod 64" by (rule digits2)
  moreover have "r div 4096 div 64 = r div 262144" by (simp add: div_mult2_eq [symmetric])
  ultimately have "r div 4096 = r div 262144 * 64 + r div 4096 mod 64" by simp
  then show ?thesis using digits3 [of r] by linarith
qed

lemma offset_mod: "k mod m = 0 \<Longrightarrow> a < m \<Longrightarrow> (k + a) mod m = (a :: nat)"
  by (metis add_0 mod_add_left_eq mod_less)

text \<open>Decoding is the inverse of encoding, and only the whole encoding is a full rune.\<close>

lemma decode2:
  assumes "a < 32" "b < 64" "0x80 \<le> a * 64 + b"
  shows "decodeRune (char_of (192 + a :: nat) # char_of (128 + b :: nat) # rest) = (a * 64 + b, 2)"
    "fullRune (char_of (192 + a :: nat) # char_of (128 + b :: nat) # rest)"
proof -
  have "(192 + a) mod 32 = a" "(128 + b) mod 64 = b" "192 + a < 256" "128 + b < 256"
    using assms by (simp_all add: offset_mod)
  then show "decodeRune (char_of (192 + a :: nat) # char_of (128 + b :: nat) # rest) = (a * 64 + b, 2)"
    "fullRune (char_of (192 + a :: nat) # char_of (128 + b :: nat) # rest)"
    using assms by (simp_all add: decodeRune_def fullRune_def Let_def continuation_def)
qed

lemma decode3:
  assumes "a < 16" "b < 64" "c < 64" "0x800 \<le> a * 4096 + b * 64 + c" "\<not> surrogate (a * 4096 + b * 64 + c)"
  shows "decodeRune (char_of (224 + a :: nat) # char_of (128 + b :: nat) # char_of (128 + c :: nat) # rest) =
      (a * 4096 + b * 64 + c, 3)"
    "fullRune (char_of (224 + a :: nat) # char_of (128 + b :: nat) # char_of (128 + c :: nat) # rest)"
proof -
  have "(224 + a) mod 16 = a" "(128 + b) mod 64 = b" "(128 + c) mod 64 = c" "224 + a < 256" "128 + b < 256" "128 + c < 256"
    using assms by (simp_all add: offset_mod)
  then show "decodeRune (char_of (224 + a :: nat) # char_of (128 + b :: nat) # char_of (128 + c :: nat) # rest) =
      (a * 4096 + b * 64 + c, 3)"
    "fullRune (char_of (224 + a :: nat) # char_of (128 + b :: nat) # char_of (128 + c :: nat) # rest)"
    using assms by (simp_all add: decodeRune_def fullRune_def Let_def continuation_def)
qed

lemma decode4:
  assumes "a < 8" "b < 64" "c < 64" "d < 64" "0x10000 \<le> a * 262144 + b * 4096 + c * 64 + d"
    "a * 262144 + b * 4096 + c * 64 + d \<le> 0x10FFFF"
  shows "decodeRune (char_of (240 + a :: nat) # char_of (128 + b :: nat) # char_of (128 + c :: nat) # char_of (128 + d :: nat) # rest) =
      (a * 262144 + b * 4096 + c * 64 + d, 4)"
    "fullRune (char_of (240 + a :: nat) # char_of (128 + b :: nat) # char_of (128 + c :: nat) # char_of (128 + d :: nat) # rest)"
proof -
  have "(240 + a) mod 8 = a" "(128 + b) mod 64 = b" "(128 + c) mod 64 = c" "(128 + d) mod 64 = d" "240 + a < 256" "128 + b < 256"
    "128 + c < 256" "128 + d < 256"
    using assms(1-4) by (simp_all add: offset_mod)
  then show "decodeRune (char_of (240 + a :: nat) # char_of (128 + b :: nat) # char_of (128 + c :: nat) # char_of (128 + d :: nat) # rest) =
      (a * 262144 + b * 4096 + c * 64 + d, 4)"
    "fullRune (char_of (240 + a :: nat) # char_of (128 + b :: nat) # char_of (128 + c :: nat) # char_of (128 + d :: nat) # rest)"
    using assms by (simp_all add: decodeRune_def fullRune_def Let_def continuation_def)
qed

lemma decode_encode:
  assumes "scalar r"
  shows "decodeRune (encodeRune r @ rest) = (r, length (encodeRune r)) \<and> fullRune (encodeRune r @ rest)"
  using assms
proof (cases rule: encode_cases)
  case 1
  then show ?thesis by (simp add: decodeRune_def fullRune_def Let_def)
next
  case 2
  have "r div 64 < 32" using 2(2) by (simp add: less_mult_imp_div_less)
  then show ?thesis using 2 decode2 [of "r div 64" "r mod 64" rest] by simp
next
  case 3
  have "r div 4096 < 16" using 3(2) by (simp add: less_mult_imp_div_less)
  then show ?thesis using 3 decode3 [of "r div 4096" "r div 64 mod 64" "r mod 64" rest] digits3 [of r, symmetric] by simp
next
  case 4
  have "r div 262144 < 8" using 4(2) by (simp add: less_mult_imp_div_less)
  then show ?thesis
    using 4 decode4 [of "r div 262144" "r div 4096 mod 64" "r div 64 mod 64" "r mod 64" rest] digits4 [of r, symmetric] by simp
qed

lemma partial_rune:
  assumes "scalar r" "0 < n" "n < length (encodeRune r)"
  shows "\<not> fullRune (take n (encodeRune r)) \<and> 0x80 \<le> (of_char (encodeRune r ! 0) :: nat)"
  using assms(1)
proof (cases rule: encode_cases)
  case 1
  then show ?thesis using assms by simp
next
  case 2
  then have "r div 64 < 32" by (simp add: less_mult_imp_div_less)
  moreover have "n = 1" using assms 2 by simp
  ultimately show ?thesis using 2 by (simp add: fullRune_def Let_def continuation_def)
next
  case 3
  then have "r div 4096 < 16" by (simp add: less_mult_imp_div_less)
  moreover have "n = 1 \<or> n = 2" using assms 3 by auto
  ultimately show ?thesis using 3 by (auto simp: fullRune_def Let_def continuation_def numeral_2_eq_2)
next
  case 4
  then have "r div 262144 < 5" by (simp add: less_mult_imp_div_less)
  moreover have "n = 1 \<or> n = 2 \<or> n = 3" using assms 4 by auto
  ultimately show ?thesis using 4 by (auto simp: fullRune_def Let_def continuation_def numeral_2_eq_2 numeral_3_eq_3)
qed

section \<open>Text that is typed\<close>

text \<open>A rune of the text: not a key, and not what stands for an error.\<close>

definition plainRune :: "nat \<Rightarrow> bool" where
  "plainRune r \<longleftrightarrow> scalar r \<and> 32 \<le> r \<and> r \<noteq> keyBackspace \<and> r \<noteq> RuneError"

lemma first_byte:
  assumes "scalar r"
  shows "encodeRune r \<noteq> [] \<and> (r < 0x80 \<and> (of_char (encodeRune r ! 0) :: nat) = r \<or> 0x80 \<le> r \<and> (0x80 :: nat) \<le> of_char (encodeRune r ! 0))"
  using assms
proof (cases rule: encode_cases)
  case 2
  have "r div 64 < 32" using 2(2) by (simp add: less_mult_imp_div_less)
  then show ?thesis using 2 by simp
next
  case 3
  have "r div 4096 < 16" using 3(2) by (simp add: less_mult_imp_div_less)
  then show ?thesis using 3 by simp
next
  case 4
  have "r div 262144 < 8" using 4(2) by (simp add: less_mult_imp_div_less)
  then show ?thesis using 4 by simp
qed simp

lemma first_plain: "plainRune r \<Longrightarrow> encodeRune r \<noteq> [] \<and> (32 :: nat) \<le> of_char (encodeRune r ! 0)"
  using first_byte [of r] by (auto simp: plainRune_def)

lemma bytesToKey_plain:
  assumes "b \<noteq> []" "(32 :: nat) \<le> of_char (b ! 0)"
  shows "bytesToKey b p = (if \<not> fullRune b then (RuneError, b) else (fst (decodeRune b), drop (snd (decodeRune b)) b))"
  using assms by (simp add: bytesToKey_def controlKey_def keyEscape_def)

lemma bytesToKey_rune:
  assumes "plainRune r"
  shows "bytesToKey (encodeRune r @ rest) p = (r, rest)"
proof -
  have "encodeRune r @ rest \<noteq> []" "(32 :: nat) \<le> of_char ((encodeRune r @ rest) ! 0)"
    using first_plain [OF assms] by (auto simp: nth_append)
  then show ?thesis using decode_encode [of r rest] assms by (simp add: bytesToKey_plain plainRune_def)
qed

lemma bytesToKey_part:
  assumes "plainRune r" "n < length (encodeRune r)"
  shows "bytesToKey (take n (encodeRune r)) p = (RuneError, take n (encodeRune r))"
proof (cases "n = 0")
  case False
  then have "take n (encodeRune r) \<noteq> []" "(32 :: nat) \<le> of_char (take n (encodeRune r) ! 0)"
    using first_plain [OF assms(1)] assms(2) by auto
  then show ?thesis using partial_rune [of r n] False assms by (simp add: bytesToKey_plain plainRune_def)
qed (simp add: bytesToKey_def)

lemma bytesToKey_enter: "bytesToKey (CHR 0x0D # rest) p = (keyEnter, rest)"
  by (simp add: bytesToKey_def controlKey_def key_defs fullRune_def decodeRune_def Let_def)

lemma string_of_simps [simp]: "string_of [] = []" "string_of (r # rs) = encodeRune r @ string_of rs"
  "string_of (rs @ rs') = string_of rs @ string_of rs'"
  by (simp_all add: string_of_def)

lemma plain_key: "plainRune r \<Longrightarrow> edit r e = (if length (ed_text e) \<noteq> maxLineLength then insert_rune r e else e) \<and>
    r \<noteq> keyEnter \<and> r \<noteq> keyCtrlD \<and> r \<noteq> keyPasteStart \<and> r \<noteq> RuneError"
  by (auto simp: edit_def key_defs plainRune_def scalar_def surrogate_def isPrintable_def)

text \<open>The terminal at a line of text, with the cursor at its end.\<close>

definition typing :: "nat list \<Rightarrow> 'w Terminal \<Rightarrow> bool" where
  "typing rs t \<longleftrightarrow> session_ok t \<and> tm_AutoComplete t = None \<and> \<not> tm_pasteActive t \<and> tm_line t = rs \<and> tm_pos t = length rs"

lemma typing_key:
  assumes "typing ds t" "plainRune r" "length ds < maxLineLength"
  shows "\<exists>t'. handleKey r t = Ran (t', None) \<and> typing (ds @ [r]) t' \<and> kept t t'"
proof -
  have ok: "term_ok t" "tm_AutoComplete t = None" "\<not> tm_pasteActive t" "tm_line t = ds" "tm_pos t = length ds"
    "length (tm_remainder t) \<le> inBufLength" using assms(1) by (simp_all add: typing_def session_ok_def)
  obtain t' out where t': "handleKey r t = Ran (t', out)" "term_ok t'" "kept t t'"
    "press (tm_pasteActive t) r (editor_of t) = (editor_of t', out)"
    using handleKey_press [OF ok(1,2)] by blast
  have e: "editor_of t' = insert_rune r (editor_of t)" "out = None"
    using t'(4) ok plain_key [OF assms(2), of "editor_of t"] assms(3) by (auto simp: press_def ed_text_def editor_of_def)
  have "rev (take (tm_pos t') (tm_line t')) = r # rev ds" "drop (tm_pos t') (tm_line t') = []"
    using e(1) ok by (auto simp: editor_of_def insert_rune_def)
  then have "take (tm_pos t') (tm_line t') = ds @ [r]" "tm_pos t' = length (tm_line t')"
    using t'(2) by (simp_all add: rev_swap term_ok_def)
  then have "tm_line t' = ds @ [r]" "tm_pos t' = length (ds @ [r])" by simp_all
  then show ?thesis using t' ok e(2) by (auto simp: typing_def session_ok_def kept_def callback_ok_def)
qed

lemma keysLoop_typed:
  "\<lbrakk>typing ds t; \<forall>r \<in> set rs. plainRune r; length ds + length rs \<le> maxLineLength\<rbrakk> \<Longrightarrow>
    \<exists>t'. keysLoop pasted (string_of rs @ rest) t = keysLoop (pasted \<and> rs = []) rest t' \<and> typing (ds @ rs) t' \<and> kept t t'"
proof (induction rs arbitrary: ds t pasted)
  case Nil
  then show ?case by (intro exI [of _ t]) (simp add: kept_def)
next
  case (Cons r rs)
  obtain t1 where t1: "handleKey r t = Ran (t1, None)" "typing (ds @ [r]) t1" "kept t t1"
    using typing_key [OF Cons.prems(1), of r] Cons.prems(2,3) by auto
  have "keysLoop pasted (string_of (r # rs) @ rest) t = keysLoop False (string_of rs @ rest) t1"
    using t1(1) plain_key [of r] Cons.prems(1,2) bytesToKey_rune [of r "string_of rs @ rest"]
    by (subst keysLoop.simps) (simp add: Let_def typing_def)
  moreover obtain t' where "keysLoop False (string_of rs @ rest) t1 = keysLoop (False \<and> rs = []) rest t'"
    "typing ((ds @ [r]) @ rs) t'" "kept t1 t'"
    using Cons.IH [OF t1(2), of False] Cons.prems(2,3) by auto
  moreover have "kept t t'" using t1(3) \<open>kept t1 t'\<close> by (simp add: kept_def)
  ultimately show ?case by auto
qed

lemma keysLoop_part:
  "bytesToKey b (tm_pasteActive t) = (RuneError, b) \<Longrightarrow> keysLoop pasted b t = Ran (t, b, pasted, NeedInput)"
  by (subst keysLoop.simps) (simp add: Let_def)

lemma keysLoop_enter:
  assumes "typing ds t"
  shows "\<exists>t'. keysLoop pasted (CHR 0x0D # rest) t = Ran (t', rest, False, GotLine (string_of ds)) \<and> typing [] t' \<and> kept t t'"
proof -
  have ok: "term_ok t" "\<not> tm_pasteActive t" "tm_line t = ds" using assms by (simp_all add: typing_def session_ok_def)
  obtain t' where t': "enterLine t = Ran (t', string_of ds)" "term_ok t'" "kept t t'"
    "editor_of t' = (editor_of t)\<lparr>ed_left := [], ed_right := []\<rparr>"
    using enterLine_ok [OF ok(1)] ok(3) by auto
  have "handleKey keyEnter t = Ran (t', Some (string_of ds))" using t'(1) by (simp add: handleKey_def)
  moreover have "tm_pos t' \<le> length (tm_line t')" using t'(2) by (simp add: term_ok_def)
  then have "typing [] t'" using t' assms by (auto simp: typing_def session_ok_def kept_def callback_ok_def editor_of_def)
  moreover have "keyEnter \<noteq> RuneError" "keyEnter \<noteq> keyCtrlD" "keyEnter \<noteq> keyPasteStart" by (simp_all add: key_defs RuneError_def)
  ultimately show ?thesis using t'(3) ok(2) by (subst keysLoop.simps) (simp add: Let_def bytesToKey_enter)
qed

text \<open>The input is cut somewhere: before it are whole runes and a part of one.\<close>

lemma split_typed:
  "\<lbrakk>b @ later = string_of us @ [CHR 0x0D]; later \<noteq> []\<rbrakk> \<Longrightarrow> \<exists>us1 us2 part. us = us1 @ us2 \<and> b = string_of us1 @ part \<and>
    (part = [] \<or> (\<exists>u us3 n. us2 = u # us3 \<and> n < length (encodeRune u) \<and> part = take n (encodeRune u)))"
proof (induction us arbitrary: b)
  case Nil
  then show ?case by (cases b) auto
next
  case (Cons u us)
  show ?case
  proof (cases "length b < length (encodeRune u)")
    case True
    then have "b = take (length b) (encodeRune u)" using Cons.prems(1) by (simp add: append_eq_append_conv_if)
    then have "\<exists>n. n < length (encodeRune u) \<and> b = take n (encodeRune u)" using True by blast
    then show ?thesis by (intro exI [of _ "[]"] exI [of _ "u # us"] exI [of _ b]) simp
  next
    case False
    have "take (length (encodeRune u)) (b @ later) = encodeRune u" using Cons.prems(1) by simp
    then have "take (length (encodeRune u)) b = encodeRune u" using False by simp
    then obtain b' where b': "b = encodeRune u @ b'" by (metis append_take_drop_id)
    then have later: "b' @ later = string_of us @ [CHR 0x0D]" using Cons.prems(1) by simp
    obtain us1 us2 part where "us = us1 @ us2" "b' = string_of us1 @ part"
      "part = [] \<or> (\<exists>u us3 n. us2 = u # us3 \<and> n < length (encodeRune u) \<and> part = take n (encodeRune u))"
      using Cons.IH [OF later Cons.prems(2)] by blast
    then show ?thesis using b' by (intro exI [of _ "u # us1"] exI [of _ us2] exI [of _ part]) simp
  qed
qed

lemma typing_flush: "typing rs t \<Longrightarrow> length b \<le> inBufLength \<Longrightarrow> typing rs (flush (t\<lparr>tm_remainder := b\<rparr>)) \<and>
    tm_remainder (flush (t\<lparr>tm_remainder := b\<rparr>)) = b \<and> tm_in (flush (t\<lparr>tm_remainder := b\<rparr>)) = tm_in t"
  using session_remainder [of t b] by (auto simp: typing_def flush_def conn_write_def session_ok_def term_ok_def callback_ok_def)

lemma encode_length: "scalar r \<Longrightarrow> length (encodeRune r) \<le> 4"
  by (erule encode_cases) simp_all

lemma round_part:
  assumes "typing ds t" "\<forall>r \<in> set us. plainRune r" "length ds + length us \<le> maxLineLength"
    and "tm_remainder t @ later = string_of us @ [CHR 0x0D]" "later \<noteq> []"
  shows "\<exists>t' p us1 us2. readRound pasted t = Ran (t', p, None) \<and> typing (ds @ us1) t' \<and> us = us1 @ us2 \<and>
    tm_remainder t' @ later = string_of us2 @ [CHR 0x0D] \<and> length (tm_remainder t') \<le> 3 \<and> tm_in t' = tm_in t"
proof -
  obtain us1 us2 part where u: "us = us1 @ us2" "tm_remainder t = string_of us1 @ part"
    "part = [] \<or> (\<exists>u us3 n. us2 = u # us3 \<and> n < length (encodeRune u) \<and> part = take n (encodeRune u))"
    using split_typed [OF assms(4,5)] by blast
  have b: "bytesToKey part False = (RuneError, part)"
  proof (cases "part = []")
    case False
    then obtain v us3 n where v: "us2 = v # us3" "n < length (encodeRune v)" "part = take n (encodeRune v)" using u(3) by blast
    show ?thesis unfolding v(3) by (rule bytesToKey_part [OF _ v(2)]) (use assms(2) u(1) v(1) in simp)
  qed (simp add: bytesToKey_def)
  have "length part < 4" if "us2 = v # us3" "n < length (encodeRune v)" "part = take n (encodeRune v)" for v us3 n
  proof -
    have "v \<in> set us" using that(1) u(1) by simp
    then have "length (encodeRune v) \<le> 4" using assms(2) encode_length by (simp add: plainRune_def)
    then show ?thesis using that(2,3) by simp
  qed
  then have l: "length part \<le> 3" using u(3) by fastforce
  obtain t1 where t1: "keysLoop pasted (string_of us1 @ part) t = keysLoop (pasted \<and> us1 = []) part t1" "typing (ds @ us1) t1"
    "kept t t1" using keysLoop_typed [OF assms(1), of us1 pasted part] assms(2,3) u(1) by auto
  have "keysLoop (pasted \<and> us1 = []) part t1 = Ran (t1, part, pasted \<and> us1 = [], NeedInput)"
    using keysLoop_part [of part t1] b t1(2) by (simp add: typing_def)
  then have "readRound pasted t = Ran (flush (t1\<lparr>tm_remainder := part\<rparr>), pasted \<and> us1 = [], None)"
    using t1(1) u(2) l by (simp add: readRound_def inBufLength_def)
  moreover have "part @ later = string_of us2 @ [CHR 0x0D]" using assms(4) u(1,2) by simp
  moreover have "tm_in t1 = tm_in t" using t1(3) by (simp add: kept_def)
  ultimately show ?thesis using typing_flush [OF t1(2), of part] l u(1) by (auto simp: inBufLength_def)
qed

lemma round_line:
  assumes "typing ds t" "\<forall>r \<in> set us. plainRune r" "length ds + length us \<le> maxLineLength"
    and "tm_remainder t = string_of us @ [CHR 0x0D]"
  shows "\<exists>t' p. readRound pasted t = Ran (t', p, Some (string_of (ds @ us), None))"
proof -
  obtain t1 where t1: "keysLoop pasted (tm_remainder t) t = keysLoop (pasted \<and> us = []) [CHR 0x0D] t1" "typing (ds @ us) t1"
    using keysLoop_typed [OF assms(1-3), of pasted "[CHR 0x0D]"] assms(4) by auto
  obtain t2 where t2: "keysLoop (pasted \<and> us = []) [CHR 0x0D] t1 = Ran (t2, [], False, GotLine (string_of (ds @ us)))" "typing [] t2"
    using keysLoop_enter [OF t1(2), of "pasted \<and> us = []" "[]"] by auto
  define t3 where "t3 = flush (t2\<lparr>tm_remainder := []\<rparr>)"
  have "typing [] t3" using typing_flush [OF t2(2), of "[]"] by (simp add: t3_def)
  then obtain h where "ring_Add (string_of (ds @ us)) (tm_history t3) = Ran h"
    using ring_Add_runs [of t3 "string_of (ds @ us)"] by (auto simp: typing_def)
  then show ?thesis using t1(1) t2(1) by (auto simp: readRound_def Let_def simp flip: t3_def)
qed

text \<open>The call goes on reading.\<close>

primrec readOn :: "nat \<Rightarrow> 'w console \<Rightarrow> 'w console step" where
  "readOn 0 c = Ran c"
| "readOn (Suc n) c = (if is_Waits (con_reading c) then and_then (readStep c) (readOn n) else Ran c)"

lemma readOn_done: "\<not> is_Waits (con_reading c) \<Longrightarrow> readOn n c = Ran c"
  by (cases n) simp_all

lemma reads_typed:
  "\<lbrakk>typing ds t; \<forall>r \<in> set us. plainRune r; length ds + length us \<le> maxLineLength;
    tm_remainder t @ concat chunks = string_of us @ [CHR 0x0D]; concat chunks \<noteq> []; length (tm_remainder t) \<le> 3;
    tm_in t = map (\<lambda>b. (b, None)) chunks; \<forall>b \<in> set chunks. length b \<le> 253\<rbrakk> \<Longrightarrow>
    \<exists>c. readOn (length chunks) \<lparr>con_term = t, con_reading = Waits pasted old\<rparr> = Ran c \<and>
      con_reading c = Returned (string_of (ds @ us)) None"
proof (induction chunks arbitrary: ds us t pasted)
  case (Cons b cs)
  define t1 where "t1 = t\<lparr>tm_in := map (\<lambda>b. (b, None)) cs, tm_remainder := tm_remainder t @ b\<rparr>"
  have r: "readInput t = Ran (t1, None)"
    using Cons.prems(6-8) by (auto simp: readInput_def Let_def inBufLength_def t1_def)
  have len: "length (tm_remainder t @ b) \<le> inBufLength" using Cons.prems(6,8) by (simp add: inBufLength_def)
  have ty: "typing ds t1" using Cons.prems(1) session_remainder [of "t\<lparr>tm_in := map (\<lambda>b. (b, None)) cs\<rparr>", OF _ len]
    by (simp add: typing_def t1_def)
  have e: "tm_remainder t1 @ concat cs = string_of us @ [CHR 0x0D]" "tm_in t1 = map (\<lambda>b. (b, None)) cs"
    using Cons.prems(4) by (simp_all add: t1_def)
  show ?case
  proof (cases "concat cs = []")
    case True
    then have "tm_remainder t1 = string_of us @ [CHR 0x0D]" using e(1) by (simp del: concat_eq_Nil_conv)
    then obtain t' p where "readRound pasted t1 = Ran (t', p, Some (string_of (ds @ us), None))"
      using round_line [OF ty Cons.prems(2,3)] by blast
    then show ?thesis using r by (simp add: readStep_def roundStep_def readOn_done)
  next
    case False
    obtain t' p us1 us2 where t': "readRound pasted t1 = Ran (t', p, None)" "typing (ds @ us1) t'" "us = us1 @ us2"
      "tm_remainder t' @ concat cs = string_of us2 @ [CHR 0x0D]" "length (tm_remainder t') \<le> 3" "tm_in t' = tm_in t1"
      using round_part [OF ty Cons.prems(2,3) e(1) False] by blast
    have step: "readStep \<lparr>con_term = t, con_reading = Waits pasted old\<rparr> = Ran \<lparr>con_term = t', con_reading = Waits p old\<rparr>"
      using r t'(1) by (simp add: readStep_def roundStep_def)
    obtain c where "readOn (length cs) \<lparr>con_term = t', con_reading = Waits p old\<rparr> = Ran c"
      "con_reading c = Returned (string_of ((ds @ us1) @ us2)) None"
      using Cons.IH [OF t'(2) _ _ t'(4) False t'(5), of p] t'(3,6) e(2) Cons.prems(2,3,8) by auto
    then show ?thesis using step t'(3) by simp
  qed
qed simp

lemma startReading_typing:
  assumes "typing [] t" "tm_remainder t = []"
  shows "\<exists>t'. startReading old t = Ran \<lparr>con_term = t', con_reading = Waits False old\<rparr> \<and> typing [] t' \<and>
    tm_remainder t' = [] \<and> tm_in t' = tm_in t"
proof -
  have fits: "tm_cursorX t < tm_termWidth t" using assms(1) by (simp add: typing_def session_ok_def term_ok_def)
  obtain t1 where t1: "writeLine (tm_prompt t) t = Ran t1" "drawn t t1" using writeLine_runs [OF fits] by blast
  have ty1: "typing [] t1" "tm_remainder t1 = []" "tm_in t1 = tm_in t"
    using assms t1(2) session_drawn [OF _ t1(2)] by (simp_all add: typing_def drawn_same [OF t1(2)])
  have up: "u\<lparr>tm_remainder := []\<rparr> = u" if "tm_remainder u = []" for u :: "'w Terminal" using that by (cases u) simp
  define t2 where "t2 = (if tm_cursorX t = 0 \<and> tm_cursorY t = 0 then flush t1 else t)"
  have t2: "typing [] t2" "tm_remainder t2 = []" "tm_in t2 = tm_in t"
    using typing_flush [OF ty1(1), of "[]"] ty1 assms by (simp_all add: t2_def up)
  have "keysLoop False [] t2 = Ran (t2, [], False, NeedInput)" by (rule keysLoop_part) (simp add: bytesToKey_def)
  then have "readRound False t2 = Ran (flush t2, False, None)" using t2(2) by (simp add: readRound_def up)
  moreover have "typing [] (flush t2)" "tm_remainder (flush t2) = []" "tm_in (flush t2) = tm_in t"
    using typing_flush [OF t2(1), of "[]"] t2(2,3) by (simp_all add: up)
  moreover have "\<not> tm_pasteActive t2" using t2(1) by (simp add: typing_def)
  moreover have "startReading old t = roundStep (tm_pasteActive t2) old t2" using t1(1) by (simp add: startReading_def t2_def)
  ultimately show ?thesis by (simp add: roundStep_def)
qed

section \<open>Echo\<close>

lemma silent_move: "\<not> tm_echo t \<Longrightarrow> moveCursorToPos p t = Ran t"
  by (simp add: moveCursorToPos_def)

lemma silent_goto: "\<not> tm_echo t \<Longrightarrow> goto p t = Ran (t\<lparr>tm_pos := p\<rparr>)"
  by (simp add: goto_def silent_move)

lemma silent_setLine: "\<not> tm_echo t \<Longrightarrow> setLine l p t = Ran (t\<lparr>tm_line := l, tm_pos := p\<rparr>)"
  by (simp add: setLine_def)

lemma silent_add: "\<not> tm_echo t \<Longrightarrow> addKeyToLine k t = Ran t' \<Longrightarrow> tm_outBuf t' = tm_outBuf t"
  by (auto simp: addKeyToLine_def Let_def silent_move split: if_splits)

lemma silent_erase: "\<not> tm_echo t \<Longrightarrow> eraseNPreviousChars n t = Ran t' \<Longrightarrow> tm_outBuf t' = tm_outBuf t"
  by (auto simp: eraseNPreviousChars_def Let_def silent_move split: if_splits)

lemma silent_typed: "\<not> tm_echo t \<Longrightarrow> typedKey k t = Ran t' \<Longrightarrow> tm_outBuf t' = tm_outBuf t"
  by (auto simp: typedKey_def silent_add split: if_splits)

lemma silent_other: "\<not> tm_echo t \<Longrightarrow> otherKey k t = Ran t' \<Longrightarrow> tm_outBuf t' = tm_outBuf t"
  by (auto simp: otherKey_def Let_def silent_setLine dest: silent_typed [of "t\<lparr>tm_world := w\<rparr>" for w, rotated] silent_typed
    split: option.splits if_splits prod.splits)

lemma silent_history:
  "\<not> tm_echo t \<Longrightarrow> previousLine t = Ran t' \<Longrightarrow> tm_outBuf t' = tm_outBuf t"
  "\<not> tm_echo t \<Longrightarrow> nextLine t = Ran t' \<Longrightarrow> tm_outBuf t' = tm_outBuf t"
  by (auto simp: previousLine_def nextLine_def Let_def silent_setLine and_then_Ran split: option.splits if_splits)

definition silent :: "('w Terminal \<Rightarrow> 'w Terminal step) \<Rightarrow> 'w Terminal \<Rightarrow> bool" where
  "silent f t \<longleftrightarrow> (\<forall>t'. f t = Ran t' \<longrightarrow> tm_outBuf t' = tm_outBuf t)"

lemma silent_if: "\<lbrakk>c \<Longrightarrow> silent f t; \<not> c \<Longrightarrow> silent g t\<rbrakk> \<Longrightarrow> silent (\<lambda>t. if c then f t else g t) t"
  by (cases c) simp_all

lemma silent_then: "(\<And>x. silent (f x) t) \<Longrightarrow> silent (\<lambda>t. and_then (m t) (\<lambda>x. f x t)) t"
  by (auto simp: silent_def and_then_Ran)

lemma silent_Ran: "silent Ran t"
  by (simp add: silent_def)

lemma silent_erases: "\<not> tm_echo t \<Longrightarrow> silent (eraseNPreviousChars n) t"
  using silent_erase by (auto simp: silent_def)

lemma silent_gotos: "\<not> tm_echo t \<Longrightarrow> silent (\<lambda>t. goto (p t) t) t"
  by (simp add: silent_def silent_goto)

lemma silent_guard: "\<lbrakk>silent f t; silent g t\<rbrakk> \<Longrightarrow> silent (\<lambda>t. if c t then f t else g t) t"
  by (auto simp: silent_def)

lemma silent_erase_at: "\<not> tm_echo t \<Longrightarrow> silent (\<lambda>t. eraseNPreviousChars (n t) (t\<lparr>tm_pos := p t\<rparr>)) t"
  using silent_erase [of "t\<lparr>tm_pos := p t\<rparr>" "n t"] by (simp add: silent_def)

lemma silent_erase_all: "\<not> tm_echo t \<Longrightarrow> silent (\<lambda>t. eraseNPreviousChars (tm_pos t) t) t"
  using silent_erase [of t "tm_pos t"] by (simp add: silent_def)

lemma silent_lines: "\<not> tm_echo t \<Longrightarrow> silent previousLine t" "\<not> tm_echo t \<Longrightarrow> silent nextLine t"
  "\<not> tm_echo t \<Longrightarrow> silent (otherKey key) t"
  using silent_history [of t] silent_other [of t key] unfolding silent_def by blast+

lemma silent_edit:
  assumes "\<not> tm_echo t" "key \<noteq> keyDeleteLine" "key \<noteq> keyClearScreen"
  shows "silent (editKey key) t"
proof -
  note leaf = silent_lines [OF assms(1)] silent_erase_all [OF assms(1)] silent_erases [OF assms(1)]
    silent_erase_at [OF assms(1)] silent_gotos [OF assms(1)]
  have 1: "silent (\<lambda>t. if tm_pos t = 0 then Ran t else eraseNPreviousChars 1 t) t"
    by (rule silent_guard [OF silent_Ran leaf(5)])
  have 2: "silent (\<lambda>t. and_then (countToLeftWord t) (\<lambda>n. goto (tm_pos t - n) t)) t"
    by (rule silent_then) (rule leaf(7))
  have 3: "silent (\<lambda>t. if c t then Ran t else goto (p t) t) t" for c p by (rule silent_guard [OF silent_Ran leaf(7)])
  have 4: "silent (\<lambda>t. and_then (countToLeftWord t) (\<lambda>n. eraseNPreviousChars n t)) t" by (rule silent_then) (rule leaf(5))
  have 5: "silent (\<lambda>t. if tm_pos t < length (tm_line t) then eraseNPreviousChars 1 (t\<lparr>tm_pos := tm_pos t + 1\<rparr>) else Ran t) t"
    by (rule silent_guard [OF leaf(6) silent_Ran])
  have 6: "silent (\<lambda>t. goto (tm_pos t + countToRightWord t) t) t" by (rule leaf(7))
  show ?thesis unfolding editKey_def [abs_def] using assms(2,3)
    by (simp only: if_False) (intro silent_if 1 2 6 3 4 5 leaf(1-4))
qed

lemma silent_blank:
  "blankRest n t = Ran t' \<Longrightarrow> \<exists>b. tm_outBuf t' = tm_outBuf t @ b \<and> length (filter (\<lambda>c. c = CHR 0x20) b) = n"
proof (induction n arbitrary: t)
  case (Suc n)
  then obtain t1 where t1: "advanceCursor 1 (queue space t) = Ran t1" "blankRest n t1 = Ran t'" by (auto simp: and_then_Ran)
  have "(of_char (char_of (32 :: nat) :: char) :: nat) = of_char (CHR 0x20)" by simp
  then have "string_of space = [CHR 0x20]"
    by (simp only: of_char_eq_iff) (simp add: space_def encodeRune_def surrogate_def Let_def)
  then obtain b where b: "tm_outBuf t1 = tm_outBuf t @ CHR 0x20 # b" "filter (\<lambda>c. c = CHR 0x20) b = []"
    using t1(1) by (auto simp: advanceCursor_def Let_def queue_def split: if_splits)
  then show ?case using Suc.IH [OF t1(2)] by auto
qed simp

lemma blank_echo: "blankRest n t = Ran t' \<Longrightarrow> tm_echo t' = tm_echo t \<and> tm_pos t' = tm_pos t \<and> tm_line t' = tm_line t"
proof (induction n arbitrary: t)
  case (Suc n)
  then obtain t1 where t1: "advanceCursor 1 (queue space t) = Ran t1" "blankRest n t1 = Ran t'" by (auto simp: and_then_Ran)
  moreover have "tm_echo t1 = tm_echo t \<and> tm_pos t1 = tm_pos t \<and> tm_line t1 = tm_line t"
    using t1(1) by (auto simp: advanceCursor_def Let_def split: if_splits)
  ultimately show ?case using Suc.IH [OF t1(2)] by simp
qed simp

lemma runes_of_string: "\<forall>r \<in> set rs. scalar r \<Longrightarrow> runes_of (string_of rs) = rs"
proof -
  have "map snd (rangeRunes i (string_of rs)) = rs" if "\<forall>r \<in> set rs. scalar r" for i
    using that
  proof (induction rs arbitrary: i)
    case (Cons r rs)
    have "encodeRune r \<noteq> []" using first_byte [of r] Cons.prems by simp
    then show ?case using Cons decode_encode [of r "string_of rs"] by (subst rangeRunes.simps) simp
  qed (simp add: rangeRunes.simps)
  then show "\<forall>r \<in> set rs. scalar r \<Longrightarrow> runes_of (string_of rs) = rs" by (simp add: runes_of_def)
qed

section \<open>Calls that do not return\<close>

lemma flush_fields [simp]: "tm_remainder (flush t) = tm_remainder t" "tm_in (flush t) = tm_in t" "tm_line (flush t) = tm_line t"
  "tm_pasteActive (flush t) = tm_pasteActive t"
  by (simp_all add: flush_def conn_write_def)

text \<open>A buffer that is full of a sequence that has no end yet.\<close>

definition stuck :: "'w Terminal \<Rightarrow> bool" where
  "stuck t \<longleftrightarrow> length (tm_remainder t) = inBufLength \<and>
     bytesToKey (tm_remainder t) (tm_pasteActive t) = (RuneError, tm_remainder t)"

lemma stuck_step:
  assumes "stuck t"
  shows "\<exists>t'. readStep \<lparr>con_term = t, con_reading = Waits p old\<rparr> = Ran \<lparr>con_term = t', con_reading = Waits p old\<rparr> \<and> stuck t' \<and>
    tm_in t' = tm_in t \<and> tm_line t' = tm_line t"
proof -
  have r: "t\<lparr>tm_remainder := tm_remainder t\<rparr> = t" by simp
  have "readInput t = Ran (t, None)" using assms by (simp add: readInput_def stuck_def)
  moreover have "readRound p t = Ran (flush t, p, None)"
    using assms keysLoop_part [of "tm_remainder t" t p] by (simp add: readRound_def stuck_def)
  ultimately show ?thesis using assms by (simp add: readStep_def roundStep_def stuck_def)
qed

text \<open>The bytes of what \<open>writeLine\<close> draws, without the ends of line it adds.\<close>

abbreviation no_lf :: "string \<Rightarrow> string" where
  "no_lf b \<equiv> filter (\<lambda>c. c \<noteq> CHR 0x0A) b"

lemma writeLine_draws:
  "\<lbrakk>writeLine l t = Ran t'; tm_cursorX t < tm_termWidth t\<rbrakk> \<Longrightarrow> \<exists>b. tm_outBuf t' = tm_outBuf t @ b \<and> no_lf b = no_lf (string_of l)"
proof (induction l t rule: writeLine.induct)
  case (1 l t)
  show ?case
  proof (cases "l = []")
    case True
    then show ?thesis using 1(2) by (simp add: writeLine.simps)
  next
    case False
    define todo where "todo = min (length l) (tm_termWidth t - tm_cursorX t)"
    define q where "q = queue (take todo l) t"
    obtain t1 where t1: "advanceCursor (visualLength (take todo l)) q = Ran t1" "writeLine (drop todo l) t1 = Ran t'"
      using 1(2,3) False by (subst (asm) writeLine.simps) (auto simp: Let_def q_def split: step.splits simp flip: todo_def)
    obtain b1 where b1: "tm_outBuf t1 = tm_outBuf t @ string_of (take todo l) @ b1" "no_lf b1 = []"
      using t1(1) by (auto simp: advanceCursor_def Let_def q_def queue_def split: if_splits)
    obtain b2 where "tm_outBuf t' = tm_outBuf t1 @ b2" "no_lf b2 = no_lf (string_of (drop todo l))"
      using 1(1) [OF False _ todo_def t1(1) [unfolded q_def] t1(2)] 1(3) advanceCursor_cursor [OF t1(1)] by auto
    moreover have "string_of l = string_of (take todo l) @ string_of (drop todo l)"
      by (metis append_take_drop_id string_of_simps(3))
    ultimately show ?thesis using b1 by (intro exI [of _ "string_of (take todo l) @ b1 @ b2"]) simp
  qed
qed

text \<open>While the echo is off the window is drawn again with the line.\<close>

lemma repaint_shows:
  assumes "session_ok t" "\<not> tm_echo t" "clearAndRepaint n t = Ran t'"
  shows "\<exists>pre b. tm_outBuf t' = pre @ b \<and> no_lf b = no_lf (string_of (tm_line t)) \<and> tm_out t' = tm_out t \<and> tm_writes t' = tm_writes t"
proof -
  define t4 where "t4 = (let t1 = clearLineToRight ((move (tm_cursorY t) 0 (tm_cursorX t) 0 t)\<lparr>tm_cursorX := 0, tm_cursorY := 0\<rparr>);
      t2 = clearDown n t1; t3 = (move (tm_cursorY t2) 0 0 0 t2)\<lparr>tm_cursorX := 0, tm_cursorY := 0\<rparr> in queue (tm_prompt t3) t3)"
  obtain t5 t6 where t: "advanceCursor (visualLength (tm_prompt t4)) t4 = Ran t5" "writeLine (tm_line t5) t5 = Ran t6"
    "moveCursorToPos (tm_pos t6) t6 = Ran t'"
    using assms(3) by (auto simp: clearAndRepaint_def Let_def and_then_Ran t4_def)
  have move: "undrawn (move a b c d u) = undrawn u" for a b c d and u :: "'w Terminal" by (simp add: move_def)
  have down: "undrawn (clearDown m u) = undrawn u" for m and u :: "'w Terminal"
  proof (induction m arbitrary: u)
    case (Suc m)
    have "undrawn (u\<lparr>tm_cursorY := y\<rparr>) = undrawn u" for y and u :: "'w Terminal" by (simp add: undrawn_def)
    then show ?case using Suc by (simp add: clearLineToRight_def move)
  qed simp
  have cursor: "undrawn (u\<lparr>tm_cursorX := 0, tm_cursorY := 0\<rparr>) = undrawn u" for u :: "'w Terminal" by (simp add: undrawn_def)
  have "undrawn t4 = undrawn t" by (simp add: t4_def Let_def move down cursor clearLineToRight_def)
  moreover have "undrawn t5 = undrawn t4" using t(1) by (auto simp: advanceCursor_def Let_def undrawn_def split: if_splits)
  moreover have fits: "tm_cursorX t5 < tm_termWidth t5" by (rule advanceCursor_cursor [OF t(1)])
  ultimately have d5: "drawn t t5" by (simp add: drawn_def)
  have d6: "drawn t t6" using drawn_trans [OF d5] writeLine_runs [OF fits, of "tm_line t5"] t(2) by auto
  have "t' = t6" using t(3) silent_move [of t6 "tm_pos t6"] assms(2) by (simp add: drawn_same(9) [OF d6])
  then show ?thesis using writeLine_draws [OF t(2) fits] d6 by (auto simp: drawn_same [OF d5] drawn_same [OF d6])
qed

section \<open>Concrete terminals\<close>

text \<open>A terminal and what is typed on it, read by read.\<close>

definition typed_console :: "string list \<Rightarrow> unit console" where
  "typed_console bs = new_console None () (map (\<lambda>b. (b, None)) bs) 99 ''> ''"

definition run_line :: "nat \<Rightarrow> unit console \<Rightarrow> unit console step" where
  "run_line n c = and_then (ReadLine (con_term c)) (readOn n)"

definition run_password :: "nat \<Rightarrow> unit console \<Rightarrow> unit console step" where
  "run_password n c = and_then (ReadPassword ''password: '' (con_term c)) (readOn n)"

lemma typed_console_typing: "typing [] (con_term (typed_console bs))"
  by (simp add: typing_def typed_console_def new_console_def NewTerminal_def session_ok_def term_ok_def callback_ok_def inBufLength_def)

section \<open>Properties\<close>




lemma demo_resized:
  "(case run_line 1 (typed_console [''ls -l'']) of
      Ran c \<Rightarrow> (case SetSize 3 24 (con_term c) of Ran (ok, t) \<Rightarrow> tm_cursorY t = 2 \<and> tm_line t \<noteq> [] | _ \<Rightarrow> False) | _ \<Rightarrow> False)"
  by code_simp




text \<open>C40: what a password shows. While the echo is off no key adds to what is drawn, but Enter, which adds an end of
  line whatever was typed, the key that clears the screen, and the key that deletes the rest of the line. That one draws a
  space for each rune it deletes, so that the length of what was typed is seen.\<close>

theorem password_echo:
  assumes "\<not> tm_echo t" "handleKey key t = Ran (t', out)"
  shows "(key \<notin> {keyEnter, keyDeleteLine, keyClearScreen} \<longrightarrow> tm_outBuf t' = tm_outBuf t) \<and>
    (key = keyEnter \<longrightarrow> tm_outBuf t' = tm_outBuf t @ [CHR 0x0D, CHR 0x0A]) \<and>
    (key = keyDeleteLine \<longrightarrow> \<not> tm_pasteActive t \<longrightarrow> (\<exists>b. tm_outBuf t' = tm_outBuf t @ b \<and>
      length (filter (\<lambda>c. c = CHR 0x20) b) = length (tm_line t) - tm_pos t))"
proof (intro conjI impI)
  assume "key \<notin> {keyEnter, keyDeleteLine, keyClearScreen}"
  then show "tm_outBuf t' = tm_outBuf t" using assms silent_edit [of t key] silent_add [OF assms(1)]
    by (auto simp: handleKey_def and_then_Ran silent_def split: if_splits)
next
  assume "key = keyEnter"
  moreover have "string_of [13, 10] = [CHR 0x0D, CHR 0x0A]" by code_simp
  ultimately show "tm_outBuf t' = tm_outBuf t @ [CHR 0x0D, CHR 0x0A]" using assms
    by (auto simp: handleKey_def enterLine_def silent_move Let_def queue_def)
next
  assume k: "key = keyDeleteLine" "\<not> tm_pasteActive t"
  then have "deleteLine t = Ran t'"
    using assms(2) by (auto simp: handleKey_def editKey_def key_defs and_then_Ran)
  then obtain t1 where t1: "blankRest (length (tm_line t) - tm_pos t) t = Ran t1"
    "goto (tm_pos t1) (t1\<lparr>tm_line := take (tm_pos t1) (tm_line t1)\<rparr>) = Ran t'"
    by (auto simp: deleteLine_def and_then_Ran split: if_splits)
  have "tm_outBuf t' = tm_outBuf t1" using t1(2) blank_echo [OF t1(1)] assms(1) by (auto simp: silent_goto)
  then show "\<exists>b. tm_outBuf t' = tm_outBuf t @ b \<and> length (filter (\<lambda>c. c = CHR 0x20) b) = length (tm_line t) - tm_pos t"
    using silent_blank [OF t1(1)] by simp
qed

text \<open>A password of six letters, of which the second half is deleted.\<close>

lemma demo_deleted:
  "(case run_password 1 (typed_console [''secret'' @ [CHR 0x01, CHR 0x1B] @ ''[C'']) of
      Ran c \<Rightarrow> (case handleKey keyDeleteLine (con_term c) of Ran x \<Rightarrow> length (tm_line (con_term c)) = 6 \<and> tm_pos (con_term c) = 1 \<and>
        \<not> tm_echo (con_term c) \<and> \<not> tm_pasteActive (con_term c) | _ \<Rightarrow> False) | _ \<Rightarrow> False)"
  by code_simp

theorem password_echo_witness:
  "\<exists>c t' out b. run_password 1 (typed_console [''secret'' @ [CHR 0x01, CHR 0x1B] @ ''[C'']) = Ran c \<and>
    \<not> tm_echo (con_term c) \<and> handleKey keyDeleteLine (con_term c) = Ran (t', out) \<and>
    tm_outBuf t' = tm_outBuf (con_term c) @ b \<and> length (filter (\<lambda>x. x = CHR 0x20) b) = 5"
proof -
  obtain c t' out where c: "run_password 1 (typed_console [''secret'' @ [CHR 0x01, CHR 0x1B] @ ''[C'']) = Ran c"
    "handleKey keyDeleteLine (con_term c) = Ran (t', out)" "length (tm_line (con_term c)) = 6" "tm_pos (con_term c) = 1"
    "\<not> tm_echo (con_term c)" "\<not> tm_pasteActive (con_term c)"
    using demo_deleted by (auto split: step.splits)
  obtain b where "tm_outBuf t' = tm_outBuf (con_term c) @ b"
    "length (filter (\<lambda>x. x = CHR 0x20) b) = length (tm_line (con_term c)) - tm_pos (con_term c)"
    using password_echo [OF c(5,2)] c(6) by blast
  moreover from this have "length (filter (\<lambda>x. x = CHR 0x20) b) = 5" using c(3,4) by simp
  ultimately show ?thesis using c(1,2,5) by blast
qed

text \<open>A password that comes back. When the key for the previous line is pressed while a password is read, what has been
  typed is kept for the return from the history, and nothing forgets it: after \<open>ReadPassword\<close> has returned, with another
  line, the key for the next line makes it the line that is being edited, with the echo on.\<close>

theorem password_comes_back:
  assumes "term_ok t" "tm_AutoComplete t = None" "\<not> tm_echo t" "\<not> tm_pasteActive t"
    and "tm_historyIndex t = -1" "ring_lines (tm_history t) \<noteq> []" "\<forall>r \<in> set (tm_line t). scalar r"
  shows "\<exists>t1 t2 l t3. handleKey keyUp t = Ran (t1, None) \<and> handleKey keyEnter t1 = Ran (t2, Some l) \<and>
    handleKey keyDown (leave (Some prompt) t2) = Ran (t3, None) \<and> tm_line t3 = tm_line t \<and> tm_echo t3"
proof -
  have none: "press False keyUp e = (older_line e, None)" "press False keyDown e = (newer_line e, None)" for e
    by (simp_all add: press_def edit_def key_defs)
  obtain t1 o1 where t1: "handleKey keyUp t = Ran (t1, o1)" "term_ok t1" "kept t t1"
    "press (tm_pasteActive t) keyUp (editor_of t) = (editor_of t1, o1)"
    using handleKey_press [OF assms(1,2), of keyUp] by blast
  have e1: "o1 = None" "ed_back (editor_of t1) = 1" "ed_pending (editor_of t1) = string_of (tm_line t)"
    using t1(4) assms(4-6) by (auto simp: none older_line_def show_line_def editor_of_def ed_text_def)
  obtain t2 o2 where t2: "handleKey keyEnter t1 = Ran (t2, o2)" "term_ok t2" "kept t1 t2"
    "press (tm_pasteActive t1) keyEnter (editor_of t1) = (editor_of t2, o2)"
    using handleKey_press [OF t1(2), of keyEnter] t1(3) assms(2) by (auto simp: kept_def)
  have "editor_of t2 = (editor_of t1)\<lparr>ed_left := [], ed_right := []\<rparr>" "o2 = Some (string_of (ed_text (editor_of t1)))"
    using t2(4) by (simp_all add: press_def)
  then have e2: "\<exists>l. o2 = Some l" "ed_back (editor_of t2) = 1" "ed_pending (editor_of t2) = string_of (tm_line t)"
    using e1(2,3) by simp_all
  define u where "u = leave (Some prompt) t2"
  have u: "term_ok u" "tm_AutoComplete u = None" "\<not> tm_pasteActive u" "editor_of u = editor_of t2" "tm_echo u"
    using t2(2,3) t1(3) assms(2,4) by (simp_all add: u_def leave_def term_ok_def kept_def editor_of_def)
  obtain t3 o3 where t3: "handleKey keyDown u = Ran (t3, o3)" "kept u t3" "press False keyDown (editor_of u) = (editor_of t3, o3)"
    using handleKey_press [OF u(1,2), of keyDown] u(3) by auto
  have "o3 = None" "editor_of t3 = show_line (string_of (tm_line t)) ((editor_of t2)\<lparr>ed_back := 0\<rparr>)"
    using t3(3) e2(2,3) u(4) by (simp_all add: none newer_line_def)
  then have "take (tm_pos t3) (tm_line t3) = tm_line t" "drop (tm_pos t3) (tm_line t3) = []"
    using runes_of_string [OF assms(7)] by (simp_all add: show_line_def editor_of_def)
  then have "tm_line t3 = tm_line t" by (metis append_Nil2 append_take_drop_id)
  then show ?thesis using t1(1) e1(1) t2(1) e2(1) t3(1,2) u(5) \<open>o3 = None\<close> by (auto simp: u_def kept_def)
qed

text \<open>A command, then a password with the history, then a prompt at which the password is shown.\<close>

definition leak_input :: "string list" where
  "leak_input = [''ls'' @ [CHR 0x0D], ''pw'', [CHR 0x1B] @ ''[A'' @ [CHR 0x0D], [CHR 0x1B] @ ''[B'']"

lemma demo_leak:
  "(case and_then (run_line 1 (typed_console leak_input)) (run_password 1) of
      Ran c \<Rightarrow> term_ok (con_term c) \<and> (case tm_AutoComplete (con_term c) of None \<Rightarrow> True | _ \<Rightarrow> False) \<and> \<not> tm_echo (con_term c) \<and>
        \<not> tm_pasteActive (con_term c) \<and> tm_historyIndex (con_term c) = -1 \<and> ring_lines (tm_history (con_term c)) \<noteq> [] \<and>
        tm_line (con_term c) = [112, 119]
    | _ \<Rightarrow> False)"
  by code_simp

lemma demo_shown:
  "(case and_then (and_then (run_line 1 (typed_console leak_input)) (run_password 2)) (run_line 1) of
      Ran c \<Rightarrow> drop (length (tm_out (con_term c)) - 2) (tm_out (con_term c)) = ''pw'' | _ \<Rightarrow> False)"
  by code_simp

theorem password_comes_back_witness:
  "\<exists>c t1 t2 l t3. and_then (run_line 1 (typed_console leak_input)) (run_password 1) = Ran c \<and>
    handleKey keyUp (con_term c) = Ran (t1, None) \<and> handleKey keyEnter t1 = Ran (t2, Some l) \<and>
    handleKey keyDown (leave (Some (runes_of ''> '')) t2) = Ran (t3, None) \<and> tm_line t3 = [112, 119] \<and> tm_echo t3"
proof -
  obtain c where c: "and_then (run_line 1 (typed_console leak_input)) (run_password 1) = Ran c" "term_ok (con_term c)"
    "tm_AutoComplete (con_term c) = None" "\<not> tm_echo (con_term c)" "\<not> tm_pasteActive (con_term c)"
    "tm_historyIndex (con_term c) = -1" "ring_lines (tm_history (con_term c)) \<noteq> []" "tm_line (con_term c) = [112, 119]"
    using demo_leak by (auto split: step.splits option.splits)
  have "\<forall>r \<in> set (tm_line (con_term c)). scalar r" by (simp add: c(8) scalar_def surrogate_def)
  from password_comes_back [OF c(2-7) this, of "runes_of ''> ''"] c(1,8) show ?thesis by auto
qed

text \<open>A sequence that fills the buffer. When the 256 bytes of the buffer are a sequence that has not ended, a call of
  \<open>ReadLine\<close> reads nothing more: it goes through its loop without an end, whatever the connection has for it.\<close>

theorem full_buffer_hangs:
  assumes "stuck (con_term c)" "con_reading c = Waits p old"
  shows "\<exists>c'. readOn n c = Ran c' \<and> con_reading c' = Waits p old \<and> stuck (con_term c') \<and>
    tm_in (con_term c') = tm_in (con_term c) \<and> tm_line (con_term c') = tm_line (con_term c)"
  using assms
proof (induction n arbitrary: c)
  case (Suc n)
  obtain t where c: "c = \<lparr>con_term = t, con_reading = Waits p old\<rparr>" using Suc.prems(2) by (cases c) simp
  obtain t' where t': "readStep c = Ran \<lparr>con_term = t', con_reading = Waits p old\<rparr>" "stuck t'" "tm_in t' = tm_in t"
    "tm_line t' = tm_line t"
    using stuck_step [of t p old] Suc.prems(1) by (auto simp: c)
  show ?case using Suc.IH [of "\<lparr>con_term = t', con_reading = Waits p old\<rparr>"] t' by (simp add: c)
qed simp

definition long_sequence :: string where
  "long_sequence = CHR 0x1B # replicate 255 (CHR ''0'')"

lemma demo_stuck:
  "(case run_line 1 (typed_console [long_sequence, [CHR 0x0D]]) of
      Ran c \<Rightarrow> stuck (con_term c) \<and> (case con_reading c of Waits p old \<Rightarrow> True | _ \<Rightarrow> False) \<and> tm_in (con_term c) = [([CHR 0x0D], None)]
    | _ \<Rightarrow> False)"
  by code_simp

theorem full_buffer_hangs_witness:
  "\<forall>n. \<exists>c. run_line (Suc n) (typed_console [long_sequence, [CHR 0x0D]]) = Ran c \<and> is_Waits (con_reading c) \<and>
    tm_in (con_term c) = [([CHR 0x0D], None)]"
proof
  fix n
  obtain c1 c p old where c: "ReadLine (con_term (typed_console [long_sequence, [CHR 0x0D]])) = Ran c1" "readOn 1 c1 = Ran c"
    "stuck (con_term c)" "con_reading c = Waits p old" "tm_in (con_term c) = [([CHR 0x0D], None)]"
    using demo_stuck by (auto simp: run_line_def and_then_Ran split: step.splits reading.splits)
  obtain c' where "readOn n c = Ran c'" "con_reading c' = Waits p old" "tm_in (con_term c') = [([CHR 0x0D], None)]"
    using full_buffer_hangs [OF c(3,4), of n] c(5) by auto
  moreover have "readOn (Suc n) c1 = readOn n c"
  proof (cases "is_Waits (con_reading c1)")
    case True
    then obtain c2 where "readStep c1 = Ran c2" "c2 = c" using c(2) by (auto simp: and_then_Ran)
    then show ?thesis using True by simp
  next
    case False
    then show ?thesis using c(2) by (simp add: readOn_done)
  qed
  ultimately show "\<exists>c. run_line (Suc n) (typed_console [long_sequence, [CHR 0x0D]]) = Ran c \<and> is_Waits (con_reading c) \<and>
      tm_in (con_term c) = [([CHR 0x0D], None)]"
    using c(1) by (auto simp: run_line_def simp del: readOn.simps)
qed

text \<open>A password in a window that is resized. While the echo is off, a change of the width writes the line that has been
  typed so far to the connection, rune by rune.\<close>

theorem resize_shows_password:
  assumes "session_ok t" "\<not> tm_echo t" "tm_line t \<noteq> []" "0 < tm_writes t" "0 < width" "width \<noteq> tm_termWidth t"
  shows "\<exists>t' pre b. SetSize width height t = Ran (True, t') \<and> tm_out t' = tm_out t @ pre @ b \<and>
    no_lf b = no_lf (string_of (tm_line t))"
proof -
  define u where "u = t\<lparr>tm_termWidth := width, tm_termHeight := height\<rparr>"
  define v where "v = (if width < tm_termWidth t then
      (let t1 = (if width \<le> tm_cursorX u then u\<lparr>tm_cursorX := width - 1\<rparr> else u) in t1\<lparr>tm_cursorY := tm_cursorY t1 * 2\<rparr>) else u)"
  define n where "n = (if width < tm_termWidth t then tm_maxLine v * 2 else tm_maxLine v)"
  have v: "session_ok v" "\<not> tm_echo v" "tm_line v = tm_line t" "tm_out v = tm_out t" "tm_writes v = tm_writes t"
    using assms session_fits [OF assms(1)]
    by (auto simp: session_ok_def term_ok_def callback_ok_def v_def u_def Let_def)
  obtain t1 where t1: "clearAndRepaint n v = Ran t1" using clearAndRepaint_runs [OF v(1)] by blast
  obtain pre b where b: "tm_outBuf t1 = pre @ b" "no_lf b = no_lf (string_of (tm_line t))" "tm_out t1 = tm_out t" "tm_writes t1 = tm_writes t"
    using repaint_shows [OF v(1,2) t1] v(3-5) by auto
  have "SetSize width height t = and_then (clearAndRepaint n v)
      (\<lambda>t1. let (ok, t2) = conn_write (tm_outBuf t1) t1 in Ran (ok, t2\<lparr>tm_outBuf := []\<rparr>))"
    using assms(3,5,6) by (auto simp: SetSize_def Let_def n_def v_def u_def)
  then show ?thesis using t1 b assms(4) by (simp add: conn_write_def) blast
qed

lemma demo_password:
  "(case run_password 1 (typed_console [''secret'']) of
      Ran c \<Rightarrow> tm_line (con_term c) = runes_of ''secret'' \<and> \<not> tm_echo (con_term c) \<and> 0 < tm_writes (con_term c) \<and>
        tm_termWidth (con_term c) = 80 \<and> term_ok (con_term c) \<and> tm_remainder (con_term c) = [] \<and>
        (case tm_AutoComplete (con_term c) of None \<Rightarrow> True | _ \<Rightarrow> False)
    | _ \<Rightarrow> False)"
  by code_simp

lemma secret_string: "runes_of ''secret'' \<noteq> [] \<and> no_lf (string_of (runes_of ''secret'')) = ''secret''"
  by code_simp

theorem resize_shows_password_witness:
  "\<exists>c t' pre b. run_password 1 (typed_console [''secret'']) = Ran c \<and> SetSize 40 24 (con_term c) = Ran (True, t') \<and>
    tm_out t' = tm_out (con_term c) @ pre @ b \<and> no_lf b = ''secret''"
proof -
  obtain c where c: "run_password 1 (typed_console [''secret'']) = Ran c" "tm_line (con_term c) = runes_of ''secret''"
    "\<not> tm_echo (con_term c)" "0 < tm_writes (con_term c)" "tm_termWidth (con_term c) = 80" "term_ok (con_term c)"
    "tm_remainder (con_term c) = []" "tm_AutoComplete (con_term c) = None"
    using demo_password by (auto split: step.splits option.splits)
  have "session_ok (con_term c)" using c(6-8) by (simp add: session_ok_def callback_ok_def)
  from resize_shows_password [OF this c(3) _ c(4), of 40 24] c(1,2,5) secret_string show ?thesis by auto
qed

section \<open>Further behaviour\<close>

text \<open>A byte that is not UTF-8 ends the loop over the keys, as the start of a key that is still to come does: the Enter
  after it, which has been read, is not handled before there is more input.\<close>

lemma invalid_byte_waits:
  "(case run_line 1 (typed_console [[CHR 0xFF, CHR 0x0D]]) of
      Ran c \<Rightarrow> is_Waits (con_reading c) \<and> tm_remainder (con_term c) = [CHR 0x0D] \<and> (case readStep c of Blocks \<Rightarrow> True | _ \<Rightarrow> False)
    | _ \<Rightarrow> False)"
  by code_simp

text \<open>The greatest length of a line does not hold for text that is pasted.\<close>

lemma pasted_line_grows:
  assumes "term_ok t" "tm_AutoComplete t = None" "tm_pasteActive t" "key \<noteq> keyEnter"
  shows "\<exists>t'. handleKey key t = Ran (t', None) \<and> length (tm_line t') = Suc (length (tm_line t))"
proof -
  obtain t' out where t': "handleKey key t = Ran (t', out)" "press (tm_pasteActive t) key (editor_of t) = (editor_of t', out)"
    using handleKey_press [OF assms(1,2)] by blast
  have whole: "ed_text (editor_of u) = tm_line u" for u :: "'a Terminal" by (simp add: ed_text_def editor_of_def)
  have "editor_of t' = insert_rune key (editor_of t)" "out = None" using t'(2) assms(3,4) by (simp_all add: press_def)
  moreover have "length (ed_text (insert_rune key (editor_of t))) = Suc (length (ed_text (editor_of t)))"
    by (simp add: ed_text_def insert_rune_def)
  ultimately show ?thesis using t'(1) whole by metis
qed

end
