(* ===== verification/Spec2Isabelle.thy ===== *)
theory Spec2Isabelle
  imports Clean_Path Router_Properties Router Dispatcher Ssh_Mux Server_Stop Ssh_Handshake Ssh_Login Ssh_Session Ssh_Forward Terminal_Properties
begin

text \<open>
  Verification of the Go package \<^verbatim>\<open>sshh\<close>, a server that dispatches the channels of SSH connections
  to handlers by their URL, and of the vendored packages it stands on.

  \<^bold>\<open>The program.\<close> A \<^verbatim>\<open>Server\<close> (\<^verbatim>\<open>server.go\<close>, \<^verbatim>\<open>config.go\<close>) accepts connections and runs each of them on a
  goroutine of a task reaper (\<^verbatim>\<open>grim/reaper.go\<close>), under a tree of contexts (\<^verbatim>\<open>x/net/context\<close>). A connection
  goes through the SSH handshake of \<^verbatim>\<open>x/crypto/ssh\<close>: versions (\<^verbatim>\<open>transport.go\<close>), key exchange
  (\<^verbatim>\<open>handshake.go\<close>, \<^verbatim>\<open>kex.go\<close>) over packets that a cipher protects (\<^verbatim>\<open>transport.go\<close>, \<^verbatim>\<open>cipher.go\<close>, \<^verbatim>\<open>mac.go\<close>), and user
  authentication (\<^verbatim>\<open>server.go\<close>). The mux (\<^verbatim>\<open>mux.go\<close>) then reads packets and hands them to channels
  (\<^verbatim>\<open>channel.go\<close>), which keep flow control (\<^verbatim>\<open>buffer.go\<close>, \<^verbatim>\<open>common.go\<close>). A channel the peer opens goes to a
  dispatcher (\<^verbatim>\<open>dispatcher.go\<close>), which parses its type as a URI, and the router (\<^verbatim>\<open>router/router.go\<close>)
  finds the handler in a tree of path patterns (\<^verbatim>\<open>router/tree.go\<close>).

  \<^bold>\<open>The theories.\<close>
  \<^item> \<^verbatim>\<open>Prelude\<close>: panics as values, steps that may wait or panic (\<^typ>\<open>'a step\<close>), slices, lists.
  \<^item> \<^verbatim>\<open>Clean_Path\<close> (\<^verbatim>\<open>router/path.go\<close>): the rewriting in place, and the specification by a stack of elements.
  \<^item> \<^verbatim>\<open>Router_Tree\<close>, \<^verbatim>\<open>Router_Lookup\<close>, \<^verbatim>\<open>Router_CaseFold\<close> (\<^verbatim>\<open>router/tree.go\<close>): registration, lookup, and the
    lookup that ignores case. \<^verbatim>\<open>Route_Patterns\<close> says what a pattern matches; \<^verbatim>\<open>Router_Invariant\<close>,
    \<^verbatim>\<open>Router_Insert\<close> and \<^verbatim>\<open>Router_Walk\<close> hold the invariant of the tree and show that insertion keeps it;
    \<^verbatim>\<open>Route_Table\<close> is the contract of a route table as a locale, interpreted on the tree, and
    \<^verbatim>\<open>Router_Properties\<close> what follows for the code.
  \<^item> \<^verbatim>\<open>Router\<close> (\<^verbatim>\<open>router/router.go\<close>, \<^verbatim>\<open>router/handler.go\<close>): \<open>Handle\<close> with its deferred \<open>recover\<close>.
  \<^item> \<^verbatim>\<open>Go_Strings\<close>, \<^verbatim>\<open>Go_Url\<close>: the parts of the standard library the router and the dispatcher use.
  \<^item> \<^verbatim>\<open>Interfaces\<close>, \<^verbatim>\<open>Dispatcher\<close> (\<^verbatim>\<open>dispatcher.go\<close>, \<^verbatim>\<open>rejects.go\<close>, \<^verbatim>\<open>handler.go\<close>): both dispatchers over the
    contract of \<open>ssh.NewChannel\<close>, which the channel of \<^verbatim>\<open>Ssh_Channel\<close> keeps.
  \<^item> \<^verbatim>\<open>Net_Context\<close> (\<^verbatim>\<open>context.go\<close>): a memory of cells for what contexts share.
  \<^item> \<^verbatim>\<open>Server\<close>, \<^verbatim>\<open>Server_Invariant\<close>, \<^verbatim>\<open>Server_Stop\<close> (\<^verbatim>\<open>server.go\<close>, \<^verbatim>\<open>config.go\<close>, \<^verbatim>\<open>reaper.go\<close>): the goroutines
    of the server as steps that interleave in any order, their invariant, and what \<open>Stop\<close> achieves.
  \<^item> \<^verbatim>\<open>Ssh_Wire\<close> (\<^verbatim>\<open>messages.go\<close>): \<open>Marshal\<close> and \<open>Unmarshal\<close> over descriptions of the struct types.
  \<^item> \<^verbatim>\<open>Ssh_Cipher\<close> (\<^verbatim>\<open>cipher.go\<close>, \<^verbatim>\<open>mac.go\<close>), \<^verbatim>\<open>Ssh_Transport\<close> (\<^verbatim>\<open>transport.go\<close>, \<^verbatim>\<open>common.go\<close>): packets under the
    three kinds of ciphers, key material, and the two sides of a connection.
  \<^item> \<^verbatim>\<open>Ssh_Kex\<close> (\<^verbatim>\<open>kex.go\<close>): key exchange as programs that read and write packets;
    \<^verbatim>\<open>Ssh_Handshake\<close> (\<^verbatim>\<open>handshake.go\<close>): the goroutines of the handshake transport, its mutex and condition.
  \<^item> \<^verbatim>\<open>Ssh_Keys\<close> (\<^verbatim>\<open>keys.go\<close>, \<^verbatim>\<open>certs.go\<close>): public keys and certificates; \<^verbatim>\<open>Ssh_Auth\<close> (\<^verbatim>\<open>server.go\<close> of the package
    \<^verbatim>\<open>ssh\<close>): user authentication; \<^verbatim>\<open>Ssh_ClientAuth\<close> (\<^verbatim>\<open>client_auth.go\<close>, \<^verbatim>\<open>client.go\<close>): the client's side of it;
    \<^verbatim>\<open>Ssh_Login\<close>: the two sides against each other.
  \<^item> \<^verbatim>\<open>Ssh_Session\<close> (\<^verbatim>\<open>session.go\<close>), \<^verbatim>\<open>Ssh_Forward\<close> (\<^verbatim>\<open>tcpip.go\<close>): remote commands, and forwarded TCP connections, whose
    list of listeners several goroutines share, as steps that interleave.
  \<^item> \<^verbatim>\<open>Ssh_Flow\<close>, \<^verbatim>\<open>Ssh_Channel\<close>, \<^verbatim>\<open>Ssh_Mux\<close>: windows and buffers, channels, the mux.
  \<^item> \<^verbatim>\<open>Term_History\<close>, \<^verbatim>\<open>Terminal\<close>, \<^verbatim>\<open>Terminal_Lines\<close> (\<^verbatim>\<open>terminal/terminal.go\<close>): the line editor that the example shell
    reads its commands with: the history as a ring, of which the locale \<open>line_history\<close> is the contract; keys, drawing and editing;
    and the calls that read lines, as steps between which other calls run. \<^verbatim>\<open>Terminal_Edit\<close> and \<^verbatim>\<open>Terminal_Spec\<close> hold the editor
    on two lists that \<open>handleKey\<close> refines, \<^verbatim>\<open>Terminal_Properties\<close> what is typed, shown and returned.
  \<^item> This theory: the properties that span components.

  \<^bold>\<open>How the code is modelled.\<close> A struct is a record, an integer of a fixed width a word, a slice a list with
  every access out of range written out as a panic. Go maps are functions to options or lists of entries. An
  error is the left side of a sum, a panic a value of \<^typ>\<open>panic\<close>. What goroutines share is a state; a function
  that may wait is a step that is \<^const>\<open>Blocks\<close> until the state has changed, and the theorems hold for
  every interleaving. Where pointers are shared (contexts, channels of the mux) there is a memory with addresses.
  Functions that are given by the application or by packages outside the repository are arguments: handlers and
  callbacks, the network, randomness, and cryptography, whose laws are named hypotheses (\<open>prims_ok\<close>,
  \<open>stream_cipher\<close>, \<open>ecdh_ok\<close>, \<open>signer_ok\<close>).

  \<^bold>\<open>What is shown.\<close> For the router: exactly which routes are accepted, that lookups find exactly the routes that
  match, that the order of registration does not matter, and that no path makes a lookup panic. For the dispatchers and
  the server: every channel is answered, \<open>Stop\<close> returns when the peers let it, and what is closed then. For the
  protocol: round trips of messages, keys and packets; which packets crash the decoder; who can log in; that a client with
  the right password, key or answers and the server let each other in; that both ends of a key exchange agree; that nothing but the exchange is written during one; that windows are kept. For the client's side:
  what \<open>Wait\<close> makes of the end of a command, who gets a forwarded connection, and when a listener can not be closed. For the terminal: that the
  editor does what its keys say, that no interleaving of its calls panics, that the line returned is the one typed, and
  when a password is seen. Where
  the code does not do what it means to, the theorem states what it does.

  \<^bold>\<open>Loops and bounds.\<close> Loops are recursive functions that are proved to end, with measures where the recursion is not
  structural. \<open>cancel\<close> of a context is given as fuel the number of cells of the memory and one more, which is enough,
  as the children of a cell have greater addresses. The loop of \<open>generateKeyMaterial\<close> would not end for a hash with
  empty digests; that run is \<^const>\<open>None\<close>. The loop of the mux and the goroutines of the server and of the handshake
  transport, which may run for ever, are step relations. \<open>talk\<close>, which runs two sides of a key exchange against each
  other, has fuel, and five steps are shown to be enough. Each round of \<open>readLine\<close> ends, as every key takes bytes from the input;
  the rounds need not, and \<open>readOn\<close> runs a number of them.

  \<^bold>\<open>Not modelled.\<close> Private keys and signers and the format of \<^verbatim>\<open>authorized_keys\<close> (\<^verbatim>\<open>keys.go\<close>); the agent of
  the package \<^verbatim>\<open>ssh\<close>, which the server does not call, and the functions of \<^verbatim>\<open>client.go\<close> and \<^verbatim>\<open>tcpip.go\<close> that dial textual addresses
  and start goroutines; the raw mode of terminals (\<^verbatim>\<open>terminal/util.go\<close>), which is system calls; logging and coloured output (\<^verbatim>\<open>mgutz\<close>, \<^verbatim>\<open>mattn\<close>), which is input and
  output without logic of its own; test libraries and the examples, which are not part of the server.
\<close>

section \<open>Logging in to the server\<close>


text \<open>A client that logs in with a password.\<close>

definition login_config :: "(nat, unit \<Rightarrow> bytes \<Rightarrow> bytes \<Rightarrow> unit \<times> (unit + permissions option),
    unit \<Rightarrow> bytes \<Rightarrow> public_key \<Rightarrow> unit \<times> (unit + permissions option), unit \<Rightarrow> bytes \<Rightarrow> (unit, unit) dialog, unit,
    unit, unit) Config" where
  "login_config = \<lparr>cfg_Context = None, cfg_Bind = [], cfg_PrivateKey = 1,
     cfg_PasswordCallback = Some (\<lambda>w user pw. (w, if user = [117] \<and> pw = [112] then Inr None else Inl ())),
     cfg_PublicKeyCallback = None, cfg_AuthLogCallback = None, cfg_sshConfig = None\<rparr>"

definition login_packets :: "(unit, unit) auth" where
  "login_packets = small_auth\<lparr>a_in := [Inr [21], Inr (5 # writeString (bytes_of ''ssh-userauth'')), Inr (password_packet [112])]\<rparr>"

lemma login_run:
  "(case serverHandshake small_crypto small_net NoAddr [] (SSHConfig (\<lambda>k. []) login_config) None login_packets of
      Ran (Inr (None, m), a) \<Rightarrow> True | _ \<Rightarrow> False)"
  by code_simp


section \<open>A client and a server\<close>



end
